(* ===== verification/Prelude.thy ===== *)
theory Prelude
  imports Main "HOL-Library.Word" "HOL-Library.AList" "HOL-Library.Multiset"
begin

text \<open>
  Shared vocabulary of the development: bytes and strings, JavaScript's \<open>Map\<close> and \<open>Set\<close> with
  their insertion order, results that carry a thrown error, the stable array sort, ASCII case
  folding, hexadecimal and decimal rendering, and byte-lexicographic comparison. The lemmas are
  the generic facts that the component theories use; those meant for the simplifier are declared
  here or collected in \<open>jsmap_simps\<close> and \<open>res_simps\<close>.
\<close>

named_theorems jsmap_simps "lookups and keys of insertion-ordered maps"
named_theorems res_simps "results that carry a thrown error"

section \<open>Bytes\<close>

type_synonym byte = "8 word"
type_synonym bytes = "byte list"

text \<open>A CID is identified with its binary form \<open>cid.bytes\<close>; \<open>toString\<close> is injective on it, so a
  map keyed by \<open>cid.toString()\<close> is modelled as a map keyed by the CID.\<close>

type_synonym cid = bytes

section \<open>Insertion-ordered maps and sets\<close>

text \<open>
  A JavaScript \<open>Map\<close> iterates in insertion order, and \<open>set\<close> on an existing key keeps its
  position. That is the association list of the library with \<open>AList.update\<close>,
  \<open>AList.delete\<close> and \<open>map_of\<close>.
\<close>

type_synonym ('k, 'v) jsmap = "('k \<times> 'v) list"

abbreviation jget :: "('k, 'v) jsmap \<Rightarrow> 'k \<Rightarrow> 'v option" where
  "jget m k \<equiv> map_of m k"

abbreviation jset :: "'k \<Rightarrow> 'v \<Rightarrow> ('k, 'v) jsmap \<Rightarrow> ('k, 'v) jsmap" where
  "jset \<equiv> AList.update"

abbreviation jdel :: "'k \<Rightarrow> ('k, 'v) jsmap \<Rightarrow> ('k, 'v) jsmap" where
  "jdel \<equiv> AList.delete"

abbreviation jkeys :: "('k, 'v) jsmap \<Rightarrow> 'k list" where
  "jkeys m \<equiv> map fst m"

abbreviation jvalues :: "('k, 'v) jsmap \<Rightarrow> 'v list" where
  "jvalues m \<equiv> map snd m"

definition jhas :: "('k, 'v) jsmap \<Rightarrow> 'k \<Rightarrow> bool" where
  "jhas m k = (jget m k \<noteq> None)"

definition jwf :: "('k, 'v) jsmap \<Rightarrow> bool" where
  "jwf m = distinct (jkeys m)"

text \<open>A JavaScript \<open>Set\<close>: a duplicate-free list, new members at the end.\<close>

definition sadd :: "'a \<Rightarrow> 'a list \<Rightarrow> 'a list" where
  "sadd x xs = (if x \<in> set xs then xs else xs @ [x])"

lemma jget_jset [jsmap_simps]: "jget (jset k v m) k' = (if k' = k then Some v else jget m k')"
  by (simp add: update_conv')

lemma jget_jdel [jsmap_simps]: "jget (jdel k m) k' = (if k' = k then None else jget m k')"
  by (simp add: delete_conv')

lemma jwf_Nil [simp]: "jwf []"
  by (simp add: jwf_def)

lemma jwf_jset [intro]: "jwf m \<Longrightarrow> jwf (jset k v m)"
  by (simp add: jwf_def distinct_update)

lemma jwf_jdel [intro]: "jwf m \<Longrightarrow> jwf (jdel k m)"
  by (simp add: jwf_def distinct_delete)

lemma jwf_filter [intro]: "jwf m \<Longrightarrow> jwf (filter P m)"
  by (simp add: jwf_def distinct_map_filter)

lemma jwf_Cons: "jwf ((k, v) # m) \<longleftrightarrow> k \<notin> fst ` set m \<and> jwf m"
  by (simp add: jwf_def)

lemma jhas_iff: "jhas m k \<longleftrightarrow> k \<in> fst ` set m"
  unfolding jhas_def by (simp add: map_of_eq_None_iff)

lemma jget_mem: "jwf m \<Longrightarrow> (k, v) \<in> set m \<longleftrightarrow> jget m k = Some v"
  by (simp add: jwf_def)

lemma jget_SomeD: "jget m k = Some v \<Longrightarrow> (k, v) \<in> set m"
  by (rule map_of_SomeD)

lemma keys_jset: "fst ` set (jset k v m) = insert k (fst ` set m)"
  by (metis dom_map_of_conv_image_fst dom_fun_upd option.simps(3) update_conv')

lemma keys_jdel: "fst ` set (jdel k m) = fst ` set m - {k}"
  by (induction m) auto

lemma jset_new: "k \<notin> fst ` set m \<Longrightarrow> jset k v m = m @ [(k, v)]"
  by (induction m) auto

lemma length_jset: "length (jset k v m) = (if jhas m k then length m else Suc (length m))"
  by (induction m) (auto simp: jhas_def)

lemma length_jdel: "jwf m \<Longrightarrow> jhas m k \<Longrightarrow> length (jdel k m) = length m - 1"
proof (induction m)
  case Nil
  then show ?case by (simp add: jhas_def)
next
  case (Cons p m)
  obtain a b where p: "p = (a, b)" by (cases p)
  show ?case
  proof (cases "a = k")
    case True
    with Cons.prems(1) p have "k \<notin> fst ` set m" by (simp add: jwf_Cons)
    then have "jdel k m = m" by (simp add: delete_id)
    with True p show ?thesis by simp
  next
    case False
    with Cons p have "length (jdel k m) = length m - 1" and "m \<noteq> []"
      by (auto simp: jwf_Cons jhas_def)
    with False p show ?thesis by (cases m) auto
  qed
qed

lemma jdel_filter: "jdel k m = filter (\<lambda>kv. fst kv \<noteq> k) m"
  by (induction m) auto

lemma set_jset_subset: "set (jset k v m) \<subseteq> insert (k, v) (set m)"
  by (induction m) auto

lemma jvalues_jset_new: "k \<notin> fst ` set m \<Longrightarrow> jvalues (jset k v m) = jvalues m @ [v]"
  by (simp add: jset_new)

lemma set_sadd [simp]: "set (sadd x xs) = insert x (set xs)"
  by (auto simp: sadd_def)

lemma distinct_sadd [intro]: "distinct xs \<Longrightarrow> distinct (sadd x xs)"
  by (simp add: sadd_def)

section \<open>Results that carry a thrown error\<close>

definition sbind :: "'e + 'a \<Rightarrow> ('a \<Rightarrow> 'e + 'b) \<Rightarrow> 'e + 'b" where
  "sbind r f = (case r of Inl e \<Rightarrow> Inl e | Inr x \<Rightarrow> f x)"

lemma sbind_simps [simp, res_simps]:
  "sbind (Inl e) f = Inl e"
  "sbind (Inr x) f = f x"
  by (simp_all add: sbind_def)

lemma sbind_Inr_iff [res_simps]: "sbind r f = Inr y \<longleftrightarrow> (\<exists>x. r = Inr x \<and> f x = Inr y)"
  by (cases r) auto

text \<open>\<open>traverse\<close> is a \<open>map\<close> whose callback may throw: the first throw wins.\<close>

fun traverse :: "('a \<Rightarrow> 'e + 'b) \<Rightarrow> 'a list \<Rightarrow> 'e + 'b list" where
  "traverse f [] = Inr []"
| "traverse f (x # xs) = sbind (f x) (\<lambda>y. sbind (traverse f xs) (\<lambda>ys. Inr (y # ys)))"

lemma traverse_Inr_iff: "traverse f xs = Inr ys \<longleftrightarrow> list_all2 (\<lambda>x y. f x = Inr y) xs ys"
  by (induction xs arbitrary: ys) (auto simp: sbind_Inr_iff list_all2_Cons1)

lemma traverse_total: "(\<And>x. x \<in> set xs \<Longrightarrow> f x = Inr (g x)) \<Longrightarrow> traverse f xs = Inr (map g xs)"
  by (induction xs) auto

lemma traverse_map: "traverse f (map g xs) = traverse (\<lambda>x. f (g x)) xs"
  by (induction xs) auto

lemma traverse_append:
  "traverse f (xs @ ys) = sbind (traverse f xs) (\<lambda>us. sbind (traverse f ys) (\<lambda>vs. Inr (us @ vs)))"
proof (induction xs)
  case Nil
  then show ?case by (cases "traverse f ys") auto
next
  case (Cons x xs)
  then show ?case
    by (cases "f x"; cases "traverse f xs"; cases "traverse f ys") auto
qed

lemma list_all2_memD1: "list_all2 P xs ys \<Longrightarrow> x \<in> set xs \<Longrightarrow> \<exists>y \<in> set ys. P x y"
  by (induction rule: list_all2_induct) auto

lemma list_all2_memD2: "list_all2 P xs ys \<Longrightarrow> y \<in> set ys \<Longrightarrow> \<exists>x \<in> set xs. P x y"
  by (induction rule: list_all2_induct) auto

section \<open>The stable sort\<close>

text \<open>
  \<open>Array.prototype.sort\<close> is stable; with a comparator that is a total preorder its result is
  the stable sort by that comparator, computed here by insertion. \<open>le x y\<close> is \<open>cmp(x, y) <= 0\<close>.
\<close>

fun insort_by :: "('a \<Rightarrow> 'a \<Rightarrow> bool) \<Rightarrow> 'a \<Rightarrow> 'a list \<Rightarrow> 'a list" where
  "insort_by le x [] = [x]"
| "insort_by le x (y # ys) = (if le x y then x # y # ys else y # insort_by le x ys)"

fun sort_by :: "('a \<Rightarrow> 'a \<Rightarrow> bool) \<Rightarrow> 'a list \<Rightarrow> 'a list" where
  "sort_by le [] = []"
| "sort_by le (x # xs) = insort_by le x (sort_by le xs)"

lemma mset_insort_by [simp]: "mset (insort_by le x ys) = add_mset x (mset ys)"
  by (induction ys) auto

lemma mset_sort_by [simp]: "mset (sort_by le xs) = mset xs"
  by (induction xs) auto

lemma set_insort_by [simp]: "set (insort_by le x ys) = insert x (set ys)"
  by (induction ys) auto

lemma set_sort_by [simp]: "set (sort_by le xs) = set xs"
  by (induction xs) auto

lemma length_sort_by [simp]: "length (sort_by le xs) = length xs"
  using mset_sort_by size_mset by metis

lemma distinct_sort_by [simp]: "distinct (sort_by le xs) = distinct xs"
  using mset_sort_by mset_eq_imp_distinct_iff by metis

definition total_preorder_on :: "'a set \<Rightarrow> ('a \<Rightarrow> 'a \<Rightarrow> bool) \<Rightarrow> bool" where
  "total_preorder_on A le \<longleftrightarrow>
     (\<forall>x \<in> A. \<forall>y \<in> A. le x y \<or> le y x) \<and>
     (\<forall>x \<in> A. \<forall>y \<in> A. \<forall>z \<in> A. le x y \<longrightarrow> le y z \<longrightarrow> le x z)"

lemma total_preorder_onD:
  assumes "total_preorder_on A le"
  shows "x \<in> A \<Longrightarrow> y \<in> A \<Longrightarrow> le x y \<or> le y x"
    and "x \<in> A \<Longrightarrow> y \<in> A \<Longrightarrow> z \<in> A \<Longrightarrow> le x y \<Longrightarrow> le y z \<Longrightarrow> le x z"
  using assms unfolding total_preorder_on_def by blast+

lemma total_preorder_on_subset: "total_preorder_on A le \<Longrightarrow> B \<subseteq> A \<Longrightarrow> total_preorder_on B le"
  unfolding total_preorder_on_def by blast

lemma sorted_insort_by:
  assumes "total_preorder_on (insert x (set ys)) le" and "sorted_wrt le ys"
  shows "sorted_wrt le (insort_by le x ys)"
  using assms
proof (induction ys)
  case Nil
  then show ?case by simp
next
  case (Cons y ys)
  note tot = total_preorder_onD(1) [OF Cons.prems(1)]
  note trans = total_preorder_onD(2) [OF Cons.prems(1)]
  show ?case
  proof (cases "le x y")
    case True
    then have "le x z" if "z \<in> set ys" for z
      using trans [of x y z] that Cons.prems(2) by simp
    with True Cons.prems(2) show ?thesis by simp
  next
    case False
    then have "le y x" using tot [of x y] by auto
    moreover have "sorted_wrt le (insort_by le x ys)"
      using Cons.IH Cons.prems total_preorder_on_subset
      by (metis insert_commute list.simps(15) sorted_wrt.simps(2) subset_insertI)
    ultimately show ?thesis using False Cons.prems(2) by simp
  qed
qed

lemma sorted_sort_by: "total_preorder_on (set xs) le \<Longrightarrow> sorted_wrt le (sort_by le xs)"
proof (induction xs)
  case Nil
  then show ?case by simp
next
  case (Cons x xs)
  then have "sorted_wrt le (sort_by le xs)"
    using total_preorder_on_subset by (metis list.simps(15) subset_insertI)
  with Cons.prems show ?case by (simp add: sorted_insort_by)
qed

text \<open>Two lists sorted by an order that is antisymmetric on their elements and with the same
  elements are the same list: sorting forgets the order of its input.\<close>

lemma sorted_wrt_mset_unique:
  assumes "sorted_wrt le xs" "sorted_wrt le ys" "mset xs = mset ys"
    and anti: "\<And>x y. x \<in> set xs \<Longrightarrow> y \<in> set xs \<Longrightarrow> le x y \<Longrightarrow> le y x \<Longrightarrow> x = y"
  shows "xs = ys"
  using assms
proof (induction xs arbitrary: ys)
  case Nil
  then show ?case by simp
next
  case (Cons x xs)
  then obtain y zs where ys: "ys = y # zs" by (cases ys) auto
  have "set ys = set (x # xs)" using Cons.prems(3) mset_eq_setD by metis
  then have "x \<in> set ys" and yx: "y \<in> set (x # xs)" using ys by auto
  have "x = y"
  proof (rule ccontr)
    assume "x \<noteq> y"
    with \<open>x \<in> set ys\<close> ys have "le y x" using Cons.prems(2) by auto
    moreover from \<open>x \<noteq> y\<close> yx have "le x y" using Cons.prems(1) by auto
    ultimately show False using Cons.prems(4) [of x y] yx \<open>x \<noteq> y\<close> by auto
  qed
  with Cons.prems ys have "xs = zs" by (intro Cons.IH) auto
  with \<open>x = y\<close> ys show ?case by simp
qed

lemma sort_by_mset_cong:
  assumes "mset xs = mset ys" and "total_preorder_on (set xs) le"
    and "\<And>x y. x \<in> set xs \<Longrightarrow> y \<in> set xs \<Longrightarrow> le x y \<Longrightarrow> le y x \<Longrightarrow> x = y"
  shows "sort_by le xs = sort_by le ys"
proof (rule sorted_wrt_mset_unique [of le])
  have "set xs = set ys" using assms(1) mset_eq_setD by metis
  then show "sorted_wrt le (sort_by le xs)" "sorted_wrt le (sort_by le ys)"
    using assms(2) by (simp_all add: sorted_sort_by)
  show "mset (sort_by le xs) = mset (sort_by le ys)" using assms(1) by simp
  show "x = y" if "x \<in> set (sort_by le xs)" "y \<in> set (sort_by le xs)" "le x y" "le y x" for x y
    using assms(3) that by simp
qed

lemma sort_by_id: "sorted_wrt le xs \<Longrightarrow> sort_by le xs = xs"
proof (induction xs)
  case Nil
  then show ?case by simp
next
  case (Cons x xs)
  then show ?case by (cases xs) auto
qed

section \<open>Byte-lexicographic comparison\<close>

text \<open>The comparison loop both \<open>compareCid\<close> and \<open>compareBytes\<close> run: the difference at the first
  position where the arrays differ, else \<open>None\<close>.\<close>

fun first_difference :: "bytes \<Rightarrow> bytes \<Rightarrow> int option" where
  "first_difference (x # xs) (y # ys) =
     (if x \<noteq> y then Some (uint x - uint y) else first_difference xs ys)"
| "first_difference _ _ = None"

definition byte_compare :: "bytes \<Rightarrow> bytes \<Rightarrow> int" where
  "byte_compare x y =
     (case first_difference x y of Some d \<Rightarrow> d | None \<Rightarrow> int (length x) - int (length y))"

lemma byte_compare_Nil [simp]: "byte_compare [] [] = 0" "byte_compare (x # xs) [] > 0"
  "byte_compare [] (y # ys) < 0"
  by (simp_all add: byte_compare_def)

lemma byte_compare_Cons [simp]:
  "byte_compare (x # xs) (y # ys) =
     (if x = y then byte_compare xs ys else uint x - uint y)"
  by (simp add: byte_compare_def split: option.splits)

lemma byte_compare_lengths:
  "byte_compare [] y = - int (length y)" "byte_compare x [] = int (length x)"
  by (simp add: byte_compare_def, cases x) (simp_all add: byte_compare_def)

lemma byte_compare_eq_0 [simp]: "byte_compare x y = 0 \<longleftrightarrow> x = y"
proof (induction x arbitrary: y)
  case (Cons a x)
  have "uint a - uint b = 0 \<longleftrightarrow> a = b" for b
    by (auto simp: word_uint_eq_iff)
  with Cons show ?case by (cases y) (auto simp: byte_compare_lengths)
qed (auto simp: byte_compare_lengths)

lemma byte_compare_antisym: "byte_compare x y = - byte_compare y x"
proof (induction x arbitrary: y)
  case (Cons a x)
  then show ?case by (cases y) (auto simp: byte_compare_lengths)
qed (simp add: byte_compare_lengths)

lemma byte_compare_trans: "byte_compare x y \<le> 0 \<Longrightarrow> byte_compare y z \<le> 0 \<Longrightarrow> byte_compare x z \<le> 0"
proof (induction x arbitrary: y z)
  case Nil
  then show ?case by (simp add: byte_compare_def)
next
  case (Cons a x)
  then obtain b y' where y: "y = b # y'"
    using byte_compare_Nil(2) [of a x] by (cases y) auto
  with Cons.prems(2) obtain c z' where z: "z = c # z'"
    using byte_compare_Nil(2) [of b y'] by (cases z) auto
  show ?case
  proof (cases "a = b \<and> b = c")
    case True
    with Cons y z show ?thesis by simp
  next
    case False
    with Cons.prems y z have "uint a \<le> uint b" "uint b \<le> uint c"
      by (simp_all split: if_splits)
    with False have "uint a \<le> uint c" "a \<noteq> c"
      by (auto simp: word_uint_eq_iff)
    with y z show ?thesis by simp
  qed
qed

section \<open>Strings\<close>

text \<open>\<open>toLowerCase\<close> on ASCII; every string the code folds is a hexadecimal address.\<close>

definition lower_char :: "char \<Rightarrow> char" where
  "lower_char c = (let n = of_char c :: nat in if 65 \<le> n \<and> n \<le> 90 then char_of (n + 32) else c)"

definition to_lower :: "string \<Rightarrow> string" where
  "to_lower s = map lower_char s"

lemma lower_char_idem [simp]: "lower_char (lower_char c) = lower_char c"
  by (simp add: lower_char_def Let_def)

lemma to_lower_idem [simp]: "to_lower (to_lower s) = to_lower s"
  by (simp add: to_lower_def)

lemma length_to_lower [simp]: "length (to_lower s) = length s"
  by (simp add: to_lower_def)

definition hex_digit :: "nat \<Rightarrow> char" where
  "hex_digit n = (if n < 10 then char_of (48 + n) else char_of (87 + n))"

definition hex_value :: "char \<Rightarrow> nat option" where
  "hex_value c =
     (let n = of_char c :: nat in
      if 48 \<le> n \<and> n \<le> 57 then Some (n - 48)
      else if 97 \<le> n \<and> n \<le> 102 then Some (n - 87)
      else if 65 \<le> n \<and> n \<le> 70 then Some (n - 55)
      else None)"

text \<open>\<open>byte.toString(16).padStart(2, "0")\<close>, per byte.\<close>

definition byte_hex :: "byte \<Rightarrow> string" where
  "byte_hex b = [hex_digit (unat b div 16), hex_digit (unat b mod 16)]"

definition hex_of_bytes :: "bytes \<Rightarrow> string" where
  "hex_of_bytes bs = concat (map byte_hex bs)"

text \<open>Pairs of hexadecimal digits read back with \<open>parseInt(_, 16)\<close>; \<open>None\<close> where a character is
  no digit or one is left over.\<close>

fun bytes_of_hex :: "string \<Rightarrow> bytes option" where
  "bytes_of_hex [] = Some []"
| "bytes_of_hex [c] = None"
| "bytes_of_hex (c # d # s) =
     (case (hex_value c, hex_value d, bytes_of_hex s) of
        (Some h, Some l, Some bs) \<Rightarrow> Some (word_of_nat (16 * h + l) # bs)
      | _ \<Rightarrow> None)"

lemma hex_value_digit [simp]: "n < 16 \<Longrightarrow> hex_value (hex_digit n) = Some n"
  by (auto simp: hex_value_def hex_digit_def)

lemma hex_value_bound: "hex_value c = Some n \<Longrightarrow> n < 16"
  by (auto simp: hex_value_def Let_def split: if_splits)

lemma hex_digit_value: "hex_value c = Some n \<Longrightarrow> hex_digit n = lower_char c"
  by (auto simp: hex_value_def hex_digit_def lower_char_def Let_def split: if_splits)

lemma byte_unat_bound: "unat (b :: byte) < 256"
  using unsigned_less [of b, where ?'a = nat] by simp

lemma bytes_of_hex_of_bytes: "bytes_of_hex (hex_of_bytes bs) = Some bs"
proof (induction bs)
  case Nil
  then show ?case by (simp add: hex_of_bytes_def)
next
  case (Cons b bs)
  have "unat b div 16 < 16" using byte_unat_bound [of b] by auto
  moreover have "16 * (unat b div 16) + unat b mod 16 = unat b" by simp
  ultimately show ?case using Cons by (simp add: hex_of_bytes_def byte_hex_def del: mult_div_mod_eq)
qed

lemma hex_of_bytes_of_hex: "bytes_of_hex s = Some bs \<Longrightarrow> hex_of_bytes bs = to_lower s"
proof (induction s arbitrary: bs rule: bytes_of_hex.induct)
  case (3 c d s)
  then obtain h l bs' where hl: "hex_value c = Some h" "hex_value d = Some l"
    and bs': "bytes_of_hex s = Some bs'" and bs: "bs = word_of_nat (16 * h + l) # bs'"
    by (auto split: option.splits)
  have lt: "h < 16" "l < 16" using hl hex_value_bound by auto
  then have "unat (word_of_nat (16 * h + l) :: byte) = 16 * h + l"
    by (simp add: unat_of_nat del: of_nat_add of_nat_mult of_nat_numeral)
  with lt hl 3(1) [OF bs'] bs show ?case
    by (simp add: hex_of_bytes_def byte_hex_def to_lower_def hex_digit_value)
qed (auto simp: hex_of_bytes_def to_lower_def)

lemma length_bytes_of_hex: "bytes_of_hex s = Some bs \<Longrightarrow> length s = 2 * length bs"
  by (induction s arbitrary: bs rule: bytes_of_hex.induct) (auto split: option.splits)

lemma hex_of_bytes_inj: "hex_of_bytes xs = hex_of_bytes ys \<Longrightarrow> xs = ys"
  by (metis bytes_of_hex_of_bytes option.inject)

lemma hex_of_bytes_digits: "set (hex_of_bytes bs) \<subseteq> hex_digit ` {..<16}"
proof -
  have "hex_digit (unat b div 16) \<in> hex_digit ` {..<16}" for b :: byte
    using byte_unat_bound [of b] by (intro imageI) auto
  then show ?thesis by (auto simp: hex_of_bytes_def byte_hex_def)
qed

text \<open>Decimal rendering of a non-negative integer in a template string.\<close>

fun show_nat :: "nat \<Rightarrow> string" where
  "show_nat n = (if n < 10 then [hex_digit n] else show_nat (n div 10) @ [hex_digit (n mod 10)])"

declare show_nat.simps [simp del]

definition read_step :: "nat option \<Rightarrow> char \<Rightarrow> nat option" where
  "read_step acc c =
     (let n = of_char c :: nat in
      case acc of None \<Rightarrow> None
      | Some a \<Rightarrow> if 48 \<le> n \<and> n \<le> 57 then Some (10 * a + (n - 48)) else None)"

text \<open>\<open>Number(s)\<close> on the strings the code parses back: decimal digits, and the empty string,
  which JavaScript reads as 0. \<open>None\<close> is \<open>NaN\<close>.\<close>

definition js_number :: "string \<Rightarrow> nat option" where
  "js_number s = foldl read_step (Some 0) s"

lemma js_number_show_nat [simp]: "js_number (show_nat n) = Some n"
proof (induction n rule: show_nat.induct)
  case (1 n)
  have d: "read_step (Some a) (hex_digit k) = Some (10 * a + k)" if "k < 10" for a k
    using that by (simp add: read_step_def hex_digit_def)
  show ?case
  proof (cases "n < 10")
    case True
    then show ?thesis by (simp add: js_number_def show_nat.simps [of n] d)
  next
    case False
    then have "foldl read_step (Some 0) (show_nat (n div 10)) = Some (n div 10)"
      using 1 by (simp add: js_number_def)
    with False show ?thesis by (simp add: js_number_def show_nat.simps [of n] d)
  qed
qed

lemma show_nat_inj [simp]: "show_nat m = show_nat n \<longleftrightarrow> m = n"
  by (metis js_number_show_nat option.inject)

lemma show_nat_digits: "set (show_nat n) \<subseteq> hex_digit ` {..<10}"
proof (induction n rule: show_nat.induct)
  case (1 n)
  then show ?case by (cases "n < 10") (auto simp: show_nat.simps [of n])
qed

lemma digit_not_colon: "n < 16 \<Longrightarrow> hex_digit n \<noteq> CHR '':''"
  by (auto simp: hex_digit_def dest!: arg_cong [where f = "of_char :: char \<Rightarrow> nat"])

lemma colon_notin_show_nat [simp]: "CHR '':'' \<notin> set (show_nat n)"
proof
  assume "CHR '':'' \<in> set (show_nat n)"
  then obtain k where "k < 10" "CHR '':'' = hex_digit k" using show_nat_digits [of n] by auto
  then show False using digit_not_colon [of k] by simp
qed

lemma colon_notin_hex [simp]: "CHR '':'' \<notin> set (hex_of_bytes bs)"
proof
  assume "CHR '':'' \<in> set (hex_of_bytes bs)"
  then obtain k where "k < 16" "CHR '':'' = hex_digit k" using hex_of_bytes_digits [of bs] by auto
  then show False using digit_not_colon [of k] by simp
qed

text \<open>Splitting a string at a separator it does not contain before it is unambiguous.\<close>

lemma split_at_sep:
  assumes "u @ c # v = u' @ c # v'" "c \<notin> set u" "c \<notin> set u'"
  shows "u = u' \<and> v = v'"
  using assms
proof (induction u arbitrary: u')
  case Nil
  then show ?case by (cases u') auto
next
  case (Cons a u)
  then show ?case by (cases u') auto
qed

lemma split_at_last_sep:
  assumes "u @ c # v = u' @ c # v'" "c \<notin> set v" "c \<notin> set v'"
  shows "u = u' \<and> v = v'"
proof -
  have "rev v @ c # rev u = rev v' @ c # rev u'"
    using arg_cong [OF assms(1), of rev] by simp
  from split_at_sep [OF this] assms(2,3) show ?thesis by simp
qed

section \<open>Windows of a list\<close>

text \<open>\<open>for (at = 0; at < xs.length; at += n) chunks.push(xs.slice(at, at + n))\<close>, for \<open>n > 0\<close>.\<close>

function chunks_of :: "nat \<Rightarrow> 'a list \<Rightarrow> 'a list list" where
  "chunks_of n xs = (if xs = [] \<or> n = 0 then [] else take n xs # chunks_of n (drop n xs))"
  by pat_completeness auto
termination
  by (relation "measure (\<lambda>(n, xs). length xs)") auto

declare chunks_of.simps [simp del]

lemma concat_chunks_of: "0 < n \<Longrightarrow> concat (chunks_of n xs) = xs"
proof (induction n xs rule: chunks_of.induct)
  case (1 n xs)
  show ?case
  proof (cases "xs = []")
    case True
    then show ?thesis by (subst chunks_of.simps) simp
  next
    case False
    with 1 show ?thesis by (subst chunks_of.simps) simp
  qed
qed

lemma chunks_of_bound: "c \<in> set (chunks_of n xs) \<Longrightarrow> c \<noteq> [] \<and> length c \<le> n"
proof (induction n xs rule: chunks_of.induct)
  case (1 n xs)
  then show ?case by (auto simp: chunks_of.simps [of n xs] split: if_splits)
qed

end
