(* ===== verification/Errors.thy ===== *)
theory Errors
  imports Prelude
begin

text \<open>
  The values the program throws or emits as errors (\<open>src/errors.ts\<close> and the anonymous
  \<open>Error\<close>/\<open>RangeError\<close>/zod throws of the other files). One constructor per error class, carrying
  the fields of the class; the rendered message text is a function of these fields and is left
  out. A throwing function of the source is a function into \<open>js_error + 'a\<close>.
\<close>

datatype rule_slot = SlotGate | SlotWeight | SlotRequires

datatype snapshot_failure = Discarded | RestoreIncomplete | WriteFailed

datatype js_error =
    NotImplementedError string
  | UnknownRuleError rule_slot string
  | MissingChainClientError nat
  | MissingPubsubError
  | MissingBlockstoreError
  | MissingFetchError
  | MissingPrivateKeyError
  | VoterDestroyedError
  | DuplicateContestIdError string
  | InvalidCommunityNameError string string "string option"
  | SnapshotError snapshot_failure string
  | ZodError string \<comment> \<open>a schema refused a value; the schema's name\<close>
  | RangeError string
  | PlainError string \<comment> \<open>\<open>new Error(message)\<close>\<close>
  | Infra string \<comment> \<open>an injected seam (RPC, resolver, store, network) threw\<close>

type_synonym 'a res = "js_error + 'a"

text \<open>\<open>x ?? throw e\<close>: an absent value becomes the given throw.\<close>

definition require_some :: "js_error \<Rightarrow> 'a option \<Rightarrow> 'a res" where
  "require_some e x = (case x of None \<Rightarrow> Inl e | Some v \<Rightarrow> Inr v)"

definition guard :: "js_error \<Rightarrow> bool \<Rightarrow> unit res" where
  "guard e P = (if P then Inr () else Inl e)"

lemma require_some_Inr [res_simps]: "require_some e x = Inr v \<longleftrightarrow> x = Some v"
  by (simp add: require_some_def split: option.splits)

lemma require_some_Some [simp]: "require_some e (Some v) = Inr v"
  by (simp add: require_some_def)

lemma guard_Inr [res_simps]: "guard e P = Inr u \<longleftrightarrow> P"
  by (simp add: guard_def)

lemma guard_True [simp]: "guard e True = Inr ()"
  by (simp add: guard_def)

end
