(* ===== verification/Ipld.thy ===== *)
theory Ipld
  imports Errors
begin

text \<open>
  The plain data the program encodes and decodes, and the third-party codecs it uses.

  \<open>ipld\<close> is the value a \<open>dagCbor.decode\<close> yields or a \<open>dagCbor.encode\<close> takes (and the parsed
  JSON of a criteria manifest): null, booleans, integers, floats, text, byte arrays, CID links,
  arrays, and objects with their keys in authoring order.

  The packages \<open>@ipld/dag-cbor\<close> and \<open>multiformats\<close> are not in the repository: their functions
  are the fields of the parameter record \<open>lib\<close>, and the predicates \<open>cbor_laws\<close> and \<open>b58_laws\<close>
  state the documented behaviour the code relies on.
\<close>

section \<open>Values\<close>

datatype ipld =
    INull
  | IBool bool
  | IInt int
  | IFloat bytes
  | IStr string
  | IBytes bytes
  | ILink cid
  | IList "ipld list"
  | IMap "(string \<times> ipld) list"

definition max_safe_integer :: nat where
  "max_safe_integer = 9007199254740991"

definition safe_int :: "int \<Rightarrow> bool" where
  "safe_int i \<longleftrightarrow> \<bar>i\<bar> \<le> int max_safe_integer"

definition obj_get :: "ipld \<Rightarrow> string \<Rightarrow> ipld option" where
  "obj_get v k = (case v of IMap m \<Rightarrow> jget m k | _ \<Rightarrow> None)"

fun as_bytes :: "ipld \<Rightarrow> bytes option" where
  "as_bytes (IBytes b) = Some b"
| "as_bytes _ = None"

fun as_string :: "ipld \<Rightarrow> string option" where
  "as_string (IStr s) = Some s"
| "as_string _ = None"

text \<open>\<open>z.number().int()\<close> admits safe integers only.\<close>

fun as_int :: "ipld \<Rightarrow> int option" where
  "as_int (IInt i) = (if safe_int i then Some i else None)"
| "as_int _ = None"

text \<open>\<open>z.number().int().nonnegative()\<close>\<close>

definition as_nat :: "ipld \<Rightarrow> nat option" where
  "as_nat v = (case as_int v of Some i \<Rightarrow> if 0 \<le> i then Some (nat i) else None | None \<Rightarrow> None)"

fun as_link :: "ipld \<Rightarrow> cid option" where
  "as_link (ILink c) = Some c"
| "as_link _ = None"

fun as_list :: "ipld \<Rightarrow> ipld list option" where
  "as_list (IList xs) = Some xs"
| "as_list _ = None"

fun is_map :: "ipld \<Rightarrow> bool" where
  "is_map (IMap _) = True"
| "is_map _ = False"

fun opt_map :: "('a \<Rightarrow> 'b option) \<Rightarrow> 'a list \<Rightarrow> 'b list option" where
  "opt_map f [] = Some []"
| "opt_map f (x # xs) = (case f x of None \<Rightarrow> None | Some y \<Rightarrow> map_option ((#) y) (opt_map f xs))"

lemma opt_map_total: "(\<And>x. x \<in> set xs \<Longrightarrow> f x = Some (g x)) \<Longrightarrow> opt_map f xs = Some (map g xs)"
  by (induction xs) auto

lemma opt_map_Some_iff: "opt_map f xs = Some ys \<longleftrightarrow> list_all2 (\<lambda>x y. f x = Some y) xs ys"
  by (induction xs arbitrary: ys) (auto simp: list_all2_Cons1 split: option.splits)

section \<open>Canonical form\<close>

text \<open>
  dag-cbor writes the keys of an object in one order, shorter keys first and equally long ones
  bytewise, so two objects that differ only in authoring order have the same bytes, and decoding
  yields the keys in that order.
\<close>

fun chars_le :: "string \<Rightarrow> string \<Rightarrow> bool" where
  "chars_le [] _ = True"
| "chars_le (c # s) [] = False"
| "chars_le (c # s) (d # t) =
     (if c = d then chars_le s t else (of_char c :: nat) \<le> of_char d)"

definition key_le :: "string \<times> 'a \<Rightarrow> string \<times> 'a \<Rightarrow> bool" where
  "key_le p q =
     (if length (fst p) = length (fst q) then chars_le (fst p) (fst q)
      else length (fst p) < length (fst q))"

primrec canon :: "ipld \<Rightarrow> ipld" where
  "canon INull = INull"
| "canon (IBool b) = IBool b"
| "canon (IInt i) = IInt i"
| "canon (IFloat b) = IFloat b"
| "canon (IStr s) = IStr s"
| "canon (IBytes b) = IBytes b"
| "canon (ILink c) = ILink c"
| "canon (IList xs) = IList (map canon xs)"
| "canon (IMap m) = IMap (sort_by key_le (map (map_prod id canon) m))"

primrec ipld_ok :: "ipld \<Rightarrow> bool" where
  "ipld_ok INull = True"
| "ipld_ok (IBool b) = True"
| "ipld_ok (IInt i) = safe_int i"
| "ipld_ok (IFloat b) = True"
| "ipld_ok (IStr s) = True"
| "ipld_ok (IBytes b) = True"
| "ipld_ok (ILink c) = True"
| "ipld_ok (IList xs) = list_all id (map ipld_ok xs)"
| "ipld_ok (IMap m) = (distinct (map fst m) \<and> list_all (\<lambda>p. snd p) (map (map_prod id ipld_ok) m))"

lemma ipld_ok_IList [simp]: "ipld_ok (IList xs) \<longleftrightarrow> (\<forall>x \<in> set xs. ipld_ok x)"
  by (simp add: list_all_iff)

lemma ipld_ok_IMap [simp]:
  "ipld_ok (IMap m) \<longleftrightarrow> distinct (map fst m) \<and> (\<forall>p \<in> set m. ipld_ok (snd p))"
  by (simp add: list_all_iff)

declare ipld_ok.simps(8,9) [simp del]

lemma chars_le_refl [simp]: "chars_le s s"
  by (induction s) auto

lemma chars_le_total: "chars_le s t \<or> chars_le t s"
proof (induction s t rule: chars_le.induct)
  case (3 c s d t)
  then show ?case by auto
qed auto

lemma chars_le_antisym: "chars_le s t \<Longrightarrow> chars_le t s \<Longrightarrow> s = t"
proof (induction s t rule: chars_le.induct)
  case (1 t)
  then show ?case by (cases t) auto
next
  case (2 c s)
  then show ?case by simp
next
  case (3 c s d t)
  then show ?case by (auto split: if_splits simp: of_char_eq_iff dest: order.antisym)
qed

lemma chars_le_trans: "chars_le s t \<Longrightarrow> chars_le t u \<Longrightarrow> chars_le s u"
proof (induction s arbitrary: t u)
  case Nil
  then show ?case by simp
next
  case (Cons a s)
  then obtain b t' where t: "t = b # t'" by (cases t) auto
  with Cons.prems(2) obtain c u' where u: "u = c # u'" by (cases u) auto
  show ?case
  proof (cases "a = b \<and> b = c")
    case True
    with Cons t u show ?thesis by auto
  next
    case False
    have "of_char a \<le> (of_char b :: nat)" "of_char b \<le> (of_char c :: nat)"
      using Cons.prems t u by (auto split: if_splits)
    with False have "of_char a \<le> (of_char c :: nat)" "a \<noteq> c"
      by (auto dest: order.antisym)
    with t u show ?thesis by simp
  qed
qed

lemma key_le_preorder: "total_preorder_on A key_le"
  unfolding total_preorder_on_def key_le_def
  using chars_le_total chars_le_trans by (auto split: if_splits)

lemma key_le_antisym: "key_le p q \<Longrightarrow> key_le q p \<Longrightarrow> fst p = fst q"
  by (auto simp: key_le_def chars_le_antisym split: if_splits)

text \<open>Looking a key up is blind to the order of distinct keys.\<close>

lemma jget_sort_by:
  assumes "distinct (map fst m)"
  shows "jget (sort_by le m) k = jget m k"
proof -
  have "distinct (map fst (sort_by le m))"
    using assms by (metis mset_map mset_sort_by mset_eq_imp_distinct_iff)
  then show ?thesis
    using assms by (metis map_of_inject_set set_sort_by)
qed

lemma obj_get_canon:
  assumes "ipld_ok v"
  shows "obj_get (canon v) k = map_option canon (obj_get v k)"
proof (cases v)
  case (IMap m)
  with assms have d: "distinct (map fst (map (map_prod id canon) m))"
    by (simp add: comp_def)
  have "jget (map (map_prod id canon) m) k = map_option canon (jget m k)"
    by (induction m) auto
  with IMap jget_sort_by [OF d] show ?thesis by (simp add: obj_get_def)
qed (simp_all add: obj_get_def)

lemma is_map_canon [simp]: "is_map (canon v) = is_map v"
  by (cases v) auto

lemma as_bytes_canon [simp]: "as_bytes (canon v) = as_bytes v"
  by (cases v) auto

lemma as_string_canon [simp]: "as_string (canon v) = as_string v"
  by (cases v) auto

lemma as_int_canon [simp]: "as_int (canon v) = as_int v"
  by (cases v) auto

lemma as_nat_canon [simp]: "as_nat (canon v) = as_nat v"
  by (simp add: as_nat_def)

lemma as_link_canon [simp]: "as_link (canon v) = as_link v"
  by (cases v) auto

lemma as_list_canon [simp]: "as_list (canon v) = map_option (map canon) (as_list v)"
  by (cases v) auto

section \<open>The codecs of the libraries\<close>

text \<open>
  \<open>b58decode\<close> and \<open>b58encode\<close> are \<open>base58btc\<close> with its multibase prefix \<open>z\<close> (\<open>None\<close> is a throw);
  \<open>digest_ok\<close> says that \<open>Digest.decode\<close> returns; \<open>sha256\<close> is the digest; \<open>create_v1\<close> is
  \<open>CID.createV1\<close> over a codec code and a digest, and \<open>cid_str\<close> its \<open>toString\<close>.
\<close>

record lib =
  cbor_encode :: "ipld \<Rightarrow> bytes"
  cbor_decode :: "bytes \<Rightarrow> ipld option"
  sha256 :: "bytes \<Rightarrow> bytes"
  create_v1 :: "nat \<Rightarrow> bytes \<Rightarrow> cid"
  b58encode :: "bytes \<Rightarrow> string"
  b58decode :: "string \<Rightarrow> bytes option"
  digest_ok :: "bytes \<Rightarrow> bool"
  cid_str :: "cid \<Rightarrow> string"

definition cbor_laws :: "lib \<Rightarrow> bool" where
  "cbor_laws L \<longleftrightarrow>
     (\<forall>v. ipld_ok v \<longrightarrow> cbor_decode L (cbor_encode L v) = Some (canon v)) \<and>
     (\<forall>v w. ipld_ok v \<longrightarrow> ipld_ok w \<longrightarrow> canon v = canon w \<longrightarrow> cbor_encode L v = cbor_encode L w)"

definition b58_laws :: "lib \<Rightarrow> bool" where
  "b58_laws L \<longleftrightarrow>
     (\<forall>bs. \<exists>s. b58encode L bs = CHR ''z'' # s) \<and>
     (\<forall>bs. b58decode L (b58encode L bs) = Some bs) \<and>
     (\<forall>s bs. b58decode L s = Some bs \<longrightarrow> b58encode L bs = s)"

lemma cbor_roundtrip: "cbor_laws L \<Longrightarrow> ipld_ok v \<Longrightarrow> cbor_decode L (cbor_encode L v) = Some (canon v)"
  unfolding cbor_laws_def by blast

lemma cbor_encode_canon_cong:
  "cbor_laws L \<Longrightarrow> ipld_ok v \<Longrightarrow> ipld_ok w \<Longrightarrow> canon v = canon w \<Longrightarrow>
     cbor_encode L v = cbor_encode L w"
  unfolding cbor_laws_def by blast

lemma cbor_encode_eq_iff:
  "cbor_laws L \<Longrightarrow> ipld_ok v \<Longrightarrow> ipld_ok w \<Longrightarrow>
     cbor_encode L v = cbor_encode L w \<longleftrightarrow> canon v = canon w"
  by (metis cbor_encode_canon_cong cbor_roundtrip option.inject)

lemma b58_decode_encode: "b58_laws L \<Longrightarrow> b58decode L (b58encode L bs) = Some bs"
  by (simp add: b58_laws_def)

lemma b58_encode_decode: "b58_laws L \<Longrightarrow> b58decode L s = Some bs \<Longrightarrow> b58encode L bs = s"
  by (simp add: b58_laws_def)

end
