(* ===== verification/Votes.thy ===== *)
theory Votes
  imports Ipld
begin

text \<open>
  The Votes wire format (\<open>src/schema/common.ts\<close>, \<open>src/schema/votes.ts\<close>): the bundle one wallet
  signs, and the criteria-independent shape its schema enforces. A \<open>char\<close> of a \<open>string\<close> stands
  for one UTF-16 code unit below 256.
\<close>

record signature =
  sig_signature :: string
  sig_type :: string

record community =
  com_name :: "string option"
  com_publicKey :: string

record vote =
  v_community :: community
  v_vote :: int

record votes_bundle =
  b_address :: string
  b_votes :: "vote list"
  b_blockNumber :: nat
  b_signature :: signature

section \<open>Schema checks\<close>

definition isB58IpnsKey :: "lib \<Rightarrow> string \<Rightarrow> bool" where
  "isB58IpnsKey L x = (case b58decode L (CHR ''z'' # x) of None \<Rightarrow> False | Some bs \<Rightarrow> digest_ok L bs)"

text \<open>\<open>x.split(sep)\<close>: always at least one piece.\<close>

fun split_on :: "char \<Rightarrow> string \<Rightarrow> string list" where
  "split_on sep [] = [[]]"
| "split_on sep (c # s) =
     (if c = sep then [] # split_on sep s
      else case split_on sep s of [] \<Rightarrow> [[c]] | l # ls \<Rightarrow> (c # l) # ls)"

definition is_space :: "char \<Rightarrow> bool" where
  "is_space c = (let n = of_char c :: nat in (9 \<le> n \<and> n \<le> 13) \<or> n = 32 \<or> n = 160)"

definition isDottedDomain :: "string \<Rightarrow> bool" where
  "isDottedDomain x =
     (let labels = split_on CHR ''.'' x in
      2 \<le> length labels \<and> (\<forall>l \<in> set labels. 0 < length l \<and> \<not> (\<exists>c \<in> set l. is_space c)))"

definition max_name_length :: nat where
  "max_name_length = 253"

definition name_ok :: "string \<Rightarrow> bool" where
  "name_ok s \<longleftrightarrow> 1 \<le> length s \<and> length s \<le> max_name_length \<and> isDottedDomain s"

definition signature_ok :: "signature \<Rightarrow> bool" where
  "signature_ok s \<longleftrightarrow> 1 \<le> length (sig_signature s) \<and> 1 \<le> length (sig_type s)"

definition community_ok :: "lib \<Rightarrow> community \<Rightarrow> bool" where
  "community_ok L c \<longleftrightarrow>
     (case com_name c of None \<Rightarrow> True | Some s \<Rightarrow> name_ok s) \<and>
     1 \<le> length (com_publicKey c) \<and> isB58IpnsKey L (com_publicKey c)"

definition vote_ok :: "lib \<Rightarrow> vote \<Rightarrow> bool" where
  "vote_ok L v \<longleftrightarrow> community_ok L (v_community v) \<and> safe_int (v_vote v)"

abbreviation vote_key :: "vote \<Rightarrow> string" where
  "vote_key v \<equiv> com_publicKey (v_community v)"

abbreviation vote_name :: "vote \<Rightarrow> string option" where
  "vote_name v \<equiv> com_name (v_community v)"

text \<open>\<open>VotesBundleSchema.parse\<close> returns a typed bundle unchanged, or throws; the refinement
  compares the size of the set of keys with the number of votes.\<close>

definition votes_bundle_ok :: "lib \<Rightarrow> votes_bundle \<Rightarrow> bool" where
  "votes_bundle_ok L b \<longleftrightarrow>
     1 \<le> length (b_address b) \<and>
     list_all (vote_ok L) (b_votes b) \<and>
     b_blockNumber b \<le> max_safe_integer \<and>
     signature_ok (b_signature b) \<and>
     card (set (map vote_key (b_votes b))) = length (b_votes b)"

lemma votes_bundle_ok_distinct:
  "votes_bundle_ok L b \<Longrightarrow> distinct (map vote_key (b_votes b))"
  unfolding votes_bundle_ok_def by (metis card_distinct length_map)

text \<open>\<open>if (!name) continue\<close>: an absent name and the empty string are both skipped.\<close>

definition carried_name :: "vote \<Rightarrow> string option" where
  "carried_name v = (case vote_name v of None \<Rightarrow> None | Some s \<Rightarrow> if s = [] then None else Some s)"

lemma carried_name_ok: "vote_ok L v \<Longrightarrow> carried_name v = vote_name v"
  by (auto simp: carried_name_def vote_ok_def community_ok_def name_ok_def split: option.splits)

lemma split_on_nonempty [simp]: "split_on sep s \<noteq> []"
  by (induction s) (auto split: list.splits)

lemma length_split_on: "length (split_on sep s) = Suc (count_list s sep)"
  by (induction s) (auto split: list.splits)

lemma isDottedDomain_dot: "isDottedDomain s \<Longrightarrow> CHR ''.'' \<in> set s"
  unfolding isDottedDomain_def Let_def length_split_on
  by (metis One_nat_def Suc_le_eq count_list_0_iff not_numeral_le_zero numeral_2_eq_2 Suc_le_mono not_less_zero)

end
