(* ===== verification/Bundle_Codec.thy ===== *)
theory Bundle_Codec
  imports Votes
begin

text \<open>
  The binary bundle codec (\<open>src/crdt/codec.ts\<close>) over the canonical encoder
  (\<open>src/encoding/canonical.ts\<close>): addresses and signatures travel as raw bytes, community keys as
  multihash bytes. The lemmas show that decoding inverts encoding up to the case of hexadecimal
  digits, that the bytes do not depend on that case, and what a decoded bundle satisfies.
\<close>

section \<open>The canonical encoder\<close>

definition encodeCanonical :: "lib \<Rightarrow> ipld \<Rightarrow> bytes" where
  "encodeCanonical L v = cbor_encode L v"

definition dagCborCode :: nat where
  "dagCborCode = 113"

text \<open>\<open>bundleCidForBytes\<close>, \<open>blockForBytes\<close> and \<open>criteriaCid\<close> all hash bytes the same way.\<close>

definition bundleCidForBytes :: "lib \<Rightarrow> bytes \<Rightarrow> cid" where
  "bundleCidForBytes L bs = create_v1 L dagCborCode (sha256 L bs)"

section \<open>Hexadecimal fields\<close>

definition ADDRESS_BYTES :: nat where
  "ADDRESS_BYTES = 20"

definition SIGNATURE_BYTES :: nat where
  "SIGNATURE_BYTES = 65"

definition hexToBytes :: "string \<Rightarrow> nat \<Rightarrow> string \<Rightarrow> bytes res" where
  "hexToBytes hex expected label =
     (case hex of
        c # d # digits \<Rightarrow>
          if c = CHR ''0'' \<and> d = CHR ''x'' \<and> list_all (\<lambda>c. hex_value c \<noteq> None) digits
             \<and> length hex = 2 + expected * 2
          then require_some (PlainError label) (bytes_of_hex digits)
          else Inl (PlainError label)
      | _ \<Rightarrow> Inl (PlainError label))"

definition bytesToHex :: "bytes \<Rightarrow> string" where
  "bytesToHex bs = ''0x'' @ hex_of_bytes bs"

definition publicKeyToBytes :: "lib \<Rightarrow> string \<Rightarrow> bytes res" where
  "publicKeyToBytes L pk = require_some (PlainError ''base58btc'') (b58decode L (CHR ''z'' # pk))"

definition publicKeyFromBytes :: "lib \<Rightarrow> bytes \<Rightarrow> string" where
  "publicKeyFromBytes L bs = drop 1 (b58encode L bs)"

section \<open>The wire shape\<close>

record wire_vote =
  w_name :: "string option"
  w_publicKey :: bytes
  w_vote :: int

record wire_bundle =
  w_address :: bytes
  w_blockNumber :: nat
  w_signature :: bytes
  w_sigtype :: string
  w_votes :: "wire_vote list"

definition toWireVote :: "lib \<Rightarrow> vote \<Rightarrow> wire_vote res" where
  "toWireVote L v =
     sbind (publicKeyToBytes L (vote_key v)) (\<lambda>pk.
     Inr \<lparr>w_name = vote_name v, w_publicKey = pk, w_vote = v_vote v\<rparr>)"

definition toWireBundle :: "lib \<Rightarrow> votes_bundle \<Rightarrow> wire_bundle res" where
  "toWireBundle L b =
     sbind (guard (ZodError ''VotesBundleSchema'') (votes_bundle_ok L b)) (\<lambda>_.
     sbind (hexToBytes (b_address b) ADDRESS_BYTES ''address'') (\<lambda>addr.
     sbind (hexToBytes (sig_signature (b_signature b)) SIGNATURE_BYTES ''signature.signature'') (\<lambda>sg.
     sbind (traverse (toWireVote L) (b_votes b)) (\<lambda>vs.
     Inr \<lparr>w_address = addr, w_blockNumber = b_blockNumber b, w_signature = sg,
          w_sigtype = sig_type (b_signature b), w_votes = vs\<rparr>))))"

text \<open>The object literal \<open>toWireBundle\<close> returns, with its keys in the source's order; an absent
  name omits its key.\<close>

definition wire_vote_ipld :: "wire_vote \<Rightarrow> ipld" where
  "wire_vote_ipld v =
     IMap [(''community'',
             IMap ((case w_name v of None \<Rightarrow> [] | Some s \<Rightarrow> [(''name'', IStr s)]) @
                   [(''publicKey'', IBytes (w_publicKey v))])),
           (''vote'', IInt (w_vote v))]"

definition wire_ipld :: "wire_bundle \<Rightarrow> ipld" where
  "wire_ipld w =
     IMap [(''address'', IBytes (w_address w)),
           (''blockNumber'', IInt (int (w_blockNumber w))),
           (''signature'', IMap [(''signature'', IBytes (w_signature w)), (''type'', IStr (w_sigtype w))]),
           (''votes'', IList (map wire_vote_ipld (w_votes w)))]"

text \<open>\<open>WireBundleSchema.parse\<close> on an arbitrary decoded value: \<open>z.object\<close> reads the keys it knows and
  strips the others; an optional key that is present must have its type.\<close>

definition opt_string :: "ipld \<Rightarrow> string \<Rightarrow> string option option" where
  "opt_string v k =
     (case obj_get v k of None \<Rightarrow> Some None | Some x \<Rightarrow> map_option Some (as_string x))"

definition parse_wire_vote :: "ipld \<Rightarrow> wire_vote option" where
  "parse_wire_vote v =
     Option.bind (obj_get v ''community'') (\<lambda>c.
     Option.bind (if is_map c then opt_string c ''name'' else None) (\<lambda>nm.
     Option.bind (Option.bind (obj_get c ''publicKey'') as_bytes) (\<lambda>pk.
     Option.bind (Option.bind (obj_get v ''vote'') as_int) (\<lambda>n.
     Some \<lparr>w_name = nm, w_publicKey = pk, w_vote = n\<rparr>))))"

definition WireBundleSchema :: "ipld \<Rightarrow> wire_bundle option" where
  "WireBundleSchema v =
     Option.bind (Option.bind (obj_get v ''address'') as_bytes) (\<lambda>addr.
     Option.bind (Option.bind (obj_get v ''blockNumber'') as_nat) (\<lambda>bn.
     Option.bind (obj_get v ''signature'') (\<lambda>s.
     Option.bind (Option.bind (obj_get s ''signature'') as_bytes) (\<lambda>sg.
     Option.bind (Option.bind (obj_get s ''type'') as_string) (\<lambda>ty.
     if ty = [] then None else
     Option.bind (Option.bind (obj_get v ''votes'') as_list) (\<lambda>vs.
     Option.bind (opt_map parse_wire_vote vs) (\<lambda>wvs.
     Some \<lparr>w_address = addr, w_blockNumber = bn, w_signature = sg, w_sigtype = ty,
           w_votes = wvs\<rparr>)))))))"

definition fromWireVote :: "lib \<Rightarrow> wire_vote \<Rightarrow> vote" where
  "fromWireVote L v =
     \<lparr>v_community = \<lparr>com_name = w_name v, com_publicKey = publicKeyFromBytes L (w_publicKey v)\<rparr>,
      v_vote = w_vote v\<rparr>"

definition fromWireBundle :: "lib \<Rightarrow> ipld \<Rightarrow> votes_bundle res" where
  "fromWireBundle L wire =
     sbind (require_some (ZodError ''WireBundleSchema'') (WireBundleSchema wire)) (\<lambda>p.
     sbind (guard (PlainError ''address'') (length (w_address p) = ADDRESS_BYTES)) (\<lambda>_.
     sbind (guard (PlainError ''signature.signature'') (length (w_signature p) = SIGNATURE_BYTES)) (\<lambda>_.
     let b = \<lparr>b_address = bytesToHex (w_address p),
              b_votes = map (fromWireVote L) (w_votes p),
              b_blockNumber = w_blockNumber p,
              b_signature = \<lparr>sig_signature = bytesToHex (w_signature p), sig_type = w_sigtype p\<rparr>\<rparr>
     in sbind (guard (ZodError ''VotesBundleSchema'') (votes_bundle_ok L b)) (\<lambda>_. Inr b))))"

definition encodeBundle :: "lib \<Rightarrow> votes_bundle \<Rightarrow> bytes res" where
  "encodeBundle L b = sbind (toWireBundle L b) (\<lambda>w. Inr (encodeCanonical L (wire_ipld w)))"

definition decodeBundle :: "lib \<Rightarrow> bytes \<Rightarrow> votes_bundle res" where
  "decodeBundle L bs = sbind (require_some (PlainError ''dag-cbor'') (cbor_decode L bs)) (fromWireBundle L)"

definition bundleCid :: "lib \<Rightarrow> votes_bundle \<Rightarrow> cid res" where
  "bundleCid L b = sbind (encodeBundle L b) (\<lambda>bs. Inr (bundleCidForBytes L bs))"

section \<open>Round trip\<close>

text \<open>What decoding restores: the same bundle with its two hexadecimal fields in lower case.\<close>

definition lower_bundle :: "votes_bundle \<Rightarrow> votes_bundle" where
  "lower_bundle b =
     b\<lparr>b_address := to_lower (b_address b),
       b_signature := (b_signature b)\<lparr>sig_signature := to_lower (sig_signature (b_signature b))\<rparr>\<rparr>"

lemma hexToBytes_Inr:
  assumes "hexToBytes s n l = Inr bs"
  shows "length bs = n" and "bytesToHex bs = to_lower s"
proof -
  from assms obtain digits where s: "s = CHR ''0'' # CHR ''x'' # digits"
    and len: "length s = 2 + n * 2" and bs: "bytes_of_hex digits = Some bs"
    by (auto simp: hexToBytes_def res_simps split: list.splits if_splits)
  from length_bytes_of_hex [OF bs] s len show "length bs = n" by simp
  from hex_of_bytes_of_hex [OF bs] s show "bytesToHex bs = to_lower s"
    by (simp add: bytesToHex_def to_lower_def lower_char_def)
qed

lemma hex_value_hex_of_bytes: "list_all (\<lambda>c. hex_value c \<noteq> None) (hex_of_bytes bs)"
proof -
  have "hex_value c \<noteq> None" if "c \<in> set (hex_of_bytes bs)" for c
    using that hex_of_bytes_digits [of bs] by auto
  then show ?thesis by (simp add: list_all_iff)
qed

lemma length_hex_of_bytes: "length (hex_of_bytes bs) = 2 * length bs"
  using length_bytes_of_hex [OF bytes_of_hex_of_bytes] .

lemma hexToBytes_bytesToHex [simp]: "length bs = n \<Longrightarrow> hexToBytes (bytesToHex bs) n l = Inr bs"
  using hex_value_hex_of_bytes [of bs]
  by (simp add: hexToBytes_def bytesToHex_def bytes_of_hex_of_bytes length_hex_of_bytes)

lemma publicKey_roundtrip:
  "b58_laws L \<Longrightarrow> publicKeyToBytes L pk = Inr bs \<Longrightarrow> publicKeyFromBytes L bs = pk"
  by (auto simp: publicKeyToBytes_def publicKeyFromBytes_def res_simps dest: b58_encode_decode)

lemma fromWireVote_toWireVote:
  "b58_laws L \<Longrightarrow> toWireVote L v = Inr w \<Longrightarrow> fromWireVote L w = v"
  by (auto simp: toWireVote_def fromWireVote_def res_simps publicKey_roundtrip)

lemma parse_wire_vote_canon: "parse_wire_vote (canon (wire_vote_ipld v)) = (if safe_int (w_vote v) then Some v else None)"
proof -
  have ok: "ipld_ok (IMap ((case w_name v of None \<Rightarrow> [] | Some s \<Rightarrow> [(''name'', IStr s)]) @
                   [(''publicKey'', IBytes (w_publicKey v))]))" (is "ipld_ok ?c")
    by (auto split: option.splits)
  show ?thesis
  proof (cases "safe_int (w_vote v)")
    case True
    with ok have "ipld_ok (wire_vote_ipld v)" by (simp add: wire_vote_ipld_def)
    note g = obj_get_canon [OF this] obj_get_canon [OF ok]
    have "parse_wire_vote (canon (wire_vote_ipld v)) =
       Option.bind (Some (canon ?c)) (\<lambda>c.
       Option.bind (if is_map c then opt_string c ''name'' else None) (\<lambda>nm.
       Option.bind (Option.bind (obj_get c ''publicKey'') as_bytes) (\<lambda>pk.
       Some \<lparr>w_name = nm, w_publicKey = pk, w_vote = w_vote v\<rparr>)))"
      unfolding parse_wire_vote_def g(1) by (simp add: wire_vote_ipld_def obj_get_def True)
    also have "\<dots> = Some v"
      unfolding opt_string_def Option.bind.bind_lunit g(2)
      by (simp add: obj_get_def split: option.splits)
    finally show ?thesis using True by simp
  next
    case False
    have "jget (sort_by key_le [(''community'', canon ?c), (''vote'', IInt (w_vote v))]) ''vote''
        = Some (IInt (w_vote v))"
      by (simp add: jget_sort_by)
    with False show ?thesis
      by (simp add: parse_wire_vote_def wire_vote_ipld_def obj_get_def split: bind_splits)
  qed
qed

lemma obj_get_IMap [simp]: "obj_get (IMap m) k = jget m k"
  by (simp add: obj_get_def)

definition wire_ok :: "wire_bundle \<Rightarrow> bool" where
  "wire_ok w \<longleftrightarrow> w_blockNumber w \<le> max_safe_integer \<and> (\<forall>v \<in> set (w_votes w). safe_int (w_vote v))"

lemma ipld_ok_wire_vote: "safe_int (w_vote v) \<Longrightarrow> ipld_ok (wire_vote_ipld v)"
  by (auto simp: wire_vote_ipld_def split: option.splits)

lemma ipld_ok_wire: "wire_ok w \<Longrightarrow> ipld_ok (wire_ipld w)"
  by (auto simp: wire_ok_def wire_ipld_def ipld_ok_wire_vote safe_int_def)

lemma WireBundleSchema_canon:
  assumes "wire_ok w" "w_sigtype w \<noteq> []"
  shows "WireBundleSchema (canon (wire_ipld w)) = Some w"
proof -
  have vs: "opt_map parse_wire_vote (map canon (map wire_vote_ipld (w_votes w))) = Some (w_votes w)"
    using assms(1) unfolding wire_ok_def
    by (simp add: opt_map_Some_iff list_all2_map1 parse_wire_vote_canon list.rel_refl_strong)
  have ok: "ipld_ok (IMap [(''signature'', IBytes (w_signature w)), (''type'', IStr (w_sigtype w))])"
    by simp
  note top = obj_get_canon [OF ipld_ok_wire [OF assms(1)]] and inner = obj_get_canon [OF ok]
  have nat: "as_nat (IInt (int (w_blockNumber w))) = Some (w_blockNumber w)"
    using assms(1) by (simp add: as_nat_def safe_int_def wire_ok_def)
  show ?thesis
    unfolding WireBundleSchema_def top
    by (simp add: wire_ipld_def inner nat vs [simplified] assms(2) del: canon.simps)
qed

lemma toWireVote_ok: "toWireVote L v = Inr w \<Longrightarrow> w_vote w = v_vote v \<and> w_name w = vote_name v"
  by (auto simp: toWireVote_def res_simps)

lemma toWireBundle_Inr:
  assumes "toWireBundle L b = Inr w"
  shows "votes_bundle_ok L b" and "wire_ok w" and "w_sigtype w = sig_type (b_signature b)"
    and "w_blockNumber w = b_blockNumber b"
    and "hexToBytes (b_address b) ADDRESS_BYTES ''address'' = Inr (w_address w)"
    and "hexToBytes (sig_signature (b_signature b)) SIGNATURE_BYTES ''signature.signature'' = Inr (w_signature w)"
    and "list_all2 (\<lambda>v wv. toWireVote L v = Inr wv) (b_votes b) (w_votes w)"
proof -
  from assms show ok: "votes_bundle_ok L b" by (auto simp: toWireBundle_def res_simps)
  from assms show vs: "list_all2 (\<lambda>v wv. toWireVote L v = Inr wv) (b_votes b) (w_votes w)"
    by (auto simp: toWireBundle_def res_simps traverse_Inr_iff)
  from assms show bn: "w_blockNumber w = b_blockNumber b"
    by (auto simp: toWireBundle_def res_simps)
  have "safe_int (w_vote wv)" if "wv \<in> set (w_votes w)" for wv
  proof -
    from that vs obtain v where "v \<in> set (b_votes b)" "toWireVote L v = Inr wv"
      by (auto dest: list_all2_memD2)
    with ok toWireVote_ok show ?thesis
      by (fastforce simp: votes_bundle_ok_def list_all_iff vote_ok_def)
  qed
  with bn ok show "wire_ok w" by (simp add: wire_ok_def votes_bundle_ok_def)
qed (use assms in \<open>auto simp: toWireBundle_def res_simps\<close>)

lemma bytesToHex_Cons: "bytesToHex bs \<noteq> []"
  by (simp add: bytesToHex_def)

lemma votes_bundle_ok_lower: "votes_bundle_ok L b \<Longrightarrow> votes_bundle_ok L (lower_bundle b)"
  by (simp add: votes_bundle_ok_def lower_bundle_def signature_ok_def)

lemma map_fromWireVote:
  assumes "b58_laws L" "list_all2 (\<lambda>v wv. toWireVote L v = Inr wv) vs wvs"
  shows "map (fromWireVote L) wvs = vs"
  using assms(2) by (induction rule: list_all2_induct) (auto simp: fromWireVote_toWireVote [OF assms(1)])

lemma fromWireBundle_wire:
  assumes b58: "b58_laws L" and w: "toWireBundle L b = Inr w"
  shows "fromWireBundle L (canon (wire_ipld w)) = Inr (lower_bundle b)"
proof -
  note wb = toWireBundle_Inr [OF w]
  have ty: "w_sigtype w \<noteq> []"
    using wb(1,3) by (auto simp: votes_bundle_ok_def signature_ok_def)
  have dec: "\<lparr>b_address = bytesToHex (w_address w), b_votes = map (fromWireVote L) (w_votes w),
        b_blockNumber = w_blockNumber w,
        b_signature = \<lparr>sig_signature = bytesToHex (w_signature w), sig_type = w_sigtype w\<rparr>\<rparr> = lower_bundle b"
    using hexToBytes_Inr(2) [OF wb(5)] hexToBytes_Inr(2) [OF wb(6)] wb(3,4)
      map_fromWireVote [OF b58 wb(7)]
    by (cases b) (simp add: lower_bundle_def)
  show ?thesis
    unfolding fromWireBundle_def WireBundleSchema_canon [OF wb(2) ty] require_some_Some sbind_simps dec
    by (simp add: Let_def hexToBytes_Inr(1) [OF wb(5)] hexToBytes_Inr(1) [OF wb(6)]
        votes_bundle_ok_lower [OF wb(1)])
qed

lemma decodeBundle_encode:
  assumes "cbor_laws L" "b58_laws L" "encodeBundle L b = Inr bs"
  shows "decodeBundle L bs = Inr (lower_bundle b)"
proof -
  from assms(3) obtain w where w: "toWireBundle L b = Inr w"
    and bs: "bs = cbor_encode L (wire_ipld w)"
    by (auto simp: encodeBundle_def encodeCanonical_def res_simps)
  have "cbor_decode L bs = Some (canon (wire_ipld w))"
    unfolding bs using assms(1) toWireBundle_Inr(2) [OF w] by (simp add: cbor_roundtrip ipld_ok_wire)
  with fromWireBundle_wire [OF assms(2) w] show ?thesis by (simp add: decodeBundle_def)
qed

lemma hexToBytes_lower: "hexToBytes s n l = Inr bs \<Longrightarrow> hexToBytes (to_lower s) n l = Inr bs"
  using hexToBytes_Inr [of s n l bs] hexToBytes_bytesToHex by metis

lemma toWireBundle_lower: "toWireBundle L b = Inr w \<Longrightarrow> toWireBundle L (lower_bundle b) = Inr w"
proof -
  assume w: "toWireBundle L b = Inr w"
  note wb = toWireBundle_Inr [OF w]
  have "traverse (toWireVote L) (b_votes b) = Inr (w_votes w)"
    using wb(7) by (simp add: traverse_Inr_iff)
  with wb(3,4) votes_bundle_ok_lower [OF wb(1)] hexToBytes_lower [OF wb(5)] hexToBytes_lower [OF wb(6)]
  show ?thesis by (cases w) (simp add: toWireBundle_def, simp add: lower_bundle_def)
qed

lemma encodeBundle_lower: "encodeBundle L b = Inr bs \<Longrightarrow> encodeBundle L (lower_bundle b) = Inr bs"
  by (auto simp: encodeBundle_def res_simps dest: toWireBundle_lower)

section \<open>What a decoded bundle satisfies\<close>

lemma to_lower_bytesToHex [simp]: "to_lower (bytesToHex bs) = bytesToHex bs"
  using hexToBytes_Inr(2) [OF hexToBytes_bytesToHex [OF refl]] by simp

lemma fromWireBundle_Inr:
  assumes "fromWireBundle L v = Inr b"
  shows "votes_bundle_ok L b" and "lower_bundle b = b"
    and "\<exists>a. length a = ADDRESS_BYTES \<and> b_address b = bytesToHex a"
    and "\<exists>s. length s = SIGNATURE_BYTES \<and> sig_signature (b_signature b) = bytesToHex s"
  using assms by (auto simp: fromWireBundle_def res_simps Let_def lower_bundle_def)

lemma fromWireBundle_encodes:
  assumes "fromWireBundle L v = Inr b"
  shows "\<exists>bs. encodeBundle L b = Inr bs"
proof -
  note d = fromWireBundle_Inr [OF assms]
  obtain a s where a: "hexToBytes (b_address b) ADDRESS_BYTES ''address'' = Inr a"
    and s: "hexToBytes (sig_signature (b_signature b)) SIGNATURE_BYTES ''signature.signature'' = Inr s"
    using d(3,4) hexToBytes_bytesToHex by metis
  have "\<exists>w. toWireVote L v = Inr w" if v: "v \<in> set (b_votes b)" for v
  proof -
    from v d(1) have "isB58IpnsKey L (vote_key v)"
      by (auto simp: votes_bundle_ok_def list_all_iff vote_ok_def community_ok_def)
    then show ?thesis
      by (auto simp: isB58IpnsKey_def toWireVote_def publicKeyToBytes_def split: option.splits)
  qed
  then obtain f where "\<And>v. v \<in> set (b_votes b) \<Longrightarrow> toWireVote L v = Inr (f v)" by metis
  then have "traverse (toWireVote L) (b_votes b) = Inr (map f (b_votes b))" by (rule traverse_total)
  with a s d(1) show ?thesis by (simp add: encodeBundle_def toWireBundle_def)
qed

text \<open>Keys the wire schema does not name are stripped, so they never change what a block decodes to.\<close>

lemma jget_append_other: "k' \<noteq> k \<Longrightarrow> jget (m @ [(k, x)]) k' = jget m k'"
  by (simp add: map_add_def split: option.splits)

lemma WireBundleSchema_extra:
  assumes "k \<notin> {''address'', ''blockNumber'', ''signature'', ''votes''}"
  shows "WireBundleSchema (IMap (m @ [(k, x)])) = WireBundleSchema (IMap m)"
proof -
  have "obj_get (IMap (m @ [(k, x)])) k' = obj_get (IMap m) k'"
    if "k' \<in> {''address'', ''blockNumber'', ''signature'', ''votes''}" for k'
    using assms that jget_append_other [of k' k m x] by (simp del: map_of_append) blast
  then have "obj_get (IMap (m @ [(k, x)])) ''address'' = obj_get (IMap m) ''address''"
    "obj_get (IMap (m @ [(k, x)])) ''blockNumber'' = obj_get (IMap m) ''blockNumber''"
    "obj_get (IMap (m @ [(k, x)])) ''signature'' = obj_get (IMap m) ''signature''"
    "obj_get (IMap (m @ [(k, x)])) ''votes'' = obj_get (IMap m) ''votes''"
    by blast+
  then show ?thesis unfolding WireBundleSchema_def by (simp only:)
qed

end
