(* ===== verification/Criteria.thy ===== *)
theory Criteria
  imports Bundle_Codec
begin

text \<open>
  The criteria document and its schema (\<open>src/schema/criteria.ts\<close>), the derivation of criteria
  from a directory manifest (\<open>src/schema/directory.ts\<close>), and the topic a document maps to
  (\<open>src/topic.ts\<close>). Documents arrive as parsed JSON, an \<open>ipld\<close> value. The lemmas relate the
  iterative bounds walk to the recursive depth and node count, and say what an accepted gate is.
\<close>

section \<open>Documents\<close>

text \<open>A rule reference is a loose object: its \<open>type\<close> and every other key, kept verbatim.\<close>

datatype rule_ref = RuleRef (ref_type: string) (ref_options: "(string \<times> ipld) list")

datatype gate_node = GLeaf rule_ref | GAll "gate_node list" | GAny "gate_node list"

record criteria =
  c_name :: string
  c_contestId :: string
  c_voteMin :: int
  c_voteMax :: int
  c_maxVotesPerAddress :: nat
  c_bucketChainId :: nat
  c_blocksPerBucket :: nat
  c_voteExpiryBuckets :: nat
  c_gate :: gate_node
  c_weight :: rule_ref
  c_requires :: "string list"

definition ref_ipld :: "rule_ref \<Rightarrow> ipld" where
  "ref_ipld r = IMap ((''type'', IStr (ref_type r)) # ref_options r)"

primrec gate_ipld :: "gate_node \<Rightarrow> ipld" where
  "gate_ipld (GLeaf r) = IMap [(''rule'', ref_ipld r)]"
| "gate_ipld (GAll cs) = IMap [(''all'', IList (map gate_ipld cs))]"
| "gate_ipld (GAny cs) = IMap [(''any'', IList (map gate_ipld cs))]"

definition criteria_ipld :: "criteria \<Rightarrow> ipld" where
  "criteria_ipld c =
     IMap [(''name'', IStr (c_name c)), (''contestId'', IStr (c_contestId c)),
           (''voteSchema'', IMap [(''min'', IInt (c_voteMin c)), (''max'', IInt (c_voteMax c))]),
           (''maxVotesPerAddress'', IInt (int (c_maxVotesPerAddress c))),
           (''bucketChainId'', IInt (int (c_bucketChainId c))),
           (''blocksPerBucket'', IInt (int (c_blocksPerBucket c))),
           (''voteExpiryBuckets'', IInt (int (c_voteExpiryBuckets c))),
           (''gate'', gate_ipld (c_gate c)), (''weight'', ref_ipld (c_weight c)),
           (''requires'', IMap [(''rules'', IList (map IStr (c_requires c)))])]"

section \<open>The gate schema\<close>

definition MAX_GATE_DEPTH :: nat where
  "MAX_GATE_DEPTH = 4"

definition MAX_GATE_LEAVES :: nat where
  "MAX_GATE_LEAVES = 8"

definition MAX_GATE_NODES :: nat where
  "MAX_GATE_NODES = MAX_GATE_LEAVES * 2"

text \<open>\<open>RuleRefSchema\<close>: a loose object with a non-empty \<open>type\<close>.\<close>

definition RuleRefSchema :: "ipld \<Rightarrow> rule_ref option" where
  "RuleRefSchema v =
     (case v of IMap m \<Rightarrow>
        (case jget m ''type'' of Some (IStr t) \<Rightarrow>
           if t = [] then None else Some (RuleRef t (jdel ''type'' m))
         | _ \<Rightarrow> None)
      | _ \<Rightarrow> None)"

lemma opt_map_cong [fundef_cong]:
  "xs = ys \<Longrightarrow> (\<And>x. x \<in> set ys \<Longrightarrow> f x = g x) \<Longrightarrow> opt_map f xs = opt_map g ys"
  by (induction xs arbitrary: ys) (auto split: option.splits)

text \<open>\<open>GateNodeSchema\<close>: a strict object holds exactly its one key; a branch has two children or
  more.\<close>

fun GateNodeSchema :: "ipld \<Rightarrow> gate_node option" where
  "GateNodeSchema (IMap [(k, v)]) =
     (if k = ''rule'' then map_option GLeaf (RuleRefSchema v)
      else case v of
        IList xs \<Rightarrow>
          if length xs < 2 then None
          else if k = ''all'' then map_option GAll (opt_map GateNodeSchema xs)
          else if k = ''any'' then map_option GAny (opt_map GateNodeSchema xs)
          else None
      | _ \<Rightarrow> None)"
| "GateNodeSchema _ = None"

text \<open>The bounds walk over the raw value: an explicit stack, popped from its end.\<close>

datatype gate_issue =
    TooDeep
  | TooManyNodes
  | DepthOf nat
  | LeavesOf nat
  | NestedSameKind bool
  | RepeatedChild bool

definition raw_children :: "ipld \<Rightarrow> ipld list" where
  "raw_children node =
     (case node of
        IMap m \<Rightarrow>
          (case jget m ''all'' of
             Some (IList xs) \<Rightarrow> xs
           | _ \<Rightarrow> (case jget m ''any'' of Some (IList xs) \<Rightarrow> xs | _ \<Rightarrow> []))
      | _ \<Rightarrow> [])"

function gate_bounds_loop :: "(ipld \<times> nat) list \<Rightarrow> nat \<Rightarrow> gate_issue option" where
  "gate_bounds_loop stack nodes =
     (case stack of
        [] \<Rightarrow> None
      | (node, depth) # rest \<Rightarrow>
          if MAX_GATE_DEPTH < depth then Some TooDeep
          else if MAX_GATE_NODES < nodes + 1 then Some TooManyNodes
          else gate_bounds_loop (rev (map (\<lambda>c. (c, depth + 1)) (raw_children node)) @ rest) (nodes + 1))"
  by pat_completeness auto
termination
  by (relation "measure (\<lambda>(stack, nodes). Suc MAX_GATE_NODES - nodes)") auto

declare gate_bounds_loop.simps [simp del]

definition checkGateBounds :: "ipld \<Rightarrow> gate_issue option" where
  "checkGateBounds raw = gate_bounds_loop [(raw, 1)] 0"

text \<open>One walk for depth, leaf count and the first redundant spelling. The loop's accumulators are
  the arguments of \<open>shape_fold\<close>; \<open>is_all\<close> is the branch's kind.\<close>

fun same_kind :: "bool \<Rightarrow> gate_node \<Rightarrow> bool" where
  "same_kind is_all (GAll _) = is_all"
| "same_kind is_all (GAny _) = (\<not> is_all)"
| "same_kind is_all (GLeaf _) = False"

definition or_else :: "'a option \<Rightarrow> 'a option \<Rightarrow> 'a option" where
  "or_else x y = (case x of None \<Rightarrow> y | Some _ \<Rightarrow> x)"

fun shape_fold ::
  "lib \<Rightarrow> bool \<Rightarrow> (gate_node \<times> nat \<times> nat \<times> gate_issue option) list \<Rightarrow>
     nat \<Rightarrow> nat \<Rightarrow> gate_issue option \<Rightarrow> bytes list \<Rightarrow> nat \<times> nat \<times> gate_issue option" where
  "shape_fold L is_all [] depth leaves redundant seen = (depth + 1, leaves, redundant)"
| "shape_fold L is_all ((child, d, l, r) # rest) depth leaves redundant seen =
     (let redundant = or_else redundant r;
          redundant = (if same_kind is_all child then or_else redundant (Some (NestedSameKind is_all)) else redundant);
          bs = encodeCanonical L (gate_ipld child);
          redundant = (if bs \<in> set seen then or_else redundant (Some (RepeatedChild is_all)) else redundant)
      in shape_fold L is_all rest (max depth d) (leaves + l) redundant (sadd bs seen))"

fun gateShape :: "lib \<Rightarrow> gate_node \<Rightarrow> nat \<times> nat \<times> gate_issue option" where
  "gateShape L (GLeaf r) = (1, 1, None)"
| "gateShape L (GAll cs) = shape_fold L True (map (\<lambda>c. (c, gateShape L c)) cs) 0 0 None []"
| "gateShape L (GAny cs) = shape_fold L False (map (\<lambda>c. (c, gateShape L c)) cs) 0 0 None []"

definition gate_issues :: "lib \<Rightarrow> gate_node \<Rightarrow> gate_issue list" where
  "gate_issues L g =
     (let (depth, leaves, redundant) = gateShape L g in
      (if MAX_GATE_DEPTH < depth then [DepthOf depth] else []) @
      (if MAX_GATE_LEAVES < leaves then [LeavesOf leaves] else []) @
      (case redundant of None \<Rightarrow> [] | Some i \<Rightarrow> [i]))"

definition GateSchema :: "lib \<Rightarrow> ipld \<Rightarrow> gate_node option" where
  "GateSchema L raw =
     (if checkGateBounds raw \<noteq> None then None
      else case GateNodeSchema raw of
        None \<Rightarrow> None
      | Some g \<Rightarrow> if gate_issues L g = [] then Some g else None)"

section \<open>The document schema\<close>

definition nonempty_string :: "ipld \<Rightarrow> string option" where
  "nonempty_string v = Option.bind (as_string v) (\<lambda>s. if s = [] then None else Some s)"

definition positive_int :: "ipld \<Rightarrow> nat option" where
  "positive_int v = Option.bind (as_nat v) (\<lambda>n. if n = 0 then None else Some n)"

text \<open>A strict object: every key it has is one the schema names.\<close>

definition strict_keys :: "string list \<Rightarrow> ipld \<Rightarrow> bool" where
  "strict_keys ks v = (case v of IMap m \<Rightarrow> list_all (\<lambda>p. fst p \<in> set ks) m | _ \<Rightarrow> False)"

definition VoteRangeSchema :: "ipld \<Rightarrow> (int \<times> int) option" where
  "VoteRangeSchema v =
     (if \<not> strict_keys [''min'', ''max''] v then None else
      Option.bind (Option.bind (obj_get v ''min'') as_int) (\<lambda>lo.
      Option.bind (Option.bind (obj_get v ''max'') as_int) (\<lambda>hi. Some (lo, hi))))"

definition RequiresSchema :: "ipld \<Rightarrow> string list option" where
  "RequiresSchema v =
     (if \<not> strict_keys [''rules''] v then None else
      Option.bind (Option.bind (obj_get v ''rules'') as_list) (\<lambda>xs.
      if xs = [] then None else opt_map nonempty_string xs))"

definition criteria_keys :: "string list" where
  "criteria_keys =
     [''name'', ''contestId'', ''voteSchema'', ''maxVotesPerAddress'', ''bucketChainId'',
      ''blocksPerBucket'', ''voteExpiryBuckets'', ''gate'', ''weight'', ''requires'']"

definition parse_criteria :: "lib \<Rightarrow> ipld \<Rightarrow> criteria option" where
  "parse_criteria L v =
     (if \<not> strict_keys criteria_keys v then None else
      Option.bind (Option.bind (obj_get v ''name'') nonempty_string) (\<lambda>nm.
      Option.bind (Option.bind (obj_get v ''contestId'') nonempty_string) (\<lambda>cid.
      Option.bind (Option.bind (obj_get v ''voteSchema'') VoteRangeSchema) (\<lambda>(lo, hi).
      Option.bind (Option.bind (obj_get v ''maxVotesPerAddress'') positive_int) (\<lambda>mv.
      Option.bind (Option.bind (obj_get v ''bucketChainId'') positive_int) (\<lambda>ch.
      Option.bind (Option.bind (obj_get v ''blocksPerBucket'') positive_int) (\<lambda>bb.
      Option.bind (Option.bind (obj_get v ''voteExpiryBuckets'') positive_int) (\<lambda>ve.
      Option.bind (Option.bind (obj_get v ''gate'') (GateSchema L)) (\<lambda>g.
      Option.bind (Option.bind (obj_get v ''weight'') RuleRefSchema) (\<lambda>w.
      Option.bind (Option.bind (obj_get v ''requires'') RequiresSchema) (\<lambda>rq.
      Some \<lparr>c_name = nm, c_contestId = cid, c_voteMin = lo, c_voteMax = hi,
            c_maxVotesPerAddress = mv, c_bucketChainId = ch, c_blocksPerBucket = bb,
            c_voteExpiryBuckets = ve, c_gate = g, c_weight = w, c_requires = rq\<rparr>)))))))))))"

definition CriteriaSchema :: "lib \<Rightarrow> ipld \<Rightarrow> criteria res" where
  "CriteriaSchema L v = require_some (ZodError ''CriteriaSchema'') (parse_criteria L v)"

section \<open>Directories\<close>

definition DirectoryManifestSchema :: "ipld \<Rightarrow> ((string \<times> ipld) list \<times> (string \<times> ipld) list list) option" where
  "DirectoryManifestSchema v =
     (let as_map = (\<lambda>x. case x of IMap m \<Rightarrow> Some m | _ \<Rightarrow> None) in
      Option.bind (case obj_get v ''defaults'' of None \<Rightarrow> Some [] | Some d \<Rightarrow> as_map d) (\<lambda>defaults.
      Option.bind (Option.bind (obj_get v ''contests'') as_list) (\<lambda>cs.
      if cs = [] then None else map_option (Pair defaults) (opt_map as_map cs))))"

text \<open>\<open>{ ...defaults, ...entry }\<close>: the entry's keys replace the defaults', in place.\<close>

definition spread :: "(string \<times> ipld) list \<Rightarrow> (string \<times> ipld) list \<Rightarrow> (string \<times> ipld) list" where
  "spread defaults entry = fold (\<lambda>(k, v) m. jset k v m) entry defaults"

fun derive_loop ::
  "lib \<Rightarrow> (string \<times> ipld) list \<Rightarrow> (string \<times> ipld) list list \<Rightarrow> string list \<Rightarrow> criteria list res" where
  "derive_loop L defaults [] seen = Inr []"
| "derive_loop L defaults (entry # rest) seen =
     sbind (CriteriaSchema L (IMap (spread defaults entry))) (\<lambda>c.
     if c_contestId c \<in> set seen then Inl (DuplicateContestIdError (c_contestId c))
     else sbind (derive_loop L defaults rest (sadd (c_contestId c) seen)) (\<lambda>cs. Inr (c # cs)))"

definition deriveDirectoryCriteria :: "lib \<Rightarrow> ipld \<Rightarrow> criteria list res" where
  "deriveDirectoryCriteria L manifest =
     sbind (require_some (ZodError ''DirectoryManifestSchema'') (DirectoryManifestSchema manifest))
       (\<lambda>(defaults, contests). derive_loop L defaults contests [])"

section \<open>Topics\<close>

definition TOPIC_PREFIX :: string where
  "TOPIC_PREFIX = ''bitsocial-votes/''"

definition encodeCriteria :: "lib \<Rightarrow> criteria \<Rightarrow> bytes" where
  "encodeCriteria L c = cbor_encode L (criteria_ipld c)"

definition criteriaCid :: "lib \<Rightarrow> criteria \<Rightarrow> cid" where
  "criteriaCid L c = create_v1 L dagCborCode (sha256 L (encodeCriteria L c))"

definition topicFor :: "lib \<Rightarrow> criteria \<Rightarrow> string" where
  "topicFor L c = TOPIC_PREFIX @ cid_str L (criteriaCid L c)"

section \<open>The bounds walk is the recursive measure\<close>

lemma raw_children_cases:
  assumes "c \<in> set (raw_children v)"
  shows "\<exists>m k xs. v = IMap m \<and> jget m k = Some (IList xs) \<and> c \<in> set xs"
proof (cases v)
  case (IMap m)
  have any: ?thesis if "c \<in> set (case jget m ''any'' of Some (IList xs) \<Rightarrow> xs | _ \<Rightarrow> [])"
    using that IMap by (cases "jget m ''any''"; cases "the (jget m ''any'')") auto
  show ?thesis
    using assms any IMap
    by (cases "jget m ''all''"; cases "the (jget m ''all'')") (auto simp: raw_children_def)
qed (use assms in \<open>auto simp: raw_children_def\<close>)

lemma raw_children_size: "c \<in> set (raw_children v) \<Longrightarrow> size c < size v"
proof -
  assume c: "c \<in> set (raw_children v)"
  have IMap: "size (IList xs) < size (IMap m)" if "jget m k = Some (IList xs)" for k xs m
    using size_list_estimation' [of "(k, IList xs)" m "size (IList xs)" "size_prod (\<lambda>x. 0) size"]
      jget_SomeD [OF that] by (simp add: less_Suc_eq_le)
  have IList: "size x < size (IList xs)" if "x \<in> set xs" for x xs
    using that by (simp add: size_list_estimation' less_Suc_eq_le)
  from c obtain m k xs where "v = IMap m" "jget m k = Some (IList xs)" "c \<in> set xs"
    using raw_children_cases [OF c] by blast
  then show ?thesis using IMap IList less_trans by blast
qed

text \<open>The depth of a raw gate, and its node count, as a reader would define them.\<close>

function raw_depth :: "ipld \<Rightarrow> nat" where
  "raw_depth v = Suc (Max (insert 0 (raw_depth ` set (raw_children v))))"
  by pat_completeness auto
termination
  by (relation "measure size") (auto simp: raw_children_size)

function raw_nodes :: "ipld \<Rightarrow> nat" where
  "raw_nodes v = Suc (sum_list (map raw_nodes (raw_children v)))"
  by pat_completeness auto
termination
  by (relation "measure size") (auto simp: raw_children_size)

declare raw_depth.simps [simp del] raw_nodes.simps [simp del]

lemma raw_depth_le: "d + raw_depth v \<le> Suc n \<longleftrightarrow> d \<le> n \<and> (\<forall>c \<in> set (raw_children v). Suc d + raw_depth c \<le> Suc n)"
proof -
  have "d + Max (insert 0 (raw_depth ` set (raw_children v))) \<le> n \<longleftrightarrow>
      d \<le> n \<and> Max (insert 0 (raw_depth ` set (raw_children v))) \<le> n - d"
    by linarith
  also have "\<dots> \<longleftrightarrow> d \<le> n \<and> (\<forall>c \<in> set (raw_children v). raw_depth c \<le> n - d)"
    by simp
  finally show ?thesis by (subst raw_depth.simps) (auto simp: le_diff_conv2 add.commute)
qed

lemma gate_bounds_loop_iff:
  "gate_bounds_loop stack nodes = None \<longleftrightarrow>
     (\<forall>(v, d) \<in> set stack. d + raw_depth v \<le> Suc MAX_GATE_DEPTH) \<and>
     (stack = [] \<or> nodes + sum_list (map (\<lambda>(v, d). raw_nodes v) stack) \<le> MAX_GATE_NODES)"
proof (induction stack nodes rule: gate_bounds_loop.induct)
  case (1 stack nodes)
  show ?case
  proof (cases stack)
    case Nil
    then show ?thesis by (simp add: gate_bounds_loop.simps)
  next
    case (Cons p rest)
    obtain v d where p: "p = (v, d)" by (cases p)
    show ?thesis
    proof (cases "MAX_GATE_DEPTH < d \<or> MAX_GATE_NODES < nodes + 1")
      case True
      then show ?thesis
        using raw_depth_le [of d v MAX_GATE_DEPTH]
        by (subst gate_bounds_loop.simps) (auto simp: Cons p raw_nodes.simps [of v])
    next
      case False
      let ?next = "rev (map (\<lambda>c. (c, d + 1)) (raw_children v)) @ rest"
      have step: "gate_bounds_loop stack nodes = gate_bounds_loop ?next (nodes + 1)"
        using False by (subst gate_bounds_loop.simps) (simp add: Cons p)
      have ih: "gate_bounds_loop ?next (nodes + 1) = None \<longleftrightarrow>
          (\<forall>(v, d) \<in> set ?next. d + raw_depth v \<le> Suc MAX_GATE_DEPTH) \<and>
          (?next = [] \<or> nodes + 1 + sum_list (map (\<lambda>(v, d). raw_nodes v) ?next) \<le> MAX_GATE_NODES)"
        using False by (intro 1 [OF Cons p [symmetric]]) auto
      have sum: "sum_list (map (\<lambda>(v, d). raw_nodes v) ?next) + 1 = raw_nodes v + sum_list (map (\<lambda>(v, d). raw_nodes v) rest)"
        by (simp add: raw_nodes.simps [of v] rev_map [symmetric] comp_def sum_list_rev)
      have nil: "sum_list (map (\<lambda>(v, d). raw_nodes v) ?next) = 0" if "?next = []"
        using that by simp
      have "(stack = [] \<or> nodes + sum_list (map (\<lambda>(v, d). raw_nodes v) stack) \<le> MAX_GATE_NODES) \<longleftrightarrow>
          (?next = [] \<or> nodes + 1 + sum_list (map (\<lambda>(v, d). raw_nodes v) ?next) \<le> MAX_GATE_NODES)"
        using False sum nil by (auto simp: Cons p)
      moreover have "(\<forall>(v, d) \<in> set stack. d + raw_depth v \<le> Suc MAX_GATE_DEPTH) \<longleftrightarrow>
          (\<forall>(v, d) \<in> set ?next. d + raw_depth v \<le> Suc MAX_GATE_DEPTH)"
        using False by (simp add: Cons p ball_Un raw_depth_le [of d v MAX_GATE_DEPTH])
      ultimately show ?thesis unfolding step ih by blast
    qed
  qed
qed

lemma checkGateBounds_None:
  "checkGateBounds raw = None \<longleftrightarrow> raw_depth raw \<le> MAX_GATE_DEPTH \<and> raw_nodes raw \<le> MAX_GATE_NODES"
  by (simp add: checkGateBounds_def gate_bounds_loop_iff)

section \<open>What an accepted gate is\<close>

primrec gate_depth :: "gate_node \<Rightarrow> nat" where
  "gate_depth (GLeaf r) = 1"
| "gate_depth (GAll cs) = Suc (fold max (map gate_depth cs) 0)"
| "gate_depth (GAny cs) = Suc (fold max (map gate_depth cs) 0)"

primrec gate_leaf_count :: "gate_node \<Rightarrow> nat" where
  "gate_leaf_count (GLeaf r) = 1"
| "gate_leaf_count (GAll cs) = sum_list (map gate_leaf_count cs)"
| "gate_leaf_count (GAny cs) = sum_list (map gate_leaf_count cs)"

primrec gate_node_count :: "gate_node \<Rightarrow> nat" where
  "gate_node_count (GLeaf r) = 1"
| "gate_node_count (GAll cs) = Suc (sum_list (map gate_node_count cs))"
| "gate_node_count (GAny cs) = Suc (sum_list (map gate_node_count cs))"

primrec branches_ok :: "gate_node \<Rightarrow> bool" where
  "branches_ok (GLeaf r) = True"
| "branches_ok (GAll cs) = (2 \<le> length cs \<and> list_all id (map branches_ok cs))"
| "branches_ok (GAny cs) = (2 \<le> length cs \<and> list_all id (map branches_ok cs))"

text \<open>The canonical form the schema enforces: no branch directly under a branch of its own kind,
  no two siblings with the same encoding.\<close>

fun canonical_gate :: "lib \<Rightarrow> gate_node \<Rightarrow> bool" where
  "canonical_gate L (GLeaf r) = True"
| "canonical_gate L (GAll cs) =
     ((\<forall>c \<in> set cs. \<not> same_kind True c \<and> canonical_gate L c) \<and>
      distinct (map (\<lambda>c. encodeCanonical L (gate_ipld c)) cs))"
| "canonical_gate L (GAny cs) =
     ((\<forall>c \<in> set cs. \<not> same_kind False c \<and> canonical_gate L c) \<and>
      distinct (map (\<lambda>c. encodeCanonical L (gate_ipld c)) cs))"

lemma or_else_None [simp]: "or_else x y = None \<longleftrightarrow> x = None \<and> y = None"
  by (simp add: or_else_def split: option.splits)

lemma shape_fold_spec:
  "shape_fold L is_all cs depth leaves red seen =
     (Suc (fold max (map (fst \<circ> snd) cs) depth), leaves + sum_list (map (fst \<circ> snd \<circ> snd) cs), r) \<Longrightarrow>
   r = None \<longleftrightarrow> red = None \<and>
     (\<forall>x \<in> set cs. snd (snd (snd x)) = None \<and> \<not> same_kind is_all (fst x)) \<and>
     distinct (map (\<lambda>x. encodeCanonical L (gate_ipld (fst x))) cs) \<and>
     set seen \<inter> set (map (\<lambda>x. encodeCanonical L (gate_ipld (fst x))) cs) = {}"
proof (induction L is_all cs depth leaves red seen rule: shape_fold.induct)
  case (1 L is_all depth leaves redundant seen)
  then show ?case by auto
next
  case (2 L is_all child d l r' rest depth leaves redundant seen)
  show ?case
    using 2(1) [OF refl refl refl refl] 2(2)
    by (auto simp: Let_def max.commute add.assoc split: if_splits)
qed

lemma shape_fold_fst:
  "\<exists>r. shape_fold L is_all cs depth leaves red seen =
     (Suc (fold max (map (fst \<circ> snd) cs) depth), leaves + sum_list (map (fst \<circ> snd \<circ> snd) cs), r)"
  by (induction L is_all cs depth leaves red seen rule: shape_fold.induct)
     (auto simp: Let_def max.commute add.assoc)

text \<open>The one walk computes the depth, the leaf count, and whether the gate is canonical.\<close>

lemma gateShape_spec:
  "\<exists>r. gateShape L g = (gate_depth g, gate_leaf_count g, r) \<and> (r = None \<longleftrightarrow> canonical_gate L g)"
proof -
  have branch: "\<exists>r. shape_fold L is_all (map (\<lambda>c. (c, gateShape L c)) cs) 0 0 None [] =
        (Suc (fold max (map gate_depth cs) 0), sum_list (map gate_leaf_count cs), r) \<and>
        (r = None \<longleftrightarrow> (\<forall>c \<in> set cs. \<not> same_kind is_all c \<and> canonical_gate L c) \<and>
          distinct (map (\<lambda>c. encodeCanonical L (gate_ipld c)) cs))"
    if ih: "\<And>c. c \<in> set cs \<Longrightarrow>
      \<exists>r. gateShape L c = (gate_depth c, gate_leaf_count c, r) \<and> (r = None \<longleftrightarrow> canonical_gate L c)"
    for is_all cs
  proof -
    let ?cs = "map (\<lambda>c. (c, gateShape L c)) cs"
    have d: "map (fst \<circ> snd) ?cs = map gate_depth cs"
      and l: "map (fst \<circ> snd \<circ> snd) ?cs = map gate_leaf_count cs"
      and n: "\<forall>c \<in> set cs. snd (snd (gateShape L c)) = None \<longleftrightarrow> canonical_gate L c"
      using ih by fastforce+
    obtain r where r: "shape_fold L is_all ?cs 0 0 None [] =
        (Suc (fold max (map (fst \<circ> snd) ?cs) 0), 0 + sum_list (map (fst \<circ> snd \<circ> snd) ?cs), r)"
      using shape_fold_fst by blast
    from shape_fold_spec [OF r] n have "r = None \<longleftrightarrow> (\<forall>c \<in> set cs. \<not> same_kind is_all c \<and> canonical_gate L c) \<and>
          distinct (map (\<lambda>c. encodeCanonical L (gate_ipld c)) cs)"
      by (auto simp: comp_def)
    with r show ?thesis unfolding d l by simp
  qed
  show ?thesis
  proof (induction g)
    case (GLeaf r)
    then show ?case by simp
  next
    case (GAll cs)
    from branch [of cs True] GAll show ?case by simp
  next
    case (GAny cs)
    from branch [of cs False] GAny show ?case by simp
  qed
qed

lemma gate_issues_Nil:
  "gate_issues L g = [] \<longleftrightarrow>
     gate_depth g \<le> MAX_GATE_DEPTH \<and> gate_leaf_count g \<le> MAX_GATE_LEAVES \<and> canonical_gate L g"
proof -
  obtain r where "gateShape L g = (gate_depth g, gate_leaf_count g, r)" "r = None \<longleftrightarrow> canonical_gate L g"
    using gateShape_spec by blast
  then show ?thesis by (auto simp: gate_issues_def split: option.splits)
qed

text \<open>A parsed gate measures exactly what its raw value did.\<close>

lemma fold_max_Max: "fold max xs (0 :: nat) = Max (insert 0 (set xs))"
  using Max.set_eq_fold [of 0 xs] by simp

lemma GateNodeSchema_single:
  assumes "GateNodeSchema (IMap [(k, v)]) = Some g"
  shows "(\<exists>r. k = ''rule'' \<and> g = GLeaf r) \<or>
    (\<exists>xs cs. v = IList xs \<and> 2 \<le> length xs \<and> opt_map GateNodeSchema xs = Some cs \<and>
      (k = ''all'' \<and> g = GAll cs \<or> k = ''any'' \<and> g = GAny cs))"
proof (cases "k = ''rule''")
  case True
  with assms show ?thesis by auto
next
  case False
  with assms have "\<exists>xs. v = IList xs" by (cases v) simp_all
  then obtain xs where v: "v = IList xs" by blast
  with False assms have len: "2 \<le> length xs" by (simp split: if_splits)
  from v len False assms show ?thesis by (cases "k = ''all''") (auto split: if_splits)
qed

lemma GateNodeSchema_measures:
  "GateNodeSchema raw = Some g \<Longrightarrow>
     branches_ok g \<and> raw_depth raw = gate_depth g \<and> raw_nodes raw = gate_node_count g"
proof (induction raw arbitrary: g rule: GateNodeSchema.induct)
  case (1 k v)
  consider (leaf) r where "k = ''rule''" "g = GLeaf r"
    | (branch) xs cs where "v = IList xs" "2 \<le> length xs" "opt_map GateNodeSchema xs = Some cs"
        "k = ''all'' \<and> g = GAll cs \<or> k = ''any'' \<and> g = GAny cs"
    using GateNodeSchema_single [OF "1.prems"] by blast
  then show ?case
  proof cases
    case leaf
    then show ?thesis by (simp add: raw_depth.simps [of "IMap [(''rule'', v)]"] raw_nodes.simps [of "IMap [(''rule'', v)]"]
          raw_children_def)
  next
    case branch
    then have ch: "raw_children (IMap [(k, v)]) = xs" by (auto simp: raw_children_def)
    have rel: "list_all2 (\<lambda>x y. GateNodeSchema x = Some y) xs cs"
      using branch(3) by (simp add: opt_map_Some_iff)
    have ih: "list_all2 (\<lambda>x y. branches_ok y \<and> raw_depth x = gate_depth y \<and> raw_nodes x = gate_node_count y) xs cs"
      using rel
    proof (rule list.rel_mono_strong)
      fix x y assume "x \<in> set xs" "GateNodeSchema x = Some y"
      with branch "1.IH" show "branches_ok y \<and> raw_depth x = gate_depth y \<and> raw_nodes x = gate_node_count y"
        by auto
    qed
    then have "map raw_depth xs = map gate_depth cs" "map raw_nodes xs = map gate_node_count cs"
      "\<forall>c \<in> set cs. branches_ok c" "length cs = length xs"
      by (induction rule: list_all2_induct) auto
    moreover have "raw_depth (IMap [(k, v)]) = Suc (Max (insert 0 (set (map raw_depth xs))))"
      by (subst raw_depth.simps) (simp add: ch)
    moreover have "raw_nodes (IMap [(k, v)]) = Suc (sum_list (map raw_nodes xs))"
      by (subst raw_nodes.simps) (simp add: ch)
    ultimately show ?thesis
      using branch(2,4) by (auto simp: list_all_iff fold_max_Max simp del: set_map) (auto simp: set_map)
  qed
qed auto

text \<open>Branching at least twice everywhere, a gate has fewer branches than leaves; so the node bound
  of the walk never refuses what the leaf bound admits.\<close>

lemma sum_list_double:
  "(\<And>c. c \<in> set cs \<Longrightarrow> Suc (f c) \<le> 2 * g c) \<Longrightarrow>
     sum_list (map f cs) + length cs \<le> 2 * sum_list (map g cs)"
proof (induction cs)
  case (Cons c cs)
  from Cons.prems [of c] have "Suc (f c) \<le> 2 * g c" by simp
  moreover have "sum_list (map f cs) + length cs \<le> 2 * sum_list (map g cs)"
    using Cons by simp
  ultimately show ?case by simp
qed simp

lemma gate_node_count_bound: "branches_ok g \<Longrightarrow> Suc (gate_node_count g) \<le> 2 * gate_leaf_count g"
proof (induction g)
  case (GLeaf r)
  then show ?case by simp
next
  case (GAll cs)
  have "sum_list (map gate_node_count cs) + length cs \<le> 2 * sum_list (map gate_leaf_count cs)"
    using GAll by (intro sum_list_double) (auto simp: list_all_iff)
  with GAll.prems show ?case by simp
next
  case (GAny cs)
  have "sum_list (map gate_node_count cs) + length cs \<le> 2 * sum_list (map gate_leaf_count cs)"
    using GAny by (intro sum_list_double) (auto simp: list_all_iff)
  with GAny.prems show ?case by simp
qed

lemma GateSchema_Some_iff:
  "GateSchema L raw = Some g \<longleftrightarrow>
     GateNodeSchema raw = Some g \<and> gate_depth g \<le> MAX_GATE_DEPTH \<and>
     gate_leaf_count g \<le> MAX_GATE_LEAVES \<and> canonical_gate L g"
proof -
  have "checkGateBounds raw = None" if g: "GateNodeSchema raw = Some g" "gate_issues L g = []"
    using GateNodeSchema_measures [OF g(1)] gate_node_count_bound [of g] g(2)
    by (simp add: checkGateBounds_None gate_issues_Nil MAX_GATE_NODES_def)
  then show ?thesis by (auto simp: GateSchema_def gate_issues_Nil split: option.splits)
qed

section \<open>Directories derive distinct contests\<close>

lemma derive_loop_Inr:
  "derive_loop L defaults entries seen = Inr cs \<Longrightarrow>
     list_all2 (\<lambda>e c. CriteriaSchema L (IMap (spread defaults e)) = Inr c) entries cs \<and>
     distinct (map c_contestId cs) \<and> set (map c_contestId cs) \<inter> set seen = {}"
  by (induction L defaults entries seen arbitrary: cs rule: derive_loop.induct)
     (fastforce simp: res_simps split: if_splits)+

lemma jget_spread: "distinct (map fst entry) \<Longrightarrow>
    jget (spread defaults entry) k = (case jget entry k of Some v \<Rightarrow> Some v | None \<Rightarrow> jget defaults k)"
proof (induction entry arbitrary: defaults)
  case Nil
  then show ?case by (simp add: spread_def)
next
  case (Cons p entry)
  then have "jget entry (fst p) = None" by (simp add: map_of_eq_None_iff)
  moreover have "spread defaults (p # entry) = spread (jset (fst p) (snd p) defaults) entry"
    by (simp add: spread_def split_beta)
  ultimately show ?case
    using Cons by (cases p) (auto simp: jsmap_simps split: option.splits)
qed

lemma parse_criteria_Some:
  assumes "parse_criteria L v = Some c"
  shows "Option.bind (obj_get v ''contestId'') nonempty_string = Some (c_contestId c)"
    "Option.bind (obj_get v ''voteSchema'') VoteRangeSchema = Some (c_voteMin c, c_voteMax c)"
    "Option.bind (obj_get v ''maxVotesPerAddress'') positive_int = Some (c_maxVotesPerAddress c)"
    "Option.bind (obj_get v ''bucketChainId'') positive_int = Some (c_bucketChainId c)"
    "Option.bind (obj_get v ''blocksPerBucket'') positive_int = Some (c_blocksPerBucket c)"
    "Option.bind (obj_get v ''voteExpiryBuckets'') positive_int = Some (c_voteExpiryBuckets c)"
    "Option.bind (obj_get v ''gate'') (GateSchema L) = Some (c_gate c)"
    "Option.bind (obj_get v ''weight'') RuleRefSchema = Some (c_weight c)"
    "Option.bind (obj_get v ''requires'') RequiresSchema = Some (c_requires c)"
  using assms by (auto simp: parse_criteria_def bind_eq_Some_conv split: if_split_asm)

lemma bind_SomeD: "Option.bind x f = Some y \<Longrightarrow> \<exists>a. x = Some a \<and> f a = Some y"
  by (cases x) auto

lemma positive_int_bound: "positive_int x = Some n \<Longrightarrow> 0 < n \<and> n \<le> max_safe_integer"
  by (cases x) (auto simp: positive_int_def as_nat_def safe_int_def split: if_splits)

lemma as_int_safe: "as_int x = Some i \<Longrightarrow> safe_int i"
  by (cases x) (auto split: if_splits)

lemma CriteriaSchema_fields:
  assumes "CriteriaSchema L v = Inr c"
  shows "0 < c_blocksPerBucket c" "0 < c_voteExpiryBuckets c" "0 < c_maxVotesPerAddress c"
    "0 < c_bucketChainId c" "c_requires c \<noteq> []" "c_contestId c \<noteq> []"
    "safe_int (c_voteMin c)" "safe_int (c_voteMax c)"
    "\<exists>raw. obj_get v ''gate'' = Some raw \<and> GateSchema L raw = Some (c_gate c)"
proof -
  from assms have "parse_criteria L v = Some c" by (simp add: CriteriaSchema_def res_simps)
  note p = parse_criteria_Some [OF this, THEN bind_SomeD]
  show "0 < c_blocksPerBucket c" "0 < c_voteExpiryBuckets c" "0 < c_maxVotesPerAddress c"
    "0 < c_bucketChainId c"
    using p(3-6) positive_int_bound by blast+
  show "c_requires c \<noteq> []"
    using p(9) by (auto simp: RequiresSchema_def opt_map_Some_iff bind_eq_Some_conv split: if_splits)
  show "c_contestId c \<noteq> []"
    using p(1) by (auto simp: nonempty_string_def bind_eq_Some_conv split: if_splits)
  show "safe_int (c_voteMin c)" "safe_int (c_voteMax c)"
    using p(2) by (auto simp: VoteRangeSchema_def bind_eq_Some_conv as_int_safe split: if_splits)
  show "\<exists>raw. obj_get v ''gate'' = Some raw \<and> GateSchema L raw = Some (c_gate c)"
    using p(7) .
qed

section \<open>One topic per document\<close>

text \<open>Distinct digests, CIDs and CID strings for distinct inputs: what content addressing assumes
  of the hash and what multiformats documents of the rendering.\<close>

definition cid_laws :: "lib \<Rightarrow> bool" where
  "cid_laws L \<longleftrightarrow> inj (sha256 L) \<and> inj (create_v1 L dagCborCode) \<and> inj (cid_str L)"

lemma criteriaCid_bundleCid: "criteriaCid L c = bundleCidForBytes L (encodeCriteria L c)"
  by (simp add: criteriaCid_def bundleCidForBytes_def)

lemma topicFor_eq_iff:
  assumes "cbor_laws L" "cid_laws L" "ipld_ok (criteria_ipld c)" "ipld_ok (criteria_ipld d)"
  shows "topicFor L c = topicFor L d \<longleftrightarrow> canon (criteria_ipld c) = canon (criteria_ipld d)"
  using assms cbor_encode_eq_iff [OF assms(1,3,4)]
  by (simp add: topicFor_def criteriaCid_def cid_laws_def encodeCriteria_def inj_eq)
end
