(* ===== verification/Bucket.thy ===== *)
theory Bucket
  imports Criteria
begin

text \<open>
  Bucket arithmetic (\<open>src/chain/bucket.ts\<close>): block numbers are grouped into buckets of
  \<open>blocksPerBucket\<close> blocks and every price is read at the bucket's boundary block. The locale
  \<open>bucket_laws\<close> is the contract its clients (CRDT expiry, name checks, verifier) use.
\<close>

record bucket_math =
  bucketForBlock :: "nat \<Rightarrow> nat"
  sampleBlockForBucket :: "nat \<Rightarrow> nat"

definition bucket_of :: "nat \<Rightarrow> nat \<Rightarrow> nat" where
  "bucket_of blocksPerBucket blockNumber = blockNumber div blocksPerBucket"

definition sample_of :: "nat \<Rightarrow> nat \<Rightarrow> nat" where
  "sample_of blocksPerBucket bucket = bucket * blocksPerBucket"

definition makeBucketMath :: "int \<Rightarrow> bucket_math res" where
  "makeBucketMath blocksPerBucket =
     (if blocksPerBucket \<le> 0 then Inl (RangeError ''blocksPerBucket'')
      else Inr \<lparr>bucketForBlock = bucket_of (nat blocksPerBucket),
                sampleBlockForBucket = sample_of (nat blocksPerBucket)\<rparr>)"

locale bucket_laws =
  fixes bucket sample :: "nat \<Rightarrow> nat \<Rightarrow> nat"
  assumes bucket_sample: "0 < n \<Longrightarrow> bucket n (sample n k) = k"
    and sample_bucket_le: "0 < n \<Longrightarrow> sample n (bucket n b) \<le> b"
    and bucket_mono: "a \<le> b \<Longrightarrow> bucket n a \<le> bucket n b"
    and sample_mono: "j \<le> k \<Longrightarrow> sample n j \<le> sample n k"
begin

lemma galois: "0 < n \<Longrightarrow> sample n k \<le> b \<longleftrightarrow> k \<le> bucket n b"
proof
  assume n: "0 < n" and "sample n k \<le> b"
  then have "bucket n (sample n k) \<le> bucket n b" by (intro bucket_mono)
  with n show "k \<le> bucket n b" by (simp add: bucket_sample)
next
  assume n: "0 < n" and "k \<le> bucket n b"
  then have "sample n k \<le> sample n (bucket n b)" by (intro sample_mono)
  with sample_bucket_le [OF n] show "sample n k \<le> b" by (meson order_trans)
qed

lemma one_sample_per_bucket:
  "0 < n \<Longrightarrow> bucket n (sample n (bucket n b)) = bucket n b"
  by (rule bucket_sample)

lemma sample_strict: "0 < n \<Longrightarrow> j < k \<Longrightarrow> sample n j < sample n k"
  by (metis bucket_sample galois not_le)

text \<open>A block lies below the next bucket's sample block.\<close>

lemma block_below_next: "0 < n \<Longrightarrow> b < sample n (Suc (bucket n b))"
  by (metis galois not_less_eq_eq order_refl not_le)

end

interpretation bm: bucket_laws bucket_of sample_of
proof
  show "bucket_of n a \<le> bucket_of n b" if "a \<le> b" for n a b
    using that by (simp add: bucket_of_def div_le_mono)
qed (simp_all add: bucket_of_def sample_of_def)

lemma makeBucketMath_Inr:
  "makeBucketMath i = Inr m \<longleftrightarrow>
     0 < i \<and> m = \<lparr>bucketForBlock = bucket_of (nat i), sampleBlockForBucket = sample_of (nat i)\<rparr>"
  by (auto simp: makeBucketMath_def)

end
