(* ===== verification/Crdt.thy ===== *)
theory Crdt
  imports Bucket
begin

text \<open>
  The last-write-wins winner set (\<open>src/crdt/crdt.ts\<close>, \<open>src/crdt/types.ts\<close>) and the in-memory
  bundle store (\<open>src/crdt/store.ts\<close>). The working set is the insertion-ordered map \<open>bundles\<close>;
  the resolver and the provisional test are parameters as in \<open>VoteCrdtDeps\<close>. The locale
  \<open>lww_resolver\<close> is what the reduction needs of the injected resolver; \<open>lwwResolve\<close> provides it.
\<close>

section \<open>Entries and the resolver\<close>

record entry =
  e_cid :: cid
  e_bundle :: votes_bundle

abbreviation e_block :: "entry \<Rightarrow> nat" where
  "e_block e \<equiv> b_blockNumber (e_bundle e)"

definition wallet_of :: "entry \<Rightarrow> string" where
  "wallet_of e = to_lower (b_address (e_bundle e))"

definition compareCid :: "cid \<Rightarrow> cid \<Rightarrow> int" where
  "compareCid a b = byte_compare a b"

definition lwwResolve :: "entry \<Rightarrow> entry \<Rightarrow> cid" where
  "lwwResolve a b =
     (if e_block a \<noteq> e_block b
      then if e_block b < e_block a then e_cid a else e_cid b
      else if compareCid (e_cid a) (e_cid b) \<le> 0 then e_cid a else e_cid b)"

section \<open>The working set\<close>

record crdt =
  bundles :: "(cid, entry) jsmap"

definition empty_crdt :: crdt where
  "empty_crdt = \<lparr>bundles = []\<rparr>"

text \<open>The expiry test, in the form \<open>isExpired\<close> and \<open>prune\<close> share.\<close>

definition isExpired :: "(nat \<Rightarrow> nat) \<Rightarrow> nat \<Rightarrow> votes_bundle \<Rightarrow> nat \<Rightarrow> bool" where
  "isExpired bucketFor voteExpiryBuckets b currentBucket \<longleftrightarrow>
     bucketFor (b_blockNumber b) + voteExpiryBuckets < currentBucket"

fun winners_loop ::
  "(entry \<Rightarrow> entry \<Rightarrow> cid) \<Rightarrow> (cid \<Rightarrow> bool) \<Rightarrow> entry list \<Rightarrow> (string, entry) jsmap \<Rightarrow> (string, entry) jsmap" where
  "winners_loop resolve eligible [] winners = winners"
| "winners_loop resolve eligible (e # es) winners =
     (if \<not> eligible (e_cid e) then winners_loop resolve eligible es winners
      else case jget winners (wallet_of e) of
        None \<Rightarrow> winners_loop resolve eligible es (jset (wallet_of e) e winners)
      | Some prev \<Rightarrow>
          winners_loop resolve eligible es
            (jset (wallet_of e) (if resolve prev e = e_cid prev then prev else e) winners))"

definition winnersByWallet ::
  "(entry \<Rightarrow> entry \<Rightarrow> cid) \<Rightarrow> (cid \<Rightarrow> bool) \<Rightarrow> crdt \<Rightarrow> (string, entry) jsmap" where
  "winnersByWallet resolve eligible s = winners_loop resolve eligible (jvalues (bundles s)) []"

definition currentEntries ::
  "(entry \<Rightarrow> entry \<Rightarrow> cid) \<Rightarrow> (nat \<Rightarrow> nat) \<Rightarrow> nat \<Rightarrow> crdt \<Rightarrow> nat \<Rightarrow> (cid \<Rightarrow> bool) \<Rightarrow> entry list" where
  "currentEntries resolve bucketFor expiry s currentBucket eligible =
     filter (\<lambda>e. \<not> isExpired bucketFor expiry (e_bundle e) currentBucket)
       (jvalues (winnersByWallet resolve eligible s))"

definition current ::
  "(entry \<Rightarrow> entry \<Rightarrow> cid) \<Rightarrow> (nat \<Rightarrow> nat) \<Rightarrow> nat \<Rightarrow> crdt \<Rightarrow> nat \<Rightarrow> votes_bundle list" where
  "current resolve bucketFor expiry s currentBucket =
     map e_bundle (currentEntries resolve bucketFor expiry s currentBucket (\<lambda>_. True))"

text \<open>\<open>integrate\<close>: a known CID is skipped; \<open>get\<close> is the store seam, which may throw.\<close>

definition integrate :: "(cid \<Rightarrow> votes_bundle option res) \<Rightarrow> cid \<Rightarrow> crdt \<Rightarrow> crdt res" where
  "integrate get cid s =
     (if jhas (bundles s) cid then Inr s
      else sbind (get cid) (\<lambda>r.
        case r of
          None \<Rightarrow> Inl (PlainError ''missing bundle during merge'')
        | Some b \<Rightarrow> Inr (s\<lparr>bundles := jset cid \<lparr>e_cid = cid, e_bundle = b\<rparr> (bundles s)\<rparr>)))"

text \<open>\<open>merge\<close> integrates in order; a throw stops it and keeps what was integrated before.\<close>

fun merge :: "(cid \<Rightarrow> votes_bundle option res) \<Rightarrow> cid list \<Rightarrow> crdt \<Rightarrow> crdt \<times> unit res" where
  "merge get [] s = (s, Inr ())"
| "merge get (c # cs) s =
     (case integrate get c s of Inl e \<Rightarrow> (s, Inl e) | Inr s' \<Rightarrow> merge get cs s')"

definition crdt_add :: "('s \<Rightarrow> votes_bundle \<Rightarrow> ('s \<times> cid) res) \<Rightarrow> 's \<Rightarrow> votes_bundle \<Rightarrow> crdt \<Rightarrow> ('s \<times> crdt \<times> cid) res" where
  "crdt_add put store b s =
     sbind (put store b) (\<lambda>(store', cid).
       Inr (store', s\<lparr>bundles := jset cid \<lparr>e_cid = cid, e_bundle = b\<rparr> (bundles s)\<rparr>, cid))"

definition crdt_remove :: "cid \<Rightarrow> crdt \<Rightarrow> crdt" where
  "crdt_remove cid s = s\<lparr>bundles := jdel cid (bundles s)\<rparr>"

definition nodeCount :: "crdt \<Rightarrow> nat" where
  "nodeCount s = length (bundles s)"

text \<open>\<open>prune\<close>: the loop over the live map deletes only the entry it stands on, so it is a partition
  of the entries by the drop test.\<close>

definition prune_drops ::
  "(string, entry) jsmap \<Rightarrow> (nat \<Rightarrow> nat) \<Rightarrow> nat \<Rightarrow> (cid \<Rightarrow> bool) \<Rightarrow> nat \<Rightarrow> entry \<Rightarrow> bool" where
  "prune_drops winners bucketFor expiry isProvisional currentBucket e =
     (let winner = jget winners (wallet_of e);
          isWinner = (winner = Some e);
          bundleBucket = bucketFor (e_block e);
          expired = bundleBucket + expiry < currentBucket;
          shielded = (\<not> isWinner \<and> \<not> expired \<and>
                      (case winner of None \<Rightarrow> False | Some w \<Rightarrow> isProvisional (e_cid w)))
      in (\<not> isWinner \<or> expired) \<and> \<not> shielded)"

definition prune ::
  "(entry \<Rightarrow> entry \<Rightarrow> cid) \<Rightarrow> (nat \<Rightarrow> nat) \<Rightarrow> nat \<Rightarrow> (cid \<Rightarrow> bool) \<Rightarrow> nat \<Rightarrow> crdt \<Rightarrow> crdt \<times> cid list" where
  "prune resolve bucketFor expiry isProvisional currentBucket s =
     (let winners = winnersByWallet resolve (\<lambda>_. True) s;
          drops = (\<lambda>kv. prune_drops winners bucketFor expiry isProvisional currentBucket (snd kv))
      in (s\<lparr>bundles := filter (\<lambda>kv. \<not> drops kv) (bundles s)\<rparr>,
          map (\<lambda>kv. e_cid (snd kv)) (filter drops (bundles s))))"

section \<open>The in-memory store\<close>

type_synonym mem_store = "(cid, votes_bundle) jsmap"

definition mem_put :: "lib \<Rightarrow> mem_store \<Rightarrow> votes_bundle \<Rightarrow> (mem_store \<times> cid) res" where
  "mem_put L byCid b = sbind (bundleCid L b) (\<lambda>cid. Inr (jset cid b byCid, cid))"

definition mem_get :: "mem_store \<Rightarrow> cid \<Rightarrow> votes_bundle option res" where
  "mem_get byCid cid = Inr (jget byCid cid)"

definition mem_has :: "mem_store \<Rightarrow> cid \<Rightarrow> bool" where
  "mem_has byCid cid = jhas byCid cid"

section \<open>Well-formed working sets\<close>

definition crdt_wf :: "crdt \<Rightarrow> bool" where
  "crdt_wf s \<longleftrightarrow> jwf (bundles s) \<and> (\<forall>(k, e) \<in> set (bundles s). e_cid e = k)"

definition entries :: "crdt \<Rightarrow> entry set" where
  "entries s = set (jvalues (bundles s))"

lemma crdt_wf_empty [simp]: "crdt_wf empty_crdt"
  by (simp add: crdt_wf_def empty_crdt_def)

lemma crdt_wf_keys: "crdt_wf s \<Longrightarrow> jkeys (bundles s) = map e_cid (jvalues (bundles s))"
  by (auto simp: crdt_wf_def)

lemma crdt_wf_distinct: "crdt_wf s \<Longrightarrow> distinct (map e_cid (jvalues (bundles s)))"
  using crdt_wf_keys by (metis crdt_wf_def jwf_def)

lemma crdt_wf_jset:
  assumes "crdt_wf s" "e_cid e = k"
  shows "crdt_wf (s\<lparr>bundles := jset k e (bundles s)\<rparr>)"
proof -
  show ?thesis using assms set_jset_subset [of k e "bundles s"] unfolding crdt_wf_def by fastforce
qed

lemma crdt_wf_integrate: "crdt_wf s \<Longrightarrow> integrate get c s = Inr s' \<Longrightarrow> crdt_wf s'"
  by (auto simp: integrate_def res_simps crdt_wf_jset split: if_splits option.splits)

lemma crdt_wf_merge: "crdt_wf s \<Longrightarrow> crdt_wf (fst (merge get cs s))"
  by (induction get cs s rule: merge.induct) (auto split: sum.splits dest: crdt_wf_integrate)

lemma crdt_wf_remove: "crdt_wf s \<Longrightarrow> crdt_wf (crdt_remove c s)"
  unfolding crdt_wf_def crdt_remove_def by (auto simp: jdel_filter)

lemma crdt_wf_prune: "crdt_wf s \<Longrightarrow> crdt_wf (fst (prune r bf ex pv b s))"
  unfolding crdt_wf_def prune_def by (auto simp: Let_def)

lemma crdt_wf_add: "crdt_wf s \<Longrightarrow> crdt_add put st b s = Inr (st', s', c) \<Longrightarrow> crdt_wf s'"
  by (auto simp: crdt_add_def res_simps crdt_wf_jset)

section \<open>What the reduction needs of a resolver\<close>

text \<open>One step of the reduction for a fixed wallet, and the entry a reduction should end in: the
  eligible entry of its wallet that beats every other one.\<close>

definition pick :: "(entry \<Rightarrow> entry \<Rightarrow> cid) \<Rightarrow> entry option \<Rightarrow> entry \<Rightarrow> entry option" where
  "pick resolve prev e =
     (case prev of None \<Rightarrow> Some e | Some p \<Rightarrow> Some (if resolve p e = e_cid p then p else e))"

definition is_winner :: "(entry \<Rightarrow> entry \<Rightarrow> bool) \<Rightarrow> (cid \<Rightarrow> bool) \<Rightarrow> entry set \<Rightarrow> entry \<Rightarrow> bool" where
  "is_winner beats el S e \<longleftrightarrow> e \<in> S \<and> el (e_cid e) \<and>
     (\<forall>f \<in> S. el (e_cid f) \<longrightarrow> wallet_of f = wallet_of e \<longrightarrow> beats e f)"

lemma winners_loop_get:
  "jget (winners_loop resolve el es ws) w =
     foldl (pick resolve) (jget ws w) (filter (\<lambda>e. el (e_cid e) \<and> wallet_of e = w) es)"
proof (induction es arbitrary: ws)
  case (Cons e es)
  then show ?case
    by (cases "jget ws (wallet_of e)") (auto simp: pick_def jsmap_simps)
qed simp

definition keyed_by_wallet :: "(string, entry) jsmap \<Rightarrow> bool" where
  "keyed_by_wallet ws \<longleftrightarrow> jwf ws \<and> (\<forall>kv \<in> set ws. wallet_of (snd kv) = fst kv)"

lemma keyed_by_wallet_jset:
  "keyed_by_wallet ws \<Longrightarrow> wallet_of x = w \<Longrightarrow> keyed_by_wallet (jset w x ws)"
  using set_jset_subset [of w x ws] unfolding keyed_by_wallet_def by (auto simp: jwf_jset)

lemma winners_loop_wf:
  "keyed_by_wallet ws \<Longrightarrow> keyed_by_wallet (winners_loop resolve el es ws)"
proof (induction es arbitrary: ws)
  case (Cons e es)
  show ?case
  proof (cases "jget ws (wallet_of e)")
    case None
    then show ?thesis
      using Cons.IH [OF Cons.prems] Cons.IH [OF keyed_by_wallet_jset [OF Cons.prems refl]] by simp
  next
    case (Some p)
    have "wallet_of p = wallet_of e"
      using Cons.prems jget_SomeD [OF Some] unfolding keyed_by_wallet_def by fastforce
    then have "keyed_by_wallet (winners_loop resolve el es (jset (wallet_of e) x ws))"
      if "x = p \<or> x = e" for x
      using that by (intro Cons.IH keyed_by_wallet_jset [OF Cons.prems]) auto
    with Some show ?thesis
      using Cons.IH [OF Cons.prems] by simp
  qed
qed simp

lemma winnersByWallet_wf:
  "jwf (winnersByWallet resolve el s)"
  "(k, e) \<in> set (winnersByWallet resolve el s) \<Longrightarrow> wallet_of e = k"
  using winners_loop_wf [of "[]"] unfolding winnersByWallet_def keyed_by_wallet_def by force+


lemma distinct_winners: "distinct (jvalues (winnersByWallet resolve el s))"
proof -
  let ?m = "winnersByWallet resolve el s"
  have "map wallet_of (jvalues ?m) = jkeys ?m"
    using winnersByWallet_wf(2) [of _ _ resolve el s] by auto
  then have "distinct (map wallet_of (jvalues ?m))"
    using winnersByWallet_wf(1) [of resolve el s] by (simp only: jwf_def)
  then show ?thesis by (simp only: distinct_map)
qed

lemma distinct_currentEntries: "distinct (currentEntries resolve bf ex s b el)"
  by (simp add: currentEntries_def distinct_winners distinct_filter del: distinct_map)

lemma option_eqI: "(\<And>e. x = Some e \<longleftrightarrow> y = Some e) \<Longrightarrow> x = y"
  by (cases x; cases y) auto

lemma crdt_wf_inj: "crdt_wf s \<Longrightarrow> inj_on e_cid (entries s)"
  using crdt_wf_distinct [of s] unfolding entries_def by (simp only: distinct_map)

text \<open>
  The injected \<open>LwwResolve\<close> is pure and picks one of its two arguments by a total order on
  entries, \<open>beats\<close>, that never prefers an older bundle.
\<close>

locale lww_resolver =
  fixes resolve :: "entry \<Rightarrow> entry \<Rightarrow> cid"
    and beats :: "entry \<Rightarrow> entry \<Rightarrow> bool"
  assumes resolve_eq: "resolve a b = (if beats a b then e_cid a else e_cid b)"
    and beats_total: "beats a b \<or> beats b a"
    and beats_trans: "beats a b \<Longrightarrow> beats b c \<Longrightarrow> beats a c"
    and beats_antisym: "beats a b \<Longrightarrow> beats b a \<Longrightarrow> e_cid a = e_cid b"
    and beats_newer: "beats a b \<Longrightarrow> e_block b \<le> e_block a"
begin

lemma beats_refl [simp]: "beats a a"
  using beats_total by blast

lemma foldl_pick:
  assumes "inj_on e_cid (insert p (set xs))"
  shows "\<exists>m. foldl (pick resolve) (Some p) xs = Some m \<and> m \<in> insert p (set xs) \<and> (\<forall>x \<in> insert p (set xs). beats m x)"
  using assms
proof (induction xs arbitrary: p)
  case Nil
  then show ?case by simp
next
  case (Cons x xs)
  let ?q = "if resolve p x = e_cid p then p else x"
  have q: "?q \<in> {p, x}" "beats ?q p" "beats ?q x"
    using beats_total [of p x] inj_onD [OF Cons.prems, of p x] by (auto simp: resolve_eq)
  have "inj_on e_cid (insert ?q (set xs))"
    by (rule inj_on_subset [OF Cons.prems]) auto
  from Cons.IH [OF this] obtain m where m: "foldl (pick resolve) (Some ?q) xs = Some m"
      "m \<in> insert ?q (set xs)" "\<forall>x \<in> insert ?q (set xs). beats m x" by blast
  have "foldl (pick resolve) (Some p) (x # xs) = Some m" using m(1) by (simp add: pick_def)
  moreover have "m \<in> insert p (set (x # xs))" using m(2) q(1) by auto
  moreover have "\<forall>y \<in> insert p (set (x # xs)). beats m y"
  proof
    fix y assume "y \<in> insert p (set (x # xs))"
    then consider "y = p" | "y = x" | "y \<in> set xs" by auto
    then show "beats m y"
      using m(3) q(2,3) beats_trans [of m ?q] by cases auto
  qed
  ultimately show ?case by blast
qed

lemma winner_get:
  assumes wf: "crdt_wf s"
  shows "jget (winnersByWallet resolve el s) w = Some e \<longleftrightarrow> is_winner beats el (entries s) e \<and> wallet_of e = w"
proof -
  let ?xs = "filter (\<lambda>e. el (e_cid e) \<and> wallet_of e = w) (jvalues (bundles s))"
  have get: "jget (winnersByWallet resolve el s) w = foldl (pick resolve) None ?xs"
    by (simp add: winnersByWallet_def winners_loop_get)
  have sub: "set ?xs \<subseteq> entries s" by (auto simp: entries_def)
  have mem: "x \<in> set ?xs \<longleftrightarrow> x \<in> entries s \<and> el (e_cid x) \<and> wallet_of x = w" for x
    by (auto simp: entries_def)
  show ?thesis
  proof (cases ?xs)
    case Nil
    with mem have "\<not> (is_winner beats el (entries s) e \<and> wallet_of e = w)" by (auto simp: is_winner_def)
    with Nil get show ?thesis by simp
  next
    case (Cons x xs)
    have inj: "inj_on e_cid (insert x (set xs))"
      using inj_on_subset [OF crdt_wf_inj [OF wf] sub] unfolding Cons list.set .
    from foldl_pick [OF inj] obtain m where m: "foldl (pick resolve) (Some x) xs = Some m"
      "m \<in> set ?xs" "\<forall>y \<in> set ?xs. beats m y" using Cons by auto
    have g: "jget (winnersByWallet resolve el s) w = Some m"
      using get m(1) Cons by (simp add: pick_def)
    have "e = m" if "is_winner beats el (entries s) e" "wallet_of e = w"
    proof -
      have "e \<in> set ?xs" and "m \<in> entries s" "el (e_cid m)" "wallet_of m = w"
        using that mem m(2) by (auto simp: is_winner_def)
      then have "beats e m" "beats m e" using that m(3) unfolding is_winner_def by auto
      then have "e_cid e = e_cid m" by (rule beats_antisym)
      with crdt_wf_inj [OF wf] show ?thesis
        using \<open>m \<in> entries s\<close> that(1) unfolding is_winner_def by (blast dest: inj_onD)
    qed
    moreover have "is_winner beats el (entries s) m \<and> wallet_of m = w"
      using m(2,3) mem by (simp add: is_winner_def)
    ultimately show ?thesis using g by auto
  qed
qed

lemma set_winners: "crdt_wf s \<Longrightarrow> set (jvalues (winnersByWallet resolve el s)) = {e. is_winner beats el (entries s) e}"
proof -
  assume wf: "crdt_wf s"
  let ?m = "winnersByWallet resolve el s"
  have "e \<in> set (jvalues ?m) \<longleftrightarrow> (wallet_of e, e) \<in> set ?m" for e
    using winnersByWallet_wf(2) [of _ e resolve el s] by force
  then show ?thesis
    unfolding jget_mem [OF winnersByWallet_wf(1)] winner_get [OF wf] by blast
qed

lemma set_currentEntries:
  "crdt_wf s \<Longrightarrow> set (currentEntries resolve bf ex s b el) =
     {e. is_winner beats el (entries s) e \<and> \<not> isExpired bf ex (e_bundle e) b}"
  using set_winners [of s el] by (simp add: currentEntries_def del: set_map)

text \<open>The view is a function of the set of entries: order and grouping of arrivals do not matter.\<close>

lemma currentEntries_mset_cong:
  assumes "crdt_wf s" "crdt_wf t" "entries s = entries t"
  shows "mset (currentEntries resolve bf ex s b el) = mset (currentEntries resolve bf ex t b el)"
proof -
  have "set (currentEntries resolve bf ex s b el) = set (currentEntries resolve bf ex t b el)"
    unfolding set_currentEntries [OF assms(1)] set_currentEntries [OF assms(2)] assms(3) ..
  then show ?thesis
    using set_eq_iff_mset_eq_distinct [OF distinct_currentEntries distinct_currentEntries] by blast
qed

lemma winner_get_cong:
  "crdt_wf s \<Longrightarrow> crdt_wf t \<Longrightarrow> entries s = entries t \<Longrightarrow>
     jget (winnersByWallet resolve el s) w = jget (winnersByWallet resolve el t) w"
  by (rule option_eqI) (simp add: winner_get)

lemma winner_exists:
  assumes "crdt_wf s" "e \<in> entries s" "el (e_cid e)"
  shows "\<exists>m. is_winner beats el (entries s) m \<and> wallet_of m = wallet_of e \<and> beats m e"
proof -
  let ?xs = "filter (\<lambda>f. el (e_cid f) \<and> wallet_of f = wallet_of e) (jvalues (bundles s))"
  have "e \<in> set ?xs" using assms by (simp add: entries_def)
  then obtain x xs where xs: "?xs = x # xs" by (cases ?xs) auto
  have "set ?xs \<subseteq> entries s" by (auto simp: entries_def)
  then have inj: "inj_on e_cid (insert x (set xs))"
    unfolding xs list.set by (rule inj_on_subset [OF crdt_wf_inj [OF assms(1)]])
  from foldl_pick [OF inj] have "jget (winnersByWallet resolve el s) (wallet_of e) \<noteq> None"
    by (auto simp: winnersByWallet_def winners_loop_get xs pick_def)
  then obtain m where "jget (winnersByWallet resolve el s) (wallet_of e) = Some m" by blast
  with winner_get [OF assms(1)] have "is_winner beats el (entries s) m \<and> wallet_of m = wallet_of e" by blast
  with assms show ?thesis by (auto simp: is_winner_def)
qed

end

subsection \<open>The default resolver\<close>

definition lww_beats :: "entry \<Rightarrow> entry \<Rightarrow> bool" where
  "lww_beats a b \<longleftrightarrow>
     e_block b < e_block a \<or> e_block a = e_block b \<and> compareCid (e_cid a) (e_cid b) \<le> 0"

lemma compareCid_total: "compareCid a b \<le> 0 \<or> compareCid b a \<le> 0"
  using byte_compare_antisym [of a b] by (auto simp: compareCid_def)

lemma compareCid_antisym: "compareCid a b \<le> 0 \<Longrightarrow> compareCid b a \<le> 0 \<Longrightarrow> a = b"
  using byte_compare_antisym [of a b] byte_compare_eq_0 [of a b] by (simp add: compareCid_def)

interpretation lww: lww_resolver lwwResolve lww_beats
proof
  fix a b c :: entry
  show "lwwResolve a b = (if lww_beats a b then e_cid a else e_cid b)"
    by (auto simp: lwwResolve_def lww_beats_def)
  show "lww_beats a b \<or> lww_beats b a"
    using compareCid_total by (auto simp: lww_beats_def)
  show "lww_beats a b \<Longrightarrow> lww_beats b c \<Longrightarrow> lww_beats a c"
    using byte_compare_trans by (auto simp: lww_beats_def compareCid_def)
  show "lww_beats a b \<Longrightarrow> lww_beats b a \<Longrightarrow> e_cid a = e_cid b"
    using compareCid_antisym by (auto simp: lww_beats_def)
  show "lww_beats a b \<Longrightarrow> e_block b \<le> e_block a"
    by (auto simp: lww_beats_def)
qed

section \<open>Eviction and pruning\<close>

lemma jvalues_jdel:
  "crdt_wf s \<Longrightarrow> jvalues (jdel c (bundles s)) = filter (\<lambda>e. e_cid e \<noteq> c) (jvalues (bundles s))"
proof -
  have "jvalues (jdel c m) = filter (\<lambda>e. e_cid e \<noteq> c) (jvalues m)"
    if "\<forall>(k, e) \<in> set m. e_cid e = k" for m :: "(cid, entry) jsmap"
    using that by (induction m) auto
  then show "crdt_wf s \<Longrightarrow> ?thesis" by (simp add: crdt_wf_def)
qed

lemma entries_remove: "crdt_wf s \<Longrightarrow> entries (crdt_remove c s) = {e \<in> entries s. e_cid e \<noteq> c}"
  unfolding entries_def by (simp add: crdt_remove_def jvalues_jdel del: set_map) 

lemma winners_loop_filter:
  "winners_loop resolve el (filter (\<lambda>e. P (e_cid e)) es) ws = winners_loop resolve (\<lambda>c. el c \<and> P c) es ws"
  by (induction es arbitrary: ws) (auto split: option.splits)

text \<open>Evicting bundles shows the same view as declaring them ineligible.\<close>

lemma currentEntries_remove:
  "crdt_wf s \<Longrightarrow> currentEntries resolve bf ex (crdt_remove c s) b el =
     currentEntries resolve bf ex s b (\<lambda>x. el x \<and> x \<noteq> c)"
  using winners_loop_filter [where P = "\<lambda>x. x \<noteq> c"]
  by (simp add: currentEntries_def winnersByWallet_def crdt_remove_def jvalues_jdel del: map_map)

lemma currentEntries_evict:
  "crdt_wf s \<Longrightarrow> currentEntries resolve bf ex (fold crdt_remove cs s) b el =
     currentEntries resolve bf ex s b (\<lambda>x. el x \<and> x \<notin> set cs)"
proof (induction cs arbitrary: s)
  case (Cons c cs)
  then show ?case
    by (simp add: crdt_wf_remove currentEntries_remove conj_ac)
qed simp

lemma entries_prune:
  "crdt_wf s \<Longrightarrow> entries (fst (prune resolve bf ex pv b s)) =
     {e \<in> entries s. \<not> prune_drops (winnersByWallet resolve (\<lambda>_. True) s) bf ex pv b e}"
  by (auto simp: entries_def prune_def Let_def)

lemma isExpired_mono: "b \<le> b' \<Longrightarrow> isExpired bf ex v b \<Longrightarrow> isExpired bf ex v b'"
  by (simp add: isExpired_def)

lemma isExpired_older:
  "mono bf \<Longrightarrow> b_blockNumber v \<le> b_blockNumber w \<Longrightarrow> isExpired bf ex w b \<Longrightarrow> isExpired bf ex v b"
  using monoD [of bf "b_blockNumber v" "b_blockNumber w"] by (simp add: isExpired_def)

context lww_resolver begin

lemma prune_drops_iff:
  assumes "crdt_wf s" "e \<in> entries s" "is_winner beats (\<lambda>_. True) (entries s) m" "wallet_of m = wallet_of e"
  shows "prune_drops (winnersByWallet resolve (\<lambda>_. True) s) bf ex pv b e \<longleftrightarrow>
     (m \<noteq> e \<or> isExpired bf ex (e_bundle e) b) \<and>
     \<not> (m \<noteq> e \<and> \<not> isExpired bf ex (e_bundle e) b \<and> pv (e_cid m))"
proof -
  have "jget (winnersByWallet resolve (\<lambda>_. True) s) (wallet_of e) = Some m"
    using winner_get [OF assms(1)] assms(3,4) by blast
  then show ?thesis by (simp add: prune_drops_def isExpired_def Let_def)
qed

text \<open>The heart of pruning: an eligibility that admits every settled winner sees the same winners
  before and after, at the pruning bucket and at every later one.\<close>

lemma prune_view:
  assumes wf: "crdt_wf s" and bf: "mono bf" and b: "b \<le> b'"
    and el: "\<And>m. is_winner beats (\<lambda>_. True) (entries s) m \<Longrightarrow> \<not> pv (e_cid m) \<Longrightarrow> el (e_cid m)"
  shows "set (currentEntries resolve bf ex (fst (prune resolve bf ex pv b s)) b' el) =
         set (currentEntries resolve bf ex s b' el)"
proof -
  let ?S = "entries s" and ?T = "entries (fst (prune resolve bf ex pv b s))"
  have kept: "e \<in> ?T \<longleftrightarrow> e \<in> ?S \<and> \<not> ((m \<noteq> e \<or> isExpired bf ex (e_bundle e) b) \<and>
     \<not> (m \<noteq> e \<and> \<not> isExpired bf ex (e_bundle e) b \<and> pv (e_cid m)))"
    if "is_winner beats (\<lambda>_. True) ?S m" "wallet_of m = wallet_of e" for e m
    unfolding entries_prune [OF wf] using prune_drops_iff [OF wf _ that, of bf ex pv b] by blast
  have older: "isExpired bf ex (e_bundle f) b \<Longrightarrow> \<not> isExpired bf ex (e_bundle e) b \<Longrightarrow> beats e f" for e f
    using isExpired_older [OF bf, of "e_bundle e" "e_bundle f" ex b] beats_newer [of f e] beats_total by blast
  have into: "is_winner beats el ?S e"
    if w: "is_winner beats el ?T e" and nx: "\<not> isExpired bf ex (e_bundle e) b'" for e
  proof -
    have e: "e \<in> ?S" "el (e_cid e)" using w entries_prune [OF wf] by (auto simp: is_winner_def)
    obtain m where m: "is_winner beats (\<lambda>_. True) ?S m" "wallet_of m = wallet_of e"
      using winner_exists [OF wf e(1) TrueI] by blast
    have "beats e f" if f: "f \<in> ?S" "el (e_cid f)" "wallet_of f = wallet_of e" for f
    proof (cases "f \<in> ?T")
      case True
      with w f show ?thesis by (simp add: is_winner_def)
    next
      case False
      have nxb: "\<not> isExpired bf ex (e_bundle e) b" using nx b isExpired_mono by blast
      have mf: "wallet_of m = wallet_of f" using m(2) f(3) by simp
      have bmf: "beats m f" using m(1) f(1) mf by (simp add: is_winner_def)
      show ?thesis
      proof (cases "isExpired bf ex (e_bundle f) b")
        case True
        then show ?thesis using older nxb by blast
      next
        case nxf: False
        with False f(1) kept [OF m(1) mf] have "\<not> pv (e_cid m)" by blast
        with el m(1) have "el (e_cid m)" by blast
        moreover have "\<not> isExpired bf ex (e_bundle m) b"
          using isExpired_older [OF bf beats_newer [OF bmf]] nxf by blast
        then have "m \<in> ?T" using kept [OF m(1) refl] m(1) by (simp add: is_winner_def)
        ultimately have "beats e m" using w m(2) by (simp add: is_winner_def)
        then show ?thesis using bmf beats_trans by blast
      qed
    qed
    with e show ?thesis by (simp add: is_winner_def)
  qed
  have keep: "is_winner beats el ?T e"
    if w: "is_winner beats el ?S e" and nx: "\<not> isExpired bf ex (e_bundle e) b'" for e
  proof -
    have e: "e \<in> ?S" using w by (simp add: is_winner_def)
    obtain m where m: "is_winner beats (\<lambda>_. True) ?S m" "wallet_of m = wallet_of e"
      using winner_exists [OF wf e TrueI] by blast
    have "m = e \<or> pv (e_cid m)"
    proof (rule disjCI)
      assume "\<not> pv (e_cid m)"
      with el m(1) have "beats e m" using w m(2) by (simp add: is_winner_def)
      moreover have "beats m e" using m e by (simp add: is_winner_def)
      ultimately have "e_cid m = e_cid e" using beats_antisym by metis
      then show "m = e" using crdt_wf_inj [OF wf] m(1) e by (auto simp: is_winner_def dest: inj_onD)
    qed
    moreover have "\<not> isExpired bf ex (e_bundle e) b" using nx b isExpired_mono by blast
    ultimately have "e \<in> ?T" using kept [OF m] e by auto
    moreover have "?T \<subseteq> ?S" using entries_prune [OF wf] by auto
    ultimately show ?thesis using w by (auto simp: is_winner_def)
  qed
  show ?thesis
    using into keep unfolding set_currentEntries [OF wf] set_currentEntries [OF crdt_wf_prune [OF wf]]
    by blast
qed

lemma prune_exact:
  assumes wf: "crdt_wf s"
  shows "entries (fst (prune resolve bf ex (\<lambda>_. False) b s)) =
         set (currentEntries resolve bf ex s b (\<lambda>_. True))"
proof -
  have "e \<in> entries (fst (prune resolve bf ex (\<lambda>_. False) b s)) \<longleftrightarrow>
      is_winner beats (\<lambda>_. True) (entries s) e \<and> \<not> isExpired bf ex (e_bundle e) b" for e
  proof (cases "e \<in> entries s")
    case True
    then obtain m where m: "is_winner beats (\<lambda>_. True) (entries s) m" "wallet_of m = wallet_of e"
      using winner_exists [OF wf True TrueI] by blast
    have "is_winner beats (\<lambda>_. True) (entries s) e \<longleftrightarrow> m = e"
    proof -
      have "jget (winnersByWallet resolve (\<lambda>_. True) s) (wallet_of e) = Some m"
        using winner_get [OF wf] m by blast
      with winner_get [OF wf, of "\<lambda>_. True" "wallet_of e" e] show ?thesis by simp
    qed
    with prune_drops_iff [OF wf True m] entries_prune [OF wf] True show ?thesis by auto
  next
    case False
    then show ?thesis using entries_prune [OF wf] by (auto simp: is_winner_def)
  qed
  then show ?thesis using set_currentEntries [OF wf] by blast
qed

end

section \<open>Merging\<close>

text \<open>Stores are content-addressed: what a store returns for a CID is a function of the CID.\<close>

definition from_content :: "(cid \<Rightarrow> votes_bundle) \<Rightarrow> crdt \<Rightarrow> bool" where
  "from_content content s \<longleftrightarrow> (\<forall>e \<in> entries s. e_bundle e = content (e_cid e))"

definition entry_for :: "(cid \<Rightarrow> votes_bundle) \<Rightarrow> cid \<Rightarrow> entry" where
  "entry_for content c = \<lparr>e_cid = c, e_bundle = content c\<rparr>"

lemma entries_jset_new:
  "\<not> jhas (bundles s) c \<Longrightarrow> entries (s\<lparr>bundles := jset c e (bundles s)\<rparr>) = insert e (entries s)"
  by (simp add: entries_def jset_new jhas_iff)

lemma jhas_bundles_iff: "crdt_wf s \<Longrightarrow> jhas (bundles s) c \<longleftrightarrow> c \<in> e_cid ` entries s"
  using crdt_wf_keys [of s] by (metis entries_def jhas_iff list.set_map)

lemma integrate_content:
  assumes "crdt_wf s" "from_content content s" "get c = Inr (Some (content c))"
  shows "\<exists>s'. integrate get c s = Inr s' \<and> crdt_wf s' \<and> from_content content s' \<and>
     entries s' = insert (entry_for content c) (entries s)"
proof (cases "jhas (bundles s) c")
  case True
  then obtain e where e: "e \<in> entries s" "e_cid e = c"
    using jhas_bundles_iff [OF assms(1)] by auto
  then have "entry_for content c = e"
    using assms(2) by (simp add: from_content_def entry_for_def)
  with True e assms show ?thesis by (simp add: integrate_def insert_absorb)
next
  case False
  let ?s = "s\<lparr>bundles := jset c (entry_for content c) (bundles s)\<rparr>"
  have "integrate get c s = Inr ?s"
    using False assms(3) by (simp add: integrate_def entry_for_def)
  moreover have "crdt_wf ?s" by (rule crdt_wf_jset [OF assms(1)]) (simp add: entry_for_def)
  moreover have "entries ?s = insert (entry_for content c) (entries s)"
    by (rule entries_jset_new [OF False])
  ultimately show ?thesis using assms(2) by (simp add: from_content_def entry_for_def)
qed

lemma merge_content:
  assumes "crdt_wf s" "from_content content s" "\<And>c. c \<in> set cs \<Longrightarrow> get c = Inr (Some (content c))"
  shows "\<exists>s'. merge get cs s = (s', Inr ()) \<and> crdt_wf s' \<and> from_content content s' \<and>
     entries s' = entry_for content ` set cs \<union> entries s"
  using assms
proof (induction cs arbitrary: s)
  case (Cons c cs)
  from integrate_content [OF Cons.prems(1,2)] Cons.prems(3)
  obtain s1 where s1: "integrate get c s = Inr s1" "crdt_wf s1" "from_content content s1"
    "entries s1 = insert (entry_for content c) (entries s)" by force
  from Cons.IH [OF s1(2,3)] Cons.prems(3) s1 show ?case by auto
qed simp

lemma merge_append:
  "merge get (cs @ ds) s =
     (case merge get cs s of (s', Inl e) \<Rightarrow> (s', Inl e) | (s', Inr _) \<Rightarrow> merge get ds s')"
  by (induction get cs s rule: merge.induct) (auto split: sum.splits)

text \<open>A merge only ever adds: nothing it held before is dropped or replaced, even when it throws.\<close>

lemma merge_monotone: "entries s \<subseteq> entries (fst (merge get cs s))"
proof (induction get cs s rule: merge.induct)
  case (2 get c cs s)
  have "entries s \<subseteq> entries s'" if "integrate get c s = Inr s'" for s'
    using that entries_jset_new [of s c]
    by (auto simp: integrate_def res_simps split: if_splits option.splits)
  with 2 show ?case by (auto split: sum.splits)
qed simp

lemma from_content_empty [simp]: "from_content content empty_crdt"
  by (simp add: from_content_def entries_def empty_crdt_def)

lemma entries_empty [simp]: "entries empty_crdt = {}"
  by (simp add: entries_def empty_crdt_def)

section \<open>Bundle stores\<close>

text \<open>
  \<open>BundleStore\<close>: \<open>put\<close> returns the bundle's own address and makes it readable there (up to the
  case of its hexadecimal fields, which the codec normalises), and touches no other address.
\<close>

locale bundle_store =
  fixes put :: "'s \<Rightarrow> votes_bundle \<Rightarrow> ('s \<times> cid) res"
    and get :: "'s \<Rightarrow> cid \<Rightarrow> votes_bundle option res"
    and addr :: "votes_bundle \<Rightarrow> cid res"
  assumes put_addr: "put s b = Inr (s', c) \<Longrightarrow> addr b = Inr c"
    and get_put: "put s b = Inr (s', c) \<Longrightarrow> \<exists>b'. get s' c = Inr (Some b') \<and> lower_bundle b' = lower_bundle b"
    and get_other: "put s b = Inr (s', c) \<Longrightarrow> d \<noteq> c \<Longrightarrow> get s' d = get s d"
begin

text \<open>A bundle added here and merged by CID elsewhere is the same vote, of the same wallet.\<close>

lemma add_then_merge:
  assumes "crdt_add put store b s = Inr (store', s', c)" "crdt_wf t" "\<not> jhas (bundles t) c"
  shows "\<exists>b'. merge (get store') [c] t = (t\<lparr>bundles := bundles t @ [(c, \<lparr>e_cid = c, e_bundle = b'\<rparr>)]\<rparr>, Inr ()) \<and>
     lower_bundle b' = lower_bundle b"
proof -
  from assms(1) have "put store b = Inr (store', c)" by (auto simp: crdt_add_def res_simps)
  from get_put [OF this] obtain b' where "get store' c = Inr (Some b')" "lower_bundle b' = lower_bundle b"
    by blast
  with assms(3) show ?thesis by (auto simp: integrate_def jset_new jhas_iff)
qed

lemma add_known: "crdt_add put store b s = Inr (store', s', c) \<Longrightarrow> merge g [c] s' = (s', Inr ())"
  by (auto simp: crdt_add_def res_simps integrate_def jhas_def jsmap_simps)

end

interpretation mem: bundle_store "mem_put L" mem_get "bundleCid L" for L
  by unfold_locales (auto simp: mem_put_def mem_get_def res_simps jsmap_simps)

end
