(* ===== verification/Fifo.thy ===== *)
theory Fifo
  imports Crdt
begin

text \<open>
  The bounded caches with first-in-first-out eviction: the verdict cache
  (\<open>src/verify/cache.ts\<close>), the in-memory rule cache (\<open>src/rules/cache.ts\<close>) and the re-sign
  filter (\<open>src/transport/accepted-dedup.ts\<close>) keep a map (or set) and an \<open>order\<close> array of the
  same keys. The locale \<open>bounded_cache\<close> is the contract their clients rely on: bounded, and
  eviction only ever forgets. It is interpreted on the map form here and on the set form in the
  theory of the re-sign filter.
\<close>

record ('k, 'v) fifo =
  f_map :: "('k, 'v) jsmap"
  f_order :: "'k list"

definition fifo_empty :: "('k, 'v) fifo" where
  "fifo_empty = \<lparr>f_map = [], f_order = []\<rparr>"

definition fifo_get :: "('k, 'v) fifo \<Rightarrow> 'k \<Rightarrow> 'v option" where
  "fifo_get f k = jget (f_map f) k"

text \<open>\<open>if (has(k)) return; map.set(k, v); order.push(k); if (order.length > maxEntries)
  map.delete(order.shift())\<close>\<close>

definition fifo_set :: "nat \<Rightarrow> 'k \<Rightarrow> 'v \<Rightarrow> ('k, 'v) fifo \<Rightarrow> ('k, 'v) fifo" where
  "fifo_set maxEntries k v f =
     (if jhas (f_map f) k then f
      else let byKey = jset k v (f_map f); order = f_order f @ [k] in
        if maxEntries < length order
        then \<lparr>f_map = jdel (hd order) byKey, f_order = tl order\<rparr>
        else \<lparr>f_map = byKey, f_order = order\<rparr>)"

text \<open>A purge deletes the keys a test selects from both.\<close>

definition fifo_purge :: "('k \<Rightarrow> bool) \<Rightarrow> ('k, 'v) fifo \<Rightarrow> ('k, 'v) fifo" where
  "fifo_purge dead f =
     fold (\<lambda>k f. if dead k then \<lparr>f_map = jdel k (f_map f), f_order = remove1 k (f_order f)\<rparr> else f)
       (jkeys (f_map f)) f"

definition fifo_wf :: "nat \<Rightarrow> ('k, 'v) fifo \<Rightarrow> bool" where
  "fifo_wf n f \<longleftrightarrow> f_order f = jkeys (f_map f) \<and> distinct (f_order f) \<and> length (f_order f) \<le> n"

lemma fifo_wf_empty [simp]: "fifo_wf n fifo_empty"
  by (simp add: fifo_wf_def fifo_empty_def)

lemma fifo_get_empty [simp]: "fifo_get fifo_empty k = None"
  by (simp add: fifo_get_def fifo_empty_def)

lemma fifo_set_known: "fifo_get f k = Some w \<Longrightarrow> fifo_set n k v f = f"
  by (simp add: fifo_set_def fifo_get_def jhas_def)

lemma fifo_set_new:
  assumes "fifo_wf n f" "fifo_get f k = None"
  shows "fifo_set n k v f =
    (let m = f_map f @ [(k, v)] in
     if n < length m then \<lparr>f_map = tl m, f_order = jkeys (tl m)\<rparr> else \<lparr>f_map = m, f_order = jkeys m\<rparr>)"
proof -
  have k: "k \<notin> fst ` set (f_map f)" using assms(2) by (simp add: fifo_get_def map_of_eq_None_iff)
  have o: "f_order f = jkeys (f_map f)" "distinct (jkeys (f_map f))"
    using assms(1) by (auto simp: fifo_wf_def)
  have del: "jdel (hd (jkeys m)) m = tl m" if "distinct (jkeys m)" "m \<noteq> []" for m :: "('a, 'b) jsmap"
  proof (cases m)
    case (Cons p m')
    have "filter (\<lambda>kv. fst kv \<noteq> fst p) m' = m'"
      using that(1) Cons by (intro filter_True) (metis distinct.simps(2) image_eqI list.simps(9) list.set_map)
    with Cons show ?thesis by (simp add: jdel_filter)
  qed (use that in simp)
  have "jdel (hd (jkeys (f_map f @ [(k, v)]))) (f_map f @ [(k, v)]) = tl (f_map f @ [(k, v)])"
    using k o by (intro del) auto
  then show ?thesis
    using k o by (simp add: fifo_set_def jset_new jhas_iff Let_def map_tl)
qed

lemma fifo_wf_set:
  assumes "fifo_wf n f"
  shows "fifo_wf n (fifo_set n k v f)"
proof (cases "fifo_get f k")
  case None
  have "distinct (jkeys (f_map f @ [(k, v)]))"
    using assms None by (auto simp: fifo_wf_def fifo_get_def map_of_eq_None_iff)
  then have "distinct (jkeys (tl (f_map f @ [(k, v)])))" by (metis distinct_tl map_tl)
  with \<open>distinct (jkeys (f_map f @ [(k, v)]))\<close> assms show ?thesis
    by (auto simp: fifo_set_new [OF assms None] fifo_wf_def Let_def)
qed (simp add: fifo_set_known assms)

lemma jget_tl: "distinct (jkeys m) \<Longrightarrow> jget (tl m) k \<in> {jget m k, None}"
  by (cases m) (auto simp: map_of_eq_None_iff)

lemma fifo_get_set:
  assumes "fifo_wf n f" "fifo_get f k = None"
  shows "fifo_get (fifo_set n k v f) k' \<in> {if k' = k then Some v else fifo_get f k', None}"
proof -
  have d: "distinct (jkeys (f_map f @ [(k, v)]))"
    using assms by (auto simp: fifo_wf_def fifo_get_def map_of_eq_None_iff)
  have "jget (f_map f @ [(k, v)]) k' = (if k' = k then Some v else jget (f_map f) k')"
    using assms(2) by (auto simp: fifo_get_def map_add_def split: option.splits)
  with jget_tl [OF d, of k'] show ?thesis
    by (auto simp: fifo_set_new [OF assms] fifo_get_def Let_def split: if_splits)
qed

lemma fifo_get_set_self:
  assumes "fifo_wf n f" "fifo_get f k = None" "0 < n"
  shows "fifo_get (fifo_set n k v f) k = Some v"
proof (cases "f_map f")
  case Nil
  with assms show ?thesis by (simp add: fifo_set_new [OF assms(1,2)] fifo_get_def)
next
  case (Cons p m)
  with assms(2) show ?thesis
    by (auto simp: fifo_set_new [OF assms(1,2)] fifo_get_def Let_def map_add_def split: option.splits if_splits)
qed

lemma jkeys_jdel: "jkeys (jdel k m) = filter (\<lambda>x. x \<noteq> k) (jkeys m)"
  by (induction m) auto

lemma fifo_purge_fold:
  "fifo_wf n f \<Longrightarrow>
   fold (\<lambda>k f. if dead k then \<lparr>f_map = jdel k (f_map f), f_order = remove1 k (f_order f)\<rparr> else f) ks f =
     (let m = filter (\<lambda>kv. \<not> (dead (fst kv) \<and> fst kv \<in> set ks)) (f_map f) in \<lparr>f_map = m, f_order = jkeys m\<rparr>)"
proof (induction ks arbitrary: f)
  case Nil
  then show ?case by (cases f) (simp add: fifo_wf_def)
next
  case (Cons k ks)
  let ?f = "\<lparr>f_map = jdel k (f_map f), f_order = remove1 k (f_order f)\<rparr>"
  have d: "distinct (jkeys (f_map f))" using Cons.prems(1) unfolding fifo_wf_def by metis
  have "remove1 k (jkeys (f_map f)) = jkeys (jdel k (f_map f))"
    unfolding jkeys_jdel distinct_remove1_removeAll [OF d] removeAll_filter_not_eq
    by (rule filter_cong) auto
  then have "fifo_wf n ?f"
    using Cons.prems(1) d
    by (auto simp: fifo_wf_def jdel_filter distinct_map_filter intro: order_trans [OF length_filter_le])
  moreover have "filter (\<lambda>kv. \<not> (dead (fst kv) \<and> fst kv \<in> set ks)) (jdel k (f_map f)) =
      filter (\<lambda>kv. \<not> (dead (fst kv) \<and> fst kv \<in> set (k # ks))) (f_map f)" if "dead k"
    using that unfolding jdel_filter filter_filter by (intro filter_cong) auto
  moreover have "filter (\<lambda>kv. \<not> (dead (fst kv) \<and> fst kv \<in> set ks)) (f_map f) =
      filter (\<lambda>kv. \<not> (dead (fst kv) \<and> fst kv \<in> set (k # ks))) (f_map f)" if "\<not> dead k"
    using that by (intro filter_cong) auto
  ultimately show ?case
    using Cons.IH [OF Cons.prems] Cons.IH [of ?f] unfolding fold_Cons comp_apply
    by (cases "dead k") (simp_all only: Let_def if_True if_False fifo.select_convs not_False_eq_True simp_thms)
qed

lemma fifo_purge_eq:
  "fifo_wf n f \<Longrightarrow> fifo_purge dead f =
     (let m = filter (\<lambda>kv. \<not> dead (fst kv)) (f_map f) in \<lparr>f_map = m, f_order = jkeys m\<rparr>)"
proof -
  assume wf: "fifo_wf n f"
  have "filter (\<lambda>kv. \<not> (dead (fst kv) \<and> fst kv \<in> set (jkeys (f_map f)))) (f_map f) =
      filter (\<lambda>kv. \<not> dead (fst kv)) (f_map f)"
    by (rule filter_cong) auto
  with fifo_purge_fold [OF wf, of dead "jkeys (f_map f)"] show ?thesis
    by (simp only: fifo_purge_def Let_def)
qed

lemma fifo_wf_purge: "fifo_wf n f \<Longrightarrow> fifo_wf n (fifo_purge dead f)"
  by (auto simp: fifo_purge_eq fifo_wf_def Let_def distinct_map_filter
      intro: order_trans [OF length_filter_le])

lemma fifo_get_purge:
  "fifo_wf n f \<Longrightarrow> fifo_get (fifo_purge dead f) k = (if dead k then None else fifo_get f k)"
proof -
  have "jget (filter (\<lambda>kv. \<not> dead (fst kv)) m) k = (if dead k then None else jget m k)" for m :: "('a, 'b) jsmap"
    by (induction m) auto
  then show "fifo_wf n f \<Longrightarrow> ?thesis" by (simp add: fifo_purge_eq fifo_get_def Let_def)
qed

section \<open>The contract of a bounded cache\<close>

locale bounded_cache =
  fixes empty :: 'c
    and lookup :: "'c \<Rightarrow> 'k \<Rightarrow> 'v option"
    and store :: "nat \<Rightarrow> 'k \<Rightarrow> 'v \<Rightarrow> 'c \<Rightarrow> 'c"
    and used :: "'c \<Rightarrow> nat"
    and wf :: "nat \<Rightarrow> 'c \<Rightarrow> bool"
  assumes wf_empty: "wf n empty"
    and lookup_empty: "lookup empty k = None"
    and wf_store: "wf n c \<Longrightarrow> wf n (store n k v c)"
    and used_bound: "wf n c \<Longrightarrow> used c \<le> n"
    and store_known: "lookup c k = Some w \<Longrightarrow> store n k v c = c"
    and lookup_store: "wf n c \<Longrightarrow> lookup c k = None \<Longrightarrow>
          lookup (store n k v c) k' \<in> {if k' = k then Some v else lookup c k', None}"
    and lookup_store_self: "wf n c \<Longrightarrow> lookup c k = None \<Longrightarrow> 0 < n \<Longrightarrow> lookup (store n k v c) k = Some v"
begin

text \<open>Every cached value has a property that every stored value has: caching invents nothing.\<close>

definition sound :: "('k \<Rightarrow> 'v \<Rightarrow> bool) \<Rightarrow> 'c \<Rightarrow> bool" where
  "sound P c \<longleftrightarrow> (\<forall>k v. lookup c k = Some v \<longrightarrow> P k v)"

lemma sound_empty: "sound P empty"
  by (simp add: sound_def lookup_empty)

lemma sound_store: "wf n c \<Longrightarrow> sound P c \<Longrightarrow> P k v \<Longrightarrow> sound P (store n k v c)"
proof (cases "lookup c k")
  case None
  assume "wf n c" "sound P c" "P k v"
  then show ?thesis
    using lookup_store [OF _ None, of n v] unfolding sound_def by (metis emptyE insertE option.simps(1,3))
qed (simp add: store_known)

lemma bounded_run: "wf n (fold (\<lambda>(k, v). store n k v) kvs empty)"
proof -
  have "wf n c \<Longrightarrow> wf n (fold (\<lambda>(k, v). store n k v) kvs c)" for c
    by (induction kvs arbitrary: c) (auto intro: wf_store)
  then show ?thesis using wf_empty .
qed

lemma used_run: "used (fold (\<lambda>(k, v). store n k v) kvs empty) \<le> n"
  by (rule used_bound [OF bounded_run])

end

interpretation fifo: bounded_cache fifo_empty fifo_get fifo_set "\<lambda>f. length (f_order f)" fifo_wf
proof
  fix n :: nat and c :: "('a, 'b) fifo" and k k' :: 'a and v w :: 'b
  show "fifo_wf n c \<Longrightarrow> length (f_order c) \<le> n" by (auto simp: fifo_wf_def simp del: length_map)
  show "fifo_get c k = Some w \<Longrightarrow> fifo_set n k v c = c" by (rule fifo_set_known)
  show "fifo_wf n c \<Longrightarrow> fifo_get c k = None \<Longrightarrow>
      fifo_get (fifo_set n k v c) k' \<in> {if k' = k then Some v else fifo_get c k', None}"
    by (rule fifo_get_set)
  show "fifo_wf n c \<Longrightarrow> fifo_get c k = None \<Longrightarrow> 0 < n \<Longrightarrow> fifo_get (fifo_set n k v c) k = Some v"
    by (rule fifo_get_set_self)
qed (simp_all add: fifo_wf_set)

end
