(* ===== verification/Checkpoint.thy ===== *)
theory Checkpoint
  imports Fifo
begin

text \<open>
  Checkpoints (\<open>src/checkpoint/codec.ts\<close>) and the local snapshot container
  (\<open>src/checkpoint/snapshot.ts\<close>). A checkpoint is the current winner set, sorted by address,
  packed into content-addressed chunk blocks behind a root block listing them. The lemmas show
  that the blocks are a function of the winner set alone, that they decode back to it with or
  without a chunk index, truthful or not, and how full the chunks are. A root block whose
  \<open>chunks\<close> is not an array of links is modelled as a throw.
\<close>

record checkpoint_block =
  blk_cid :: cid
  blk_bytes :: bytes

record encoded_checkpoint =
  ec_root :: cid
  ec_chunks :: "cid list"
  ec_blocks :: "checkpoint_block list"

definition DEFAULT_MAX_CHUNK_BYTES :: nat where
  "DEFAULT_MAX_CHUNK_BYTES = 2 ^ 20"

definition blockForBytes :: "lib \<Rightarrow> bytes \<Rightarrow> checkpoint_block" where
  "blockForBytes L bs = \<lparr>blk_cid = create_v1 L dagCborCode (sha256 L bs), blk_bytes = bs\<rparr>"

definition root_ipld :: "cid list \<Rightarrow> ipld" where
  "root_ipld chunks = IMap [(''chunks'', IList (map ILink chunks))]"

definition checkpointRootBlock :: "lib \<Rightarrow> cid list \<Rightarrow> checkpoint_block" where
  "checkpointRootBlock L chunks = blockForBytes L (encodeCanonical L (root_ipld chunks))"

definition address_le :: "votes_bundle \<Rightarrow> votes_bundle \<Rightarrow> bool" where
  "address_le a b = chars_le (to_lower (b_address a)) (to_lower (b_address b))"

definition sort_winners :: "votes_bundle list \<Rightarrow> votes_bundle list" where
  "sort_winners winners = sort_by address_le winners"

text \<open>The size-cap fill, with its three accumulators.\<close>

fun fill_chunks ::
  "lib \<Rightarrow> nat \<Rightarrow> votes_bundle list \<Rightarrow> votes_bundle list list \<Rightarrow> votes_bundle list \<Rightarrow> nat \<Rightarrow>
     votes_bundle list list res" where
  "fill_chunks L maxBytes [] chunks cur curBytes =
     Inr (if cur = [] then chunks else chunks @ [cur])"
| "fill_chunks L maxBytes (b # bs) chunks cur curBytes =
     sbind (encodeBundle L b) (\<lambda>enc.
       let size = length enc in
       if cur \<noteq> [] \<and> maxBytes < curBytes + size
       then fill_chunks L maxBytes bs (chunks @ [cur]) [b] size
       else fill_chunks L maxBytes bs chunks (cur @ [b]) (curBytes + size))"

definition chunk_block :: "lib \<Rightarrow> votes_bundle list \<Rightarrow> checkpoint_block res" where
  "chunk_block L chunk =
     sbind (traverse (toWireBundle L) chunk) (\<lambda>ws.
       Inr (blockForBytes L (encodeCanonical L (IList (map wire_ipld ws)))))"

definition encodeCheckpoint :: "lib \<Rightarrow> votes_bundle list \<Rightarrow> nat \<Rightarrow> encoded_checkpoint res" where
  "encodeCheckpoint L winners maxBytes =
     sbind (fill_chunks L maxBytes (sort_winners winners) [] [] 0) (\<lambda>chunks.
     sbind (traverse (chunk_block L) chunks) (\<lambda>blocks.
       let chunkCids = map blk_cid blocks; rootBlock = checkpointRootBlock L chunkCids
       in Inr \<lparr>ec_root = blk_cid rootBlock, ec_chunks = chunkCids, ec_blocks = blocks @ [rootBlock]\<rparr>))"

definition decode_chunk :: "lib \<Rightarrow> (cid \<Rightarrow> bytes option res) \<Rightarrow> cid \<Rightarrow> votes_bundle list res" where
  "decode_chunk L getBlock c =
     sbind (getBlock c) (\<lambda>r.
     sbind (require_some (PlainError ''checkpoint chunk block is unavailable'') r) (\<lambda>bs.
     sbind (require_some (PlainError ''dag-cbor'') (cbor_decode L bs)) (\<lambda>v.
     sbind (require_some (PlainError ''checkpoint chunk is not a bundle array'') (as_list v)) (\<lambda>wires.
       traverse (fromWireBundle L) wires))))"

definition manifest_chunks :: "lib \<Rightarrow> cid \<Rightarrow> (cid \<Rightarrow> bytes option res) \<Rightarrow> cid list res" where
  "manifest_chunks L root getBlock =
     sbind (getBlock root) (\<lambda>r.
     sbind (require_some (PlainError ''checkpoint root block is unavailable'') r) (\<lambda>bs.
     sbind (require_some (PlainError ''dag-cbor'') (cbor_decode L bs)) (\<lambda>v.
       require_some (PlainError ''chunks'')
         (Option.bind (Option.bind (obj_get v ''chunks'') as_list) (opt_map as_link)))))"

definition decodeCheckpoint ::
  "lib \<Rightarrow> cid \<Rightarrow> (cid \<Rightarrow> bytes option res) \<Rightarrow> cid list option \<Rightarrow> votes_bundle list res" where
  "decodeCheckpoint L root getBlock knownChunks =
     sbind
       (case knownChunks of
          Some chunks \<Rightarrow>
            if blk_cid (checkpointRootBlock L chunks) = root then Inr chunks
            else manifest_chunks L root getBlock
        | None \<Rightarrow> manifest_chunks L root getBlock)
       (\<lambda>chunks. sbind (traverse (decode_chunk L getBlock) chunks) (\<lambda>perChunk. Inr (concat perChunk)))"

section \<open>Snapshots\<close>

definition SNAPSHOT_VERSION :: nat where
  "SNAPSHOT_VERSION = 1"

record checkpoint_snapshot =
  sn_record :: bytes
  sn_blocks :: "bytes list"

definition encodeSnapshot :: "lib \<Rightarrow> checkpoint_snapshot \<Rightarrow> bytes" where
  "encodeSnapshot L s =
     encodeCanonical L (IMap [(''v'', IInt (int SNAPSHOT_VERSION)), (''record'', IBytes (sn_record s)),
                              (''blocks'', IList (map IBytes (sn_blocks s)))])"

definition decodeSnapshot :: "lib \<Rightarrow> bytes \<Rightarrow> checkpoint_snapshot res" where
  "decodeSnapshot L bs =
     sbind (require_some (PlainError ''dag-cbor'') (cbor_decode L bs)) (\<lambda>decoded.
     sbind (guard (PlainError ''unsupported snapshot version'')
              (obj_get decoded ''v'' = Some (IInt (int SNAPSHOT_VERSION)))) (\<lambda>_.
     sbind (require_some (PlainError ''snapshot record is not bytes'')
              (Option.bind (obj_get decoded ''record'') as_bytes)) (\<lambda>rec.
     sbind (require_some (PlainError ''snapshot blocks are not a bytes array'')
              (Option.bind (Option.bind (obj_get decoded ''blocks'') as_list) (opt_map as_bytes))) (\<lambda>blocks.
       Inr \<lparr>sn_record = rec, sn_blocks = blocks\<rparr>))))"

lemma opt_map_map_Some: "(\<And>x. f (g x) = Some x) \<Longrightarrow> opt_map f (map g xs) = Some xs"
  by (induction xs) auto

lemma decodeSnapshot_encode:
  assumes "cbor_laws L"
  shows "decodeSnapshot L (encodeSnapshot L s) = Inr s"
proof -
  let ?v = "IMap [(''v'', IInt (int SNAPSHOT_VERSION)), (''record'', IBytes (sn_record s)),
                  (''blocks'', IList (map IBytes (sn_blocks s)))]"
  have ok: "ipld_ok ?v" by (auto simp: SNAPSHOT_VERSION_def safe_int_def max_safe_integer_def)
  have "opt_map as_bytes (map canon (map IBytes (sn_blocks s))) = Some (sn_blocks s)"
    by (simp add: opt_map_map_Some comp_def)
  then show ?thesis
    unfolding decodeSnapshot_def encodeSnapshot_def encodeCanonical_def cbor_roundtrip [OF assms ok]
      require_some_Some sbind_simps obj_get_canon [OF ok]
    by (simp add: comp_def)
qed

section \<open>The fill\<close>

definition bundle_size :: "lib \<Rightarrow> votes_bundle \<Rightarrow> nat" where
  "bundle_size L b = (case encodeBundle L b of Inl _ \<Rightarrow> 0 | Inr bs \<Rightarrow> length bs)"

definition chunk_bytes :: "lib \<Rightarrow> votes_bundle list \<Rightarrow> nat" where
  "chunk_bytes L c = sum_list (map (bundle_size L) c)"

definition chunk_ok :: "lib \<Rightarrow> nat \<Rightarrow> votes_bundle list \<Rightarrow> bool" where
  "chunk_ok L maxBytes c \<longleftrightarrow> c \<noteq> [] \<and> (length c = 1 \<or> chunk_bytes L c \<le> maxBytes)"

lemma fill_chunks_spec:
  assumes "fill_chunks L m bs chunks cur n = Inr out"
    and "n = chunk_bytes L cur" "\<forall>c \<in> set chunks. chunk_ok L m c" "cur = [] \<or> chunk_ok L m cur"
  shows "concat out = concat chunks @ cur @ bs \<and> (\<forall>c \<in> set out. chunk_ok L m c)"
  using assms
proof (induction L m bs chunks cur n rule: fill_chunks.induct)
  case (1 L m chunks cur n)
  then show ?case by (auto split: if_splits)
next
  case (2 L m b bs chunks cur n)
  from "2.prems"(1) obtain enc where enc: "encodeBundle L b = Inr enc"
    by (auto simp: res_simps)
  then have size: "bundle_size L b = length enc" by (simp add: bundle_size_def)
  note run = "2.prems"(1) [unfolded fill_chunks.simps enc sbind_simps Let_def]
  show ?case
  proof (cases "cur \<noteq> [] \<and> m < n + length enc")
    case True
    have all: "\<forall>c \<in> set (chunks @ [cur]). chunk_ok L m c" and one: "chunk_ok L m [b]"
      using "2.prems"(3,4) True by (auto simp: chunk_ok_def)
    from "2.IH"(1) [OF refl True run [unfolded if_P [OF True]] _ all] one size show ?thesis
      by (simp add: chunk_bytes_def)
  next
    case False
    have one: "chunk_ok L m (cur @ [b])" and sum: "n + length enc = chunk_bytes L (cur @ [b])"
      using False "2.prems"(2) size by (auto simp: chunk_ok_def chunk_bytes_def)
    from "2.IH"(2) [OF refl False run [unfolded if_not_P [OF False]] sum "2.prems"(3)] one show ?thesis
      by simp
  qed
qed

lemma fill_chunks_total:
  "fill_chunks L m bs chunks cur n = Inr out \<Longrightarrow> b \<in> set bs \<Longrightarrow> \<exists>enc. encodeBundle L b = Inr enc"
  by (induction L m bs chunks cur n rule: fill_chunks.induct) (auto simp: res_simps Let_def split: if_splits)

section \<open>The blocks are a function of the winner set\<close>

lemma fill_chunks_lower:
  "fill_chunks L m bs chunks cur n = Inr out \<Longrightarrow>
   fill_chunks L m (map lower_bundle bs) (map (map lower_bundle) chunks) (map lower_bundle cur) n =
     Inr (map (map lower_bundle) out)"
proof (induction L m bs chunks cur n rule: fill_chunks.induct)
  case (1 L m chunks cur n)
  then show ?case by (cases "cur = []") auto
next
  case (2 L m b bs chunks cur n)
  from "2.prems" obtain enc where enc: "encodeBundle L b = Inr enc"
    by (auto simp: res_simps)
  note run = "2.prems" [unfolded fill_chunks.simps enc sbind_simps Let_def]
  note low = encodeBundle_lower [OF enc]
  show ?case
  proof (cases "cur \<noteq> [] \<and> m < n + length enc")
    case True
    from "2.IH"(1) [OF refl True run [unfolded if_P [OF True]]] True low show ?thesis
      by (simp add: Let_def)
  next
    case False
    from "2.IH"(2) [OF refl False run [unfolded if_not_P [OF False]]] False low show ?thesis
      by (auto simp: Let_def)
  qed
qed

lemma chunk_block_lower: "chunk_block L c = Inr blk \<Longrightarrow> chunk_block L (map lower_bundle c) = Inr blk"
proof -
  assume "chunk_block L c = Inr blk"
  then obtain ws where ws: "traverse (toWireBundle L) c = Inr ws"
    and blk: "blk = blockForBytes L (encodeCanonical L (IList (map wire_ipld ws)))"
    by (auto simp: chunk_block_def res_simps)
  from ws have "traverse (toWireBundle L) (map lower_bundle c) = Inr ws"
    by (auto simp: traverse_Inr_iff list_all2_map1 toWireBundle_lower intro: list.rel_mono_strong)
  with blk show ?thesis by (simp add: chunk_block_def)
qed

lemma insort_by_map: "insort_by le (f x) (map f xs) = map f (insort_by (\<lambda>a b. le (f a) (f b)) x xs)"
  by (induction xs) auto

lemma sort_by_map: "sort_by le (map f xs) = map f (sort_by (\<lambda>a b. le (f a) (f b)) xs)"
  by (induction xs) (auto simp: insort_by_map)

lemma sort_winners_lower: "sort_winners (map lower_bundle ws) = map lower_bundle (sort_winners ws)"
proof -
  have "(\<lambda>a b. address_le (lower_bundle a) (lower_bundle b)) = address_le"
    by (intro ext) (simp add: address_le_def lower_bundle_def)
  then show ?thesis by (simp add: sort_winners_def sort_by_map)
qed

lemma encodeCheckpoint_lower:
  assumes "encodeCheckpoint L ws m = Inr e"
  shows "encodeCheckpoint L (map lower_bundle ws) m = Inr e"
proof -
  from assms obtain chunks blocks where
    f: "fill_chunks L m (sort_winners ws) [] [] 0 = Inr chunks" and
    b: "traverse (chunk_block L) chunks = Inr blocks" and
    e: "e = (let chunkCids = map blk_cid blocks; rootBlock = checkpointRootBlock L chunkCids
       in \<lparr>ec_root = blk_cid rootBlock, ec_chunks = chunkCids, ec_blocks = blocks @ [rootBlock]\<rparr>)"
    by (auto simp: encodeCheckpoint_def res_simps Let_def)
  have "traverse (chunk_block L) (map (map lower_bundle) chunks) = Inr blocks"
    using b by (auto simp: traverse_Inr_iff list_all2_map1 chunk_block_lower intro: list.rel_mono_strong)
  with fill_chunks_lower [OF f] e show ?thesis
    by (simp add: encodeCheckpoint_def sort_winners_lower Let_def)
qed

lemma address_le_preorder: "total_preorder_on A address_le"
  unfolding total_preorder_on_def address_le_def using chars_le_total chars_le_trans by blast

lemma sort_winners_cong:
  assumes "mset xs = mset ys" "distinct (map (\<lambda>b. to_lower (b_address b)) xs)"
  shows "sort_winners xs = sort_winners ys"
  unfolding sort_winners_def
proof (rule sort_by_mset_cong [OF assms(1) address_le_preorder])
  fix x y assume "x \<in> set xs" "y \<in> set xs" "address_le x y" "address_le y x"
  then show "x = y"
    using assms(2) chars_le_antisym unfolding address_le_def distinct_map by (blast dest: inj_onD)
qed

lemma encodeCheckpoint_determined:
  assumes "encodeCheckpoint L ws1 m = Inr e1" "encodeCheckpoint L ws2 m = Inr e2"
    and "mset (map lower_bundle ws1) = mset (map lower_bundle ws2)"
    and "distinct (map (\<lambda>b. to_lower (b_address b)) ws1)"
  shows "e1 = e2"
proof -
  have "map (\<lambda>b. to_lower (b_address b)) (map lower_bundle ws1) = map (\<lambda>b. to_lower (b_address b)) ws1"
    by (simp add: lower_bundle_def)
  then have "sort_winners (map lower_bundle ws1) = sort_winners (map lower_bundle ws2)"
    using assms(3,4) by (intro sort_winners_cong) (simp_all only:)
  then have "encodeCheckpoint L (map lower_bundle ws1) m = encodeCheckpoint L (map lower_bundle ws2) m"
    by (simp add: encodeCheckpoint_def)
  with encodeCheckpoint_lower [OF assms(1)] encodeCheckpoint_lower [OF assms(2)] show ?thesis by simp
qed

section \<open>Decoding a checkpoint\<close>

lemma ipld_ok_root: "ipld_ok (root_ipld chunks)"
  by (auto simp: root_ipld_def)

lemma canon_root: "canon (root_ipld chunks) = root_ipld chunks"
  by (simp add: root_ipld_def comp_def)

lemma root_cid: "blk_cid (checkpointRootBlock L chunks) = bundleCidForBytes L (blk_bytes (checkpointRootBlock L chunks))"
  by (simp add: checkpointRootBlock_def blockForBytes_def bundleCidForBytes_def)

lemma decode_root:
  "cbor_laws L \<Longrightarrow> cbor_decode L (blk_bytes (checkpointRootBlock L chunks)) = Some (root_ipld chunks)"
  by (simp add: checkpointRootBlock_def blockForBytes_def encodeCanonical_def cbor_roundtrip ipld_ok_root canon_root)

text \<open>Only the true index of a root re-derives to that root.\<close>

lemma root_index_unique:
  assumes "cbor_laws L" "inj (bundleCidForBytes L)"
    and "blk_cid (checkpointRootBlock L c) = blk_cid (checkpointRootBlock L d)"
  shows "c = d"
proof -
  have "blk_bytes (checkpointRootBlock L c) = blk_bytes (checkpointRootBlock L d)"
    using assms(2,3) root_cid by (metis injD)
  then have "root_ipld c = root_ipld d"
    using decode_root [OF assms(1), of c] decode_root [OF assms(1), of d] by simp
  then show ?thesis by (simp add: root_ipld_def inj_map_eq_map inj_def)
qed

lemma manifest_chunks_root:
  assumes "cbor_laws L"
    and "getBlock (blk_cid (checkpointRootBlock L chunks)) = Inr (Some (blk_bytes (checkpointRootBlock L chunks)))"
  shows "manifest_chunks L (blk_cid (checkpointRootBlock L chunks)) getBlock = Inr chunks"
  using assms decode_root [OF assms(1), of chunks]
  by (simp add: manifest_chunks_def root_ipld_def opt_map_map_Some)

lemma decode_chunk_block:
  assumes L: "cbor_laws L" "b58_laws L" and c: "chunk_block L c = Inr blk"
    and g: "getBlock (blk_cid blk) = Inr (Some (blk_bytes blk))"
  shows "decode_chunk L getBlock (blk_cid blk) = Inr (map lower_bundle c)"
proof -
  from c obtain ws where ws: "traverse (toWireBundle L) c = Inr ws"
    and blk: "blk_bytes blk = cbor_encode L (IList (map wire_ipld ws))"
    by (auto simp: chunk_block_def res_simps blockForBytes_def encodeCanonical_def)
  have rel: "list_all2 (\<lambda>b w. toWireBundle L b = Inr w) c ws" using ws by (simp add: traverse_Inr_iff)
  have ok: "ipld_ok (IList (map wire_ipld ws))"
    using rel by (induction rule: list_all2_induct) (auto dest: toWireBundle_Inr(2) simp: ipld_ok_wire)
  have "traverse (fromWireBundle L) (map canon (map wire_ipld ws)) = Inr (map lower_bundle c)"
    using rel by (induction rule: list_all2_induct) (auto simp: fromWireBundle_wire [OF L(2)])
  with g cbor_roundtrip [OF L(1) ok] show ?thesis
    by (simp add: decode_chunk_def blk)
qed

lemma decodeCheckpoint_encode:
  assumes L: "cbor_laws L" "b58_laws L" "inj (bundleCidForBytes L)"
    and e: "encodeCheckpoint L ws m = Inr e"
    and g: "\<And>blk. blk \<in> set (ec_blocks e) \<Longrightarrow> getBlock (blk_cid blk) = Inr (Some (blk_bytes blk))"
  shows "decodeCheckpoint L (ec_root e) getBlock known = Inr (map lower_bundle (sort_winners ws))"
proof -
  from e obtain chunks blocks where
    f: "fill_chunks L m (sort_winners ws) [] [] 0 = Inr chunks" and
    b: "traverse (chunk_block L) chunks = Inr blocks" and
    er: "ec_root e = blk_cid (checkpointRootBlock L (map blk_cid blocks))" and
    eb: "ec_blocks e = blocks @ [checkpointRootBlock L (map blk_cid blocks)]"
    by (auto simp: encodeCheckpoint_def res_simps Let_def)
  let ?chunks = "map blk_cid blocks"
  have cat: "concat chunks = sort_winners ws"
    using fill_chunks_spec [OF f] by (simp add: chunk_bytes_def)
  have man: "manifest_chunks L (ec_root e) getBlock = Inr ?chunks"
    unfolding er by (rule manifest_chunks_root [OF L(1)]) (rule g, simp add: eb)
  have idx: "(case known of Some k \<Rightarrow> if blk_cid (checkpointRootBlock L k) = ec_root e then Inr k
        else manifest_chunks L (ec_root e) getBlock
      | None \<Rightarrow> manifest_chunks L (ec_root e) getBlock) = Inr ?chunks"
    using man root_index_unique [OF L(1,3)] er by (auto split: option.splits)
  have rel: "list_all2 (\<lambda>c blk. chunk_block L c = Inr blk) chunks blocks"
    using b by (simp add: traverse_Inr_iff)
  have "list_all2 (\<lambda>c blk. decode_chunk L getBlock (blk_cid blk) = Inr (map lower_bundle c)) chunks blocks"
    using rel by (rule list.rel_mono_strong) (auto intro!: decode_chunk_block [OF L(1,2)] g simp: eb)
  then have "list_all2 (\<lambda>blk x. decode_chunk L getBlock (blk_cid blk) = Inr x) blocks (map (map lower_bundle) chunks)"
    by (simp add: list_all2_conv_all_nth)
  then have "traverse (decode_chunk L getBlock) ?chunks = Inr (map (map lower_bundle) chunks)"
    unfolding traverse_map traverse_Inr_iff .
  then show ?thesis
    unfolding decodeCheckpoint_def idx by (simp add: map_concat [symmetric] cat)
qed

text \<open>The index is never a trust vector: against a content-addressed block source it cannot change
  the outcome of a decode whose root block is available.\<close>

lemma decodeCheckpoint_index_irrelevant:
  assumes "cbor_laws L" "inj (bundleCidForBytes L)"
    and "getBlock root = Inr (Some rb)" "bundleCidForBytes L rb = root"
  shows "decodeCheckpoint L root getBlock known = decodeCheckpoint L root getBlock None"
proof (cases known)
  case (Some k)
  have "manifest_chunks L root getBlock = Inr k" if r: "blk_cid (checkpointRootBlock L k) = root"
  proof -
    have "rb = blk_bytes (checkpointRootBlock L k)"
      using assms(2,4) r root_cid by (metis injD)
    with r assms(3) manifest_chunks_root [OF assms(1), of getBlock k] show ?thesis by simp
  qed
  with Some show ?thesis by (simp add: decodeCheckpoint_def)
qed simp

end
