(* ===== verification/Messages.thy ===== *)
theory Messages
  imports Checkpoint
begin

text \<open>
  The wire messages (\<open>src/transport/messages.ts\<close>): the two-kind pubsub payload, the root records
  of the fetch protocol, their bulk form, the fetch keys and the derived size caps. Every decoder
  is a strict schema over the decoded value; the lemmas are the round trips and the separation
  of kinds and keys.
\<close>

definition MESSAGE_VERSION :: nat where
  "MESSAGE_VERSION = 1"

definition ROOT_RECORD_VERSION :: nat where
  "ROOT_RECORD_VERSION = 1"

record root_record =
  rr_version :: nat
  rr_root :: cid
  rr_count :: nat
  rr_sizeBytes :: nat

record fetch_root_record = root_record +
  fr_chunks :: "cid list"

record bulk_root_record = fetch_root_record +
  bk_chunkBlocks :: "bytes list option"

datatype vote_message = MsgBundle bytes | MsgRoot root_record

section \<open>Schemas\<close>

definition root_keys :: "string list" where
  "root_keys = [''version'', ''root'', ''count'', ''sizeBytes'']"

text \<open>The fields every root record shares.\<close>

definition root_fields :: "ipld \<Rightarrow> (nat \<times> cid \<times> nat \<times> nat) option" where
  "root_fields v =
     Option.bind (Option.bind (obj_get v ''version'') positive_int) (\<lambda>ver.
     Option.bind (Option.bind (obj_get v ''root'') as_link) (\<lambda>root.
     Option.bind (Option.bind (obj_get v ''count'') as_nat) (\<lambda>count.
     Option.bind (Option.bind (obj_get v ''sizeBytes'') as_nat) (\<lambda>size.
     Some (ver, root, count, size)))))"

definition RootRecordSchema :: "ipld \<Rightarrow> root_record option" where
  "RootRecordSchema v =
     (if \<not> strict_keys root_keys v then None else
      map_option (\<lambda>(ver, root, count, size).
        \<lparr>rr_version = ver, rr_root = root, rr_count = count, rr_sizeBytes = size\<rparr>) (root_fields v))"

definition chunk_links :: "ipld \<Rightarrow> cid list option" where
  "chunk_links v = Option.bind (Option.bind (obj_get v ''chunks'') as_list) (opt_map as_link)"

definition FetchRootRecordSchema :: "ipld \<Rightarrow> fetch_root_record option" where
  "FetchRootRecordSchema v =
     (if \<not> strict_keys (''chunks'' # root_keys) v then None else
      Option.bind (root_fields v) (\<lambda>(ver, root, count, size).
      Option.bind (chunk_links v) (\<lambda>chunks.
      Some \<lparr>rr_version = ver, rr_root = root, rr_count = count, rr_sizeBytes = size,
            fr_chunks = chunks\<rparr>)))"

definition BulkFetchRootRecordSchema :: "ipld \<Rightarrow> bulk_root_record option" where
  "BulkFetchRootRecordSchema v =
     (if \<not> strict_keys (''chunkBlocks'' # ''chunks'' # root_keys) v then None else
      Option.bind (root_fields v) (\<lambda>(ver, root, count, size).
      Option.bind (chunk_links v) (\<lambda>chunks.
      Option.bind
        (case obj_get v ''chunkBlocks'' of
           None \<Rightarrow> Some None
         | Some x \<Rightarrow> map_option Some (Option.bind (as_list x) (opt_map as_bytes))) (\<lambda>blocks.
      Some \<lparr>rr_version = ver, rr_root = root, rr_count = count, rr_sizeBytes = size,
            fr_chunks = chunks, bk_chunkBlocks = blocks\<rparr>))))"

definition MessageSchema :: "ipld \<Rightarrow> vote_message option" where
  "MessageSchema v =
     (case obj_get v ''kind'' of
        Some (IStr kind) \<Rightarrow>
          if kind = ''bundle'' then
            if strict_keys [''v'', ''kind'', ''bundle''] v \<and> obj_get v ''v'' = Some (IInt (int MESSAGE_VERSION))
            then map_option MsgBundle (Option.bind (obj_get v ''bundle'') as_bytes) else None
          else if kind = ''root'' then
            if strict_keys [''v'', ''kind'', ''record''] v \<and> obj_get v ''v'' = Some (IInt (int MESSAGE_VERSION))
            then map_option MsgRoot (Option.bind (obj_get v ''record'') RootRecordSchema) else None
          else None
      | _ \<Rightarrow> None)"

section \<open>Encoders and decoders\<close>

definition root_record_ipld :: "('a) root_record_scheme \<Rightarrow> ipld" where
  "root_record_ipld r =
     IMap [(''version'', IInt (int (rr_version r))), (''root'', ILink (rr_root r)),
           (''count'', IInt (int (rr_count r))), (''sizeBytes'', IInt (int (rr_sizeBytes r)))]"

definition fetch_record_ipld :: "('a) fetch_root_record_scheme \<Rightarrow> ipld" where
  "fetch_record_ipld r =
     IMap [(''version'', IInt (int (rr_version r))), (''root'', ILink (rr_root r)),
           (''chunks'', IList (map ILink (fr_chunks r))),
           (''count'', IInt (int (rr_count r))), (''sizeBytes'', IInt (int (rr_sizeBytes r)))]"

definition bulk_record_ipld :: "bulk_root_record \<Rightarrow> ipld" where
  "bulk_record_ipld r =
     IMap ([(''version'', IInt (int (rr_version r))), (''root'', ILink (rr_root r)),
            (''chunks'', IList (map ILink (fr_chunks r))),
            (''count'', IInt (int (rr_count r))), (''sizeBytes'', IInt (int (rr_sizeBytes r)))] @
           (case bk_chunkBlocks r of None \<Rightarrow> [] | Some bs \<Rightarrow> [(''chunkBlocks'', IList (map IBytes bs))]))"

definition toRootRecord :: "('a) root_record_scheme \<Rightarrow> root_record" where
  "toRootRecord r =
     \<lparr>rr_version = rr_version r, rr_root = rr_root r, rr_count = rr_count r, rr_sizeBytes = rr_sizeBytes r\<rparr>"

definition encodeBundleMessage :: "lib \<Rightarrow> bytes \<Rightarrow> bytes" where
  "encodeBundleMessage L blockBytes =
     encodeCanonical L (IMap [(''v'', IInt (int MESSAGE_VERSION)), (''kind'', IStr ''bundle''),
                              (''bundle'', IBytes blockBytes)])"

definition encodeRootMessage :: "lib \<Rightarrow> ('a) root_record_scheme \<Rightarrow> bytes res" where
  "encodeRootMessage L r =
     sbind (require_some (ZodError ''RootRecordSchema'') (RootRecordSchema (root_record_ipld (toRootRecord r)))) (\<lambda>p.
     Inr (encodeCanonical L (IMap [(''v'', IInt (int MESSAGE_VERSION)), (''kind'', IStr ''root''),
                                   (''record'', root_record_ipld p)])))"

definition decodeVoteMessage :: "lib \<Rightarrow> bytes \<Rightarrow> vote_message res" where
  "decodeVoteMessage L bs =
     sbind (require_some (PlainError ''dag-cbor'') (cbor_decode L bs)) (\<lambda>v.
     require_some (ZodError ''MessageSchema'') (MessageSchema v))"

definition ROOT_FETCH_KEY_SUFFIX :: string where
  "ROOT_FETCH_KEY_SUFFIX = ''/root''"

definition rootFetchKey :: "string \<Rightarrow> string" where
  "rootFetchKey topic = topic @ ROOT_FETCH_KEY_SUFFIX"

definition BULK_ROOTS_FETCH_KEY :: string where
  "BULK_ROOTS_FETCH_KEY = TOPIC_PREFIX @ ''roots''"

definition BULK_ROOTS_MAX_RECORDS :: nat where
  "BULK_ROOTS_MAX_RECORDS = 512"

definition BULK_ROOTS_MAX_INLINE_BYTES :: nat where
  "BULK_ROOTS_MAX_INLINE_BYTES = 512 * 1024"

definition encodeRootRecord :: "lib \<Rightarrow> ('a) fetch_root_record_scheme \<Rightarrow> bytes res" where
  "encodeRootRecord L r =
     sbind (require_some (ZodError ''FetchRootRecordSchema'') (FetchRootRecordSchema (fetch_record_ipld r))) (\<lambda>p.
     Inr (encodeCanonical L (fetch_record_ipld p)))"

definition decodeRootRecord :: "lib \<Rightarrow> bytes \<Rightarrow> fetch_root_record res" where
  "decodeRootRecord L bs =
     sbind (require_some (PlainError ''dag-cbor'') (cbor_decode L bs)) (\<lambda>v.
     require_some (ZodError ''FetchRootRecordSchema'') (FetchRootRecordSchema v))"

definition BulkRootRecordsSchema :: "ipld \<Rightarrow> (string, bulk_root_record) jsmap option" where
  "BulkRootRecordsSchema v =
     (case v of
        IMap m \<Rightarrow> opt_map (\<lambda>(k, x). map_option (Pair k) (BulkFetchRootRecordSchema x)) m
      | _ \<Rightarrow> None)"

definition bulk_ipld :: "(string, bulk_root_record) jsmap \<Rightarrow> ipld" where
  "bulk_ipld rs = IMap (map (\<lambda>(k, r). (k, bulk_record_ipld r)) rs)"

definition encodeBulkRootRecords :: "lib \<Rightarrow> (string, bulk_root_record) jsmap \<Rightarrow> bytes res" where
  "encodeBulkRootRecords L rs =
     sbind (require_some (ZodError ''BulkRootRecordsSchema'') (BulkRootRecordsSchema (bulk_ipld rs))) (\<lambda>ps.
     Inr (encodeCanonical L (bulk_ipld ps)))"

definition decodeBulkRootRecords :: "lib \<Rightarrow> bytes \<Rightarrow> (string, bulk_root_record) jsmap res" where
  "decodeBulkRootRecords L bs =
     sbind (require_some (PlainError ''dag-cbor'') (cbor_decode L bs)) (\<lambda>v.
     require_some (ZodError ''BulkRootRecordsSchema'') (BulkRootRecordsSchema v))"

definition MAX_ROOT_MESSAGE_BYTES :: nat where
  "MAX_ROOT_MESSAGE_BYTES = 256"

definition BUNDLE_MESSAGE_OVERHEAD_BYTES :: nat where
  "BUNDLE_MESSAGE_OVERHEAD_BYTES = 256"

definition MAX_VOTE_ENTRY_BYTES :: nat where
  "MAX_VOTE_ENTRY_BYTES = 512"

definition maxBundleMessageBytes :: "criteria \<Rightarrow> nat" where
  "maxBundleMessageBytes c = BUNDLE_MESSAGE_OVERHEAD_BYTES + MAX_VOTE_ENTRY_BYTES * c_maxVotesPerAddress c"

section \<open>Round trips\<close>

lemma strict_keys_canon [simp]: "strict_keys ks (canon v) = strict_keys ks v"
  by (cases v) (auto simp: strict_keys_def list_all_iff)

lemma as_nat_int [simp]: "as_nat (IInt (int n)) = (if n \<le> max_safe_integer then Some n else None)"
  by (simp add: as_nat_def safe_int_def)

lemma positive_int_canon [simp]: "positive_int (canon v) = positive_int v"
  by (simp add: positive_int_def)

lemma bind_canon: "Option.bind (map_option canon x) f = Option.bind x (\<lambda>v. f (canon v))"
  by (cases x) auto

lemma root_fields_canon: "ipld_ok v \<Longrightarrow> root_fields (canon v) = root_fields v"
  by (simp add: root_fields_def obj_get_canon bind_canon)

lemma opt_map_canon: "(\<And>v. f (canon v) = f v) \<Longrightarrow> opt_map f (map canon xs) = opt_map f xs"
  by (induction xs) (auto split: option.splits)

lemma chunk_links_canon: "ipld_ok v \<Longrightarrow> chunk_links (canon v) = chunk_links v"
  by (cases "obj_get v ''chunks''"; cases "as_list (the (obj_get v ''chunks''))")
     (simp_all add: chunk_links_def obj_get_canon opt_map_canon)

lemma RootRecordSchema_canon: "ipld_ok v \<Longrightarrow> RootRecordSchema (canon v) = RootRecordSchema v"
  by (simp add: RootRecordSchema_def root_fields_canon)

lemma FetchRootRecordSchema_canon: "ipld_ok v \<Longrightarrow> FetchRootRecordSchema (canon v) = FetchRootRecordSchema v"
  by (simp add: FetchRootRecordSchema_def root_fields_canon chunk_links_canon)

lemma BulkFetchRootRecordSchema_canon:
  assumes "ipld_ok v"
  shows "BulkFetchRootRecordSchema (canon v) = BulkFetchRootRecordSchema v"
proof -
  have "Option.bind (map_option (map canon) y) (opt_map as_bytes) = Option.bind y (opt_map as_bytes)" for y
    by (cases y) (simp_all add: opt_map_canon)
  then show ?thesis
    using assms by (simp add: BulkFetchRootRecordSchema_def root_fields_canon chunk_links_canon obj_get_canon
        split: option.splits)
qed

definition root_record_ok :: "('a) root_record_scheme \<Rightarrow> bool" where
  "root_record_ok r \<longleftrightarrow> 0 < rr_version r \<and> rr_version r \<le> max_safe_integer \<and>
     rr_count r \<le> max_safe_integer \<and> rr_sizeBytes r \<le> max_safe_integer"

lemma root_fields_ipld:
  "root_fields (IMap m) = (if root_record_ok r then Some (rr_version r, rr_root r, rr_count r, rr_sizeBytes r) else None)"
  if "jget m ''version'' = Some (IInt (int (rr_version r)))" "jget m ''root'' = Some (ILink (rr_root r))"
    "jget m ''count'' = Some (IInt (int (rr_count r)))" "jget m ''sizeBytes'' = Some (IInt (int (rr_sizeBytes r)))"
  using that by (simp add: root_fields_def root_record_ok_def positive_int_def)

lemma RootRecordSchema_ipld:
  "RootRecordSchema (root_record_ipld r) = (if root_record_ok r then Some (toRootRecord r) else None)"
  by (simp add: RootRecordSchema_def root_record_ipld_def root_fields_ipld [of _ r] strict_keys_def
      root_keys_def toRootRecord_def)

lemma opt_map_link [simp]: "opt_map as_link (map ILink cs) = Some cs"
  by (simp add: opt_map_map_Some)

lemma opt_map_bytes [simp]: "opt_map as_bytes (map IBytes bs) = Some bs"
  by (simp add: opt_map_map_Some)

lemma FetchRootRecordSchema_ipld:
  "FetchRootRecordSchema (fetch_record_ipld r) =
     (if root_record_ok r then Some (fetch_root_record.truncate r) else None)"
  by (simp add: FetchRootRecordSchema_def fetch_record_ipld_def root_fields_ipld [of _ r] strict_keys_def
      root_keys_def chunk_links_def fetch_root_record.truncate_def)

lemma BulkFetchRootRecordSchema_ipld:
  "BulkFetchRootRecordSchema (bulk_record_ipld r) = (if root_record_ok r then Some r else None)"
  by (cases r; cases "bk_chunkBlocks r")
     (simp_all add: BulkFetchRootRecordSchema_def bulk_record_ipld_def root_fields_ipld [of _ r] strict_keys_def
      root_keys_def chunk_links_def)

lemma ipld_ok_root_record: "root_record_ok r \<Longrightarrow> ipld_ok (root_record_ipld r)"
  by (auto simp: root_record_ipld_def root_record_ok_def safe_int_def)

lemma ipld_ok_fetch_record: "root_record_ok r \<Longrightarrow> ipld_ok (fetch_record_ipld r)"
  by (auto simp: fetch_record_ipld_def root_record_ok_def safe_int_def)

lemma ipld_ok_bulk_record: "root_record_ok r \<Longrightarrow> ipld_ok (bulk_record_ipld r)"
  by (auto simp: bulk_record_ipld_def root_record_ok_def safe_int_def split: option.splits)

lemma decodeVoteMessage_bundle:
  assumes "cbor_laws L"
  shows "decodeVoteMessage L (encodeBundleMessage L bs) = Inr (MsgBundle bs)"
proof -
  let ?v = "IMap [(''v'', IInt (int MESSAGE_VERSION)), (''kind'', IStr ''bundle''), (''bundle'', IBytes bs)]"
  have ok: "ipld_ok ?v" by (simp add: MESSAGE_VERSION_def safe_int_def max_safe_integer_def)
  show ?thesis
    unfolding decodeVoteMessage_def encodeBundleMessage_def encodeCanonical_def
      cbor_roundtrip [OF assms ok] MessageSchema_def obj_get_canon [OF ok] strict_keys_canon
    by (simp add: strict_keys_def)
qed

lemma decodeVoteMessage_root:
  assumes "cbor_laws L" "encodeRootMessage L r = Inr bs"
  shows "decodeVoteMessage L bs = Inr (MsgRoot (toRootRecord r))"
proof -
  have rr: "root_record_ok (toRootRecord r)" and
    bs: "bs = encodeCanonical L (IMap [(''v'', IInt (int MESSAGE_VERSION)), (''kind'', IStr ''root''),
                                   (''record'', root_record_ipld (toRootRecord r))])"
    using assms(2) by (auto simp: encodeRootMessage_def res_simps RootRecordSchema_ipld toRootRecord_def
        split: if_splits)
  let ?v = "IMap [(''v'', IInt (int MESSAGE_VERSION)), (''kind'', IStr ''root''),
                  (''record'', root_record_ipld (toRootRecord r))]"
  have ok: "ipld_ok ?v"
    using ipld_ok_root_record [OF rr] by (simp add: MESSAGE_VERSION_def safe_int_def max_safe_integer_def)
  have tt: "toRootRecord (toRootRecord r) = toRootRecord r" by (simp add: toRootRecord_def)
  show ?thesis
    unfolding bs decodeVoteMessage_def encodeCanonical_def
      cbor_roundtrip [OF assms(1) ok] MessageSchema_def obj_get_canon [OF ok] strict_keys_canon
    using rr by (simp add: strict_keys_def RootRecordSchema_canon [OF ipld_ok_root_record [OF rr]]
        RootRecordSchema_ipld tt)
qed

lemma fetch_truncate: "fetch_root_record.truncate (r :: fetch_root_record) = r"
  by (cases r) (simp add: fetch_root_record.truncate_def)

lemma decodeRootRecord_encode:
  assumes "cbor_laws L" "encodeRootRecord L (r :: fetch_root_record) = Inr bs"
  shows "decodeRootRecord L bs = Inr r"
proof -
  have rr: "root_record_ok r" and bs: "bs = cbor_encode L (fetch_record_ipld r)"
    using assms(2) by (auto simp: encodeRootRecord_def encodeCanonical_def res_simps
        FetchRootRecordSchema_ipld fetch_truncate split: if_splits)
  note ok = ipld_ok_fetch_record [OF rr]
  show ?thesis
    using rr by (simp add: decodeRootRecord_def bs cbor_roundtrip [OF assms(1) ok]
        FetchRootRecordSchema_canon [OF ok] FetchRootRecordSchema_ipld fetch_truncate)
qed

lemma bulk_schema_ipld:
  "BulkRootRecordsSchema (bulk_ipld rs) = (if \<forall>(k, r) \<in> set rs. root_record_ok r then Some rs else None)"
  by (induction rs) (auto simp: BulkRootRecordsSchema_def bulk_ipld_def BulkFetchRootRecordSchema_ipld split: if_splits)

text \<open>A bulk answer comes back with the same record under every topic.\<close>

lemma decodeBulk_encode:
  assumes "cbor_laws L" "encodeBulkRootRecords L rs = Inr bs" "jwf rs"
  shows "\<exists>rs'. decodeBulkRootRecords L bs = Inr rs' \<and> jwf rs' \<and> (\<forall>k. jget rs' k = jget rs k)"
proof -
  have rr: "\<forall>(k, r) \<in> set rs. root_record_ok r" and bs: "bs = cbor_encode L (bulk_ipld rs)"
    using assms(2) by (auto simp: encodeBulkRootRecords_def encodeCanonical_def res_simps bulk_schema_ipld split: if_splits)
  have fst_eq: "map fst (map (\<lambda>(k, r). (k, h r)) rs) = map fst rs" for h :: "bulk_root_record \<Rightarrow> 'b"
    by auto
  have ok: "ipld_ok (bulk_ipld rs)"
    using rr assms(3) fst_eq [of bulk_record_ipld]
    by (auto simp: bulk_ipld_def jwf_def ipld_ok_bulk_record split_beta simp del: map_map)
  let ?f = "\<lambda>(k, x). map_option (Pair k) (BulkFetchRootRecordSchema x)"
  let ?m = "sort_by key_le (map (map_prod id canon) (map (\<lambda>(k, r). (k, bulk_record_ipld r)) rs))"
  define g where "g = (\<lambda>(k :: string, x). (k, the (BulkFetchRootRecordSchema x)))"
  have f: "?f p = Some (g p)" if "p \<in> set ?m" for p
    using that rr by (auto simp: g_def BulkFetchRootRecordSchema_canon ipld_ok_bulk_record
        BulkFetchRootRecordSchema_ipld)
  have "opt_map ?f ?m = Some (map g ?m)" using f by (rule opt_map_total)
  then have dec: "decodeBulkRootRecords L bs = Inr (map g ?m)"
    unfolding decodeBulkRootRecords_def bs cbor_roundtrip [OF assms(1) ok]
    by (simp add: BulkRootRecordsSchema_def bulk_ipld_def)
  have "map g (map (map_prod id canon) (map (\<lambda>(k, r). (k, bulk_record_ipld r)) rs)) = rs"
    using rr by (auto simp: g_def BulkFetchRootRecordSchema_canon ipld_ok_bulk_record
        BulkFetchRootRecordSchema_ipld intro!: map_idI)
  then have ms: "mset (map g ?m) = mset rs" by (metis mset_map mset_sort_by)
  then have d: "jwf (map g ?m)"
    using assms(3) mset_eq_imp_distinct_iff [of "jkeys (map g ?m)" "jkeys rs"] unfolding jwf_def
    by (simp only: mset_map)
  moreover have "jget (map g ?m) k = jget rs k" for k
    using map_of_inject_set [THEN iffD2, OF d [unfolded jwf_def] assms(3) [unfolded jwf_def] mset_eq_setD [OF ms]]
    by (rule fun_cong)
  ultimately show ?thesis using dec by blast
qed

section \<open>Fetch keys\<close>

lemma rootFetchKey_inj: "rootFetchKey t = rootFetchKey u \<longleftrightarrow> t = u"
  by (simp add: rootFetchKey_def)

lemma rootFetchKey_not_bulk: "rootFetchKey t \<noteq> BULK_ROOTS_FETCH_KEY"
proof
  assume "rootFetchKey t = BULK_ROOTS_FETCH_KEY"
  then have "last (rootFetchKey t) = last BULK_ROOTS_FETCH_KEY" by simp
  then show False by (simp add: rootFetchKey_def ROOT_FETCH_KEY_SUFFIX_def BULK_ROOTS_FETCH_KEY_def)
qed

end
