(* ===== verification/Storage.thy ===== *)
theory Storage
  imports Fifo
begin

text \<open>
  The persistent caches (\<open>src/storage/\<close>): the in-memory LRU map, the sqlite backend of Node and
  the two-database backend of the browser, and the snapshot stores. The locale \<open>lru_storage\<close> is
  the \<open>LruStorage\<close> interface as its clients use it: a read returns what is stored, and any
  operation may forget other items but never alters them. All three backends are interpreted.

  \<open>'v\<close> is a JSON value (\<open>JSON.parse(JSON.stringify(v))\<close> is \<open>v\<close>); time is the argument \<open>now\<close>.
\<close>

section \<open>The interface\<close>

locale lru_storage =
  fixes getItem :: "nat \<Rightarrow> string \<Rightarrow> 's \<Rightarrow> ('s \<times> 'v option) res"
    and setItem :: "nat \<Rightarrow> string \<Rightarrow> 'v \<Rightarrow> 's \<Rightarrow> 's res"
    and removeItem :: "string \<Rightarrow> 's \<Rightarrow> 's res"
    and lookup :: "'s \<Rightarrow> string \<Rightarrow> 'v option"
    and ok :: "'s \<Rightarrow> bool"
  assumes getItem_law: "ok s \<Longrightarrow> getItem now k s = Inr (s', r) \<Longrightarrow>
      ok s' \<and> r = lookup s k \<and> (\<forall>k'. lookup s' k' = lookup s k' \<or> lookup s' k' = None)"
    and setItem_law: "ok s \<Longrightarrow> setItem now k v s = Inr s' \<Longrightarrow>
      ok s' \<and> (\<forall>k'. lookup s' k' = (if k' = k then Some v else lookup s k') \<or> lookup s' k' = None)"
    and removeItem_law: "ok s \<Longrightarrow> removeItem k s = Inr s' \<Longrightarrow>
      ok s' \<and> lookup s' = (lookup s)(k := None)"
begin

text \<open>What every stored value satisfies, every read value satisfies.\<close>

definition holds :: "(string \<Rightarrow> 'v \<Rightarrow> bool) \<Rightarrow> 's \<Rightarrow> bool" where
  "holds P s \<longleftrightarrow> (\<forall>k v. lookup s k = Some v \<longrightarrow> P k v)"

lemma holds_get: "ok s \<Longrightarrow> holds P s \<Longrightarrow> getItem now k s = Inr (s', r) \<Longrightarrow>
    holds P s' \<and> (\<forall>v. r = Some v \<longrightarrow> P k v)"
  using getItem_law [of s now k s' r] unfolding holds_def by (metis option.distinct(1))

lemma holds_set: "ok s \<Longrightarrow> holds P s \<Longrightarrow> P k v \<Longrightarrow> setItem now k v s = Inr s' \<Longrightarrow> holds P s'"
  using setItem_law [of s now k v s'] unfolding holds_def
  by (metis option.distinct(1) option.inject)

lemma holds_remove: "ok s \<Longrightarrow> holds P s \<Longrightarrow> removeItem k s = Inr s' \<Longrightarrow> holds P s'"
  using removeItem_law [of s k s'] unfolding holds_def by simp

end

section \<open>The in-memory backend\<close>

type_synonym 'v mem_lru = "(string, 'v) jsmap"

definition mem_touch :: "string \<Rightarrow> 'v \<Rightarrow> 'v mem_lru \<Rightarrow> 'v mem_lru" where
  "mem_touch k v items = jset k v (jdel k items)"

definition mem_getItem :: "string \<Rightarrow> 'v mem_lru \<Rightarrow> 'v mem_lru \<times> 'v option" where
  "mem_getItem k items =
     (case jget items k of None \<Rightarrow> (items, None) | Some v \<Rightarrow> (mem_touch k v items, Some v))"

definition mem_setItem :: "nat \<Rightarrow> string \<Rightarrow> 'v \<Rightarrow> 'v mem_lru \<Rightarrow> 'v mem_lru" where
  "mem_setItem maxItems k v items =
     (let items = mem_touch k v items in
      if maxItems < length items then jdel (fst (hd items)) items else items)"

definition mem_removeItem :: "string \<Rightarrow> 'v mem_lru \<Rightarrow> 'v mem_lru" where
  "mem_removeItem k items = jdel k items"

definition mem_keys :: "'v mem_lru \<Rightarrow> string list" where
  "mem_keys items = jkeys items"

definition mem_clear :: "'v mem_lru \<Rightarrow> 'v mem_lru" where
  "mem_clear items = []"

lemma mem_touch_eq: "mem_touch k v m = filter (\<lambda>kv. fst kv \<noteq> k) m @ [(k, v)]"
  by (auto simp: mem_touch_def jdel_filter intro!: jset_new)

lemma jwf_mem_touch: "jwf m \<Longrightarrow> jwf (mem_touch k v m)"
  by (auto simp: mem_touch_def)

lemma jget_mem_touch: "jget (mem_touch k v m) k' = (if k' = k then Some v else jget m k')"
  by (simp add: mem_touch_def jsmap_simps)

lemma jget_jdel_cases: "jget (jdel x m) k = jget m k \<or> jget (jdel x m) k = None"
  by (simp add: jsmap_simps)

lemma length_jdel_le: "length (jdel k m) \<le> length m"
  by (simp add: jdel_filter)

lemma jwf_mem_setItem: "jwf m \<Longrightarrow> jwf (mem_setItem n k v m)"
  by (auto simp: mem_setItem_def Let_def jwf_mem_touch)

lemma length_mem_touch: "length (mem_touch k v m) \<le> Suc (length m)"
  by (simp add: mem_touch_eq)

lemma mem_setItem_bound:
  assumes "jwf m" "length m \<le> n" "0 < n"
  shows "length (mem_setItem n k v m) \<le> n"
proof -
  have wf: "jwf (mem_touch k v m)" using assms(1) by (rule jwf_mem_touch)
  have ne: "mem_touch k v m \<noteq> []" by (simp add: mem_touch_eq)
  then have "jhas (mem_touch k v m) (fst (hd (mem_touch k v m)))" by (simp add: jhas_iff)
  from length_jdel [OF wf this] show ?thesis
    using length_mem_touch [of k v m] assms(2) by (auto simp: mem_setItem_def Let_def)
qed

text \<open>The entry just written is the last to go.\<close>

lemma mem_setItem_kept:
  assumes "0 < n"
  shows "jget (mem_setItem n k v m) k = Some v"
proof (cases "n < length (mem_touch k v m)")
  case True
  let ?m = "filter (\<lambda>kv. fst kv \<noteq> k) m"
  have "?m \<noteq> []" using True assms by (cases ?m) (auto simp: mem_touch_eq)
  then have "hd (mem_touch k v m) \<in> set ?m" using hd_in_set [of ?m] by (simp add: mem_touch_eq del: set_filter)
  then have "fst (hd (mem_touch k v m)) \<noteq> k" by auto
  with True show ?thesis by (simp add: mem_setItem_def Let_def jsmap_simps jget_mem_touch)
qed (simp add: mem_setItem_def jget_mem_touch)

interpretation memlru: lru_storage
  "\<lambda>now k s. Inr (mem_getItem k s)" "\<lambda>now k v s. Inr (mem_setItem n k v s)"
  "\<lambda>k s. Inr (mem_removeItem k s)" jget jwf for n
proof
  fix s s' :: "'a mem_lru" and k v r and now :: nat
  show "jwf s \<Longrightarrow> Inr (mem_getItem k s) = (Inr (s', r) :: ('a mem_lru \<times> 'a option) res) \<Longrightarrow>
      jwf s' \<and> r = jget s k \<and> (\<forall>k'. jget s' k' = jget s k' \<or> jget s' k' = None)"
    by (auto simp: mem_getItem_def jget_mem_touch jwf_mem_touch split: option.splits if_splits)
  show "jwf s \<Longrightarrow> Inr (mem_setItem n k v s) = (Inr s' :: 'a mem_lru res) \<Longrightarrow>
      jwf s' \<and> (\<forall>k'. jget s' k' = (if k' = k then Some v else jget s k') \<or> jget s' k' = None)"
    using jwf_mem_setItem [of s n k v]
    by (auto simp: mem_setItem_def Let_def jsmap_simps jget_mem_touch split: if_splits)
  show "jwf s \<Longrightarrow> Inr (mem_removeItem k s) = (Inr s' :: 'a mem_lru res) \<Longrightarrow>
      jwf s' \<and> jget s' = (jget s)(k := None)"
    by (auto simp: mem_removeItem_def jsmap_simps)
qed

section \<open>The sqlite backend\<close>

text \<open>
  The table \<open>cache(key, value, lastAccess)\<close> as an association list with unique keys. \<open>db_open\<close> is
  the driver opening the file; \<open>scan\<close> is the order in which sqlite returns rows for
  \<open>ORDER BY lastAccess DESC\<close>, whose ties the SQL leaves open.
\<close>

record 'v sqlite_lru =
  sq_open :: bool
  sq_closed :: bool
  sq_rows :: "(string, 'v \<times> nat) jsmap"

type_synonym 'v row = "string \<times> 'v \<times> nat"

definition last_access :: "'v row \<Rightarrow> nat" where
  "last_access r = snd (snd r)"

definition scan_ok :: "('v row list \<Rightarrow> 'v row list) \<Rightarrow> bool" where
  "scan_ok scan \<longleftrightarrow>
     (\<forall>rows. mset (scan rows) = mset rows \<and> sorted_wrt (\<lambda>a b. last_access b \<le> last_access a) (scan rows))"

definition sq_ensure :: "unit res \<Rightarrow> 'v sqlite_lru \<Rightarrow> 'v sqlite_lru res" where
  "sq_ensure db_open s =
     (if sq_open s then Inr s
      else if sq_closed s then Inl (PlainError ''storage is closed'')
      else sbind db_open (\<lambda>_. Inr (s\<lparr>sq_open := True\<rparr>)))"

definition sq_getItem :: "unit res \<Rightarrow> nat \<Rightarrow> string \<Rightarrow> 'v sqlite_lru \<Rightarrow> ('v sqlite_lru \<times> 'v option) res" where
  "sq_getItem db_open now k s =
     sbind (sq_ensure db_open s) (\<lambda>s.
       case jget (sq_rows s) k of
         None \<Rightarrow> Inr (s, None)
       | Some (v, t) \<Rightarrow> Inr (s\<lparr>sq_rows := jset k (v, now) (sq_rows s)\<rparr>, Some v))"

definition sq_evict :: "('v row list \<Rightarrow> 'v row list) \<Rightarrow> nat \<Rightarrow> 'v row list \<Rightarrow> 'v row list" where
  "sq_evict scan maxItems rows = filter (\<lambda>r. fst r \<notin> fst ` set (drop maxItems (scan rows))) rows"

definition sq_setItem ::
  "unit res \<Rightarrow> ('v row list \<Rightarrow> 'v row list) \<Rightarrow> nat \<Rightarrow> nat \<Rightarrow> string \<Rightarrow> 'v \<Rightarrow> 'v sqlite_lru \<Rightarrow> 'v sqlite_lru res" where
  "sq_setItem db_open scan maxItems now k v s =
     sbind (sq_ensure db_open s) (\<lambda>s.
       Inr (s\<lparr>sq_rows := sq_evict scan maxItems (jset k (v, now) (jdel k (sq_rows s)))\<rparr>))"

definition sq_removeItem :: "unit res \<Rightarrow> string \<Rightarrow> 'v sqlite_lru \<Rightarrow> 'v sqlite_lru res" where
  "sq_removeItem db_open k s =
     sbind (sq_ensure db_open s) (\<lambda>s. Inr (s\<lparr>sq_rows := jdel k (sq_rows s)\<rparr>))"

definition sq_keys :: "unit res \<Rightarrow> 'v sqlite_lru \<Rightarrow> string list res" where
  "sq_keys db_open s = sbind (sq_ensure db_open s) (\<lambda>s. Inr (jkeys (sq_rows s)))"

definition sq_clear :: "unit res \<Rightarrow> 'v sqlite_lru \<Rightarrow> 'v sqlite_lru res" where
  "sq_clear db_open s = sbind (sq_ensure db_open s) (\<lambda>s. Inr (s\<lparr>sq_rows := []\<rparr>))"

definition sq_close :: "'v sqlite_lru \<Rightarrow> 'v sqlite_lru" where
  "sq_close s = s\<lparr>sq_closed := True, sq_open := False\<rparr>"

definition sq_lookup :: "'v sqlite_lru \<Rightarrow> string \<Rightarrow> 'v option" where
  "sq_lookup s k = map_option fst (jget (sq_rows s) k)"

definition sq_wf :: "'v sqlite_lru \<Rightarrow> bool" where
  "sq_wf s \<longleftrightarrow> jwf (sq_rows s)"

lemma sq_ensure_rows: "sq_ensure db s = Inr s' \<Longrightarrow> sq_rows s' = sq_rows s"
  by (auto simp: sq_ensure_def res_simps split: if_splits)

lemma jget_filter_key: "jget (filter (\<lambda>r. P (fst r)) m) k = (if P k then jget m k else None)"
  by (induction m) auto

lemma sq_evict_get: "jget (sq_evict scan n rows) k = jget rows k \<or> jget (sq_evict scan n rows) k = None"
  using jget_filter_key [of "\<lambda>x. x \<notin> fst ` set (drop n (scan rows))" rows k] by (auto simp: sq_evict_def)

interpretation sqlite: lru_storage "sq_getItem db" "sq_setItem db scan n" "sq_removeItem db" sq_lookup sq_wf
  for db :: "unit res" and scan :: "'v row list \<Rightarrow> 'v row list" and n
proof
  fix s s' :: "'v sqlite_lru" and k v r now
  show "sq_wf s \<Longrightarrow> sq_getItem db now k s = Inr (s', r) \<Longrightarrow>
      sq_wf s' \<and> r = sq_lookup s k \<and> (\<forall>k'. sq_lookup s' k' = sq_lookup s k' \<or> sq_lookup s' k' = None)"
    by (cases "jget (sq_rows s) k")
       (auto simp: sq_getItem_def res_simps sq_wf_def sq_lookup_def jsmap_simps jwf_jset
        dest!: sq_ensure_rows split: if_splits)
  show "sq_wf s \<Longrightarrow> sq_setItem db scan n now k v s = Inr s' \<Longrightarrow>
      sq_wf s' \<and> (\<forall>k'. sq_lookup s' k' = (if k' = k then Some v else sq_lookup s k') \<or> sq_lookup s' k' = None)"
  proof -
    assume wf: "sq_wf s" and run: "sq_setItem db scan n now k v s = Inr s'"
    let ?m = "jset k (v, now) (jdel k (sq_rows s))"
    have s': "sq_rows s' = sq_evict scan n ?m"
      using run by (auto simp: sq_setItem_def res_simps dest!: sq_ensure_rows)
    have "sq_wf s'" using wf unfolding sq_wf_def s' by (auto simp: sq_evict_def)
    moreover have "sq_lookup s' k' = (if k' = k then Some v else sq_lookup s k') \<or> sq_lookup s' k' = None" for k'
      using sq_evict_get [of scan n ?m k'] unfolding sq_lookup_def s' by (auto simp: jsmap_simps)
    ultimately show ?thesis by blast
  qed
  show "sq_wf s \<Longrightarrow> sq_removeItem db k s = Inr s' \<Longrightarrow> sq_wf s' \<and> sq_lookup s' = (sq_lookup s)(k := None)"
    by (auto simp: sq_removeItem_def res_simps sq_wf_def sq_lookup_def jsmap_simps dest!: sq_ensure_rows)
qed

lemma sq_evict_bound:
  assumes "scan_ok scan" "jwf rows"
  shows "length (sq_evict scan n rows) \<le> n"
proof -
  have "mset (scan rows) = mset rows" using assms(1) by (simp add: scan_ok_def)
  then have eq: "set (scan rows) = set rows" "distinct (jkeys (scan rows))"
    using assms(2) by (metis set_mset_mset, metis jwf_def mset_map mset_eq_imp_distinct_iff)
  have "set (sq_evict scan n rows) \<subseteq> set (take n (scan rows))"
  proof
    fix r assume r: "r \<in> set (sq_evict scan n rows)"
    then have "r \<in> set (scan rows)" "r \<notin> set (drop n (scan rows))" by (auto simp: sq_evict_def eq)
    then show "r \<in> set (take n (scan rows))" by (metis append_take_drop_id Un_iff set_append)
  qed
  then have "card (set (sq_evict scan n rows)) \<le> card (set (take n (scan rows)))"
    by (intro card_mono) auto
  also have "\<dots> \<le> n" by (rule order_trans [OF card_length]) simp
  finally have "card (set (sq_evict scan n rows)) \<le> n" .
  moreover have "distinct (sq_evict scan n rows)"
    using assms(2) by (simp add: sq_evict_def jwf_def distinct_map)
  ultimately show ?thesis using distinct_card by metis
qed

text \<open>Eviction spares the more recently used: whatever stays is at least as recent as whatever goes.\<close>

lemma sq_evict_recent:
  assumes "scan_ok scan" "jwf rows" "a \<in> set (sq_evict scan n rows)"
    and "b \<in> set rows" "b \<notin> set (sq_evict scan n rows)"
  shows "last_access b \<le> last_access a"
proof -
  have ms: "mset (scan rows) = mset rows"
    and srt: "sorted_wrt (\<lambda>a b. last_access b \<le> last_access a) (scan rows)"
    using assms(1) by (simp_all add: scan_ok_def)
  then have eq: "set (scan rows) = set rows" by (metis set_mset_mset)
  have "a \<in> set (scan rows)" "a \<notin> set (drop n (scan rows))" using assms(3) by (auto simp: sq_evict_def eq)
  then have a: "a \<in> set (take n (scan rows))" by (metis append_take_drop_id Un_iff set_append)
  from assms(4,5) obtain b' where b': "b' \<in> set (drop n (scan rows))" "fst b' = fst b"
    by (auto simp: sq_evict_def)
  then have "b' \<in> set rows" using eq in_set_dropD by metis
  with b'(2) assms(2,4) have "b' = b" unfolding jwf_def distinct_map by (blast dest: inj_onD)
  with b' have b: "b \<in> set (drop n (scan rows))" by simp
  from srt have "sorted_wrt (\<lambda>a b. last_access b \<le> last_access a) (take n (scan rows) @ drop n (scan rows))"
    by simp
  with a b show ?thesis unfolding sorted_wrt_append by blast
qed

section \<open>The browser backend\<close>

text \<open>Two databases that swap roles: \<open>lf_active\<close> takes the writes, \<open>lf_inactive\<close> is the older
  half. The record is the state after \<open>#init\<close>.\<close>

record 'v lf_lru =
  lf_active :: "(string, 'v) jsmap"
  lf_inactive :: "(string, 'v) jsmap"
  lf_activeSize :: nat

definition lf_init :: "nat \<Rightarrow> (string, 'v) jsmap \<Rightarrow> (string, 'v) jsmap \<Rightarrow> 'v lf_lru" where
  "lf_init maxItems database1 database2 =
     (let size1 = length database1; size2 = length database2;
          (active, inactive) =
            (if (size2 \<le> size1 \<and> size1 \<noteq> maxItems) \<or> size2 = maxItems
             then (database1, database2) else (database2, database1))
      in \<lparr>lf_active = active, lf_inactive = inactive, lf_activeSize = length active\<rparr>)"

definition lf_swap :: "'v lf_lru \<Rightarrow> 'v lf_lru" where
  "lf_swap s = \<lparr>lf_active = [], lf_inactive = lf_active s, lf_activeSize = 0\<rparr>"

definition lf_grow :: "nat \<Rightarrow> 'v lf_lru \<Rightarrow> 'v lf_lru" where
  "lf_grow maxItems s =
     (let s = s\<lparr>lf_activeSize := lf_activeSize s + 1\<rparr> in
      if maxItems \<le> lf_activeSize s then
        let s = s\<lparr>lf_activeSize := length (lf_active s)\<rparr> in
        if maxItems \<le> lf_activeSize s then lf_swap s else s
      else s)"

definition lf_setItem :: "nat \<Rightarrow> string \<Rightarrow> 'v \<Rightarrow> 'v lf_lru \<Rightarrow> 'v lf_lru" where
  "lf_setItem maxItems k v s =
     (let existing = jget (lf_active s) k;
          s = s\<lparr>lf_active := jset k v (lf_active s)\<rparr>
      in if existing = None then lf_grow maxItems s else s)"

definition lf_getItem :: "nat \<Rightarrow> string \<Rightarrow> 'v lf_lru \<Rightarrow> 'v lf_lru \<times> 'v option" where
  "lf_getItem maxItems k s =
     (case jget (lf_active s) k of
        Some v \<Rightarrow> (s, Some v)
      | None \<Rightarrow>
          (case jget (lf_inactive s) k of
             None \<Rightarrow> (s, None)
           | Some older \<Rightarrow> (lf_setItem maxItems k older s, Some older)))"

definition lf_removeItem :: "string \<Rightarrow> 'v lf_lru \<Rightarrow> 'v lf_lru" where
  "lf_removeItem k s = s\<lparr>lf_active := jdel k (lf_active s), lf_inactive := jdel k (lf_inactive s)\<rparr>"

definition lf_keys :: "'v lf_lru \<Rightarrow> string list" where
  "lf_keys s = fold sadd (jkeys (lf_active s) @ jkeys (lf_inactive s)) []"

definition lf_clear :: "'v lf_lru \<Rightarrow> 'v lf_lru" where
  "lf_clear s = s\<lparr>lf_active := [], lf_inactive := []\<rparr>"

definition lf_lookup :: "'v lf_lru \<Rightarrow> string \<Rightarrow> 'v option" where
  "lf_lookup s k = (case jget (lf_active s) k of Some v \<Rightarrow> Some v | None \<Rightarrow> jget (lf_inactive s) k)"

definition lf_wf :: "nat \<Rightarrow> 'v lf_lru \<Rightarrow> bool" where
  "lf_wf n s \<longleftrightarrow> length (lf_active s) \<le> lf_activeSize s \<and> lf_activeSize s < n \<and> length (lf_inactive s) \<le> n"

lemma lf_setItem_wf:
  assumes "lf_wf n s"
  shows "lf_wf n (lf_setItem n k v s)"
proof (cases "jget (lf_active s) k")
  case None
  have "length (jset k v (lf_active s)) = Suc (length (lf_active s))"
    using None by (simp add: length_jset jhas_def)
  with None assms show ?thesis
    by (auto simp: lf_wf_def lf_setItem_def lf_grow_def lf_swap_def Let_def)
next
  case (Some w)
  then have "length (jset k v (lf_active s)) = length (lf_active s)"
    by (simp add: length_jset jhas_def)
  with Some assms show ?thesis by (simp add: lf_wf_def lf_setItem_def)
qed

lemma lf_getItem_wf: "lf_wf n s \<Longrightarrow> lf_wf n (fst (lf_getItem n k s))"
  by (auto simp: lf_getItem_def lf_setItem_wf split: option.splits)

lemma lf_removeItem_wf: "lf_wf n s \<Longrightarrow> lf_wf n (lf_removeItem k s)"
  using length_jdel_le [of k "lf_active s"] length_jdel_le [of k "lf_inactive s"]
  by (auto simp: lf_wf_def lf_removeItem_def)

text \<open>A restart finds the two halves in a state it can go on from.\<close>

lemma lf_init_wf:
  assumes "lf_wf n s"
  shows "lf_wf n (lf_init n (lf_active s) (lf_inactive s))"
    and "lf_wf n (lf_init n (lf_inactive s) (lf_active s))"
  using assms by (auto simp: lf_wf_def lf_init_def Let_def)

lemma lf_setItem_lookup:
  "lf_lookup (lf_setItem n k v s) k' = (if k' = k then Some v else lf_lookup s k') \<or>
   lf_lookup (lf_setItem n k v s) k' = None"
  by (cases "jget (lf_active s) k'")
     (auto simp: lf_setItem_def lf_grow_def lf_swap_def lf_lookup_def Let_def jsmap_simps)

text \<open>Unlike the other backends, a write here is never lost to the eviction it triggers.\<close>

lemma lf_setItem_kept: "lf_lookup (lf_setItem n k v s) k = Some v"
  by (auto simp: lf_setItem_def lf_grow_def lf_swap_def lf_lookup_def Let_def jsmap_simps)

lemma lf_getItem_lookup:
  "lf_lookup (fst (lf_getItem n k s)) k' = lf_lookup s k' \<or> lf_lookup (fst (lf_getItem n k s)) k' = None"
proof (cases "jget (lf_active s) k")
  case None
  show ?thesis
  proof (cases "jget (lf_inactive s) k")
    case (Some older)
    have "lf_lookup s k = Some older" using None Some by (simp add: lf_lookup_def)
    then show ?thesis
      using lf_setItem_lookup [of n k older s k'] None Some by (auto simp: lf_getItem_def split: if_splits)
  qed (simp add: lf_getItem_def None)
qed (simp add: lf_getItem_def)

interpretation browser: lru_storage
  "\<lambda>now k s. Inr (lf_getItem n k s)" "\<lambda>now k v s. Inr (lf_setItem n k v s)"
  "\<lambda>k s. Inr (lf_removeItem k s)" lf_lookup "lf_wf n" for n
proof
  fix s s' :: "'a lf_lru" and k v r and now :: nat
  assume wf: "lf_wf n s"
  {
    assume "Inr (lf_getItem n k s) = (Inr (s', r) :: ('a lf_lru \<times> 'a option) res)"
    then have g: "lf_getItem n k s = (s', r)" by simp
    have "lf_lookup s' k' = lf_lookup s k' \<or> lf_lookup s' k' = None" for k'
      using g lf_getItem_lookup [of n k s k'] by simp
    moreover have "r = lf_lookup s k"
      using g by (auto simp: lf_getItem_def lf_lookup_def split: option.splits)
    ultimately show "lf_wf n s' \<and> r = lf_lookup s k \<and> (\<forall>k'. lf_lookup s' k' = lf_lookup s k' \<or> lf_lookup s' k' = None)"
      using g lf_getItem_wf [OF wf, of k] by simp
  }
  show "Inr (lf_setItem n k v s) = (Inr s' :: 'a lf_lru res) \<Longrightarrow>
      lf_wf n s' \<and> (\<forall>k'. lf_lookup s' k' = (if k' = k then Some v else lf_lookup s k') \<or> lf_lookup s' k' = None)"
  proof -
    assume "Inr (lf_setItem n k v s) = (Inr s' :: 'a lf_lru res)"
    then have s': "s' = lf_setItem n k v s" by simp
    show ?thesis
      unfolding s' using lf_setItem_wf [OF wf] lf_setItem_lookup by (intro conjI allI)
  qed
  show "Inr (lf_removeItem k s) = (Inr s' :: 'a lf_lru res) \<Longrightarrow>
      lf_wf n s' \<and> lf_lookup s' = (lf_lookup s)(k := None)"
    using lf_removeItem_wf [OF wf, of k]
    by (auto simp: lf_removeItem_def lf_lookup_def jsmap_simps fun_eq_iff split: option.splits)
qed

section \<open>Snapshot stores\<close>

text \<open>One blob per topic, never evicted: the memory map, and the sqlite table with its closed flag.\<close>

type_synonym mem_snapshots = "(string, bytes) jsmap"

definition snap_get :: "string \<Rightarrow> mem_snapshots \<Rightarrow> bytes option" where
  "snap_get k blobs = jget blobs k"

definition snap_set :: "string \<Rightarrow> bytes \<Rightarrow> mem_snapshots \<Rightarrow> mem_snapshots" where
  "snap_set k bs blobs = jset k bs blobs"

definition snap_remove :: "string \<Rightarrow> mem_snapshots \<Rightarrow> mem_snapshots" where
  "snap_remove k blobs = jdel k blobs"

record sqlite_snapshots =
  ss_open :: bool
  ss_closed :: bool
  ss_rows :: "(string, bytes) jsmap"

definition ss_ensure :: "unit res \<Rightarrow> sqlite_snapshots \<Rightarrow> sqlite_snapshots res" where
  "ss_ensure db_open s =
     (if ss_open s then Inr s
      else if ss_closed s then Inl (PlainError ''storage is closed'')
      else sbind db_open (\<lambda>_. Inr (s\<lparr>ss_open := True\<rparr>)))"

definition ss_get :: "unit res \<Rightarrow> string \<Rightarrow> sqlite_snapshots \<Rightarrow> (sqlite_snapshots \<times> bytes option) res" where
  "ss_get db_open k s = sbind (ss_ensure db_open s) (\<lambda>s. Inr (s, jget (ss_rows s) k))"

definition ss_set :: "unit res \<Rightarrow> string \<Rightarrow> bytes \<Rightarrow> sqlite_snapshots \<Rightarrow> sqlite_snapshots res" where
  "ss_set db_open k bs s =
     sbind (ss_ensure db_open s) (\<lambda>s. Inr (s\<lparr>ss_rows := jset k bs (jdel k (ss_rows s))\<rparr>))"

definition ss_remove :: "unit res \<Rightarrow> string \<Rightarrow> sqlite_snapshots \<Rightarrow> sqlite_snapshots res" where
  "ss_remove db_open k s =
     sbind (ss_ensure db_open s) (\<lambda>s. Inr (s\<lparr>ss_rows := jdel k (ss_rows s)\<rparr>))"

definition ss_close :: "sqlite_snapshots \<Rightarrow> sqlite_snapshots" where
  "ss_close s = s\<lparr>ss_closed := True, ss_open := False\<rparr>"

lemma ss_ensure_rows: "ss_ensure db s = Inr s' \<Longrightarrow> ss_rows s' = ss_rows s \<and> ss_open s'"
  by (auto simp: ss_ensure_def res_simps split: if_splits)

lemma ss_get_set:
  "ss_set db k bs s = Inr s' \<Longrightarrow> ss_get db' k' s' = Inr (s', if k' = k then Some bs else jget (ss_rows s) k')"
  by (auto simp: ss_set_def ss_get_def res_simps ss_ensure_def jsmap_simps split: if_splits)

text \<open>Nothing reopens a closed store.\<close>

lemma ss_closed_throws:
  "ss_get db k (ss_close s) = Inl (PlainError ''storage is closed'')"
  "ss_set db k bs (ss_close s) = Inl (PlainError ''storage is closed'')"
  "ss_remove db k (ss_close s) = Inl (PlainError ''storage is closed'')"
  by (simp_all add: ss_get_def ss_set_def ss_remove_def ss_ensure_def ss_close_def)

lemma sq_closed_throws:
  "sq_getItem db now k (sq_close s) = Inl (PlainError ''storage is closed'')"
  "sq_setItem db scan n now k v (sq_close s) = Inl (PlainError ''storage is closed'')"
  "sq_removeItem db k (sq_close s) = Inl (PlainError ''storage is closed'')"
  "sq_keys db (sq_close s) = Inl (PlainError ''storage is closed'')"
  by (simp_all add: sq_getItem_def sq_setItem_def sq_removeItem_def sq_keys_def sq_ensure_def sq_close_def)

section \<open>Named stores\<close>

text \<open>\<open>openLru\<close>: the store registered under a name is opened once and shared; \<open>mk\<close> builds one.\<close>

definition openLru :: "(nat \<Rightarrow> 's) \<Rightarrow> string \<Rightarrow> nat \<Rightarrow> (string, 's) jsmap \<Rightarrow> (string, 's) jsmap \<times> 's" where
  "openLru mk cacheName maxItems stores =
     (case jget stores cacheName of
        Some store \<Rightarrow> (stores, store)
      | None \<Rightarrow> let store = mk maxItems in (jset cacheName store stores, store))"

definition defaultDataPath :: "string \<Rightarrow> string" where
  "defaultDataPath cwd = cwd @ ''/.bitsocial-pubsub-voting''"

lemma openLru_shared:
  assumes "openLru mk name n stores = (stores', store)"
  shows "openLru mk' name n' stores' = (stores', store)"
  using assms by (auto simp: openLru_def Let_def jsmap_simps split: option.splits)

end
