(* ===== verification/Sample_Lib.thy ===== *)
theory Sample_Lib
  imports Bundle_Codec
begin

text \<open>
  A concrete instance of the library parameters, for the closed instances of theorems that take
  them: a self-delimiting tag-and-length serialisation stands for dag-cbor, hexadecimal behind
  the multibase prefix for base58btc, the identity for the digest. \<open>sample_cbor_laws\<close> and
  \<open>sample_b58_laws\<close> show that it satisfies the hypotheses made about the libraries.
\<close>

definition ser_nat :: "nat \<Rightarrow> bytes" where
  "ser_nat n = replicate n 1 @ [0]"

definition ser_string :: "string \<Rightarrow> bytes" where
  "ser_string s = ser_nat (length s) @ map (\<lambda>c. word_of_nat (of_char c)) s"

primrec ser :: "ipld \<Rightarrow> bytes" where
  "ser INull = [0]"
| "ser (IBool b) = [1, if b then 1 else 0]"
| "ser (IInt i) = [2, if i < 0 then 1 else 0] @ ser_nat (nat \<bar>i\<bar>)"
| "ser (IFloat b) = 3 # ser_nat (length b) @ b"
| "ser (IStr s) = 4 # ser_string s"
| "ser (IBytes b) = 5 # ser_nat (length b) @ b"
| "ser (ILink c) = 6 # ser_nat (length c) @ c"
| "ser (IList xs) = 7 # ser_nat (length xs) @ concat (map ser xs)"
| "ser (IMap m) = 8 # ser_nat (length m) @
     concat (map (\<lambda>p. ser_string (fst p) @ snd p) (map (map_prod id ser) m))"

fun de_nat :: "bytes \<Rightarrow> (nat \<times> bytes) option" where
  "de_nat [] = None"
| "de_nat (b # r) = (if b = 0 then Some (0, r) else map_option (map_prod Suc id) (de_nat r))"

definition de_block :: "bytes \<Rightarrow> (bytes \<times> bytes) option" where
  "de_block bs =
     Option.bind (de_nat bs) (\<lambda>(n, r). if length r < n then None else Some (take n r, drop n r))"

definition de_string :: "bytes \<Rightarrow> (string \<times> bytes) option" where
  "de_string bs = map_option (map_prod (map (\<lambda>b. char_of (unat b))) id) (de_block bs)"

primrec de_many :: "(bytes \<Rightarrow> ('a \<times> bytes) option) \<Rightarrow> nat \<Rightarrow> bytes \<Rightarrow> ('a list \<times> bytes) option" where
  "de_many p 0 bs = Some ([], bs)"
| "de_many p (Suc n) bs =
     Option.bind (p bs) (\<lambda>(x, r). map_option (map_prod ((#) x) id) (de_many p n r))"

definition de_pair :: "(bytes \<Rightarrow> (ipld \<times> bytes) option) \<Rightarrow> bytes \<Rightarrow> ((string \<times> ipld) \<times> bytes) option" where
  "de_pair p bs =
     Option.bind (de_string bs) (\<lambda>(k, r). map_option (map_prod (Pair k) id) (p r))"

definition de_tag :: "(bytes \<Rightarrow> (ipld \<times> bytes) option) \<Rightarrow> byte \<Rightarrow> bytes \<Rightarrow> (ipld \<times> bytes) option" where
  "de_tag p t r =
     (if t = 0 then Some (INull, r)
      else if t = 1 then (case r of [] \<Rightarrow> None | b # r' \<Rightarrow> Some (IBool (b \<noteq> 0), r'))
      else if t = 2 then
        (case r of [] \<Rightarrow> None
         | s # r' \<Rightarrow> map_option (map_prod (\<lambda>n. IInt (if s = 0 then int n else - int n)) id) (de_nat r'))
      else if t = 3 then map_option (map_prod IFloat id) (de_block r)
      else if t = 4 then map_option (map_prod IStr id) (de_string r)
      else if t = 5 then map_option (map_prod IBytes id) (de_block r)
      else if t = 6 then map_option (map_prod ILink id) (de_block r)
      else if t = 7 then
        Option.bind (de_nat r) (\<lambda>(n, r'). map_option (map_prod IList id) (de_many p n r'))
      else if t = 8 then
        Option.bind (de_nat r) (\<lambda>(n, r'). map_option (map_prod IMap id) (de_many (de_pair p) n r'))
      else None)"

primrec de :: "nat \<Rightarrow> bytes \<Rightarrow> (ipld \<times> bytes) option" where
  "de 0 bs = None"
| "de (Suc f) bs = (case bs of [] \<Rightarrow> None | t # r \<Rightarrow> de_tag (de f) t r)"

definition sample_decode :: "bytes \<Rightarrow> ipld option" where
  "sample_decode bs =
     (case de (length bs) bs of Some (v, []) \<Rightarrow> Some v | _ \<Rightarrow> None)"

definition sample_b58decode :: "string \<Rightarrow> bytes option" where
  "sample_b58decode s =
     (case s of [] \<Rightarrow> None
      | c # t \<Rightarrow> if c = CHR ''z'' \<and> to_lower t = t then bytes_of_hex t else None)"

definition sample_lib :: lib where
  "sample_lib = \<lparr>cbor_encode = (\<lambda>v. ser (canon v)), cbor_decode = sample_decode,
     sha256 = id, create_v1 = (\<lambda>code d. word_of_nat code # d),
     b58encode = (\<lambda>bs. CHR ''z'' # hex_of_bytes bs), b58decode = sample_b58decode,
     digest_ok = (\<lambda>bs. bs \<noteq> []), cid_str = hex_of_bytes\<rparr>"

section \<open>It satisfies the laws\<close>

lemma de_nat_ser [simp]: "de_nat (ser_nat n @ r) = Some (n, r)"
  by (induction n) (simp_all add: ser_nat_def)

lemma de_block_ser [simp]: "de_block (ser_nat (length b) @ b @ r) = Some (b, r)"
  by (simp add: de_block_def)

lemma de_string_ser [simp]: "de_string (ser_string s @ r) = Some (s, r)"
proof -
  have c: "char_of (unat (word_of_nat (of_char c) :: byte)) = c" for c :: char
    by (simp add: unat_of_nat)
  have "de_block (ser_nat (length (map (\<lambda>c. word_of_nat (of_char c) :: byte) s)) @
      map (\<lambda>c. word_of_nat (of_char c)) s @ r) = Some (map (\<lambda>c. word_of_nat (of_char c)) s, r)"
    by (rule de_block_ser)
  then show ?thesis by (simp add: de_string_def ser_string_def comp_def c)
qed

primrec depth :: "ipld \<Rightarrow> nat" where
  "depth INull = 1"
| "depth (IBool b) = 1"
| "depth (IInt i) = 1"
| "depth (IFloat b) = 1"
| "depth (IStr s) = 1"
| "depth (IBytes b) = 1"
| "depth (ILink c) = 1"
| "depth (IList xs) = Suc (sum_list (map depth xs))"
| "depth (IMap m) = Suc (sum_list (map snd (map (map_prod id depth) m)))"

lemma sum_list_le_length_concat:
  "(\<And>x. x \<in> set xs \<Longrightarrow> f x \<le> length (g x)) \<Longrightarrow> sum_list (map f xs) \<le> length (concat (map g xs))"
  by (induction xs) (auto intro: add_mono)

lemma depth_ser: "depth v \<le> length (ser v)"
proof (induction v)
  case (IList xs)
  then have "sum_list (map depth xs) \<le> length (concat (map ser xs))"
    by (rule sum_list_le_length_concat)
  then show ?case by simp
next
  case (IMap m)
  have "(depth \<circ> snd) p \<le> length (ser_string (fst p) @ ser (snd p))" if "p \<in> set m" for p
    using IMap [of p "snd p"] that by (cases p) (auto intro: trans_le_add2)
  then have "sum_list (map (depth \<circ> snd) m)
      \<le> length (concat (map (\<lambda>p. ser_string (fst p) @ ser (snd p)) m))"
    by (rule sum_list_le_length_concat)
  then show ?case by (simp add: comp_def)
qed simp_all

lemma de_many_ser:
  assumes "\<And>x r. x \<in> set xs \<Longrightarrow> p (s x @ r) = Some (x, r)"
  shows "de_many p (length xs) (concat (map s xs) @ r) = Some (xs, r)"
  using assms by (induction xs) simp_all

lemma member_le_sum: "x \<in> set xs \<Longrightarrow> (f x :: nat) \<le> sum_list (map f xs)"
  by (induction xs) auto

lemma de_ser: "depth v \<le> f \<Longrightarrow> de f (ser v @ r) = Some (v, r)"
proof (induction f arbitrary: v r)
  case 0
  then show ?case by (cases v) auto
next
  case (Suc f)
  show ?case
  proof (cases v)
    case (IList xs)
    have "de f (ser x @ r) = Some (x, r)" if "x \<in> set xs" for x r
      using Suc IList member_le_sum [OF that, of depth] by auto
    then have "de_many (de f) (length xs) (concat (map ser xs) @ r) = Some (xs, r)"
      by (rule de_many_ser)
    with IList show ?thesis by (simp add: de_tag_def)
  next
    case (IMap m)
    let ?s = "\<lambda>p. ser_string (fst p) @ ser (snd p)"
    have "de_pair (de f) (?s p @ r) = Some (p, r)" if "p \<in> set m" for p r
      using Suc IMap member_le_sum [OF that, of "depth \<circ> snd"]
      by (auto simp: de_pair_def comp_def)
    then have "de_many (de_pair (de f)) (length m) (concat (map ?s m) @ r) = Some (m, r)"
      by (rule de_many_ser)
    with IMap show ?thesis by (simp add: de_tag_def comp_def)
  qed (auto simp: de_tag_def)
qed

lemma sample_decode_ser: "sample_decode (ser v) = Some v"
  using de_ser [OF depth_ser, of v "[]"] by (simp add: sample_decode_def)

lemma sample_cbor_laws: "cbor_laws sample_lib"
  by (simp add: cbor_laws_def sample_lib_def sample_decode_ser)

lemma hex_of_bytes_lower: "to_lower (hex_of_bytes bs) = hex_of_bytes bs"
  using hex_of_bytes_of_hex [OF bytes_of_hex_of_bytes] by simp

lemma sample_b58_laws: "b58_laws sample_lib"
  by (auto simp: b58_laws_def sample_lib_def sample_b58decode_def hex_of_bytes_lower
      bytes_of_hex_of_bytes dest: hex_of_bytes_of_hex split: list.splits if_splits)

lemma sample_cid_inj: "inj (bundleCidForBytes sample_lib)"
  by (rule injI) (simp add: bundleCidForBytes_def sample_lib_def)

end
