(* ===== verification/Wire_Properties.thy ===== *)
theory Wire_Properties
  imports Messages Storage Sample_Lib Bucket
begin

text \<open>
  The properties of the data the nodes exchange and hold: convergence and pruning of the working
  set, the bundle, checkpoint, snapshot and message codecs, the criteria schema and the storage
  backends. Each rests on the lemmas of its component; the closed instances use \<open>sample_lib\<close> and
  the bundles below.
\<close>

section \<open>Bundles for the closed instances\<close>

definition sample_vote :: vote where
  "sample_vote = \<lparr>v_community = \<lparr>com_name = Some ''a.b'', com_publicKey = ''ab''\<rparr>, v_vote = 1\<rparr>"

definition sample_bundle :: "byte \<Rightarrow> nat \<Rightarrow> votes_bundle" where
  "sample_bundle a n =
     \<lparr>b_address = bytesToHex (replicate 20 a), b_votes = [sample_vote], b_blockNumber = n,
      b_signature = \<lparr>sig_signature = bytesToHex (replicate 65 1), sig_type = ''eip712''\<rparr>\<rparr>"

lemma sample_vote_ok: "vote_ok sample_lib sample_vote"
proof -
  have "isDottedDomain ''a.b''" "isB58IpnsKey sample_lib ''ab''" by code_simp+
  then show ?thesis
    by (simp add: vote_ok_def community_ok_def name_ok_def sample_vote_def max_name_length_def
        safe_int_def max_safe_integer_def)
qed

lemma sample_bundle_ok: "n \<le> max_safe_integer \<Longrightarrow> votes_bundle_ok sample_lib (sample_bundle a n)"
  using sample_vote_ok by (simp add: votes_bundle_ok_def sample_bundle_def bytesToHex_def signature_ok_def)

lemma sample_bundle_wire: "n \<le> max_safe_integer \<Longrightarrow> \<exists>w. toWireBundle sample_lib (sample_bundle a n) = Inr w"
proof -
  assume n: "n \<le> max_safe_integer"
  have "\<exists>w. toWireVote sample_lib sample_vote = Inr w"
    by (simp add: toWireVote_def sample_vote_def publicKeyToBytes_def sample_lib_def sample_b58decode_def
        to_lower_def lower_char_def hex_value_def res_simps)
  then obtain w where "toWireVote sample_lib sample_vote = Inr w" ..
  with sample_bundle_ok [OF n] show ?thesis
    by (simp add: toWireBundle_def sample_bundle_def ADDRESS_BYTES_def SIGNATURE_BYTES_def)
qed

lemma sample_bundle_encodes: "n \<le> max_safe_integer \<Longrightarrow> \<exists>bs. encodeBundle sample_lib (sample_bundle a n) = Inr bs"
  using sample_bundle_wire [of n a] by (auto simp: encodeBundle_def)

definition sample_pair :: crdt where
  "sample_pair = \<lparr>bundles = [([1], \<lparr>e_cid = [1], e_bundle = sample_bundle 1 7\<rparr>),
                             ([2], \<lparr>e_cid = [2], e_bundle = sample_bundle 1 8\<rparr>)]\<rparr>"

lemma sample_pair_wf: "crdt_wf sample_pair"
  by (simp add: crdt_wf_def sample_pair_def jwf_def)

text \<open>A checkpoint of bundles that encode encodes.\<close>

lemma fill_chunks_succeeds:
  "\<forall>b \<in> set bs. \<exists>enc. encodeBundle L b = Inr enc \<Longrightarrow> \<exists>out. fill_chunks L m bs chunks cur n = Inr out"
  by (induction L m bs chunks cur n rule: fill_chunks.induct) (auto simp: Let_def)

lemma traverse_exists_Inr: "(\<And>x. x \<in> set xs \<Longrightarrow> \<exists>y. f x = Inr y) \<Longrightarrow> \<exists>ys. traverse f xs = Inr ys"
  by (induction xs) (auto, fastforce)

lemma encodeCheckpoint_total:
  assumes "\<forall>b \<in> set ws. \<exists>w. toWireBundle L b = Inr w"
  shows "\<exists>e. encodeCheckpoint L ws m = Inr e"
proof -
  have sorted: "set (sort_winners ws) = set ws" by (simp add: sort_winners_def)
  then have enc: "\<forall>b \<in> set (sort_winners ws). \<exists>enc. encodeBundle L b = Inr enc"
    using assms by (auto simp: encodeBundle_def res_simps)
  from fill_chunks_succeeds [OF enc] obtain out where out: "fill_chunks L m (sort_winners ws) [] [] 0 = Inr out" ..
  have "set (concat out) = set ws"
    using fill_chunks_spec [OF out] sorted by (simp add: chunk_bytes_def)
  then have "\<exists>blk. chunk_block L c = Inr blk" if "c \<in> set out" for c
    using traverse_exists_Inr [of c "toWireBundle L"] assms that by (fastforce simp: chunk_block_def)
  from traverse_exists_Inr [of out "chunk_block L", OF this] out show ?thesis
    by (auto simp: encodeCheckpoint_def Let_def)
qed

lemma sample_checkpoint_encodes: "\<exists>e. encodeCheckpoint sample_lib [sample_bundle 2 7, sample_bundle 1 9] m = Inr e"
  by (rule encodeCheckpoint_total) (simp add: sample_bundle_wire max_safe_integer_def)

section \<open>The working set\<close>

lemma entries_of_content:
  assumes "from_content content s"
  shows "entries s = entry_for content ` (e_cid ` entries s)"
proof -
  have "entry_for content (e_cid e) = e" if "e \<in> entries s" for e
  proof -
    have "e_bundle e = content (e_cid e)" using assms that by (simp add: from_content_def)
    then show ?thesis by (cases e) (simp add: entry_for_def)
  qed
  then show ?thesis by (simp add: image_image)
qed

lemma merge_entries:
  assumes "crdt_wf s" "from_content content s" "\<forall>c \<in> set cs. get c = Inr (Some (content c))"
  shows "crdt_wf (fst (merge get cs s)) \<and> snd (merge get cs s) = Inr () \<and>
    entries (fst (merge get cs s)) = entry_for content ` (set cs \<union> e_cid ` entries s)"
proof -
  from merge_content [OF assms(1,2), of cs get] assms(3) obtain s' where s':
    "merge get cs s = (s', Inr ())" "crdt_wf s'" "entries s' = entry_for content ` set cs \<union> entries s" by blast
  have "entries s' = entry_for content ` (set cs \<union> e_cid ` entries s)"
    unfolding s'(3) image_Un using entries_of_content [OF assms(2)] by simp
  with s' show ?thesis by simp
qed

text \<open>C1: Convergence. Two replicas that end up having merged the same CIDs, over whatever stores, in
  whatever order, from whatever they held before, and however often each was delivered, show the
  same current entries at every bucket, with or without an eligibility filter.\<close>

theorem crdt_convergence:
  assumes "crdt_wf s" "crdt_wf t" "from_content content s" "from_content content t"
    and "\<forall>c \<in> set cs. getA c = Inr (Some (content c))" "\<forall>c \<in> set ds. getB c = Inr (Some (content c))"
    and "set cs \<union> e_cid ` entries s = set ds \<union> e_cid ` entries t"
  shows "mset (currentEntries lwwResolve bf ex (fst (merge getA cs s)) b el) =
         mset (currentEntries lwwResolve bf ex (fst (merge getB ds t)) b el)"
  using merge_entries [OF assms(1,3,5)] merge_entries [OF assms(2,4,6)] assms(7)
  by (intro lww.currentEntries_mset_cong) simp_all

theorem crdt_convergence_witness:
  "let content = (\<lambda>c :: cid. sample_bundle 1 (length c)); get = (\<lambda>c. Inr (Some (content c))) in
   mset (currentEntries lwwResolve id 9 (fst (merge get [[1], [1, 2]] empty_crdt)) 3 (\<lambda>_. True)) =
   mset (currentEntries lwwResolve id 9 (fst (merge get [[1, 2], [1], [1, 2]] empty_crdt)) 3 (\<lambda>_. True))"
  unfolding Let_def
  by (rule crdt_convergence [where content = "\<lambda>c. sample_bundle 1 (length c)"]) auto

text \<open>C2: The view is last-writer-wins. An entry is current exactly if it is held and eligible, no
  eligible entry of its wallet (address compared without case) is newer or, at the same block, has
  a smaller CID, and its vote has not expired.\<close>

theorem current_is_lww:
  assumes "crdt_wf s"
  shows "e \<in> set (currentEntries lwwResolve bf ex s b el) \<longleftrightarrow>
     e \<in> entries s \<and> el (e_cid e) \<and> \<not> bf (e_block e) + ex < b \<and>
     (\<forall>f \<in> entries s. el (e_cid f) \<longrightarrow> wallet_of f = wallet_of e \<longrightarrow>
        e_block f < e_block e \<or> e_block f = e_block e \<and> compareCid (e_cid e) (e_cid f) \<le> 0)"
  unfolding lww.set_currentEntries [OF assms]
  by (auto simp: is_winner_def lww_beats_def isExpired_def)

theorem current_is_lww_witness:
  "\<lparr>e_cid = [2], e_bundle = sample_bundle 1 8\<rparr> \<in> set (currentEntries lwwResolve id 9 sample_pair 3 (\<lambda>_. True))"
  using current_is_lww [OF sample_pair_wf, of "\<lparr>e_cid = [2], e_bundle = sample_bundle 1 8\<rparr>" id 9 3 "\<lambda>_. True"]
    compareCid_total [of "[2]" "[2]"]
  by (auto simp: entries_def sample_pair_def sample_bundle_def)

text \<open>Pruning never changes what is shown: after a prune at some bucket, the unfiltered view at that
  bucket and at every later one is what it would have been without the prune.\<close>

theorem prune_keeps_view:
  assumes "crdt_wf s" "0 < n" "b \<le> b'"
  shows "set (current lwwResolve (bucket_of n) ex (fst (prune lwwResolve (bucket_of n) ex pv b s)) b') =
         set (current lwwResolve (bucket_of n) ex s b')"
proof -
  have "mono (bucket_of n)" by (simp add: mono_def bucket_of_def div_le_mono)
  from lww.prune_view [OF assms(1) this assms(3), of pv "\<lambda>_. True" ex] show ?thesis
    by (simp add: current_def)
qed

theorem prune_keeps_view_witness:
  "set (current lwwResolve (bucket_of 2) 1 (fst (prune lwwResolve (bucket_of 2) 1 (\<lambda>_. False) 4 sample_pair)) 5) =
      set (current lwwResolve (bucket_of 2) 1 sample_pair 5)"
  by (rule prune_keeps_view [OF sample_pair_wf]) simp_all

text \<open>Pruning keeps the fallback. While bundles are only provisionally admitted, pruning and then
  evicting any of them shows what evicting them without the prune shows: a wallet whose newest
  vote fails its deferred check still counts by its previous one.\<close>

theorem prune_keeps_fallback:
  assumes "crdt_wf s" "0 < n" "\<forall>c \<in> set evicted. pv c" "b \<le> b'"
  shows "set (currentEntries lwwResolve (bucket_of n) ex
           (fold crdt_remove evicted (fst (prune lwwResolve (bucket_of n) ex pv b s))) b' (\<lambda>_. True)) =
         set (currentEntries lwwResolve (bucket_of n) ex (fold crdt_remove evicted s) b' (\<lambda>_. True))"
proof -
  have mono: "mono (bucket_of n)" by (simp add: mono_def bucket_of_def div_le_mono)
  have el: "\<not> pv (e_cid m) \<Longrightarrow> e_cid m \<notin> set evicted" for m using assms(3) by auto
  have "set (currentEntries lwwResolve (bucket_of n) ex (fst (prune lwwResolve (bucket_of n) ex pv b s)) b'
      (\<lambda>c. c \<notin> set evicted)) = set (currentEntries lwwResolve (bucket_of n) ex s b' (\<lambda>c. c \<notin> set evicted))"
    by (rule lww.prune_view [OF assms(1) mono assms(4)]) (rule el)
  then show ?thesis
    by (simp add: currentEntries_evict assms(1) crdt_wf_prune)
qed

theorem prune_keeps_fallback_witness:
  "set (currentEntries lwwResolve (bucket_of 2) 1
            (fold crdt_remove [[2]] (fst (prune lwwResolve (bucket_of 2) 1 (\<lambda>c. c = [2]) 4 sample_pair))) 4 (\<lambda>_. True)) =
      set (currentEntries lwwResolve (bucket_of 2) 1 (fold crdt_remove [[2]] sample_pair) 4 (\<lambda>_. True))"
  by (rule prune_keeps_fallback [OF sample_pair_wf]) simp_all

text \<open>Pruning bounds the working set: with nothing provisional, what is left is exactly the
  current entries, so at most one bundle per wallet.\<close>

theorem prune_is_exact:
  assumes "crdt_wf s"
  shows "entries (fst (prune lwwResolve bf ex (\<lambda>_. False) b s)) = set (currentEntries lwwResolve bf ex s b (\<lambda>_. True))"
  using lww.prune_exact [OF assms] .

theorem prune_is_exact_witness:
  "entries (fst (prune lwwResolve (bucket_of 2) 1 (\<lambda>_. False) 4 sample_pair)) =
      set (currentEntries lwwResolve (bucket_of 2) 1 sample_pair 4 (\<lambda>_. True))"
  by (rule prune_is_exact [OF sample_pair_wf])

section \<open>Codecs\<close>

text \<open>C27: A bundle that encodes decodes to itself, up to the letter case of its two hexadecimal fields,
  and the decoded bundle encodes to the same bytes: the CID is stable under a decode.\<close>

theorem bundle_round_trip:
  assumes "cbor_laws L" "b58_laws L" "encodeBundle L b = Inr bs"
  shows "decodeBundle L bs = Inr (lower_bundle b) \<and> encodeBundle L (lower_bundle b) = Inr bs"
  using decodeBundle_encode [OF assms] encodeBundle_lower [OF assms(3)] by blast

theorem bundle_round_trip_witness:
  "\<exists>bs. encodeBundle sample_lib (sample_bundle 10 7) = Inr bs \<and>
     decodeBundle sample_lib bs = Inr (lower_bundle (sample_bundle 10 7)) \<and>
     encodeBundle sample_lib (lower_bundle (sample_bundle 10 7)) = Inr bs"
  using sample_bundle_encodes [of 7 10] bundle_round_trip [OF sample_cbor_laws sample_b58_laws]
  by (fastforce simp: max_safe_integer_def)

text \<open>Decoding does not pin the bytes: a block with a further key decodes to the same bundle as the
  block without it, so re-encoding what was decoded need not reproduce the block.\<close>

theorem wire_unknown_key:
  assumes "k \<notin> {''address'', ''blockNumber'', ''signature'', ''votes''}"
  shows "fromWireBundle L (IMap (m @ [(k, x)])) = fromWireBundle L (IMap m)"
  by (simp add: fromWireBundle_def WireBundleSchema_extra [OF assms])

theorem wire_unknown_key_witness:
  "fromWireBundle sample_lib (IMap ([] @ [(''note'', INull)])) = fromWireBundle sample_lib (IMap [])"
  by (rule wire_unknown_key) simp

text \<open>The checkpoint is determined by the votes: two nodes whose winners are the same votes, in any
  order and in any letter case of addresses and signatures, encode the same blocks, with the same
  root and the same chunk list.\<close>

theorem checkpoint_determined:
  assumes "encodeCheckpoint L ws1 m = Inr e1" "encodeCheckpoint L ws2 m = Inr e2"
    and "mset (map lower_bundle ws1) = mset (map lower_bundle ws2)"
    and "distinct (map (\<lambda>b. to_lower (b_address b)) ws1)"
  shows "e1 = e2"
  by (rule encodeCheckpoint_determined [OF assms])

theorem checkpoint_determined_witness:
  "\<exists>e. encodeCheckpoint sample_lib [sample_bundle 2 7, sample_bundle 1 9] 300 = Inr e \<and>
       encodeCheckpoint sample_lib [sample_bundle 1 9, sample_bundle 2 7] 300 = Inr e"
proof -
  have "\<exists>e. encodeCheckpoint sample_lib [sample_bundle 1 9, sample_bundle 2 7] 300 = Inr e"
    by (rule encodeCheckpoint_total) (simp add: sample_bundle_wire max_safe_integer_def)
  then obtain e2 where e2: "encodeCheckpoint sample_lib [sample_bundle 1 9, sample_bundle 2 7] 300 = Inr e2" ..
  obtain e1 where e1: "encodeCheckpoint sample_lib [sample_bundle 2 7, sample_bundle 1 9] 300 = Inr e1"
    using sample_checkpoint_encodes by blast
  have "to_lower (bytesToHex (replicate 20 2)) \<noteq> to_lower (bytesToHex (replicate 20 1))" by code_simp
  then have "e1 = e2"
    using checkpoint_determined [OF e1 e2] by (simp add: sample_bundle_def add_mset_commute)
  with e1 e2 show ?thesis by blast
qed

text \<open>A checkpoint decodes, from any store that holds its blocks and with any claimed chunk index,
  to the winners it was built from, in address order.\<close>

theorem checkpoint_round_trip:
  assumes "cbor_laws L" "b58_laws L" "inj (bundleCidForBytes L)" "encodeCheckpoint L ws m = Inr e"
    and "\<And>blk. blk \<in> set (ec_blocks e) \<Longrightarrow> getBlock (blk_cid blk) = Inr (Some (blk_bytes blk))"
  shows "decodeCheckpoint L (ec_root e) getBlock known = Inr (map lower_bundle (sort_winners ws))"
  by (rule decodeCheckpoint_encode [OF assms])

lemma checkpoint_block_cids:
  assumes "encodeCheckpoint L ws m = Inr e" "blk \<in> set (ec_blocks e)"
  shows "blk_cid blk = bundleCidForBytes L (blk_bytes blk)"
proof -
  have chunk: "blk_cid b = bundleCidForBytes L (blk_bytes b)" if "chunk_block L c = Inr b" for c b
    using that by (auto simp: chunk_block_def blockForBytes_def bundleCidForBytes_def res_simps)
  from assms obtain cs bs where "traverse (chunk_block L) cs = Inr bs"
    "blk \<in> set bs \<or> blk = checkpointRootBlock L (map blk_cid bs)"
    by (auto simp: encodeCheckpoint_def res_simps Let_def)
  then show ?thesis
    using chunk root_cid by (auto simp: traverse_Inr_iff dest!: list_all2_memD2)
qed

theorem checkpoint_round_trip_witness:
  "\<exists>e. encodeCheckpoint sample_lib [sample_bundle 2 7, sample_bundle 1 9] 300 = Inr e \<and>
     decodeCheckpoint sample_lib (ec_root e) (\<lambda>c. Inr (Some (tl c))) (Some [[7]]) =
       Inr (map lower_bundle (sort_winners [sample_bundle 2 7, sample_bundle 1 9]))"
proof -
  obtain e where e: "encodeCheckpoint sample_lib [sample_bundle 2 7, sample_bundle 1 9] 300 = Inr e"
    using sample_checkpoint_encodes by blast
  have "Inr (Some (tl (blk_cid blk))) = (Inr (Some (blk_bytes blk)) :: bytes option res)"
    if "blk \<in> set (ec_blocks e)" for blk
    using checkpoint_block_cids [OF e that] by (simp add: bundleCidForBytes_def sample_lib_def)
  from checkpoint_round_trip [OF sample_cbor_laws sample_b58_laws sample_cid_inj e this] e show ?thesis by blast
qed

text \<open>A claimed chunk index is only a hint: for a root block that is present and hashes to the root,
  decoding with any index, true or false, gives what decoding without one gives.\<close>

theorem chunk_index_is_a_hint:
  assumes "cbor_laws L" "inj (bundleCidForBytes L)"
    and "getBlock root = Inr (Some rb)" "bundleCidForBytes L rb = root"
  shows "decodeCheckpoint L root getBlock known = decodeCheckpoint L root getBlock None"
  by (rule decodeCheckpoint_index_irrelevant) (rule assms)+

theorem chunk_index_is_a_hint_witness:
  "let rb = encodeCanonical sample_lib (root_ipld []); root = bundleCidForBytes sample_lib rb in
   decodeCheckpoint sample_lib root (\<lambda>_. Inr (Some rb)) (Some [[1, 2]]) =
   decodeCheckpoint sample_lib root (\<lambda>_. Inr (Some rb)) None"
  unfolding Let_def
  by (rule chunk_index_is_a_hint [OF sample_cbor_laws sample_cid_inj]) simp_all

text \<open>Chunks respect the size cap: every chunk the encoder fills is non-empty and, unless it is a
  single bundle, at most the cap in bytes; together they hold the sorted winners in order.\<close>

theorem chunk_cap:
  assumes "fill_chunks L m (sort_winners ws) [] [] 0 = Inr chunks"
  shows "concat chunks = sort_winners ws \<and>
     (\<forall>c \<in> set chunks. c \<noteq> [] \<and> (length c = 1 \<or> sum_list (map (bundle_size L) c) \<le> m))"
  using fill_chunks_spec [OF assms] by (simp add: chunk_bytes_def chunk_ok_def)

theorem chunk_cap_witness:
  "\<exists>chunks. fill_chunks sample_lib 300 (sort_winners [sample_bundle 2 7, sample_bundle 1 9]) [] [] 0 = Inr chunks \<and>
     concat chunks = sort_winners [sample_bundle 2 7, sample_bundle 1 9]"
proof -
  have "\<forall>b \<in> set (sort_winners [sample_bundle 2 7, sample_bundle 1 9]). \<exists>enc. encodeBundle sample_lib b = Inr enc"
    by (simp add: sort_winners_def sample_bundle_encodes max_safe_integer_def)
  from fill_chunks_succeeds [OF this] chunk_cap show ?thesis by blast
qed

text \<open>A saved snapshot reads back.\<close>

theorem snapshot_round_trip:
  assumes "cbor_laws L"
  shows "decodeSnapshot L (encodeSnapshot L s) = Inr s"
  by (rule decodeSnapshot_encode [OF assms])

theorem snapshot_round_trip_witness:
  "decodeSnapshot sample_lib (encodeSnapshot sample_lib \<lparr>sn_record = [1], sn_blocks = [[2], []]\<rparr>) =
     Inr \<lparr>sn_record = [1], sn_blocks = [[2], []]\<rparr>"
  by (rule snapshot_round_trip [OF sample_cbor_laws])

text \<open>A root announcement that encodes decodes to its four gossiped fields; a fetch record that
  encodes decodes to itself, chunk index included; a bundle message never reads as an announcement.\<close>

theorem record_round_trip:
  assumes "cbor_laws L"
  shows "decodeVoteMessage L (encodeBundleMessage L blockBytes) = Inr (MsgBundle blockBytes) \<and>
    (\<forall>r bs. encodeRootMessage L r = Inr bs \<longrightarrow> decodeVoteMessage L bs = Inr (MsgRoot (toRootRecord r))) \<and>
    (\<forall>(f :: fetch_root_record) bs. encodeRootRecord L f = Inr bs \<longrightarrow> decodeRootRecord L bs = Inr f)"
  using decodeVoteMessage_bundle [OF assms] decodeVoteMessage_root [OF assms]
    decodeRootRecord_encode [OF assms] by blast

theorem record_round_trip_witness:
  "decodeVoteMessage sample_lib (encodeBundleMessage sample_lib [1, 2]) = Inr (MsgBundle [1, 2])"
  using record_round_trip [OF sample_cbor_laws, of "[1, 2]"] by blast

text \<open>Peers never confuse what they fetch: topics have distinct fetch keys, and none is the key of
  the bulk query.\<close>

theorem fetch_keys_disjoint:
  "(rootFetchKey t = rootFetchKey u \<longleftrightarrow> t = u) \<and> rootFetchKey t \<noteq> BULK_ROOTS_FETCH_KEY"
  using rootFetchKey_inj rootFetchKey_not_bulk by blast

section \<open>Criteria\<close>

text \<open>The cheap walk in front of the gate schema changes nothing: it bounds the work on hostile
  input, and every value the recursive schema and its checks accept passes it.\<close>

theorem gate_guard_transparent:
  "GateSchema L raw = Some g \<longleftrightarrow>
     GateNodeSchema raw = Some g \<and> gate_depth g \<le> MAX_GATE_DEPTH \<and>
     gate_leaf_count g \<le> MAX_GATE_LEAVES \<and> canonical_gate L g"
  by (rule GateSchema_Some_iff)

text \<open>One topic per contest: documents share a topic exactly if they are the same document up to
  the order of keys.\<close>

theorem topic_injective:
  assumes "cbor_laws L" "cid_laws L" "ipld_ok (criteria_ipld c)" "ipld_ok (criteria_ipld d)"
  shows "topicFor L c = topicFor L d \<longleftrightarrow> canon (criteria_ipld c) = canon (criteria_ipld d)"
  by (rule topicFor_eq_iff [OF assms])

definition sample_criteria :: criteria where
  "sample_criteria =
     \<lparr>c_name = ''n'', c_contestId = ''c'', c_voteMin = 0, c_voteMax = 1, c_maxVotesPerAddress = 1,
      c_bucketChainId = 1, c_blocksPerBucket = 10, c_voteExpiryBuckets = 2,
      c_gate = GLeaf (RuleRef ''constant'' []), c_weight = RuleRef ''constant'' [], c_requires = [''constant'']\<rparr>"

theorem topic_injective_witness:
  "topicFor sample_lib sample_criteria \<noteq> topicFor sample_lib (sample_criteria\<lparr>c_contestId := ''d''\<rparr>)"
proof -
  have ok: "cid_laws sample_lib"
    "ipld_ok (criteria_ipld sample_criteria)" "ipld_ok (criteria_ipld (sample_criteria\<lparr>c_contestId := ''d''\<rparr>))"
  proof -
    show "cid_laws sample_lib" unfolding cid_laws_def by (auto simp: sample_lib_def inj_def intro: hex_of_bytes_inj)
    show "ipld_ok (criteria_ipld sample_criteria)" "ipld_ok (criteria_ipld (sample_criteria\<lparr>c_contestId := ''d''\<rparr>))"
      by (simp_all add: sample_criteria_def criteria_ipld_def ref_ipld_def safe_int_def max_safe_integer_def)
  qed
  have "obj_get (canon (criteria_ipld sample_criteria)) ''contestId'' = Some (IStr ''c'')"
    unfolding obj_get_canon [OF ok(2)] by (simp add: sample_criteria_def criteria_ipld_def)
  moreover have "obj_get (canon (criteria_ipld (sample_criteria\<lparr>c_contestId := ''d''\<rparr>))) ''contestId'' = Some (IStr ''d'')"
    unfolding obj_get_canon [OF ok(3)] by (simp add: sample_criteria_def criteria_ipld_def)
  moreover have "Some (IStr ''c'') \<noteq> Some (IStr ''d'')" by simp
  ultimately have "canon (criteria_ipld sample_criteria) \<noteq> canon (criteria_ipld (sample_criteria\<lparr>c_contestId := ''d''\<rparr>))"
    by (metis (no_types))
  with topic_injective [OF sample_cbor_laws ok] show ?thesis by blast
qed

lemma opt_map_Nil: "opt_map f xs = Some [] \<longleftrightarrow> xs = []"
  by (cases xs) (auto split: option.splits)

text \<open>A directory derives at least one contest, and no two with the same id: a manifest that
  repeats an id throws.\<close>

theorem directory_distinct:
  assumes "deriveDirectoryCriteria L manifest = Inr cs"
  shows "distinct (map c_contestId cs) \<and> cs \<noteq> []"
proof -
  from assms obtain defaults contests where d: "DirectoryManifestSchema manifest = Some (defaults, contests)"
    "derive_loop L defaults contests [] = Inr cs"
    by (auto simp: deriveDirectoryCriteria_def res_simps)
  from d(1) have "contests \<noteq> []"
    by (auto simp: DirectoryManifestSchema_def Let_def bind_eq_Some_conv opt_map_Nil split: if_splits)
  with derive_loop_Inr [OF d(2)] show ?thesis by auto
qed

definition sample_manifest :: ipld where
  "sample_manifest =
     IMap [(''defaults'', IMap
       [(''name'', IStr ''n''), (''voteSchema'', IMap [(''min'', IInt 0), (''max'', IInt 1)]),
        (''maxVotesPerAddress'', IInt 1), (''bucketChainId'', IInt 1), (''blocksPerBucket'', IInt 10),
        (''voteExpiryBuckets'', IInt 2), (''gate'', IMap [(''rule'', IMap [(''type'', IStr ''constant'')])]),
        (''weight'', IMap [(''type'', IStr ''constant'')]), (''requires'', IMap [(''rules'', IList [IStr ''constant''])])]),
      (''contests'', IList [IMap [(''contestId'', IStr ''a'')], IMap [(''contestId'', IStr ''b'')]])]"

lemma sample_gate:
  "GateSchema L (IMap [(''rule'', IMap [(''type'', IStr ''constant'')])]) = Some (GLeaf (RuleRef ''constant'' []))"
  unfolding GateSchema_Some_iff
  by (simp add: RuleRefSchema_def MAX_GATE_DEPTH_def MAX_GATE_LEAVES_def)

lemma sample_manifest_derives: "\<exists>cs. deriveDirectoryCriteria sample_lib sample_manifest = Inr cs"
  by (simp add: deriveDirectoryCriteria_def DirectoryManifestSchema_def sample_manifest_def spread_def
      CriteriaSchema_def parse_criteria_def obj_get_def strict_keys_def criteria_keys_def nonempty_string_def
      VoteRangeSchema_def RequiresSchema_def positive_int_def as_nat_def safe_int_def max_safe_integer_def
      sample_gate RuleRefSchema_def sadd_def)

theorem directory_distinct_witness:
  "\<exists>cs. deriveDirectoryCriteria sample_lib sample_manifest = Inr cs \<and> distinct (map c_contestId cs) \<and> cs \<noteq> []"
  using sample_manifest_derives directory_distinct by blast

section \<open>Storage\<close>

text \<open>The memory store stays within its bound and keeps what was just written; the sqlite store
  does the same with its rows, and only ever drops rows at most as recently used as every row it
  keeps.\<close>

theorem lru_bound_and_recency:
  assumes "jwf m" "length m \<le> n" "0 < n" "scan_ok scan" "jwf rows"
  shows "length (mem_setItem n k v m) \<le> n \<and> jget (mem_setItem n k v m) k = Some v \<and>
    length (sq_evict scan n rows) \<le> n \<and>
    (\<forall>a b. a \<in> set (sq_evict scan n rows) \<longrightarrow> b \<in> set rows \<longrightarrow> b \<notin> set (sq_evict scan n rows) \<longrightarrow>
       last_access b \<le> last_access a)"
proof (intro conjI allI impI)
  show "length (mem_setItem n k v m) \<le> n" by (rule mem_setItem_bound [OF assms(1-3)])
  show "jget (mem_setItem n k v m) k = Some v" by (rule mem_setItem_kept [OF assms(3)])
  show "length (sq_evict scan n rows) \<le> n" by (rule sq_evict_bound [OF assms(4,5)])
qed (rule sq_evict_recent [OF assms(4,5)])

lemma sample_scan_ok: "scan_ok (\<lambda>rows. rev (sort_key last_access rows))"
  by (simp add: scan_ok_def sorted_wrt_rev) (metis sorted_map sorted_sort_key)

theorem lru_bound_and_recency_witness:
  "length (mem_setItem 1 ''b'' True [(''a'', False)]) \<le> 1 \<and>
   length (sq_evict (\<lambda>rows. rev (sort_key last_access rows)) 1 [(''a'', True, 4), (''b'', True, 3)]) \<le> 1"
  using lru_bound_and_recency [of "[(''a'', False)]" 1 _ "[(''a'', True, 4), (''b'', True, 3)]" "''b''" True, OF _ _ _ sample_scan_ok]
  by (simp add: jwf_def)

end
