(* ===== verification/Rule_Cache.thy ===== *)
theory Rule_Cache
  imports Storage
begin

text \<open>
  The memo a rule computes through (\<open>src/rules/cache.ts\<close>): the FIFO-bounded in-memory cache, the
  persistent cache over an LRU store, and \<open>memoMany\<close>. The locale \<open>rule_memo\<close> is the interface
  \<open>memoMany\<close> is written against; both caches are interpreted. Values are the strings a read
  returned, so a sound cache is one whose entries are what the read would return for their key
  and epoch. Writes to the store settle at once.
\<close>

definition entryKey :: "string \<Rightarrow> nat \<Rightarrow> string" where
  "entryKey key epoch = key @ '':'' @ show_nat epoch"

lemma entryKey_inj: "entryKey k e = entryKey k' e' \<longleftrightarrow> k = k' \<and> e = e'"
  using split_at_last_sep [of k "CHR '':''" "show_nat e" k' "show_nat e'"]
  by (auto simp: entryKey_def)

text \<open>\<open>k.slice(k.lastIndexOf(":") + 1)\<close>: the text after the last colon, the whole text without one.\<close>

definition after_last :: "char \<Rightarrow> string \<Rightarrow> string" where
  "after_last c s = rev (takeWhile (\<lambda>x. x \<noteq> c) (rev s))"

definition starts_with :: "string \<Rightarrow> string \<Rightarrow> bool" where
  "starts_with p s \<longleftrightarrow> take (length p) s = p"

lemma after_last_entryKey [simp]: "after_last CHR '':'' (entryKey k e) = show_nat e"
proof -
  have "takeWhile (\<lambda>x. x \<noteq> CHR '':'') (rev (show_nat e) @ CHR '':'' # rev k) = rev (show_nat e)"
    using colon_notin_show_nat [of e] by (subst takeWhile_append2) auto
  then show ?thesis by (simp add: after_last_def entryKey_def)
qed

lemma starts_with_append: "starts_with p s \<Longrightarrow> starts_with p (s @ t)"
proof -
  assume "starts_with p s"
  then have "take (length p) s = p" by (simp add: starts_with_def)
  then have "length p \<le> length s" by (metis length_take min.cobounded1)
  with \<open>starts_with p s\<close> show ?thesis by (simp add: starts_with_def)
qed

definition purge_dead :: "string option \<Rightarrow> nat \<Rightarrow> string \<Rightarrow> bool" where
  "purge_dead keyPrefix epoch k \<longleftrightarrow>
     (case keyPrefix of None \<Rightarrow> True | Some p \<Rightarrow> starts_with p k) \<and>
     (case js_number (after_last CHR '':'' k) of Some at \<Rightarrow> at < epoch | None \<Rightarrow> False)"

section \<open>The in-memory cache\<close>

type_synonym mem_cache = "(string, string) fifo"

definition mc_get :: "string \<Rightarrow> nat \<Rightarrow> mem_cache \<Rightarrow> mem_cache \<times> string option" where
  "mc_get key epoch c = (c, fifo_get c (entryKey key epoch))"

definition mc_set :: "nat \<Rightarrow> string \<Rightarrow> nat \<Rightarrow> string \<Rightarrow> mem_cache \<Rightarrow> mem_cache" where
  "mc_set maxEntries key epoch value c = fifo_set maxEntries (entryKey key epoch) value c"

definition mc_purgeBelow :: "nat \<Rightarrow> string option \<Rightarrow> mem_cache \<Rightarrow> mem_cache" where
  "mc_purgeBelow epoch keyPrefix c = fifo_purge (purge_dead keyPrefix epoch) c"

section \<open>The persistent cache\<close>

text \<open>The store's operations; a JSON value is an \<open>ipld\<close>.\<close>

record 's lru_ops =
  l_get :: "nat \<Rightarrow> string \<Rightarrow> 's \<Rightarrow> ('s \<times> ipld option) res"
  l_set :: "nat \<Rightarrow> string \<Rightarrow> ipld \<Rightarrow> 's \<Rightarrow> 's res"
  l_remove :: "string \<Rightarrow> 's \<Rightarrow> 's res"
  l_keys :: "'s \<Rightarrow> string list res"

record 's persist_cache =
  pc_mem :: mem_cache
  pc_store :: 's
  pc_purged :: "(string, nat) jsmap"

definition storeKey :: "string \<Rightarrow> string \<Rightarrow> nat \<Rightarrow> string" where
  "storeKey namespace key epoch = namespace @ '':'' @ entryKey key epoch"

definition pc_get ::
  "'s lru_ops \<Rightarrow> string \<Rightarrow> nat \<Rightarrow> nat \<Rightarrow> string \<Rightarrow> nat \<Rightarrow> 's persist_cache \<Rightarrow> 's persist_cache \<times> string option" where
  "pc_get ops namespace maxEntries now key epoch c =
     (case mc_get key epoch (pc_mem c) of
        (_, Some value) \<Rightarrow> (c, Some value)
      | (_, None) \<Rightarrow>
          (case l_get ops now (storeKey namespace key epoch) (pc_store c) of
             Inl _ \<Rightarrow> (c, None)
           | Inr (store, persisted) \<Rightarrow>
               (let c = c\<lparr>pc_store := store\<rparr> in
                case Option.bind persisted as_string of
                  None \<Rightarrow> (c, None)
                | Some value \<Rightarrow>
                    (c\<lparr>pc_mem := mc_set maxEntries key epoch value (pc_mem c)\<rparr>, Some value))))"

definition pc_set ::
  "'s lru_ops \<Rightarrow> string \<Rightarrow> nat \<Rightarrow> nat \<Rightarrow> string \<Rightarrow> nat \<Rightarrow> string \<Rightarrow> 's persist_cache \<Rightarrow> 's persist_cache" where
  "pc_set ops namespace maxEntries now key epoch value c =
     (let c = c\<lparr>pc_mem := mc_set maxEntries key epoch value (pc_mem c)\<rparr> in
      case l_set ops now (storeKey namespace key epoch) (IStr value) (pc_store c) of
        Inl _ \<Rightarrow> c
      | Inr store \<Rightarrow> c\<lparr>pc_store := store\<rparr>)"

text \<open>The purge loop over the store's keys; a throw ends it.\<close>

fun purge_store :: "'s lru_ops \<Rightarrow> string \<Rightarrow> nat \<Rightarrow> string list \<Rightarrow> 's \<Rightarrow> 's" where
  "purge_store ops prefix epoch [] store = store"
| "purge_store ops prefix epoch (k # ks) store =
     (if purge_dead (Some prefix) epoch k
      then (case l_remove ops k store of Inl _ \<Rightarrow> store | Inr store' \<Rightarrow> purge_store ops prefix epoch ks store')
      else purge_store ops prefix epoch ks store)"

definition pc_purgeBelow ::
  "'s lru_ops \<Rightarrow> string \<Rightarrow> nat \<Rightarrow> string option \<Rightarrow> 's persist_cache \<Rightarrow> 's persist_cache" where
  "pc_purgeBelow ops namespace epoch keyPrefix c =
     (let prefix = namespace @ '':'' @ (case keyPrefix of None \<Rightarrow> [] | Some p \<Rightarrow> p) in
      if epoch \<le> (case jget (pc_purged c) prefix of None \<Rightarrow> 0 | Some e \<Rightarrow> e) then c
      else \<lparr>pc_mem = mc_purgeBelow epoch keyPrefix (pc_mem c),
            pc_store = (case l_keys ops (pc_store c) of
                          Inl _ \<Rightarrow> pc_store c
                        | Inr ks \<Rightarrow> purge_store ops prefix epoch ks (pc_store c)),
            pc_purged = jset prefix epoch (pc_purged c)\<rparr>)"

section \<open>Looking many keys up\<close>

text \<open>The unique keys in order of first occurrence, the hits, one read of the misses, and every
  position of the input answered from its key.\<close>

fun lookup_all ::
  "(string \<Rightarrow> 'c \<Rightarrow> 'c \<times> string option) \<Rightarrow> string list \<Rightarrow> 'c \<Rightarrow> 'c \<times> (string \<times> string option) list" where
  "lookup_all get [] c = (c, [])"
| "lookup_all get (k # ks) c =
     (let (c, hit) = get k c; (c, hits) = lookup_all get ks c in (c, (k, hit) # hits))"

definition memoManyOver ::
  "(string \<Rightarrow> nat \<Rightarrow> 'c \<Rightarrow> 'c \<times> string option) \<Rightarrow> (string \<Rightarrow> nat \<Rightarrow> string \<Rightarrow> 'c \<Rightarrow> 'c) \<Rightarrow>
     string list \<Rightarrow> nat \<Rightarrow> (string list \<Rightarrow> string list res) \<Rightarrow> 'c \<Rightarrow> 'c \<times> string list res" where
  "memoManyOver get put keys epoch read c =
     (let unique = fold sadd keys [];
          (c, hits) = lookup_all (\<lambda>k. get k epoch) unique c;
          found = concat (map (\<lambda>(k, v). case v of None \<Rightarrow> [] | Some x \<Rightarrow> [(k, x)]) hits);
          missing = concat (map (\<lambda>(k, v). case v of None \<Rightarrow> [k] | Some _ \<Rightarrow> []) hits)
      in if missing = [] then (c, Inr (map (\<lambda>k. the (jget found k)) keys))
         else case read missing of
           Inl e \<Rightarrow> (c, Inl e)
         | Inr values \<Rightarrow>
             if length values \<noteq> length missing
             then (c, Inl (PlainError ''RuleCache.memoMany''))
             else (fold (\<lambda>(k, v). put k epoch v) (zip missing values) c,
                   Inr (map (\<lambda>k. the (jget (found @ zip missing values) k)) keys)))"

section \<open>The interface\<close>

locale rule_memo =
  fixes get :: "string \<Rightarrow> nat \<Rightarrow> 'c \<Rightarrow> 'c \<times> string option"
    and put :: "string \<Rightarrow> nat \<Rightarrow> string \<Rightarrow> 'c \<Rightarrow> 'c"
    and sound :: "(string \<Rightarrow> nat \<Rightarrow> string) \<Rightarrow> 'c \<Rightarrow> bool"
  assumes get_sound: "sound f c \<Longrightarrow> get k e c = (c', r) \<Longrightarrow> sound f c' \<and> (\<forall>v. r = Some v \<longrightarrow> v = f k e)"
    and set_sound: "sound f c \<Longrightarrow> sound f (put k e (f k e) c)"
begin

lemma lookup_all_sound:
  "sound f c \<Longrightarrow> lookup_all (\<lambda>k. get k e) ks c = (c', hits) \<Longrightarrow>
   sound f c' \<and> map fst hits = ks \<and> (\<forall>(k, v) \<in> set hits. \<forall>x. v = Some x \<longrightarrow> x = f k e)"
proof (induction ks arbitrary: c c' hits)
  case (Cons k ks)
  obtain c1 r where g: "get k e c = (c1, r)" by fastforce
  obtain c2 hs where l: "lookup_all (\<lambda>k. get k e) ks c1 = (c2, hs)" by fastforce
  from get_sound [OF Cons.prems(1) g] have s1: "sound f c1" and r: "\<forall>v. r = Some v \<longrightarrow> v = f k e" by auto
  from Cons.IH [OF s1 l] r Cons.prems(2) g l show ?case by (auto split: prod.splits)
qed auto

lemma single_key: "ks \<noteq> [] \<Longrightarrow> distinct ks \<Longrightarrow> set ks \<subseteq> set [k] \<Longrightarrow> ks = [k]" for ks :: "string list"
  by (cases ks; cases "tl ks") auto

lemma fold_set_sound: "sound f c \<Longrightarrow> sound f (fold (\<lambda>(k, v). put k e v) (map (\<lambda>k. (k, f k e)) ks) c)"
  by (induction ks arbitrary: c) (auto intro: set_sound)

text \<open>Reading through the memo is reading: same values, and the memo stays sound.\<close>

lemma memoMany_sound:
  assumes c: "sound f c" and read: "\<And>ks. ks \<noteq> [] \<Longrightarrow> distinct ks \<Longrightarrow> set ks \<subseteq> set keys \<Longrightarrow> read ks = Inr (map (\<lambda>k. f k e) ks)"
  shows "\<exists>c'. memoManyOver get put keys e read c = (c', Inr (map (\<lambda>k. f k e) keys)) \<and> sound f c'"
proof -
  let ?unique = "fold sadd keys []"
  obtain c1 hits where l: "lookup_all (\<lambda>k. get k e) ?unique c = (c1, hits)" by fastforce
  note ls = lookup_all_sound [OF c l]
  define found where "found = concat (map (\<lambda>(k, v). case v of None \<Rightarrow> [] | Some x \<Rightarrow> [(k, x)]) hits)"
  define missing where "missing = concat (map (\<lambda>(k, v). case v of None \<Rightarrow> [k] | Some (_ :: string) \<Rightarrow> []) hits)"
  have uniq: "set (fold sadd keys acc) = set keys \<union> set acc" for acc
    by (induction keys arbitrary: acc) auto
  have fst_hits: "fst ` set hits = set keys" using ls uniq [of "[]"] by (metis list.set_map sup_bot_right list.set(1))
  have fnd: "v = f k e" if "(k, v) \<in> set found" for k v
    using that ls by (auto simp: found_def split: option.splits)
  have cover: "k \<in> fst ` set found \<or> k \<in> set missing" if "k \<in> set keys" for k
  proof -
    from that fst_hits obtain r where r: "(k, r) \<in> set hits" by force
    then show ?thesis by (cases r) (force simp: found_def missing_def)+
  qed
  have "set missing \<subseteq> fst ` set hits"
    by (force simp: missing_def split: option.splits)
  moreover have "distinct (fold sadd keys acc)" if "distinct acc" for acc
    using that by (induction keys arbitrary: acc) auto
  then have "distinct (map fst hits)" using ls by simp
  then have "distinct missing"
    unfolding missing_def by (induction hits) (auto split: option.splits)
  ultimately have rd: "read missing = Inr (map (\<lambda>k. f k e) missing)" if "missing \<noteq> []"
    using that read fst_hits by simp
  have zip: "zip missing (map (\<lambda>k. f k e) missing) = map (\<lambda>k. (k, f k e)) missing"
    by (simp add: zip_map2 zip_same_conv_map)
  have val: "the (jget (found @ map (\<lambda>k. (k, f k e)) missing) k) = f k e" if "k \<in> set keys" for k
  proof -
    have "jget (found @ map (\<lambda>k. (k, f k e)) missing) k \<noteq> None"
      using cover [OF that] by (auto simp: map_of_eq_None_iff image_image)
    then obtain v where v: "jget (found @ map (\<lambda>k. (k, f k e)) missing) k = Some v" by blast
    from jget_SomeD [OF v] fnd show ?thesis unfolding v by auto
  qed
  have unf: "memoManyOver get put keys e read c =
     (if missing = [] then (c1, Inr (map (\<lambda>k. the (jget found k)) keys))
      else case read missing of
        Inl err \<Rightarrow> (c1, Inl err)
      | Inr values \<Rightarrow>
          if length values \<noteq> length missing then (c1, Inl (PlainError ''RuleCache.memoMany''))
          else (fold (\<lambda>(k, v). put k e v) (zip missing values) c1,
                Inr (map (\<lambda>k. the (jget (found @ zip missing values) k)) keys)))"
    unfolding memoManyOver_def l Let_def prod.case found_def missing_def ..
  show ?thesis
  proof (cases "missing = []")
    case True
    with val have "map (\<lambda>k. the (jget found k)) keys = map (\<lambda>k. f k e) keys" by simp
    with True ls unf show ?thesis by simp
  next
    case False
    then show ?thesis
      using val fold_set_sound [of f c1 e missing] ls unfolding unf by (simp add: rd zip)
  qed
qed

text \<open>A read that fails, or returns the wrong number of values, leaves a sound memo and no values.\<close>

lemma memoMany_fails:
  assumes "sound f c" "memoManyOver get put keys e (\<lambda>_. Inl err) c = (c', Inl err')"
  shows "err' = err \<and> sound f c'"
proof -
  obtain c1 hits where l: "lookup_all (\<lambda>k. get k e) (fold sadd keys []) c = (c1, hits)" by fastforce
  from lookup_all_sound [OF assms(1) l] assms(2) l show ?thesis
    by (auto simp: memoManyOver_def Let_def split: if_splits)
qed

end

definition mc_sound :: "nat \<Rightarrow> (string \<Rightarrow> nat \<Rightarrow> string) \<Rightarrow> mem_cache \<Rightarrow> bool" where
  "mc_sound n f c \<longleftrightarrow> fifo_wf n c \<and> (\<forall>k e v. fifo_get c (entryKey k e) = Some v \<longrightarrow> v = f k e)"

lemma mc_set_sound: "mc_sound n f c \<Longrightarrow> mc_sound n f (mc_set n k e (f k e) c)"
proof -
  assume s: "mc_sound n f c"
  then have wf: "fifo_wf n c" and v: "\<And>k e v. fifo_get c (entryKey k e) = Some v \<Longrightarrow> v = f k e"
    by (auto simp: mc_sound_def)
  have "w = f k' e'" if "fifo_get (fifo_set n (entryKey k e) (f k e) c) (entryKey k' e') = Some w" for k' e' w
  proof (cases "fifo_get c (entryKey k e)")
    case None
    from fifo_get_set [OF wf None, of "f k e" "entryKey k' e'"] that v show ?thesis
      by (auto simp: entryKey_inj split: if_splits)
  next
    case (Some x)
    with that v show ?thesis by (simp add: fifo_set_known)
  qed
  with fifo_wf_set [OF wf] show ?thesis by (simp add: mc_sound_def mc_set_def)
qed

interpretation mcache: rule_memo mc_get "mc_set n" "mc_sound n" for n
proof
  show "mc_sound n f c \<Longrightarrow> mc_get k e c = (c', r) \<Longrightarrow> mc_sound n f c' \<and> (\<forall>v. r = Some v \<longrightarrow> v = f k e)"
    for f c k e c' r
    by (auto simp: mc_get_def mc_sound_def)
qed (rule mc_set_sound)

lemma mc_purge_sound: "mc_sound n f c \<Longrightarrow> mc_sound n f (mc_purgeBelow ep p c)"
  by (auto simp: mc_sound_def mc_purgeBelow_def fifo_wf_purge fifo_get_purge split: if_splits)

text \<open>A purge removes exactly the entries of its prefix whose epoch is behind.\<close>

lemma mc_purge_get:
  assumes "fifo_wf n c"
  shows "snd (mc_get k e (mc_purgeBelow ep p c)) =
    (if e < ep \<and> (case p of None \<Rightarrow> True | Some q \<Rightarrow> starts_with q (entryKey k e)) then None
     else snd (mc_get k e c))"
  using assms by (auto simp: mc_get_def mc_purgeBelow_def fifo_get_purge purge_dead_def split: option.splits)

section \<open>The persistent cache keeps the interface\<close>

definition pc_sound ::
  "('s \<Rightarrow> string \<Rightarrow> ipld option) \<Rightarrow> ('s \<Rightarrow> bool) \<Rightarrow> string \<Rightarrow> nat \<Rightarrow> (string \<Rightarrow> nat \<Rightarrow> string) \<Rightarrow> 's persist_cache \<Rightarrow> bool" where
  "pc_sound lookup ok namespace n f c \<longleftrightarrow>
     mc_sound n f (pc_mem c) \<and> ok (pc_store c) \<and>
     (\<forall>k e v. lookup (pc_store c) (storeKey namespace k e) = Some (IStr v) \<longrightarrow> v = f k e)"

lemma storeKey_inj: "storeKey ns k e = storeKey ns k' e' \<longleftrightarrow> k = k' \<and> e = e'"
  by (simp add: storeKey_def entryKey_inj)

text \<open>A store of JSON values.\<close>

locale json_store = lru_storage getItem setItem removeItem lookup ok
  for getItem :: "nat \<Rightarrow> string \<Rightarrow> 's \<Rightarrow> ('s \<times> ipld option) res"
    and setItem :: "nat \<Rightarrow> string \<Rightarrow> ipld \<Rightarrow> 's \<Rightarrow> 's res"
    and removeItem :: "string \<Rightarrow> 's \<Rightarrow> 's res"
    and lookup :: "'s \<Rightarrow> string \<Rightarrow> ipld option"
    and ok :: "'s \<Rightarrow> bool" +
  fixes storeKeys :: "'s \<Rightarrow> string list res"
begin

abbreviation ops :: "'s lru_ops" where
  "ops \<equiv> \<lparr>l_get = getItem, l_set = setItem, l_remove = removeItem, l_keys = storeKeys\<rparr>"

lemma pc_get_sound:
  assumes s: "pc_sound lookup ok ns n f c" and g: "pc_get ops ns n now k e c = (c', r)"
  shows "pc_sound lookup ok ns n f c' \<and> (\<forall>v. r = Some v \<longrightarrow> v = f k e)"
proof (cases "fifo_get (pc_mem c) (entryKey k e)")
  case (Some v)
  with g s show ?thesis by (auto simp: pc_get_def mc_get_def pc_sound_def mc_sound_def)
next
  case miss: None
  show ?thesis
  proof (cases "getItem now (storeKey ns k e) (pc_store c)")
    case (Inl err)
    with miss g s show ?thesis by (auto simp: pc_get_def mc_get_def)
  next
    case (Inr p)
    obtain st persisted where p: "p = (st, persisted)" by (cases p)
    from getItem_law [of "pc_store c" now "storeKey ns k e" st persisted] s Inr p
    have law: "ok st" "persisted = lookup (pc_store c) (storeKey ns k e)"
      "\<And>k'. lookup st k' = lookup (pc_store c) k' \<or> lookup st k' = None"
      by (auto simp: pc_sound_def)
    have st: "v = f k' e'" if "lookup st (storeKey ns k' e') = Some (IStr v)" for v k' e'
      using that law(3) [of "storeKey ns k' e'"] s by (auto simp: pc_sound_def)
    have mem: "mc_sound n f (pc_mem c)" using s by (simp add: pc_sound_def)
    show ?thesis
    proof (cases "Option.bind persisted as_string")
      case None
      with miss g Inr p mem law(1) st show ?thesis
        by (auto simp: pc_get_def mc_get_def pc_sound_def Let_def)
    next
      case (Some w)
      then have "persisted = Some (IStr w)" by (cases persisted; cases "the persisted") auto
      with law(2) s have v: "w = f k e" by (auto simp: pc_sound_def)
      from miss g Inr p Some mem law(1) st mc_set_sound [OF mem, of k e] show ?thesis
        by (auto simp: pc_get_def mc_get_def pc_sound_def Let_def v)
    qed
  qed
qed

lemma pc_set_sound:
  assumes s: "pc_sound lookup ok ns n f c"
  shows "pc_sound lookup ok ns n f (pc_set ops ns n now k e (f k e) c)"
proof -
  have mem: "mc_sound n f (mc_set n k e (f k e) (pc_mem c))"
    using s mc_set_sound by (simp add: pc_sound_def)
  show ?thesis
  proof (cases "setItem now (storeKey ns k e) (IStr (f k e)) (pc_store c)")
    case (Inl err)
    with mem s show ?thesis by (simp add: pc_set_def pc_sound_def)
  next
    case (Inr st)
    from setItem_law [of "pc_store c" now "storeKey ns k e" "IStr (f k e)" st] s Inr
    have law: "ok st" "\<And>k'. lookup st k' = (if k' = storeKey ns k e then Some (IStr (f k e)) else lookup (pc_store c) k')
        \<or> lookup st k' = None"
      by (auto simp: pc_sound_def)
    have "v = f k' e'" if "lookup st (storeKey ns k' e') = Some (IStr v)" for v k' e'
      using that law(2) [of "storeKey ns k' e'"] s by (auto simp: pc_sound_def storeKey_inj split: if_splits)
    with mem law(1) Inr show ?thesis by (simp add: pc_set_def pc_sound_def)
  qed
qed

lemma purge_store_law:
  "ok st \<Longrightarrow> ok (purge_store ops p e ks st) \<and>
     (\<forall>k. lookup (purge_store ops p e ks st) k = lookup st k \<or> lookup (purge_store ops p e ks st) k = None)"
proof (induction ks arbitrary: st)
  case (Cons k ks)
  show ?case
  proof (cases "purge_dead (Some p) e k")
    case True
    show ?thesis
    proof (cases "removeItem k st")
      case (Inr st')
      from removeItem_law [OF Cons.prems Inr] have "ok st'" "lookup st' = (lookup st)(k := None)" by auto
      note st' = this
      note ok' = Cons.IH [OF st'(1), THEN conjunct1]
      note look = Cons.IH [OF st'(1), THEN conjunct2, THEN spec]
      have "purge_store ops p e (k # ks) st = purge_store ops p e ks st'" by (simp add: True Inr)
      moreover have "lookup (purge_store ops p e ks st') k' = lookup st k' \<or>
          lookup (purge_store ops p e ks st') k' = None" for k'
      proof -
        have "lookup st' k' = lookup st k' \<or> lookup st' k' = None" unfolding st'(2) by simp
        with look [of k'] show ?thesis by metis
      qed
      ultimately show ?thesis using ok' by (simp only: simp_thms)
    qed (use True Cons.prems in simp)
  qed (use Cons in simp)
qed simp

lemma pc_purge_sound:
  "pc_sound lookup ok ns n f c \<Longrightarrow> pc_sound lookup ok ns n f (pc_purgeBelow ops ns e p c)"
proof -
  assume s: "pc_sound lookup ok ns n f c"
  show ?thesis
  proof (cases "storeKeys (pc_store c)")
    case (Inl err)
    with s mc_purge_sound show ?thesis by (auto simp: pc_purgeBelow_def pc_sound_def Let_def)
  next
    case (Inr ks)
    let ?p = "ns @ '':'' @ (case p of None \<Rightarrow> [] | Some q \<Rightarrow> q)"
    note law = purge_store_law [of "pc_store c" ?p e ks]
    have "v = f k' e'"
      if "lookup (purge_store ops ?p e ks (pc_store c)) (storeKey ns k' e') = Some (IStr v)" for v k' e'
      using that law s unfolding pc_sound_def by (metis option.distinct(1))
    with Inr law s mc_purge_sound show ?thesis
      by (auto simp: pc_purgeBelow_def pc_sound_def Let_def)
  qed
qed

end

sublocale json_store \<subseteq> pcache: rule_memo "pc_get ops ns n now" "pc_set ops ns n now" "pc_sound lookup ok ns n"
  for ns n now
  using pc_get_sound pc_set_sound by unfold_locales blast+

interpretation memjson: json_store
  "\<lambda>now k s. Inr (mem_getItem k s)" "\<lambda>now k v s. Inr (mem_setItem n k v s)"
  "\<lambda>k s. Inr (mem_removeItem k s)" jget jwf "\<lambda>s. Inr (mem_keys s)" for n
  by unfold_locales

interpretation sqlitejson: json_store
  "sq_getItem db" "sq_setItem db scan n" "sq_removeItem db" sq_lookup sq_wf "sq_keys db" for db scan n
  by unfold_locales

interpretation browserjson: json_store
  "\<lambda>now k s. Inr (lf_getItem n k s)" "\<lambda>now k v s. Inr (lf_setItem n k v s)"
  "\<lambda>k s. Inr (lf_removeItem k s)" lf_lookup "lf_wf n" "\<lambda>s. Inr (lf_keys s)" for n
  by unfold_locales

end
