(* ===== verification/Rules.thy ===== *)
theory Rules
  imports Rule_Cache
begin

text \<open>
  The rules of \<open>src/rules/\<close>: results, the built-in and the unregistered rules, and the registry.
  The chain is a parameter: \<open>chain_client\<close> answers the reads the rules make at a block, refuses
  (a revert), or cannot be reached; \<open>addr\<close> is viem's \<open>getAddress\<close>. The memo is any
  implementation of the \<open>rule_memo\<close> interface. Reads issued together run left to right.
\<close>

section \<open>Results\<close>

datatype rule_result = RSuccess (r_score: int) | RFail (r_error: string) (r_penalize: "bool option")

definition NON_POSITIVE_SUCCESS :: string where
  "NON_POSITIVE_SUCCESS = ''the contest's rule reported success without a score, which is a bug in that rule''"

definition gateFailure :: "rule_result \<Rightarrow> (string \<times> bool) option" where
  "gateFailure r =
     (case r of
        RFail err penalize \<Rightarrow> Some (err, penalize \<noteq> Some False)
      | RSuccess score \<Rightarrow> if score \<le> 0 then Some (NON_POSITIVE_SUCCESS, True) else None)"

definition scoreOrZero :: "rule_result \<Rightarrow> int" where
  "scoreOrZero r = (case r of RSuccess score \<Rightarrow> if 0 < score then score else 0 | RFail _ _ \<Rightarrow> 0)"

lemma gateFailure_None_iff: "gateFailure r = None \<longleftrightarrow> 0 < scoreOrZero r"
  by (auto simp: gateFailure_def scoreOrZero_def split: rule_result.splits)

record rule_wallet =
  rw_address :: string
  rw_sampleBlock :: nat

section \<open>The chain\<close>

datatype 'a chain_read = Answer 'a | Refused | Unreachable string

record chain_client =
  ch_supports :: "string \<Rightarrow> string \<Rightarrow> nat \<Rightarrow> bool chain_read"
  ch_balanceOf :: "string \<Rightarrow> string \<Rightarrow> nat \<Rightarrow> nat chain_read"
  ch_multicall :: "nat \<Rightarrow> string \<Rightarrow> string list \<Rightarrow> nat \<Rightarrow> nat list chain_read" \<comment> \<open>attempt, contract, wallets, block\<close>
  ch_hasMulticall :: bool
  ch_hasMulticall3 :: bool

fun read_res :: "'a chain_read \<Rightarrow> 'a res" where
  "read_res (Answer x) = Inr x"
| "read_res Refused = Inl (Infra ''reverted'')"
| "read_res (Unreachable e) = Inl (Infra e)"

section \<open>Shared balance reads\<close>

definition READS_PER_MULTICALL :: nat where
  "READS_PER_MULTICALL = 200"

definition scoreOf :: "nat \<Rightarrow> nat \<Rightarrow> nat" where
  "scoreOf balance mn = (if mn \<le> balance then balance else 0)"

definition shortfallError :: "nat \<Rightarrow> nat \<Rightarrow> string \<Rightarrow> string" where
  "shortfallError balance mn contract =
     (if balance = 0 then ''this wallet holds none of the gate token ('' @ contract @ '')''
      else ''this wallet holds '' @ show_nat balance @ '' of the gate token ('' @ contract @
           ''), but '' @ show_nat mn @ '' are required'')"

definition canBatch :: "chain_client \<Rightarrow> bool" where
  "canBatch chain \<longleftrightarrow> ch_hasMulticall chain \<and> ch_hasMulticall3 chain"

definition balanceOf :: "(string \<Rightarrow> string res) \<Rightarrow> chain_client \<Rightarrow> string \<Rightarrow> string \<Rightarrow> nat \<Rightarrow> nat res" where
  "balanceOf addr chain contract wallet block =
     sbind (addr wallet) (\<lambda>a. read_res (ch_balanceOf chain contract a block))"

definition readChunk ::
  "(string \<Rightarrow> string res) \<Rightarrow> chain_client \<Rightarrow> string \<Rightarrow> nat \<Rightarrow> nat \<Rightarrow> string list \<Rightarrow> nat list res" where
  "readChunk addr chain contract block attempt chunk =
     sbind (traverse addr chunk) (\<lambda>as. read_res (ch_multicall chain attempt contract as block))"

text \<open>A chunk that fails is read once more; failing twice fails the call. The workers fill disjoint
  index ranges, so the chunks' reads are concatenated.\<close>

definition balancesOfBatched ::
  "(string \<Rightarrow> string res) \<Rightarrow> chain_client \<Rightarrow> string \<Rightarrow> string list \<Rightarrow> nat \<Rightarrow> nat list res" where
  "balancesOfBatched addr chain contract wallets block =
     sbind (traverse (\<lambda>chunk. case readChunk addr chain contract block 0 chunk of
                        Inr read \<Rightarrow> Inr read
                      | Inl _ \<Rightarrow> readChunk addr chain contract block 1 chunk)
              (chunks_of READS_PER_MULTICALL wallets))
       (\<lambda>reads. Inr (concat reads))"

definition balances_at ::
  "(string \<Rightarrow> string res) \<Rightarrow> chain_client \<Rightarrow> string \<Rightarrow> string list \<Rightarrow> nat \<Rightarrow> nat list res" where
  "balances_at addr chain contract wallets block =
     (if canBatch chain then balancesOfBatched addr chain contract wallets block
      else traverse (\<lambda>w. balanceOf addr chain contract w block) wallets)"

text \<open>What a multicall is documented to answer: what the reads it folds would have answered.\<close>

definition multicall_law :: "chain_client \<Rightarrow> bool" where
  "multicall_law chain \<longleftrightarrow>
     (\<forall>contract as block bs.
        list_all2 (\<lambda>a b. ch_balanceOf chain contract a block = Answer b) as bs \<longrightarrow>
        (\<exists>attempt \<in> {0, 1}. ch_multicall chain attempt contract as block = Answer bs) \<and>
        (\<forall>attempt r. ch_multicall chain attempt contract as block = Answer r \<longrightarrow> r = bs))"

lemma read_res_Inr [res_simps]: "read_res r = Inr x \<longleftrightarrow> r = Answer x"
  by (cases r) auto

lemma readChunk_total:
  assumes law: "multicall_law chain"
    and r: "\<And>w. w \<in> set chunk \<Longrightarrow> balanceOf addr chain contract w block = Inr (f w)"
  shows "(case readChunk addr chain contract block 0 chunk of
            Inr read \<Rightarrow> Inr read | Inl _ \<Rightarrow> readChunk addr chain contract block 1 chunk) = Inr (map f chunk)"
proof -
  have "\<exists>a. addr w = Inr a \<and> ch_balanceOf chain contract a block = Answer (f w)" if "w \<in> set chunk" for w
    using r [OF that] by (auto simp: balanceOf_def res_simps)
  then obtain g where g: "\<And>w. w \<in> set chunk \<Longrightarrow> addr w = Inr (g w)"
    "\<And>w. w \<in> set chunk \<Longrightarrow> ch_balanceOf chain contract (g w) block = Answer (f w)" by metis
  have as: "traverse addr chunk = Inr (map g chunk)" using g(1) by (rule traverse_total)
  have "list_all2 (\<lambda>a b. ch_balanceOf chain contract a block = Answer b) (map g chunk) (map f chunk)"
    using g(2) by (simp add: list_all2_map1 list_all2_map2 list.rel_refl_strong)
  with law have mc: "\<exists>attempt \<in> {0, 1}. ch_multicall chain attempt contract (map g chunk) block = Answer (map f chunk)"
    and only: "\<And>attempt r. ch_multicall chain attempt contract (map g chunk) block = Answer r \<Longrightarrow> r = map f chunk"
    unfolding multicall_law_def by blast+
  show ?thesis
    using mc only [of 0] unfolding readChunk_def as
    by (cases "ch_multicall chain 0 contract (map g chunk) block") auto
qed

text \<open>Batched or not, retried or not, the balances are those of the single reads.\<close>

lemma balances_at_total:
  assumes law: "multicall_law chain"
    and r: "\<And>w. w \<in> set wallets \<Longrightarrow> balanceOf addr chain contract w block = Inr (f w)"
  shows "balances_at addr chain contract wallets block = Inr (map f wallets)"
proof (cases "canBatch chain")
  case True
  have pos: "0 < READS_PER_MULTICALL" by (simp add: READS_PER_MULTICALL_def)
  have sub: "set chunk \<subseteq> set wallets" if "chunk \<in> set (chunks_of READS_PER_MULTICALL wallets)" for chunk
    using that concat_chunks_of [OF pos, of wallets] by (metis UN_upper set_concat)
  have "traverse (\<lambda>chunk. case readChunk addr chain contract block 0 chunk of
            Inr read \<Rightarrow> Inr read | Inl _ \<Rightarrow> readChunk addr chain contract block 1 chunk)
      (chunks_of READS_PER_MULTICALL wallets) = Inr (map (map f) (chunks_of READS_PER_MULTICALL wallets))"
    using sub r by (intro traverse_total readChunk_total [OF law]) blast
  then show ?thesis
    using True by (simp add: balances_at_def balancesOfBatched_def map_concat [symmetric] concat_chunks_of [OF pos])
next
  case False
  with r show ?thesis by (simp add: balances_at_def traverse_total)
qed

section \<open>Grouping by block\<close>

definition by_block :: "rule_wallet list \<Rightarrow> nat list \<Rightarrow> (nat, nat list) jsmap" where
  "by_block wallets indexes =
     fold (\<lambda>i m. let block = rw_sampleBlock (wallets ! i) in
             jset block ((case jget m block of None \<Rightarrow> [] | Some is \<Rightarrow> is) @ [i]) m) indexes []"

text \<open>\<open>results[at] = r\<close> for every pair written; the last wr to an index would win.\<close>

definition fill_results :: "nat \<Rightarrow> (nat \<times> 'r) list \<Rightarrow> (nat \<Rightarrow> 'r) \<Rightarrow> 'r list" where
  "fill_results n writes initial =
     map (\<lambda>i. case jget (rev writes) i of None \<Rightarrow> initial i | Some r \<Rightarrow> r) [0..<n]"

lemma by_block_fold:
  fixes ws :: "rule_wallet list"
  defines "step \<equiv> \<lambda>i m. let block = rw_sampleBlock (ws ! i) in
             jset block ((case jget m block of None \<Rightarrow> [] | Some is \<Rightarrow> is) @ [i]) m"
  assumes "jwf m" "\<And>b is. (b, is) \<in> set m \<Longrightarrow> \<forall>i \<in> set is. i \<in> A \<and> rw_sampleBlock (ws ! i) = b" "set js \<subseteq> A"
    "B \<subseteq> \<Union> (set ` snd ` set m)"
  shows "jwf (fold step js m) \<and>
    (\<forall>(b, is) \<in> set (fold step js m). \<forall>i \<in> set is. i \<in> A \<and> rw_sampleBlock (ws ! i) = b) \<and>
    B \<union> set js \<subseteq> \<Union> (set ` snd ` set (fold step js m))"
  using assms(2-)
proof (induction js arbitrary: m B)
  case Nil
  then show ?case by auto
next
  case (Cons j js)
  let ?b = "rw_sampleBlock (ws ! j)"
  let ?old = "case jget m ?b of None \<Rightarrow> [] | Some is \<Rightarrow> is"
  let ?m = "jset ?b (?old @ [j]) m"
  have old: "\<forall>i \<in> set ?old. i \<in> A \<and> rw_sampleBlock (ws ! i) = ?b"
    using Cons.prems(2) [OF jget_SomeD] by (cases "jget m ?b") auto
  have wf: "jwf ?m" using Cons.prems(1) by auto
  have mem: "(b, is) \<in> set ?m \<longleftrightarrow> (if b = ?b then is = ?old @ [j] else (b, is) \<in> set m)" for b "is"
    unfolding jget_mem [OF wf] jget_mem [OF Cons.prems(1)] by (auto simp: jsmap_simps)
  have inv: "\<forall>i \<in> set is. i \<in> A \<and> rw_sampleBlock (ws ! i) = b" if "(b, is) \<in> set ?m" for b "is"
  proof (cases "b = ?b")
    case True
    with that mem [of b "is"] have "is = ?old @ [j]" by simp
    with old True Cons.prems(3) show ?thesis by simp
  next
    case False
    with that mem [of b "is"] show ?thesis by (intro Cons.prems(2)) simp
  qed
  have cov: "insert j B \<subseteq> \<Union> (set ` snd ` set ?m)"
  proof
    fix i assume "i \<in> insert j B"
    then consider "i = j" | b "is" where "(b, is) \<in> set m" "i \<in> set is" using Cons.prems(4) by force
    then show "i \<in> \<Union> (set ` snd ` set ?m)"
    proof cases
      case 1
      then show ?thesis using mem [of ?b "?old @ [j]"] by force
    next
      case 2
      show ?thesis
      proof (cases "b = ?b")
        case True
        with 2 have "jget m ?b = Some is" using jget_mem [OF Cons.prems(1)] by blast
        with 2 mem [of ?b "?old @ [j]"] show ?thesis by force
      next
        case False
        with 2 mem [of b "is"] show ?thesis by force
      qed
    qed
  qed
  have "fold step (j # js) m = fold step js ?m" by (simp add: step_def Let_def)
  with Cons.IH [OF wf inv _ cov] Cons.prems(3) show ?case by auto
qed

lemma by_block_spec:
  "(b, is) \<in> set (by_block ws js) \<Longrightarrow> i \<in> set is \<Longrightarrow> i \<in> set js \<and> rw_sampleBlock (ws ! i) = b"
  "i \<in> set js \<Longrightarrow> \<exists>(b, is) \<in> set (by_block ws js). i \<in> set is"
  using by_block_fold [of "[]" "set js" ws js "{}"] unfolding by_block_def by fastforce+

lemma fill_results_eq:
  assumes "\<And>i r. (i, r) \<in> set writes \<Longrightarrow> r = g i"
    and "\<And>i. i < n \<Longrightarrow> i \<notin> fst ` set writes \<Longrightarrow> initial i = g i"
  shows "fill_results n writes initial = map g [0..<n]"
proof -
  have "(case jget (rev writes) i of None \<Rightarrow> initial i | Some r \<Rightarrow> r) = g i" if "i < n" for i
  proof (cases "jget (rev writes) i")
    case None
    then have "i \<notin> fst ` set writes" by (simp add: map_of_eq_None_iff)
    with None that assms(2) show ?thesis by simp
  next
    case (Some r)
    from jget_SomeD [OF Some] assms(1) have "r = g i" by simp
    with Some show ?thesis by simp
  qed
  then show ?thesis by (simp add: fill_results_def)
qed

section \<open>The rules\<close>

text \<open>\<open>constant\<close>: every wallet scores the option's value.\<close>

definition constant_evaluate :: "nat \<Rightarrow> rule_wallet \<Rightarrow> rule_result res" where
  "constant_evaluate opt_value wallet = Inr (RSuccess (int opt_value))"

text \<open>\<open>erc20-balance\<close>: \<open>minUnits\<close> is \<open>parseUnits(min, decimals)\<close>; \<open>fmt\<close> is \<open>formatUnits\<close>.\<close>

definition erc20_evaluate ::
  "(string \<Rightarrow> string res) \<Rightarrow> chain_client \<Rightarrow> (nat \<Rightarrow> string) \<Rightarrow> string \<Rightarrow> nat \<Rightarrow> string \<Rightarrow>
     rule_wallet \<Rightarrow> rule_result res" where
  "erc20_evaluate addr chain fmt contract minUnits minText wallet =
     sbind (addr contract) (\<lambda>a.
     sbind (balanceOf addr chain a (rw_address wallet) (rw_sampleBlock wallet)) (\<lambda>raw.
       if minUnits \<le> raw then Inr (RSuccess (int raw))
       else Inr (RFail (''this wallet holds '' @ fmt raw @ '' of the gate token ('' @ a @ ''), but '' @
                        minText @ '' is required'') None)))"

definition pinnedResult :: "nat \<Rightarrow> nat \<Rightarrow> string \<Rightarrow> rule_result" where
  "pinnedResult balance mn contract =
     (let score = scoreOf balance mn in
      if 0 < score then RSuccess (int score) else RFail (shortfallError balance mn contract) None)"

definition erc721_evaluate ::
  "(string \<Rightarrow> string res) \<Rightarrow> chain_client \<Rightarrow> string \<Rightarrow> nat \<Rightarrow> rule_wallet \<Rightarrow> rule_result res" where
  "erc721_evaluate addr chain contract mn wallet =
     sbind (addr contract) (\<lambda>a.
     sbind (balanceOf addr chain a (rw_address wallet) (rw_sampleBlock wallet)) (\<lambda>balance.
       Inr (pinnedResult balance mn a)))"

definition erc721_evaluateMany ::
  "(string \<Rightarrow> string res) \<Rightarrow> chain_client \<Rightarrow> string \<Rightarrow> nat \<Rightarrow> rule_wallet list \<Rightarrow> rule_result list res" where
  "erc721_evaluateMany addr chain contract mn wallets =
     sbind (addr contract) (\<lambda>a.
     sbind (traverse (\<lambda>(block, indexes).
              sbind (balances_at addr chain a (map (\<lambda>i. rw_address (wallets ! i)) indexes) block) (\<lambda>balances.
                Inr (zip indexes (map (\<lambda>b. pinnedResult b mn a) balances))))
            (by_block wallets [0..<length wallets])) (\<lambda>writes.
       Inr (fill_results (length wallets) (concat writes) (\<lambda>_. pinnedResult 0 mn a))))"

lemma zip_map_self: "zip xs (map f xs) = map (\<lambda>x. (x, f x)) xs"
  by (induction xs) auto

lemma erc721_many_is_map:
  assumes law: "multicall_law chain"
    and r: "\<And>w. w \<in> set wallets \<Longrightarrow> erc721_evaluate addr chain contract mn w = Inr (g w)"
    and ne: "wallets \<noteq> []"
  shows "erc721_evaluateMany addr chain contract mn wallets = Inr (map g wallets)"
proof -
  obtain w0 where "w0 \<in> set wallets" using ne by (cases wallets) auto
  from r [OF this] obtain a where a: "addr contract = Inr a" by (auto simp: erc721_evaluate_def res_simps)
  have "\<exists>b. balanceOf addr chain a (rw_address w) (rw_sampleBlock w) = Inr b \<and> g w = pinnedResult b mn a"
    if "w \<in> set wallets" for w
    using r [OF that] a by (auto simp: erc721_evaluate_def res_simps)
  then obtain bal where bal: "\<And>w. w \<in> set wallets \<Longrightarrow> balanceOf addr chain a (rw_address w) (rw_sampleBlock w) = Inr (bal w)"
    "\<And>w. w \<in> set wallets \<Longrightarrow> g w = pinnedResult (bal w) mn a" by metis
  let ?groups = "by_block wallets [0..<length wallets]"
  define wr where "wr = (\<lambda>(block :: nat, indexes). map (\<lambda>i. (i, g (wallets ! i))) indexes)"
  have one: "sbind (balances_at addr chain a (map (\<lambda>i. rw_address (wallets ! i)) indexes) block) (\<lambda>balances.
      Inr (zip indexes (map (\<lambda>b. pinnedResult b mn a) balances))) = (Inr (wr (block, indexes)) :: (nat \<times> rule_result) list res)"
    if p: "(block, indexes) \<in> set ?groups" for block indexes
  proof -
    have i: "i < length wallets \<and> rw_sampleBlock (wallets ! i) = block" if "i \<in> set indexes" for i
      using by_block_spec(1) [OF p that] by simp
    define f where "f = (\<lambda>w. case balanceOf addr chain a w block of Inr b \<Rightarrow> b | Inl _ \<Rightarrow> 0)"
    have f: "f (rw_address (wallets ! i)) = bal (wallets ! i)" if "i \<in> set indexes" for i
      using bal(1) [of "wallets ! i"] i [OF that] by (auto simp: f_def)
    have "balances_at addr chain a (map (\<lambda>i. rw_address (wallets ! i)) indexes) block =
        Inr (map f (map (\<lambda>i. rw_address (wallets ! i)) indexes))"
    proof (rule balances_at_total [OF law])
      fix w assume "w \<in> set (map (\<lambda>i. rw_address (wallets ! i)) indexes)"
      then obtain j where "j \<in> set indexes" "w = rw_address (wallets ! j)" by auto
      with bal(1) [of "wallets ! j"] i [of j] show "balanceOf addr chain a w block = Inr (f w)"
        by (auto simp: f_def)
    qed
    moreover have "map (\<lambda>b. pinnedResult b mn a) (map f (map (\<lambda>i. rw_address (wallets ! i)) indexes)) =
        map (\<lambda>i. g (wallets ! i)) indexes"
      using f bal(2) i by auto
    ultimately show ?thesis by (simp add: wr_def zip_map_self del: map_map)
  qed
  then have tr: "traverse (\<lambda>(block, indexes).
      sbind (balances_at addr chain a (map (\<lambda>i. rw_address (wallets ! i)) indexes) block) (\<lambda>balances.
      Inr (zip indexes (map (\<lambda>b. pinnedResult b mn a) balances)))) ?groups = (Inr (map wr ?groups) :: (nat \<times> rule_result) list list res)"
    by (intro traverse_total) auto
  have "fill_results (length wallets) (concat (map wr ?groups)) (\<lambda>_. pinnedResult 0 mn a) =
      map (\<lambda>i. g (wallets ! i)) [0..<length wallets]"
  proof (rule fill_results_eq)
    show "r = g (wallets ! i)" if "(i, r) \<in> set (concat (map wr ?groups))" for i r
      using that by (auto simp: wr_def)
    fix i assume "i < length wallets" "i \<notin> fst ` set (concat (map wr ?groups))"
    moreover from by_block_spec(2) [of i "[0..<length wallets]" wallets] \<open>i < length wallets\<close>
    obtain b "is" where "(b, is) \<in> set ?groups" "i \<in> set is" by auto
    ultimately show "pinnedResult 0 mn a = g (wallets ! i)" by (force simp: wr_def)
  qed
  also have "\<dots> = map g wallets"
    by (rule nth_equalityI) simp_all
  finally show ?thesis unfolding erc721_evaluateMany_def a sbind_simps tr by simp
qed

end
