(* ===== verification/Erc5192.thy ===== *)
theory Erc5192
  imports Rules
begin

text \<open>
  The v1 gate, \<open>src/rules/erc5192-min-balance.ts\<close>: score at this verifier's head, fall back to
  the pinned block each ballot names, memoize both legs under their own epochs, and never blame
  the sender. The locale \<open>purging_memo\<close> is the memo it runs on; the main lemma says that a batch
  over a sound memo answers every wallet as the two reads of the chain determine.
\<close>

definition ERC5192_INTERFACE_ID :: string where
  "ERC5192_INTERFACE_ID = ''0xb45a3c0e''"

definition HEAD_EPOCH_BLOCKS :: nat where
  "HEAD_EPOCH_BLOCKS = 30"

definition HEAD_PREFIX :: string where
  "HEAD_PREFIX = ''head/''"

definition PINNED_PREFIX :: string where
  "PINNED_PREFIX = ''pin/''"

definition undeclaredError :: "string \<Rightarrow> string" where
  "undeclaredError contract =
     ''the gate contract '' @ contract @
     '' does not declare ERC-5192, so it gates nothing and no wallet can qualify '' @
     ''-- this contest's criteria name a contract that is not soulbound''"

definition UNKNOWN_ERROR :: string where
  "UNKNOWN_ERROR = ''this wallet does not qualify for this contest's gate''"

text \<open>A revert is the chain's answer; an unreachable gateway is not.\<close>

definition declaresErc5192 :: "chain_client \<Rightarrow> string \<Rightarrow> nat \<Rightarrow> bool res" where
  "declaresErc5192 chain contract block =
     (case ch_supports chain contract ERC5192_INTERFACE_ID block of
        Answer declares \<Rightarrow> Inr declares
      | Refused \<Rightarrow> Inr False
      | Unreachable e \<Rightarrow> Inl (Infra e))"

text \<open>\<open>BigInt(text)\<close> on the memo's strings.\<close>

definition bigint_of :: "string \<Rightarrow> nat res" where
  "bigint_of s = require_some (PlainError ''BigInt'') (js_number s)"

definition scoreAt ::
  "(string \<Rightarrow> nat \<Rightarrow> 'c \<Rightarrow> 'c \<times> string option) \<Rightarrow> (string \<Rightarrow> nat \<Rightarrow> string \<Rightarrow> 'c \<Rightarrow> 'c) \<Rightarrow>
   (string \<Rightarrow> string res) \<Rightarrow> chain_client \<Rightarrow> string \<Rightarrow> nat \<Rightarrow> string list \<Rightarrow> nat \<Rightarrow> nat \<Rightarrow> string \<Rightarrow>
     'c \<Rightarrow> 'c \<times> (nat list \<times> string option list) res" where
  "scoreAt get put addr chain contract mn wallets block epoch prefix c =
     (if wallets = [] then (c, Inr ([], []))
      else case memoManyOver get put [prefix @ ''lock/'' @ to_lower contract] epoch
                  (\<lambda>_. sbind (declaresErc5192 chain contract block) (\<lambda>d. Inr [if d then ''1'' else ''0''])) c of
        (c, Inl e) \<Rightarrow> (c, Inl e)
      | (c, Inr declared) \<Rightarrow>
          if hd declared \<noteq> ''1''
          then (c, Inr (map (\<lambda>_. 0) wallets, map (\<lambda>_. Some (undeclaredError contract)) wallets))
          else case memoManyOver get put (map (\<lambda>w. prefix @ ''bal/'' @ to_lower w) wallets) epoch
                      (\<lambda>keys. sbind (balances_at addr chain contract (map (after_last CHR ''/'') keys) block)
                                (\<lambda>balances. Inr (map show_nat balances))) c of
            (c, Inl e) \<Rightarrow> (c, Inl e)
          | (c, Inr values) \<Rightarrow>
              (c, sbind (traverse bigint_of values) (\<lambda>balances.
                    Inr (map (\<lambda>b. scoreOf b mn) balances,
                         map (\<lambda>b. if 0 < scoreOf b mn then None else Some (shortfallError b mn contract)) balances))))"

definition resultOf :: "nat \<Rightarrow> string option \<Rightarrow> rule_result" where
  "resultOf score err =
     (if 0 < score then RSuccess (int score)
      else RFail (case err of None \<Rightarrow> UNKNOWN_ERROR | Some e \<Rightarrow> e) (Some False))"

text \<open>\<open>Promise.all\<close> over effects on a shared memo: every branch runs, the first throw is thrown.\<close>

fun straverse :: "('a \<Rightarrow> 'c \<Rightarrow> 'c \<times> 'b res) \<Rightarrow> 'a list \<Rightarrow> 'c \<Rightarrow> 'c \<times> 'b list res" where
  "straverse f [] c = (c, Inr [])"
| "straverse f (x # xs) c =
     (case f x c of (c, r) \<Rightarrow>
      case straverse f xs c of (c, rs) \<Rightarrow> (c, sbind r (\<lambda>y. sbind rs (\<lambda>ys. Inr (y # ys)))))"

definition erc5192_evaluateMany ::
  "(string \<Rightarrow> nat \<Rightarrow> 'c \<Rightarrow> 'c \<times> string option) \<Rightarrow> (string \<Rightarrow> nat \<Rightarrow> string \<Rightarrow> 'c \<Rightarrow> 'c) \<Rightarrow>
   (nat \<Rightarrow> string option \<Rightarrow> 'c \<Rightarrow> 'c) \<Rightarrow> (string \<Rightarrow> string res) \<Rightarrow> chain_client \<Rightarrow> nat res \<Rightarrow>
   string \<Rightarrow> nat \<Rightarrow> rule_wallet list \<Rightarrow> 'c \<Rightarrow> 'c \<times> rule_result list res" where
  "erc5192_evaluateMany get put purge addr chain readHead contractText mn wallets c =
     (case addr contractText of Inl e \<Rightarrow> (c, Inl e) | Inr contract \<Rightarrow>
      case readHead of Inl e \<Rightarrow> (c, Inl e) | Inr head \<Rightarrow>
      let epoch = head div HEAD_EPOCH_BLOCKS * HEAD_EPOCH_BLOCKS;
          c = purge epoch (Some HEAD_PREFIX) c in
      case scoreAt get put addr chain contract mn (map rw_address wallets) head epoch HEAD_PREFIX c of
        (c, Inl e) \<Rightarrow> (c, Inl e)
      | (c, Inr (scores, errors)) \<Rightarrow>
          let refused = filter (\<lambda>i. scores ! i = 0) [0..<length wallets] in
          case straverse (\<lambda>(block, indexes) c.
                 case scoreAt get put addr chain contract mn (map (\<lambda>i. rw_address (wallets ! i)) indexes)
                        block block PINNED_PREFIX c of
                   (c, Inl e) \<Rightarrow> (c, Inl e)
                 | (c, Inr (fscores, ferrors)) \<Rightarrow> (c, Inr (zip indexes (zip fscores ferrors))))
               (by_block wallets refused) c of
            (c, Inl e) \<Rightarrow> (c, Inl e)
          | (c, Inr writes) \<Rightarrow>
              (c, Inr (map (\<lambda>(score, err). resultOf score err)
                        (fill_results (length wallets) (concat writes) (\<lambda>i. (scores ! i, errors ! i))))))"

definition erc5192_evaluate ::
  "(string \<Rightarrow> nat \<Rightarrow> 'c \<Rightarrow> 'c \<times> string option) \<Rightarrow> (string \<Rightarrow> nat \<Rightarrow> string \<Rightarrow> 'c \<Rightarrow> 'c) \<Rightarrow>
   (nat \<Rightarrow> string option \<Rightarrow> 'c \<Rightarrow> 'c) \<Rightarrow> (string \<Rightarrow> string res) \<Rightarrow> chain_client \<Rightarrow> nat res \<Rightarrow>
   string \<Rightarrow> nat \<Rightarrow> rule_wallet \<Rightarrow> 'c \<Rightarrow> 'c \<times> rule_result res" where
  "erc5192_evaluate get put purge addr chain readHead contractText mn wallet c =
     (case erc5192_evaluateMany get put purge addr chain readHead contractText mn [wallet] c of
        (c, r) \<Rightarrow> (c, sbind r (\<lambda>rs. Inr (hd rs))))"

section \<open>What the chain says of a wallet\<close>

text \<open>\<open>D b\<close>: does the contract declare ERC-5192 at block \<open>b\<close>; \<open>B w b\<close>: the balance of the (lower
  case) wallet \<open>w\<close> there.\<close>

definition leg_score :: "(nat \<Rightarrow> bool) \<Rightarrow> (string \<Rightarrow> nat \<Rightarrow> nat) \<Rightarrow> nat \<Rightarrow> string \<Rightarrow> nat \<Rightarrow> nat" where
  "leg_score D B mn w block = (if D block then scoreOf (B (to_lower w) block) mn else 0)"

definition leg_error ::
  "(nat \<Rightarrow> bool) \<Rightarrow> (string \<Rightarrow> nat \<Rightarrow> nat) \<Rightarrow> nat \<Rightarrow> string \<Rightarrow> string \<Rightarrow> nat \<Rightarrow> string option" where
  "leg_error D B mn contract w block =
     (if \<not> D block then Some (undeclaredError contract)
      else if 0 < scoreOf (B (to_lower w) block) mn then None
      else Some (shortfallError (B (to_lower w) block) mn contract))"

definition erc5192_spec ::
  "(nat \<Rightarrow> bool) \<Rightarrow> (string \<Rightarrow> nat \<Rightarrow> nat) \<Rightarrow> nat \<Rightarrow> string \<Rightarrow> nat \<Rightarrow> rule_wallet \<Rightarrow> rule_result" where
  "erc5192_spec D B mn contract head w =
     (if 0 < leg_score D B mn (rw_address w) head
      then RSuccess (int (leg_score D B mn (rw_address w) head))
      else resultOf (leg_score D B mn (rw_address w) (rw_sampleBlock w))
             (leg_error D B mn contract (rw_address w) (rw_sampleBlock w)))"

text \<open>The chain answers every read the batch can make.\<close>

definition chain_answers ::
  "(string \<Rightarrow> string res) \<Rightarrow> chain_client \<Rightarrow> string \<Rightarrow> (nat \<Rightarrow> bool) \<Rightarrow> (string \<Rightarrow> nat \<Rightarrow> nat) \<Rightarrow>
     nat set \<Rightarrow> string set \<Rightarrow> bool" where
  "chain_answers addr chain contract D B blocks ws \<longleftrightarrow>
     multicall_law chain \<and>
     (\<forall>b \<in> blocks. declaresErc5192 chain contract b = Inr (D b)) \<and>
     (\<forall>b \<in> blocks. \<forall>w \<in> ws. balanceOf addr chain contract (to_lower w) b = Inr (B (to_lower w) b)) \<and>
     (\<forall>w \<in> ws. CHR ''/'' \<notin> set w)"

lemma chain_answers_mono:
  "chain_answers addr chain contract D B blocks ws \<Longrightarrow> ws' \<subseteq> ws \<Longrightarrow>
     chain_answers addr chain contract D B blocks ws'"
  unfolding chain_answers_def subset_iff by simp

text \<open>What every memo entry says, at this head.\<close>

definition memo_truth ::
  "(nat \<Rightarrow> bool) \<Rightarrow> (string \<Rightarrow> nat \<Rightarrow> nat) \<Rightarrow> string \<Rightarrow> nat \<Rightarrow> string \<Rightarrow> nat \<Rightarrow> string" where
  "memo_truth D B contract head key epoch =
     (let flag = (\<lambda>b. if D b then ''1'' else ''0'') in
      if key = HEAD_PREFIX @ ''lock/'' @ to_lower contract then flag head
      else if key = PINNED_PREFIX @ ''lock/'' @ to_lower contract then flag epoch
      else if starts_with HEAD_PREFIX key then show_nat (B (after_last CHR ''/'' key) head)
      else show_nat (B (after_last CHR ''/'' key) epoch))"

lemma lower_char_slash: "lower_char c = CHR ''/'' \<Longrightarrow> c = CHR ''/''"
proof -
  assume "lower_char c = CHR ''/''"
  then have "(of_char (lower_char c) :: nat) = 47" by simp
  then have "(of_char c :: nat) = 47" by (auto simp: lower_char_def Let_def split: if_splits)
  moreover have "of_char CHR ''/'' = (47 :: nat)" by simp
  ultimately show ?thesis by (metis of_char_eq_iff)
qed

lemma slash_to_lower: "CHR ''/'' \<notin> set w \<Longrightarrow> CHR ''/'' \<notin> set (to_lower w)"
  using lower_char_slash by (force simp: to_lower_def)

lemma after_last_slash: "CHR ''/'' \<notin> set w \<Longrightarrow> after_last CHR ''/'' (p @ ''bal/'' @ w) = w"
proof -
  assume "CHR ''/'' \<notin> set w"
  then have "takeWhile (\<lambda>x. x \<noteq> CHR ''/'') (rev w @ CHR ''/'' # CHR ''l'' # CHR ''a'' # CHR ''b'' # rev p) = rev w"
    by (subst takeWhile_append2) auto
  then show ?thesis by (simp add: after_last_def)
qed

lemma memo_truth_simps:
  "memo_truth D B a head (HEAD_PREFIX @ ''lock/'' @ to_lower a) e = (if D head then ''1'' else ''0'')"
  "memo_truth D B a head (PINNED_PREFIX @ ''lock/'' @ to_lower a) e = (if D e then ''1'' else ''0'')"
  "CHR ''/'' \<notin> set w \<Longrightarrow> memo_truth D B a head (HEAD_PREFIX @ ''bal/'' @ to_lower w) e = show_nat (B (to_lower w) head)"
  "CHR ''/'' \<notin> set w \<Longrightarrow> memo_truth D B a head (PINNED_PREFIX @ ''bal/'' @ to_lower w) e = show_nat (B (to_lower w) e)"
proof -
  show "memo_truth D B a head (HEAD_PREFIX @ ''lock/'' @ to_lower a) e = (if D head then ''1'' else ''0'')"
    "memo_truth D B a head (PINNED_PREFIX @ ''lock/'' @ to_lower a) e = (if D e then ''1'' else ''0'')"
    by (simp_all add: memo_truth_def HEAD_PREFIX_def PINNED_PREFIX_def)
  assume w: "CHR ''/'' \<notin> set w"
  note al = after_last_slash [OF slash_to_lower [OF w]]
  show "memo_truth D B a head (HEAD_PREFIX @ ''bal/'' @ to_lower w) e = show_nat (B (to_lower w) head)"
    "memo_truth D B a head (PINNED_PREFIX @ ''bal/'' @ to_lower w) e = show_nat (B (to_lower w) e)"
    unfolding memo_truth_def Let_def al by (simp_all add: HEAD_PREFIX_def PINNED_PREFIX_def starts_with_def)
qed

section \<open>Running on a memo\<close>

locale purging_memo = rule_memo get put sound
  for get :: "string \<Rightarrow> nat \<Rightarrow> 'c \<Rightarrow> 'c \<times> string option"
    and put :: "string \<Rightarrow> nat \<Rightarrow> string \<Rightarrow> 'c \<Rightarrow> 'c"
    and sound :: "(string \<Rightarrow> nat \<Rightarrow> string) \<Rightarrow> 'c \<Rightarrow> bool" +
  fixes purge :: "nat \<Rightarrow> string option \<Rightarrow> 'c \<Rightarrow> 'c"
  assumes purge_sound: "sound f c \<Longrightarrow> sound f (purge e p c)"
begin

lemma scoreAt_spec:
  assumes c: "sound f c"
    and ans: "chain_answers addr chain contract D B blocks (set wallets)" "block \<in> blocks"
    and lock: "f (prefix @ ''lock/'' @ to_lower contract) epoch = (if D block then ''1'' else ''0'')"
    and bal: "\<And>w. w \<in> set wallets \<Longrightarrow> f (prefix @ ''bal/'' @ to_lower w) epoch = show_nat (B (to_lower w) block)"
  shows "\<exists>c'. scoreAt get put addr chain contract mn wallets block epoch prefix c =
      (c', Inr (map (\<lambda>w. leg_score D B mn w block) wallets, map (\<lambda>w. leg_error D B mn contract w block) wallets)) \<and>
      sound f c'"
proof (cases "wallets = []")
  case True
  with c show ?thesis by (simp add: scoreAt_def)
next
  case ne: False
  let ?lock = "[prefix @ ''lock/'' @ to_lower contract]"
  let ?read1 = "\<lambda>_ :: string list. sbind (declaresErc5192 chain contract block) (\<lambda>d. Inr [if d then ''1'' else ''0''])"
  have d: "declaresErc5192 chain contract block = Inr (D block)" using ans by (simp add: chain_answers_def)
  text \<open>The probe is keyed by the contract, so its one missing key is the one asked for.\<close>
  have "\<exists>c1. memoManyOver get put ?lock epoch ?read1 c = (c1, Inr (map (\<lambda>k. f k epoch) ?lock)) \<and> sound f c1"
    using d lock single_key by (intro memoMany_sound [OF c]) fastforce
  then obtain c1 where c1: "memoManyOver get put ?lock epoch ?read1 c = (c1, Inr [if D block then ''1'' else ''0''])"
    "sound f c1" using lock by auto
  show ?thesis
  proof (cases "D block")
    case False
    then show ?thesis using ne c1 by (simp add: scoreAt_def leg_score_def leg_error_def)
  next
    case True
    let ?keys = "map (\<lambda>w. prefix @ ''bal/'' @ to_lower w) wallets"
    let ?read2 = "\<lambda>keys. sbind (balances_at addr chain contract (map (after_last CHR ''/'') keys) block)
                                (\<lambda>balances. Inr (map show_nat balances))"
    have read2: "?read2 ks = Inr (map (\<lambda>k. f k epoch) ks)" if ks: "set ks \<subseteq> set ?keys" for ks
    proof -
      have k: "\<exists>w \<in> set wallets. k = prefix @ ''bal/'' @ to_lower w \<and> after_last CHR ''/'' k = to_lower w"
        if "k \<in> set ks" for k
      proof -
        from that ks obtain w where w: "w \<in> set wallets" "k = prefix @ ''bal/'' @ to_lower w" by auto
        then have "CHR ''/'' \<notin> set (to_lower w)" using ans(1) slash_to_lower by (auto simp: chain_answers_def)
        with w show ?thesis using after_last_slash by blast
      qed
      have "balances_at addr chain contract (map (after_last CHR ''/'') ks) block =
          Inr (map (\<lambda>w. B w block) (map (after_last CHR ''/'') ks))"
      proof (rule balances_at_total)
        show "multicall_law chain" using ans(1) by (simp add: chain_answers_def)
        fix x assume "x \<in> set (map (after_last CHR ''/'') ks)"
        with k ans show "balanceOf addr chain contract x block = Inr (B x block)"
          by (fastforce simp: chain_answers_def)
      qed
      moreover have "show_nat (B (after_last CHR ''/'' x) block) = f x epoch" if "x \<in> set ks" for x
        using k [OF that] bal by auto
      ultimately show ?thesis by simp
    qed
    from memoMany_sound [OF c1(2) read2] obtain c2 where
      c2: "memoManyOver get put ?keys epoch ?read2 c1 = (c2, Inr (map (\<lambda>k. f k epoch) ?keys))" "sound f c2"
      by blast
    have vals: "map (\<lambda>k. f k epoch) ?keys = map (\<lambda>w. show_nat (B (to_lower w) block)) wallets"
      using bal by simp
    have tr: "traverse bigint_of (map (\<lambda>w. show_nat (B (to_lower w) block)) wallets) =
        Inr (map (\<lambda>w. B (to_lower w) block) wallets)"
      by (simp add: traverse_map traverse_total bigint_of_def)
    have "scoreAt get put addr chain contract mn wallets block epoch prefix c =
        (c2, Inr (map (\<lambda>w. leg_score D B mn w block) wallets, map (\<lambda>w. leg_error D B mn contract w block) wallets))"
      unfolding scoreAt_def c1(1) using ne True c2(1) tr unfolding vals
      by (simp add: leg_score_def leg_error_def)
    with c2(2) show ?thesis by blast
  qed
qed

lemma straverse_sound:
  assumes "sound f c" and "\<And>x c. x \<in> set xs \<Longrightarrow> sound f c \<Longrightarrow> \<exists>c'. h x c = (c', Inr (g x)) \<and> sound f c'"
  shows "\<exists>c'. straverse h xs c = (c', Inr (map g xs)) \<and> sound f c'"
  using assms
proof (induction xs arbitrary: c)
  case (Cons x xs)
  from Cons.prems(2) [of x c] Cons.prems(1) obtain c1 where c1: "h x c = (c1, Inr (g x))" "sound f c1"
    by auto
  from Cons.IH [OF c1(2)] Cons.prems(2) obtain c2 where "straverse h xs c1 = (c2, Inr (map g xs))" "sound f c2"
    by auto
  with c1(1) show ?case by simp
qed simp

lemma evaluateMany_spec:
  fixes D :: "nat \<Rightarrow> bool" and B :: "string \<Rightarrow> nat \<Rightarrow> nat"
  defines "f head contract \<equiv> memo_truth D B contract head"
  assumes c: "sound (f head contract) c"
    and addr: "addr contractText = Inr contract"
    and ans: "chain_answers addr chain contract D B (insert head (rw_sampleBlock ` set wallets)) (rw_address ` set wallets)"
  shows "\<exists>c'. erc5192_evaluateMany get put purge addr chain (Inr head) contractText mn wallets c =
      (c', Inr (map (erc5192_spec D B mn contract head) wallets)) \<and> sound (f head contract) c'"
proof -
  let ?f = "f head contract" and ?n = "length wallets"
  let ?epoch = "head div HEAD_EPOCH_BLOCKS * HEAD_EPOCH_BLOCKS"
  let ?S = "\<lambda>i b. leg_score D B mn (rw_address (wallets ! i)) b"
  let ?E = "\<lambda>i b. leg_error D B mn contract (rw_address (wallets ! i)) b"
  let ?sample = "\<lambda>i. rw_sampleBlock (wallets ! i)"
  have slash: "CHR ''/'' \<notin> set w" if "w \<in> rw_address ` set wallets" for w
    using ans that unfolding chain_answers_def by blast
  have sub: "chain_answers addr chain contract D B (insert head (rw_sampleBlock ` set wallets)) ws"
    if "ws \<subseteq> rw_address ` set wallets" for ws
    by (rule chain_answers_mono [OF ans that])
  have head_lock: "?f (HEAD_PREFIX @ ''lock/'' @ to_lower contract) ?epoch = (if D head then ''1'' else ''0'')"
    and pin_lock: "?f (PINNED_PREFIX @ ''lock/'' @ to_lower contract) b = (if D b then ''1'' else ''0'')" for b
    unfolding f_def by (rule memo_truth_simps)+
  have head_bal: "?f (HEAD_PREFIX @ ''bal/'' @ to_lower w) ?epoch = show_nat (B (to_lower w) head)"
    if "w \<in> set (map rw_address wallets)" for w
    unfolding f_def by (rule memo_truth_simps) (use slash that in simp)
  have pin_bal: "?f (PINNED_PREFIX @ ''bal/'' @ to_lower w) b = show_nat (B (to_lower w) b)"
    if "w \<in> rw_address ` set wallets" for w b
    unfolding f_def by (rule memo_truth_simps) (rule slash [OF that])
  have all: "set (map rw_address wallets) \<subseteq> rw_address ` set wallets" by simp
  obtain c1 where c1: "scoreAt get put addr chain contract mn (map rw_address wallets) head ?epoch HEAD_PREFIX
        (purge ?epoch (Some HEAD_PREFIX) c) =
      (c1, Inr (map (\<lambda>w. leg_score D B mn w head) (map rw_address wallets),
                map (\<lambda>w. leg_error D B mn contract w head) (map rw_address wallets)))" "sound ?f c1"
    using scoreAt_spec [OF purge_sound [OF c, of ?epoch "Some HEAD_PREFIX"] sub [OF all] insertI1 head_lock head_bal, where mn = mn]
    by blast
  let ?scores = "map (\<lambda>w. leg_score D B mn w head) (map rw_address wallets)"
  let ?errors = "map (\<lambda>w. leg_error D B mn contract w head) (map rw_address wallets)"
  let ?refused = "filter (\<lambda>i. ?scores ! i = 0) [0..<?n]"
  let ?h = "\<lambda>(block, indexes) c.
      case scoreAt get put addr chain contract mn (map (\<lambda>i. rw_address (wallets ! i)) indexes) block block PINNED_PREFIX c of
        (c, Inl e) \<Rightarrow> (c, Inl e)
      | (c, Inr (fscores, ferrors)) \<Rightarrow> (c, Inr (zip indexes (zip fscores ferrors)))"
  define g where "g = (\<lambda>(block :: nat, indexes). map (\<lambda>i. (i, (?S i (?sample i), ?E i (?sample i)))) indexes)"
  have step: "\<exists>c'. ?h x c = (c', Inr (g x)) \<and> sound ?f c'"
    if x: "x \<in> set (by_block wallets ?refused)" and c: "sound ?f c" for x c
  proof -
    obtain block indexes where x': "x = (block, indexes)" by (cases x)
    have i: "i < ?n" "?sample i = block" if "i \<in> set indexes" for i
      using by_block_spec(1) [OF x [unfolded x'] that] by auto
    show ?thesis
    proof (cases "indexes = []")
      case True
      with c show ?thesis by (simp add: x' g_def scoreAt_def)
    next
      case False
      then have blk: "block \<in> insert head (rw_sampleBlock ` set wallets)"
        using i [of "hd indexes"] nth_mem [of "hd indexes" wallets] by auto
      have ws: "set (map (\<lambda>i. rw_address (wallets ! i)) indexes) \<subseteq> rw_address ` set wallets"
        using i by auto
      obtain c' where c': "scoreAt get put addr chain contract mn (map (\<lambda>i. rw_address (wallets ! i)) indexes)
            block block PINNED_PREFIX c =
          (c', Inr (map (\<lambda>w. leg_score D B mn w block) (map (\<lambda>i. rw_address (wallets ! i)) indexes),
                    map (\<lambda>w. leg_error D B mn contract w block) (map (\<lambda>i. rw_address (wallets ! i)) indexes)))"
          "sound ?f c'"
        using scoreAt_spec [OF c sub [OF ws] blk pin_lock pin_bal [OF subsetD [OF ws]], where mn = mn] by blast
      have "zip indexes (zip (map (\<lambda>w. leg_score D B mn w block) (map (\<lambda>i. rw_address (wallets ! i)) indexes))
            (map (\<lambda>w. leg_error D B mn contract w block) (map (\<lambda>i. rw_address (wallets ! i)) indexes))) =
          map (\<lambda>i. (i, (?S i (?sample i), ?E i (?sample i)))) indexes"
        using i(2) by (induction indexes) auto
      with c' show ?thesis by (simp add: x' g_def)
    qed
  qed
  have "\<exists>c2. straverse ?h (by_block wallets ?refused) c1 = (c2, Inr (map g (by_block wallets ?refused))) \<and> sound ?f c2"
    by (rule straverse_sound [where f = ?f, OF c1(2)]) (rule step)
  then obtain c2 where
    c2: "straverse ?h (by_block wallets ?refused) c1 = (c2, Inr (map g (by_block wallets ?refused)))" "sound ?f c2"
    by blast
  define final where "final = (\<lambda>i. if 0 < ?S i head then (?S i head, ?E i head) else (?S i (?sample i), ?E i (?sample i)))"
  have fill: "fill_results ?n (concat (map g (by_block wallets ?refused))) (\<lambda>i. (?scores ! i, ?errors ! i)) =
      map final [0..<?n]"
  proof (rule fill_results_eq)
    fix i r assume "(i, r) \<in> set (concat (map g (by_block wallets ?refused)))"
    then obtain b "is" where p: "(b, is) \<in> set (by_block wallets ?refused)" "i \<in> set is"
      "r = (?S i (?sample i), ?E i (?sample i))" by (auto simp: g_def)
    from by_block_spec(1) [OF p(1,2)] have "i < ?n" "?scores ! i = 0" by auto
    with p(3) show "r = final i" by (simp add: final_def)
  next
    fix i assume i: "i < ?n" and no: "i \<notin> fst ` set (concat (map g (by_block wallets ?refused)))"
    have "i \<notin> set ?refused"
    proof
      assume "i \<in> set ?refused"
      from by_block_spec(2) [OF this, of wallets] obtain b "is" where "(b, is) \<in> set (by_block wallets ?refused)" "i \<in> set is"
        by blast
      with no show False by (force simp: g_def)
    qed
    with i show "(?scores ! i, ?errors ! i) = final i" by (simp add: final_def)
  qed
  have "map (\<lambda>(score, err). resultOf score err) (map final [0..<?n]) = map (erc5192_spec D B mn contract head) wallets"
    by (rule nth_equalityI) (auto simp: final_def erc5192_spec_def resultOf_def)
  with c1 c2 fill show ?thesis
    by (simp add: erc5192_evaluateMany_def addr Let_def)
qed

end

interpretation mcpurge: purging_memo mc_get "mc_set n" "mc_sound n" mc_purgeBelow for n
  by unfold_locales (rule mc_purge_sound)

sublocale json_store \<subseteq> ppurge: purging_memo "pc_get ops ns n now" "pc_set ops ns n now"
    "pc_sound lookup ok ns n" "pc_purgeBelow ops ns" for ns n now
  by unfold_locales (rule pc_purge_sound)

section \<open>Consequences\<close>

text \<open>A failure of this gate is never blamed on the sender, and a success carries a positive score.\<close>

lemma resultOf_penalize: "gateFailure (resultOf s e) = Some (err, p) \<Longrightarrow> \<not> p"
  by (auto simp: resultOf_def gateFailure_def split: if_splits)

lemma erc5192_spec_penalize: "gateFailure (erc5192_spec D B mn a head w) = Some (err, p) \<Longrightarrow> \<not> p"
  by (auto simp: erc5192_spec_def resultOf_def gateFailure_def split: if_splits)

lemma erc5192_spec_admits:
  assumes "0 < mn"
  shows "gateFailure (erc5192_spec D B mn a head w) = None \<longleftrightarrow>
     (\<exists>b \<in> {head, rw_sampleBlock w}. D b \<and> mn \<le> B (to_lower (rw_address w)) b)"
  using assms by (auto simp: erc5192_spec_def resultOf_def gateFailure_def leg_score_def scoreOf_def)

end
