(* ===== verification/Gate.thy ===== *)
theory Gate
  imports Rules
begin

text \<open>
  The gate tree (\<open>src/rules/gate.ts\<close>) and the rule registry (\<open>src/rules/registry.ts\<close>): leaves are
  numbered depth first, evaluated lazily or all of them, and folded in three values. The lemmas
  relate both evaluations to the boolean reading of the tree, say when a refusal may be blamed
  on the sender, and show that the lazy evaluation only ever under-reports blame.
\<close>

section \<open>The registry\<close>

text \<open>Options as a rule's own schema parses them; \<open>'x\<close> is the chain-read context a rule is given.\<close>

datatype rule_options = ConstantOptions nat | NftOptions string nat | CustomOptions rule_ref

record 'x rule =
  ru_parse :: "rule_ref \<Rightarrow> rule_options option"
  ru_evaluate :: "rule_options \<Rightarrow> rule_wallet \<Rightarrow> 'x \<Rightarrow> rule_result res"
  ru_evaluateMany :: "(rule_options \<Rightarrow> rule_wallet list \<Rightarrow> 'x \<Rightarrow> rule_result list res) option"

type_synonym 'x registry = "(string, 'x rule) jsmap"

definition positive_default :: "rule_ref \<Rightarrow> string \<Rightarrow> nat \<Rightarrow> nat option" where
  "positive_default r k d =
     (case jget (ref_options r) k of None \<Rightarrow> Some d | Some v \<Rightarrow> positive_int v)"

definition ConstantOptionsSchema :: "rule_ref \<Rightarrow> rule_options option" where
  "ConstantOptionsSchema r =
     (if ref_type r = ''constant'' then map_option ConstantOptions (positive_default r ''value'' 1) else None)"

definition NftOptionsSchema :: "string \<Rightarrow> rule_ref \<Rightarrow> rule_options option" where
  "NftOptionsSchema type r =
     (if ref_type r = type then
        Option.bind (Option.bind (jget (ref_options r) ''contract'') as_string) (\<lambda>contract.
        map_option (NftOptions contract) (positive_default r ''min'' 1))
      else None)"

definition resolveRegistry :: "'x registry \<Rightarrow> 'x registry \<Rightarrow> 'x registry" where
  "resolveRegistry builtins overrides = fold (\<lambda>(k, r) m. jset k r m) overrides builtins"

fun gateLeaves :: "gate_node \<Rightarrow> rule_ref list" where
  "gateLeaves (GLeaf r) = [r]"
| "gateLeaves (GAll cs) = concat (map gateLeaves cs)"
| "gateLeaves (GAny cs) = concat (map gateLeaves cs)"

definition validate_ref :: "'x registry \<Rightarrow> rule_slot \<Rightarrow> rule_ref \<Rightarrow> unit res" where
  "validate_ref reg slot ref =
     sbind (require_some (UnknownRuleError slot (ref_type ref)) (jget reg (ref_type ref))) (\<lambda>rule.
     sbind (require_some (ZodError (ref_type ref)) (ru_parse rule ref)) (\<lambda>_. Inr ()))"

definition validateCriteriaRules :: "criteria \<Rightarrow> 'x registry \<Rightarrow> unit res" where
  "validateCriteriaRules c reg =
     sbind (traverse (validate_ref reg SlotGate) (gateLeaves (c_gate c))) (\<lambda>_.
     sbind (validate_ref reg SlotWeight (c_weight c)) (\<lambda>_.
     sbind (traverse (\<lambda>n. require_some (UnknownRuleError SlotRequires n) (jget reg n)) (c_requires c)) (\<lambda>_.
     Inr ())))"

section \<open>Resolved leaves\<close>

record 'x resolved_leaf =
  rl_ref :: rule_ref
  rl_rule :: "'x rule"
  rl_options :: rule_options
  rl_ctx :: 'x
  rl_key :: string

definition resolve_leaf :: "lib \<Rightarrow> 'x registry \<Rightarrow> (nat \<Rightarrow> 'x) \<Rightarrow> rule_ref \<times> nat \<Rightarrow> 'x resolved_leaf res" where
  "resolve_leaf L reg ctx_of p =
     (case p of (ref, index) \<Rightarrow>
        sbind (require_some (UnknownRuleError SlotGate (ref_type ref)) (jget reg (ref_type ref))) (\<lambda>rule.
        sbind (require_some (ZodError (ref_type ref)) (ru_parse rule ref)) (\<lambda>options.
        Inr \<lparr>rl_ref = ref, rl_rule = rule, rl_options = options, rl_ctx = ctx_of index,
             rl_key = hex_of_bytes (encodeCanonical L (ref_ipld ref))\<rparr>)))"

definition resolveGate :: "lib \<Rightarrow> criteria \<Rightarrow> 'x registry \<Rightarrow> (nat \<Rightarrow> 'x) \<Rightarrow> 'x resolved_leaf list res" where
  "resolveGate L c reg ctx_of =
     (let refs = gateLeaves (c_gate c) in traverse (resolve_leaf L reg ctx_of) (zip refs [0..<length refs]))"

text \<open>\<open>dedupeLeaves\<close> over the leaves' keys: the map from key to position, and the representatives.\<close>

fun dedupe_loop :: "string list \<Rightarrow> nat \<Rightarrow> (string, nat) jsmap \<Rightarrow> nat list \<Rightarrow> nat list \<times> nat list" where
  "dedupe_loop [] index at reps = (reps, [])"
| "dedupe_loop (key # keys) index at reps =
     (case jget at key of
        Some seen \<Rightarrow> (case dedupe_loop keys (index + 1) at reps of (rs, os) \<Rightarrow> (rs, seen # os))
      | None \<Rightarrow>
          (case dedupe_loop keys (index + 1) (jset key (length reps) at) (reps @ [index]) of
             (rs, os) \<Rightarrow> (rs, length reps # os)))"

definition dedupeLeaves :: "string list \<Rightarrow> nat list \<times> nat list" where
  "dedupeLeaves keys = dedupe_loop keys 0 [] []"

section \<open>The evaluator\<close>

datatype gate_kind = KAll | KAny

datatype indexed_gate = IxLeaf nat | IxBranch gate_kind "indexed_gate list"

datatype gate_result =
    GRLeaf (gr_leaf: nat) (gr_sat: "bool option") (gr_score: int) (gr_error: "string option") (gr_penalize: bool)
  | GRBranch gate_kind (gr_sat: "bool option") "gate_result list"

fun indexGate :: "gate_node \<Rightarrow> nat \<Rightarrow> indexed_gate \<times> nat" and
    indexGates :: "gate_node list \<Rightarrow> nat \<Rightarrow> indexed_gate list \<times> nat" where
  "indexGate (GLeaf r) n = (IxLeaf n, n + 1)"
| "indexGate (GAll cs) n = (case indexGates cs n of (xs, m) \<Rightarrow> (IxBranch KAll xs, m))"
| "indexGate (GAny cs) n = (case indexGates cs n of (xs, m) \<Rightarrow> (IxBranch KAny xs, m))"
| "indexGates [] n = ([], n)"
| "indexGates (c # cs) n =
     (case indexGate c n of (x, m) \<Rightarrow> case indexGates cs m of (xs, k) \<Rightarrow> (x # xs, k))"

definition UNEVALUATED :: "nat \<Rightarrow> gate_result" where
  "UNEVALUATED leaf = GRLeaf leaf None 0 None False"

definition isSatisfied :: "gate_result \<Rightarrow> bool" where
  "isSatisfied r \<longleftrightarrow> gr_sat r = Some True"

definition decidesAt :: "gate_kind \<Rightarrow> bool" where
  "decidesAt k = (k \<noteq> KAll)"

definition foldSatisfied :: "gate_kind \<Rightarrow> gate_result list \<Rightarrow> bool option" where
  "foldSatisfied kind children =
     (if list_ex (\<lambda>c. gr_sat c = Some (decidesAt kind)) children then Some (decidesAt kind)
      else if list_all (\<lambda>c. gr_sat c = Some (\<not> decidesAt kind)) children then Some (\<not> decidesAt kind)
      else None)"

text \<open>A node the evaluation never reached keeps its shape.\<close>

fun skipped :: "indexed_gate \<Rightarrow> gate_result" where
  "skipped (IxLeaf i) = UNEVALUATED i"
| "skipped (IxBranch k cs) = GRBranch k None (map skipped cs)"

definition leaf_result :: "nat \<Rightarrow> rule_result \<Rightarrow> gate_result" where
  "leaf_result i r =
     (case gateFailure r of
        Some (err, pen) \<Rightarrow> GRLeaf i (Some False) 0 (Some err) pen
      | None \<Rightarrow> GRLeaf i (Some True) (scoreOrZero r) None False)"

text \<open>The result tree and the errors \<open>onLeafError\<close> was told of, in order.\<close>

type_synonym gate_run = "(gate_result \<times> (nat \<times> js_error) list) res"

fun run_gate :: "(nat \<Rightarrow> rule_result res) \<Rightarrow> bool \<Rightarrow> bool \<Rightarrow> indexed_gate \<Rightarrow> gate_run" and
    run_all :: "(nat \<Rightarrow> rule_result res) \<Rightarrow> bool \<Rightarrow> bool \<Rightarrow> indexed_gate list \<Rightarrow>
                  (gate_result list \<times> (nat \<times> js_error) list) res" and
    run_lazy :: "(nat \<Rightarrow> rule_result res) \<Rightarrow> bool \<Rightarrow> bool \<Rightarrow> gate_kind \<Rightarrow> indexed_gate list \<Rightarrow>
                  gate_result list \<Rightarrow> (nat \<times> js_error) list \<Rightarrow> gate_run" where
  "run_gate ev collectAll tolerate (IxLeaf i) =
     (case ev i of
        Inr r \<Rightarrow> Inr (leaf_result i r, [])
      | Inl e \<Rightarrow> if tolerate then Inr (UNEVALUATED i, [(i, e)]) else Inl e)"
| "run_gate ev collectAll tolerate (IxBranch k cs) =
     (if collectAll then
        sbind (run_all ev collectAll tolerate cs) (\<lambda>(children, es).
          Inr (GRBranch k (foldSatisfied k children) children, es))
      else run_lazy ev collectAll tolerate k cs [] [])"
| "run_all ev collectAll tolerate [] = Inr ([], [])"
| "run_all ev collectAll tolerate (c # cs) =
     sbind (run_gate ev collectAll tolerate c) (\<lambda>(r, es).
     sbind (run_all ev collectAll tolerate cs) (\<lambda>(rs, fs). Inr (r # rs, es @ fs)))"
| "run_lazy ev collectAll tolerate k [] children es =
     Inr (GRBranch k (foldSatisfied k children) children, es)"
| "run_lazy ev collectAll tolerate k (c # cs) children es =
     sbind (run_gate ev collectAll tolerate c) (\<lambda>(r, fs).
       if isSatisfied r = decidesAt k
       then Inr (GRBranch k (Some (decidesAt k)) (children @ [r] @ map skipped cs), es @ fs)
       else run_lazy ev collectAll tolerate k cs (children @ [r]) (es @ fs))"

definition evaluateGate :: "gate_node \<Rightarrow> (nat \<Rightarrow> rule_result res) \<Rightarrow> bool \<Rightarrow> bool \<Rightarrow> gate_run" where
  "evaluateGate node ev collectAll tolerate = run_gate ev collectAll tolerate (fst (indexGate node 0))"

section \<open>Reading a result\<close>

definition reduce1 :: "('a \<Rightarrow> 'a \<Rightarrow> 'a) \<Rightarrow> 'a list \<Rightarrow> 'a" where
  "reduce1 f xs = foldl f (hd xs) (tl xs)"

fun gateScore :: "gate_result \<Rightarrow> int" where
  "gateScore (GRLeaf _ _ score _ _) = score"
| "gateScore (GRBranch k _ cs) =
     (let scores = concat (map (\<lambda>c. if isSatisfied c then [gateScore c] else []) cs) in
      if scores = [] then 0 else if k = KAll then reduce1 min scores else reduce1 max scores)"

fun gateBlame :: "gate_result \<Rightarrow> gate_result list" where
  "gateBlame (GRLeaf i s sc e p) = (if s \<noteq> Some False then [] else [GRLeaf i s sc e p])"
| "gateBlame (GRBranch k s cs) = (if s \<noteq> Some False then [] else concat (map gateBlame cs))"

fun gatePenalize :: "gate_result \<Rightarrow> bool" where
  "gatePenalize (GRLeaf i s sc e p) = (s = Some False \<and> p)"
| "gatePenalize (GRBranch k s cs) =
     (s = Some False \<and>
      list_ex (\<lambda>c. gr_sat c = Some False) cs \<and>
      (if k = KAll then (\<exists>c \<in> set cs. gr_sat c = Some False \<and> gatePenalize c)
       else (\<forall>c \<in> set cs. gr_sat c = Some False \<longrightarrow> gatePenalize c)))"

definition leaf_error :: "gate_result \<Rightarrow> string option" where
  "leaf_error r = (case r of GRLeaf _ _ _ e _ \<Rightarrow> e | GRBranch _ _ _ \<Rightarrow> None)"

fun join_with :: "string \<Rightarrow> string list \<Rightarrow> string" where
  "join_with sep [] = []"
| "join_with sep [s] = s"
| "join_with sep (s # t # ts) = s @ sep @ join_with sep (t # ts)"

definition gateReason :: "gate_result \<Rightarrow> string" where
  "gateReason r =
     (let reasons = map (\<lambda>l. case leaf_error l of Some e \<Rightarrow> e | None \<Rightarrow> ''this wallet does not qualify'') (gateBlame r)
      in join_with ''; '' (fold sadd reasons []))"

section \<open>The boolean reading\<close>

fun gate_sat :: "(nat \<Rightarrow> bool) \<Rightarrow> indexed_gate \<Rightarrow> bool" where
  "gate_sat p (IxLeaf i) = p i"
| "gate_sat p (IxBranch k cs) = (if k = KAll then list_all id (map (gate_sat p) cs) else list_ex id (map (gate_sat p) cs))"

fun ix_leaves :: "indexed_gate \<Rightarrow> nat list" where
  "ix_leaves (IxLeaf i) = [i]"
| "ix_leaves (IxBranch k cs) = concat (map ix_leaves cs)"

fun ix_ok :: "indexed_gate \<Rightarrow> bool" where
  "ix_ok (IxLeaf i) = True"
| "ix_ok (IxBranch k cs) = (cs \<noteq> [] \<and> list_all id (map ix_ok cs))"

definition admits :: "(nat \<Rightarrow> rule_result) \<Rightarrow> nat \<Rightarrow> bool" where
  "admits ans i \<longleftrightarrow> gateFailure (ans i) = None"

text \<open>The tree with every leaf answered.\<close>

fun eager_tree :: "(nat \<Rightarrow> rule_result) \<Rightarrow> indexed_gate \<Rightarrow> gate_result" where
  "eager_tree ans (IxLeaf i) = leaf_result i (ans i)"
| "eager_tree ans (IxBranch k cs) =
     (let rs = map (eager_tree ans) cs in GRBranch k (foldSatisfied k rs) rs)"

lemma gate_sat_branch [simp]:
  "gate_sat p (IxBranch KAll cs) \<longleftrightarrow> (\<forall>c \<in> set cs. gate_sat p c)"
  "gate_sat p (IxBranch KAny cs) \<longleftrightarrow> (\<exists>c \<in> set cs. gate_sat p c)"
  by (auto simp: list_all_iff list_ex_iff)

declare gate_sat.simps(2) [simp del]

lemma ix_ok_branch [simp]: "ix_ok (IxBranch k cs) \<longleftrightarrow> cs \<noteq> [] \<and> (\<forall>c \<in> set cs. ix_ok c)"
  by (auto simp: list_all_iff)

declare ix_ok.simps(2) [simp del]

lemma gr_sat_leaf_result [simp]: "gr_sat (leaf_result i (ans i)) = Some (admits ans i)"
  by (simp add: leaf_result_def admits_def split: option.splits)

lemma foldSatisfied_known:
  assumes "\<And>r. r \<in> set rs \<Longrightarrow> gr_sat r \<noteq> None"
  shows "foldSatisfied k rs =
     Some (if k = KAll then \<forall>r \<in> set rs. gr_sat r = Some True else \<exists>r \<in> set rs. gr_sat r = Some True)"
  using assms by (cases k) (force simp: foldSatisfied_def decidesAt_def list_ex_iff list_all_iff)+

lemma eager_sat: "gr_sat (eager_tree ans g) = Some (gate_sat (admits ans) g)"
proof (induction g)
  case (IxBranch k cs)
  then have "foldSatisfied k (map (eager_tree ans) cs) = Some (gate_sat (admits ans) (IxBranch k cs))"
    by (subst foldSatisfied_known) (cases k; auto)+
  then show ?case by (simp add: Let_def)
qed simp

lemma run_all_eager:
  "(\<And>c. c \<in> set cs \<Longrightarrow> run_gate (\<lambda>i. Inr (ans i)) True t c = Inr (eager_tree ans c, [])) \<Longrightarrow>
   run_all (\<lambda>i. Inr (ans i)) True t cs = Inr (map (eager_tree ans) cs, [])"
  by (induction cs) auto

lemma run_eager: "run_gate (\<lambda>i. Inr (ans i)) True t g = Inr (eager_tree ans g, [])"
proof (induction g)
  case (IxBranch k cs)
  then show ?case by (simp add: run_all_eager Let_def)
qed simp

section \<open>Lazy evaluation\<close>

definition lazy_ok :: "(nat \<Rightarrow> rule_result) \<Rightarrow> gate_result \<Rightarrow> indexed_gate \<Rightarrow> bool" where
  "lazy_ok ans r g \<longleftrightarrow> gr_sat r = Some (gate_sat (admits ans) g) \<and>
     (gatePenalize r \<longrightarrow> gatePenalize (eager_tree ans g)) \<and>
     (\<not> gate_sat (admits ans) g \<longrightarrow> ix_ok g \<longrightarrow> gateBlame r \<noteq> []) \<and>
     (gate_sat (admits ans) g \<longrightarrow> ix_ok g \<longrightarrow> 0 < gateScore r)"

lemma gr_sat_skipped [simp]: "gr_sat (skipped g) = None"
  by (cases g) (simp_all add: UNEVALUATED_def)

lemma not_isSatisfied_skipped [simp]: "\<not> isSatisfied (skipped g)"
  by (simp add: isSatisfied_def)

lemma gateBlame_skipped [simp]: "gateBlame (skipped g) = []"
  by (cases g) (simp_all add: UNEVALUATED_def)

lemma gateBlame_fails: "gateBlame r \<noteq> [] \<Longrightarrow> gr_sat r = Some False"
  by (cases r) (auto split: if_splits)

lemma foldl_min_pos: "0 < (a :: int) \<Longrightarrow> (\<And>x. x \<in> set xs \<Longrightarrow> 0 < x) \<Longrightarrow> 0 < foldl min a xs"
  by (induction xs arbitrary: a) auto

lemma foldl_max_pos: "0 < (a :: int) \<Longrightarrow> 0 < foldl max a xs"
  by (induction xs arbitrary: a) auto

lemma gateScore_branch_pos:
  assumes "\<And>c. c \<in> set cs \<Longrightarrow> isSatisfied c \<Longrightarrow> 0 < gateScore c" "\<exists>c \<in> set cs. isSatisfied c"
  shows "0 < gateScore (GRBranch k s cs)"
proof -
  let ?scores = "concat (map (\<lambda>c. if isSatisfied c then [gateScore c] else []) cs)"
  have pos: "\<forall>x \<in> set ?scores. 0 < x" using assms(1) by auto
  have ne: "?scores \<noteq> []" using assms(2) by auto
  from ne have hd: "0 < hd ?scores" using bspec [OF pos hd_in_set] by blast
  have "0 < x" if "x \<in> set (tl ?scores)" for x using bspec [OF pos list.set_sel(2) [OF ne that]] .
  then have "0 < reduce1 min ?scores" "0 < reduce1 max ?scores"
    unfolding reduce1_def using hd by (intro foldl_min_pos foldl_max_pos; blast)+
  with ne show ?thesis by (simp only: gateScore.simps Let_def if_False split: if_split) simp
qed

lemma lazy_ok_leaf: "lazy_ok ans (leaf_result i (ans i)) (IxLeaf i)"
  by (auto simp: lazy_ok_def admits_def leaf_result_def gateFailure_def scoreOrZero_def
      split: rule_result.splits option.splits if_splits)

lemma lazy_ok_decided:
  assumes acc: "list_all2 (lazy_ok ans) acc ds" "\<forall>r \<in> set acc. gr_sat r = Some (\<not> decidesAt k)"
    and r: "lazy_ok ans r c" "isSatisfied r = decidesAt k"
  shows "lazy_ok ans (GRBranch k (Some (decidesAt k)) (acc @ [r] @ map skipped cs)) (IxBranch k (ds @ c # cs))"
proof (cases k)
  case KAll
  then have rs: "gr_sat r = Some False" "\<not> gate_sat (admits ans) c"
    using r by (auto simp: lazy_ok_def isSatisfied_def decidesAt_def)
  have acc': "\<forall>r \<in> set acc. gr_sat r = Some True" using acc(2) KAll by (simp add: decidesAt_def)
  have pen: "gatePenalize (eager_tree ans (IxBranch KAll (ds @ c # cs)))" if "gatePenalize r"
  proof -
    have "gatePenalize (eager_tree ans c)" "gr_sat (eager_tree ans c) = Some False"
      using that r(1) rs(2) by (auto simp: lazy_ok_def eager_sat)
    moreover have "gr_sat (eager_tree ans (IxBranch KAll (ds @ c # cs))) = Some False"
      unfolding eager_sat using rs(2) by auto
    ultimately show ?thesis by (auto simp: Let_def list_ex_iff)
  qed
  have "gateBlame r \<noteq> []" if "ix_ok c" using r(1) rs(2) that by (simp add: lazy_ok_def)
  with KAll rs acc' pen show ?thesis
    by (auto simp: lazy_ok_def decidesAt_def list_ex_iff)
next
  case KAny
  then have rs: "gr_sat r = Some True" "gate_sat (admits ans) c"
    using r by (auto simp: lazy_ok_def isSatisfied_def decidesAt_def)
  have acc': "\<forall>r \<in> set acc. gr_sat r = Some False" using acc(2) KAny by (simp add: decidesAt_def)
  have "0 < gateScore (GRBranch k (Some True) (acc @ [r] @ map skipped cs))" if "ix_ok c"
    using rs r(1) acc' that by (intro gateScore_branch_pos) (auto simp: isSatisfied_def lazy_ok_def)
  with KAny rs show ?thesis by (auto simp: lazy_ok_def decidesAt_def)
qed

lemma lazy_ok_undecided:
  assumes acc: "list_all2 (lazy_ok ans) acc ds" "\<forall>r \<in> set acc. gr_sat r = Some (\<not> decidesAt k)"
  shows "lazy_ok ans (GRBranch k (foldSatisfied k acc) acc) (IxBranch k ds)"
proof -
  have fs: "foldSatisfied k acc = Some (\<not> decidesAt k)"
    using acc(2) by (auto simp: foldSatisfied_def list_ex_iff list_all_iff)
  have ds: "\<forall>d \<in> set ds. gate_sat (admits ans) d = (\<not> decidesAt k)"
    using acc by (induction rule: list_all2_induct) (auto simp: lazy_ok_def)
  show ?thesis
  proof (cases k)
    case KAll
    have "0 < gateScore (GRBranch k (Some True) acc)" if ok: "ix_ok (IxBranch k ds)"
    proof (rule gateScore_branch_pos)
      show "0 < gateScore c" if "c \<in> set acc" for c
        using list_all2_memD1 [OF acc(1) that] ds ok KAll by (auto simp: lazy_ok_def decidesAt_def)
      show "\<exists>c \<in> set acc. isSatisfied c"
        using ok acc KAll by (cases acc) (auto simp: isSatisfied_def decidesAt_def)
    qed
    with KAll fs ds show ?thesis by (auto simp: lazy_ok_def decidesAt_def)
  next
    case KAny
    have blame: "concat (map gateBlame acc) \<noteq> []" if ok: "ix_ok (IxBranch k ds)"
    proof -
      from ok obtain d where d: "d \<in> set ds" by (cases ds) auto
      from list_all2_memD2 [OF acc(1) this] obtain r where "r \<in> set acc" "lazy_ok ans r d" by blast
      with d ds ok KAny have "r \<in> set acc" "gateBlame r \<noteq> []" by (auto simp: lazy_ok_def decidesAt_def)
      then show ?thesis by auto
    qed
    have pen: "gatePenalize (eager_tree ans (IxBranch KAny ds))"
      if p: "gatePenalize (GRBranch KAny (Some False) acc)"
    proof -
      have ne: "ds \<noteq> []" using p acc(1) by (cases ds) auto
      have "gatePenalize (eager_tree ans d)" if "d \<in> set ds" for d
        using list_all2_memD2 [OF acc(1) that] p acc(2) KAny by (auto simp: lazy_ok_def decidesAt_def)
      moreover have "gr_sat (eager_tree ans (IxBranch KAny ds)) = Some False"
        unfolding eager_sat using ds KAny by (simp add: decidesAt_def)
      moreover have "gr_sat (eager_tree ans (hd ds)) = Some False"
        using ds KAny ne by (simp add: eager_sat decidesAt_def)
      ultimately show ?thesis using ne by (cases ds) (auto simp: Let_def)
    qed
    from KAny fs ds blame pen show ?thesis
      by (auto simp: lazy_ok_def decidesAt_def)
  qed
qed

lemma run_lazy_ok:
  assumes ih: "\<And>c. c \<in> set cs \<Longrightarrow> \<exists>r. run_gate (\<lambda>i. Inr (ans i)) False t c = Inr (r, []) \<and> lazy_ok ans r c"
    and acc: "list_all2 (lazy_ok ans) acc ds" "\<forall>r \<in> set acc. gr_sat r = Some (\<not> decidesAt k)"
  shows "\<exists>r. run_lazy (\<lambda>i. Inr (ans i)) False t k cs acc [] = Inr (r, []) \<and> lazy_ok ans r (IxBranch k (ds @ cs))"
  using assms
proof (induction cs arbitrary: acc ds)
  case Nil
  then show ?case using lazy_ok_undecided by simp
next
  case (Cons c cs)
  from Cons.prems(1) [of c] obtain r where
    r: "run_gate (\<lambda>i. Inr (ans i)) False t c = Inr (r, [])" "lazy_ok ans r c" by auto
  show ?case
  proof (cases "isSatisfied r = decidesAt k")
    case True
    from lazy_ok_decided [OF Cons.prems(2,3) r(2) True, of cs] r(1) True show ?thesis by simp
  next
    case False
    then have "gr_sat r = Some (\<not> decidesAt k)"
      using r(2) by (cases "gate_sat (admits ans) c") (auto simp: lazy_ok_def isSatisfied_def)
    then have "\<exists>r'. run_lazy (\<lambda>i. Inr (ans i)) False t k cs (acc @ [r]) [] = Inr (r', []) \<and>
        lazy_ok ans r' (IxBranch k ((ds @ [c]) @ cs))"
      using Cons.prems r(2) by (intro Cons.IH) (auto intro!: list_all2_appendI)
    with r(1) False show ?thesis by simp
  qed
qed

lemma run_gate_lazy: "\<exists>r. run_gate (\<lambda>i. Inr (ans i)) False t g = Inr (r, []) \<and> lazy_ok ans r g"
proof (induction g)
  case (IxLeaf i)
  then show ?case by (simp add: lazy_ok_leaf)
next
  case (IxBranch k cs)
  from run_lazy_ok [OF IxBranch, of cs "[]" "[]" k] show ?case by simp
qed

section \<open>Blame\<close>

text \<open>A penalized refusal is one every verifier shares: if another verifier also refuses each leaf
  this one blames the sender for, it refuses the gate too, whatever it thinks of the rest.\<close>

lemma penalize_shared:
  assumes "gatePenalize (eager_tree ans g)"
    and "\<And>i err. gateFailure (ans i) = Some (err, True) \<Longrightarrow> \<not> p i"
  shows "\<not> gate_sat p g"
  using assms(1)
proof (induction g)
  case (IxLeaf i)
  then show ?case
    using assms(2) by (auto simp: leaf_result_def split: option.splits)
next
  case (IxBranch k cs)
  have sat: "gr_sat (eager_tree ans (IxBranch k cs)) = Some False"
    using IxBranch.prems by (simp add: Let_def)
  show ?case
  proof (cases k)
    case KAll
    with IxBranch show ?thesis by (auto simp: Let_def)
  next
    case KAny
    then have "\<forall>c \<in> set cs. gr_sat (eager_tree ans c) = Some False"
      using sat unfolding eager_sat by auto
    with KAny IxBranch show ?thesis by (auto simp: Let_def)
  qed
qed

text \<open>The blame set explains the refusal: a wallet that passed every blamed leaf would be admitted.\<close>

lemma gate_sat_mono: "gate_sat p g \<Longrightarrow> (\<And>i. p i \<Longrightarrow> q i) \<Longrightarrow> gate_sat q g"
proof (induction g)
  case (IxBranch k cs)
  then show ?case by (cases k) auto
qed auto

lemma blame_sufficient:
  assumes "\<not> gate_sat (admits ans) g" "ix_ok g"
  shows "gate_sat (\<lambda>i. admits ans i \<or> i \<in> gr_leaf ` set (gateBlame (eager_tree ans g))) g"
  using assms
proof (induction g)
  case (IxLeaf i)
  then show ?case by (auto simp: leaf_result_def admits_def split: option.splits)
next
  case (IxBranch k cs)
  let ?q = "\<lambda>g i. admits ans i \<or> i \<in> gr_leaf ` set (gateBlame (eager_tree ans g))"
  have sat: "gr_sat (eager_tree ans (IxBranch k cs)) = Some False"
    using IxBranch.prems by (simp only: eager_sat)
  then have blame: "gateBlame (eager_tree ans (IxBranch k cs)) = concat (map gateBlame (map (eager_tree ans) cs))"
    by (simp add: Let_def)
  have child: "gate_sat (?q (IxBranch k cs)) c" if c: "c \<in> set cs" "\<not> gate_sat (admits ans) c" for c
  proof (rule gate_sat_mono)
    show "gate_sat (?q c) c" using IxBranch c by auto
    show "?q c i \<Longrightarrow> ?q (IxBranch k cs) i" for i using c(1) unfolding blame by auto
  qed
  have pass: "gate_sat (?q (IxBranch k cs)) c" if "gate_sat (admits ans) c" for c
    using that by (rule gate_sat_mono) simp
  show ?case
  proof (cases k)
    case KAll
    show ?thesis unfolding KAll gate_sat_branch
    proof
      fix c assume c: "c \<in> set cs"
      show "gate_sat (?q (IxBranch KAll cs)) c"
        using child [OF c] pass [of c] unfolding KAll by blast
    qed
  next
    case KAny
    from IxBranch.prems(2) obtain c where "c \<in> set cs" by (cases cs) auto
    then have "gate_sat (?q (IxBranch k cs)) c" using child [of c] pass [of c] by blast
    with \<open>c \<in> set cs\<close> show ?thesis unfolding KAny gate_sat_branch by blast
  qed
qed

lemma blame_leaves: "l \<in> set (gateBlame r) \<Longrightarrow> \<exists>i sc e p. l = GRLeaf i (Some False) sc e p"
proof (induction r)
  case (GRLeaf i s sc e p)
  then show ?case by (auto split: if_splits)
next
  case (GRBranch k s cs)
  then show ?case by (auto split: if_splits)
qed

section \<open>Numbering\<close>

lemma upt_join: "[n..<n + a] @ [n + a..<n + a + b] = [n..<n + (a + b)]"
  using upt_add_eq_append [of n "n + a" b] by (simp add: add.assoc)

lemma indexGate_leaves:
  "ix_leaves (fst (indexGate g n)) = [n..<n + length (gateLeaves g)] \<and> snd (indexGate g n) = n + length (gateLeaves g)"
  "concat (map ix_leaves (fst (indexGates gs n))) = [n..<n + length (concat (map gateLeaves gs))] \<and>
   snd (indexGates gs n) = n + length (concat (map gateLeaves gs))"
proof (induction g n and gs n rule: indexGate_indexGates.induct)
  case (5 c cs n)
  then show ?case
    by (cases "indexGate c n"; cases "indexGates cs (snd (indexGate c n))") (auto simp: upt_join)
qed (auto simp: split_beta)

lemma branches_ok_ix_ok:
  "branches_ok g \<Longrightarrow> ix_ok (fst (indexGate g n))"
  "(\<forall>x \<in> set gs. branches_ok x) \<Longrightarrow>
   (\<forall>x \<in> set (fst (indexGates gs n)). ix_ok x) \<and> length (fst (indexGates gs n)) = length gs"
proof (induction g n and gs n rule: indexGate_indexGates.induct)
  case (2 cs n)
  then show ?case by (cases "indexGates cs n") (auto simp: list_all_iff)
next
  case (3 cs n)
  then show ?case by (cases "indexGates cs n") (auto simp: list_all_iff)
next
  case (5 c cs n)
  then show ?case
    by (cases "indexGate c n"; cases "indexGates cs (snd (indexGate c n))") auto
qed simp_all

section \<open>The boolean reading over the rule references\<close>

primrec node_sat :: "(rule_ref \<Rightarrow> bool) \<Rightarrow> gate_node \<Rightarrow> bool" where
  "node_sat q (GLeaf r) = q r"
| "node_sat q (GAll cs) = list_all id (map (node_sat q) cs)"
| "node_sat q (GAny cs) = list_ex id (map (node_sat q) cs)"

lemma gate_sat_cong: "(\<And>i. i \<in> set (ix_leaves g) \<Longrightarrow> p i = q i) \<Longrightarrow> gate_sat p g = gate_sat q g"
proof (induction g)
  case (IxBranch k cs)
  then have "c \<in> set cs \<Longrightarrow> gate_sat p c = gate_sat q c" for c by auto
  then show ?case by (cases k) simp_all
qed simp

lemma gate_sat_index:
  "(\<And>i. i < length (gateLeaves g) \<Longrightarrow> p (n + i) = q (gateLeaves g ! i)) \<Longrightarrow>
   gate_sat p (fst (indexGate g n)) = node_sat q g"
  "(\<And>i. i < length (concat (map gateLeaves gs)) \<Longrightarrow> p (n + i) = q (concat (map gateLeaves gs) ! i)) \<Longrightarrow>
   map (gate_sat p) (fst (indexGates gs n)) = map (node_sat q) gs"
proof (induction g n and gs n rule: indexGate_indexGates.induct)
  case (2 cs n)
  then show ?case by (cases "indexGates cs n") (simp add: gate_sat.simps(2))
next
  case (3 cs n)
  then show ?case by (cases "indexGates cs n") (simp add: gate_sat.simps(2))
next
  case (5 c cs n)
  have c: "gate_sat p (fst (indexGate c n)) = node_sat q c"
  proof (rule "5.IH"(1))
    show "p (n + i) = q (gateLeaves c ! i)" if "i < length (gateLeaves c)" for i
      using "5.prems" [of i] that by (simp add: nth_append)
  qed
  have m: "snd (indexGate c n) = n + length (gateLeaves c)" using indexGate_leaves(1) by simp
  have "map (gate_sat p) (fst (indexGates cs (snd (indexGate c n)))) = map (node_sat q) cs"
  proof (rule "5.IH"(2) [OF prod.collapse])
    show "p (snd (indexGate c n) + i) = q (concat (map gateLeaves cs) ! i)"
      if "i < length (concat (map gateLeaves cs))" for i
      using "5.prems" [of "length (gateLeaves c) + i"] that m by (simp add: nth_append add.assoc)
  qed
  with c show ?case by (simp add: split_beta)
qed simp_all

section \<open>An evaluation that tolerates leaf errors\<close>

text \<open>With errors tolerated, the eager evaluation decides a tree only when every way of answering
  the leaves it could not read decides it the same way.\<close>

definition completes :: "(nat \<Rightarrow> rule_result res) \<Rightarrow> (nat \<Rightarrow> bool) \<Rightarrow> bool" where
  "completes ev p \<longleftrightarrow> (\<forall>i r. ev i = Inr r \<longrightarrow> p i = (gateFailure r = None))"

lemma foldSatisfied_SomeE:
  assumes "foldSatisfied k rs = Some b"
  obtains (decided) "list_ex (\<lambda>c. gr_sat c = Some (decidesAt k)) rs" "b = decidesAt k"
    | (other) "list_all (\<lambda>c. gr_sat c = Some (\<not> decidesAt k)) rs" "b = (\<not> decidesAt k)"
proof (cases "list_ex (\<lambda>c. gr_sat c = Some (decidesAt k)) rs")
  case True
  with assms have "b = decidesAt k" by (simp add: foldSatisfied_def)
  with True show ?thesis by (rule decided)
next
  case no: False
  show ?thesis
  proof (cases "list_all (\<lambda>c. gr_sat c = Some (\<not> decidesAt k)) rs")
    case True
    with assms no have "b = (\<not> decidesAt k)" by (simp add: foldSatisfied_def)
    with True show ?thesis by (rule other)
  next
    case False
    with assms no show ?thesis by (simp add: foldSatisfied_def)
  qed
qed

lemma foldSatisfied_sound:
  assumes "list_all2 (\<lambda>r c. \<forall>b. gr_sat r = Some b \<longrightarrow> gate_sat p c = b) rs cs" "foldSatisfied k rs = Some b"
  shows "gate_sat p (IxBranch k cs) = b"
proof -
  have ex: "\<exists>c \<in> set cs. gate_sat p c = v" if "r \<in> set rs" "gr_sat r = Some v" for r v
    using list_all2_memD1 [OF assms(1) that(1)] that(2) by auto
  have all: "\<exists>r \<in> set rs. \<forall>b. gr_sat r = Some b \<longrightarrow> gate_sat p c = b" if "c \<in> set cs" for c
    using list_all2_memD2 [OF assms(1) that] by blast
  from assms(2) consider (decided) "list_ex (\<lambda>c. gr_sat c = Some (decidesAt k)) rs" "b = decidesAt k"
    | (other) "list_all (\<lambda>c. gr_sat c = Some (\<not> decidesAt k)) rs" "b = (\<not> decidesAt k)"
    by (rule foldSatisfied_SomeE)
  then show ?thesis
  proof cases
    case decided
    then obtain r where "r \<in> set rs" "gr_sat r = Some (decidesAt k)" unfolding list_ex_iff by blast
    from ex [OF this] obtain c where "c \<in> set cs" "gate_sat p c = decidesAt k" by blast
    with decided(2) show ?thesis by (cases k) (auto simp: decidesAt_def)
  next
    case other
    then have "gate_sat p c = (\<not> decidesAt k)" if "c \<in> set cs" for c
      using all [OF that] unfolding list_all_iff by blast
    with other(2) show ?thesis by (cases k) (auto simp: decidesAt_def)
  qed
qed

lemma run_all_sound:
  assumes "run_all ev ca t cs = Inr (rs, es)"
    "\<And>c r es. c \<in> set cs \<Longrightarrow> run_gate ev ca t c = Inr (r, es) \<Longrightarrow> P r c"
  shows "list_all2 P rs cs"
  using assms
  by (induction cs arbitrary: rs es) (auto simp: sbind_Inr_iff split: prod.splits)

lemma run_tolerant_sound:
  assumes "run_gate ev True t g = Inr (r, es)" "completes ev p" "gr_sat r = Some b"
  shows "gate_sat p g = b"
  using assms(1,3)
proof (induction g arbitrary: r es b)
  case (IxLeaf i)
  then show ?case using assms(2)
    by (auto simp: completes_def leaf_result_def UNEVALUATED_def split: sum.splits option.splits if_splits)
next
  case (IxBranch k cs)
  from IxBranch.prems(1) obtain rs where rs: "run_all ev True t cs = Inr (rs, es)"
    "r = GRBranch k (foldSatisfied k rs) rs" by (auto simp: sbind_Inr_iff split: prod.splits)
  have "list_all2 (\<lambda>r c. \<forall>b. gr_sat r = Some b \<longrightarrow> gate_sat p c = b) rs cs"
    using rs(1) by (rule run_all_sound) (use IxBranch.IH in blast)
  with rs(2) IxBranch.prems(2) show ?case by (intro foldSatisfied_sound) auto
qed

section \<open>The lazy evaluation of leaves that may throw\<close>

text \<open>The loop either ran to the end undecided, or stopped at the child that decided.\<close>

lemma run_lazy_inv:
  assumes step: "\<And>c r es. c \<in> set cs \<Longrightarrow> run_gate ev False t c = Inr (r, es) \<Longrightarrow> P r c"
    and run: "run_lazy ev False t k cs acc es0 = Inr (R, es)"
    and acc: "list_all2 P acc ds" "\<forall>r \<in> set acc. isSatisfied r \<noteq> decidesAt k"
  obtains (undecided) rs where "R = GRBranch k (foldSatisfied k rs) rs" "list_all2 P rs (ds @ cs)"
      "\<forall>r \<in> set rs. isSatisfied r \<noteq> decidesAt k"
    | (decided) us r vs c ws where "R = GRBranch k (Some (decidesAt k)) (us @ [r] @ map skipped ws)"
      "ds @ cs = vs @ [c] @ ws" "list_all2 P us vs" "P r c" "isSatisfied r = decidesAt k"
      "\<forall>u \<in> set us. isSatisfied u \<noteq> decidesAt k"
  using assms
proof (induction cs arbitrary: acc ds es0 thesis)
  case Nil
  show ?case by (rule Nil.prems(1) [of acc]) (use Nil.prems in simp_all)
next
  case (Cons c cs)
  from Cons.prems(4) obtain r fs where r: "run_gate ev False t c = Inr (r, fs)"
    by (auto simp: sbind_Inr_iff)
  with Cons.prems(3) have Pr: "P r c" by simp
  show ?case
  proof (cases "isSatisfied r = decidesAt k")
    case True
    with Cons.prems(4) r have "R = GRBranch k (Some (decidesAt k)) (acc @ [r] @ map skipped cs)" by simp
    from Cons.prems(2) [OF this _ Cons.prems(5) Pr True Cons.prems(6)] show ?thesis by simp
  next
    case False
    with Cons.prems(4) r have run: "run_lazy ev False t k cs (acc @ [r]) (es0 @ fs) = Inr (R, es)" by simp
    show ?thesis
    proof (rule Cons.IH [OF _ _ _ run])
      show "list_all2 P (acc @ [r]) (ds @ [c])" using Cons.prems(5) Pr by (simp add: list_all2_appendI)
      show "\<forall>r \<in> set (acc @ [r]). isSatisfied r \<noteq> decidesAt k" using Cons.prems(6) False by simp
      show "P r' c'" if "c' \<in> set cs" "run_gate ev False t c' = Inr (r', es')" for c' r' es'
        using Cons.prems(3) [of c'] that by simp
      show thesis if "R = GRBranch k (foldSatisfied k rs) rs" "list_all2 P rs ((ds @ [c]) @ cs)"
        "\<forall>r \<in> set rs. isSatisfied r \<noteq> decidesAt k" for rs
        using Cons.prems(1) [of rs] that by simp
      show thesis if "R = GRBranch k (Some (decidesAt k)) (us @ [r'] @ map skipped ws)"
        "(ds @ [c]) @ cs = vs @ [c'] @ ws" "list_all2 P us vs" "P r' c'" "isSatisfied r' = decidesAt k"
        "\<forall>u \<in> set us. isSatisfied u \<noteq> decidesAt k" for us r' vs c' ws
        using Cons.prems(2) [of us r' ws vs c'] that by simp
    qed
  qed
qed

definition spares :: "(nat \<Rightarrow> rule_result res) \<Rightarrow> (nat \<Rightarrow> bool) \<Rightarrow> bool" where
  "spares ev p \<longleftrightarrow> (\<forall>i a err. ev i = Inr a \<longrightarrow> gateFailure a = Some (err, True) \<longrightarrow> \<not> p i)"

text \<open>What a strict lazy run tells: its outcome is the outcome of every reading of the leaves that
  agrees with the answers, and a penalized refusal is the refusal of every reading that also
  refuses the leaves blamed on the sender.\<close>

definition strict_ok :: "(nat \<Rightarrow> rule_result res) \<Rightarrow> gate_result \<Rightarrow> indexed_gate \<Rightarrow> bool" where
  "strict_ok ev r g \<longleftrightarrow> gr_sat r \<noteq> None \<and> (\<forall>p. completes ev p \<longrightarrow> gr_sat r = Some (gate_sat p g)) \<and>
     (\<forall>p. spares ev p \<longrightarrow> gatePenalize r \<longrightarrow> \<not> gate_sat p g)"

lemma strict_ok_known: "strict_ok ev r g \<Longrightarrow> gr_sat r = Some (isSatisfied r)"
  by (cases "gr_sat r") (auto simp: strict_ok_def isSatisfied_def)

lemma strict_ok_sat: "strict_ok ev r g \<Longrightarrow> completes ev p \<Longrightarrow> gate_sat p g = isSatisfied r"
  unfolding strict_ok_def isSatisfied_def by (metis option.inject)

lemma gatePenalize_fails: "gatePenalize r \<Longrightarrow> gr_sat r = Some False"
  by (cases r) auto

lemma strict_ok_undecided:
  assumes rs: "list_all2 (strict_ok ev) rs cs" "\<forall>r \<in> set rs. isSatisfied r \<noteq> decidesAt k"
  shows "strict_ok ev (GRBranch k (foldSatisfied k rs) rs) (IxBranch k cs)"
proof -
  have sat: "\<forall>r \<in> set rs. gr_sat r = Some (\<not> decidesAt k)"
  proof
    fix r assume r: "r \<in> set rs"
    from list_all2_memD1 [OF rs(1) r] obtain c where "strict_ok ev r c" by blast
    from strict_ok_known [OF this] rs(2) r show "gr_sat r = Some (\<not> decidesAt k)" by auto
  qed
  then have fs: "foldSatisfied k rs = Some (\<not> decidesAt k)"
    by (auto simp: foldSatisfied_def list_ex_iff list_all_iff)
  have c: "gate_sat p c = (\<not> decidesAt k)" if "completes ev p" "c \<in> set cs" for p c
  proof -
    from list_all2_memD2 [OF rs(1) that(2)] obtain r where "r \<in> set rs" "strict_ok ev r c" by blast
    with strict_ok_sat [OF this(2) that(1)] sat show ?thesis by (auto simp: isSatisfied_def)
  qed
  have pen: "\<not> gate_sat p c"
    if "spares ev p" "gatePenalize (GRBranch k (foldSatisfied k rs) rs)" "c \<in> set cs" for p c
  proof -
    from list_all2_memD2 [OF rs(1) that(3)] obtain r where r: "r \<in> set rs" "strict_ok ev r c" by blast
    from that(2) fs have "k = KAny" by (cases k) (auto simp: decidesAt_def)
    with that(2) r sat have "gatePenalize r" by (auto simp: decidesAt_def)
    with r(2) that(1) show ?thesis by (simp add: strict_ok_def)
  qed
  have "gatePenalize (GRBranch k (foldSatisfied k rs) rs) \<Longrightarrow> k = KAny" using fs by (cases k) (auto simp: decidesAt_def)
  then show ?thesis unfolding strict_ok_def
    using fs c pen by (cases k) (auto simp: decidesAt_def simp del: gatePenalize.simps)
qed

lemma strict_ok_decided:
  assumes us: "list_all2 (strict_ok ev) us vs" "\<forall>u \<in> set us. isSatisfied u \<noteq> decidesAt k"
    and r: "strict_ok ev r c" "isSatisfied r = decidesAt k"
  shows "strict_ok ev (GRBranch k (Some (decidesAt k)) (us @ [r] @ map skipped ws)) (IxBranch k (vs @ [c] @ ws))"
proof -
  have c: "completes ev p \<Longrightarrow> gate_sat p c = decidesAt k" for p
    using strict_ok_sat [OF r(1)] r(2) by simp
  have pen: "k = KAll \<and> gatePenalize r"
    if p: "gatePenalize (GRBranch k (Some (decidesAt k)) (us @ [r] @ map skipped ws))"
  proof -
    from p have k: "k = KAll" by (cases k) (auto simp: decidesAt_def)
    then have "gr_sat u = Some True" if "u \<in> set us" for u
      using us(2) that by (auto simp: decidesAt_def isSatisfied_def)
    with p k show ?thesis by auto
  qed
  then have "\<not> gate_sat p (IxBranch k (vs @ [c] @ ws))"
    if "spares ev p" "gatePenalize (GRBranch k (Some (decidesAt k)) (us @ [r] @ map skipped ws))" for p
  proof -
    from pen [OF that(2)] r(1) that(1) have "k = KAll" "\<not> gate_sat p c" by (auto simp: strict_ok_def)
    then show ?thesis by auto
  qed
  moreover have "gate_sat p (IxBranch k (vs @ [c] @ ws)) = decidesAt k" if "completes ev p" for p
    using c [OF that] by (cases k) (auto simp: decidesAt_def)
  ultimately show ?thesis unfolding strict_ok_def by (simp del: gatePenalize.simps)
qed

lemma run_strict: "run_gate ev False False g = Inr (r, es) \<Longrightarrow> strict_ok ev r g"
proof (induction g arbitrary: r es)
  case (IxLeaf i)
  then obtain a where a: "ev i = Inr a" "r = leaf_result i a" by (cases "ev i") auto
  then show ?case
    by (auto simp: strict_ok_def completes_def spares_def leaf_result_def split: option.splits)
next
  case (IxBranch k cs)
  then have run: "run_lazy ev False False k cs [] [] = Inr (r, es)" by simp
  show ?case
  proof (rule run_lazy_inv [OF _ run, where P = "strict_ok ev" and ds = "[]"])
    show "strict_ok ev r' c" if "c \<in> set cs" "run_gate ev False False c = Inr (r', es')" for c r' es'
      using IxBranch.IH that by blast
    show ?case if "r = GRBranch k (foldSatisfied k rs) rs" "list_all2 (strict_ok ev) rs ([] @ cs)"
      "\<forall>r \<in> set rs. isSatisfied r \<noteq> decidesAt k" for rs
      using strict_ok_undecided [of ev rs cs k] that by simp
    show ?case if "r = GRBranch k (Some (decidesAt k)) (us @ [r'] @ map skipped ws)" "[] @ cs = vs @ [c] @ ws"
      "list_all2 (strict_ok ev) us vs" "strict_ok ev r' c" "isSatisfied r' = decidesAt k"
      "\<forall>u \<in> set us. isSatisfied u \<noteq> decidesAt k" for us r' vs c ws
      using strict_ok_decided [OF that(3,6,4,5), of ws] that(1,2) by simp
  qed simp_all
qed

lemma run_strict_total:
  "(\<And>i. i \<in> set (ix_leaves g) \<Longrightarrow> \<exists>a. ev i = Inr a) \<Longrightarrow> \<exists>r es. run_gate ev False False g = Inr (r, es)"
proof (induction g)
  case (IxLeaf i)
  then show ?case by fastforce
next
  case (IxBranch k cs)
  have step: "(\<And>c. c \<in> set cs \<Longrightarrow> \<exists>r es. run_gate ev False False c = Inr (r, es)) \<Longrightarrow>
      \<exists>r es. run_lazy ev False False k cs acc es0 = Inr (r, es)" for acc es0
  proof (induction cs arbitrary: acc es0)
    case (Cons c cs)
    from Cons.prems [of c] obtain r es where "run_gate ev False False c = Inr (r, es)" by auto
    with Cons show ?case by simp
  qed simp
  have "\<exists>r es. run_gate ev False False c = Inr (r, es)" if "c \<in> set cs" for c
    by (rule IxBranch.IH [OF that]) (use IxBranch.prems that in auto)
  from step [OF this] show ?case by simp
qed

text \<open>The lazy loop tests \<open>isSatisfied\<close>, so with errors tolerated a leaf of an \<open>all\<close> it could not read
  counts as one that failed.\<close>

lemma lazy_tolerant_unknown_fails:
  "(case run_gate (\<lambda>i. if i = 0 then Inl (PlainError ''down'') else Inr (RSuccess 1)) False True
      (IxBranch KAll [IxLeaf 0, IxLeaf 1]) of Inr (r, _) \<Rightarrow> gr_sat r) = Some False"
  "(case run_gate (\<lambda>i. if i = 0 then Inl (PlainError ''down'') else Inr (RSuccess 1)) True True
      (IxBranch KAll [IxLeaf 0, IxLeaf 1]) of Inr (r, _) \<Rightarrow> gr_sat r) = None"
  by (simp_all add: UNEVALUATED_def isSatisfied_def decidesAt_def leaf_result_def gateFailure_def foldSatisfied_def)

section \<open>Shared leaves\<close>

text \<open>The loop's invariant: the map sends each key met so far to the position of its
  representative, and the representatives stand for distinct keys.\<close>

definition reps_ok :: "string list \<Rightarrow> (string, nat) jsmap \<Rightarrow> nat list \<Rightarrow> bool" where
  "reps_ok all at reps \<longleftrightarrow> (\<forall>r \<in> set reps. r < length all) \<and> distinct (map ((!) all) reps) \<and>
     (\<forall>k i. jget at k = Some i \<longleftrightarrow> i < length reps \<and> all ! (reps ! i) = k)"

lemma reps_ok_snoc:
  assumes "reps_ok all at reps" "n < length all" "jget at (all ! n) = None"
  shows "reps_ok all (jset (all ! n) (length reps) at) (reps @ [n])"
proof -
  from assms(1,3) have new: "i < length reps \<Longrightarrow> all ! (reps ! i) \<noteq> all ! n" for i
    unfolding reps_ok_def by (metis option.distinct(1))
  then have "all ! n \<notin> (!) all ` set reps" by (auto simp: in_set_conv_nth) metis
  with assms new show ?thesis
    unfolding reps_ok_def by (auto simp: jget_jset nth_append less_Suc_eq)
qed

lemma dedupe_loop_ok:
  assumes "dedupe_loop keys (length pre) at reps = (rs, os)" "reps_ok (pre @ keys) at reps"
  shows "length os = length keys \<and> (\<exists>at'. reps_ok (pre @ keys) at' rs) \<and> (\<exists>ts. rs = reps @ ts) \<and>
    (\<forall>i < length keys. os ! i < length rs \<and> (pre @ keys) ! (rs ! (os ! i)) = keys ! i)"
  using assms
proof (induction keys arbitrary: pre at reps rs os)
  case Nil
  then show ?case by auto
next
  case (Cons key keys)
  have at_n: "(pre @ key # keys) ! length pre = key" by simp
  show ?case
  proof (cases "jget at key")
    case (Some seen)
    with Cons.prems obtain os' where os: "dedupe_loop keys (length (pre @ [key])) at reps = (rs, os')" "os = seen # os'"
      by (auto split: prod.splits)
    have "seen < length reps \<and> (pre @ key # keys) ! (reps ! seen) = key"
      using Cons.prems(2) Some unfolding reps_ok_def by blast
    with Cons.IH [OF os(1)] Cons.prems(2) os(2) show ?thesis
      by (auto simp: nth_Cons nth_append split: nat.split)
  next
    case None
    with Cons.prems obtain os' where os: "os = length reps # os'"
      "dedupe_loop keys (length (pre @ [key])) (jset key (length reps) at) (reps @ [length pre]) = (rs, os')"
      by (auto split: prod.splits)
    have "reps_ok (pre @ key # keys) (jset key (length reps) at) (reps @ [length pre])"
      using reps_ok_snoc [OF Cons.prems(2), of "length pre"] None by simp
    with Cons.IH [OF os(2)] os(1) show ?thesis
      by (auto simp: nth_Cons nth_append split: nat.split)
  qed
qed

lemma dedupeLeaves_ok:
  assumes "dedupeLeaves keys = (reps, os)"
  shows "length os = length keys" "\<forall>r \<in> set reps. r < length keys" "distinct (map ((!) keys) reps)"
    "\<forall>i < length keys. os ! i < length reps \<and> keys ! (reps ! (os ! i)) = keys ! i"
  using dedupe_loop_ok [of keys "[]" "[]" "[]" reps os] assms
  by (auto simp: dedupeLeaves_def reps_ok_def)

section \<open>A validated contest resolves\<close>

lemma require_some_Inr_iff [simp]: "require_some e x = Inr y \<longleftrightarrow> x = Some y"
  by (cases x) (simp_all add: require_some_def)

lemma validate_ref_Inr:
  "validate_ref reg slot ref = Inr () \<longleftrightarrow>
   (\<exists>rule options. jget reg (ref_type ref) = Some rule \<and> ru_parse rule ref = Some options)"
  by (auto simp: validate_ref_def sbind_Inr_iff)

lemma resolve_leaf_Inr:
  "resolve_leaf L reg ctx_of (ref, i) = Inr l \<longleftrightarrow>
   (\<exists>rule options. jget reg (ref_type ref) = Some rule \<and> ru_parse rule ref = Some options \<and>
     l = \<lparr>rl_ref = ref, rl_rule = rule, rl_options = options, rl_ctx = ctx_of i,
          rl_key = hex_of_bytes (encodeCanonical L (ref_ipld ref))\<rparr>)"
  by (auto simp: resolve_leaf_def sbind_Inr_iff)

lemma traverse_exists:
  "(\<And>x. x \<in> set xs \<Longrightarrow> \<exists>y. f x = Inr y) \<Longrightarrow> \<exists>ys. traverse f xs = Inr ys"
  by (induction xs) (auto, fastforce)

lemma resolveGate_validated:
  assumes "validateCriteriaRules c reg = Inr ()"
  obtains ls where "resolveGate L c reg ctx_of = Inr ls" "map rl_ref ls = gateLeaves (c_gate c)"
    "map rl_key ls = map (\<lambda>r. hex_of_bytes (encodeCanonical L (ref_ipld r))) (gateLeaves (c_gate c))"
proof -
  let ?refs = "gateLeaves (c_gate c)"
  from assms obtain us where us: "traverse (validate_ref reg SlotGate) ?refs = Inr us"
    by (auto simp: validateCriteriaRules_def sbind_Inr_iff)
  have ok: "validate_ref reg SlotGate r = Inr ()" if "r \<in> set ?refs" for r
    using list_all2_memD1 [OF us [unfolded traverse_Inr_iff] that] by (auto simp: old.unit.exhaust)
  have "\<exists>ys. traverse (resolve_leaf L reg ctx_of) (zip ?refs [0..<length ?refs]) = Inr ys"
  proof (rule traverse_exists)
    fix x assume mem: "x \<in> set (zip ?refs [0..<length ?refs])"
    obtain r i where x: "x = (r, i)" by (cases x)
    with mem have "r \<in> set ?refs" by (simp add: set_zip_leftD)
    then show "\<exists>y. resolve_leaf L reg ctx_of x = Inr y"
      using ok [of r] unfolding x validate_ref_Inr resolve_leaf_Inr by blast
  qed
  then obtain ls where ls: "traverse (resolve_leaf L reg ctx_of) (zip ?refs [0..<length ?refs]) = Inr ls" ..
  have "list_all2 (\<lambda>x l. rl_ref l = fst x \<and> rl_key l = hex_of_bytes (encodeCanonical L (ref_ipld (fst x))))
      (zip ?refs [0..<length ?refs]) ls"
    using ls unfolding traverse_Inr_iff
    by (rule list.rel_mono_strong) (auto simp: resolve_leaf_Inr)
  then have rel: "list_all2 (\<lambda>r l. rl_ref l = r \<and> rl_key l = hex_of_bytes (encodeCanonical L (ref_ipld r))) ?refs ls"
    by (auto simp: list_all2_conv_all_nth)
  then have "map rl_ref ls = ?refs" "map rl_key ls = map (\<lambda>r. hex_of_bytes (encodeCanonical L (ref_ipld r))) ?refs"
    by (auto simp: list_all2_conv_all_nth intro: nth_equalityI)
  with ls that show thesis by (simp add: resolveGate_def Let_def)
qed

end
