(* ===== verification/Names.thy ===== *)
theory Names
  imports Gate Votes
begin

text \<open>
  Community names (\<open>src/verify/name-resolution-cache.ts\<close>, \<open>src/verify/name-preflight.ts\<close>): the
  persistent cache of resolutions, the one path every verification resolves a name by, and the
  publisher's preflight. The cache sits on the LRU interface \<open>json_store\<close>; its lemmas are proved
  over that interface, and so hold over each storage backend.

  \<open>registry t key provider name\<close> is the record a resolver's registry holds at time \<open>t\<close> (in
  milliseconds); a resolver is honest when it answers from it or throws.
\<close>

section \<open>Resolvers and keys\<close>

record name_resolver =
  nr_key :: string
  nr_provider :: string
  nr_canResolve :: "string \<Rightarrow> bool"
  nr_resolve :: "string \<Rightarrow> string option res"

text \<open>The UTF-8 bytes of a string, which viem's \<open>stringToHex\<close> writes out.\<close>

definition utf8_char :: "char \<Rightarrow> bytes" where
  "utf8_char c = (let n = of_char c :: nat in
     if n < 128 then [word_of_nat n] else [word_of_nat (192 + n div 64), word_of_nat (128 + n mod 64)])"

definition utf8 :: "string \<Rightarrow> bytes" where
  "utf8 s = concat (map utf8_char s)"

text \<open>\<open>sha256(stringToHex(s))\<close>\<close>

definition sha256_text :: "lib \<Rightarrow> string \<Rightarrow> string" where
  "sha256_text L s = ''0x'' @ hex_of_bytes (sha256 L (utf8 s))"

definition keyFor :: "lib \<Rightarrow> string \<Rightarrow> string \<Rightarrow> string \<Rightarrow> string" where
  "keyFor L name resolverKey provider = name @ ''::'' @ resolverKey @ ''::'' @ sha256_text L provider"

section \<open>The cache\<close>

definition NAME_RESOLUTION_MAX_AGE_SECONDS :: nat where
  "NAME_RESOLUTION_MAX_AGE_SECONDS = 3600"

definition cache_entry :: "string \<Rightarrow> string \<Rightarrow> string \<Rightarrow> nat \<Rightarrow> ipld" where
  "cache_entry publicKey resolverKey provider now =
     IMap [(''publicKey'', IStr publicKey), (''resolverKey'', IStr resolverKey),
           (''provider'', IStr provider), (''resolvedAtMs'', IInt (int now))]"

text \<open>The shape test on a stored value: its \<open>publicKey\<close> and \<open>resolvedAtMs\<close>.\<close>

definition read_entry :: "ipld \<Rightarrow> (string \<times> int) option" where
  "read_entry v =
     Option.bind (Option.bind (obj_get v ''publicKey'') as_string) (\<lambda>publicKey.
     Option.bind (obj_get v ''resolvedAtMs'') (\<lambda>t. case t of IInt resolvedAtMs \<Rightarrow> Some (publicKey, resolvedAtMs) | _ \<Rightarrow> None))"

definition nc_get ::
  "lib \<Rightarrow> 's lru_ops \<Rightarrow> nat \<Rightarrow> string \<Rightarrow> string \<Rightarrow> string \<Rightarrow> nat option \<Rightarrow> 's \<Rightarrow> 's \<times> string option" where
  "nc_get L ops now name resolverKey provider maxAgeSeconds store =
     (if maxAgeSeconds = Some 0 then (store, None)
      else case l_get ops now (keyFor L name resolverKey provider) store of
        Inl _ \<Rightarrow> (store, None)
      | Inr (store', entry) \<Rightarrow>
          (store', Option.bind (Option.bind entry read_entry) (\<lambda>(publicKey, resolvedAtMs).
             case maxAgeSeconds of
               Some n \<Rightarrow> if int n * 1000 < int now - resolvedAtMs then None else Some publicKey
             | None \<Rightarrow> Some publicKey)))"

definition nc_set ::
  "lib \<Rightarrow> 's lru_ops \<Rightarrow> nat \<Rightarrow> string \<Rightarrow> string \<Rightarrow> string \<Rightarrow> string \<Rightarrow> 's \<Rightarrow> 's" where
  "nc_set L ops now name resolverKey provider publicKey store =
     (case l_set ops now (keyFor L name resolverKey provider) (cache_entry publicKey resolverKey provider now) store of
        Inl _ \<Rightarrow> store
      | Inr store' \<Rightarrow> store')"

text \<open>\<open>cache\<close> is \<open>None\<close> when the host passed none.\<close>

definition resolveNameThroughCache ::
  "lib \<Rightarrow> 's lru_ops option \<Rightarrow> nat \<Rightarrow> name_resolver \<Rightarrow> string \<Rightarrow> 's \<Rightarrow> 's \<times> string option res" where
  "resolveNameThroughCache L cache now resolver name store =
     (let (store, cached) = (case cache of
            None \<Rightarrow> (store, None)
          | Some ops \<Rightarrow> nc_get L ops now name (nr_key resolver) (nr_provider resolver)
                          (Some NAME_RESOLUTION_MAX_AGE_SECONDS) store)
      in case cached of
        Some publicKey \<Rightarrow> (store, Inr (Some publicKey))
      | None \<Rightarrow>
          (case nr_resolve resolver name of
             Inl e \<Rightarrow> (store, Inl e)
           | Inr None \<Rightarrow> (store, Inr None)
           | Inr (Some publicKey) \<Rightarrow>
               ((case cache of
                   None \<Rightarrow> store
                 | Some ops \<Rightarrow> nc_set L ops now name (nr_key resolver) (nr_provider resolver) publicKey store),
                Inr (Some publicKey))))"

section \<open>The preflight\<close>

datatype name_fault = NoResolver | NoRecord | OtherKey string

datatype name_preflight = PreflightOk bool | PreflightFail string string name_fault

fun preflight_loop ::
  "lib \<Rightarrow> 's lru_ops option \<Rightarrow> nat \<Rightarrow> name_resolver list \<Rightarrow> vote list \<Rightarrow> bool \<Rightarrow> 's \<Rightarrow> 's \<times> name_preflight" where
  "preflight_loop L cache now resolvers [] settled store = (store, PreflightOk settled)"
| "preflight_loop L cache now resolvers (v # vs) settled store =
     (case carried_name v of
        None \<Rightarrow> preflight_loop L cache now resolvers vs settled store
      | Some name \<Rightarrow>
          (case List.find (\<lambda>r. nr_canResolve r name) resolvers of
             None \<Rightarrow> (store, PreflightFail name (vote_key v) NoResolver)
           | Some resolver \<Rightarrow>
               (case resolveNameThroughCache L cache now resolver name store of
                  (store', Inl _) \<Rightarrow> preflight_loop L cache now resolvers vs False store'
                | (store', Inr None) \<Rightarrow> (store', PreflightFail name (vote_key v) NoRecord)
                | (store', Inr (Some publicKey)) \<Rightarrow>
                    if publicKey \<noteq> vote_key v
                    then (store', PreflightFail name (vote_key v) (OtherKey publicKey))
                    else preflight_loop L cache now resolvers vs settled store')))"

definition preflightCommunityNames ::
  "lib \<Rightarrow> 's lru_ops option \<Rightarrow> nat \<Rightarrow> name_resolver list \<Rightarrow> vote list \<Rightarrow> 's \<Rightarrow> 's \<times> name_preflight" where
  "preflightCommunityNames L cache now resolvers votes store =
     preflight_loop L cache now resolvers votes True store"

section \<open>Keys are injective\<close>

lemma word8_eq: "n < 256 \<Longrightarrow> m < 256 \<Longrightarrow> (word_of_nat n :: byte) = word_of_nat m \<longleftrightarrow> n = m"
  by (simp add: word_of_nat_eq_iff take_bit_eq_mod)

lemma char_code_bound: "(of_char c :: nat) < 256"
  by (metis nat_of_char_less_256)

lemma char_code_inj: "(of_char c :: nat) = of_char d \<Longrightarrow> c = d"
  by simp

lemma utf8_char_prefix:
  assumes "utf8_char c @ x = utf8_char d @ y"
  shows "c = d \<and> x = y"
proof -
  let ?c = "of_char c :: nat" and ?d = "of_char d :: nat"
  have b: "?c < 256" "?d < 256" using char_code_bound by auto
  have lo: "?c div 64 < 4" "?c mod 64 < 64" "?d div 64 < 4" "?d mod 64 < 64"
    using b by (simp_all add: div_less_iff_less_mult)
  have join: "?c = ?d" if "?c div 64 = ?d div 64" "?c mod 64 = ?d mod 64"
    using that by (metis div_mult_mod_eq)
  from assms b lo join show ?thesis
    by (auto simp: utf8_char_def Let_def word8_eq simp del: of_nat_add split: if_splits)
qed

lemma utf8_inj: "utf8 s = utf8 t \<Longrightarrow> s = t"
proof (induction s arbitrary: t)
  case Nil
  then show ?case by (cases t) (auto simp: utf8_def utf8_char_def Let_def split: if_splits)
next
  case (Cons c s)
  then obtain d t' where t: "t = d # t'"
    by (cases t) (auto simp: utf8_def utf8_char_def Let_def split: if_splits)
  from Cons.prems have "utf8_char c @ utf8 s = utf8_char d @ utf8 t'" by (simp add: t utf8_def)
  from utf8_char_prefix [OF this] Cons.IH t show ?case by simp
qed

lemma sha256_text_inj: "inj (sha256 L) \<Longrightarrow> sha256_text L p = sha256_text L q \<Longrightarrow> p = q"
  unfolding sha256_text_def by (auto dest: hex_of_bytes_inj injD utf8_inj)

lemma sha256_text_no_colon: "CHR '':'' \<notin> set (sha256_text L p)"
proof -
  have "hex_digit n \<noteq> CHR '':''" if "n < 16" for n
  proof
    assume "hex_digit n = CHR '':''"
    then have "hex_value CHR '':'' = Some n" using hex_value_digit [OF that] by simp
    then show False by (simp add: hex_value_def)
  qed
  with hex_of_bytes_digits [of "sha256 L (utf8 p)"] show ?thesis by (auto simp: sha256_text_def)
qed

lemma colon_tail_eq:
  assumes "xs @ CHR '':'' # u = ys @ CHR '':'' # v" "CHR '':'' \<notin> set u" "CHR '':'' \<notin> set v"
  shows "xs = ys \<and> u = v"
proof -
  have tw: "takeWhile (\<lambda>c. c \<noteq> CHR '':'') (rev (zs @ CHR '':'' # w)) = rev w"
    if "CHR '':'' \<notin> set w" for zs w
    using that by (simp add: takeWhile_append2) (subst takeWhile_append2; auto)
  have "rev u = rev v" using tw [OF assms(2), of xs] tw [OF assms(3), of ys] assms(1) by metis
  with assms(1) show ?thesis by simp
qed

text \<open>Two identities share a cache key only if they are the same identity, as long as resolver keys
  hold no colon (a name may hold one).\<close>

lemma keyFor_inj:
  assumes "inj (sha256 L)" "CHR '':'' \<notin> set k" "CHR '':'' \<notin> set k'"
    and "keyFor L n k p = keyFor L n' k' p'"
  shows "n = n' \<and> k = k' \<and> p = p'"
proof -
  let ?s = "\<lambda>n k. n @ CHR '':'' # CHR '':'' # k @ [CHR '':'']"
  have e: "?s n k @ CHR '':'' # sha256_text L p = ?s n' k' @ CHR '':'' # sha256_text L p'"
    using assms(4) by (simp add: keyFor_def)
  from colon_tail_eq [OF this sha256_text_no_colon sha256_text_no_colon]
  have "?s n k = ?s n' k'" and p: "p = p'" using sha256_text_inj [OF assms(1)] by auto
  then have "(n @ [CHR '':'']) @ CHR '':'' # k = (n' @ [CHR '':'']) @ CHR '':'' # k'" by simp
  from colon_tail_eq [OF this assms(2,3)] p show ?thesis by simp
qed

section \<open>Resolutions are true, and at most an hour old\<close>

type_synonym registry_history = "int \<Rightarrow> string \<Rightarrow> string \<Rightarrow> string \<Rightarrow> string option"

definition entry_true :: "lib \<Rightarrow> registry_history \<Rightarrow> string \<Rightarrow> ipld \<Rightarrow> bool" where
  "entry_true L registry k v \<longleftrightarrow>
     (\<forall>name rkey prov pk t. CHR '':'' \<notin> set rkey \<longrightarrow> k = keyFor L name rkey prov \<longrightarrow>
        read_entry v = Some (pk, t) \<longrightarrow> registry t rkey prov name = Some pk)"

definition resolver_honest :: "registry_history \<Rightarrow> nat \<Rightarrow> name_resolver \<Rightarrow> bool" where
  "resolver_honest registry now r \<longleftrightarrow> CHR '':'' \<notin> set (nr_key r) \<and>
     (\<forall>name x. nr_resolve r name = Inr x \<longrightarrow> x = registry (int now) (nr_key r) (nr_provider r) name)"

definition recent_record :: "registry_history \<Rightarrow> nat \<Rightarrow> name_resolver \<Rightarrow> string \<Rightarrow> string \<Rightarrow> bool" where
  "recent_record registry now r name pk \<longleftrightarrow>
     (\<exists>t. int now - t \<le> 3600 * 1000 \<and> registry t (nr_key r) (nr_provider r) name = Some pk)"

lemma read_cache_entry [simp]: "read_entry (cache_entry pk rkey prov now) = Some (pk, int now)"
  by (simp add: read_entry_def cache_entry_def obj_get_def)

lemma entry_true_set:
  assumes "inj (sha256 L)" "CHR '':'' \<notin> set rkey" "registry (int now) rkey prov name = Some pk"
  shows "entry_true L registry (keyFor L name rkey prov) (cache_entry pk rkey prov now)"
  unfolding entry_true_def
proof (intro allI impI)
  fix n k p pk' t
  assume k: "CHR '':'' \<notin> set k" "keyFor L name rkey prov = keyFor L n k p"
    and e: "read_entry (cache_entry pk rkey prov now) = Some (pk', t)"
  from keyFor_inj [OF assms(1,2) k] e assms(3) show "registry t k p n = Some pk'" by simp
qed

text \<open>What a registry makes of the name a vote carries.\<close>

definition name_fault_of ::
  "(string \<Rightarrow> string \<Rightarrow> string \<Rightarrow> string option) \<Rightarrow> name_resolver list \<Rightarrow> vote \<Rightarrow> name_fault option" where
  "name_fault_of R resolvers v =
     (case carried_name v of
        None \<Rightarrow> None
      | Some name \<Rightarrow>
          (case List.find (\<lambda>r. nr_canResolve r name) resolvers of
             None \<Rightarrow> Some NoResolver
           | Some r \<Rightarrow>
               (case R (nr_key r) (nr_provider r) name of
                  None \<Rightarrow> Some NoRecord
                | Some pk \<Rightarrow> if pk = vote_key v then None else Some (OtherKey pk))))"

context json_store
begin

definition names_ok :: "lib \<Rightarrow> registry_history \<Rightarrow> 's lru_ops option \<Rightarrow> 's \<Rightarrow> bool" where
  "names_ok L registry cache s \<longleftrightarrow> (cache = None \<or> cache = Some ops \<and> ok s \<and> holds (entry_true L registry) s)"

lemma nc_get_true:
  assumes "ok s" "holds (entry_true L registry) s" "CHR '':'' \<notin> set rkey"
    and "nc_get L ops now name rkey prov (Some n) s = (s', r)"
  shows "ok s' \<and> holds (entry_true L registry) s' \<and>
    (\<forall>pk. r = Some pk \<longrightarrow> (\<exists>t. int now - t \<le> int n * 1000 \<and> registry t rkey prov name = Some pk))"
proof (cases "n = 0 \<or> (\<exists>e. getItem now (keyFor L name rkey prov) s = Inl e)")
  case True
  with assms show ?thesis by (auto simp: nc_get_def split: if_splits sum.splits)
next
  case False
  then obtain st e where g: "getItem now (keyFor L name rkey prov) s = Inr (st, e)"
    by (cases "getItem now (keyFor L name rkey prov) s") auto
  with False assms(4) have s': "s' = st"
    and r: "r = Option.bind (Option.bind e read_entry)
      (\<lambda>(pk, t). if int n * 1000 < int now - t then None else Some pk)"
    by (auto simp: nc_get_def)
  have "\<exists>t. int now - t \<le> int n * 1000 \<and> registry t rkey prov name = Some pk" if "r = Some pk" for pk
  proof -
    from that r obtain v t where "e = Some v" "read_entry v = Some (pk, t)" "int now - t \<le> int n * 1000"
      by (auto simp: bind_eq_Some_conv split: if_splits)
    with holds_get [OF assms(1,2) g] assms(3) show ?thesis unfolding entry_true_def by blast
  qed
  with getItem_law [OF assms(1) g] holds_get [OF assms(1,2) g] s' show ?thesis by simp
qed

lemma nc_set_true:
  assumes "ok s" "holds (entry_true L registry) s" "entry_true L registry (keyFor L name rkey prov) (cache_entry pk rkey prov now)"
  shows "ok (nc_set L ops now name rkey prov pk s) \<and> holds (entry_true L registry) (nc_set L ops now name rkey prov pk s)"
proof (cases "setItem now (keyFor L name rkey prov) (cache_entry pk rkey prov now) s")
  case (Inl e)
  with assms show ?thesis by (simp add: nc_set_def)
next
  case (Inr st)
  from setItem_law [OF assms(1) Inr] holds_set [OF assms Inr] Inr show ?thesis by (simp add: nc_set_def)
qed

text \<open>A resolution is a throw of the resolver, or an answer the registry gave within the hour; and
  the cache stays true.\<close>

lemma resolve_true:
  assumes inj: "inj (sha256 L)" and s: "names_ok L registry cache s" and h: "resolver_honest registry now r"
    and run: "resolveNameThroughCache L cache now r name s = (s', out)"
  shows "names_ok L registry cache s' \<and>
    (case out of Inl e \<Rightarrow> nr_resolve r name = Inl e
     | Inr None \<Rightarrow> registry (int now) (nr_key r) (nr_provider r) name = None
     | Inr (Some pk) \<Rightarrow> recent_record registry now r name pk)"
proof (cases cache)
  case None
  with run h show ?thesis
    by (auto simp: resolveNameThroughCache_def names_ok_def resolver_honest_def recent_record_def
        split: sum.splits option.splits intro!: exI [of _ "int now"])
next
  case (Some a)
  with s have a: "a = ops" and st: "ok s" "holds (entry_true L registry) s" by (auto simp: names_ok_def)
  obtain st cached where g: "nc_get L ops now name (nr_key r) (nr_provider r) (Some 3600) s = (st, cached)" by fastforce
  have k: "CHR '':'' \<notin> set (nr_key r)" using h by (simp add: resolver_honest_def)
  from nc_get_true [OF st k g] have st': "ok st" "holds (entry_true L registry) st"
    and c: "\<And>pk. cached = Some pk \<Longrightarrow> recent_record registry now r name pk"
    by (auto simp: recent_record_def)
  show ?thesis
  proof (cases cached)
    case (Some pk)
    with run g st' c \<open>cache = Some a\<close> a show ?thesis
      by (auto simp: resolveNameThroughCache_def NAME_RESOLUTION_MAX_AGE_SECONDS_def names_ok_def)
  next
    case None
    show ?thesis
    proof (cases "\<exists>pk. nr_resolve r name = Inr (Some pk)")
      case True
      then obtain pk where pk: "nr_resolve r name = Inr (Some pk)" ..
      then have reg: "registry (int now) (nr_key r) (nr_provider r) name = Some pk"
        using h unfolding resolver_honest_def by metis
      have "recent_record registry now r name pk"
        using reg unfolding recent_record_def by (intro exI [of _ "int now"]) simp
      moreover from run g None pk \<open>cache = Some a\<close> a
      have "out = Inr (Some pk)" "s' = nc_set L ops now name (nr_key r) (nr_provider r) pk st"
        by (auto simp: resolveNameThroughCache_def NAME_RESOLUTION_MAX_AGE_SECONDS_def)
      ultimately show ?thesis
        using nc_set_true [OF st' entry_true_set [where registry = registry, OF inj k reg]] \<open>cache = Some a\<close> a
        by (simp add: names_ok_def)
    next
      case False
      then have "(\<exists>e. nr_resolve r name = Inl e) \<or> nr_resolve r name = Inr None"
        by (cases "nr_resolve r name") auto
      then have "s' = st \<and> out = nr_resolve r name"
        using run g None \<open>cache = Some a\<close> a
        by (auto simp: resolveNameThroughCache_def NAME_RESOLUTION_MAX_AGE_SECONDS_def)
      moreover have "nr_resolve r name = Inr None \<Longrightarrow> registry (int now) (nr_key r) (nr_provider r) name = None"
        using h unfolding resolver_honest_def by metis
      ultimately show ?thesis
        using st' \<open>cache = Some a\<close> a False
        by (auto simp: names_ok_def split: sum.splits option.splits)
    qed
  qed
qed

text \<open>While the registry is stable over the hour, a resolution that does not throw is the record.\<close>

lemma resolve_stable:
  assumes "inj (sha256 L)" "names_ok L registry cache s" "resolver_honest registry now r"
    and stable: "\<And>t. int now - t \<le> 3600 * 1000 \<Longrightarrow> registry t = registry (int now)"
    and "resolveNameThroughCache L cache now r name s = (s', out)"
  shows "names_ok L registry cache s' \<and>
    (out = Inr (registry (int now) (nr_key r) (nr_provider r) name) \<or> (\<exists>e. out = Inl e \<and> nr_resolve r name = Inl e))"
proof (cases "\<exists>pk. out = Inr (Some pk)")
  case True
  then obtain pk where out: "out = Inr (Some pk)" ..
  with resolve_true [OF assms(1,2,3,5)] have ok: "names_ok L registry cache s'" "recent_record registry now r name pk"
    by auto
  from ok(2) obtain t where t: "int now - t \<le> 3600 * 1000" "registry t (nr_key r) (nr_provider r) name = Some pk"
    unfolding recent_record_def by blast
  from t(2) have "registry (int now) (nr_key r) (nr_provider r) name = Some pk" unfolding stable [OF t(1)] .
  with ok(1) out show ?thesis by simp
next
  case False
  then have "out = Inr None \<or> (\<exists>e. out = Inl e)" by (cases out) auto
  with resolve_true [OF assms(1,2,3,5)] show ?thesis by auto
qed

lemma preflight_true:
  assumes inj: "inj (sha256 L)" and stable: "\<And>t. int now - t \<le> 3600 * 1000 \<Longrightarrow> registry t = registry (int now)"
    and h: "\<forall>r \<in> set resolvers. resolver_honest registry now r"
  shows "names_ok L registry cache s \<Longrightarrow> preflight_loop L cache now resolvers vs settled s = (s', out) \<Longrightarrow>
    names_ok L registry cache s' \<and>
    (case out of PreflightOk st \<Rightarrow> st \<longrightarrow> settled \<and> (\<forall>v \<in> set vs. name_fault_of (registry (int now)) resolvers v = None)
     | PreflightFail name key fault \<Rightarrow>
         \<exists>v \<in> set vs. carried_name v = Some name \<and> vote_key v = key \<and>
           name_fault_of (registry (int now)) resolvers v = Some fault)"
proof (induction vs arbitrary: s settled)
  case Nil
  then show ?case by auto
next
  case (Cons v vs)
  show ?case
  proof (cases "carried_name v")
    case None
    then have "name_fault_of (registry (int now)) resolvers v = None" by (simp add: name_fault_of_def)
    with Cons.IH [OF Cons.prems(1), of settled] Cons.prems(2) None show ?thesis by (cases out) auto
  next
    case name: (Some name)
    show ?thesis
    proof (cases "List.find (\<lambda>r. nr_canResolve r name) resolvers")
      case None
      with name Cons.prems show ?thesis by (auto simp: name_fault_of_def)
    next
      case r: (Some r)
      obtain st o' where run: "resolveNameThroughCache L cache now r name s = (st, o')" by fastforce
      have "resolver_honest registry now r" using h r by (auto simp: find_Some_iff)
      from resolve_stable [OF inj Cons.prems(1) this stable run]
      have st: "names_ok L registry cache st"
        and o': "o' = Inr (registry (int now) (nr_key r) (nr_provider r) name) \<or> (\<exists>e. o' = Inl e)" by auto
      show ?thesis
      proof (cases "\<exists>e. o' = Inl e")
        case True
        then show ?thesis
          using Cons.IH [OF st, of False] Cons.prems(2) name r run by (auto split: name_preflight.splits)
      next
        case False
        with o' have o': "o' = Inr (registry (int now) (nr_key r) (nr_provider r) name)" by blast
        show ?thesis
        proof (cases "registry (int now) (nr_key r) (nr_provider r) name")
          case None
          with o' Cons.prems(2) name r run st show ?thesis by (auto simp: name_fault_of_def)
        next
          case (Some pk)
          with o' Cons.IH [OF st, of settled] Cons.prems(2) name r run st show ?thesis
            by (cases "pk = vote_key v") (auto simp: name_fault_of_def split: name_preflight.splits)
        qed
      qed
    qed
  qed
qed

end

end
