(* ===== verification/Verify.thy ===== *)
theory Verify
  imports Names Bucket
begin

text \<open>
  The validity pipeline for one bundle: the ballot the wallet signs (\<open>src/signer/eip712.ts\<close>), the
  offline stage (\<open>src/verify/signature.ts\<close>, \<open>src/verify/constraints.ts\<close>), the whole verifier
  (\<open>src/verify/bundle.ts\<close>) and its verdict cache (\<open>src/verify/cache.ts\<close>). viem's
  \<open>recoverTypedDataAddress\<close> is a parameter.
\<close>

section \<open>Ballots\<close>

definition EIP712_DOMAIN_NAME :: string where
  "EIP712_DOMAIN_NAME = ''bitsocial-votes''"

definition EIP712_SIGNATURE_TYPE :: string where
  "EIP712_SIGNATURE_TYPE = ''eip712''"

definition BALLOT_TYPES :: "(string \<times> (string \<times> string) list) list" where
  "BALLOT_TYPES =
     [(''Community'', [(''name'', ''string''), (''publicKey'', ''string'')]),
      (''Vote'', [(''community'', ''Community''), (''vote'', ''int256'')]),
      (''Ballot'', [(''criteria'', ''bytes''), (''votes'', ''Vote[]''), (''blockNumber'', ''uint256'')])]"

record ballot_typed_data =
  td_name :: string
  td_chainId :: nat
  td_types :: "(string \<times> (string \<times> string) list) list"
  td_primaryType :: string
  td_criteria :: string
  td_votes :: "(string \<times> string \<times> int) list"
  td_blockNumber :: nat

definition ballotTypedData :: "bytes \<Rightarrow> nat \<Rightarrow> vote list \<Rightarrow> nat \<Rightarrow> ballot_typed_data" where
  "ballotTypedData cidBytes chainId votes blockNumber =
     \<lparr>td_name = EIP712_DOMAIN_NAME, td_chainId = chainId, td_types = BALLOT_TYPES, td_primaryType = ''Ballot'',
      td_criteria = ''0x'' @ hex_of_bytes cidBytes,
      td_votes = map (\<lambda>v. (case vote_name v of None \<Rightarrow> '''' | Some s \<Rightarrow> s, vote_key v, v_vote v)) votes,
      td_blockNumber = blockNumber\<rparr>"

section \<open>Verdicts\<close>

datatype disposition = Reject | Ignore

text \<open>The text of a verdict's \<open>reason\<close> is a function of these fields.\<close>

datatype verdict_reason =
    UnsupportedSignature string
  | SignatureNotHex
  | SignatureUnrecoverable js_error
  | SignerMismatch string string
  | TooManyVotes nat nat
  | VoteOutOfRange int string int int
  | NotAdmitted string
  | NameRefused string string name_fault
  | OtherReason string

datatype 'a verdict =
    Valid 'a
  | Invalid disposition verdict_reason "(string \<times> string) list option"

type_synonym verify_result = "unit verdict"
type_synonym bundle_verdict = "(string, string) jsmap verdict"

fun is_valid :: "'a verdict \<Rightarrow> bool" where
  "is_valid (Valid x) = True"
| "is_valid (Invalid d r fs) = False"

section \<open>The offline stage\<close>

type_synonym recover = "ballot_typed_data \<Rightarrow> string \<Rightarrow> string res"

definition isHex :: "string \<Rightarrow> bool" where
  "isHex s = (take 2 s = ''0x'')"

definition verifyBundleSignature :: "recover \<Rightarrow> votes_bundle \<Rightarrow> bytes \<Rightarrow> nat \<Rightarrow> verify_result" where
  "verifyBundleSignature recover b cidBytes chainId =
     (if sig_type (b_signature b) \<noteq> EIP712_SIGNATURE_TYPE
      then Invalid Reject (UnsupportedSignature (sig_type (b_signature b))) None
      else if \<not> isHex (sig_signature (b_signature b)) then Invalid Reject SignatureNotHex None
      else case recover (ballotTypedData cidBytes chainId (b_votes b) (b_blockNumber b)) (sig_signature (b_signature b)) of
        Inl err \<Rightarrow> Invalid Reject (SignatureUnrecoverable err) None
      | Inr recovered \<Rightarrow>
          if to_lower recovered \<noteq> to_lower (b_address b)
          then Invalid Reject (SignerMismatch recovered (b_address b)) None
          else Valid ())"

fun check_range :: "int \<Rightarrow> int \<Rightarrow> vote list \<Rightarrow> verify_result" where
  "check_range mn mx [] = Valid ()"
| "check_range mn mx (v # vs) =
     (if v_vote v < mn \<or> mx < v_vote v then Invalid Reject (VoteOutOfRange (v_vote v) (vote_key v) mn mx) None
      else check_range mn mx vs)"

definition checkBundleConstraints :: "votes_bundle \<Rightarrow> criteria \<Rightarrow> verify_result" where
  "checkBundleConstraints b c =
     (if b_votes b = [] then Valid ()
      else if c_maxVotesPerAddress c < length (b_votes b)
      then Invalid Reject (TooManyVotes (length (b_votes b)) (c_maxVotesPerAddress c)) None
      else check_range (c_voteMin c) (c_voteMax c) (b_votes b))"

section \<open>The verifier\<close>

record ('x, 's) verifier =
  vf_criteria :: criteria
  vf_criteriaCid :: bytes
  vf_chainId :: nat
  vf_recover :: recover
  vf_leaves :: "'x resolved_leaf list"
  vf_ofLeaf :: "nat list"
  vf_bucketMath :: bucket_math
  vf_nameResolvers :: "name_resolver list"
  vf_lib :: lib
  vf_nameCache :: "'s lru_ops option"

text \<open>\<open>makeBundleVerifier\<close> resolves the leaves once, and which of them ask the same question.\<close>

definition makeBundleVerifier ::
  "lib \<Rightarrow> recover \<Rightarrow> criteria \<Rightarrow> bytes \<Rightarrow> nat \<Rightarrow> 'x registry \<Rightarrow> (nat \<Rightarrow> 'x) \<Rightarrow> bucket_math \<Rightarrow>
     name_resolver list \<Rightarrow> 's lru_ops option \<Rightarrow> ('x, 's) verifier res" where
  "makeBundleVerifier L recover c cidBytes chainId reg ctx_of bm resolvers cache =
     sbind (resolveGate L c reg ctx_of) (\<lambda>leaves.
       Inr \<lparr>vf_criteria = c, vf_criteriaCid = cidBytes, vf_chainId = chainId, vf_recover = recover,
            vf_leaves = leaves, vf_ofLeaf = snd (dedupeLeaves (map rl_key leaves)), vf_bucketMath = bm,
            vf_nameResolvers = resolvers, vf_lib = L, vf_nameCache = cache\<rparr>)"

definition leaf_answer :: "('x, 's) verifier \<Rightarrow> rule_wallet \<Rightarrow> nat \<Rightarrow> rule_result res" where
  "leaf_answer V wallet leaf =
     (let l = vf_leaves V ! leaf in ru_evaluate (rl_rule l) (rl_options l) wallet (rl_ctx l))"

text \<open>\<open>scoreLeaf\<close> keeps one answer per question, from whichever leaf asked it first. The lemma
  \<open>scoreLeaf_shares\<close> says that this is asking each leaf, so the evaluations below ask each leaf.\<close>

definition scoreLeaf ::
  "('x, 's) verifier \<Rightarrow> rule_wallet \<Rightarrow> nat \<Rightarrow> (nat, rule_result res) jsmap \<Rightarrow> (nat, rule_result res) jsmap \<times> rule_result res" where
  "scoreLeaf V wallet leaf asked =
     (let question = vf_ofLeaf V ! leaf in
      case jget asked question of
        Some already \<Rightarrow> (asked, already)
      | None \<Rightarrow> (jset question (leaf_answer V wallet leaf) asked, leaf_answer V wallet leaf))"

definition verifyOffline :: "('x, 's) verifier \<Rightarrow> votes_bundle \<Rightarrow> verify_result" where
  "verifyOffline V b =
     (case verifyBundleSignature (vf_recover V) b (vf_criteriaCid V) (vf_chainId V) of
        Invalid d r fs \<Rightarrow> Invalid d r fs
      | Valid _ \<Rightarrow> checkBundleConstraints b (vf_criteria V))"

definition checkGates :: "('x, 's) verifier \<Rightarrow> rule_wallet \<Rightarrow> gate_result res" where
  "checkGates V wallet =
     sbind (evaluateGate (c_gate (vf_criteria V)) (leaf_answer V wallet) True True) (\<lambda>(gate, errors).
       if gr_sat gate = None
       then Inl (case errors of [] \<Rightarrow> PlainError ''undefined'' | (_, firstError) # _ \<Rightarrow> firstError)
       else Inr gate)"

definition leaf_failure :: "('x, 's) verifier \<Rightarrow> gate_result \<Rightarrow> string \<times> string" where
  "leaf_failure V l =
     (ref_type (rl_ref (vf_leaves V ! gr_leaf l)), case leaf_error l of None \<Rightarrow> '''' | Some e \<Rightarrow> e)"

text \<open>The name step, over the votes in order.\<close>

fun check_names ::
  "lib \<Rightarrow> 's lru_ops option \<Rightarrow> nat \<Rightarrow> name_resolver list \<Rightarrow> vote list \<Rightarrow> (string, string) jsmap \<Rightarrow> 's \<Rightarrow>
     's \<times> bundle_verdict res" where
  "check_names L cache now resolvers [] resolvedNames store = (store, Inr (Valid resolvedNames))"
| "check_names L cache now resolvers (v # vs) resolvedNames store =
     (case carried_name v of
        None \<Rightarrow> check_names L cache now resolvers vs resolvedNames store
      | Some name \<Rightarrow>
          (case List.find (\<lambda>r. nr_canResolve r name) resolvers of
             None \<Rightarrow> (store, Inr (Invalid Ignore (NameRefused name (vote_key v) NoResolver) None))
           | Some resolver \<Rightarrow>
               (case resolveNameThroughCache L cache now resolver name store of
                  (store', Inl e) \<Rightarrow> (store', Inl e)
                | (store', Inr None) \<Rightarrow> (store', Inr (Invalid Ignore (NameRefused name (vote_key v) NoRecord) None))
                | (store', Inr (Some publicKey)) \<Rightarrow>
                    if publicKey \<noteq> vote_key v
                    then (store', Inr (Invalid Ignore (NameRefused name (vote_key v) (OtherKey publicKey)) None))
                    else check_names L cache now resolvers vs (jset name publicKey resolvedNames) store')))"

definition wallet_at :: "('x, 's) verifier \<Rightarrow> votes_bundle \<Rightarrow> rule_wallet" where
  "wallet_at V b =
     \<lparr>rw_address = b_address b,
      rw_sampleBlock = sampleBlockForBucket (vf_bucketMath V) (bucketForBlock (vf_bucketMath V) (b_blockNumber b))\<rparr>"

definition verify :: "('x, 's) verifier \<Rightarrow> nat \<Rightarrow> votes_bundle \<Rightarrow> 's \<Rightarrow> 's \<times> bundle_verdict res" where
  "verify V now b store =
     (case verifyOffline V b of
        Invalid d r fs \<Rightarrow> (store, Inr (Invalid d r fs))
      | Valid _ \<Rightarrow>
          (case evaluateGate (c_gate (vf_criteria V)) (leaf_answer V (wallet_at V b)) False False of
             Inl e \<Rightarrow> (store, Inl e)
           | Inr (gate, _) \<Rightarrow>
               if gr_sat gate \<noteq> Some True
               then (store, Inr (Invalid (if gatePenalize gate then Reject else Ignore)
                       (NotAdmitted (gateReason gate)) (Some (map (leaf_failure V) (gateBlame gate)))))
               else check_names (vf_lib V) (vf_nameCache V) now (vf_nameResolvers V) (b_votes b) [] store))"

section \<open>The verdict cache\<close>

definition isCacheableVerdict :: "bundle_verdict \<Rightarrow> bool" where
  "isCacheableVerdict v = (case v of Valid _ \<Rightarrow> True | Invalid d _ _ \<Rightarrow> d = Reject)"

type_synonym verdict_cache = "(string, bundle_verdict) fifo"

definition verdict_get :: "lib \<Rightarrow> cid \<Rightarrow> verdict_cache \<Rightarrow> bundle_verdict option" where
  "verdict_get L cid c = fifo_get c (cid_str L cid)"

definition verdict_set :: "lib \<Rightarrow> nat \<Rightarrow> cid \<Rightarrow> bundle_verdict \<Rightarrow> verdict_cache \<Rightarrow> verdict_cache" where
  "verdict_set L maxEntries cid v c = fifo_set maxEntries (cid_str L cid) v c"

definition verdict_has :: "lib \<Rightarrow> cid \<Rightarrow> verdict_cache \<Rightarrow> bool" where
  "verdict_has L cid c = jhas (f_map c) (cid_str L cid)"

text \<open>\<open>run\<close> is the wrapped verifier's \<open>verify\<close>, at this moment.\<close>

definition caching_verify ::
  "lib \<Rightarrow> nat \<Rightarrow> (votes_bundle \<Rightarrow> 's \<Rightarrow> 's \<times> bundle_verdict res) \<Rightarrow> cid \<Rightarrow> votes_bundle \<Rightarrow>
     verdict_cache \<times> 's \<Rightarrow> (verdict_cache \<times> 's) \<times> bundle_verdict res" where
  "caching_verify L maxEntries run cid b st =
     (case st of (cache, store) \<Rightarrow>
        case verdict_get L cid cache of
          Some cached \<Rightarrow> ((cache, store), Inr cached)
        | None \<Rightarrow>
            (case run b store of
               (store', Inl e) \<Rightarrow> ((cache, store'), Inl e)
             | (store', Inr verdict) \<Rightarrow>
                 ((if isCacheableVerdict verdict then verdict_set L maxEntries cid verdict cache else cache, store'),
                  Inr verdict)))"

section \<open>What a ballot binds\<close>

definition signed_vote :: "vote \<Rightarrow> string \<times> string \<times> int" where
  "signed_vote v = (case vote_name v of None \<Rightarrow> '''' | Some s \<Rightarrow> s, vote_key v, v_vote v)"

lemma signed_vote_inj: "inj_on signed_vote {v. vote_ok L v}"
proof (rule inj_onI)
  fix v w :: vote
  assume "v \<in> {v. vote_ok L v}" "w \<in> {v. vote_ok L v}" "signed_vote v = signed_vote w"
  then have "vote_name v = vote_name w" "vote_key v = vote_key w" "v_vote v = v_vote w"
    by (auto simp: signed_vote_def vote_ok_def community_ok_def name_ok_def split: option.splits)
  then show "v = w" by simp
qed

lemma ballot_eq_iff:
  assumes "list_all (vote_ok L) vs" "list_all (vote_ok L) ws"
  shows "ballotTypedData c n vs b = ballotTypedData d m ws k \<longleftrightarrow> c = d \<and> n = m \<and> vs = ws \<and> b = k"
proof -
  have "inj_on signed_vote (set vs \<union> set ws)"
    using signed_vote_inj [of L] assms by (elim inj_on_subset) (auto simp: list_all_iff)
  then have "map signed_vote vs = map signed_vote ws \<longleftrightarrow> vs = ws" by (rule inj_on_map_eq_map)
  then show ?thesis
    unfolding ballotTypedData_def signed_vote_def by (auto dest: hex_of_bytes_inj)
qed

section \<open>The offline stage\<close>

lemma check_range_Valid: "is_valid (check_range mn mx vs) \<longleftrightarrow> (\<forall>v \<in> set vs. mn \<le> v_vote v \<and> v_vote v \<le> mx)"
  by (induction vs) auto

lemma constraints_Valid:
  "is_valid (checkBundleConstraints b c) \<longleftrightarrow>
     length (b_votes b) \<le> c_maxVotesPerAddress c \<and>
     (\<forall>v \<in> set (b_votes b). c_voteMin c \<le> v_vote v \<and> v_vote v \<le> c_voteMax c)"
  by (auto simp: checkBundleConstraints_def check_range_Valid)

lemma signature_Valid:
  "is_valid (verifyBundleSignature recover b cidBytes n) \<longleftrightarrow>
     sig_type (b_signature b) = EIP712_SIGNATURE_TYPE \<and> isHex (sig_signature (b_signature b)) \<and>
     (\<exists>a. recover (ballotTypedData cidBytes n (b_votes b) (b_blockNumber b)) (sig_signature (b_signature b)) = Inr a \<and>
        to_lower a = to_lower (b_address b))"
  by (auto simp: verifyBundleSignature_def split: sum.splits)

lemma offline_Valid:
  "is_valid (verifyOffline V b) \<longleftrightarrow>
     is_valid (verifyBundleSignature (vf_recover V) b (vf_criteriaCid V) (vf_chainId V)) \<and>
     is_valid (checkBundleConstraints b (vf_criteria V))"
  by (simp add: verifyOffline_def split: verdict.splits)

lemma check_range_reject: "check_range mn mx vs = Invalid d r fs \<Longrightarrow> d = Reject \<and> fs = None \<and> r \<noteq> NotAdmitted x"
  by (induction vs) (auto split: if_splits)

lemma offline_reject: "verifyOffline V b = Invalid d r fs \<Longrightarrow> d = Reject \<and> fs = None \<and> r \<noteq> NotAdmitted x"
  by (auto simp: verifyOffline_def verifyBundleSignature_def checkBundleConstraints_def
      split: verdict.splits if_splits sum.splits dest: check_range_reject)

section \<open>Shared questions\<close>

lemma scoreLeaf_shares:
  assumes same: "\<And>i j. i \<in> S \<Longrightarrow> j \<in> S \<Longrightarrow> vf_ofLeaf V ! i = vf_ofLeaf V ! j \<Longrightarrow> leaf_answer V w i = leaf_answer V w j"
    and asked: "\<And>q a. jget asked q = Some a \<Longrightarrow> \<exists>i \<in> S. vf_ofLeaf V ! i = q \<and> a = leaf_answer V w i"
    and "i \<in> S" "scoreLeaf V w i asked = (asked', a)"
  shows "a = leaf_answer V w i \<and>
    (\<forall>q a. jget asked' q = Some a \<longrightarrow> (\<exists>i \<in> S. vf_ofLeaf V ! i = q \<and> a = leaf_answer V w i))"
proof (cases "jget asked (vf_ofLeaf V ! i)")
  case None
  with assms(4) have a: "asked' = jset (vf_ofLeaf V ! i) (leaf_answer V w i) asked" "a = leaf_answer V w i"
    using None by (auto simp: scoreLeaf_def Let_def)
  have "\<exists>i \<in> S. vf_ofLeaf V ! i = q \<and> b = leaf_answer V w i" if "jget asked' q = Some b" for q b
  proof (cases "q = vf_ofLeaf V ! i")
    case True
    with that a(1) assms(3) show ?thesis by (auto simp: jget_jset)
  next
    case False
    with that a(1) asked [of q b] show ?thesis by (simp add: jget_jset)
  qed
  with a(2) show ?thesis by blast
next
  case (Some x)
  from asked [OF Some] obtain j where "j \<in> S" "vf_ofLeaf V ! j = vf_ofLeaf V ! i" "x = leaf_answer V w j" by blast
  with same [of j i] assms(3,4) Some have "a = leaf_answer V w i" "asked' = asked" by (auto simp: scoreLeaf_def)
  with asked show ?thesis by blast
qed

section \<open>The gate step\<close>

abbreviation gate_of :: "('x, 's) verifier \<Rightarrow> indexed_gate" where
  "gate_of V \<equiv> fst (indexGate (c_gate (vf_criteria V)) 0)"

lemma verify_gate_strict:
  "evaluateGate (c_gate (vf_criteria V)) ev False False = Inr (r, es) \<Longrightarrow> strict_ok ev r (gate_of V)"
  by (auto simp: evaluateGate_def dest: run_strict)

lemma checkGates_sound:
  assumes "checkGates V w = Inr gate" "completes (leaf_answer V w) p"
  shows "gr_sat gate = Some (gate_sat p (gate_of V))"
proof -
  from assms(1) obtain es where "run_gate (leaf_answer V w) True True (gate_of V) = Inr (gate, es)" "gr_sat gate \<noteq> None"
    by (auto simp: checkGates_def sbind_Inr_iff evaluateGate_def split: if_splits)
  with run_tolerant_sound [OF this(1) assms(2)] show ?thesis by (cases "gr_sat gate") auto
qed

text \<open>A reading of the leaves that agrees with all the answers always exists.\<close>

definition answered :: "(nat \<Rightarrow> rule_result res) \<Rightarrow> nat \<Rightarrow> bool" where
  "answered ev i = (case ev i of Inr a \<Rightarrow> gateFailure a = None | Inl _ \<Rightarrow> False)"

lemma completes_answered: "completes ev (answered ev)"
  by (simp add: completes_def answered_def)

lemma checkGates_agrees:
  assumes "checkGates V w = Inr gate" "evaluateGate (c_gate (vf_criteria V)) (leaf_answer V w) False False = Inr (r, es)"
  shows "gr_sat r = gr_sat gate"
  using checkGates_sound [OF assms(1) completes_answered] verify_gate_strict [OF assms(2)] completes_answered
  unfolding strict_ok_def by metis

section \<open>The name step\<close>

lemma check_names_not_reject:
  "check_names L cache now rs vs m s = (s', Inr (Invalid d r fs)) \<Longrightarrow> d = Ignore \<and> fs = None \<and> r \<noteq> NotAdmitted x"
  by (induction vs arbitrary: m s)
    (auto split: option.splits prod.splits sum.splits if_splits)



text \<open>Under the conditions of \<open>preflight_true\<close>, the name step's verdict is about the registry.\<close>

context json_store
begin

lemma check_names_true:
  assumes inj: "inj (sha256 L)" and stable: "\<And>t. int now - t \<le> 3600 * 1000 \<Longrightarrow> registry t = registry (int now)"
    and h: "\<forall>r \<in> set resolvers. resolver_honest registry now r"
  shows "names_ok L registry cache s \<Longrightarrow> check_names L cache now resolvers vs m s = (s', out) \<Longrightarrow>
    names_ok L registry cache s' \<and>
    (case out of
       Inl e \<Rightarrow> \<exists>r \<in> set resolvers. \<exists>name. nr_resolve r name = Inl e
     | Inr (Valid m') \<Rightarrow> \<forall>v \<in> set vs. name_fault_of (registry (int now)) resolvers v = None
     | Inr (Invalid d why fs) \<Rightarrow> d = Ignore \<and>
         (\<exists>v \<in> set vs. \<exists>name fault. carried_name v = Some name \<and> why = NameRefused name (vote_key v) fault \<and>
           name_fault_of (registry (int now)) resolvers v = Some fault))"
proof (induction vs arbitrary: s m)
  case Nil
  then show ?case by auto
next
  case (Cons v vs)
  show ?case
  proof (cases "carried_name v")
    case None
    then have "name_fault_of (registry (int now)) resolvers v = None" by (simp add: name_fault_of_def)
    with Cons.IH [OF Cons.prems(1), of m] Cons.prems(2) None show ?thesis
      by (auto split: sum.splits verdict.splits)
  next
    case name: (Some name)
    show ?thesis
    proof (cases "List.find (\<lambda>r. nr_canResolve r name) resolvers")
      case None
      with name Cons.prems show ?thesis by (auto simp: name_fault_of_def)
    next
      case r: (Some r)
      obtain st o' where run: "resolveNameThroughCache L cache now r name s = (st, o')" by fastforce
      have rs: "r \<in> set resolvers" using r by (auto simp: find_Some_iff)
      with h have "resolver_honest registry now r" by blast
      from resolve_stable [OF inj Cons.prems(1) this stable run]
      have st: "names_ok L registry cache st"
        and o': "o' = Inr (registry (int now) (nr_key r) (nr_provider r) name) \<or>
          (\<exists>e. o' = Inl e \<and> nr_resolve r name = Inl e)" by auto
      from o' consider (throws) e where "o' = Inl e" "nr_resolve r name = Inl e"
        | (none) "o' = Inr None" "registry (int now) (nr_key r) (nr_provider r) name = None"
        | (some) pk where "o' = Inr (Some pk)" "registry (int now) (nr_key r) (nr_provider r) name = Some pk"
        by (cases "registry (int now) (nr_key r) (nr_provider r) name") auto
      then show ?thesis
      proof cases
        case throws
        with rs have "\<exists>r \<in> set resolvers. \<exists>name. nr_resolve r name = Inl e" by blast
        moreover have "out = Inl e" "s' = st" using throws(1) Cons.prems(2) name r run by auto
        ultimately show ?thesis using st by simp
      next
        case none
        with Cons.prems(2) name r run st show ?thesis by (auto simp: name_fault_of_def)
      next
        case some
        show ?thesis
        proof (cases "pk = vote_key v")
          case True
          with some name r have "name_fault_of (registry (int now)) resolvers v = None" by (simp add: name_fault_of_def)
          with Cons.IH [OF st, of "jset name pk m"] True some Cons.prems(2) name r run show ?thesis
            by (auto split: sum.splits verdict.splits)
        next
          case False
          with some Cons.prems(2) name r run st show ?thesis by (auto simp: name_fault_of_def)
        qed
      qed
    qed
  qed
qed

end

section \<open>A run of requests through the verdict cache\<close>

text \<open>The wrapped verifier's own state before each request, and what the request was answered.\<close>

fun caching_run ::
  "lib \<Rightarrow> nat \<Rightarrow> (votes_bundle \<Rightarrow> 's \<Rightarrow> 's \<times> bundle_verdict res) \<Rightarrow> (cid \<times> votes_bundle) list \<Rightarrow>
     verdict_cache \<times> 's \<Rightarrow> (verdict_cache \<times> 's) \<times> ('s \<times> bundle_verdict res) list" where
  "caching_run L maxEntries run [] st = (st, [])"
| "caching_run L maxEntries run ((cid, b) # reqs) st =
     (case caching_verify L maxEntries run cid b st of (st', out) \<Rightarrow>
      case caching_run L maxEntries run reqs st' of (st'', outs) \<Rightarrow> (st'', (snd st, out) # outs))"

text \<open>Each cached verdict was the wrapped verifier's answer to some earlier request for that CID.\<close>

definition verdicts_from ::
  "lib \<Rightarrow> (votes_bundle \<Rightarrow> 's \<Rightarrow> 's \<times> bundle_verdict res) \<Rightarrow> (cid \<times> votes_bundle \<times> 's) set \<Rightarrow> verdict_cache \<Rightarrow> bool" where
  "verdicts_from L run asked c \<longleftrightarrow>
     fifo.sound (\<lambda>k v. isCacheableVerdict v \<and> (\<exists>cid b s. (cid, b, s) \<in> asked \<and> cid_str L cid = k \<and> snd (run b s) = Inr v)) c"

lemma caching_verify_from:
  assumes "fifo_wf n c" "verdicts_from L run asked c" "caching_verify L n run cid b (c, s) = ((c', s'), out)"
  shows "fifo_wf n c' \<and> verdicts_from L run (insert (cid, b, s) asked) c' \<and>
    (out = snd (run b s) \<or>
     (\<exists>v cid' b' t. (cid', b', t) \<in> asked \<and> cid_str L cid' = cid_str L cid \<and> snd (run b' t) = Inr v \<and>
        isCacheableVerdict v \<and> out = Inr v))"
proof (cases "verdict_get L cid c")
  case (Some v)
  with assms(3) have eq: "c' = c" "s' = s" "out = Inr v" by (auto simp: caching_verify_def)
  from Some assms(2) have v: "isCacheableVerdict v"
    "\<exists>cid' b' t. (cid', b', t) \<in> asked \<and> cid_str L cid' = cid_str L cid \<and> snd (run b' t) = Inr v"
    by (auto simp: verdict_get_def verdicts_from_def fifo.sound_def)
  from assms(2) have "verdicts_from L run (insert (cid, b, s) asked) c"
    unfolding verdicts_from_def fifo.sound_def by blast
  with assms(1) v show ?thesis unfolding eq by blast
next
  case None
  obtain t r where r: "run b s = (t, r)" by fastforce
  let ?P = "\<lambda>k v. isCacheableVerdict v \<and> (\<exists>cid' b' s'. (cid', b', s') \<in> insert (cid, b, s) asked \<and>
      cid_str L cid' = k \<and> snd (run b' s') = Inr v)"
  have c: "fifo.sound ?P c" using assms(2) unfolding verdicts_from_def fifo.sound_def by blast
  show ?thesis
  proof (cases "\<exists>v. r = Inr v \<and> isCacheableVerdict v")
    case True
    then obtain v where v: "r = Inr v" "isCacheableVerdict v" by blast
    then have "?P (cid_str L cid) v"
      using r by (intro conjI exI [of _ cid] exI [of _ b] exI [of _ s]) simp_all
    from fifo.sound_store [OF assms(1) c this] fifo_wf_set [OF assms(1)] None r v assms(3)
    show ?thesis by (auto simp: caching_verify_def verdicts_from_def verdict_set_def)
  next
    case False
    with None r c assms(1,3) show ?thesis
      by (auto simp: caching_verify_def verdicts_from_def split: sum.splits if_splits)
  qed
qed

lemma caching_run_from:
  assumes "fifo_wf n c" "verdicts_from L run asked c" "caching_run L n run reqs (c, s) = ((c', s'), outs)"
  shows "fifo_wf n c' \<and> length outs = length reqs \<and>
    (\<forall>i < length reqs. \<exists>st out. outs ! i = (st, out) \<and>
      (out = snd (run (snd (reqs ! i)) st) \<or>
       (\<exists>v cid b t. (cid, b, t) \<in> asked \<union> (\<lambda>j. (fst (reqs ! j), snd (reqs ! j), fst (outs ! j))) ` {..<i} \<and>
          cid_str L cid = cid_str L (fst (reqs ! i)) \<and> snd (run b t) = Inr v \<and> isCacheableVerdict v \<and> out = Inr v)))"
  using assms
proof (induction reqs arbitrary: c s asked c' s' outs)
  case Nil
  then show ?case by auto
next
  case (Cons q reqs)
  obtain cid b where q: "q = (cid, b)" by (cases q)
  obtain c1 s1 out where one: "caching_verify L n run cid b (c, s) = ((c1, s1), out)" by (metis prod.exhaust)
  obtain outs' where rest: "caching_run L n run reqs (c1, s1) = ((c', s'), outs')" "outs = (s, out) # outs'"
    using Cons.prems(3) one q by (auto split: prod.splits)
  from caching_verify_from [OF Cons.prems(1,2) one]
  have wf: "fifo_wf n c1" and from1: "verdicts_from L run (insert (cid, b, s) asked) c1"
    and o1: "out = snd (run b s) \<or> (\<exists>v cid' b' t. (cid', b', t) \<in> asked \<and> cid_str L cid' = cid_str L cid \<and>
        snd (run b' t) = Inr v \<and> isCacheableVerdict v \<and> out = Inr v)" by blast+
  note ih = Cons.IH [OF wf from1 rest(1)]
  have shift: "insert (cid, b, s) asked \<union> (\<lambda>j. (fst (reqs ! j), snd (reqs ! j), fst (outs' ! j))) ` {..<i} =
      asked \<union> (\<lambda>j. (fst ((q # reqs) ! j), snd ((q # reqs) ! j), fst (outs ! j))) ` {..<Suc i}" for i
    unfolding lessThan_Suc_eq_insert_0 image_insert image_image using q rest(2) by simp
  show ?case
  proof (intro conjI allI impI)
    show "fifo_wf n c'" "length outs = length (q # reqs)" using ih rest(2) by auto
    fix i assume i: "i < length (q # reqs)"
    show "\<exists>st out. outs ! i = (st, out) \<and> (out = snd (run (snd ((q # reqs) ! i)) st) \<or>
       (\<exists>v cid b t. (cid, b, t) \<in> asked \<union> (\<lambda>j. (fst ((q # reqs) ! j), snd ((q # reqs) ! j), fst (outs ! j))) ` {..<i} \<and>
          cid_str L cid = cid_str L (fst ((q # reqs) ! i)) \<and> snd (run b t) = Inr v \<and> isCacheableVerdict v \<and> out = Inr v))"
    proof (cases i)
      case 0
      with o1 q rest(2) show ?thesis by auto
    next
      case (Suc j)
      with i ih have "\<exists>st out. outs' ! j = (st, out) \<and> (out = snd (run (snd (reqs ! j)) st) \<or>
       (\<exists>v cid' b' t. (cid', b', t) \<in> insert (cid, b, s) asked \<union> (\<lambda>j. (fst (reqs ! j), snd (reqs ! j), fst (outs' ! j))) ` {..<j} \<and>
          cid_str L cid' = cid_str L (fst (reqs ! j)) \<and> snd (run b' t) = Inr v \<and> isCacheableVerdict v \<and> out = Inr v))"
        by simp
      then show ?thesis unfolding shift using Suc rest(2) by simp
    qed
  qed
qed

section \<open>Which refusals are shared\<close>

lemma verify_Reject_cases:
  assumes "verify V now b s = (s', Inr (Invalid Reject why fs))"
  obtains (offline) "\<not> is_valid (verifyOffline V b)"
    | (gate) r es where "evaluateGate (c_gate (vf_criteria V)) (leaf_answer V (wallet_at V b)) False False = Inr (r, es)"
        "gatePenalize r"
proof (cases "is_valid (verifyOffline V b)")
  case True
  then have "verifyOffline V b = Valid ()" by (cases "verifyOffline V b") auto
  with assms that(2) show thesis
    by (auto simp: verify_def split: sum.splits if_splits dest!: check_names_not_reject)
qed (rule that(1))

lemma verify_ValidD:
  assumes "verify V now b s = (s', Inr (Valid m))"
  shows "is_valid (verifyOffline V b) \<and> (\<exists>r es. evaluateGate (c_gate (vf_criteria V)) (leaf_answer V (wallet_at V b)) False False = Inr (r, es) \<and>
    gr_sat r = Some True) \<and> check_names (vf_lib V) (vf_nameCache V) now (vf_nameResolvers V) (b_votes b) [] s = (s', Inr (Valid m))"
  using assms by (auto simp: verify_def split: sum.splits if_splits verdict.splits)

end
