(* ===== verification/Rule_Properties.thy ===== *)
theory Rule_Properties
  imports Erc5192 Verify Wire_Properties
begin

text \<open>
  The properties of admission: the gate formula and its blame, the rules' batches, the ballot, the
  verifier's verdicts and who shares them, names, and the verdict cache. Each rests on the lemmas
  of \<open>Gate\<close>, \<open>Rules\<close>, \<open>Erc5192\<close>, \<open>Names\<close> and \<open>Verify\<close>.
\<close>

section \<open>The gate\<close>

text \<open>C5: The gate is its formula. When every leaf answers, the short-circuiting evaluation a
  verifier runs and the exhaustive one the preflight runs both end, in the truth value of the
  \<open>all\<close>/\<open>any\<close> formula over the leaves that pass; and the short-circuit never blames the sender
  for a refusal the exhaustive evaluation would not.\<close>

theorem gate_is_formula:
  "\<exists>lz eg. evaluateGate g (\<lambda>i. Inr (a (gateLeaves g ! i))) False t = Inr (lz, []) \<and>
     evaluateGate g (\<lambda>i. Inr (a (gateLeaves g ! i))) True t = Inr (eg, []) \<and>
     gr_sat lz = Some (node_sat (\<lambda>r. gateFailure (a r) = None) g) \<and> gr_sat eg = gr_sat lz \<and>
     \<not> (gatePenalize lz \<and> \<not> gatePenalize eg)"
proof -
  let ?ans = "\<lambda>i. a (gateLeaves g ! i)" and ?g = "fst (indexGate g 0)"
  from run_gate_lazy [of ?ans t ?g] obtain lz where
    lz: "run_gate (\<lambda>i. Inr (?ans i)) False t ?g = Inr (lz, [])" "lazy_ok ?ans lz ?g" by blast
  have "gate_sat (admits ?ans) ?g = node_sat (\<lambda>r. gateFailure (a r) = None) g"
    by (rule gate_sat_index) (simp add: admits_def)
  with lz run_eager [of ?ans t ?g] eager_sat [of ?ans ?g] show ?thesis
    by (auto simp: evaluateGate_def lazy_ok_def)
qed

lemma blame_refused: "l \<in> set (gateBlame (eager_tree ans g)) \<Longrightarrow> \<not> admits ans (gr_leaf l)"
proof (induction g)
  case (IxLeaf i)
  then show ?case by (auto simp: leaf_result_def admits_def split: option.splits)
next
  case (IxBranch k cs)
  then show ?case by (auto simp: Let_def split: if_splits)
qed

text \<open>A refusal explains itself. For a gate the schema accepts, a refused wallet gets a
  non-empty list of blamed leaves, each of which refused it, and a wallet that also passed those
  leaves would be admitted.\<close>

theorem gate_blame_explains:
  assumes "branches_ok g"
    and "evaluateGate g (\<lambda>i. Inr (ans i)) True t = Inr (r, es)" "\<not> gate_sat (admits ans) (fst (indexGate g 0))"
  shows "gateBlame r \<noteq> [] \<and> (\<forall>l \<in> set (gateBlame r). \<not> admits ans (gr_leaf l)) \<and>
    gate_sat (\<lambda>i. admits ans i \<or> i \<in> gr_leaf ` set (gateBlame r)) (fst (indexGate g 0))"
proof -
  let ?g = "fst (indexGate g 0)"
  have r: "r = eager_tree ans ?g" using assms(2) run_eager [of ans t ?g] by (simp add: evaluateGate_def)
  have ok: "ix_ok ?g" using branches_ok_ix_ok(1) [OF assms(1)] .
  note suff = blame_sufficient [OF assms(3) ok]
  have "gateBlame (eager_tree ans ?g) \<noteq> []"
  proof
    assume "gateBlame (eager_tree ans ?g) = []"
    with suff have "gate_sat (\<lambda>i. admits ans i) ?g" by simp
    with assms(3) show False by simp
  qed
  with suff blame_refused [of _ ans ?g] show ?thesis unfolding r by blast
qed


theorem gate_blame_explains_witness:
  "let g = GAny [GLeaf (RuleRef ''constant'' []), GAll [GLeaf (RuleRef ''a'' []), GLeaf (RuleRef ''b'' [])]];
       ans = (\<lambda>i. if i = 1 then RSuccess 3 else RFail ''no'' None) in
   \<exists>r es. evaluateGate g (\<lambda>i. Inr (ans i)) True False = Inr (r, es) \<and> gateBlame r \<noteq> []"
proof -
  let ?g = "GAny [GLeaf (RuleRef ''constant'' []), GAll [GLeaf (RuleRef ''a'' []), GLeaf (RuleRef ''b'' [])]]"
  let ?ans = "\<lambda>i :: nat. if i = 1 then RSuccess 3 else RFail ''no'' None"
  have "evaluateGate ?g (\<lambda>i. Inr (?ans i)) True False = Inr (eager_tree ?ans (fst (indexGate ?g 0)), [])"
    unfolding evaluateGate_def by (rule run_eager)
  moreover have "branches_ok ?g" "\<not> gate_sat (admits ?ans) (fst (indexGate ?g 0))"
    by (simp_all add: admits_def gateFailure_def)
  moreover note gate_blame_explains [of ?g ?ans False]
  ultimately show ?thesis unfolding Let_def by meson
qed

section \<open>Resolution\<close>

text \<open>A validated contest runs. If every rule a document names is registered and its options
  parse, the verifier is built; it has one leaf per gate leaf in order; and two leaves share a
  question exactly if their canonical forms are the same bytes.\<close>

theorem validated_contest_runs:
  assumes "validateCriteriaRules c reg = Inr ()"
  shows "\<exists>V. makeBundleVerifier L recover c cidBytes chainId reg ctx_of bm resolvers cache = Inr V \<and>
    map rl_ref (vf_leaves V) = gateLeaves (c_gate c) \<and> length (vf_ofLeaf V) = length (vf_leaves V) \<and>
    (\<forall>i < length (vf_leaves V). \<forall>j < length (vf_leaves V). vf_ofLeaf V ! i = vf_ofLeaf V ! j \<longleftrightarrow>
       encodeCanonical L (ref_ipld (gateLeaves (c_gate c) ! i)) = encodeCanonical L (ref_ipld (gateLeaves (c_gate c) ! j)))"
proof -
  from resolveGate_validated [OF assms] obtain ls where ls:
    "resolveGate L c reg ctx_of = Inr ls" "map rl_ref ls = gateLeaves (c_gate c)"
    "map rl_key ls = map (\<lambda>r. hex_of_bytes (encodeCanonical L (ref_ipld r))) (gateLeaves (c_gate c))"
    by blast
  obtain reps os where d: "dedupeLeaves (map rl_key ls) = (reps, os)" by fastforce
  note ok = dedupeLeaves_ok [OF d]
  have len: "length ls = length (gateLeaves (c_gate c))" using ls(2) by (metis length_map)
  have key: "map rl_key ls ! i = hex_of_bytes (encodeCanonical L (ref_ipld (gateLeaves (c_gate c) ! i)))"
    if "i < length ls" for i using ls(3) that len by simp
  have same: "os ! i = os ! j \<longleftrightarrow> map rl_key ls ! i = map rl_key ls ! j" if "i < length ls" "j < length ls" for i j
  proof -
    have i: "os ! i < length reps" "map rl_key ls ! (reps ! (os ! i)) = map rl_key ls ! i"
      and j: "os ! j < length reps" "map rl_key ls ! (reps ! (os ! j)) = map rl_key ls ! j"
      using ok(4) that by auto
    have "os ! i = os ! j" if "map rl_key ls ! i = map rl_key ls ! j"
      using nth_eq_iff_index_eq [OF ok(3), of "os ! i" "os ! j"] i j that by simp
    with i j show ?thesis by metis
  qed
  have hex: "hex_of_bytes x = hex_of_bytes y \<longleftrightarrow> x = y" for x y using hex_of_bytes_inj by blast
  have "\<forall>i < length ls. \<forall>j < length ls. os ! i = os ! j \<longleftrightarrow>
       encodeCanonical L (ref_ipld (gateLeaves (c_gate c) ! i)) = encodeCanonical L (ref_ipld (gateLeaves (c_gate c) ! j))"
    using same key hex by auto
  with ls ok(1) d len show ?thesis by (simp add: makeBundleVerifier_def)
qed

definition constant_rule :: "'x rule" where
  "constant_rule = \<lparr>ru_parse = ConstantOptionsSchema,
     ru_evaluate = (\<lambda>opts w x. constant_evaluate (case opts of ConstantOptions n \<Rightarrow> n | _ \<Rightarrow> 1) w),
     ru_evaluateMany = None\<rparr>"

theorem validated_contest_runs_witness:
  "\<exists>V. makeBundleVerifier sample_lib (\<lambda>_ _. Inr '''') sample_criteria [1] 1 [(''constant'', constant_rule)] (\<lambda>_. ())
     \<lparr>bucketForBlock = bucket_of 10, sampleBlockForBucket = sample_of 10\<rparr> [] (None :: unit lru_ops option) = Inr V \<and>
     map rl_ref (vf_leaves V) = [RuleRef ''constant'' []]"
proof -
  have "validateCriteriaRules sample_criteria [(''constant'', constant_rule :: unit rule)] = Inr ()"
    by (simp add: validateCriteriaRules_def sample_criteria_def validate_ref_def constant_rule_def
        ConstantOptionsSchema_def positive_default_def require_some_def)
  from validated_contest_runs [OF this] show ?thesis
    by (fastforce simp: sample_criteria_def)
qed


section \<open>The rules\<close>

text \<open>Batching changes nothing for an ERC-721 gate. The batch groups wallets by sample block,
  reads each group in multicalls of at most two hundred, retries a failed one once, and answers
  what asking for each wallet alone answers, in the callers' order.\<close>

theorem erc721_batch_is_single:
  assumes "multicall_law chain" "wallets \<noteq> []"
    and "\<And>w. w \<in> set wallets \<Longrightarrow> erc721_evaluate addr chain contract mn w = Inr (g w)"
  shows "erc721_evaluateMany addr chain contract mn wallets = Inr (map g wallets)"
  by (rule erc721_many_is_map [OF assms(1,3,2)])

definition sample_chain :: "bool \<Rightarrow> chain_client" where
  "sample_chain batched =
     \<lparr>ch_supports = (\<lambda>_ _ _. Answer True), ch_balanceOf = (\<lambda>_ w b. Answer (length w + b)),
      ch_multicall = (\<lambda>attempt _ ws b. if attempt = 0 then Unreachable ''busy'' else Answer (map (\<lambda>w. length w + b) ws)),
      ch_hasMulticall = batched, ch_hasMulticall3 = batched\<rparr>"

lemma sample_multicall_law: "multicall_law (sample_chain b)"
proof -
  have "list_all2 (\<lambda>a c. length a + n = c) as bs \<Longrightarrow> bs = map (\<lambda>w. length w + n) as" for n and as :: "string list" and bs
    by (induction rule: list_all2_induct) auto
  then show ?thesis by (simp add: multicall_law_def sample_chain_def)
qed

theorem erc721_batch_is_single_witness:
  "erc721_evaluateMany Inr (sample_chain True) ''c'' 5
      [\<lparr>rw_address = ''ab'', rw_sampleBlock = 9\<rparr>, \<lparr>rw_address = ''a'', rw_sampleBlock = 2\<rparr>, \<lparr>rw_address = ''abc'', rw_sampleBlock = 9\<rparr>] =
   Inr (map (\<lambda>w. pinnedResult (length (rw_address w) + rw_sampleBlock w) 5 ''c'')
      [\<lparr>rw_address = ''ab'', rw_sampleBlock = 9\<rparr>, \<lparr>rw_address = ''a'', rw_sampleBlock = 2\<rparr>, \<lparr>rw_address = ''abc'', rw_sampleBlock = 9\<rparr>])"
  by (rule erc721_batch_is_single [OF sample_multicall_law])
    (simp_all add: erc721_evaluate_def balanceOf_def sample_chain_def)

text \<open>C24: The soulbound gate scores at the head or, failing that, at the wallet's sample block.
  Through any sound memo, in memory, a batch answers for each wallet what the chain says of it,
  leaves the memo sound, admits exactly the wallets holding the minimum at one of the two blocks
  where the contract declares ERC-5192, and never blames the sender.\<close>

theorem erc5192_batch_is_spec:
  assumes "mc_sound n (memo_truth D B contract head) c" "addr contractText = Inr contract" "0 < mn"
    and "chain_answers addr chain contract D B (insert head (rw_sampleBlock ` set wallets)) (rw_address ` set wallets)"
  shows "\<exists>c' rs. erc5192_evaluateMany mc_get (mc_set n) mc_purgeBelow addr chain (Inr head) contractText mn wallets c =
       (c', Inr rs) \<and> mc_sound n (memo_truth D B contract head) c' \<and>
     list_all2 (\<lambda>w r. (gateFailure r = None \<longleftrightarrow> (\<exists>b \<in> {head, rw_sampleBlock w}. D b \<and> mn \<le> B (to_lower (rw_address w)) b)) \<and>
        (\<forall>err. gateFailure r \<noteq> Some (err, True))) wallets rs"
proof -
  from mcpurge.evaluateMany_spec [OF assms(1,2,4), of mn] obtain c' where
    "erc5192_evaluateMany mc_get (mc_set n) mc_purgeBelow addr chain (Inr head) contractText mn wallets c =
       (c', Inr (map (erc5192_spec D B mn contract head) wallets))" "mc_sound n (memo_truth D B contract head) c'"
    by blast
  moreover have "list_all2 (\<lambda>w r. (gateFailure r = None \<longleftrightarrow> (\<exists>b \<in> {head, rw_sampleBlock w}. D b \<and> mn \<le> B (to_lower (rw_address w)) b)) \<and>
      (\<forall>err. gateFailure r \<noteq> Some (err, True))) wallets (map (erc5192_spec D B mn contract head) wallets)"
    using erc5192_spec_admits [OF assms(3)] erc5192_spec_penalize [of D B mn contract head]
    unfolding list_all2_conv_all_nth by fastforce
  ultimately show ?thesis by blast
qed

theorem erc5192_batch_is_spec_witness:
  "\<exists>c' r. erc5192_evaluateMany mc_get (mc_set 8) mc_purgeBelow Inr (sample_chain True) (Inr 5) ''c'' 9
       [\<lparr>rw_address = ''ab'', rw_sampleBlock = 7\<rparr>] fifo_empty = (c', Inr [r]) \<and> gateFailure r = None"
proof -
  have m: "mc_sound 8 (memo_truth (\<lambda>_. True) (\<lambda>w b. length w + b) ''c'' 5) fifo_empty" by (simp add: mc_sound_def)
  have ch: "chain_answers Inr (sample_chain True) ''c'' (\<lambda>_. True) (\<lambda>w b. length w + b)
      (insert 5 (rw_sampleBlock ` set [\<lparr>rw_address = ''ab'', rw_sampleBlock = 7\<rparr>]))
      (rw_address ` set [\<lparr>rw_address = ''ab'', rw_sampleBlock = 7\<rparr>])"
    using sample_multicall_law [of True]
    by (simp add: chain_answers_def declaresErc5192_def balanceOf_def sample_chain_def to_lower_def)
  from erc5192_batch_is_spec [OF m _ _ ch, of "''c''" 9]
  show ?thesis by (fastforce simp: list_all2_Cons1 to_lower_def)
qed

text \<open>An ERC-20 gate whose minimum is zero admits a wallet that holds nothing with a success of
  score zero, which the gate then treats as a failure blamed on the sender.\<close>

theorem erc20_zero_minimum:
  assumes "addr contract = Inr a" "balanceOf addr chain a (rw_address w) (rw_sampleBlock w) = Inr 0"
  shows "erc20_evaluate addr chain fmt contract 0 minText w = Inr (RSuccess 0) \<and>
    gateFailure (RSuccess 0) = Some (NON_POSITIVE_SUCCESS, True)"
  using assms by (simp add: erc20_evaluate_def gateFailure_def)

theorem erc20_zero_minimum_witness:
  "erc20_evaluate Inr (sample_chain False) (\<lambda>_. '''') ''c'' 0 ''0'' \<lparr>rw_address = [], rw_sampleBlock = 0\<rparr> = Inr (RSuccess 0)"
  using erc20_zero_minimum [of Inr "''c''" "''c''" "sample_chain False" "\<lparr>rw_address = [], rw_sampleBlock = 0\<rparr>"]
  by (simp add: balanceOf_def sample_chain_def)

section \<open>Bundles\<close>

text \<open>A signature binds everything that is counted. Over schema-valid votes, two ballots have the
  same typed data only if contest, chain, votes and block number all agree, so no signature can be
  replayed for another contest, chain, ballot or block.\<close>

theorem ballot_binding:
  assumes "list_all (vote_ok L) vs" "list_all (vote_ok L) ws"
  shows "ballotTypedData c n vs b = ballotTypedData d m ws k \<longleftrightarrow> c = d \<and> n = m \<and> vs = ws \<and> b = k"
  by (rule ballot_eq_iff [OF assms])

theorem ballot_binding_witness:
  "ballotTypedData [1] 1 [sample_vote] 7 \<noteq> ballotTypedData [1] 1 [sample_vote] 8"
  using ballot_binding [of sample_lib "[sample_vote]" "[sample_vote]"] sample_vote_ok by simp


lemma is_valid_eq: "is_valid x \<longleftrightarrow> (\<exists>y. x = Valid y)"
  by (cases x) auto

text \<open>A verifier over answering leaves, honest resolvers that do not throw, and a registry that is
  stable over the hour the name cache may lag.\<close>

definition verifier_answers ::
  "('x, ipld mem_lru) verifier \<Rightarrow> nat \<Rightarrow> registry_history \<Rightarrow> (nat \<Rightarrow> rule_result) \<Rightarrow> votes_bundle \<Rightarrow> ipld mem_lru \<Rightarrow> nat \<Rightarrow> bool" where
  "verifier_answers V now registry ans b s n \<longleftrightarrow>
     (\<forall>i < length (gateLeaves (c_gate (vf_criteria V))). leaf_answer V (wallet_at V b) i = Inr (ans i)) \<and>
     inj (sha256 (vf_lib V)) \<and> (\<forall>t. int now - t \<le> 3600 * 1000 \<longrightarrow> registry t = registry (int now)) \<and>
     (\<forall>r \<in> set (vf_nameResolvers V). resolver_honest registry now r \<and> (\<forall>name. \<exists>x. nr_resolve r name = Inr x)) \<and>
     memjson.names_ok n (vf_lib V) registry (vf_nameCache V) s"

lemma verify_gate_answers:
  assumes "\<forall>i < length (gateLeaves (c_gate (vf_criteria V))). leaf_answer V w i = Inr (ans i)"
  obtains r es where "evaluateGate (c_gate (vf_criteria V)) (leaf_answer V w) False False = Inr (r, es)"
    "gr_sat r = Some (gate_sat (admits ans) (gate_of V))"
proof -
  let ?ev = "leaf_answer V w"
  have leaves: "i \<in> set (ix_leaves (gate_of V)) \<Longrightarrow> ?ev i = Inr (ans i)" for i
    using assms indexGate_leaves(1) [of "c_gate (vf_criteria V)" 0] by simp
  from run_strict_total [of "gate_of V" ?ev] leaves obtain r es where
    r: "run_gate ?ev False False (gate_of V) = Inr (r, es)" by blast
  have "gr_sat r = Some (gate_sat (answered ?ev) (gate_of V))"
    using run_strict [OF r] completes_answered [of ?ev] unfolding strict_ok_def by blast
  also have "gate_sat (answered ?ev) (gate_of V) = gate_sat (admits ans) (gate_of V)"
    using leaves by (intro gate_sat_cong) (simp add: answered_def admits_def)
  finally show thesis using r that by (simp add: evaluateGate_def)
qed

text \<open>C4: What \<open>valid\<close> means. When the chain answers, the registry is stable and no resolver throws,
  the verifier always returns a verdict, and the verdict is \<open>valid\<close> exactly if the wallet signed
  this ballot for this contest and chain, the votes are within the contest's count and range, the
  gate formula holds of the wallet, and every name voted for resolves to the voted key.\<close>

theorem verify_valid_iff:
  assumes "verifier_answers V now registry ans b s n"
  shows "\<exists>s' out. verify V now b s = (s', Inr out) \<and>
    (is_valid out \<longleftrightarrow>
       sig_type (b_signature b) = EIP712_SIGNATURE_TYPE \<and> isHex (sig_signature (b_signature b)) \<and>
       (\<exists>a. vf_recover V (ballotTypedData (vf_criteriaCid V) (vf_chainId V) (b_votes b) (b_blockNumber b))
              (sig_signature (b_signature b)) = Inr a \<and> to_lower a = to_lower (b_address b)) \<and>
       length (b_votes b) \<le> c_maxVotesPerAddress (vf_criteria V) \<and>
       (\<forall>v \<in> set (b_votes b). c_voteMin (vf_criteria V) \<le> v_vote v \<and> v_vote v \<le> c_voteMax (vf_criteria V)) \<and>
       gate_sat (admits ans) (gate_of V) \<and>
       (\<forall>v \<in> set (b_votes b). name_fault_of (registry (int now)) (vf_nameResolvers V) v = None))"
proof -
  from assms [unfolded verifier_answers_def] have leaves: "\<forall>i < length (gateLeaves (c_gate (vf_criteria V))). leaf_answer V (wallet_at V b) i = Inr (ans i)"
    and inj: "inj (sha256 (vf_lib V))" and stable: "\<And>t. int now - t \<le> 3600 * 1000 \<Longrightarrow> registry t = registry (int now)"
    and h: "\<forall>r \<in> set (vf_nameResolvers V). resolver_honest registry now r"
    and ans: "\<forall>r \<in> set (vf_nameResolvers V). \<forall>name. \<exists>x. nr_resolve r name = Inr x"
    and names: "memjson.names_ok n (vf_lib V) registry (vf_nameCache V) s"
    by blast+
  from verify_gate_answers [OF leaves] obtain r es where
    r: "evaluateGate (c_gate (vf_criteria V)) (leaf_answer V (wallet_at V b)) False False = Inr (r, es)"
    and sat: "gr_sat r = Some (gate_sat (admits ans) (gate_of V))" by blast
  obtain s' out where cn: "check_names (vf_lib V) (vf_nameCache V) now (vf_nameResolvers V) (b_votes b) [] s = (s', out)"
    by fastforce
  from memjson.check_names_true [OF inj stable h names cn]
  have o: "case out of Inl e \<Rightarrow> \<exists>r \<in> set (vf_nameResolvers V). \<exists>name. nr_resolve r name = Inl e
     | Inr (Valid m') \<Rightarrow> \<forall>v \<in> set (b_votes b). name_fault_of (registry (int now)) (vf_nameResolvers V) v = None
     | Inr (Invalid d why fs) \<Rightarrow> d = Ignore \<and>
         (\<exists>v \<in> set (b_votes b). \<exists>name fault. carried_name v = Some name \<and> why = NameRefused name (vote_key v) fault \<and>
           name_fault_of (registry (int now)) (vf_nameResolvers V) v = Some fault)" by blast
  have "out \<noteq> Inl e" for e
  proof
    assume e: "out = Inl e"
    from o obtain r name where "r \<in> set (vf_nameResolvers V)" "nr_resolve r name = Inl e" unfolding e by auto
    with ans show False by (metis sum.distinct(1))
  qed
  then obtain vd where vd: "out = Inr vd" by (cases out) auto
  have nm: "is_valid vd \<longleftrightarrow> (\<forall>v \<in> set (b_votes b). name_fault_of (registry (int now)) (vf_nameResolvers V) v = None)"
    using o unfolding vd by (cases vd) auto
  show ?thesis
  proof (cases "is_valid (verifyOffline V b)")
    case False
    then obtain d why fs where "verifyOffline V b = Invalid d why fs" by (cases "verifyOffline V b") auto
    moreover from False have "\<not> is_valid (verifyBundleSignature (vf_recover V) b (vf_criteriaCid V) (vf_chainId V)) \<or>
        \<not> is_valid (checkBundleConstraints b (vf_criteria V))" by (simp add: offline_Valid)
    ultimately show ?thesis unfolding signature_Valid constraints_Valid by (auto simp: verify_def)
  next
    case True
    then have off: "verifyOffline V b = Valid ()" by (cases "verifyOffline V b") auto
    from True have "is_valid (verifyBundleSignature (vf_recover V) b (vf_criteriaCid V) (vf_chainId V))"
      "is_valid (checkBundleConstraints b (vf_criteria V))" by (simp_all add: offline_Valid)
    then show ?thesis unfolding signature_Valid constraints_Valid
      using r sat cn nm by (cases "gate_sat (admits ans) (gate_of V)") (auto simp: verify_def off vd)
  qed
qed

definition sample_verifier :: "name_resolver list \<Rightarrow> (unit, ipld mem_lru) verifier" where
  "sample_verifier resolvers =
     \<lparr>vf_criteria = sample_criteria, vf_criteriaCid = [1], vf_chainId = 1,
      vf_recover = (\<lambda>td sig. Inr (bytesToHex (replicate 20 1))),
      vf_leaves = [\<lparr>rl_ref = RuleRef ''constant'' [], rl_rule = constant_rule, rl_options = ConstantOptions 1,
                    rl_ctx = (), rl_key = []\<rparr>],
      vf_ofLeaf = [0], vf_bucketMath = \<lparr>bucketForBlock = bucket_of 10, sampleBlockForBucket = sample_of 10\<rparr>,
      vf_nameResolvers = resolvers, vf_lib = sample_lib, vf_nameCache = Some (memjson.ops 5)\<rparr>"

definition sample_resolver :: "string \<Rightarrow> name_resolver" where
  "sample_resolver pk = \<lparr>nr_key = ''bso'', nr_provider = ''p'', nr_canResolve = (\<lambda>_. True), nr_resolve = (\<lambda>_. Inr (Some pk))\<rparr>"

lemma sample_verifier_answers:
  "verifier_answers (sample_verifier [sample_resolver pk]) now (\<lambda>_ _ _ _. Some pk) (\<lambda>_. RSuccess 1) b [] 5"
proof -
  have "inj (sha256 sample_lib)" by (simp add: sample_lib_def)
  then show ?thesis
    by (auto simp: verifier_answers_def sample_verifier_def sample_criteria_def leaf_answer_def constant_rule_def
        constant_evaluate_def resolver_honest_def sample_resolver_def memjson.names_ok_def memlru.holds_def)
qed

theorem verify_valid_iff_witness:
  "\<exists>s' m. verify (sample_verifier [sample_resolver ''ab'']) 9 (sample_bundle 1 7) [] = (s', Inr (Valid m))"
proof -
  let ?V = "sample_verifier [sample_resolver ''ab'']"
  have "isHex (sig_signature (b_signature (sample_bundle 1 7)))" by (simp add: sample_bundle_def bytesToHex_def isHex_def)
  moreover have "name_fault_of (\<lambda>_ _ _. Some ''ab'') (vf_nameResolvers ?V) sample_vote = None"
    by (simp add: name_fault_of_def sample_verifier_def sample_resolver_def sample_vote_def carried_name_def)
  moreover have "gate_sat (admits (\<lambda>_. RSuccess 1)) (gate_of ?V)"
    by (simp add: sample_verifier_def sample_criteria_def admits_def gateFailure_def)
  ultimately show ?thesis
    using verify_valid_iff [OF sample_verifier_answers, of "''ab''" 9 "sample_bundle 1 7"]
    by (auto simp: is_valid_eq sample_bundle_def sample_verifier_def sample_criteria_def EIP712_SIGNATURE_TYPE_def
        sample_vote_def [THEN arg_cong [where f = v_vote]])
qed

text \<open>A penalized refusal is one every honest verifier shares. If a verifier rejects a bundle, then
  any verifier of the same contest, whatever its chain client, clock, caches and resolvers, refuses
  it too, as long as it also refuses the leaves the first one blamed on the sender; so forwarding
  only what one accepts never gets an honest node penalized.\<close>

theorem reject_is_shared:
  assumes "verify V now b s = (s', Inr (Invalid Reject why fs))"
    and "vf_criteria W = vf_criteria V" "vf_criteriaCid W = vf_criteriaCid V" "vf_chainId W = vf_chainId V" "vf_recover W = vf_recover V"
    and "\<And>i a err a'. i < length (gateLeaves (c_gate (vf_criteria V))) \<Longrightarrow> leaf_answer V (wallet_at V b) i = Inr a \<Longrightarrow> gateFailure a = Some (err, True) \<Longrightarrow>
           leaf_answer W (wallet_at W b) i = Inr a' \<Longrightarrow> gateFailure a' \<noteq> None"
  shows "verify W now' b t \<noteq> (t', Inr (Valid m))"
proof
  assume W: "verify W now' b t = (t', Inr (Valid m))"
  have same: "verifyOffline W b = verifyOffline V b" unfolding verifyOffline_def assms(2-5) ..
  from assms(1) show False
  proof (cases rule: verify_Reject_cases)
    case offline
    with verify_ValidD [OF W] same show False by simp
  next
    case (gate r es)
    from verify_ValidD [OF W] obtain r' es' where
      r': "evaluateGate (c_gate (vf_criteria W)) (leaf_answer W (wallet_at W b)) False False = Inr (r', es')" "gr_sat r' = Some True"
      by blast
    let ?p = "answered (leaf_answer W (wallet_at W b))" and ?n = "length (gateLeaves (c_gate (vf_criteria V)))"
    from verify_gate_strict [OF r'(1)] r'(2) have "gate_sat ?p (gate_of W)"
      using completes_answered by (fastforce simp: strict_ok_def)
    then have "gate_sat (\<lambda>i. i < ?n \<and> ?p i) (gate_of V)"
      unfolding assms(2) by (rule iffD2 [OF gate_sat_cong, rotated]) (simp add: indexGate_leaves(1))
    moreover have "spares (leaf_answer V (wallet_at V b)) (\<lambda>i. i < ?n \<and> ?p i)"
      using assms(6) by (auto simp: spares_def answered_def split: sum.splits)
    with verify_gate_strict [OF gate(1)] gate(2) have "\<not> gate_sat (\<lambda>i. i < ?n \<and> ?p i) (gate_of V)" by (simp add: strict_ok_def)
    ultimately show False by simp
  qed
qed

theorem reject_is_shared_witness:
  "\<forall>t' m. verify (sample_verifier [sample_resolver ''zz'']) 99 (sample_bundle 2 7) [] \<noteq> (t', Inr (Valid m))"
proof -
  let ?V = "sample_verifier [sample_resolver ''ab'']"
  let ?b = "sample_bundle 2 7"
  have ne: "to_lower (bytesToHex (replicate 20 1)) \<noteq> to_lower (bytesToHex (replicate 20 2))" by code_simp
  have hex: "isHex (bytesToHex (replicate 65 1))" by (simp add: bytesToHex_def isHex_def)
  have "verifyOffline ?V ?b = Invalid Reject (SignerMismatch (bytesToHex (replicate 20 1)) (bytesToHex (replicate 20 2))) None"
    using ne hex by (simp add: verifyOffline_def verifyBundleSignature_def sample_verifier_def sample_bundle_def
        EIP712_SIGNATURE_TYPE_def)
  then have "verify ?V 9 ?b [] = ([], Inr (Invalid Reject (SignerMismatch (bytesToHex (replicate 20 1)) (bytesToHex (replicate 20 2))) None))"
    by (simp add: verify_def)
  from reject_is_shared [OF this, of "sample_verifier [sample_resolver ''zz'']"] show ?thesis
    by (simp add: sample_verifier_def sample_criteria_def leaf_answer_def constant_rule_def constant_evaluate_def gateFailure_def)
qed

text \<open>The publisher's gate check agrees with the verifier. Whatever leaves could not be read, an
  answer \<open>checkGates\<close> gives is the one every full reading of the leaves gives; and when the
  verifier's gate step on the same reads ends, the two agree.\<close>

theorem check_gates_agrees:
  assumes "checkGates V w = Inr gate"
  shows "(\<forall>p. completes (leaf_answer V w) p \<longrightarrow> gr_sat gate = Some (gate_sat p (gate_of V))) \<and>
    (\<forall>r es. evaluateGate (c_gate (vf_criteria V)) (leaf_answer V w) False False = Inr (r, es) \<longrightarrow> gr_sat r = gr_sat gate)"
  using checkGates_sound [OF assms] checkGates_agrees [OF assms] by blast

theorem check_gates_agrees_witness:
  "\<exists>gate. checkGates (sample_verifier []) \<lparr>rw_address = ''x'', rw_sampleBlock = 1\<rparr> = Inr gate \<and> gr_sat gate = Some True"
proof -
  let ?V = "sample_verifier []" and ?w = "\<lparr>rw_address = ''x'', rw_sampleBlock = 1\<rparr>"
  have ev: "leaf_answer ?V ?w 0 = Inr (RSuccess 1)"
    by (simp add: leaf_answer_def sample_verifier_def constant_rule_def constant_evaluate_def)
  then obtain gate where g: "checkGates ?V ?w = Inr gate"
    by (simp add: checkGates_def evaluateGate_def sample_verifier_def sample_criteria_def leaf_result_def gateFailure_def)
  have "gate_sat (answered (leaf_answer ?V ?w)) (gate_of ?V)"
    using ev by (simp add: sample_verifier_def sample_criteria_def answered_def gateFailure_def)
  with check_gates_agrees [OF g] completes_answered [of "leaf_answer ?V ?w"] g show ?thesis by auto
qed

section \<open>Names\<close>

text \<open>A name answer is at most an hour old. From a cache filled by honest resolutions only, a
  resolution either throws what the resolver threw or returns a record the registry held within
  the last hour, keyed to this resolver and provider; and the cache stays that way.\<close>

theorem name_answer_fresh:
  assumes "inj (sha256 L)" "memjson.names_ok n L registry cache s" "resolver_honest registry now r"
    and "resolveNameThroughCache L cache now r name s = (s', Inr (Some publicKey))"
  shows "memjson.names_ok n L registry cache s' \<and>
    (\<exists>t. int now - t \<le> 3600 * 1000 \<and> registry t (nr_key r) (nr_provider r) name = Some publicKey)"
  using memjson.resolve_true [OF assms] by (simp add: recent_record_def)

theorem name_answer_fresh_witness:
  "\<exists>s'. resolveNameThroughCache sample_lib (Some (memjson.ops 5)) 9 (sample_resolver ''ab'') ''a.b'' [] = (s', Inr (Some ''ab'')) \<and>
     memjson.names_ok 5 sample_lib (\<lambda>_ _ _ _. Some ''ab'') (Some (memjson.ops 5)) s'"
proof -
  have ok: "memjson.names_ok 5 sample_lib (\<lambda>_ _ _ _. Some ''ab'') (Some (memjson.ops 5)) []"
    "resolver_honest (\<lambda>_ _ _ _. Some ''ab'') 9 (sample_resolver ''ab'')" "inj (sha256 sample_lib)"
    by (auto simp: memjson.names_ok_def memlru.holds_def resolver_honest_def sample_resolver_def sample_lib_def)
  have "\<exists>s'. resolveNameThroughCache sample_lib (Some (memjson.ops 5)) 9 (sample_resolver ''ab'') ''a.b'' [] = (s', Inr (Some ''ab''))"
    by (simp add: resolveNameThroughCache_def nc_get_def sample_resolver_def mem_getItem_def Let_def)
  with name_answer_fresh [OF ok(3,1,2)] show ?thesis by blast
qed

text \<open>The publisher's name check is truthful: over honest resolvers and a registry stable for the
  hour, it refuses a name only for the fault the registry shows, and when it settles every name, no
  vote's name has a fault.\<close>

theorem name_preflight_truthful:
  assumes "inj (sha256 L)" "memjson.names_ok n L registry cache s" "\<forall>r \<in> set resolvers. resolver_honest registry now r"
    and "\<forall>t. int now - t \<le> 3600 * 1000 \<longrightarrow> registry t = registry (int now)"
    and "preflightCommunityNames L cache now resolvers vs s = (s', out)"
  shows "(out = PreflightOk True \<longrightarrow> (\<forall>v \<in> set vs. name_fault_of (registry (int now)) resolvers v = None)) \<and>
    (\<forall>name key fault. out = PreflightFail name key fault \<longrightarrow>
       (\<exists>v \<in> set vs. carried_name v = Some name \<and> vote_key v = key \<and>
          name_fault_of (registry (int now)) resolvers v = Some fault))"
proof -
  have "\<And>t. int now - t \<le> 3600 * 1000 \<Longrightarrow> registry t = registry (int now)" using assms(4) by blast
  from memjson.preflight_true [OF assms(1) this assms(3,2) assms(5) [unfolded preflightCommunityNames_def]]
  show ?thesis by auto
qed

theorem name_preflight_truthful_witness:
  "snd (preflightCommunityNames sample_lib (Some (memjson.ops 5)) 9 [sample_resolver ''zz''] [sample_vote] []) \<noteq> PreflightOk True"
proof -
  obtain s' out where run: "preflightCommunityNames sample_lib (Some (memjson.ops 5)) 9 [sample_resolver ''zz''] [sample_vote] [] = (s', out)"
    by fastforce
  have ok: "inj (sha256 sample_lib)" "memjson.names_ok 5 sample_lib (\<lambda>_ _ _ _. Some ''zz'') (Some (memjson.ops 5)) []"
    "\<forall>r \<in> set [sample_resolver ''zz'']. resolver_honest (\<lambda>_ _ _ _. Some ''zz'') 9 r"
    "\<forall>t. int 9 - t \<le> 3600 * 1000 \<longrightarrow> (\<lambda>_ _ _ _. Some ''zz'') t = (\<lambda>_ _ _ _. Some ''zz'') (int 9)"
    by (auto simp: memjson.names_ok_def memlru.holds_def resolver_honest_def sample_resolver_def sample_lib_def)
  have "name_fault_of (\<lambda>_ _ _. Some ''zz'') [sample_resolver ''zz''] sample_vote \<noteq> None"
    by (simp add: name_fault_of_def sample_resolver_def sample_vote_def carried_name_def)
  with name_preflight_truthful [OF ok run] show ?thesis unfolding run by auto
qed

section \<open>The verdict cache\<close>

text \<open>The verdict cache changes no verdict. However a run of requests goes, it holds at most its
  bound of verdicts, and each answer is either what the wrapped verifier says at that moment or
  what it said to an earlier request for the same CID, and then a \<open>valid\<close> or a \<open>reject\<close>: an
  \<open>ignore\<close> and a throw are never remembered.\<close>

theorem verdict_cache_transparent:
  assumes "caching_run L n run reqs (fifo_empty, s) = ((c', s'), outs)" "i < length reqs"
  shows "length (f_order c') \<le> n \<and> length outs = length reqs \<and>
    (snd (outs ! i) = snd (run (snd (reqs ! i)) (fst (outs ! i))) \<or>
     (\<exists>j < i. \<exists>v. cid_str L (fst (reqs ! j)) = cid_str L (fst (reqs ! i)) \<and>
        snd (run (snd (reqs ! j)) (fst (outs ! j))) = Inr v \<and> isCacheableVerdict v \<and> snd (outs ! i) = Inr v))"
proof -
  have "verdicts_from L run {} fifo_empty" by (simp add: verdicts_from_def fifo.sound_empty)
  from caching_run_from [OF fifo_wf_empty this assms(1)] assms(2) show ?thesis
    using fifo.used_bound [of n c'] by fastforce
qed

theorem verdict_cache_transparent_witness:
  "length (f_order (fst (fst (caching_run sample_lib 1 (verify (sample_verifier []) 9)
      [([1], sample_bundle 2 7), ([2], sample_bundle 1 7)] (fifo_empty, []))))) \<le> 1"
proof -
  obtain c' s' outs where "caching_run sample_lib 1 (verify (sample_verifier []) 9)
      [([1], sample_bundle 2 7), ([2], sample_bundle 1 7)] (fifo_empty, []) = ((c', s'), outs)" by (metis prod.exhaust)
  with verdict_cache_transparent [OF this, of 0] show ?thesis by simp
qed

end
