(* ===== verification/Background.thy ===== *)
theory Background
  imports Verify
begin

text \<open>
  The background chain verifier (\<open>src/verify/background.ts\<close>, \<open>src/verify/gate-grace.ts\<close>):
  bundles admitted on their offline validity alone wait in a queue; a drain takes the whole queue
  as one round, asks each gate question once for all its wallets, checks names, and settles,
  evicts, re-examines or retries each bundle. A round's environment is a \<open>verifier\<close>, whose leaves
  and resolvers answer as they do during that round; a round is one step from its start to its
  end, and other calls (\<open>enqueue\<close>, \<open>stop\<close>, \<open>resume\<close>) fall between the two. The callbacks the
  host passed are recorded in order as \<open>bg_call\<close>s.
\<close>

section \<open>State\<close>

definition GATE_GRACE_MS :: nat where
  "GATE_GRACE_MS = 120000"

definition GATE_RETRY_MS :: nat where
  "GATE_RETRY_MS = 10000"

definition RETRY_BASE_MS :: nat where
  "RETRY_BASE_MS = 2000"

definition RETRY_CAP_MS :: nat where
  "RETRY_CAP_MS = 60000"

record pending_bundle =
  pb_cid :: cid
  pb_bundle :: votes_bundle

record queue_item = pending_bundle +
  qi_gateDone :: bool
  qi_gateNotified :: bool
  qi_resolvedNames :: "(string, string) jsmap"
  qi_gate :: "gate_result option"
  qi_queuedAt :: nat

datatype bg_call =
    OnGateVerified cid
  | OnNameResolved cid
  | OnEvict cid bundle_verdict
  | OnError js_error

text \<open>\<open>jitter\<close> scales a ceiling by \<open>Math.random()\<close>.\<close>

record bg_config =
  bc_gateGraceMs :: nat
  bc_gateRetryMs :: nat
  bc_retryBaseMs :: nat
  bc_retryCapMs :: nat
  bc_cacheMax :: nat
  bc_jitter :: "nat \<Rightarrow> nat"

text \<open>\<open>bg_round\<close> is the batch of the round in flight; \<open>bg_waiters\<close> counts the \<open>idle()\<close> promises
  that have not resolved, \<open>bg_woken\<close> those that have.\<close>

record 's background =
  bg_queue :: "queue_item list"
  bg_inFlight :: "cid list"
  bg_draining :: bool
  bg_stopped :: bool
  bg_failedRounds :: nat
  bg_retryTimer :: "nat option"
  bg_waiters :: nat
  bg_woken :: nat
  bg_round :: "queue_item list option"
  bg_cache :: verdict_cache
  bg_store :: 's
  bg_calls :: "bg_call list"

definition bg_start :: "verdict_cache \<Rightarrow> 's \<Rightarrow> 's background" where
  "bg_start cache store =
     \<lparr>bg_queue = [], bg_inFlight = [], bg_draining = False, bg_stopped = False, bg_failedRounds = 0,
      bg_retryTimer = None, bg_waiters = 0, bg_woken = 0, bg_round = None, bg_cache = cache,
      bg_store = store, bg_calls = []\<rparr>"

section \<open>The gate stage\<close>

definition sampleBlockFor :: "('x, 's) verifier \<Rightarrow> votes_bundle \<Rightarrow> nat" where
  "sampleBlockFor V b = sampleBlockForBucket (vf_bucketMath V) (bucketForBlock (vf_bucketMath V) (b_blockNumber b))"

text \<open>The key \<open>address:sampleBlock\<close>, as a pair.\<close>

definition wallet_key :: "('x, 's) verifier \<Rightarrow> votes_bundle \<Rightarrow> string \<times> nat" where
  "wallet_key V b = (to_lower (b_address b), sampleBlockFor V b)"

fun collect_wallets ::
  "('x, 's) verifier \<Rightarrow> queue_item list \<Rightarrow> (string \<times> nat, nat) jsmap \<Rightarrow> rule_wallet list \<Rightarrow>
     (string \<times> nat, nat) jsmap \<times> rule_wallet list" where
  "collect_wallets V [] at wallets = (at, wallets)"
| "collect_wallets V (item # items) at wallets =
     (let key = wallet_key V (pb_bundle item) in
      if jhas at key then collect_wallets V items at wallets
      else collect_wallets V items (jset key (length wallets) at)
             (wallets @ [\<lparr>rw_address = b_address (pb_bundle item), rw_sampleBlock = sampleBlockFor V (pb_bundle item)\<rparr>]))"

definition ask_leaf :: "('x, 's) verifier \<Rightarrow> rule_wallet list \<Rightarrow> nat \<Rightarrow> rule_result list res" where
  "ask_leaf V wallets leaf =
     (let l = vf_leaves V ! leaf in
      case ru_evaluateMany (rl_rule l) of
        Some evaluateMany \<Rightarrow> evaluateMany (rl_options l) wallets (rl_ctx l)
      | None \<Rightarrow> traverse (\<lambda>wallet. ru_evaluate (rl_rule l) (rl_options l) wallet (rl_ctx l)) wallets)"

definition bg_representatives :: "('x, 's) verifier \<Rightarrow> nat list" where
  "bg_representatives V = fst (dedupeLeaves (map rl_key (vf_leaves V)))"

text \<open>Reading a batch that is shorter than the wallets it was asked for throws.\<close>

definition batch_answer :: "('x, 's) verifier \<Rightarrow> rule_result list list \<Rightarrow> nat \<Rightarrow> nat \<Rightarrow> rule_result res" where
  "batch_answer V byQuestion wallet leaf =
     (let results = byQuestion ! (vf_ofLeaf V ! leaf) in
      if wallet < length results then Inr (results ! wallet) else Inl (PlainError ''TypeError''))"

fun fold_items ::
  "('x, 's) verifier \<Rightarrow> (string \<times> nat, nat) jsmap \<Rightarrow> rule_result list list \<Rightarrow> queue_item list \<Rightarrow>
     queue_item list \<times> js_error option" where
  "fold_items V at byQuestion [] = ([], None)"
| "fold_items V at byQuestion (item # items) =
     (if qi_gateDone item
      then (case fold_items V at byQuestion items of (is, e) \<Rightarrow> (item # is, e))
      else case evaluateGate (c_gate (vf_criteria V))
                  (batch_answer V byQuestion (the (jget at (wallet_key V (pb_bundle item))))) True False of
        Inl e \<Rightarrow> (item # items, Some e)
      | Inr (gate, _) \<Rightarrow>
          (case fold_items V at byQuestion items of
             (is, e) \<Rightarrow> (item\<lparr>qi_gate := Some gate, qi_gateDone := True\<rparr> # is, e)))"

definition gateStage :: "('x, 's) verifier \<Rightarrow> queue_item list \<Rightarrow> queue_item list \<times> js_error option" where
  "gateStage V items =
     (let pending = filter (\<lambda>item. \<not> qi_gateDone item) items in
      if pending = [] then (items, None)
      else case collect_wallets V pending [] [] of (at, wallets) \<Rightarrow>
        case traverse (ask_leaf V wallets) (bg_representatives V) of
          Inl e \<Rightarrow> (items, Some e)
        | Inr byQuestion \<Rightarrow> fold_items V at byQuestion items)"

section \<open>The name stage\<close>

datatype name_outcome = NVerified | NEvicted bundle_verdict | NThrew js_error

definition truthy_name :: "(string, string) jsmap \<Rightarrow> string \<Rightarrow> bool" where
  "truthy_name names name = (case jget names name of None \<Rightarrow> False | Some pk \<Rightarrow> pk \<noteq> [])"

text \<open>\<open>resolutions\<close> holds each name's promise of this round, kept or rejected.\<close>

fun nameStage ::
  "('x, 's) verifier \<Rightarrow> nat \<Rightarrow> vote list \<Rightarrow> (string, string) jsmap \<Rightarrow> (string, string option res) jsmap \<Rightarrow> 's \<Rightarrow>
     (string, string) jsmap \<times> (string, string option res) jsmap \<times> 's \<times> name_outcome" where
  "nameStage V now [] names resolutions store = (names, resolutions, store, NVerified)"
| "nameStage V now (v # vs) names resolutions store =
     (case carried_name v of
        None \<Rightarrow> nameStage V now vs names resolutions store
      | Some name \<Rightarrow>
          if truthy_name names name then nameStage V now vs names resolutions store
          else (case List.find (\<lambda>r. nr_canResolve r name) (vf_nameResolvers V) of
             None \<Rightarrow> (names, resolutions, store, NEvicted (Invalid Ignore (NameRefused name (vote_key v) NoResolver) None))
           | Some resolver \<Rightarrow>
               (let (store, resolution) = (case jget resolutions name of
                      Some known \<Rightarrow> (store, known)
                    | None \<Rightarrow> resolveNameThroughCache (vf_lib V) (vf_nameCache V) now resolver name store);
                    resolutions = (if jhas resolutions name then resolutions else jset name resolution resolutions)
                in case resolution of
                  Inl e \<Rightarrow> (names, resolutions, store, NThrew e)
                | Inr None \<Rightarrow>
                    (names, resolutions, store, NEvicted (Invalid Ignore (NameRefused name (vote_key v) NoRecord) None))
                | Inr (Some publicKey) \<Rightarrow>
                    if publicKey \<noteq> vote_key v
                    then (names, resolutions, store,
                          NEvicted (Invalid Ignore (NameRefused name (vote_key v) (OtherKey publicKey)) None))
                    else nameStage V now vs (jset name publicKey names) resolutions store)))"

section \<open>One round\<close>

record 's round_state =
  rs_requeue :: "queue_item list"
  rs_notYet :: "queue_item list"
  rs_infraError :: "js_error option"
  rs_resolutions :: "(string, string option res) jsmap"
  rs_inFlight :: "cid list"
  rs_cache :: verdict_cache
  rs_store :: 's
  rs_calls :: "bg_call list"

definition call_host :: "bg_call \<Rightarrow> 's round_state \<Rightarrow> 's round_state" where
  "call_host c r = r\<lparr>rs_calls := rs_calls r @ [c]\<rparr>"

definition bg_settle :: "queue_item \<Rightarrow> 's round_state \<Rightarrow> 's round_state" where
  "bg_settle item r = r\<lparr>rs_inFlight := remove1 (pb_cid item) (rs_inFlight r)\<rparr>"

definition bg_remember :: "lib \<Rightarrow> bg_config \<Rightarrow> queue_item \<Rightarrow> bundle_verdict \<Rightarrow> 's round_state \<Rightarrow> 's round_state" where
  "bg_remember L C item v r = r\<lparr>rs_cache := verdict_set L (bc_cacheMax C) (pb_cid item) v (rs_cache r)\<rparr>"

definition STILL_TRUE :: string where
  "STILL_TRUE = '' (still true after the grace window)''"

text \<open>An item whose gate refused the wallet.\<close>

definition refuse_item :: "('x, 's) verifier \<Rightarrow> bg_config \<Rightarrow> nat \<Rightarrow> queue_item \<Rightarrow> gate_result \<Rightarrow> 's round_state \<Rightarrow> 's round_state" where
  "refuse_item V C now item gate r =
     (let failures = map (leaf_failure V) (gateBlame gate); reason = gateReason gate in
      if gatePenalize gate then
        (let v = Invalid Reject (NotAdmitted reason) (Some failures) in
         bg_settle item (call_host (OnEvict (pb_cid item) v) (bg_remember (vf_lib V) C item v r)))
      else if now < qi_queuedAt item + bc_gateGraceMs C
      then r\<lparr>rs_notYet := rs_notYet r @ [item\<lparr>qi_gateDone := False\<rparr>]\<rparr>
      else bg_settle item
             (call_host (OnEvict (pb_cid item) (Invalid Ignore (NotAdmitted (reason @ STILL_TRUE)) (Some failures))) r))"

text \<open>An item whose gate admitted the wallet: notify once, then its names.\<close>

definition admit_item :: "('x, 's) verifier \<Rightarrow> bg_config \<Rightarrow> nat \<Rightarrow> queue_item \<Rightarrow> 's round_state \<Rightarrow> 's round_state" where
  "admit_item V C now item r =
     (let r = (if qi_gateNotified item then r else call_host (OnGateVerified (pb_cid item)) r);
          item = item\<lparr>qi_gateNotified := True\<rparr>
      in case nameStage V now (b_votes (pb_bundle item)) (qi_resolvedNames item) (rs_resolutions r) (rs_store r) of
        (names, resolutions, store, outcome) \<Rightarrow>
          let item = item\<lparr>qi_resolvedNames := names\<rparr>; r = r\<lparr>rs_resolutions := resolutions, rs_store := store\<rparr> in
          (case outcome of
             NThrew e \<Rightarrow> r\<lparr>rs_infraError := Some e, rs_requeue := rs_requeue r @ [item]\<rparr>
           | NEvicted v \<Rightarrow> bg_settle item (call_host (OnEvict (pb_cid item) v) r)
           | NVerified \<Rightarrow>
               bg_settle item (bg_remember (vf_lib V) C item (Valid names)
                 (if list_ex (\<lambda>v. carried_name v \<noteq> None) (b_votes (pb_bundle item))
                  then call_host (OnNameResolved (pb_cid item)) r else r))))"

definition round_item :: "('x, 's) verifier \<Rightarrow> bg_config \<Rightarrow> nat \<Rightarrow> queue_item \<Rightarrow> 's round_state \<Rightarrow> 's round_state" where
  "round_item V C now item r =
     (if \<not> qi_gateDone item then r\<lparr>rs_requeue := rs_requeue r @ [item]\<rparr>
      else case qi_gate item of
        Some gate \<Rightarrow> if gr_sat gate \<noteq> Some True then refuse_item V C now item gate r else admit_item V C now item r
      | None \<Rightarrow> admit_item V C now item r)"

definition round_items :: "('x, 's) verifier \<Rightarrow> bg_config \<Rightarrow> nat \<Rightarrow> queue_item list \<Rightarrow> 's background \<Rightarrow> 's round_state" where
  "round_items V C now batch s =
     (case gateStage V batch of (items, infraError) \<Rightarrow>
        fold (round_item V C now) items
          \<lparr>rs_requeue = [], rs_notYet = [], rs_infraError = infraError, rs_resolutions = [],
           rs_inFlight = bg_inFlight s, rs_cache = bg_cache s, rs_store = bg_store s, rs_calls = bg_calls s\<rparr>)"

section \<open>The drain\<close>

definition maybeResolveIdle :: "'s background \<Rightarrow> 's background" where
  "maybeResolveIdle s =
     (if bg_queue s = [] \<and> \<not> bg_draining s \<and> bg_retryTimer s = None
      then s\<lparr>bg_woken := bg_woken s + bg_waiters s, bg_waiters := 0\<rparr> else s)"

definition retry_ceiling :: "bg_config \<Rightarrow> nat \<Rightarrow> nat" where
  "retry_ceiling C failedRounds = min (bc_retryCapMs C) (bc_retryBaseMs C * 2 ^ (failedRounds - 1))"

definition armRetry :: "bg_config \<Rightarrow> nat option \<Rightarrow> 's background \<Rightarrow> 's background" where
  "armRetry C fixedDelayMs s =
     (if bg_stopped s \<or> bg_retryTimer s \<noteq> None then s
      else s\<lparr>bg_retryTimer := Some (case fixedDelayMs of Some ms \<Rightarrow> ms
               | None \<Rightarrow> bc_jitter C (retry_ceiling C (bg_failedRounds s)))\<rparr>)"

text \<open>The loop's test and the start of the next round, or the end of the drain.\<close>

definition drain_loop :: "'s background \<Rightarrow> 's background" where
  "drain_loop s =
     (if bg_queue s \<noteq> [] \<and> \<not> bg_stopped s \<and> bg_retryTimer s = None
      then s\<lparr>bg_round := Some (bg_queue s), bg_queue := []\<rparr>
      else maybeResolveIdle (s\<lparr>bg_draining := False\<rparr>))"

definition kickDrain :: "'s background \<Rightarrow> 's background" where
  "kickDrain s =
     (if bg_draining s \<or> bg_stopped s \<or> bg_queue s = [] then maybeResolveIdle s
      else drain_loop (s\<lparr>bg_draining := True\<rparr>))"

definition finish_round :: "bg_config \<Rightarrow> 's round_state \<Rightarrow> 's background \<Rightarrow> 's background" where
  "finish_round C r s =
     (let s = s\<lparr>bg_inFlight := rs_inFlight r, bg_cache := rs_cache r, bg_store := rs_store r, bg_calls := rs_calls r\<rparr> in
      if rs_requeue r \<noteq> [] then
        armRetry C None
          (s\<lparr>bg_queue := bg_queue s @ rs_requeue r @ rs_notYet r, bg_failedRounds := bg_failedRounds s + 1,
             bg_calls := bg_calls s @ [OnError (case rs_infraError r of Some e \<Rightarrow> e | None \<Rightarrow> PlainError ''undefined'')]\<rparr>)
      else if rs_notYet r \<noteq> [] then
        armRetry C (Some (bc_gateRetryMs C)) (s\<lparr>bg_queue := bg_queue s @ rs_notYet r, bg_failedRounds := 0\<rparr>)
      else s\<lparr>bg_failedRounds := 0\<rparr>)"

text \<open>The round in flight ends, and the drain goes on.\<close>

definition bg_round_ends :: "('x, 's) verifier \<Rightarrow> bg_config \<Rightarrow> nat \<Rightarrow> 's background \<Rightarrow> 's background" where
  "bg_round_ends V C now s =
     (case bg_round s of
        None \<Rightarrow> s
      | Some batch \<Rightarrow> drain_loop (finish_round C (round_items V C now batch s) (s\<lparr>bg_round := None\<rparr>)))"

section \<open>The interface\<close>

definition new_item :: "nat \<Rightarrow> pending_bundle \<Rightarrow> queue_item" where
  "new_item now entry =
     \<lparr>pb_cid = pb_cid entry, pb_bundle = pb_bundle entry, qi_gateDone = False, qi_gateNotified = False,
      qi_resolvedNames = [], qi_gate = None, qi_queuedAt = now\<rparr>"

definition enqueue_entry :: "nat \<Rightarrow> pending_bundle \<Rightarrow> 's background \<Rightarrow> 's background" where
  "enqueue_entry now entry s =
     (if pb_cid entry \<in> set (bg_inFlight s) then s
      else s\<lparr>bg_inFlight := bg_inFlight s @ [pb_cid entry], bg_queue := bg_queue s @ [new_item now entry]\<rparr>)"

definition bg_enqueue :: "nat \<Rightarrow> pending_bundle list \<Rightarrow> 's background \<Rightarrow> 's background" where
  "bg_enqueue now es s = kickDrain (fold (enqueue_entry now) es s)"

definition bg_pendingCount :: "'s background \<Rightarrow> nat" where
  "bg_pendingCount s = length (bg_inFlight s)"

definition bg_idle :: "'s background \<Rightarrow> 's background" where
  "bg_idle s =
     (if bg_queue s = [] \<and> \<not> bg_draining s \<and> bg_retryTimer s = None then s\<lparr>bg_woken := bg_woken s + 1\<rparr>
      else s\<lparr>bg_waiters := bg_waiters s + 1\<rparr>)"

definition bg_stop :: "'s background \<Rightarrow> 's background" where
  "bg_stop s = maybeResolveIdle (s\<lparr>bg_stopped := True, bg_retryTimer := None\<rparr>)"

definition bg_resume :: "'s background \<Rightarrow> 's background" where
  "bg_resume s = kickDrain (s\<lparr>bg_stopped := False\<rparr>)"

definition bg_timer_fires :: "'s background \<Rightarrow> 's background" where
  "bg_timer_fires s = (if bg_retryTimer s = None then s else kickDrain (s\<lparr>bg_retryTimer := None\<rparr>))"

text \<open>The steps of the verifier: any call, the timer, or the end of the round in flight, in whatever
  environment (its rules already hold their chain-read context). Other components share the verdict
  cache and the name store, so those may change between the steps.\<close>

inductive bg_step :: "bg_config \<Rightarrow> 's background \<Rightarrow> 's background \<Rightarrow> bool" for C where
  enqueues: "bg_step C s (bg_enqueue now es s)"
| idles: "bg_step C s (bg_idle s)"
| stops: "bg_step C s (bg_stop s)"
| resumes: "bg_step C s (bg_resume s)"
| fires: "bg_step C s (bg_timer_fires s)"
| ends: "bg_step C s (bg_round_ends (V :: (unit, 's) verifier) C now s)"
| shares: "bg_step C s (s\<lparr>bg_cache := cache, bg_store := store\<rparr>)"

section \<open>No bundle is lost or queued twice\<close>

definition bg_batch :: "'s background \<Rightarrow> queue_item list" where
  "bg_batch s = (case bg_round s of None \<Rightarrow> [] | Some items \<Rightarrow> items)"

definition carried :: "'s round_state \<Rightarrow> queue_item list" where
  "carried r = rs_requeue r @ rs_notYet r"

lemma fold_items_same: "fold_items V at by items = (is, e) \<Longrightarrow> map pb_cid is = map pb_cid items"
  by (induction V at "by" items arbitrary: "is" e rule: fold_items.induct)
    (auto split: if_splits prod.splits sum.splits)

lemma gateStage_same: "gateStage V items = (is, e) \<Longrightarrow> map pb_cid is = map pb_cid items"
  by (auto simp: gateStage_def Let_def split: if_splits prod.splits sum.splits dest: fold_items_same)

lemma round_item_carries:
  "(\<exists>item'. pb_cid item' = pb_cid item \<and> mset (carried (round_item V C now item r)) = add_mset item' (mset (carried r)) \<and>
      rs_inFlight (round_item V C now item r) = rs_inFlight r) \<or>
   (carried (round_item V C now item r) = carried r \<and>
      rs_inFlight (round_item V C now item r) = remove1 (pb_cid item) (rs_inFlight r))"
proof -
  have admit: "(\<exists>item'. pb_cid item' = pb_cid item \<and> mset (carried (admit_item V C now item r)) = add_mset item' (mset (carried r)) \<and>
        rs_inFlight (admit_item V C now item r) = rs_inFlight r) \<or>
     (carried (admit_item V C now item r) = carried r \<and>
        rs_inFlight (admit_item V C now item r) = remove1 (pb_cid item) (rs_inFlight r))"
    by (auto simp: admit_item_def carried_def bg_settle_def call_host_def bg_remember_def Let_def
        split: prod.split name_outcome.split)
  have refuse: "(\<exists>item'. pb_cid item' = pb_cid item \<and> mset (carried (refuse_item V C now item g r)) = add_mset item' (mset (carried r)) \<and>
        rs_inFlight (refuse_item V C now item g r) = rs_inFlight r) \<or>
     (carried (refuse_item V C now item g r) = carried r \<and>
        rs_inFlight (refuse_item V C now item g r) = remove1 (pb_cid item) (rs_inFlight r))" for g
    by (auto simp: refuse_item_def carried_def bg_settle_def call_host_def bg_remember_def Let_def)
  show ?thesis
  proof (cases "qi_gateDone item")
    case False
    then show ?thesis by (auto simp: round_item_def carried_def)
  next
    case True
    then show ?thesis using admit refuse by (cases "qi_gate item") (simp_all add: round_item_def)
  qed
qed

lemma round_fold_carries:
  assumes "distinct (rs_inFlight r)"
    and "mset (rs_inFlight r) = mset (map pb_cid (carried r)) + mset (map pb_cid items) + M"
  shows "distinct (rs_inFlight (fold (round_item V C now) items r)) \<and>
    mset (rs_inFlight (fold (round_item V C now) items r)) =
      mset (map pb_cid (carried (fold (round_item V C now) items r))) + M"
  using assms
proof (induction items arbitrary: r)
  case (Cons item items)
  let ?r = "round_item V C now item r"
  have "distinct (rs_inFlight ?r) \<and> mset (rs_inFlight ?r) = mset (map pb_cid (carried ?r)) + mset (map pb_cid items) + M"
    using round_item_carries [of item V C now r] Cons.prems
    by (auto simp: mset_map [symmetric] simp del: mset_map) (simp_all add: mset_map)
  with Cons.IH show ?case by simp
qed simp

lemma round_items_carries:
  assumes "distinct (bg_inFlight s)" "mset (bg_inFlight s) = mset (map pb_cid batch) + M"
  shows "distinct (rs_inFlight (round_items V C now batch s)) \<and>
    mset (rs_inFlight (round_items V C now batch s)) = mset (map pb_cid (carried (round_items V C now batch s))) + M"
proof -
  obtain "is" e where g: "gateStage V batch = (is, e)" by fastforce
  let ?r = "\<lparr>rs_requeue = [], rs_notYet = [], rs_infraError = e, rs_resolutions = [],
     rs_inFlight = bg_inFlight s, rs_cache = bg_cache s, rs_store = bg_store s, rs_calls = bg_calls s\<rparr>"
  have "mset (rs_inFlight ?r) = mset (map pb_cid (carried ?r)) + mset (map pb_cid is) + M"
    using assms(2) unfolding gateStage_same [OF g] by (simp add: carried_def)
  from round_fold_carries [OF _ this] assms(1) g show ?thesis by (simp add: round_items_def)
qed

text \<open>The invariant: what is in flight is exactly what is queued or in the current round, once each;
  a queue that no drain is emptying waits for a timer or for \<open>resume\<close>; and nobody waits for an idle
  verifier.\<close>

definition bg_inv :: "'s background \<Rightarrow> bool" where
  "bg_inv s \<longleftrightarrow> distinct (bg_inFlight s) \<and> mset (bg_inFlight s) = mset (map pb_cid (bg_batch s @ bg_queue s)) \<and>
     (bg_draining s \<longleftrightarrow> bg_round s \<noteq> None) \<and> (bg_draining s \<longrightarrow> bg_retryTimer s = None) \<and>
     (bg_queue s \<noteq> [] \<longrightarrow> bg_stopped s \<or> bg_draining s \<or> bg_retryTimer s \<noteq> None) \<and>
     (bg_stopped s \<longrightarrow> bg_retryTimer s = None) \<and>
     (0 < bg_waiters s \<longrightarrow> bg_queue s \<noteq> [] \<or> bg_draining s \<or> bg_retryTimer s \<noteq> None)"

text \<open>The part of it that the calls on the way keep.\<close>

definition bg_held :: "'s background \<Rightarrow> bool" where
  "bg_held s \<longleftrightarrow> distinct (bg_inFlight s) \<and> mset (bg_inFlight s) = mset (map pb_cid (bg_batch s @ bg_queue s)) \<and>
     (bg_stopped s \<longrightarrow> bg_retryTimer s = None)"

lemma bg_inv_held: "bg_inv s \<Longrightarrow> bg_held s"
  by (simp add: bg_inv_def bg_held_def)

lemma drain_loop_inv: "bg_held s \<Longrightarrow> bg_round s = None \<Longrightarrow> bg_draining s \<Longrightarrow> bg_inv (drain_loop s)"
  by (auto simp: bg_held_def bg_inv_def drain_loop_def maybeResolveIdle_def bg_batch_def)

lemma kickDrain_inv:
  assumes "bg_held s" "bg_draining s \<longleftrightarrow> bg_round s \<noteq> None" "bg_draining s \<longrightarrow> bg_retryTimer s = None"
  shows "bg_inv (kickDrain s)"
proof (cases "bg_draining s \<or> bg_stopped s \<or> bg_queue s = []")
  case True
  with assms show ?thesis
    by (auto simp: kickDrain_def bg_held_def bg_inv_def maybeResolveIdle_def bg_batch_def)
next
  case False
  then have "bg_inv (drain_loop (s\<lparr>bg_draining := True\<rparr>))"
    using assms by (intro drain_loop_inv) (auto simp: bg_held_def bg_batch_def)
  with False show ?thesis by (simp add: kickDrain_def)
qed

lemma enqueue_entry_held:
  "bg_held s \<Longrightarrow> bg_held (enqueue_entry now e s) \<and> bg_round (enqueue_entry now e s) = bg_round s \<and>
     bg_draining (enqueue_entry now e s) = bg_draining s \<and> bg_retryTimer (enqueue_entry now e s) = bg_retryTimer s"
  by (auto simp: bg_held_def enqueue_entry_def bg_batch_def new_item_def)

lemma enqueue_held:
  "bg_held s \<Longrightarrow> bg_held (fold (enqueue_entry now) es s) \<and> bg_round (fold (enqueue_entry now) es s) = bg_round s \<and>
     bg_draining (fold (enqueue_entry now) es s) = bg_draining s \<and>
     bg_retryTimer (fold (enqueue_entry now) es s) = bg_retryTimer s"
  by (induction es arbitrary: s) (simp_all add: enqueue_entry_held)

lemma finish_round_held:
  assumes "bg_inv s" "bg_round s = Some batch"
  shows "bg_held (finish_round C (round_items V C now batch s) (s\<lparr>bg_round := None\<rparr>)) \<and>
    bg_round (finish_round C (round_items V C now batch s) (s\<lparr>bg_round := None\<rparr>)) = None \<and>
    bg_draining (finish_round C (round_items V C now batch s) (s\<lparr>bg_round := None\<rparr>))"
proof -
  let ?r = "round_items V C now batch s"
  from assms have "distinct (bg_inFlight s)" "mset (bg_inFlight s) = mset (map pb_cid batch) + mset (map pb_cid (bg_queue s))"
    by (auto simp: bg_inv_def bg_batch_def)
  from round_items_carries [OF this, of V C now]
  have "distinct (rs_inFlight ?r)" "mset (rs_inFlight ?r) = mset (map pb_cid (carried ?r)) + mset (map pb_cid (bg_queue s))"
    by auto
  with assms show ?thesis
    by (auto simp: finish_round_def armRetry_def bg_held_def bg_inv_def bg_batch_def carried_def Let_def)
qed

lemma bg_step_inv: "bg_step C s s' \<Longrightarrow> bg_inv s \<Longrightarrow> bg_inv s'"
proof (induction rule: bg_step.induct)
  case (enqueues s now es)
  then show ?case using enqueue_held [OF bg_inv_held]
    unfolding bg_enqueue_def by (intro kickDrain_inv) (auto simp: bg_inv_def)
next
  case (ends s V now)
  show ?case
  proof (cases "bg_round s")
    case None
    with ends show ?thesis by (simp add: bg_round_ends_def)
  next
    case (Some batch)
    with finish_round_held [OF ends Some, of C V now] show ?thesis
      by (auto simp: bg_round_ends_def intro: drain_loop_inv)
  qed
next
  case (resumes s)
  then show ?case unfolding bg_resume_def
    by (intro kickDrain_inv) (auto simp: bg_inv_def bg_held_def bg_batch_def)
next
  case (fires s)
  then have "bg_inv (kickDrain (s\<lparr>bg_retryTimer := None\<rparr>))"
    by (intro kickDrain_inv) (auto simp: bg_inv_def bg_held_def bg_batch_def)
  with fires show ?case by (simp add: bg_timer_fires_def)
qed (auto simp: bg_idle_def bg_stop_def maybeResolveIdle_def bg_inv_def bg_batch_def)

lemma bg_reachable_inv: "(bg_step C)\<^sup>*\<^sup>* (bg_start cache store) s \<Longrightarrow> bg_inv s"
proof (induction rule: rtranclp_induct)
  case base
  show ?case by (simp add: bg_inv_def bg_start_def bg_batch_def)
qed (rule bg_step_inv)

section \<open>The gate stage reads the gate\<close>

lemma run_all_eager_on:
  "(\<And>c. c \<in> set cs \<Longrightarrow> run_gate ev True t c = Inr (eager_tree ans c, [])) \<Longrightarrow>
   run_all ev True t cs = Inr (map (eager_tree ans) cs, [])"
  by (induction cs) auto

lemma run_eager_on:
  "(\<And>i. i \<in> set (ix_leaves g) \<Longrightarrow> ev i = Inr (ans i)) \<Longrightarrow> run_gate ev True t g = Inr (eager_tree ans g, [])"
proof (induction g)
  case (IxBranch k cs)
  then have "run_all ev True t cs = Inr (map (eager_tree ans) cs, [])"
    by (intro run_all_eager_on) auto
  then show ?case by (simp add: Let_def)
qed simp

lemma collect_wallets_spec:
  assumes "collect_wallets V items at ws = (at', ws')"
    and "\<And>key i. jget at key = Some i \<Longrightarrow> i < length ws \<and> to_lower (rw_address (ws ! i)) = fst key \<and> rw_sampleBlock (ws ! i) = snd key"
  shows "(\<forall>key i. jget at' key = Some i \<longrightarrow>
      i < length ws' \<and> to_lower (rw_address (ws' ! i)) = fst key \<and> rw_sampleBlock (ws' ! i) = snd key) \<and>
    fst ` set at \<subseteq> fst ` set at' \<and> (\<forall>item \<in> set items. jhas at' (wallet_key V (pb_bundle item)))"
  using assms
proof (induction items arbitrary: at ws)
  case Nil
  then show ?case by auto
next
  case (Cons item items)
  let ?key = "wallet_key V (pb_bundle item)"
  show ?case
  proof (cases "jhas at ?key")
    case True
    with Cons.prems have "collect_wallets V items at ws = (at', ws')" by (simp add: Let_def)
    from Cons.IH [OF this Cons.prems(2)] True show ?thesis unfolding jhas_iff by auto
  next
    case False
    let ?w = "\<lparr>rw_address = b_address (pb_bundle item), rw_sampleBlock = sampleBlockFor V (pb_bundle item)\<rparr>"
    from False Cons.prems have run: "collect_wallets V items (jset ?key (length ws) at) (ws @ [?w]) = (at', ws')"
      by (simp add: Let_def)
    have "i < length (ws @ [?w]) \<and> to_lower (rw_address ((ws @ [?w]) ! i)) = fst key \<and> rw_sampleBlock ((ws @ [?w]) ! i) = snd key"
      if "jget (jset ?key (length ws) at) key = Some i" for key i
    proof (cases "key = ?key")
      case True
      with that have "i = length ws" by (simp add: jget_jset)
      with True show ?thesis by (simp add: wallet_key_def)
    next
      case False
      with that have "jget at key = Some i" by (simp add: jget_jset)
      from Cons.prems(2) [OF this] show ?thesis by (simp add: nth_append)
    qed
    from Cons.IH [OF run this] show ?thesis unfolding jhas_iff by (auto simp: keys_jset)
  qed
qed

text \<open>A verifier as \<open>makeBundleVerifier\<close> builds it, whose leaves answer \<open>ans\<close>: equal questions get
  equal answers, an address is read without case, and a batch is what the single reads say.\<close>

definition leaves_answer :: "('x, 's) verifier \<Rightarrow> (rule_wallet \<Rightarrow> nat \<Rightarrow> rule_result) \<Rightarrow> bool" where
  "leaves_answer V ans \<longleftrightarrow>
     length (vf_leaves V) = length (gateLeaves (c_gate (vf_criteria V))) \<and>
     vf_ofLeaf V = snd (dedupeLeaves (map rl_key (vf_leaves V))) \<and>
     (\<forall>i < length (vf_leaves V). \<forall>j < length (vf_leaves V). \<forall>w.
        rl_key (vf_leaves V ! i) = rl_key (vf_leaves V ! j) \<longrightarrow> ans w i = ans w j) \<and>
     (\<forall>w w' i. to_lower (rw_address w) = to_lower (rw_address w') \<longrightarrow> rw_sampleBlock w = rw_sampleBlock w' \<longrightarrow> ans w i = ans w' i) \<and>
     (\<forall>i < length (vf_leaves V). (\<forall>w. leaf_answer V w i = Inr (ans w i)) \<and>
        (\<forall>ws. ws \<noteq> [] \<longrightarrow> ask_leaf V ws i = Inr (map (\<lambda>w. ans w i) ws)))"

abbreviation item_wallet :: "('x, 's) verifier \<Rightarrow> queue_item \<Rightarrow> rule_wallet" where
  "item_wallet V item \<equiv> wallet_at V (pb_bundle item)"

definition item_gate :: "('x, 's) verifier \<Rightarrow> (rule_wallet \<Rightarrow> nat \<Rightarrow> rule_result) \<Rightarrow> queue_item \<Rightarrow> gate_result" where
  "item_gate V ans item = eager_tree (ans (item_wallet V item)) (gate_of V)"

text \<open>An item as it leaves the gate stage; one that was read in an earlier round keeps what it read.\<close>

definition gated :: "('x, 's) verifier \<Rightarrow> (rule_wallet \<Rightarrow> nat \<Rightarrow> rule_result) \<Rightarrow> queue_item \<Rightarrow> queue_item" where
  "gated V ans item = item\<lparr>qi_gate := Some (item_gate V ans item), qi_gateDone := True\<rparr>"

definition read_before :: "('x, 's) verifier \<Rightarrow> (rule_wallet \<Rightarrow> nat \<Rightarrow> rule_result) \<Rightarrow> queue_item \<Rightarrow> bool" where
  "read_before V ans item \<longleftrightarrow> (qi_gateDone item \<longrightarrow> qi_gate item = Some (item_gate V ans item))"

lemma gated_done: "read_before V ans item \<Longrightarrow> qi_gateDone item \<Longrightarrow> gated V ans item = item"
  by (simp add: read_before_def gated_def)

lemma fold_items_spec:
  assumes "\<And>item. item \<in> set items \<Longrightarrow> read_before V ans item"
    and "\<And>item i. item \<in> set items \<Longrightarrow> \<not> qi_gateDone item \<Longrightarrow> i \<in> set (ix_leaves (gate_of V)) \<Longrightarrow>
      batch_answer V by (the (jget at (wallet_key V (pb_bundle item)))) i = Inr (ans (item_wallet V item) i)"
  shows "fold_items V at by items = (map (gated V ans) items, None)"
  using assms
proof (induction items)
  case (Cons item items)
  have IH: "fold_items V at by items = (map (gated V ans) items, None)" using Cons.IH Cons.prems by simp
  show ?case
  proof (cases "qi_gateDone item")
    case True
    with IH Cons.prems(1) show ?thesis by (simp add: gated_done)
  next
    case False
    have "run_gate (batch_answer V by (the (jget at (wallet_key V (pb_bundle item))))) True False (gate_of V) =
        Inr (item_gate V ans item, [])"
      unfolding item_gate_def by (rule run_eager_on) (rule Cons.prems(2); use False in simp)
    with False IH show ?thesis by (simp add: evaluateGate_def gated_def)
  qed
qed simp

lemma gateStage_spec:
  assumes V: "leaves_answer V ans" and before: "\<And>item. item \<in> set items \<Longrightarrow> read_before V ans item"
  shows "gateStage V items = (map (gated V ans) items, None)"
proof (cases "filter (\<lambda>item. \<not> qi_gateDone item) items = []")
  case True
  then have "map (gated V ans) items = items"
    using before by (intro map_idI) (simp add: filter_empty_conv gated_done)
  with True show ?thesis by (simp add: gateStage_def)
next
  case False
  let ?new = "filter (\<lambda>item. \<not> qi_gateDone item) items"
  let ?keys = "map rl_key (vf_leaves V)"
  obtain reps os where d: "dedupeLeaves ?keys = (reps, os)" by fastforce
  note ok = dedupeLeaves_ok [OF d]
  from V [unfolded leaves_answer_def] have
    len: "length (vf_leaves V) = length (gateLeaves (c_gate (vf_criteria V)))"
    and os0: "vf_ofLeaf V = snd (dedupeLeaves ?keys)"
    and same: "\<And>i j w. i < length (vf_leaves V) \<Longrightarrow> j < length (vf_leaves V) \<Longrightarrow>
      rl_key (vf_leaves V ! i) = rl_key (vf_leaves V ! j) \<Longrightarrow> ans w i = ans w j"
    and nocase: "\<And>w w' i. to_lower (rw_address w) = to_lower (rw_address w') \<Longrightarrow>
      rw_sampleBlock w = rw_sampleBlock w' \<Longrightarrow> ans w i = ans w' i"
    and batched: "\<And>i ws. i < length (vf_leaves V) \<Longrightarrow> ws \<noteq> [] \<Longrightarrow> ask_leaf V ws i = Inr (map (\<lambda>w. ans w i) ws)"
    by blast+
  from os0 d have os: "vf_ofLeaf V = os" by simp
  obtain at ws where c: "collect_wallets V ?new [] [] = (at, ws)" by fastforce
  have "(\<forall>key i. jget at key = Some i \<longrightarrow>
      i < length ws \<and> to_lower (rw_address (ws ! i)) = fst key \<and> rw_sampleBlock (ws ! i) = snd key) \<and>
    (\<forall>item \<in> set ?new. jhas at (wallet_key V (pb_bundle item)))"
    using collect_wallets_spec [OF c] by simp
  then have
    wk: "\<And>key i. jget at key = Some i \<Longrightarrow> i < length ws \<and> to_lower (rw_address (ws ! i)) = fst key \<and> rw_sampleBlock (ws ! i) = snd key"
    and has: "\<And>item. item \<in> set ?new \<Longrightarrow> jhas at (wallet_key V (pb_bundle item))"
    by blast+
  from False obtain item0 where "item0 \<in> set ?new" by (cases ?new) auto
  from has [OF this] obtain k0 where "jget at (wallet_key V (pb_bundle item0)) = Some k0" by (auto simp: jhas_def)
  from wk [OF this] have "ws \<noteq> []" by auto
  define by' where "by' = map (\<lambda>leaf. map (\<lambda>w. ans w leaf) ws) reps"
  have "traverse (ask_leaf V ws) (bg_representatives V) = Inr by'"
    unfolding bg_representatives_def d fst_conv by'_def
    using batched ok(2) \<open>ws \<noteq> []\<close> by (intro traverse_total) simp
  moreover have "batch_answer V by' (the (jget at (wallet_key V (pb_bundle item)))) i = Inr (ans (item_wallet V item) i)"
    if item: "item \<in> set items" "\<not> qi_gateDone item" and i: "i \<in> set (ix_leaves (gate_of V))" for item i
  proof -
    from i have i: "i < length (vf_leaves V)" by (simp add: indexGate_leaves(1) len)
    with ok(4) have oi: "os ! i < length reps" "?keys ! (reps ! (os ! i)) = ?keys ! i" by auto
    then have r: "reps ! (os ! i) < length (vf_leaves V)" using ok(2) by simp
    obtain k where k: "jget at (wallet_key V (pb_bundle item)) = Some k" using has [of item] item by (auto simp: jhas_def)
    from wk [OF k] have w: "k < length ws" "to_lower (rw_address (ws ! k)) = to_lower (rw_address (item_wallet V item))"
      "rw_sampleBlock (ws ! k) = rw_sampleBlock (item_wallet V item)"
      by (auto simp: wallet_key_def wallet_at_def sampleBlockFor_def)
    have "ans (ws ! k) (reps ! (os ! i)) = ans (ws ! k) i"
      using same [OF r i] oi(2) r i by simp
    also have "\<dots> = ans (item_wallet V item) i" using nocase w by blast
    finally show ?thesis using w(1) k oi(1) by (simp add: batch_answer_def by'_def os Let_def)
  qed
  moreover note fold_items_spec [OF before]
  ultimately have "fold_items V at by' items = (map (gated V ans) items, None)" by blast
  with \<open>traverse (ask_leaf V ws) (bg_representatives V) = Inr by'\<close> c False show ?thesis
    by (simp add: gateStage_def Let_def)
qed

section \<open>The name stage reads the registry\<close>

definition names_of :: "vote list \<Rightarrow> string list" where
  "names_of vs = concat (map (\<lambda>v. case carried_name v of None \<Rightarrow> [] | Some n \<Rightarrow> [n]) vs)"

lemma names_of_simps [simp]:
  "names_of [] = []"
  "names_of (v # vs) = (case carried_name v of None \<Rightarrow> [] | Some n \<Rightarrow> [n]) @ names_of vs"
  by (simp_all add: names_of_def)

text \<open>The votes whose name a round compares with their key: those whose name has not been settled yet,
  by an earlier round or by an earlier vote of the bundle.\<close>

fun checked_votes :: "(string \<Rightarrow> bool) \<Rightarrow> vote list \<Rightarrow> vote list" where
  "checked_votes known [] = []"
| "checked_votes known (v # vs) =
     (case carried_name v of
        None \<Rightarrow> checked_votes known vs
      | Some n \<Rightarrow> if known n then checked_votes known vs
                  else v # checked_votes (\<lambda>m. m = n \<and> vote_key v \<noteq> [] \<or> known m) vs)"

lemma truthy_name_jset: "\<not> truthy_name names n \<Longrightarrow> truthy_name (jset n pk names) = (\<lambda>m. m = n \<and> pk \<noteq> [] \<or> truthy_name names m)"
  by (rule ext) (auto simp: truthy_name_def jget_jset)

text \<open>When no name is carried twice, all of them are compared.\<close>

lemma checked_all:
  "distinct (names_of vs) \<Longrightarrow> \<forall>n \<in> set (names_of vs). \<not> known n \<Longrightarrow>
     checked_votes known vs = filter (\<lambda>v. carried_name v \<noteq> None) vs"
proof (induction vs arbitrary: known)
  case (Cons v vs)
  then show ?case by (cases "carried_name v") auto
qed simp

lemma checked_sub: "set (checked_votes known vs) \<subseteq> set vs"
  by (induction known vs rule: checked_votes.induct) (auto split: option.splits if_splits)

text \<open>The first of them that the registry does not bear out, and what is said of it.\<close>

definition refused_vote :: "('x, 's) verifier \<Rightarrow> (string \<Rightarrow> string \<Rightarrow> string \<Rightarrow> string option) \<Rightarrow> (string \<Rightarrow> bool) \<Rightarrow> vote list \<Rightarrow> vote option" where
  "refused_vote V R known vs = find (\<lambda>v. name_fault_of R (vf_nameResolvers V) v \<noteq> None) (checked_votes known vs)"

definition name_refusal :: "('x, 's) verifier \<Rightarrow> (string \<Rightarrow> string \<Rightarrow> string \<Rightarrow> string option) \<Rightarrow> vote \<Rightarrow> bundle_verdict" where
  "name_refusal V R v =
     Invalid Ignore (NameRefused (the (carried_name v)) (vote_key v) (the (name_fault_of R (vf_nameResolvers V) v))) None"

definition resolutions_true ::
  "(string \<Rightarrow> string \<Rightarrow> string \<Rightarrow> string option) \<Rightarrow> name_resolver list \<Rightarrow> (string, string option res) jsmap \<Rightarrow> bool" where
  "resolutions_true R resolvers m \<longleftrightarrow>
     (\<forall>name x. jget m name = Some x \<longrightarrow>
        (\<exists>r. List.find (\<lambda>r. nr_canResolve r name) resolvers = Some r \<and> x = Inr (R (nr_key r) (nr_provider r) name)))"

context json_store
begin

text \<open>The conditions under which a resolution is the registry's record.\<close>

definition names_settled :: "('x, 's) verifier \<Rightarrow> nat \<Rightarrow> registry_history \<Rightarrow> bool" where
  "names_settled V now registry \<longleftrightarrow>
     inj (sha256 (vf_lib V)) \<and> (\<forall>t. int now - t \<le> 3600 * 1000 \<longrightarrow> registry t = registry (int now)) \<and>
     (\<forall>r \<in> set (vf_nameResolvers V). resolver_honest registry now r \<and> (\<forall>name. \<exists>x. nr_resolve r name = Inr x))"

lemma resolve_settled:
  assumes "names_settled V now registry" "names_ok (vf_lib V) registry (vf_nameCache V) s" "r \<in> set (vf_nameResolvers V)"
    and "resolveNameThroughCache (vf_lib V) (vf_nameCache V) now r name s = (s', out)"
  shows "names_ok (vf_lib V) registry (vf_nameCache V) s' \<and> out = Inr (registry (int now) (nr_key r) (nr_provider r) name)"
proof -
  from assms(1) have n: "inj (sha256 (vf_lib V))" "\<And>t. int now - t \<le> 3600 * 1000 \<Longrightarrow> registry t = registry (int now)"
    unfolding names_settled_def by blast+
  from assms(1,3) have h: "resolver_honest registry now r" "\<exists>x. nr_resolve r name = Inr x"
    unfolding names_settled_def by blast+
  from h(2) obtain x where x: "nr_resolve r name = Inr x" ..
  from resolve_stable [OF n(1) assms(2) h(1) n(2) assms(4)]
  have "names_ok (vf_lib V) registry (vf_nameCache V) s'"
    "out = Inr (registry (int now) (nr_key r) (nr_provider r) name) \<or> (\<exists>e. out = Inl e \<and> nr_resolve r name = Inl e)"
    by blast+
  with x show ?thesis by simp
qed

lemma nameStage_spec:
  assumes "names_settled V now registry"
  shows "names_ok (vf_lib V) registry (vf_nameCache V) s \<Longrightarrow>
    resolutions_true (registry (int now)) (vf_nameResolvers V) m \<Longrightarrow>
    nameStage V now vs names m s = (names', m', s', out) \<Longrightarrow>
    names_ok (vf_lib V) registry (vf_nameCache V) s' \<and> resolutions_true (registry (int now)) (vf_nameResolvers V) m' \<and>
    out = (case refused_vote V (registry (int now)) (truthy_name names) vs of
             None \<Rightarrow> NVerified | Some v \<Rightarrow> NEvicted (name_refusal V (registry (int now)) v))"
proof (induction vs arbitrary: names m s)
  case Nil
  then show ?case by (simp add: refused_vote_def)
next
  case (Cons v vs)
  let ?R = "registry (int now)"
  show ?case
  proof (cases "carried_name v")
    case None
    with Cons.IH [OF Cons.prems(1,2), of names] Cons.prems(3) show ?thesis by (simp add: refused_vote_def)
  next
    case name: (Some name)
    show ?thesis
    proof (cases "truthy_name names name")
      case True
      with Cons.IH [OF Cons.prems(1,2), of names] Cons.prems(3) name show ?thesis by (simp add: refused_vote_def)
    next
    case fresh: False
    show ?thesis
    proof (cases "List.find (\<lambda>r. nr_canResolve r name) (vf_nameResolvers V)")
      case None
      then have "name_fault_of ?R (vf_nameResolvers V) v = Some NoResolver" using name by (simp add: name_fault_of_def)
      with None name Cons.prems fresh show ?thesis by (auto simp: refused_vote_def name_refusal_def)
    next
      case r: (Some r)
      then have rs: "r \<in> set (vf_nameResolvers V)" by (auto simp: find_Some_iff)
      obtain s1 x where x: "(case jget m name of Some known \<Rightarrow> (s, known)
          | None \<Rightarrow> resolveNameThroughCache (vf_lib V) (vf_nameCache V) now r name s) = (s1, x)" by fastforce
      have s1: "names_ok (vf_lib V) registry (vf_nameCache V) s1" and xr: "x = Inr (?R (nr_key r) (nr_provider r) name)"
      proof -
        have "names_ok (vf_lib V) registry (vf_nameCache V) s1 \<and> x = Inr (?R (nr_key r) (nr_provider r) name)"
        proof (cases "jget m name")
          case None
          with resolve_settled [OF assms Cons.prems(1) rs, of name s1 x] x show ?thesis by simp
        next
          case (Some y)
          with Cons.prems(1,2) r x show ?thesis by (fastforce simp: resolutions_true_def)
        qed
        then show "names_ok (vf_lib V) registry (vf_nameCache V) s1" "x = Inr (?R (nr_key r) (nr_provider r) name)" by auto
      qed
      let ?m = "if jhas m name then m else jset name x m"
      have m1: "resolutions_true ?R (vf_nameResolvers V) ?m"
        using Cons.prems(2) r xr by (auto simp: resolutions_true_def jget_jset)
      show ?thesis
      proof (cases "?R (nr_key r) (nr_provider r) name")
        case None
        then have "name_fault_of ?R (vf_nameResolvers V) v = Some NoRecord" using name r by (simp add: name_fault_of_def)
        with None Cons.prems(3) name fresh r x xr s1 m1 show ?thesis by (auto simp: refused_vote_def name_refusal_def)
      next
        case (Some pk)
        show ?thesis
        proof (cases "pk = vote_key v")
          case False
          then have "name_fault_of ?R (vf_nameResolvers V) v = Some (OtherKey pk)" using name r Some by (simp add: name_fault_of_def)
          with False Some Cons.prems(3) name fresh r x xr s1 m1 show ?thesis by (auto simp: refused_vote_def name_refusal_def)
        next
          case True
          with Some name r have nf: "name_fault_of ?R (vf_nameResolvers V) v = None" by (simp add: name_fault_of_def)
          have "nameStage V now vs (jset name pk names) ?m s1 = (names', m', s', out)"
            using Cons.prems(3) name fresh r x xr Some True by (cases "jhas m name") simp_all
          from Cons.IH [OF s1 m1 this] nf name fresh True show ?thesis
            by (simp add: refused_vote_def truthy_name_jset [OF fresh])
        qed
      qed
    qed
    qed
  qed
qed

end

section \<open>What a round makes of a bundle\<close>

datatype fate = Confirmed | Rejected | Dropped | Waits

text \<open>The specification: the bundle's fate, from the answers and the registry alone, and exactly what the
  host is told of it. A bundle that carries one name for two keys has its first vote for the name
  compared with the registry and not the second (\<open>checked_votes\<close>), as the code has it.\<close>

abbreviation item_refused :: "('x, 's) verifier \<Rightarrow> (string \<Rightarrow> string \<Rightarrow> string \<Rightarrow> string option) \<Rightarrow> queue_item \<Rightarrow> vote option" where
  "item_refused V R item \<equiv> refused_vote V R (truthy_name (qi_resolvedNames item)) (b_votes (pb_bundle item))"

definition item_fate ::
  "('x, 's) verifier \<Rightarrow> bg_config \<Rightarrow> nat \<Rightarrow> (string \<Rightarrow> string \<Rightarrow> string \<Rightarrow> string option) \<Rightarrow>
     (rule_wallet \<Rightarrow> nat \<Rightarrow> rule_result) \<Rightarrow> queue_item \<Rightarrow> fate" where
  "item_fate V C now R ans item =
     (if gate_sat (admits (ans (item_wallet V item))) (gate_of V)
      then (if item_refused V R item = None then Confirmed else Dropped)
      else if gatePenalize (item_gate V ans item) then Rejected
      else if now < qi_queuedAt item + bc_gateGraceMs C then Waits else Dropped)"

definition fate_calls ::
  "('x, 's) verifier \<Rightarrow> (string \<Rightarrow> string \<Rightarrow> string \<Rightarrow> string option) \<Rightarrow> (rule_wallet \<Rightarrow> nat \<Rightarrow> rule_result) \<Rightarrow>
     queue_item \<Rightarrow> fate \<Rightarrow> bg_call list" where
  "fate_calls V R ans item f =
     (let cid = pb_cid item; gate = item_gate V ans item;
          failures = Some (map (leaf_failure V) (gateBlame gate));
          gateVerified = (if qi_gateNotified item then [] else [OnGateVerified cid]) in
      case f of
        Confirmed \<Rightarrow> gateVerified @
          (if list_ex (\<lambda>v. carried_name v \<noteq> None) (b_votes (pb_bundle item)) then [OnNameResolved cid] else [])
      | Rejected \<Rightarrow> [OnEvict cid (Invalid Reject (NotAdmitted (gateReason gate)) failures)]
      | Dropped \<Rightarrow>
          (if gate_sat (admits (ans (item_wallet V item))) (gate_of V)
           then gateVerified @ [OnEvict cid (name_refusal V R (the (item_refused V R item)))]
           else [OnEvict cid (Invalid Ignore (NotAdmitted (gateReason gate @ STILL_TRUE)) failures)])
      | Waits \<Rightarrow> [])"

lemma refuse_item_fate:
  assumes "\<not> gate_sat (admits (ans (item_wallet V item))) (gate_of V)"
  shows "let r' = refuse_item V C now item (item_gate V ans item) r; f = item_fate V C now R ans item in
     rs_store r' = rs_store r \<and> rs_resolutions r' = rs_resolutions r \<and> rs_requeue r' = rs_requeue r \<and>
     rs_calls r' = rs_calls r @ fate_calls V R ans item f \<and>
     rs_notYet r' = rs_notYet r @ (if f = Waits then [item\<lparr>qi_gateDone := False\<rparr>] else []) \<and>
     rs_inFlight r' = (if f = Waits then rs_inFlight r else remove1 (pb_cid item) (rs_inFlight r))"
  using assms
  by (auto simp: refuse_item_def item_fate_def fate_calls_def bg_settle_def call_host_def bg_remember_def Let_def)

context json_store
begin

definition round_ok :: "('x, 's) verifier \<Rightarrow> nat \<Rightarrow> registry_history \<Rightarrow> 's round_state \<Rightarrow> bool" where
  "round_ok V now registry r \<longleftrightarrow> names_ok (vf_lib V) registry (vf_nameCache V) (rs_store r) \<and>
     resolutions_true (registry (int now)) (vf_nameResolvers V) (rs_resolutions r)"

lemma admit_item_fate:
  assumes "names_settled V now registry" "round_ok V now registry r"
    and "gate_sat (admits (ans (item_wallet V item))) (gate_of V)"
  shows "let r' = admit_item V C now item r; f = item_fate V C now (registry (int now)) ans item in
     round_ok V now registry r' \<and> rs_requeue r' = rs_requeue r \<and>
     rs_calls r' = rs_calls r @ fate_calls V (registry (int now)) ans item f \<and> f \<noteq> Waits \<and>
     rs_notYet r' = rs_notYet r \<and> rs_inFlight r' = remove1 (pb_cid item) (rs_inFlight r)"
proof -
  let ?vs = "b_votes (pb_bundle item)" and ?R = "registry (int now)"
  obtain names m s out where n: "nameStage V now ?vs (qi_resolvedNames item) (rs_resolutions r) (rs_store r) = (names, m, s, out)"
    by (metis prod.exhaust)
  have ok: "names_ok (vf_lib V) registry (vf_nameCache V) (rs_store r)" "resolutions_true ?R (vf_nameResolvers V) (rs_resolutions r)"
    using assms(2) by (auto simp: round_ok_def)
  note spec = nameStage_spec [OF assms(1) ok n]
  have r1: "(if qi_gateNotified item then r else call_host (OnGateVerified (pb_cid item)) r) =
      r\<lparr>rs_calls := rs_calls r @ (if qi_gateNotified item then [] else [OnGateVerified (pb_cid item)])\<rparr>"
    by (simp add: call_host_def)
  show ?thesis
  proof (cases "item_refused V ?R item")
    case None
    with spec have "out = NVerified" by simp
    with None spec n assms(3) show ?thesis
      by (simp add: admit_item_def r1 item_fate_def fate_calls_def round_ok_def bg_settle_def bg_remember_def call_host_def Let_def)
  next
    case (Some v)
    with spec have "out = NEvicted (name_refusal V ?R v)" by simp
    with Some spec n assms(3) show ?thesis
      by (simp add: admit_item_def r1 item_fate_def fate_calls_def round_ok_def bg_settle_def call_host_def Let_def)
  qed
qed

lemma gated_fields [simp]:
  "pb_cid (gated V ans item) = pb_cid item" "pb_bundle (gated V ans item) = pb_bundle item"
  "qi_gateNotified (gated V ans item) = qi_gateNotified item" "qi_resolvedNames (gated V ans item) = qi_resolvedNames item"
  "qi_queuedAt (gated V ans item) = qi_queuedAt item"
  by (simp_all add: gated_def)

lemma gated_simps [simp]:
  "item_gate V ans (gated V ans item) = item_gate V ans item"
  "item_fate V C now R ans (gated V ans item) = item_fate V C now R ans item"
  by (simp_all add: item_gate_def item_fate_def)

lemma gated_calls [simp]: "fate_calls V R ans (gated V ans item) f = fate_calls V R ans item f"
  by (cases f) (simp_all add: item_gate_def fate_calls_def Let_def)

lemma round_item_fate:
  assumes "names_settled V now registry" "round_ok V now registry r"
  shows "let r' = round_item V C now (gated V ans item) r; f = item_fate V C now (registry (int now)) ans item in
     round_ok V now registry r' \<and> rs_requeue r' = rs_requeue r \<and>
     rs_calls r' = rs_calls r @ fate_calls V (registry (int now)) ans item f \<and>
     map pb_cid (rs_notYet r') = map pb_cid (rs_notYet r) @ (if f = Waits then [pb_cid item] else []) \<and>
     rs_inFlight r' = (if f = Waits then rs_inFlight r else remove1 (pb_cid item) (rs_inFlight r))"
proof (cases "gate_sat (admits (ans (item_wallet V item))) (gate_of V)")
  case True
  then have "round_item V C now (gated V ans item) r = admit_item V C now (gated V ans item) r"
    by (simp add: round_item_def gated_def item_gate_def eager_sat)
  with admit_item_fate [OF assms, where item = "gated V ans item" and ans = ans and C = C] True
  show ?thesis by (simp add: Let_def)
next
  case False
  then have "round_item V C now (gated V ans item) r = refuse_item V C now (gated V ans item) (item_gate V ans item) r"
    by (simp add: round_item_def gated_def item_gate_def eager_sat)
  with refuse_item_fate [where item = "gated V ans item" and ans = ans and C = C and r = r and V = V and now = now
      and R = "registry (int now)"] False assms(2)
  show ?thesis by (fastforce simp: Let_def round_ok_def)
qed

lemma round_fold_fate:
  assumes "names_settled V now registry"
  shows "round_ok V now registry r \<Longrightarrow>
    (let r' = fold (round_item V C now) (map (gated V ans) items) r; R = registry (int now);
         fate = item_fate V C now R ans in
     round_ok V now registry r' \<and> rs_requeue r' = rs_requeue r \<and>
     rs_calls r' = rs_calls r @ concat (map (\<lambda>item. fate_calls V R ans item (fate item)) items) \<and>
     map pb_cid (rs_notYet r') = map pb_cid (rs_notYet r) @ map pb_cid (filter (\<lambda>item. fate item = Waits) items) \<and>
     rs_inFlight r' = fold (\<lambda>item fl. if fate item = Waits then fl else remove1 (pb_cid item) fl) items (rs_inFlight r))"
proof (induction items arbitrary: r)
  case (Cons item items)
  let ?r = "round_item V C now (gated V ans item) r"
  note one = round_item_fate [OF assms Cons.prems, of C ans item, unfolded Let_def]
  from Cons.IH [OF conjunct1 [OF one]] one show ?case by (simp add: Let_def)
qed (simp add: Let_def)

end

lemma fold_remove:
  "distinct fl \<Longrightarrow> fold (\<lambda>item fl. if P item then fl else remove1 (pb_cid item) fl) items fl =
     filter (\<lambda>c. \<not> (\<exists>item \<in> set items. \<not> P item \<and> pb_cid item = c)) fl"
  for items :: "queue_item list"
proof (induction items arbitrary: fl)
  case (Cons item items)
  show ?case
  proof (cases "P item")
    case False
    then have "fold (\<lambda>item fl. if P item then fl else remove1 (pb_cid item) fl) (item # items) fl =
        filter (\<lambda>c. \<not> (\<exists>item \<in> set items. \<not> P item \<and> pb_cid item = c)) (filter (\<lambda>c. pb_cid item \<noteq> c) fl)"
      using Cons.IH [OF distinct_remove1 [OF Cons.prems]] Cons.prems by (simp add: distinct_remove1_removeAll removeAll_filter_not_eq)
    then show ?thesis using False by (simp add: filter_filter)
  qed (use Cons in \<open>auto intro!: filter_cong\<close>)
qed simp


text \<open>The round that ends: every bundle of the batch meets its fate.\<close>

lemma round_ends_state:
  assumes "bg_round s = Some batch" "rs_requeue (round_items V C now batch s) = []"
  shows "bg_calls (bg_round_ends V C now s) = rs_calls (round_items V C now batch s) \<and>
    bg_inFlight (bg_round_ends V C now s) = rs_inFlight (round_items V C now batch s) \<and>
    bg_failedRounds (bg_round_ends V C now s) = 0"
  using assms
  by (simp add: bg_round_ends_def finish_round_def drain_loop_def maybeResolveIdle_def armRetry_def Let_def)

context json_store
begin

lemma round_ends_fate:
  assumes "bg_inv s" "bg_round s = Some batch" "leaves_answer V ans" "names_settled V now registry"
    and "names_ok (vf_lib V) registry (vf_nameCache V) (bg_store s)"
    and before: "\<And>item. item \<in> set batch \<Longrightarrow> read_before V ans item"
  shows "bg_calls (bg_round_ends V C now s) = bg_calls s @
        concat (map (\<lambda>item. fate_calls V (registry (int now)) ans item (item_fate V C now (registry (int now)) ans item)) batch) \<and>
      (\<forall>item \<in> set batch. pb_cid item \<in> set (bg_inFlight (bg_round_ends V C now s)) \<longleftrightarrow>
         item_fate V C now (registry (int now)) ans item = Waits) \<and>
      bg_failedRounds (bg_round_ends V C now s) = 0"
proof -
  let ?r0 = "\<lparr>rs_requeue = [], rs_notYet = [], rs_infraError = None, rs_resolutions = [],
     rs_inFlight = bg_inFlight s, rs_cache = bg_cache s, rs_store = bg_store s, rs_calls = bg_calls s\<rparr>"
  let ?waits = "\<lambda>item. item_fate V C now (registry (int now)) ans item = Waits"
  have "gateStage V batch = (map (gated V ans) batch, None)"
    by (rule gateStage_spec [OF assms(3) before])
  then have r: "round_items V C now batch s = fold (round_item V C now) (map (gated V ans) batch) ?r0"
    by (simp add: round_items_def)
  have "round_ok V now registry ?r0" using assms(5) by (simp add: round_ok_def resolutions_true_def)
  from round_fold_fate [OF assms(4) this, where items = batch and ans = ans and C = C]
  have css: "rs_requeue (round_items V C now batch s) = []"
      "rs_calls (round_items V C now batch s) = bg_calls s @
        concat (map (\<lambda>item. fate_calls V (registry (int now)) ans item (item_fate V C now (registry (int now)) ans item)) batch)"
      "rs_inFlight (round_items V C now batch s) =
         fold (\<lambda>item fl. if ?waits item then fl else remove1 (pb_cid item) fl) batch (bg_inFlight s)"
    unfolding r by (simp_all add: Let_def)
  have "distinct (bg_inFlight s)" and mem: "mset (bg_inFlight s) = mset (map pb_cid (batch @ bg_queue s))"
    using assms(1,2) by (auto simp: bg_inv_def bg_batch_def)
  from fold_remove [OF this(1), of ?waits batch] css(3)
  have fl: "set (bg_inFlight (bg_round_ends V C now s)) =
      {c \<in> set (bg_inFlight s). \<not> (\<exists>item \<in> set batch. \<not> ?waits item \<and> pb_cid item = c)}"
    using round_ends_state [OF assms(2) css(1)] by simp
  have "distinct (map pb_cid (batch @ bg_queue s))"
    using \<open>distinct (bg_inFlight s)\<close> mem mset_eq_imp_distinct_iff by metis
  then have inj: "inj_on pb_cid (set batch)" by (simp add: distinct_map)
  have sub: "pb_cid ` set batch \<subseteq> set (bg_inFlight s)" using mset_eq_setD [OF mem] by auto
  have "pb_cid item \<in> set (bg_inFlight (bg_round_ends V C now s)) \<longleftrightarrow> ?waits item" if "item \<in> set batch" for item
    unfolding fl using that sub inj by (auto dest: inj_onD)
  with css round_ends_state [OF assms(2) css(1)] show ?thesis by auto
qed

end

end
