(* ===== verification/Background_Properties.thy ===== *)
theory Background_Properties
  imports Background Rule_Properties
begin

text \<open>
  The properties of the background chain verifier: no bundle is lost or judged twice, a round does
  what its specification says, it agrees with the gate that judges gossip, and an unreachable
  chain costs nothing but time.
\<close>

definition sample_config :: bg_config where
  "sample_config =
     \<lparr>bc_gateGraceMs = GATE_GRACE_MS, bc_gateRetryMs = GATE_RETRY_MS, bc_retryBaseMs = RETRY_BASE_MS,
      bc_retryCapMs = RETRY_CAP_MS, bc_cacheMax = 5, bc_jitter = id\<rparr>"

text \<open>C15: No bundle is lost. In every state the verifier can reach, through any order of calls, timers
  and rounds, whatever the chain, the resolvers and the caches do: the bundles in flight are
  exactly the ones queued or in the current round, each once; a non-empty queue is being drained,
  has a timer armed, or was stopped; and no \<open>idle\<close> promise waits while nothing is pending.\<close>

theorem background_loses_nothing:
  assumes "(bg_step C)\<^sup>*\<^sup>* (bg_start cache store) s"
  shows "bg_pendingCount s = length (bg_batch s) + length (bg_queue s) \<and> distinct (bg_inFlight s) \<and>
    set (bg_inFlight s) = pb_cid ` (set (bg_batch s) \<union> set (bg_queue s)) \<and>
    \<not> (bg_queue s \<noteq> [] \<and> \<not> bg_stopped s \<and> \<not> bg_draining s \<and> bg_retryTimer s = None) \<and>
    \<not> (0 < bg_waiters s \<and> bg_inFlight s = [] \<and> \<not> bg_draining s \<and> bg_retryTimer s = None)"
proof -
  from bg_reachable_inv [OF assms] have inv: "bg_inv s" .
  then have m: "mset (bg_inFlight s) = mset (map pb_cid (bg_batch s @ bg_queue s))" by (simp add: bg_inv_def)
  have "length (bg_inFlight s) = length (bg_batch s @ bg_queue s)"
    using arg_cong [OF m, of size] by (simp del: mset_map)
  moreover have "set (bg_inFlight s) = set (map pb_cid (bg_batch s @ bg_queue s))" by (rule mset_eq_setD [OF m])
  ultimately show ?thesis using inv by (auto simp: bg_inv_def bg_pendingCount_def)
qed

theorem background_loses_nothing_witness:
  "bg_pendingCount (bg_enqueue 3 [\<lparr>pb_cid = [1], pb_bundle = sample_bundle 1 7\<rparr>, \<lparr>pb_cid = [1], pb_bundle = sample_bundle 1 7\<rparr>]
     (bg_start fifo_empty ([] :: ipld mem_lru))) = 1"
proof -
  let ?s = "bg_enqueue 3 [\<lparr>pb_cid = [1], pb_bundle = sample_bundle 1 7\<rparr>, \<lparr>pb_cid = [1], pb_bundle = sample_bundle 1 7\<rparr>]
     (bg_start fifo_empty ([] :: ipld mem_lru))"
  have "(bg_step sample_config)\<^sup>*\<^sup>* (bg_start fifo_empty []) ?s" by (rule r_into_rtranclp) (rule bg_step.enqueues)
  from background_loses_nothing [OF this] show ?thesis
    by (simp add: bg_enqueue_def bg_start_def enqueue_entry_def new_item_def kickDrain_def drain_loop_def bg_batch_def)
qed

text \<open>C16: A round does what the specification says, callback for callback. When the leaves answer and the
  registry is stable, the round that ends calls back, for each bundle of its batch in order, exactly
  what its fate is: confirmed (the gate is reported unless it was before, then the names if any vote
  carries one), rejected or dropped (with the refusal of its gate, after the grace window, or of the
  first name the registry does not bear out), or nothing while it waits; and afterwards the bundles in
  flight from the batch are exactly those whose gate refused them without blame within their grace
  window. Bundles that an earlier round left with a gate result or settled names are included
  (\<open>read_before\<close>: such a gate result is the answers'). As in the code, a name that a bundle carries
  for two keys is compared with the first of them only.\<close>

theorem background_round_is_spec:
  assumes "bg_inv s" "bg_round s = Some batch" "leaves_answer V ans" "memjson.names_settled V now registry"
    and "memjson.names_ok n (vf_lib V) registry (vf_nameCache V) (bg_store s)"
    and "\<And>item. item \<in> set batch \<Longrightarrow> read_before V ans item"
  shows "bg_calls (bg_round_ends V C now s) = bg_calls s @
        concat (map (\<lambda>item. fate_calls V (registry (int now)) ans item (item_fate V C now (registry (int now)) ans item)) batch) \<and>
      (\<forall>item \<in> set batch. pb_cid item \<in> set (bg_inFlight (bg_round_ends V C now s)) \<longleftrightarrow>
         item_fate V C now (registry (int now)) ans item = Waits) \<and>
      (\<forall>item \<in> set batch. item_fate V C now (registry (int now)) ans item = Waits \<longrightarrow>
         now < qi_queuedAt item + bc_gateGraceMs C)"
proof -
  have "now < qi_queuedAt item + bc_gateGraceMs C"
    if "item_fate V C now (registry (int now)) ans item = Waits" for item
    using that by (auto simp: item_fate_def split: if_splits)
  with memjson.round_ends_fate [OF assms, of C] show ?thesis by blast
qed

lemma sample_leaves_answer: "leaves_answer (sample_verifier rs) (\<lambda>_ _. RSuccess 1)"
proof -
  have "traverse (\<lambda>w. Inr (RSuccess 1)) ws = Inr (map (\<lambda>_. RSuccess 1) ws)" for ws :: "rule_wallet list"
    by (rule traverse_total) simp
  then show ?thesis
    by (auto simp: leaves_answer_def sample_verifier_def sample_criteria_def dedupeLeaves_def leaf_answer_def
        ask_leaf_def constant_rule_def constant_evaluate_def)
qed

lemma sample_names:
  "memjson.names_settled (sample_verifier [sample_resolver pk]) now (\<lambda>_ _ _ _. Some pk)"
  "memjson.names_ok 5 sample_lib (\<lambda>_ _ _ _. Some pk) (Some (memjson.ops 5)) []"
proof -
  have "inj (sha256 sample_lib)" by (simp add: sample_lib_def)
  then show "memjson.names_settled (sample_verifier [sample_resolver pk]) now (\<lambda>_ _ _ _. Some pk)"
    by (auto simp: memjson.names_settled_def sample_verifier_def resolver_honest_def sample_resolver_def)
  show "memjson.names_ok 5 sample_lib (\<lambda>_ _ _ _. Some pk) (Some (memjson.ops 5)) []"
    by (simp add: memjson.names_ok_def memlru.holds_def)
qed

definition sample_pending :: pending_bundle where
  "sample_pending = \<lparr>pb_cid = [1], pb_bundle = sample_bundle 1 7\<rparr>"

definition sample_draining :: "ipld mem_lru background" where
  "sample_draining = (bg_start fifo_empty [])\<lparr>bg_inFlight := [[1]], bg_draining := True, bg_round := Some [new_item 3 sample_pending]\<rparr>"

lemma sample_draining_inv: "bg_inv sample_draining" "bg_round sample_draining = Some [new_item 3 sample_pending]"
  by (simp_all add: sample_draining_def bg_start_def bg_inv_def bg_batch_def new_item_def sample_pending_def)

text \<open>The bundle whose name resolves to its key is confirmed, with both callbacks.\<close>

theorem background_round_is_spec_witness:
  "[1] \<notin> set (bg_inFlight (bg_round_ends (sample_verifier [sample_resolver ''ab'']) sample_config 9 sample_draining)) \<and>
   bg_calls (bg_round_ends (sample_verifier [sample_resolver ''ab'']) sample_config 9 sample_draining) =
     [OnGateVerified [1], OnNameResolved [1]]"
proof -
  let ?V = "sample_verifier [sample_resolver ''ab'']" and ?item = "new_item 3 sample_pending"
  have before: "read_before ?V (\<lambda>_ _. RSuccess 1) item" if "item \<in> set [?item]" for item
    using that by (simp add: new_item_def read_before_def)
  have names: "memjson.names_ok 5 (vf_lib ?V) (\<lambda>_ _ _ _. Some ''ab'') (vf_nameCache ?V) (bg_store sample_draining)"
    using sample_names(2) by (simp add: sample_verifier_def sample_draining_def bg_start_def)
  have fate: "item_fate ?V sample_config 9 ((\<lambda>_ _ _ _. Some ''ab'') (int 9)) (\<lambda>_ _. RSuccess 1) ?item = Confirmed"
    by (simp add: item_fate_def refused_vote_def sample_verifier_def sample_criteria_def admits_def gateFailure_def new_item_def
        sample_pending_def sample_bundle_def name_fault_of_def sample_vote_def carried_name_def sample_resolver_def truthy_name_def)
  have calls: "fate_calls ?V R (\<lambda>_ _. RSuccess 1) ?item Confirmed = [OnGateVerified [1], OnNameResolved [1]]" for R
    by (simp add: fate_calls_def new_item_def sample_pending_def sample_bundle_def sample_vote_def carried_name_def Let_def)
  have "bg_calls sample_draining = []" "pb_cid ?item = [1]"
    by (simp_all add: sample_draining_def bg_start_def new_item_def sample_pending_def)
  with background_round_is_spec [OF sample_draining_inv sample_leaves_answer sample_names(1) [where now = 9] names before, of sample_config]
    fate calls show ?thesis by auto
qed


section \<open>The two verifiers\<close>

lemma run_gate_cong:
  "(\<And>i. i \<in> set (ix_leaves g) \<Longrightarrow> ev i = ev' i) \<Longrightarrow> run_gate ev ca t g = run_gate ev' ca t g"
proof (induction g)
  case (IxBranch k cs)
  then have same: "run_gate ev ca t c = run_gate ev' ca t c" if "c \<in> set cs" for c using that by auto
  then have "run_all ev ca t cs = run_all ev' ca t cs" by (induction cs) auto
  moreover from same have "run_lazy ev ca t k cs acc es = run_lazy ev' ca t k cs acc es" for acc es
  proof (induction cs arbitrary: acc es)
    case (Cons c cs)
    have "run_gate ev ca t c = run_gate ev' ca t c" using Cons.prems by simp
    with Cons show ?case by (simp cong: if_cong)
  qed simp
  ultimately show ?case by (cases ca) simp_all
qed simp

lemma leaves_answer_leaf:
  "leaves_answer V ans \<Longrightarrow> i < length (gateLeaves (c_gate (vf_criteria V))) \<Longrightarrow> leaf_answer V w i = Inr (ans w i)"
  unfolding leaves_answer_def by metis

text \<open>The background verifier and the gate that judges gossip agree. For an offline-valid bundle,
  on the same answers and registry, the gate returns a verdict; the background confirms every bundle
  the gate finds valid, and where no name is carried twice no other; what the gate rejects, the background rejects too, so a cached
  verdict never depends on which of the two reached it.\<close>

theorem background_agrees_with_gate:
  assumes "leaves_answer V ans" "memjson.names_settled V now registry"
    and "memjson.names_ok n (vf_lib V) registry (vf_nameCache V) s"
    and "is_valid (verifyOffline V (pb_bundle item))"
  shows "\<exists>s' out. verify V now (pb_bundle item) s = (s', Inr out) \<and>
    (is_valid out \<longrightarrow> item_fate V C now (registry (int now)) ans item = Confirmed) \<and>
    (item_fate V C now (registry (int now)) ans item = Confirmed \<and> distinct (names_of (b_votes (pb_bundle item))) \<and>
       qi_resolvedNames item = [] \<longrightarrow> is_valid out) \<and>
    (\<forall>why fs. out = Invalid Reject why fs \<longrightarrow> item_fate V C now (registry (int now)) ans item = Rejected)"
proof -
  let ?b = "pb_bundle item" and ?w = "item_wallet V item" and ?g = "gate_of V"
  have off: "verifyOffline V ?b = Valid ()" using assms(4) by (cases "verifyOffline V ?b") auto
  have "run_gate (leaf_answer V ?w) False False ?g = run_gate (\<lambda>i. Inr (ans ?w i)) False False ?g"
    by (rule run_gate_cong) (rule leaves_answer_leaf [OF assms(1)], simp add: indexGate_leaves(1))
  with run_gate_lazy [of "ans ?w" False ?g] obtain r where
    r: "run_gate (leaf_answer V ?w) False False ?g = Inr (r, [])" and lz: "lazy_ok (ans ?w) r ?g" by auto
  obtain s' out where cn: "check_names (vf_lib V) (vf_nameCache V) now (vf_nameResolvers V) (b_votes ?b) [] s = (s', out)"
    by fastforce
  from assms(2) have inj: "inj (sha256 (vf_lib V))"
    and stable: "\<And>t. int now - t \<le> 3600 * 1000 \<Longrightarrow> registry t = registry (int now)"
    and h: "\<forall>r \<in> set (vf_nameResolvers V). resolver_honest registry now r"
    and ans: "\<forall>r \<in> set (vf_nameResolvers V). \<forall>name. \<exists>x. nr_resolve r name = Inr x"
    unfolding memjson.names_settled_def by blast+
  note o = conjunct2 [OF memjson.check_names_true [OF inj stable h assms(3) cn]]
  have "out \<noteq> Inl e" for e
  proof
    assume e: "out = Inl e"
    from o obtain r name where "r \<in> set (vf_nameResolvers V)" "nr_resolve r name = Inl e" unfolding e by auto
    with ans show False by (metis sum.distinct(1))
  qed
  then obtain vd where vd: "out = Inr vd" by (cases out) auto
  have nm: "is_valid vd \<longleftrightarrow> (\<forall>v \<in> set (b_votes ?b). name_fault_of (registry (int now)) (vf_nameResolvers V) v = None)"
    using o unfolding vd by (cases vd) auto
  have ign: "vd \<noteq> Invalid Reject why fs" for why fs using o unfolding vd by (cases vd) auto
  have run: "evaluateGate (c_gate (vf_criteria V)) (leaf_answer V (wallet_at V ?b)) False False = Inr (r, [])"
    using r by (simp add: evaluateGate_def)
  show ?thesis
  proof (cases "gate_sat (admits (ans ?w)) ?g")
    case True
    with lz have "gr_sat r = Some True" by (simp add: lazy_ok_def)
    with run off cn vd have "verify V now ?b s = (s', Inr vd)" by (simp add: verify_def)
    moreover have "is_valid vd \<Longrightarrow> item_refused V (registry (int now)) item = None"
      using nm checked_sub [of "truthy_name (qi_resolvedNames item)" "b_votes ?b"] by (auto simp: refused_vote_def find_None_iff)
    moreover have "is_valid vd"
      if "distinct (names_of (b_votes ?b))" "qi_resolvedNames item = []" "item_refused V (registry (int now)) item = None"
    proof -
      have "checked_votes (truthy_name []) (b_votes ?b) = filter (\<lambda>v. carried_name v \<noteq> None) (b_votes ?b)"
        by (rule checked_all [OF that(1)]) (simp add: truthy_name_def)
      with that(2,3) have carried: "name_fault_of (registry (int now)) (vf_nameResolvers V) v = None"
        if "v \<in> set (b_votes ?b)" "carried_name v \<noteq> None" for v
        using that by (auto simp: refused_vote_def find_None_iff)
      have "name_fault_of (registry (int now)) (vf_nameResolvers V) v = None" if "v \<in> set (b_votes ?b)" for v
        using carried [OF that] by (cases "carried_name v") (simp_all add: name_fault_of_def)
      with nm show ?thesis by blast
    qed
    ultimately show ?thesis using True ign by (auto simp: item_fate_def)
  next
    case False
    with lz have sat: "gr_sat r = Some False" and pen: "gatePenalize r \<longrightarrow> gatePenalize (item_gate V ans item)"
      by (auto simp: lazy_ok_def item_gate_def)
    let ?out = "Invalid (if gatePenalize r then Reject else Ignore) (NotAdmitted (gateReason r))
        (Some (map (leaf_failure V) (gateBlame r)))"
    from run off sat have "verify V now ?b s = (s, Inr ?out)" by (simp add: verify_def)
    with False pen show ?thesis by (auto simp: item_fate_def)
  qed
qed

lemma sample_offline: "is_valid (verifyOffline (sample_verifier rs) (sample_bundle 1 7))"
  by (simp add: offline_Valid signature_Valid constraints_Valid sample_verifier_def sample_bundle_def sample_vote_def
      sample_criteria_def EIP712_SIGNATURE_TYPE_def isHex_def bytesToHex_def)

theorem background_agrees_with_gate_witness:
  "\<exists>s' out. verify (sample_verifier [sample_resolver ''ab'']) 9 (pb_bundle (new_item 3 sample_pending)) [] = (s', Inr out) \<and>
    is_valid out"
proof -
  have names: "memjson.names_ok 5 (vf_lib (sample_verifier [sample_resolver ''ab''])) (\<lambda>_ _ _ _. Some ''ab'')
      (vf_nameCache (sample_verifier [sample_resolver ''ab''])) []"
    using sample_names(2) by (simp add: sample_verifier_def)
  have off: "is_valid (verifyOffline (sample_verifier [sample_resolver ''ab'']) (pb_bundle (new_item 3 sample_pending)))"
    using sample_offline by (simp add: new_item_def sample_pending_def)
  have "item_fate (sample_verifier [sample_resolver ''ab'']) sample_config 9 ((\<lambda>_ _ _ _. Some ''ab'') (int 9)) (\<lambda>_ _. RSuccess 1)
      (new_item 3 sample_pending) = Confirmed"
    by (simp add: item_fate_def refused_vote_def truthy_name_def sample_verifier_def sample_criteria_def admits_def gateFailure_def new_item_def
        sample_pending_def sample_bundle_def name_fault_of_def sample_vote_def carried_name_def sample_resolver_def)
  moreover have "distinct (names_of (b_votes (pb_bundle (new_item 3 sample_pending))))" "qi_resolvedNames (new_item 3 sample_pending) = []"
    by (simp_all add: new_item_def sample_pending_def sample_bundle_def split: option.split)
  ultimately show ?thesis
    using background_agrees_with_gate [OF sample_leaves_answer sample_names(1) [where now = 9] names off, of sample_config] by auto
qed

definition two_keys :: "vote list" where
  "two_keys = [\<lparr>v_community = \<lparr>com_name = Some ''a.b'', com_publicKey = ''ab''\<rparr>, v_vote = 1\<rparr>,
               \<lparr>v_community = \<lparr>com_name = Some ''a.b'', com_publicKey = ''cd''\<rparr>, v_vote = 1\<rparr>]"

text \<open>One name, two keys. The background verifier checks a name once per bundle: a second vote
  that carries an already resolved name is not compared with its own key, so a schema-valid bundle
  that gives one name two keys is confirmed there, while the gate refuses it.\<close>

theorem background_name_checked_once:
  "list_all (vote_ok sample_lib) two_keys \<and> distinct (map vote_key two_keys) \<and>
   (\<exists>names m s. nameStage (sample_verifier [sample_resolver ''ab'']) 9 two_keys [] [] [] = (names, m, s, NVerified)) \<and>
   (\<exists>s. check_names sample_lib (Some (memjson.ops 5)) 9 [sample_resolver ''ab''] two_keys [] [] =
      (s, Inr (Invalid Ignore (NameRefused ''a.b'' ''cd'' (OtherKey ''ab'')) None)))"
proof (intro conjI)
  have "isDottedDomain ''a.b''" "isB58IpnsKey sample_lib ''ab''" "isB58IpnsKey sample_lib ''cd''" by code_simp+
  then show "list_all (vote_ok sample_lib) two_keys"
    by (simp add: two_keys_def vote_ok_def community_ok_def name_ok_def max_name_length_def safe_int_def max_safe_integer_def)
  show "distinct (map vote_key two_keys)" by (simp add: two_keys_def)
  have res: "\<exists>s'. resolveNameThroughCache sample_lib (Some (memjson.ops 5)) 9 (sample_resolver ''ab'') ''a.b'' s = (s', Inr (Some ''ab''))"
    if s: "memjson.names_ok 5 sample_lib (\<lambda>_ _ _ _. Some ''ab'') (Some (memjson.ops 5)) s" for s
  proof -
    obtain s' out where o: "resolveNameThroughCache sample_lib (Some (memjson.ops 5)) 9 (sample_resolver ''ab'') ''a.b'' s = (s', out)"
      by fastforce
    from memjson.resolve_settled [OF sample_names(1) [of "''ab''" 9], of 5 s "sample_resolver ''ab''" "''a.b''" s' out] s o
    have "out = Inr (Some ''ab'')" by (simp add: sample_verifier_def)
    with o show ?thesis by blast
  qed
  from res [OF sample_names(2)] obtain s1 where
    s1: "resolveNameThroughCache sample_lib (Some (memjson.ops 5)) 9 (sample_resolver ''ab'') ''a.b'' [] = (s1, Inr (Some ''ab''))" ..
  then show "\<exists>names m s. nameStage (sample_verifier [sample_resolver ''ab'']) 9 two_keys [] [] [] = (names, m, s, NVerified)"
    by (simp add: two_keys_def carried_name_def truthy_name_def sample_verifier_def sample_resolver_def)
  from memjson.resolve_settled [OF sample_names(1) [of "''ab''" 9], of 5 "[]" "sample_resolver ''ab''" "''a.b''" s1] s1 sample_names(2)
  have "memjson.names_ok 5 sample_lib (\<lambda>_ _ _ _. Some ''ab'') (Some (memjson.ops 5)) s1" by (simp add: sample_verifier_def)
  from res [OF this] s1
  show "\<exists>s. check_names sample_lib (Some (memjson.ops 5)) 9 [sample_resolver ''ab''] two_keys [] [] =
      (s, Inr (Invalid Ignore (NameRefused ''a.b'' ''cd'' (OtherKey ''ab'')) None))"
    by (auto simp: two_keys_def carried_name_def sample_resolver_def)
qed

text \<open>An unreachable chain costs only time. When the round's gate reads throw, no bundle is
  judged or dropped, the host is told exactly once, the failure count rises by one, and unless the
  verifier was stopped a retry is armed within the capped exponential backoff.\<close>

theorem background_infra_failure:
  assumes "bg_inv s" "bg_round s = Some batch" "batch \<noteq> []" "\<And>item. item \<in> set batch \<Longrightarrow> \<not> qi_gateDone item"
    and "gateStage V batch = (batch, Some e)" "\<And>ceiling. bc_jitter C ceiling \<le> ceiling"
  shows "let s' = bg_round_ends V C now s in
    bg_queue s' = bg_queue s @ batch \<and> bg_inFlight s' = bg_inFlight s \<and> bg_calls s' = bg_calls s @ [OnError e] \<and>
    bg_cache s' = bg_cache s \<and> bg_failedRounds s' = bg_failedRounds s + 1 \<and>
    (bg_stopped s \<or> (\<exists>ms. bg_retryTimer s' = Some ms \<and> ms \<le> bc_retryCapMs C \<and>
        ms \<le> bc_retryBaseMs C * 2 ^ bg_failedRounds s))"
proof -
  have fold: "fold (round_item V C now) items r = r\<lparr>rs_requeue := rs_requeue r @ items\<rparr>"
    if "\<And>item. item \<in> set items \<Longrightarrow> \<not> qi_gateDone item" for items r
    using that by (induction items arbitrary: r) (simp_all add: round_item_def)
  have r: "round_items V C now batch s = \<lparr>rs_requeue = batch, rs_notYet = [], rs_infraError = Some e, rs_resolutions = [],
     rs_inFlight = bg_inFlight s, rs_cache = bg_cache s, rs_store = bg_store s, rs_calls = bg_calls s\<rparr>"
    using fold [of batch] assms(4,5) by (simp add: round_items_def)
  have "bg_draining s" "bg_retryTimer s = None" using assms(1,2) by (auto simp: bg_inv_def)
  moreover have "bc_jitter C (retry_ceiling C (bg_failedRounds s + 1)) \<le> min (bc_retryCapMs C) (bc_retryBaseMs C * 2 ^ bg_failedRounds s)"
    using assms(6) [of "retry_ceiling C (bg_failedRounds s + 1)"] by (simp add: retry_ceiling_def)
  ultimately show ?thesis
    using assms(2,3)
    by (simp add: bg_round_ends_def r finish_round_def armRetry_def drain_loop_def maybeResolveIdle_def Let_def)
qed

definition down_rule :: "unit rule" where
  "down_rule = constant_rule\<lparr>ru_evaluate := (\<lambda>_ _ _. Inl (Infra ''down''))\<rparr>"

definition down_verifier :: "(unit, ipld mem_lru) verifier" where
  "down_verifier = (sample_verifier [])\<lparr>vf_leaves := [\<lparr>rl_ref = RuleRef ''constant'' [], rl_rule = down_rule,
      rl_options = ConstantOptions 1, rl_ctx = (), rl_key = []\<rparr>]\<rparr>"

theorem background_infra_failure_witness:
  "bg_calls (bg_round_ends down_verifier sample_config 9 sample_draining) = [OnError (Infra ''down'')] \<and>
   (\<exists>ms. bg_retryTimer (bg_round_ends down_verifier sample_config 9 sample_draining) = Some ms \<and> ms \<le> 2000)"
proof -
  have "gateStage down_verifier [new_item 3 sample_pending] = ([new_item 3 sample_pending], Some (Infra ''down''))"
    by (simp add: gateStage_def new_item_def bg_representatives_def down_verifier_def sample_verifier_def dedupeLeaves_def
        ask_leaf_def down_rule_def constant_rule_def Let_def wallet_key_def jhas_def)
  from background_infra_failure [OF sample_draining_inv _ _ this, of sample_config 9] show ?thesis
    by (auto simp: Let_def sample_draining_def bg_start_def sample_config_def RETRY_BASE_MS_def new_item_def)
qed

end
