(* ===== verification/Tally.thy ===== *)
theory Tally
  imports Gate Checkpoint
begin

text \<open>
  The contest tally (\<open>src/tally/tally.ts\<close>, \<open>src/tally/types.ts\<close>): weights summed per community key
  over the current bundles, the rows' check flags, and the order by weight with ties broken by a
  seed from a block hash. The lemmas give each row's weight and flag as a sum and a conjunction
  over the contributions, and show that what is shown does not depend on the order of the bundles.
\<close>

section \<open>Rows\<close>

record bundle_checks =
  bk_chainVerified :: bool
  bk_nameResolved :: "bool option"

record tally_row =
  tr_name :: "string option"
  tr_nameResolved :: "bool option"
  tr_weight :: int
  tr_chainVerified :: bool

record community_tally =
  ct_name :: "string option"
  ct_publicKey :: string
  ct_weight :: int
  ct_chainVerified :: bool
  ct_nameResolved :: "bool option"

record contest_tally =
  tl_contestId :: string
  tl_ranking :: "community_tally list"

record 'x tally =
  ta_criteria :: criteria
  ta_weight :: "'x rule"
  ta_weightOptions :: rule_options
  ta_weightCtx :: 'x
  ta_bucketMath :: bucket_math
  ta_lib :: lib

definition makeTally :: "lib \<Rightarrow> criteria \<Rightarrow> 'x registry \<Rightarrow> 'x \<Rightarrow> bucket_math \<Rightarrow> 'x tally res" where
  "makeTally L c reg ctx bm =
     sbind (require_some (UnknownRuleError SlotWeight (ref_type (c_weight c))) (jget reg (ref_type (c_weight c)))) (\<lambda>weight.
     sbind (require_some (ZodError (ref_type (c_weight c))) (ru_parse weight (c_weight c))) (\<lambda>weightOptions.
     Inr \<lparr>ta_criteria = c, ta_weight = weight, ta_weightOptions = weightOptions, ta_weightCtx = ctx,
          ta_bucketMath = bm, ta_lib = L\<rparr>))"

definition weightFor :: "'x tally \<Rightarrow> string \<Rightarrow> nat \<Rightarrow> int res" where
  "weightFor T wallet blockNumber =
     (let sampleBlock = sampleBlockForBucket (ta_bucketMath T) (bucketForBlock (ta_bucketMath T) blockNumber) in
      sbind (ru_evaluate (ta_weight T) (ta_weightOptions T) \<lparr>rw_address = wallet, rw_sampleBlock = sampleBlock\<rparr> (ta_weightCtx T))
        (\<lambda>r. Inr (scoreOrZero r)))"

definition tieSeed :: "lib \<Rightarrow> bytes \<Rightarrow> string \<Rightarrow> bytes res" where
  "tieSeed L blockHash publicKey =
     sbind (require_some (PlainError ''Non-base58btc character'') (b58decode L (CHR ''z'' # publicKey))) (\<lambda>pkBytes.
     Inr (sha256 L (blockHash @ pkBytes)))"

text \<open>One vote's contribution to its row.\<close>

definition tally_vote :: "bundle_checks \<Rightarrow> int \<Rightarrow> vote \<Rightarrow> (string, tally_row) jsmap \<Rightarrow> (string, tally_row) jsmap" where
  "tally_vote checks w v rows =
     (let pk = vote_key v;
          row = (case jget rows pk of
              Some row \<Rightarrow> row
            | None \<Rightarrow> \<lparr>tr_name = None, tr_nameResolved = None, tr_weight = 0, tr_chainVerified = True\<rparr>);
          row = row\<lparr>tr_weight := tr_weight row + w, tr_chainVerified := tr_chainVerified row \<and> bk_chainVerified checks\<rparr>;
          row = (if carried_name v \<noteq> None \<and> tr_nameResolved row \<noteq> Some True
                 then row\<lparr>tr_name := vote_name v, tr_nameResolved := Some (bk_nameResolved checks = Some True)\<rparr>
                 else row)
      in jset pk row rows)"

fun tally_rows :: "'x tally \<Rightarrow> (votes_bundle \<times> bundle_checks) list \<Rightarrow> (string, tally_row) jsmap \<Rightarrow> (string, tally_row) jsmap res" where
  "tally_rows T [] rows = Inr rows"
| "tally_rows T ((b, checks) # cur) rows =
     (if b_votes b = [] then tally_rows T cur rows
      else sbind (weightFor T (b_address b) (b_blockNumber b)) (\<lambda>w.
        tally_rows T cur (fold (tally_vote checks w) (b_votes b) rows)))"

definition community_row :: "string \<times> tally_row \<Rightarrow> community_tally" where
  "community_row p =
     (case p of (publicKey, row) \<Rightarrow>
        \<lparr>ct_name = tr_name row, ct_publicKey = publicKey, ct_weight = tr_weight row,
         ct_chainVerified = tr_chainVerified row,
         ct_nameResolved = (if tr_name row \<noteq> None then tr_nameResolved row else None)\<rparr>)"

section \<open>The ranking\<close>

definition hasTie :: "community_tally list \<Rightarrow> bool" where
  "hasTie rows \<longleftrightarrow> card (set (map ct_weight rows)) \<noteq> length rows"

definition heavier_le :: "community_tally \<Rightarrow> community_tally \<Rightarrow> bool" where
  "heavier_le a b \<longleftrightarrow> ct_weight b \<le> ct_weight a"

definition seeded_le :: "(string, bytes) jsmap \<Rightarrow> community_tally \<Rightarrow> community_tally \<Rightarrow> bool" where
  "seeded_le seeds a b \<longleftrightarrow>
     (if ct_weight a \<noteq> ct_weight b then ct_weight b < ct_weight a
      else byte_compare (the (jget seeds (ct_publicKey a))) (the (jget seeds (ct_publicKey b))) \<le> 0)"

definition tally_compute ::
  "'x tally \<Rightarrow> (votes_bundle \<times> bundle_checks) list \<Rightarrow> bytes res \<Rightarrow> contest_tally res" where
  "tally_compute T cur bucketBlockHash =
     sbind (tally_rows T cur []) (\<lambda>rows.
       let rows = map community_row rows; contestId = c_contestId (ta_criteria T) in
       if \<not> hasTie rows then Inr \<lparr>tl_contestId = contestId, tl_ranking = sort_by heavier_le rows\<rparr>
       else sbind bucketBlockHash (\<lambda>blockHash.
         sbind (traverse (\<lambda>r. sbind (tieSeed (ta_lib T) blockHash (ct_publicKey r)) (\<lambda>seed. Inr (ct_publicKey r, seed))) rows) (\<lambda>seeds.
         Inr \<lparr>tl_contestId = contestId, tl_ranking = sort_by (seeded_le seeds) rows\<rparr>)))"

section \<open>Contributions\<close>

text \<open>What a row shows of the vote: its weight, and whether every contribution was read on chain.\<close>

definition row_view :: "(string, tally_row) jsmap \<Rightarrow> string \<Rightarrow> (int \<times> bool) option" where
  "row_view rows k = map_option (\<lambda>r. (tr_weight r, tr_chainVerified r)) (jget rows k)"

type_synonym contribution = "string \<times> int \<times> bool"

definition add_contribution :: "contribution \<Rightarrow> (string \<Rightarrow> (int \<times> bool) option) \<Rightarrow> string \<Rightarrow> (int \<times> bool) option" where
  "add_contribution c f k =
     (if k = fst c then Some (case f k of None \<Rightarrow> snd c | Some (x, b) \<Rightarrow> (x + fst (snd c), b \<and> snd (snd c))) else f k)"

definition sum_contributions :: "contribution list \<Rightarrow> string \<Rightarrow> (int \<times> bool) option" where
  "sum_contributions cs k =
     (let mine = filter (\<lambda>c. fst c = k) cs in
      if mine = [] then None else Some (sum_list (map (fst \<circ> snd) mine), list_all (snd \<circ> snd) mine))"

lemma row_view_vote:
  "row_view (tally_vote checks w v rows) = add_contribution (vote_key v, w, bk_chainVerified checks) (row_view rows)"
  by (rule ext) (auto simp: row_view_def tally_vote_def add_contribution_def Let_def jget_jset split: option.splits)

lemma jwf_vote: "jwf rows \<Longrightarrow> jwf (tally_vote checks w v rows)"
  by (auto simp: tally_vote_def Let_def)

lemma fold_contributions: "fold add_contribution cs (sum_contributions pre) = sum_contributions (pre @ cs)"
proof (induction cs arbitrary: pre)
  case (Cons c cs)
  have "add_contribution c (sum_contributions pre) = sum_contributions (pre @ [c])"
    by (rule ext) (auto simp: add_contribution_def sum_contributions_def Let_def filter_empty_conv split: option.splits)
  with Cons [of "pre @ [c]"] show ?case by simp
qed simp

definition votes_contributions :: "bundle_checks \<Rightarrow> int \<Rightarrow> vote list \<Rightarrow> contribution list" where
  "votes_contributions checks w vs = map (\<lambda>v. (vote_key v, w, bk_chainVerified checks)) vs"

lemma row_view_votes:
  "row_view (fold (tally_vote checks w) vs rows) = fold add_contribution (votes_contributions checks w vs) (row_view rows)"
  by (induction vs arbitrary: rows) (simp_all add: row_view_vote votes_contributions_def)

lemma jwf_votes: "jwf rows \<Longrightarrow> jwf (fold (tally_vote checks w) vs rows)"
  by (induction vs arbitrary: rows) (simp_all add: jwf_vote)

text \<open>The weight a bundle adds, when its weight rule answers.\<close>

definition bundle_weight :: "'x tally \<Rightarrow> votes_bundle \<Rightarrow> int" where
  "bundle_weight T b = (case weightFor T (b_address b) (b_blockNumber b) of Inr w \<Rightarrow> w | Inl _ \<Rightarrow> 0)"

definition contributions :: "'x tally \<Rightarrow> (votes_bundle \<times> bundle_checks) list \<Rightarrow> contribution list" where
  "contributions T cur = concat (map (\<lambda>(b, checks). votes_contributions checks (bundle_weight T b) (b_votes b)) cur)"

lemma tally_rows_view:
  "tally_rows T cur rows = Inr rows' \<Longrightarrow> jwf rows \<Longrightarrow>
   jwf rows' \<and> row_view rows' = fold add_contribution (contributions T cur) (row_view rows)"
proof (induction T cur rows rule: tally_rows.induct)
  case (1 T rows)
  then show ?case by (simp add: contributions_def)
next
  case (2 T b checks cur rows)
  show ?case
  proof (cases "b_votes b = []")
    case True
    with 2 show ?thesis by (simp add: contributions_def votes_contributions_def)
  next
    case False
    with "2.prems"(1) obtain w where w: "weightFor T (b_address b) (b_blockNumber b) = Inr w"
      "tally_rows T cur (fold (tally_vote checks w) (b_votes b) rows) = Inr rows'" by (auto simp: sbind_Inr_iff)
    from "2.IH"(2) [OF False w(2) jwf_votes [OF "2.prems"(2)]] w(1) show ?thesis
      by (simp add: contributions_def bundle_weight_def row_view_votes)
  qed
qed

lemma row_view_empty: "row_view [] = sum_contributions []"
  by (rule ext) (simp add: row_view_def sum_contributions_def)

lemma tally_rows_spec:
  assumes "tally_rows T cur [] = Inr rows"
  shows "jwf rows \<and> row_view rows = sum_contributions (contributions T cur)"
  using tally_rows_view [OF assms] fold_contributions [of _ "[]"] by (simp add: row_view_empty)

section \<open>What is shown\<close>

text \<open>What decides a row's place, and the sum of it: its key, its weight and its check flag.\<close>

definition weighed :: "community_tally \<Rightarrow> string \<times> int \<times> bool" where
  "weighed r = (ct_publicKey r, ct_weight r, ct_chainVerified r)"

lemma shown_rows:
  assumes "jwf rows" "row_view rows = sum_contributions cs"
  shows "distinct (map weighed (map community_row rows)) \<and> distinct (map ct_publicKey (map community_row rows)) \<and>
    (\<forall>k x b. (k, x, b) \<in> set (map weighed (map community_row rows)) \<longleftrightarrow> sum_contributions cs k = Some (x, b))"
proof -
  have keys: "map ct_publicKey (map community_row rows) = jkeys rows"
    by (simp add: community_row_def split_beta comp_def)
  have d: "distinct (map ct_publicKey (map community_row rows))"
    using assms(1) unfolding keys jwf_def .
  have "map fst (map weighed (map community_row rows)) = map ct_publicKey (map community_row rows)"
    by (simp add: weighed_def comp_def)
  with d have "distinct (map weighed (map community_row rows))" by (metis distinct_map)
  moreover have "(k, x, b) \<in> set (map weighed (map community_row rows)) \<longleftrightarrow> sum_contributions cs k = Some (x, b)" for k x b
  proof -
    have "(k, x, b) \<in> set (map weighed (map community_row rows)) \<longleftrightarrow>
        (\<exists>r. (k, r) \<in> set rows \<and> tr_weight r = x \<and> tr_chainVerified r = b)"
      by (force simp: weighed_def community_row_def)
    also have "\<dots> \<longleftrightarrow> row_view rows k = Some (x, b)"
      by (auto simp: row_view_def jget_mem [OF assms(1)])
    finally show ?thesis by (simp add: assms(2))
  qed
  ultimately show ?thesis using d by blast
qed

lemma sum_contributions_cong: "mset cs = mset ds \<Longrightarrow> sum_contributions cs = sum_contributions ds"
proof (rule ext)
  fix k assume m: "mset cs = mset ds"
  then have f: "mset (filter (\<lambda>c. fst c = k) cs) = mset (filter (\<lambda>c. fst c = k) ds)" by simp
  have "sum_list (map (fst \<circ> snd) xs) = sum_mset (image_mset (fst \<circ> snd) (mset xs))" for xs :: "contribution list"
    by (induction xs) auto
  with f have "sum_list (map (fst \<circ> snd) (filter (\<lambda>c. fst c = k) cs)) = sum_list (map (fst \<circ> snd) (filter (\<lambda>c. fst c = k) ds))"
    by metis
  moreover have "set (filter (\<lambda>c. fst c = k) cs) = set (filter (\<lambda>c. fst c = k) ds)" using f by (rule mset_eq_setD)
  ultimately show "sum_contributions cs k = sum_contributions ds k"
    unfolding sum_contributions_def Let_def list_all_iff by (metis set_empty)
qed

lemma contributions_cong:
  assumes "mset cur = mset cur'"
  shows "mset (contributions T cur) = mset (contributions T cur')"
proof -
  have "mset (contributions T xs) =
      sum_mset (image_mset (\<lambda>(b, checks). mset (votes_contributions checks (bundle_weight T b) (b_votes b))) (mset xs))" for xs
    by (induction xs) (auto simp: contributions_def)
  with assms show ?thesis by simp
qed

section \<open>The order\<close>

text \<open>Both comparators look only at what is weighed.\<close>

lemma map_insort_by: "map f (insort_by (\<lambda>x y. le (f x) (f y)) x xs) = insort_by le (f x) (map f xs)"
  by (induction xs) auto

lemma map_sort_by: "map f (sort_by (\<lambda>x y. le (f x) (f y)) xs) = sort_by le (map f xs)"
  by (induction xs) (simp_all add: map_insort_by)

definition heavier_shown :: "string \<times> int \<times> bool \<Rightarrow> string \<times> int \<times> bool \<Rightarrow> bool" where
  "heavier_shown a b \<longleftrightarrow> fst (snd b) \<le> fst (snd a)"

definition seeded_shown :: "(string \<Rightarrow> bytes) \<Rightarrow> string \<times> int \<times> bool \<Rightarrow> string \<times> int \<times> bool \<Rightarrow> bool" where
  "seeded_shown seed a b \<longleftrightarrow>
     (if fst (snd a) \<noteq> fst (snd b) then fst (snd b) < fst (snd a) else byte_compare (seed (fst a)) (seed (fst b)) \<le> 0)"

lemma shown_heavier: "map weighed (sort_by heavier_le rows) = sort_by heavier_shown (map weighed rows)"
proof -
  have "heavier_le = (\<lambda>x y. heavier_shown (weighed x) (weighed y))"
    by (intro ext) (simp add: heavier_le_def heavier_shown_def weighed_def)
  then show ?thesis using map_sort_by [of weighed heavier_shown rows] by simp
qed

lemma shown_seeded: "map weighed (sort_by (seeded_le seeds) rows) = sort_by (seeded_shown (\<lambda>k. the (jget seeds k))) (map weighed rows)"
proof -
  have "seeded_le seeds = (\<lambda>x y. seeded_shown (\<lambda>k. the (jget seeds k)) (weighed x) (weighed y))"
    by (intro ext) (simp add: seeded_le_def seeded_shown_def weighed_def)
  then show ?thesis using map_sort_by [of weighed "seeded_shown (\<lambda>k. the (jget seeds k))" rows] by simp
qed

lemma total_heavier: "total_preorder_on A heavier_shown"
  by (auto simp: total_preorder_on_def heavier_shown_def)

lemma total_seeded: "total_preorder_on A (seeded_shown seed)"
proof -
  have tot: "byte_compare a b \<le> 0 \<or> byte_compare b a \<le> 0" for a b
    using byte_compare_antisym [of a b] by linarith
  show ?thesis
    unfolding total_preorder_on_def seeded_shown_def
    using tot by (auto split: if_splits intro: byte_compare_trans)
qed

lemma insort_by_cong:
  "(\<And>a b. a \<in> insert x (set xs) \<Longrightarrow> b \<in> insert x (set xs) \<Longrightarrow> le a b = le' a b) \<Longrightarrow> insort_by le x xs = insort_by le' x xs"
  by (induction xs) auto

lemma sort_by_cong: "(\<And>a b. a \<in> set xs \<Longrightarrow> b \<in> set xs \<Longrightarrow> le a b = le' a b) \<Longrightarrow> sort_by le xs = sort_by le' xs"
  by (induction xs) (auto intro: insort_by_cong)

text \<open>The ranking, as a function of what is weighed.\<close>

definition seed_of :: "lib \<Rightarrow> bytes \<Rightarrow> string \<Rightarrow> bytes" where
  "seed_of L blockHash k = (case tieSeed L blockHash k of Inr s \<Rightarrow> s | Inl _ \<Rightarrow> [])"

definition tied :: "(string \<times> int \<times> bool) list \<Rightarrow> bool" where
  "tied vs \<longleftrightarrow> card (set (map (fst \<circ> snd) vs)) \<noteq> length vs"

lemma map_of_keyed: "r \<in> set xs \<Longrightarrow> map_of (map (\<lambda>r. (g r, f (g r))) xs) (g r) = Some (f (g r))"
  by (induction xs) auto

lemma tally_compute_shown:
  assumes "tally_compute T cur (Inr blockHash) = Inr t"
  obtains rows where "tally_rows T cur [] = Inr rows"
    "map weighed (tl_ranking t) =
      (let vs = map weighed (map community_row rows) in
       if tied vs then sort_by (seeded_shown (seed_of (ta_lib T) blockHash)) vs else sort_by heavier_shown vs)"
    "tied (map weighed (map community_row rows)) \<Longrightarrow> \<forall>v \<in> set (map weighed (map community_row rows)). \<exists>s. tieSeed (ta_lib T) blockHash (fst v) = Inr s"
proof -
  from assms obtain rows where rows: "tally_rows T cur [] = Inr rows" by (auto simp: tally_compute_def sbind_Inr_iff)
  let ?cs = "map community_row rows"
  have tie: "hasTie ?cs = tied (map weighed ?cs)" by (simp add: hasTie_def tied_def weighed_def comp_def)
  show thesis
  proof (cases "hasTie ?cs")
    case False
    with assms rows have "t = \<lparr>tl_contestId = c_contestId (ta_criteria T), tl_ranking = sort_by heavier_le ?cs\<rparr>"
      by (simp add: tally_compute_def Let_def)
    then have "map weighed (tl_ranking t) = sort_by heavier_shown (map weighed ?cs)" by (simp add: shown_heavier del: map_map)
    moreover have nt: "\<not> tied (map weighed ?cs)" using False tie by blast
    ultimately show thesis by (intro that [OF rows]) (simp_all only: Let_def if_False not_True_eq_False)
  next
    case True
    with assms rows obtain seeds where
      seeds: "traverse (\<lambda>r. sbind (tieSeed (ta_lib T) blockHash (ct_publicKey r)) (\<lambda>seed. Inr (ct_publicKey r, seed))) ?cs = Inr seeds"
      and t: "tl_ranking t = sort_by (seeded_le seeds) ?cs"
      by (auto simp: tally_compute_def Let_def sbind_Inr_iff)
    have each: "\<exists>s. tieSeed (ta_lib T) blockHash (ct_publicKey r) = Inr s" if "r \<in> set ?cs" for r
      using list_all2_memD1 [OF seeds [unfolded traverse_Inr_iff] that] by (auto simp: sbind_Inr_iff)
    have "seeds = map (\<lambda>r. (ct_publicKey r, seed_of (ta_lib T) blockHash (ct_publicKey r))) ?cs"
      using seeds unfolding traverse_Inr_iff
      by (auto simp: sbind_Inr_iff seed_of_def list_all2_conv_all_nth intro!: nth_equalityI)
    then have "jget seeds (ct_publicKey r) = Some (seed_of (ta_lib T) blockHash (ct_publicKey r))" if "r \<in> set ?cs" for r
      using that map_of_keyed [of r ?cs ct_publicKey "seed_of (ta_lib T) blockHash"] by simp
    then have look: "the (jget seeds (fst v)) = seed_of (ta_lib T) blockHash (fst v)" if "v \<in> set (map weighed ?cs)" for v
      using that by (auto simp: weighed_def)
    have "map weighed (tl_ranking t) = sort_by (seeded_shown (seed_of (ta_lib T) blockHash)) (map weighed ?cs)"
      unfolding t shown_seeded using look by (intro sort_by_cong) (simp add: seeded_shown_def)
    with rows True tie each show thesis by (intro that) (auto simp: Let_def weighed_def)
  qed
qed


text \<open>The same bundles with the same checks, in any order, show the same rows in the same order.\<close>

lemma tieSeed_inj:
  assumes "b58_laws L" "inj (sha256 L)" "tieSeed L h k = Inr s" "tieSeed L h k' = Inr s"
  shows "k = k'"
proof -
  from assms(3,4) obtain x y where "b58decode L (CHR ''z'' # k) = Some x" "b58decode L (CHR ''z'' # k') = Some y"
    "sha256 L (h @ x) = sha256 L (h @ y)" by (auto simp: tieSeed_def res_simps)
  moreover from this(3) have "x = y" using injD [OF assms(2)] by blast
  ultimately show ?thesis using assms(1) unfolding b58_laws_def by (metis list.inject)
qed

lemma tally_deterministic:
  assumes L: "b58_laws (ta_lib T)" "inj (sha256 (ta_lib T))" and m: "mset cur = mset cur'"
    and t: "tally_compute T cur (Inr h) = Inr t" "tally_compute T cur' (Inr h) = Inr t'"
  shows "map weighed (tl_ranking t) = map weighed (tl_ranking t')"
proof -
  obtain rows where rows: "tally_rows T cur [] = Inr rows"
    "map weighed (tl_ranking t) =
      (let vs = map weighed (map community_row rows) in
       if tied vs then sort_by (seeded_shown (seed_of (ta_lib T) h)) vs else sort_by heavier_shown vs)"
    "tied (map weighed (map community_row rows)) \<Longrightarrow>
      \<forall>v \<in> set (map weighed (map community_row rows)). \<exists>s. tieSeed (ta_lib T) h (fst v) = Inr s"
    using tally_compute_shown [OF t(1)] by metis
  obtain rows' where rows': "tally_rows T cur' [] = Inr rows'"
    "map weighed (tl_ranking t') =
      (let vs = map weighed (map community_row rows') in
       if tied vs then sort_by (seeded_shown (seed_of (ta_lib T) h)) vs else sort_by heavier_shown vs)"
    using tally_compute_shown [OF t(2)] by metis
  let ?vs = "map weighed (map community_row rows)" and ?ws = "map weighed (map community_row rows')"
  note spec = tally_rows_spec [OF rows(1)] tally_rows_spec [OF rows'(1)]
  have same: "sum_contributions (contributions T cur) = sum_contributions (contributions T cur')"
    by (rule sum_contributions_cong [OF contributions_cong [OF m]])
  note vs = shown_rows [OF conjunct1 [OF spec(1)] conjunct2 [OF spec(1)]]
  note ws = shown_rows [OF conjunct1 [OF spec(2)] conjunct2 [OF spec(2)]]
  have "v \<in> set ?vs \<longleftrightarrow> v \<in> set ?ws" for v
    using conjunct2 [OF conjunct2 [OF vs]] conjunct2 [OF conjunct2 [OF ws]] same by (cases v) (simp only:)
  then have "set ?vs = set ?ws" by (rule set_eqI)
  then have mv: "mset ?vs = mset ?ws"
    using set_eq_iff_mset_eq_distinct [OF conjunct1 [OF vs] conjunct1 [OF ws]] by (rule iffD1 [rotated])
  have val: "sum_contributions (contributions T cur) (fst v) = Some (snd v)" if "v \<in> set ?vs" for v
    using that conjunct2 [OF conjunct2 [OF vs], rule_format, of "fst v" "fst (snd v)" "snd (snd v)"] by (simp del: map_map set_map)
  have key: "v = w" if "v \<in> set ?vs" "w \<in> set ?vs" "fst v = fst w" for v w
  proof -
    from val [OF that(1)] val [OF that(2)] that(3) have "snd v = snd w" by simp
    with that(3) show ?thesis by (rule prod_eqI)
  qed
  have tie: "tied ?vs = tied ?ws"
    unfolding tied_def using mset_eq_length [OF mv] mset_eq_setD [OF mv] by (simp only: set_map)
  show ?thesis
  proof (cases "tied ?vs")
    case False
    have "sort_by heavier_shown ?vs = sort_by heavier_shown ?ws"
    proof (rule sort_by_mset_cong [OF mv total_heavier])
      fix x y assume xy: "x \<in> set ?vs" "y \<in> set ?vs" "heavier_shown x y" "heavier_shown y x"
      then have "(fst \<circ> snd) x = (fst \<circ> snd) y" by (simp add: heavier_shown_def)
      moreover have "inj_on (fst \<circ> snd) (set ?vs)"
        using False unfolding tied_def by (metis card_distinct distinct_map length_map)
      ultimately show "x = y" using xy(1,2) by (metis inj_onD)
    qed
    with False tie show ?thesis unfolding rows(2) rows'(2) Let_def by (simp del: map_map)
  next
    case True
    let ?seed = "seed_of (ta_lib T) h"
    have "sort_by (seeded_shown ?seed) ?vs = sort_by (seeded_shown ?seed) ?ws"
    proof (rule sort_by_mset_cong [OF mv total_seeded])
      fix x y assume xy: "x \<in> set ?vs" "y \<in> set ?vs" "seeded_shown ?seed x y" "seeded_shown ?seed y x"
      then have "byte_compare (?seed (fst x)) (?seed (fst y)) = 0"
        using byte_compare_antisym [of "?seed (fst x)" "?seed (fst y)"] by (auto simp: seeded_shown_def split: if_splits)
      moreover obtain s s' where "tieSeed (ta_lib T) h (fst x) = Inr s" "tieSeed (ta_lib T) h (fst y) = Inr s'"
        using rows(3) [OF True] xy(1,2) by meson
      ultimately have "fst x = fst y" using tieSeed_inj [OF L, of h "fst x" s "fst y"] by (simp add: seed_of_def)
      with key xy(1,2) show "x = y" by blast
    qed
    with True tie show ?thesis unfolding rows(2) rows'(2) Let_def by (simp del: map_map)
  qed
qed

text \<open>Each row is the sum over the votes for its key, and the rows stand in order of weight.\<close>

lemma tally_compute_rows:
  assumes "tally_compute T cur (Inr h) = Inr t"
  shows "distinct (map ct_publicKey (tl_ranking t)) \<and>
    (\<forall>k x b. (k, x, b) \<in> set (map weighed (tl_ranking t)) \<longleftrightarrow> sum_contributions (contributions T cur) k = Some (x, b)) \<and>
    sorted_wrt (\<lambda>r s. ct_weight s \<le> ct_weight r) (tl_ranking t)"
proof -
  obtain rows where rows: "tally_rows T cur [] = Inr rows"
    "map weighed (tl_ranking t) =
      (let vs = map weighed (map community_row rows) in
       if tied vs then sort_by (seeded_shown (seed_of (ta_lib T) h)) vs else sort_by heavier_shown vs)"
    using tally_compute_shown [OF assms] by metis
  let ?vs = "map weighed (map community_row rows)"
  from tally_rows_spec [OF rows(1)] shown_rows [of rows]
  have vs: "distinct (map ct_publicKey (map community_row rows))"
    "\<forall>k x b. (k, x, b) \<in> set ?vs \<longleftrightarrow> sum_contributions (contributions T cur) k = Some (x, b)" by auto
  have m: "mset (map weighed (tl_ranking t)) = mset ?vs" unfolding rows(2) Let_def by simp
  have keys: "map ct_publicKey xs = map fst (map weighed xs)" for xs by (simp add: weighed_def)
  have "mset (map fst (map weighed (tl_ranking t))) = mset (map fst ?vs)" using m by (metis mset_map)
  then have "distinct (map ct_publicKey (tl_ranking t))"
    using vs(1) unfolding keys using mset_eq_imp_distinct_iff by blast
  moreover have "set (map weighed (tl_ranking t)) = set ?vs" by (rule mset_eq_setD [OF m])
  moreover have "sorted_wrt heavier_shown (map weighed (tl_ranking t))"
  proof (cases "tied ?vs")
    case False
    then show ?thesis unfolding rows(2) Let_def using sorted_sort_by [OF total_heavier] by (simp del: map_map)
  next
    case True
    have "sorted_wrt heavier_shown (sort_by (seeded_shown s) xs)" for s xs
      by (rule sorted_wrt_mono_rel [OF _ sorted_sort_by [OF total_seeded]]) (auto simp: heavier_shown_def seeded_shown_def split: if_splits)
    with True show ?thesis unfolding rows(2) Let_def by (simp del: map_map)
  qed
  then have "sorted_wrt (\<lambda>r s. ct_weight s \<le> ct_weight r) (tl_ranking t)"
    unfolding sorted_wrt_map by (simp add: heavier_shown_def weighed_def)
  ultimately show ?thesis using vs(2) by simp
qed

section \<open>The name of a row\<close>

text \<open>The names the votes for a key carry, in the order of the bundles, each with whether its bundle's
  names were resolved.\<close>

type_synonym claim = "string \<times> bool"

definition vote_claims :: "bundle_checks \<Rightarrow> string \<Rightarrow> vote \<Rightarrow> claim list" where
  "vote_claims checks k v =
     (if vote_key v = k then (case carried_name v of None \<Rightarrow> [] | Some n \<Rightarrow> [(n, bk_nameResolved checks = Some True)]) else [])"

definition name_claims :: "(votes_bundle \<times> bundle_checks) list \<Rightarrow> string \<Rightarrow> claim list" where
  "name_claims cur k = concat (map (\<lambda>(b, checks). concat (map (vote_claims checks k) (b_votes b))) cur)"

text \<open>The name shown is the first resolved one or, when none is resolved, the last; the flag says whether
  it is a resolved one, and is absent without a name.\<close>

definition shown_name :: "claim list \<Rightarrow> string option" where
  "shown_name cs = (case find snd cs of Some c \<Rightarrow> Some (fst c) | None \<Rightarrow> if cs = [] then None else Some (fst (last cs)))"

definition shown_flag :: "claim list \<Rightarrow> bool option" where
  "shown_flag cs = (if cs = [] then None else Some (list_ex snd cs))"

definition take_claim :: "claim \<Rightarrow> string option \<times> bool option \<Rightarrow> string option \<times> bool option" where
  "take_claim c st = (if snd st = Some True then st else (Some (fst c), Some (snd c)))"

lemma find_claim: "find snd cs = None \<longleftrightarrow> \<not> list_ex snd cs"
  by (induction cs) auto

lemma fold_claims: "fold take_claim cs (None, None) = (shown_name cs, shown_flag cs)"
proof (induction cs rule: rev_induct)
  case (snoc c cs)
  have none: "find snd cs = None" if "\<not> list_ex snd cs" using that by (simp add: find_claim)
  have some: "\<exists>d. find snd cs = Some d" if "list_ex snd cs" using that find_claim [of cs] by auto
  have app: "find snd (cs @ [c]) = (case find snd cs of Some d \<Rightarrow> Some d | None \<Rightarrow> if snd c then Some c else None)"
    by (induction cs) auto
  show ?case
  proof (cases "list_ex snd cs")
    case True
    then obtain d where "find snd cs = Some d" using some by blast
    with True snoc app show ?thesis by (auto simp: take_claim_def shown_name_def shown_flag_def)
  next
    case False
    with snoc app none show ?thesis by (auto simp: take_claim_def shown_name_def shown_flag_def)
  qed
qed (simp add: shown_name_def shown_flag_def)

definition row_name :: "(string, tally_row) jsmap \<Rightarrow> string \<Rightarrow> string option \<times> bool option" where
  "row_name rows k = (case jget rows k of None \<Rightarrow> (None, None) | Some row \<Rightarrow> (tr_name row, tr_nameResolved row))"

lemma row_name_vote: "row_name (tally_vote checks w v rows) k = fold take_claim (vote_claims checks k v) (row_name rows k)"
  by (cases "carried_name v"; cases "jget rows (vote_key v)")
    (auto simp: row_name_def tally_vote_def vote_claims_def take_claim_def Let_def jget_jset carried_name_def split: option.splits if_splits)

lemma row_name_votes:
  "row_name (fold (tally_vote checks w) vs rows) k = fold take_claim (concat (map (vote_claims checks k) vs)) (row_name rows k)"
  by (induction vs arbitrary: rows) (simp_all add: row_name_vote)

lemma tally_rows_name:
  "tally_rows T cur rows = Inr rows' \<Longrightarrow> row_name rows' k = fold take_claim (name_claims cur k) (row_name rows k)"
proof (induction T cur rows rule: tally_rows.induct)
  case (1 T rows)
  then show ?case by (simp add: name_claims_def)
next
  case (2 T b checks cur rows)
  show ?case
  proof (cases "b_votes b = []")
    case True
    with 2 show ?thesis by (simp add: name_claims_def)
  next
    case False
    with "2.prems"(1) obtain w where w: "weightFor T (b_address b) (b_blockNumber b) = Inr w"
      "tally_rows T cur (fold (tally_vote checks w) (b_votes b) rows) = Inr rows'" by (auto simp: sbind_Inr_iff)
    from "2.IH"(2) [OF False w(2)] show ?thesis by (simp add: name_claims_def row_name_votes)
  qed
qed

lemma tally_compute_names:
  assumes "tally_compute T cur (Inr h) = Inr t" "r \<in> set (tl_ranking t)"
  shows "ct_name r = shown_name (name_claims cur (ct_publicKey r)) \<and> ct_nameResolved r = shown_flag (name_claims cur (ct_publicKey r))"
proof -
  from assms(1) obtain rows where rows: "tally_rows T cur [] = Inr rows" by (auto simp: tally_compute_def sbind_Inr_iff)
  have "\<exists>le. tl_ranking t = sort_by le (map community_row rows)"
  proof (cases "hasTie (map community_row rows)")
    case False
    with assms(1) rows have "tl_ranking t = sort_by heavier_le (map community_row rows)" by (auto simp: tally_compute_def Let_def)
    then show ?thesis by (intro exI [of _ heavier_le])
  next
    case True
    with assms(1) rows obtain seeds where "tl_ranking t = sort_by (seeded_le seeds) (map community_row rows)"
      by (auto simp: tally_compute_def Let_def sbind_Inr_iff simp del: list.map)
    then show ?thesis by (intro exI [of _ "seeded_le seeds"])
  qed
  then obtain le where "tl_ranking t = sort_by le (map community_row rows)" ..
  with assms(2) have "r \<in> set (map community_row rows)" by (simp only: set_sort_by)
  then obtain row where row: "(ct_publicKey r, row) \<in> set rows" "r = community_row (ct_publicKey r, row)"
    by (auto simp: community_row_def)
  from tally_rows_spec [OF rows] row(1) have "jget rows (ct_publicKey r) = Some row" using jget_mem by metis
  with tally_rows_name [OF rows, of "ct_publicKey r"]
  have n: "tr_name row = shown_name (name_claims cur (ct_publicKey r))" "tr_nameResolved row = shown_flag (name_claims cur (ct_publicKey r))"
    by (simp_all add: row_name_def fold_claims)
  have empty: "shown_name cs = None \<longleftrightarrow> cs = []" for cs by (auto simp: shown_name_def split: option.splits)
  have name: "ct_name r = tr_name row" "ct_nameResolved r = (if tr_name row \<noteq> None then tr_nameResolved row else None)"
    by (subst row(2), simp add: community_row_def)+
  show ?thesis unfolding name n using empty [of "name_claims cur (ct_publicKey r)"] by (simp add: shown_flag_def)
qed

text \<open>The order of the bundles decides at most between different names for one key.\<close>

lemma name_claims_cong: "mset cur = mset cur' \<Longrightarrow> mset (name_claims cur k) = mset (name_claims cur' k)"
proof -
  have "mset (name_claims xs k) = sum_mset (image_mset (\<lambda>(b, checks). mset (concat (map (vote_claims checks k) (b_votes b)))) (mset xs))" for xs
    by (induction xs) (auto simp: name_claims_def)
  then show "mset cur = mset cur' \<Longrightarrow> mset (name_claims cur k) = mset (name_claims cur' k)" by simp
qed

lemma shown_flag_cong: "mset cs = mset ds \<Longrightarrow> shown_flag cs = shown_flag ds"
proof -
  assume m: "mset cs = mset ds"
  then have "set cs = set ds" by (rule mset_eq_setD)
  moreover from m have "cs = [] \<longleftrightarrow> ds = []" by (metis mset_zero_iff)
  ultimately show ?thesis by (simp add: shown_flag_def list_ex_iff)
qed

lemma shown_name_carried: "shown_name cs = Some n \<Longrightarrow> (n, list_ex snd cs) \<in> set cs"
proof (cases "find snd cs")
  case None
  then have none: "\<not> list_ex snd cs" by (simp add: find_claim)
  assume "shown_name cs = Some n"
  with None have "cs \<noteq> []" "n = fst (last cs)" by (auto simp: shown_name_def split: if_splits)
  then have "last cs \<in> set cs" "fst (last cs) = n" by simp_all
  moreover from this(1) none have "\<not> snd (last cs)" unfolding list_ex_iff by blast
  moreover have "last cs = (fst (last cs), snd (last cs))" by simp
  ultimately show ?thesis using none by simp
next
  case (Some c)
  then have c: "c \<in> set cs" "snd c" by (auto simp: find_Some_iff)
  then have "list_ex snd cs" unfolding list_ex_iff by blast
  moreover assume "shown_name cs = Some n"
  with Some have "n = fst c" by (simp add: shown_name_def)
  moreover have "c = (fst c, snd c)" by simp
  ultimately show ?thesis using c by simp
qed

lemma shown_name_agree:
  assumes "mset cs = mset ds" "fst ` set cs \<subseteq> {n}"
  shows "shown_name cs = shown_name ds"
proof (cases cs)
  case Nil
  with assms(1) show ?thesis by simp
next
  case (Cons c cs')
  then have "shown_name cs \<noteq> None" by (auto simp: shown_name_def split: option.splits)
  moreover from Cons assms(1) have "ds \<noteq> []" by auto
  then have "shown_name ds \<noteq> None" by (auto simp: shown_name_def split: option.splits)
  ultimately obtain m m' where m: "shown_name cs = Some m" "shown_name ds = Some m'" by blast
  have "set ds = set cs" using assms(1) by (metis mset_eq_setD)
  then have "m \<in> fst ` set cs" "m' \<in> fst ` set cs"
    using imageI [OF shown_name_carried [OF m(1)], of fst] imageI [OF shown_name_carried [OF m(2)], of fst] by simp_all
  with assms(2) have "m = n" "m' = n" by auto
  with m show ?thesis by simp
qed

text \<open>What a row shows whatever the order of the bundles: all but the choice among its names.\<close>

definition shown :: "community_tally \<Rightarrow> string \<times> int \<times> bool \<times> bool option" where
  "shown r = (ct_publicKey r, ct_weight r, ct_chainVerified r, ct_nameResolved r)"

lemma tally_shows:
  assumes "tally_compute T cur (Inr h) = Inr t"
  shows "map shown (tl_ranking t) = map (\<lambda>(k, x, b). (k, x, b, shown_flag (name_claims cur k))) (map weighed (tl_ranking t))"
  using tally_compute_names [OF assms] by (auto simp: shown_def weighed_def)

lemma tally_same_shown:
  assumes "b58_laws (ta_lib T)" "inj (sha256 (ta_lib T))" "mset cur = mset cur'"
    and "tally_compute T cur (Inr h) = Inr t" "tally_compute T cur' (Inr h) = Inr t'"
  shows "map shown (tl_ranking t) = map shown (tl_ranking t')"
  unfolding tally_shows [OF assms(4)] tally_shows [OF assms(5)] tally_deterministic [OF assms]
  using shown_flag_cong [OF name_claims_cong [OF assms(3)]] by simp

text \<open>Where the votes for a key carry one name at most, whole rankings agree.\<close>

definition names_agree :: "(votes_bundle \<times> bundle_checks) list \<Rightarrow> bool" where
  "names_agree cur \<longleftrightarrow>
     list_all (\<lambda>v. list_all (\<lambda>v'. vote_key v = vote_key v' \<and> carried_name v \<noteq> None \<and> carried_name v' \<noteq> None \<longrightarrow>
         carried_name v = carried_name v') (concat (map (b_votes \<circ> fst) cur))) (concat (map (b_votes \<circ> fst) cur))"

lemma claim_carried: "c \<in> set (name_claims cur k) \<Longrightarrow>
    \<exists>v \<in> set (concat (map (b_votes \<circ> fst) cur)). vote_key v = k \<and> carried_name v = Some (fst c)"
  by (force simp: name_claims_def vote_claims_def split: if_splits option.splits)

lemma names_agree_claims: "names_agree cur \<Longrightarrow> \<exists>n. fst ` set (name_claims cur k) \<subseteq> {n}"
proof -
  assume a: "names_agree cur"
  have "fst c = fst d" if "c \<in> set (name_claims cur k)" "d \<in> set (name_claims cur k)" for c d
    using claim_carried [OF that(1)] claim_carried [OF that(2)] a unfolding names_agree_def list_all_iff by (metis option.distinct(1) option.inject)
  then show ?thesis by (metis image_subsetI insertCI insertI1)
qed

lemma tally_same:
  assumes "b58_laws (ta_lib T)" "inj (sha256 (ta_lib T))" "mset cur = mset cur'" "names_agree cur"
    and "tally_compute T cur (Inr h) = Inr t" "tally_compute T cur' (Inr h) = Inr t'"
  shows "tl_ranking t = tl_ranking t'"
proof -
  have s: "map shown (tl_ranking t) = map shown (tl_ranking t')" by (rule tally_same_shown [OF assms(1-3,5,6)])
  then have len: "length (tl_ranking t) = length (tl_ranking t')" by (metis length_map)
  have "tl_ranking t ! i = tl_ranking t' ! i" if i: "i < length (tl_ranking t)" for i
  proof -
    from s i len have "shown (tl_ranking t ! i) = shown (tl_ranking t' ! i)" by (metis nth_map)
    moreover from names_agree_claims [OF assms(4)] have "shown_name (name_claims cur k) = shown_name (name_claims cur' k)" for k
      using shown_name_agree [OF name_claims_cong [OF assms(3)]] by metis
    moreover have "tl_ranking t ! i \<in> set (tl_ranking t)" "tl_ranking t' ! i \<in> set (tl_ranking t')" using i len by simp_all
    ultimately show ?thesis using tally_compute_names [OF assms(5)] tally_compute_names [OF assms(6)]
      by (intro community_tally.equality) (auto simp: shown_def)
  qed
  with len show ?thesis by (rule nth_equalityI)
qed

lemma tally_names_carried:
  assumes "tally_compute T cur' (Inr h) = Inr t" "mset cur = mset cur'" "r \<in> set (tl_ranking t)" "ct_name r = Some n"
  shows "(n, ct_nameResolved r = Some True) \<in> set (name_claims cur (ct_publicKey r))"
proof -
  let ?cs = "name_claims cur' (ct_publicKey r)"
  from tally_compute_names [OF assms(1,3)] assms(4) have n: "shown_name ?cs = Some n" "ct_nameResolved r = shown_flag ?cs" by simp_all
  from shown_name_carried [OF n(1)] have c: "(n, list_ex snd ?cs) \<in> set ?cs" .
  then have "(ct_nameResolved r = Some True) = list_ex snd ?cs" unfolding n(2) by (auto simp: shown_flag_def)
  with c mset_eq_setD [OF name_claims_cong [OF assms(2)]] show ?thesis by simp
qed

lemma tally_rows_shown:
  assumes "tally_compute T cur (Inr h) = Inr t"
  shows "(k, x, b, f) \<in> set (map shown (tl_ranking t)) \<longleftrightarrow>
    sum_contributions (contributions T cur) k = Some (x, b) \<and> f = shown_flag (name_claims cur k)"
proof -
  have "(k, x, b, f) \<in> set (map shown (tl_ranking t)) \<longleftrightarrow>
      (k, x, b) \<in> set (map weighed (tl_ranking t)) \<and> f = shown_flag (name_claims cur k)"
    unfolding tally_shows [OF assms] by (force simp del: map_map)
  then show ?thesis using tally_compute_rows [OF assms] by simp
qed

end
