(* ===== verification/Tally_Properties.thy ===== *)
theory Tally_Properties
  imports Tally Rule_Properties
begin

text \<open>
  What the tally shows: its rows are sums over the current bundles, in order of weight; under the
  \<open>constant\<close> weight they count votes; and replicas that hold the same bundles show the same ranking.
\<close>

text \<open>C14: A ranking is the sum of its votes. Each key has one row; a key's row carries the sum of the
  weights of the current votes for it and is marked chain-verified exactly when every one of those
  bundles is; keys nobody votes for have no row; a row shows the first resolved name its votes carry or,
  when none is resolved, the last, and says which; and the rows stand in descending order of weight.\<close>

theorem ranking_is_sum:
  assumes "tally_compute T cur (Inr h) = Inr t"
  shows "distinct (map ct_publicKey (tl_ranking t)) \<and>
    (\<forall>k x b f. (k, x, b, f) \<in> set (map shown (tl_ranking t)) \<longleftrightarrow>
       sum_contributions (contributions T cur) k = Some (x, b) \<and> f = shown_flag (name_claims cur k)) \<and>
    (\<forall>r \<in> set (tl_ranking t). ct_name r = shown_name (name_claims cur (ct_publicKey r))) \<and>
    sorted_wrt (\<lambda>r s. ct_weight s \<le> ct_weight r) (tl_ranking t)"
  using tally_compute_rows [OF assms] tally_rows_shown [OF assms] tally_compute_names [OF assms] by blast

definition sample_tally :: "unit tally" where
  "sample_tally = \<lparr>ta_criteria = sample_criteria, ta_weight = constant_rule, ta_weightOptions = ConstantOptions 1,
     ta_weightCtx = (), ta_bucketMath = \<lparr>bucketForBlock = bucket_of 10, sampleBlockForBucket = sample_of 10\<rparr>,
     ta_lib = sample_lib\<rparr>"

theorem ranking_is_sum_witness:
  "\<exists>t. tally_compute sample_tally [(sample_bundle 1 7, \<lparr>bk_chainVerified = False, bk_nameResolved = None\<rparr>)] (Inr [1]) = Inr t \<and>
     distinct (map ct_publicKey (tl_ranking t))"
proof -
  have "\<exists>t. tally_compute sample_tally [(sample_bundle 1 7, \<lparr>bk_chainVerified = False, bk_nameResolved = None\<rparr>)] (Inr [1]) = Inr t"
    by (cases "b_votes (sample_bundle 1 7)")
      (auto simp: tally_compute_def sample_tally_def sample_bundle_def weightFor_def constant_rule_def constant_evaluate_def
        hasTie_def tally_vote_def Let_def)
  then obtain t where t: "tally_compute sample_tally [(sample_bundle 1 7, \<lparr>bk_chainVerified = False, bk_nameResolved = None\<rparr>)] (Inr [1]) = Inr t" ..
  from t ranking_is_sum [OF t] show ?thesis by blast
qed

section \<open>Counting\<close>

definition votes_for :: "(votes_bundle \<times> bundle_checks) list \<Rightarrow> string \<Rightarrow> nat" where
  "votes_for cur k = length (filter (\<lambda>v. vote_key v = k) (concat (map (b_votes \<circ> fst) cur)))"

lemma constant_rows:
  assumes "\<And>a n. weightFor T a n = Inr w"
  shows "\<exists>rows'. tally_rows T cur rows = Inr rows'"
proof (induction cur arbitrary: rows)
  case (Cons p cur)
  obtain b checks where "p = (b, checks)" by fastforce
  with Cons [of "fold (tally_vote checks w) (b_votes b) rows"] Cons [of rows] show ?case
    by (cases "b_votes b") (simp_all add: assms)
qed simp

lemma constant_sum:
  assumes "\<And>b. bundle_weight T b = w"
  shows "(case sum_contributions (contributions T cur) k of None \<Rightarrow> votes_for cur k = 0
     | Some (x, _) \<Rightarrow> 0 < votes_for cur k \<and> x = w * int (votes_for cur k))"
proof -
  have f: "map (fst \<circ> snd) (filter (\<lambda>c. fst c = k) (votes_contributions ch w vs)) =
      replicate (length (filter (\<lambda>v. vote_key v = k) vs)) w" for ch vs
    by (induction vs) (simp_all add: votes_contributions_def)
  have "map (fst \<circ> snd) (filter (\<lambda>c. fst c = k) (contributions T cur)) = replicate (votes_for cur k) w"
  proof (induction cur)
    case (Cons p cur)
    then show ?case
      by (cases p) (simp add: contributions_def votes_for_def assms f [unfolded comp_def] replicate_add)
  qed (simp add: contributions_def votes_for_def)
  then have r: "map (fst \<circ> snd) (filter (\<lambda>c. fst c = k) (contributions T cur)) = replicate (votes_for cur k) w" .
  show ?thesis
  proof (cases "filter (\<lambda>c. fst c = k) (contributions T cur) = []")
    case True
    with r show ?thesis by (simp add: sum_contributions_def)
  next
    case False
    with r have "votes_for cur k \<noteq> 0" by (metis list.map_disc_iff replicate_empty)
    with False r show ?thesis by (simp add: sum_contributions_def sum_list_replicate)
  qed
qed

lemma constant_tally_counts:
  assumes "makeTally L c reg ctx bm = Inr T" "jget reg (ref_type (c_weight c)) = Some constant_rule"
    and "\<forall>(b, checks) \<in> set cur. \<forall>v \<in> set (b_votes b). isB58IpnsKey L (vote_key v)"
  shows "\<exists>t n. tally_compute T cur (Inr h) = Inr t \<and> ConstantOptionsSchema (c_weight c) = Some (ConstantOptions n) \<and>
    (\<forall>k. (\<exists>r \<in> set (tl_ranking t). ct_publicKey r = k) \<longleftrightarrow> 0 < votes_for cur k) \<and>
    (\<forall>r. r \<in> set (tl_ranking t) \<longrightarrow> ct_weight r = int n * int (votes_for cur (ct_publicKey r)))"
proof -
  from assms(1,2) obtain opts where T: "ta_weight T = constant_rule" "ta_weightOptions T = opts" "ta_lib T = L"
    and o: "ConstantOptionsSchema (c_weight c) = Some opts"
    by (auto simp: makeTally_def require_some_def constant_rule_def split: option.splits)
  from o obtain n where n: "opts = ConstantOptions n"
    by (auto simp: ConstantOptionsSchema_def split: option.splits if_splits)
  have w: "weightFor T a k = Inr (int n)" for a k
    by (simp add: weightFor_def T n constant_rule_def constant_evaluate_def scoreOrZero_def)
  then have bw: "bundle_weight T b = int n" for b by (simp add: bundle_weight_def)
  from constant_rows [OF w] obtain rows where rows: "tally_rows T cur [] = Inr rows" by blast
  note cnt = constant_sum [of T "int n", OF bw, of cur]
  note spec = tally_rows_spec [OF rows] 
  note vs = shown_rows [OF conjunct1 [OF spec] conjunct2 [OF spec]]
  have key: "\<exists>s. tieSeed L h (ct_publicKey r) = Inr s" if "r \<in> set (map community_row rows)" for r
  proof -
    from that have "(ct_publicKey r, ct_weight r, ct_chainVerified r) \<in> set (map weighed (map community_row rows))"
      by (force simp: weighed_def)
    with vs cnt [of "ct_publicKey r"] have "0 < votes_for cur (ct_publicKey r)" by auto
    then obtain b checks v where "(b, checks) \<in> set cur" "v \<in> set (b_votes b)" "vote_key v = ct_publicKey r"
      by (force simp: votes_for_def filter_empty_conv)
    with assms(3) have "isB58IpnsKey L (ct_publicKey r)" by fastforce
    then show ?thesis by (auto simp: isB58IpnsKey_def tieSeed_def require_some_def split: option.splits)
  qed
  have "\<exists>t. tally_compute T cur (Inr h) = Inr t"
  proof -
    have "\<exists>seeds. traverse (\<lambda>r. sbind (tieSeed L h (ct_publicKey r)) (\<lambda>seed. Inr (ct_publicKey r, seed))) (map community_row rows) = Inr seeds"
      by (rule exI, rule traverse_total [where g = "\<lambda>r. (ct_publicKey r, seed_of L h (ct_publicKey r))"])
        (use key in \<open>force simp: seed_of_def\<close>)
    then show ?thesis by (auto simp: tally_compute_def rows Let_def T)
  qed
  then obtain t where t: "tally_compute T cur (Inr h) = Inr t" ..
  note rk = tally_compute_rows [OF t]
  have "(\<exists>r \<in> set (tl_ranking t). ct_publicKey r = k) \<longleftrightarrow> 0 < votes_for cur k" for k
  proof -
    have "(\<exists>r \<in> set (tl_ranking t). ct_publicKey r = k) \<longleftrightarrow> (\<exists>x b. (k, x, b) \<in> set (map weighed (tl_ranking t)))"
      by (force simp: weighed_def)
    also have "\<dots> \<longleftrightarrow> 0 < votes_for cur k"
      using rk cnt [of k] by (auto split: option.splits)
    finally show ?thesis .
  qed
  moreover have "ct_weight r = int n * int (votes_for cur (ct_publicKey r))" if "r \<in> set (tl_ranking t)" for r
  proof -
    from that have "(ct_publicKey r, ct_weight r, ct_chainVerified r) \<in> set (map weighed (tl_ranking t))"
      by (force simp: weighed_def)
    with rk cnt [of "ct_publicKey r"] show ?thesis by auto
  qed
  ultimately show ?thesis using t o n by blast
qed

text \<open>Under the \<open>constant\<close> weight the tally returns once it has the bucket's block hash, and
  a community's weight is the option's value times the number of current votes for it.\<close>

theorem constant_tally_counts_votes:
  assumes "makeTally L c reg ctx bm = Inr T" "jget reg (ref_type (c_weight c)) = Some constant_rule"
    and "\<forall>(b, checks) \<in> set cur. \<forall>v \<in> set (b_votes b). isB58IpnsKey L (vote_key v)"
  shows "\<exists>t n. tally_compute T cur (Inr h) = Inr t \<and> ConstantOptionsSchema (c_weight c) = Some (ConstantOptions n) \<and>
    (\<forall>k. (\<exists>r \<in> set (tl_ranking t). ct_publicKey r = k) \<longleftrightarrow> 0 < votes_for cur k) \<and>
    (\<forall>r. r \<in> set (tl_ranking t) \<longrightarrow> ct_weight r = int n * int (votes_for cur (ct_publicKey r)))"
  by (rule constant_tally_counts [OF assms])

theorem constant_tally_counts_votes_witness:
  "\<exists>t. tally_compute sample_tally [(sample_bundle 1 7, \<lparr>bk_chainVerified = False, bk_nameResolved = None\<rparr>)] (Inr [1]) = Inr t \<and>
     (\<exists>r \<in> set (tl_ranking t). ct_publicKey r = vote_key sample_vote)"
proof -
  have T: "makeTally sample_lib sample_criteria [(''constant'', constant_rule)] ()
      \<lparr>bucketForBlock = bucket_of 10, sampleBlockForBucket = sample_of 10\<rparr> = Inr sample_tally"
    by (simp add: makeTally_def require_some_def constant_rule_def sample_tally_def sample_criteria_def
        ConstantOptionsSchema_def positive_default_def)
  have "jget [(''constant'', constant_rule)] (ref_type (c_weight sample_criteria)) = Some (constant_rule :: unit rule)"
    by (simp add: sample_criteria_def)
  from constant_tally_counts_votes [OF T this, of "[(sample_bundle 1 7, \<lparr>bk_chainVerified = False, bk_nameResolved = None\<rparr>)]" "[1]"]
    sample_vote_ok
  show ?thesis by (fastforce simp: sample_bundle_def vote_ok_def community_ok_def votes_for_def)
qed

lemma single_names_agree: "\<forall>p \<in> set cur. b_votes (fst p) = [u] \<Longrightarrow> names_agree cur"
proof -
  assume one: "\<forall>p \<in> set cur. b_votes (fst p) = [u]"
  have "v = u" if v: "v \<in> set (concat (map (b_votes \<circ> fst) cur))" for v
  proof -
    from v obtain p where "p \<in> set cur" "v \<in> set (b_votes (fst p))" by auto
    with bspec [OF one, of p] show ?thesis by simp
  qed
  then show ?thesis unfolding names_agree_def list_all_iff by metis
qed

text \<open>C13: Converged replicas rank alike. Two replicas that merge the same CIDs, in any order, and know
  the same check states show the same rows in the same order, ties included, because a tie is broken by
  the seed of the community's key under the bucket's block hash: the same keys, weights, chain flags and
  name flags. The one thing the order of the bundles may decide is which name a row shows where its
  votes carry different ones: each row then shows one of them, a resolved one if there is one. Where no
  key has two names the rankings are equal in full. (Digests and base58 decoding are taken to be
  injective.)\<close>

theorem replicas_rank_alike:
  assumes "crdt_wf s" "crdt_wf t" "from_content content s" "from_content content t"
    and "\<forall>c \<in> set cs. getA c = Inr (Some (content c))" "\<forall>c \<in> set ds. getB c = Inr (Some (content c))"
    and "set cs \<union> e_cid ` entries s = set ds \<union> e_cid ` entries t"
    and "b58_laws (ta_lib T)" "inj (sha256 (ta_lib T))"
    and cur: "cur = map (\<lambda>e. (e_bundle e, checks (e_cid e)))
           (currentEntries lwwResolve bf ex (fst (merge getA cs s)) b el)"
    and cur': "cur' = map (\<lambda>e. (e_bundle e, checks (e_cid e)))
           (currentEntries lwwResolve bf ex (fst (merge getB ds t)) b el)"
    and "tally_compute T cur (Inr h) = Inr r" "tally_compute T cur' (Inr h) = Inr r'"
  shows "map shown (tl_ranking r) = map shown (tl_ranking r') \<and>
    (\<forall>row \<in> set (tl_ranking r) \<union> set (tl_ranking r'). \<forall>n. ct_name row = Some n \<longrightarrow>
       (n, ct_nameResolved row = Some True) \<in> set (name_claims cur (ct_publicKey row))) \<and>
    (names_agree cur \<longrightarrow> tl_ranking r = tl_ranking r')"
proof -
  have "mset (currentEntries lwwResolve bf ex (fst (merge getA cs s)) b el) =
        mset (currentEntries lwwResolve bf ex (fst (merge getB ds t)) b el)"
    using merge_entries [OF assms(1,3,5)] merge_entries [OF assms(2,4,6)] assms(7)
    by (intro lww.currentEntries_mset_cong) simp_all
  then have m: "mset cur = mset cur'" by (simp add: cur cur')
  show ?thesis
    using tally_same_shown [OF assms(8,9) m assms(12,13)] tally_same [OF assms(8,9) m _ assms(12,13)]
      tally_names_carried [OF assms(12) refl] tally_names_carried [OF assms(13) m] by blast
qed

theorem replicas_rank_alike_witness:
  "let content = (\<lambda>c :: cid. sample_bundle 1 (length c)); get = (\<lambda>c. Inr (Some (content c)));
       cur = (\<lambda>cs. map (\<lambda>e. (e_bundle e, \<lparr>bk_chainVerified = False, bk_nameResolved = None\<rparr>))
         (currentEntries lwwResolve id 9 (fst (merge get cs empty_crdt)) 3 (\<lambda>_. True)))
   in \<exists>r r'. tally_compute sample_tally (cur [[1], [1, 2]]) (Inr [1]) = Inr r \<and>
       tally_compute sample_tally (cur [[1, 2], [1]]) (Inr [1]) = Inr r' \<and>
       tl_ranking r = tl_ranking r'"
proof -
  let ?cs = "\<lparr>bk_chainVerified = False, bk_nameResolved = None\<rparr>"
  let ?get = "\<lambda>c. Inr (Some (sample_bundle 1 (length c)))"
  let ?m = "\<lambda>cs. currentEntries lwwResolve id 9 (fst (merge ?get cs empty_crdt)) 3 (\<lambda>_. True)"
  let ?cur = "\<lambda>cs. map (\<lambda>e. (e_bundle e, ?cs)) (?m cs)"
  have T: "makeTally sample_lib sample_criteria [(''constant'', constant_rule)] ()
      \<lparr>bucketForBlock = bucket_of 10, sampleBlockForBucket = sample_of 10\<rparr> = Inr sample_tally"
    by (simp add: makeTally_def require_some_def constant_rule_def sample_tally_def sample_criteria_def
        ConstantOptionsSchema_def positive_default_def)
  have j: "jget [(''constant'', constant_rule)] (ref_type (c_weight sample_criteria)) = Some (constant_rule :: unit rule)"
    by (simp add: sample_criteria_def)
  have L: "ta_lib sample_tally = sample_lib" by (simp add: sample_tally_def)
  have sample_inj: "inj (sha256 sample_lib)" by (simp add: sample_lib_def)
  have votes: "\<forall>p \<in> set (?cur cs). b_votes (fst p) = [sample_vote]" for cs
  proof -
    obtain s' where m: "merge ?get cs empty_crdt = (s', Inr ())" "crdt_wf s'" "from_content (\<lambda>c. sample_bundle 1 (length c)) s'"
      using merge_content [of empty_crdt "\<lambda>c. sample_bundle 1 (length c)" cs ?get] by auto
    have "b_votes (e_bundle e) = [sample_vote]" if "e \<in> set (?m cs)" for e
      using that m lww.set_currentEntries [OF m(2)] by (auto simp: is_winner_def from_content_def sample_bundle_def)
    then show ?thesis by auto
  qed
  have agree: "names_agree (?cur cs)" for cs using single_names_agree [OF votes [of cs]] .
  have "\<exists>r. tally_compute sample_tally (?cur cs) (Inr [1]) = Inr r" for cs
  proof -
    have "\<forall>(b, checks) \<in> set (?cur cs). \<forall>v \<in> set (b_votes b). isB58IpnsKey sample_lib (vote_key v)"
      using votes [of cs] sample_vote_ok by (fastforce simp: vote_ok_def community_ok_def)
    from constant_tally_counts [OF T j this] show ?thesis by blast
  qed
  then obtain r r' where rr: "tally_compute sample_tally (?cur [[1], [1, 2]]) (Inr [1]) = Inr r"
    "tally_compute sample_tally (?cur [[1, 2], [1]]) (Inr [1]) = Inr r'" by blast
  have L': "b58_laws (ta_lib sample_tally)" "inj (sha256 (ta_lib sample_tally))" using L sample_b58_laws sample_inj by simp_all
  have "crdt_wf empty_crdt" "from_content (\<lambda>c. sample_bundle 1 (length c)) empty_crdt" by simp_all
  note run = replicas_rank_alike [of empty_crdt empty_crdt "\<lambda>c. sample_bundle 1 (length c)" "[[1], [1, 2]]" ?get "[[1, 2], [1]]" ?get
      sample_tally "?cur [[1], [1, 2]]" "\<lambda>_. ?cs" id 9 3 "\<lambda>_. True" "?cur [[1, 2], [1]]" "[1]" r r',
      OF this(1,1,2,2) _ _ _ L' refl refl rr]
  have "tl_ranking r = tl_ranking r'" using run agree [of "[[1], [1, 2]]"] by auto
  with rr show ?thesis unfolding Let_def by blast
qed

end
