(* ===== verification/Gossip.thy ===== *)
theory Gossip
  imports Verify Messages
begin

text \<open>
  The forward gate and what it stands on: the re-sign filter (\<open>src/transport/accepted-dedup.ts\<close>),
  the per-peer rate limiter (\<open>src/transport/rate-limit.ts\<close>), the validator of gossip messages
  (\<open>src/transport/gossip-validator.ts\<close>), its installation on a topic
  (\<open>src/transport/transport.ts\<close>) and the bundle store over the host's blocks
  (\<open>src/transport/bundle-store.ts\<close>). Validations run concurrently: each is a job that the steps
  of \<open>gate_step\<close> take from one \<open>await\<close> to the next, in any order, and a deadline may answer
  for a job that then goes on.
\<close>

section \<open>Re-signed votes\<close>

record dedup =
  dd_keys :: "string list"
  dd_order :: "string list"

definition dedup_empty :: dedup where
  "dedup_empty = \<lparr>dd_keys = [], dd_order = []\<rparr>"

definition vote_ipld :: "vote \<Rightarrow> ipld" where
  "vote_ipld v =
     IMap [(''community'', IMap ((case vote_name v of None \<Rightarrow> [] | Some n \<Rightarrow> [(''name'', IStr n)]) @
             [(''publicKey'', IStr (vote_key v))])),
           (''vote'', IInt (v_vote v))]"

definition dedup_key :: "lib \<Rightarrow> bucket_math \<Rightarrow> votes_bundle \<Rightarrow> string" where
  "dedup_key L bm b =
     to_lower (b_address b) @ CHR '':'' # show_nat (bucketForBlock bm (b_blockNumber b)) @
       CHR '':'' # hex_of_bytes (encodeCanonical L (IList (map vote_ipld (b_votes b))))"

definition isResignDuplicate :: "lib \<Rightarrow> bucket_math \<Rightarrow> votes_bundle \<Rightarrow> dedup \<Rightarrow> bool" where
  "isResignDuplicate L bm b d \<longleftrightarrow> dedup_key L bm b \<in> set (dd_keys d)"

definition dedup_add :: "nat \<Rightarrow> string \<Rightarrow> dedup \<Rightarrow> dedup" where
  "dedup_add maxEntries k d =
     (if k \<in> set (dd_keys d) then d
      else let keys = sadd k (dd_keys d); order = dd_order d @ [k] in
        if maxEntries < length order then \<lparr>dd_keys = removeAll (hd order) keys, dd_order = tl order\<rparr>
        else \<lparr>dd_keys = keys, dd_order = order\<rparr>)"

definition dedup_record :: "lib \<Rightarrow> bucket_math \<Rightarrow> nat \<Rightarrow> votes_bundle \<Rightarrow> dedup \<Rightarrow> dedup" where
  "dedup_record L bm maxEntries b = dedup_add maxEntries (dedup_key L bm b)"

text \<open>The filter is a bounded cache of keys.\<close>

definition dedup_wf :: "nat \<Rightarrow> dedup \<Rightarrow> bool" where
  "dedup_wf n d \<longleftrightarrow> dd_keys d = dd_order d \<and> distinct (dd_order d) \<and> length (dd_order d) \<le> n"

definition dedup_lookup :: "dedup \<Rightarrow> string \<Rightarrow> unit option" where
  "dedup_lookup d k = (if k \<in> set (dd_keys d) then Some () else None)"

lemma dedup_wf_add: "dedup_wf n d \<Longrightarrow> dedup_wf n (dedup_add n k d)"
  unfolding dedup_wf_def dedup_add_def Let_def sadd_def
  by (cases "dd_order d") (auto simp: removeAll_id)

lemma dedup_lookup_add:
  "dedup_wf n d \<Longrightarrow> dedup_lookup d k = None \<Longrightarrow>
   dedup_lookup (dedup_add n k d) k' \<in> {if k' = k then Some v else dedup_lookup d k', None}"
  unfolding dedup_wf_def dedup_add_def dedup_lookup_def Let_def sadd_def
  by (auto split: if_splits)

lemma dedup_lookup_add_self:
  "dedup_wf n d \<Longrightarrow> dedup_lookup d k = None \<Longrightarrow> 0 < n \<Longrightarrow> dedup_lookup (dedup_add n k d) k = Some ()"
  unfolding dedup_wf_def dedup_add_def dedup_lookup_def Let_def sadd_def
  by (cases "dd_order d") (auto split: if_splits)

interpretation dedup: bounded_cache dedup_empty dedup_lookup "\<lambda>n k (_ :: unit). dedup_add n k"
  "\<lambda>d. length (dd_order d)" dedup_wf
proof
  fix n :: nat and d :: dedup and k k' :: string and v w :: unit
  show "dedup_wf n dedup_empty" by (simp add: dedup_wf_def dedup_empty_def)
  show "dedup_lookup dedup_empty k = None" by (simp add: dedup_lookup_def dedup_empty_def)
  show "dedup_wf n d \<Longrightarrow> dedup_wf n (dedup_add n k d)" by (rule dedup_wf_add)
  show "dedup_wf n d \<Longrightarrow> length (dd_order d) \<le> n" by (simp add: dedup_wf_def)
  show "dedup_lookup d k = Some w \<Longrightarrow> dedup_add n k d = d"
    by (simp add: dedup_lookup_def dedup_add_def split: if_splits)
  show "dedup_wf n d \<Longrightarrow> dedup_lookup d k = None \<Longrightarrow>
      dedup_lookup (dedup_add n k d) k' \<in> {if k' = k then Some v else dedup_lookup d k', None}"
    by (rule dedup_lookup_add)
  show "dedup_wf n d \<Longrightarrow> dedup_lookup d k = None \<Longrightarrow> 0 < n \<Longrightarrow> dedup_lookup (dedup_add n k d) k = Some v"
    by (simp add: dedup_lookup_add_self)
qed

text \<open>Equal keys are the same wallet, bucket and choice.\<close>

lemma ipld_ok_vote: "safe_int (v_vote v) \<Longrightarrow> ipld_ok (vote_ipld v)"
  by (auto simp: vote_ipld_def split: option.splits)

lemma vote_ipld_inj:
  assumes "canon (vote_ipld v) = canon (vote_ipld v')" "safe_int (v_vote v)" "safe_int (v_vote v')"
  shows "v = v'"
proof -
  have g: "map_option canon (obj_get (vote_ipld v) k) = map_option canon (obj_get (vote_ipld v') k)" for k
    using arg_cong [OF assms(1), of "\<lambda>x. obj_get x k"] by (simp only: obj_get_canon ipld_ok_vote assms(2,3))
  let ?c = "\<lambda>v. IMap ((case vote_name v of None \<Rightarrow> [] | Some n \<Rightarrow> [(''name'', IStr n)]) @ [(''publicKey'', IStr (vote_key v))])"
  have ok: "ipld_ok (?c v)" for v by (auto split: option.splits)
  from g [of "''community''"] have c: "canon (?c v) = canon (?c v')" by (simp add: vote_ipld_def)
  have h: "map_option canon (obj_get (?c v) k) = map_option canon (obj_get (?c v') k)" for k
    using arg_cong [OF c, of "\<lambda>x. obj_get x k"] by (simp only: obj_get_canon ok)
  from h [of "''publicKey''"] h [of "''name''"] have "vote_key v = vote_key v'" "vote_name v = vote_name v'"
    by (auto split: option.splits)
  moreover from g [of "''vote''"] have "v_vote v = v_vote v'" by (simp add: vote_ipld_def)
  ultimately show ?thesis by (cases v, cases v', cases "v_community v", cases "v_community v'") auto
qed

lemma votes_ipld_inj:
  assumes "map canon (map vote_ipld vs) = map canon (map vote_ipld vs')"
    and "\<forall>v \<in> set vs. safe_int (v_vote v)" "\<forall>v \<in> set vs'. safe_int (v_vote v)"
  shows "vs = vs'"
  using assms
proof (induction vs arbitrary: vs')
  case (Cons v vs)
  then obtain w ws where "vs' = w # ws" by (cases vs') auto
  with Cons vote_ipld_inj [of v w] show ?case by auto
qed simp

lemma dedup_key_eq:
  assumes L: "cbor_laws L" and eq: "dedup_key L bm b = dedup_key L bm b'"
    and ok: "\<forall>v \<in> set (b_votes b). safe_int (v_vote v)" "\<forall>v \<in> set (b_votes b'). safe_int (v_vote v)"
  shows "to_lower (b_address b) = to_lower (b_address b') \<and>
    bucketForBlock bm (b_blockNumber b) = bucketForBlock bm (b_blockNumber b') \<and> b_votes b = b_votes b'"
proof -
  let ?enc = "\<lambda>b. encodeCanonical L (IList (map vote_ipld (b_votes b)))"
  let ?pre = "\<lambda>b. to_lower (b_address b) @ CHR '':'' # show_nat (bucketForBlock bm (b_blockNumber b))"
  from eq have "?pre b @ CHR '':'' # hex_of_bytes (?enc b) = ?pre b' @ CHR '':'' # hex_of_bytes (?enc b')"
    by (simp add: dedup_key_def)
  from split_at_last_sep [OF this] have pre: "?pre b = ?pre b'" and hex: "hex_of_bytes (?enc b) = hex_of_bytes (?enc b')"
    by auto
  from split_at_last_sep [OF pre] have "to_lower (b_address b) = to_lower (b_address b')"
    "bucketForBlock bm (b_blockNumber b) = bucketForBlock bm (b_blockNumber b')" by auto
  moreover from hex_of_bytes_inj [OF hex] have "canon (IList (map vote_ipld (b_votes b))) = canon (IList (map vote_ipld (b_votes b')))"
    using ok by (auto simp: encodeCanonical_def cbor_encode_eq_iff [OF L] ipld_ok_vote)
  with votes_ipld_inj ok have "b_votes b = b_votes b'" by auto
  ultimately show ?thesis by blast
qed

section \<open>The rate limiter\<close>

record rate_window =
  rw_count :: nat
  rw_start :: nat

definition rate_allow :: "nat \<Rightarrow> nat \<Rightarrow> nat \<Rightarrow> string \<Rightarrow> (string, rate_window) jsmap \<Rightarrow> (string, rate_window) jsmap \<times> bool" where
  "rate_allow limit intervalMs now peer windows =
     (case jget windows peer of
        None \<Rightarrow> (jset peer \<lparr>rw_count = 1, rw_start = now\<rparr> windows, True)
      | Some w \<Rightarrow>
          if rw_start w + intervalMs \<le> now then (jset peer \<lparr>rw_count = 1, rw_start = now\<rparr> windows, True)
          else let w = w\<lparr>rw_count := rw_count w + 1\<rparr> in (jset peer w windows, rw_count w \<le> limit))"

fun rate_run :: "nat \<Rightarrow> nat \<Rightarrow> (string \<times> nat) list \<Rightarrow> (string, rate_window) jsmap \<Rightarrow> (string, rate_window) jsmap \<times> bool list" where
  "rate_run limit intervalMs [] windows = (windows, [])"
| "rate_run limit intervalMs ((peer, now) # calls) windows =
     (case rate_allow limit intervalMs now peer windows of
        (windows, ok) \<Rightarrow> case rate_run limit intervalMs calls windows of (windows, oks) \<Rightarrow> (windows, ok # oks))"

definition allowed_of :: "string \<Rightarrow> (string \<times> nat) list \<Rightarrow> bool list \<Rightarrow> nat" where
  "allowed_of p calls oks = length (filter (\<lambda>(c, ok). fst c = p \<and> ok) (zip calls oks))"

lemma allowed_of_simps [simp]:
  "allowed_of p [] oks = 0"
  "allowed_of p ((q, now) # calls) (ok # oks) = (if q = p \<and> ok then 1 else 0) + allowed_of p calls oks"
  by (simp_all add: allowed_of_def)

lemma rate_allow_other: "q \<noteq> p \<Longrightarrow> rate_allow limit I now q windows = (windows', ok) \<Longrightarrow> jget windows' p = jget windows p"
  by (auto simp: rate_allow_def jsmap_simps Let_def split: option.splits if_splits)

text \<open>What remains allowed in the window \<open>w\<close>, over calls that all fall inside it.\<close>

lemma rate_inside:
  assumes "rate_run limit I calls windows = (windows', oks)" "jget windows p = Some w"
    and "\<And>q now. (q, now) \<in> set calls \<Longrightarrow> now < rw_start w + I"
  shows "allowed_of p calls oks \<le> limit - rw_count w"
  using assms
proof (induction limit I calls windows arbitrary: w windows' oks rule: rate_run.induct)
  case (1 limit I windows)
  then show ?case by simp
next
  case (2 limit I q now calls windows)
  obtain ws ok where a: "rate_allow limit I now q windows = (ws, ok)" by fastforce
  with "2.prems"(1) obtain oks' where r: "rate_run limit I calls ws = (windows', oks')" "oks = ok # oks'"
    by (auto split: prod.splits)
  have now: "now < rw_start w + I" using "2.prems"(3) by auto
  show ?case
  proof (cases "q = p")
    case False
    with "2.IH" [OF a [symmetric] r(1), of w] "2.prems"(2,3) rate_allow_other [OF False a] r(2) show ?thesis
      by auto
  next
    case True
    with a now "2.prems"(2) have "ws = jset p (w\<lparr>rw_count := rw_count w + 1\<rparr>) windows" "ok = (rw_count w + 1 \<le> limit)"
      by (auto simp: rate_allow_def Let_def)
    moreover have "allowed_of p calls oks' \<le> limit - rw_count (w\<lparr>rw_count := rw_count w + 1\<rparr>)"
      using calculation by (intro "2.IH" [OF a [symmetric] r(1)]) (use "2.prems"(3) in \<open>auto simp: jsmap_simps\<close>)
    ultimately show ?thesis using True r(2) by auto
  qed
qed

text \<open>Calls within one interval of time meet at most two windows of a peer.\<close>

lemma rate_span:
  assumes "rate_run limit I calls windows = (windows', oks)"
    and "\<And>q now. (q, now) \<in> set calls \<Longrightarrow> t \<le> now \<and> now < t + I"
  shows "allowed_of p calls oks \<le> (case jget windows p of None \<Rightarrow> 0 | Some w \<Rightarrow> limit - rw_count w) + max 1 limit"
  using assms
proof (induction limit I calls windows arbitrary: windows' oks rule: rate_run.induct)
  case (1 limit I windows)
  then show ?case by simp
next
  case (2 limit I q now calls windows)
  obtain ws ok where a: "rate_allow limit I now q windows = (ws, ok)" by fastforce
  with "2.prems"(1) obtain oks' where r: "rate_run limit I calls ws = (windows', oks')" "oks = ok # oks'"
    by (auto split: prod.splits)
  have IH: "allowed_of p calls oks' \<le> (case jget ws p of None \<Rightarrow> 0 | Some w \<Rightarrow> limit - rw_count w) + max 1 limit"
    using "2.IH" [OF a [symmetric] r(1)] "2.prems"(2) by auto
  have now: "t \<le> now" using "2.prems"(2) by auto
  show ?case
  proof (cases "q = p")
    case False
    with IH rate_allow_other [OF False a] r(2) show ?thesis by simp
  next
    case True
    show ?thesis
    proof (cases "\<exists>w. jget windows p = Some w \<and> now < rw_start w + I")
      case inside: True
      then obtain w where w: "jget windows p = Some w" "now < rw_start w + I" by blast
      with a True have "ws = jset p (w\<lparr>rw_count := rw_count w + 1\<rparr>) windows" "ok = (rw_count w + 1 \<le> limit)"
        by (auto simp: rate_allow_def Let_def)
      with IH w True r(2) show ?thesis by (auto simp: jsmap_simps)
    next
      case False
      with a True have ws: "jget ws p = Some \<lparr>rw_count = 1, rw_start = now\<rparr>"
        by (auto simp: rate_allow_def jsmap_simps Let_def split: option.splits if_splits)
      have "now' < now + I" if "(q', now') \<in> set calls" for q' now'
        using "2.prems"(2) [of q' now'] that now by simp
      from rate_inside [OF r(1) ws] this have "allowed_of p calls oks' \<le> limit - 1" by simp
      then have "(if ok then 1 else 0) + allowed_of p calls oks' \<le> max 1 limit" by (cases limit) auto
      then have "allowed_of p ((q, now) # calls) oks \<le> max 1 limit" unfolding r(2) using True by simp
      then show ?thesis by (rule trans_le_add2)
    qed
  qed
qed

section \<open>The gate\<close>

datatype message_verdict = VAccept | VReject | VIgnore

definition of_disposition :: "disposition \<Rightarrow> message_verdict" where
  "of_disposition d = (case d of Reject \<Rightarrow> VReject | Ignore \<Rightarrow> VIgnore)"

definition verdict_message :: "bundle_verdict \<Rightarrow> message_verdict" where
  "verdict_message v = (case v of Valid _ \<Rightarrow> VAccept | Invalid d _ _ \<Rightarrow> of_disposition d)"

definition GATE_TIMEOUT_MS :: nat where
  "GATE_TIMEOUT_MS = 10000"

definition GATE_RATE :: "nat \<times> nat" where
  "GATE_RATE = (256, 10000)"

definition GATE_ROOT_RATE :: "nat \<times> nat" where
  "GATE_ROOT_RATE = (4, 60000)"

text \<open>What the gate is built over.\<close>

record gate_config =
  gc_lib :: lib
  gc_bucketMath :: bucket_math
  gc_cacheMax :: nat
  gc_dedupMax :: nat
  gc_bundleRate :: "nat \<times> nat"
  gc_rootRate :: "nat \<times> nat"
  gc_maxBundleMessageBytes :: nat
  gc_maxRootMessageBytes :: nat

text \<open>The host's callbacks, in the order they were called.\<close>

datatype gate_call =
    Admit cid bytes votes_bundle
  | OnAccept cid votes_bundle string
  | OnRootRecord root_record string

text \<open>A validation that waits: for the bundle's hash, for the freshness answer, for the verifier, or
  for the admission.\<close>

datatype gate_wait = Hashing | Dating | Verifying | Admitting

record gate_job =
  gj_cid :: cid
  gj_bundle :: votes_bundle
  gj_bytes :: bytes
  gj_from :: string
  gj_wait :: gate_wait

text \<open>Messages are numbered as they arrive; \<open>gs_verdicts\<close> holds what \<open>validate\<close> resolved to, and
  the first answer stands (\<open>withDeadline\<close>). \<open>gs_said\<close> records the answers of the gate's verifier. The
  verdict cache and the re-sign filter are the contest engine's, and outlive a join; the chaser and the
  background verifier of the contest write to the cache too, and \<open>gs_heard\<close> records what they wrote.\<close>

record gate_state =
  gs_cache :: verdict_cache
  gs_dedup :: dedup
  gs_bundleWindows :: "(string, rate_window) jsmap"
  gs_rootWindows :: "(string, rate_window) jsmap"
  gs_messages :: "(bytes \<times> string) list"
  gs_jobs :: "(nat, gate_job) jsmap"
  gs_verdicts :: "(nat, message_verdict) jsmap"
  gs_calls :: "gate_call list"
  gs_said :: "(cid \<times> votes_bundle \<times> bundle_verdict) list"
  gs_heard :: "(cid \<times> votes_bundle \<times> bundle_verdict) list"

definition gate_start :: gate_state where
  "gate_start = \<lparr>gs_cache = fifo_empty, gs_dedup = dedup_empty, gs_bundleWindows = [], gs_rootWindows = [],
     gs_messages = [], gs_jobs = [], gs_verdicts = [], gs_calls = [], gs_said = [], gs_heard = []\<rparr>"

text \<open>\<open>withDeadline\<close>: the first to settle decides.\<close>

definition gate_settle :: "nat \<Rightarrow> message_verdict \<Rightarrow> gate_state \<Rightarrow> gate_state" where
  "gate_settle i v s = (if jhas (gs_verdicts s) i then s else s\<lparr>gs_verdicts := jset i v (gs_verdicts s)\<rparr>)"

definition gate_finish :: "nat \<Rightarrow> message_verdict \<Rightarrow> gate_state \<Rightarrow> gate_state" where
  "gate_finish i v s = gate_settle i v (s\<lparr>gs_jobs := jdel i (gs_jobs s)\<rparr>)"

definition gate_wait_for :: "nat \<Rightarrow> gate_wait \<Rightarrow> gate_job \<Rightarrow> gate_state \<Rightarrow> gate_state" where
  "gate_wait_for i w j s = s\<lparr>gs_jobs := jset i (j\<lparr>gj_wait := w\<rparr>) (gs_jobs s)\<rparr>"

text \<open>The synchronous start of \<open>doValidate\<close>. A message whose bytes parse waits for its hash.\<close>

definition parseBundle :: "lib \<Rightarrow> bytes \<Rightarrow> (cid \<times> votes_bundle) res" where
  "parseBundle L blockBytes = sbind (decodeBundle L blockBytes) (\<lambda>b. Inr (bundleCidForBytes L blockBytes, b))"

definition gate_receive :: "gate_config \<Rightarrow> nat \<Rightarrow> bytes \<Rightarrow> string \<Rightarrow> gate_state \<Rightarrow> gate_state" where
  "gate_receive C now data from_peer s0 =
     (let i = length (gs_messages s0); s = s0\<lparr>gs_messages := gs_messages s0 @ [(data, from_peer)]\<rparr> in
      if max (gc_maxBundleMessageBytes C) (gc_maxRootMessageBytes C) < length data then gate_settle i VReject s
      else case decodeVoteMessage (gc_lib C) data of
        Inl _ \<Rightarrow> gate_settle i VReject s
      | Inr (MsgRoot record) \<Rightarrow>
          if gc_maxRootMessageBytes C < length data then gate_settle i VReject s
          else (case rate_allow (fst (gc_rootRate C)) (snd (gc_rootRate C)) now from_peer (gs_rootWindows s) of
            (windows, ok) \<Rightarrow>
              let s = s\<lparr>gs_rootWindows := windows\<rparr> in
              if \<not> ok then gate_settle i VIgnore s
              else gate_settle i VAccept (s\<lparr>gs_calls := gs_calls s @ [OnRootRecord record from_peer]\<rparr>))
      | Inr (MsgBundle blockBytes) \<Rightarrow>
          if gc_maxBundleMessageBytes C < length data then gate_settle i VReject s
          else (case rate_allow (fst (gc_bundleRate C)) (snd (gc_bundleRate C)) now from_peer (gs_bundleWindows s) of
            (windows, ok) \<Rightarrow>
              let s = s\<lparr>gs_bundleWindows := windows\<rparr> in
              if \<not> ok then gate_settle i VIgnore s
              else case parseBundle (gc_lib C) blockBytes of
                Inl _ \<Rightarrow> gate_settle i VReject s
              | Inr (cid, b) \<Rightarrow>
                  gate_wait_for i Hashing
                    \<lparr>gj_cid = cid, gj_bundle = b, gj_bytes = blockBytes, gj_from = from_peer, gj_wait = Hashing\<rparr> s))"

text \<open>After the hash: the cached verdict, or the freshness check.\<close>

definition gate_hashed :: "gate_config \<Rightarrow> nat \<Rightarrow> gate_job \<Rightarrow> gate_state \<Rightarrow> gate_state" where
  "gate_hashed C i j s =
     (case verdict_get (gc_lib C) (gj_cid j) (gs_cache s) of
        Some cached \<Rightarrow> gate_finish i (verdict_message cached) s
      | None \<Rightarrow> gate_wait_for i Dating j s)"

text \<open>After the freshness answer, which may have thrown: the re-sign filter, or the verifier.\<close>

definition gate_dated :: "gate_config \<Rightarrow> bool res \<Rightarrow> nat \<Rightarrow> gate_job \<Rightarrow> gate_state \<Rightarrow> gate_state" where
  "gate_dated C evaluable i j s =
     (case evaluable of
        Inl _ \<Rightarrow> gate_finish i VIgnore s
      | Inr ok \<Rightarrow>
          if \<not> ok then gate_finish i VIgnore s
          else if isResignDuplicate (gc_lib C) (gc_bucketMath C) (gj_bundle j) (gs_dedup s) then gate_finish i VIgnore s
          else gate_wait_for i Verifying j s)"

definition gate_verified :: "gate_config \<Rightarrow> bundle_verdict res \<Rightarrow> nat \<Rightarrow> gate_job \<Rightarrow> gate_state \<Rightarrow> gate_state" where
  "gate_verified C answer i j s =
     (case answer of
        Inl _ \<Rightarrow> gate_finish i VIgnore s
      | Inr v \<Rightarrow>
          let s = s\<lparr>gs_said := gs_said s @ [(gj_cid j, gj_bundle j, v)],
                    gs_cache := (if isCacheableVerdict v then verdict_set (gc_lib C) (gc_cacheMax C) (gj_cid j) v (gs_cache s)
                                 else gs_cache s)\<rparr> in
          (case v of
             Invalid d _ _ \<Rightarrow> gate_finish i (of_disposition d) s
           | Valid _ \<Rightarrow>
               gate_wait_for i Admitting j (s\<lparr>gs_calls := gs_calls s @ [Admit (gj_cid j) (gj_bytes j) (gj_bundle j)]\<rparr>)))"

definition gate_admitted :: "gate_config \<Rightarrow> unit res \<Rightarrow> nat \<Rightarrow> gate_job \<Rightarrow> gate_state \<Rightarrow> gate_state" where
  "gate_admitted C outcome i j s =
     (case outcome of
        Inl _ \<Rightarrow> gate_finish i VIgnore s
      | Inr _ \<Rightarrow> gate_finish i VAccept
          (s\<lparr>gs_dedup := dedup_record (gc_lib C) (gc_bucketMath C) (gc_dedupMax C) (gj_bundle j) (gs_dedup s),
             gs_calls := gs_calls s @ [OnAccept (gj_cid j) (gj_bundle j) (gj_from j)]\<rparr>))"

text \<open>Another component of the engine settles a bundle and writes its verdict to the shared cache.\<close>

definition gate_cached :: "gate_config \<Rightarrow> cid \<Rightarrow> votes_bundle \<Rightarrow> bundle_verdict \<Rightarrow> gate_state \<Rightarrow> gate_state" where
  "gate_cached C c b v s =
     s\<lparr>gs_heard := gs_heard s @ [(c, b, v)], gs_cache := verdict_set (gc_lib C) (gc_cacheMax C) c v (gs_cache s)\<rparr>"

text \<open>The contest is left and joined again: a new gate, whose rate windows are empty, over the same verdict
  cache and re-sign filter; validations of the old gate that still wait go on.\<close>

definition gate_rejoins :: "gate_state \<Rightarrow> gate_state" where
  "gate_rejoins s = s\<lparr>gs_bundleWindows := [], gs_rootWindows := []\<rparr>"

text \<open>One step: a message arrives, a waiting job goes on, a deadline passes, another component writes to
  the cache (a verdict on the block with that CID), or the contest is joined again. \<open>says\<close> tells
  which verdicts the pipeline may give for a bundle.\<close>

inductive gate_step :: "gate_config \<Rightarrow> (votes_bundle \<Rightarrow> bundle_verdict \<Rightarrow> bool) \<Rightarrow> gate_state \<Rightarrow> gate_state \<Rightarrow> bool"
  for C says where
  receives: "gate_step C says s (gate_receive C now data from_peer s)"
| hashed: "jget (gs_jobs s) i = Some j \<Longrightarrow> gj_wait j = Hashing \<Longrightarrow> gate_step C says s (gate_hashed C i j s)"
| dated: "jget (gs_jobs s) i = Some j \<Longrightarrow> gj_wait j = Dating \<Longrightarrow> gate_step C says s (gate_dated C evaluable i j s)"
| verified: "jget (gs_jobs s) i = Some j \<Longrightarrow> gj_wait j = Verifying \<Longrightarrow>
    (case answer of Inl _ \<Rightarrow> True | Inr v \<Rightarrow> says (gj_bundle j) v) \<Longrightarrow> gate_step C says s (gate_verified C answer i j s)"
| admitted: "jget (gs_jobs s) i = Some j \<Longrightarrow> gj_wait j = Admitting \<Longrightarrow> gate_step C says s (gate_admitted C outcome i j s)"
| expires: "jhas (gs_jobs s) i \<Longrightarrow> gate_step C says s (gate_settle i VIgnore s)"
| caches: "parseBundle (gc_lib C) bytes = Inr (c, b) \<Longrightarrow> says b v \<Longrightarrow> isCacheableVerdict v \<Longrightarrow>
    gate_step C says s (gate_cached C c b v s)"
| rejoins: "gate_step C says s (gate_rejoins s)"


section \<open>What every reachable state satisfies\<close>

definition msg_bundle :: "gate_config \<Rightarrow> bytes \<Rightarrow> bytes \<Rightarrow> cid \<Rightarrow> votes_bundle \<Rightarrow> bool" where
  "msg_bundle C data bytes c b \<longleftrightarrow> decodeVoteMessage (gc_lib C) data = Inr (MsgBundle bytes) \<and>
     length data \<le> gc_maxBundleMessageBytes C \<and> parseBundle (gc_lib C) bytes = Inr (c, b)"

definition accept_ok :: "gate_config \<Rightarrow> gate_state \<Rightarrow> bytes \<times> string \<Rightarrow> bool" where
  "accept_ok C s m \<longleftrightarrow>
     (\<exists>r. decodeVoteMessage (gc_lib C) (fst m) = Inr (MsgRoot r) \<and> length (fst m) \<le> gc_maxRootMessageBytes C \<and>
        OnRootRecord r (snd m) \<in> set (gs_calls s)) \<or>
     (\<exists>bytes c b names. msg_bundle C (fst m) bytes c b \<and>
        ((c, b, Valid names) \<in> set (gs_said s) \<and> Admit c bytes b \<in> set (gs_calls s) \<or>
         (c, b, Valid names) \<in> set (gs_heard s)))"

definition malformed :: "gate_config \<Rightarrow> bytes \<Rightarrow> bool" where
  "malformed C data \<longleftrightarrow>
     (case decodeVoteMessage (gc_lib C) data of
        Inl _ \<Rightarrow> True
      | Inr (MsgRoot _) \<Rightarrow> gc_maxRootMessageBytes C < length data
      | Inr (MsgBundle bytes) \<Rightarrow> gc_maxBundleMessageBytes C < length data \<or> (\<exists>e. parseBundle (gc_lib C) bytes = Inl e))"

definition reject_ok :: "gate_config \<Rightarrow> gate_state \<Rightarrow> bytes \<times> string \<Rightarrow> bool" where
  "reject_ok C s m \<longleftrightarrow> malformed C (fst m) \<or>
     (\<exists>bytes c b why fs. msg_bundle C (fst m) bytes c b \<and>
        (c, b, Invalid Reject why fs) \<in> set (gs_said s) \<union> set (gs_heard s))"

definition verdict_ok :: "gate_config \<Rightarrow> gate_state \<Rightarrow> bytes \<times> string \<Rightarrow> message_verdict \<Rightarrow> bool" where
  "verdict_ok C s m v = (case v of VAccept \<Rightarrow> accept_ok C s m | VReject \<Rightarrow> reject_ok C s m | VIgnore \<Rightarrow> True)"

definition job_ok :: "gate_config \<Rightarrow> gate_state \<Rightarrow> nat \<Rightarrow> gate_job \<Rightarrow> bool" where
  "job_ok C s i j \<longleftrightarrow> i < length (gs_messages s) \<and> gj_from j = snd (gs_messages s ! i) \<and>
     msg_bundle C (fst (gs_messages s ! i)) (gj_bytes j) (gj_cid j) (gj_bundle j) \<and>
     (gj_wait j = Admitting \<longrightarrow> Admit (gj_cid j) (gj_bytes j) (gj_bundle j) \<in> set (gs_calls s))"

text \<open>What the gate remembers of the verifier, its caches included.\<close>

definition memory_ok :: "gate_config \<Rightarrow> (votes_bundle \<Rightarrow> bundle_verdict \<Rightarrow> bool) \<Rightarrow> gate_state \<Rightarrow> bool" where
  "memory_ok C says s \<longleftrightarrow>
     (\<forall>c b v. (c, b, v) \<in> set (gs_said s) \<longrightarrow> says b v \<and>
        (\<exists>bytes. parseBundle (gc_lib C) bytes = Inr (c, b) \<and> (is_valid v \<longrightarrow> Admit c bytes b \<in> set (gs_calls s)))) \<and>
     (\<forall>c bytes b. Admit c bytes b \<in> set (gs_calls s) \<longrightarrow>
        parseBundle (gc_lib C) bytes = Inr (c, b) \<and> (\<exists>names. (c, b, Valid names) \<in> set (gs_said s))) \<and>
     (\<forall>c b v. (c, b, v) \<in> set (gs_heard s) \<longrightarrow> says b v \<and> (\<exists>bytes. parseBundle (gc_lib C) bytes = Inr (c, b))) \<and>
     fifo_wf (gc_cacheMax C) (gs_cache s) \<and>
     (\<forall>k v. fifo_get (gs_cache s) k = Some v \<longrightarrow>
        isCacheableVerdict v \<and> (\<exists>c b. (c, b, v) \<in> set (gs_said s) \<union> set (gs_heard s) \<and> k = cid_str (gc_lib C) c)) \<and>
     dedup_wf (gc_dedupMax C) (gs_dedup s) \<and>
     (\<forall>k \<in> set (dd_keys (gs_dedup s)). \<exists>c b f. OnAccept c b f \<in> set (gs_calls s) \<and> k = dedup_key (gc_lib C) (gc_bucketMath C) b) \<and>
     (\<forall>c b f. OnAccept c b f \<in> set (gs_calls s) \<longrightarrow> (\<exists>bytes. Admit c bytes b \<in> set (gs_calls s)))"

definition gate_inv :: "gate_config \<Rightarrow> (votes_bundle \<Rightarrow> bundle_verdict \<Rightarrow> bool) \<Rightarrow> gate_state \<Rightarrow> bool" where
  "gate_inv C says s \<longleftrightarrow>
     (\<forall>i j. jget (gs_jobs s) i = Some j \<longrightarrow> job_ok C s i j) \<and>
     (\<forall>i v. jget (gs_verdicts s) i = Some v \<longrightarrow> i < length (gs_messages s) \<and> verdict_ok C s (gs_messages s ! i) v) \<and>
     memory_ok C says s"

lemma memory_saidD: "memory_ok C says s \<Longrightarrow> (c, b, v) \<in> set (gs_said s) \<Longrightarrow> says b v \<and>
    (\<exists>bytes. parseBundle (gc_lib C) bytes = Inr (c, b) \<and> (is_valid v \<longrightarrow> Admit c bytes b \<in> set (gs_calls s)))"
  unfolding memory_ok_def by metis

lemma memory_admitD: "memory_ok C says s \<Longrightarrow> Admit c bytes b \<in> set (gs_calls s) \<Longrightarrow>
    parseBundle (gc_lib C) bytes = Inr (c, b) \<and> (\<exists>names. (c, b, Valid names) \<in> set (gs_said s))"
  unfolding memory_ok_def by metis

lemma memory_cacheD: "memory_ok C says s \<Longrightarrow> fifo_get (gs_cache s) k = Some v \<Longrightarrow>
    isCacheableVerdict v \<and> (\<exists>c b. (c, b, v) \<in> set (gs_said s) \<union> set (gs_heard s) \<and> k = cid_str (gc_lib C) c)"
  unfolding memory_ok_def by metis

lemma memory_heardD: "memory_ok C says s \<Longrightarrow> (c, b, v) \<in> set (gs_heard s) \<Longrightarrow>
    says b v \<and> (\<exists>bytes. parseBundle (gc_lib C) bytes = Inr (c, b))"
  unfolding memory_ok_def by metis

lemma memory_dedupD: "memory_ok C says s \<Longrightarrow> k \<in> set (dd_keys (gs_dedup s)) \<Longrightarrow>
    \<exists>c b f. OnAccept c b f \<in> set (gs_calls s) \<and> k = dedup_key (gc_lib C) (gc_bucketMath C) b"
  unfolding memory_ok_def by metis

lemma memory_acceptD: "memory_ok C says s \<Longrightarrow> OnAccept c b f \<in> set (gs_calls s) \<Longrightarrow>
    \<exists>bytes. Admit c bytes b \<in> set (gs_calls s)"
  unfolding memory_ok_def by metis

text \<open>Messages, calls and answers only accumulate, and what they justify stays justified.\<close>

definition grows :: "gate_state \<Rightarrow> gate_state \<Rightarrow> bool" where
  "grows s s' \<longleftrightarrow> (\<exists>ms. gs_messages s' = gs_messages s @ ms) \<and> set (gs_calls s) \<subseteq> set (gs_calls s') \<and>
     set (gs_said s) \<subseteq> set (gs_said s') \<and> set (gs_heard s) \<subseteq> set (gs_heard s')"

lemma verdict_ok_grows: "grows s s' \<Longrightarrow> verdict_ok C s m v \<Longrightarrow> verdict_ok C s' m v"
  by (auto simp: grows_def verdict_ok_def accept_ok_def reject_ok_def split: message_verdict.splits) blast+

lemma job_ok_grows: "grows s s' \<Longrightarrow> job_ok C s i j \<Longrightarrow> job_ok C s' i j"
  by (auto simp: grows_def job_ok_def nth_append)

lemma gate_inv_grow:
  assumes "gate_inv C says s" "grows s s'" "memory_ok C says s'"
    and "gs_jobs s' = gs_jobs s" "gs_verdicts s' = gs_verdicts s"
  shows "gate_inv C says s'"
proof -
  have nth: "gs_messages s' ! i = gs_messages s ! i" "i < length (gs_messages s')" if "i < length (gs_messages s)" for i
    using assms(2) that by (auto simp: grows_def nth_append)
  show ?thesis
    using assms(1,3-5) nth job_ok_grows [OF assms(2)] verdict_ok_grows [OF assms(2)]
    unfolding gate_inv_def by metis
qed

lemma frame [simp]:
  "verdict_ok C (s\<lparr>gs_jobs := jobs\<rparr>) m v = verdict_ok C s m v" "verdict_ok C (s\<lparr>gs_verdicts := vs\<rparr>) m v = verdict_ok C s m v"
  "job_ok C (s\<lparr>gs_jobs := jobs\<rparr>) i j = job_ok C s i j" "job_ok C (s\<lparr>gs_verdicts := vs\<rparr>) i j = job_ok C s i j"
  "memory_ok C says (s\<lparr>gs_jobs := jobs\<rparr>) = memory_ok C says s" "memory_ok C says (s\<lparr>gs_verdicts := vs\<rparr>) = memory_ok C says s"
  by (simp_all add: verdict_ok_def accept_ok_def reject_ok_def job_ok_def memory_ok_def split: message_verdict.splits)

lemma gate_inv_settle:
  assumes "gate_inv C says s" "i < length (gs_messages s)" "verdict_ok C s (gs_messages s ! i) v"
  shows "gate_inv C says (gate_settle i v s)"
  using assms by (auto simp: gate_inv_def gate_settle_def jsmap_simps)

lemma gate_inv_jobs:
  assumes "gate_inv C says s" "\<And>i j. jget jobs i = Some j \<Longrightarrow> job_ok C s i j"
  shows "gate_inv C says (s\<lparr>gs_jobs := jobs\<rparr>)"
  using assms by (simp add: gate_inv_def)

lemma gate_inv_wait:
  assumes "gate_inv C says s" "job_ok C s i (j\<lparr>gj_wait := w\<rparr>)"
  shows "gate_inv C says (gate_wait_for i w j s)"
  unfolding gate_wait_for_def
  by (rule gate_inv_jobs [OF assms(1)]) (use assms in \<open>auto simp: jsmap_simps gate_inv_def split: if_splits\<close>)

lemma gate_inv_finish:
  assumes "gate_inv C says s" "i < length (gs_messages s)" "verdict_ok C s (gs_messages s ! i) v"
  shows "gate_inv C says (gate_finish i v s)"
proof -
  have "gate_inv C says (s\<lparr>gs_jobs := jdel i (gs_jobs s)\<rparr>)"
    by (rule gate_inv_jobs [OF assms(1)]) (use assms in \<open>auto simp: jsmap_simps gate_inv_def split: if_splits\<close>)
  then show ?thesis unfolding gate_finish_def
    by (rule gate_inv_settle) (use assms in simp_all)
qed


lemma gate_inv_ignored: "gate_inv C says s \<Longrightarrow> jget (gs_jobs s) i = Some j \<Longrightarrow> gate_inv C says (gate_finish i VIgnore s)"
  by (rule gate_inv_finish) (auto simp: gate_inv_def job_ok_def verdict_ok_def)

lemma gate_inv_start: "gate_inv C says gate_start"
  by (simp add: gate_inv_def gate_start_def memory_ok_def dedup.wf_empty dedup_empty_def [symmetric])
    (simp add: dedup_empty_def)

text \<open>Equal CIDs are equal blocks.\<close>

lemma parse_same_cid:
  assumes "cid_laws L" "parseBundle L bs = Inr (c, b)" "parseBundle L bs' = Inr (c, b')"
  shows "bs = bs' \<and> b = b'"
proof -
  from assms(2,3) have "bundleCidForBytes L bs = bundleCidForBytes L bs'" by (auto simp: parseBundle_def res_simps)
  then have "bs = bs'" using assms(1) by (simp add: bundleCidForBytes_def cid_laws_def inj_eq)
  with assms(2,3) show ?thesis by auto
qed

lemma gate_inv_receive:
  assumes "gate_inv C says s"
  shows "gate_inv C says (gate_receive C now data from_peer s)"
proof -
  let ?i = "length (gs_messages s)"
  have step: "gate_inv C says s'" if "gs_messages s' = gs_messages s @ [(data, from_peer)]"
    "gs_jobs s' = gs_jobs s" "gs_verdicts s' = gs_verdicts s" "gs_said s' = gs_said s" "gs_heard s' = gs_heard s" "gs_cache s' = gs_cache s"
    "gs_dedup s' = gs_dedup s" "gs_calls s' = gs_calls s @ cs" "\<And>c. c \<in> set cs \<Longrightarrow> \<exists>r f. c = OnRootRecord r f" for s' cs
  proof (rule gate_inv_grow [OF assms])
    show "grows s s'" using that by (auto simp: grows_def)
    have "c \<notin> set cs" if "\<And>r f. c \<noteq> OnRootRecord r f" for c using that \<open>\<And>c. c \<in> set cs \<Longrightarrow> _ c\<close> by metis
    then have "Admit c bytes b \<notin> set cs" "OnAccept c b f \<notin> set cs" for c bytes b f by auto
    with assms show "memory_ok C says s'" by (simp add: gate_inv_def memory_ok_def that(4-8))
  qed (use that in auto)
  have settle: "gate_inv C says (gate_settle ?i v s')"
    if "gate_inv C says s'" "gs_messages s' = gs_messages s @ [(data, from_peer)]" "verdict_ok C s' (data, from_peer) v" for s' v
    by (rule gate_inv_settle) (use that in simp_all)
  have reject: "malformed C data \<Longrightarrow> verdict_ok C s' (data, from_peer) VReject" for s'
    by (simp add: verdict_ok_def reject_ok_def)
  have ignore: "verdict_ok C s' m VIgnore" for s' m by (simp add: verdict_ok_def)
  let ?m = "gs_messages s @ [(data, from_peer)]"
  have base: "gate_inv C says (s\<lparr>gs_messages := ?m\<rparr>)"
    "gate_inv C says (s\<lparr>gs_messages := ?m, gs_bundleWindows := w\<rparr>)"
    "gate_inv C says (s\<lparr>gs_messages := ?m, gs_rootWindows := w\<rparr>)"
    for w by (rule step [where cs = "[]"], simp_all)+
  have base': "gate_inv C says (s\<lparr>gs_messages := ?m, gs_rootWindows := w, gs_calls := gs_calls s @ [OnRootRecord r from_peer]\<rparr>)" for w r
    by (rule step [where cs = "[OnRootRecord r from_peer]"]) simp_all
  show ?thesis
  proof (cases "decodeVoteMessage (gc_lib C) data")
    case (Inl e)
    then have "malformed C data" by (simp add: malformed_def)
    with Inl show ?thesis
      by (auto simp: gate_receive_def Let_def intro!: settle reject base base')
  next
    case (Inr m)
    show ?thesis
    proof (cases m)
      case (MsgRoot r)
      have "malformed C data" if "gc_maxRootMessageBytes C < length data"
        using that Inr MsgRoot by (simp add: malformed_def)
      moreover have "accept_ok C s' (data, from_peer)"
        if "OnRootRecord r from_peer \<in> set (gs_calls s')" "\<not> gc_maxRootMessageBytes C < length data" for s'
        using that Inr MsgRoot by (simp add: accept_ok_def)
      ultimately show ?thesis using Inr MsgRoot
        by (auto simp: gate_receive_def Let_def ignore verdict_ok_def [of _ _ _ VAccept] split: prod.splits
            intro!: settle reject base base')
    next
      case (MsgBundle bytes)
      have "malformed C data" if "gc_maxBundleMessageBytes C < length data \<or> (\<exists>e. parseBundle (gc_lib C) bytes = Inl e)"
        using that Inr MsgBundle by (simp add: malformed_def)
      moreover have "job_ok C s' ?i \<lparr>gj_cid = c, gj_bundle = b, gj_bytes = bytes, gj_from = from_peer, gj_wait = w\<rparr>"
        if "gs_messages s' = gs_messages s @ [(data, from_peer)]" "parseBundle (gc_lib C) bytes = Inr (c, b)"
          "\<not> gc_maxBundleMessageBytes C < length data" "w = Hashing" for s' c b w
        using that Inr MsgBundle by (simp add: job_ok_def msg_bundle_def)
      ultimately show ?thesis using Inr MsgBundle
        by (auto simp: gate_receive_def Let_def ignore split: prod.splits sum.splits
            intro!: settle reject gate_inv_wait base)
    qed
  qed
qed

lemma gate_inv_hashed:
  assumes L: "cid_laws (gc_lib C)" and inv: "gate_inv C says s" and j: "jget (gs_jobs s) i = Some j"
  shows "gate_inv C says (gate_hashed C i j s)"
proof -
  from inv j have job: "job_ok C s i j" and mem: "memory_ok C says s" by (auto simp: gate_inv_def)
  show ?thesis
  proof (cases "verdict_get (gc_lib C) (gj_cid j) (gs_cache s)")
    case None
    have "job_ok C s i (j\<lparr>gj_wait := Dating\<rparr>)" using job by (simp add: job_ok_def)
    with None inv show ?thesis by (simp add: gate_hashed_def gate_inv_wait)
  next
    case (Some v)
    with memory_cacheD [OF mem, of "cid_str (gc_lib C) (gj_cid j)" v] obtain c b
      where v: "isCacheableVerdict v" "(c, b, v) \<in> set (gs_said s) \<union> set (gs_heard s)"
        "cid_str (gc_lib C) (gj_cid j) = cid_str (gc_lib C) c" by (auto simp: verdict_get_def)
    from v(3) L have c: "c = gj_cid j" by (simp add: cid_laws_def inj_eq)
    from job have parse: "parseBundle (gc_lib C) (gj_bytes j) = Inr (gj_cid j, gj_bundle j)" by (simp add: job_ok_def msg_bundle_def)
    have same: "bytes = gj_bytes j \<and> b = gj_bundle j" if "parseBundle (gc_lib C) bytes = Inr (gj_cid j, b)" for bytes
      using parse_same_cid [OF L that parse] .
    have b: "b = gj_bundle j"
      using v(2) c same memory_saidD [OF mem] memory_heardD [OF mem] by blast
    have admit: "Admit (gj_cid j) (gj_bytes j) (gj_bundle j) \<in> set (gs_calls s)"
      if "(gj_cid j, gj_bundle j, v) \<in> set (gs_said s)" "is_valid v"
      using memory_saidD [OF mem that(1)] that(2) same b by blast
    have "verdict_ok C s (gs_messages s ! i) (verdict_message v)"
    proof (cases v)
      case (Valid names)
      from job have "msg_bundle C (fst (gs_messages s ! i)) (gj_bytes j) (gj_cid j) (gj_bundle j)" by (simp add: job_ok_def)
      with admit v(2) c b Valid have "accept_ok C s (gs_messages s ! i)"
        unfolding accept_ok_def by (metis UnE is_valid.simps(1))
      with Valid show ?thesis by (simp add: verdict_ok_def verdict_message_def)
    next
      case (Invalid d r fs)
      with v(1) have "d = Reject" by (simp add: isCacheableVerdict_def)
      with job v(2) c b Invalid show ?thesis
        by (auto simp: verdict_ok_def verdict_message_def of_disposition_def reject_ok_def job_ok_def)
    qed
    with Some inv job show ?thesis by (simp add: gate_hashed_def gate_inv_finish job_ok_def)
  qed
qed

lemma gate_inv_dated:
  assumes "gate_inv C says s" "jget (gs_jobs s) i = Some j"
  shows "gate_inv C says (gate_dated C evaluable i j s)"
proof -
  from assms have job: "job_ok C s i j" by (auto simp: gate_inv_def)
  have "gate_inv C says (gate_wait_for i Verifying j s)"
    using job assms by (intro gate_inv_wait) (auto simp: job_ok_def)
  with gate_inv_ignored [OF assms] show ?thesis by (auto simp: gate_dated_def split: sum.splits)
qed


lemma verdict_set_lookup:
  assumes "fifo_wf n c" "fifo_get (verdict_set L n cid v c) k = Some w"
  shows "fifo_get c k = Some w \<or> k = cid_str L cid \<and> w = v"
proof (cases "fifo_get c (cid_str L cid) = None")
  case True
  with assms show ?thesis
    using fifo_get_set [of n c "cid_str L cid" v k] by (auto simp: verdict_set_def split: if_splits)
next
  case False
  with assms show ?thesis by (auto simp: verdict_set_def fifo_set_known)
qed

lemma memory_fifoD: "memory_ok C says s \<Longrightarrow> fifo_wf (gc_cacheMax C) (gs_cache s)"
  unfolding memory_ok_def by metis

lemma gate_inv_cached:
  assumes inv: "gate_inv C says s" and p: "parseBundle (gc_lib C) bytes = Inr (c, b)"
    and v: "says b v" "isCacheableVerdict v"
  shows "gate_inv C says (gate_cached C c b v s)"
proof (rule gate_inv_grow [OF inv])
  from inv have mem: "memory_ok C says s" by (simp add: gate_inv_def)
  have "isCacheableVerdict w \<and> (\<exists>d b'. (d, b', w) \<in> set (gs_said s) \<union> set (gs_heard (gate_cached C c b v s)) \<and> k = cid_str (gc_lib C) d)"
    if "fifo_get (gs_cache (gate_cached C c b v s)) k = Some w" for k w
    using verdict_set_lookup [OF memory_fifoD [OF mem], of "gc_lib C" c v k w] that memory_cacheD [OF mem, of k w] v(2)
    by (auto simp: gate_cached_def)
  moreover have "fifo_wf (gc_cacheMax C) (gs_cache (gate_cached C c b v s))"
    using memory_fifoD [OF mem] by (simp add: gate_cached_def verdict_set_def fifo_wf_set)
  moreover have "says b' w \<and> (\<exists>bytes. parseBundle (gc_lib C) bytes = Inr (d, b'))"
    if "(d, b', w) \<in> set (gs_heard (gate_cached C c b v s))" for d b' w
    using that memory_heardD [OF mem] p v(1) by (auto simp: gate_cached_def)
  ultimately show "memory_ok C says (gate_cached C c b v s)"
    using mem unfolding memory_ok_def by (simp add: gate_cached_def)
qed (auto simp: grows_def gate_cached_def)

lemma gate_inv_verified:
  assumes inv: "gate_inv C says s" and j: "jget (gs_jobs s) i = Some j"
    and says: "case answer of Inl _ \<Rightarrow> True | Inr v \<Rightarrow> says (gj_bundle j) v"
  shows "gate_inv C says (gate_verified C answer i j s)"
proof (cases answer)
  case (Inl e)
  with gate_inv_ignored [OF inv j] show ?thesis by (simp add: gate_verified_def)
next
  case (Inr v)
  from inv j have job: "job_ok C s i j" and mem: "memory_ok C says s" by (auto simp: gate_inv_def)
  let ?calls = "gs_calls s @ (if is_valid v then [Admit (gj_cid j) (gj_bytes j) (gj_bundle j)] else [])"
  let ?s = "s\<lparr>gs_said := gs_said s @ [(gj_cid j, gj_bundle j, v)],
    gs_cache := (if isCacheableVerdict v then verdict_set (gc_lib C) (gc_cacheMax C) (gj_cid j) v (gs_cache s) else gs_cache s),
    gs_calls := ?calls\<rparr>"
  have "gate_inv C says ?s"
  proof (rule gate_inv_grow [OF inv])
    have sub: "set (gs_said s) \<subseteq> set (gs_said ?s)" "set (gs_calls s) \<subseteq> set (gs_calls ?s)" by auto
    have cache: "fifo_get (gs_cache s) k = Some w \<or> k = cid_str (gc_lib C) (gj_cid j) \<and> w = v \<and> isCacheableVerdict v"
      if "fifo_get (gs_cache ?s) k = Some w" for k w
      using that verdict_set_lookup [OF memory_fifoD [OF mem], of "gc_lib C" "gj_cid j" v k w] by (auto split: if_splits)
    have parse: "parseBundle (gc_lib C) (gj_bytes j) = Inr (gj_cid j, gj_bundle j)"
      using job by (simp add: job_ok_def msg_bundle_def)
    have new: "says (gj_bundle j) v" using says Inr by simp
    note old = mem [unfolded memory_ok_def]
    show "memory_ok C says ?s"
      unfolding memory_ok_def
    proof (intro conjI allI ballI impI, goal_cases)
      case (1 c b w)
      with old new show ?case by auto
    next
      case (2 c b w)
      with old parse show ?case by (auto split: if_splits) blast+
    next
      case (3 c bytes b)
      with old parse show ?case by (auto split: if_splits)
    next
      case (4 c bytes b)
      then consider "Admit c bytes b \<in> set (gs_calls s)" | names where "c = gj_cid j" "b = gj_bundle j" "v = Valid names"
        by (cases v) auto
      then show ?case
      proof cases
        case 1
        from memory_admitD [OF mem this] show ?thesis by auto
      qed auto
    next
      case (5 c b w)
      then show ?case using memory_heardD [OF mem] by auto
    next
      case (6 c b w)
      then show ?case using memory_heardD [OF mem] by auto
    next
      case 7
      with old show ?case by (simp add: verdict_set_def fifo_wf_set)
    next
      case (8 k w)
      from cache [OF this] memory_cacheD [OF mem] show ?case by blast
    next
      case (9 k w)
      from cache [OF this] show ?case
      proof
        assume "fifo_get (gs_cache s) k = Some w"
        from memory_cacheD [OF mem this] show ?thesis by auto
      qed auto
    next
      case 10
      with old show ?case by simp
    next
      case (11 k)
      then have "k \<in> set (dd_keys (gs_dedup s))" by simp
      from memory_dedupD [OF mem this] show ?case by auto
    next
      case (12 c b f)
      then have "OnAccept c b f \<in> set (gs_calls s)" by (auto split: if_splits)
      from memory_acceptD [OF mem this] show ?case by auto
    qed
  qed (auto simp: grows_def)
  note s = this
  show ?thesis
  proof (cases v)
    case (Valid names)
    have "job_ok C ?s i (j\<lparr>gj_wait := Admitting\<rparr>)" using job Valid by (simp add: job_ok_def)
    from gate_inv_wait [OF s this] Valid Inr show ?thesis
      by (simp add: gate_verified_def Let_def isCacheableVerdict_def)
  next
    case (Invalid d r fs)
    have "verdict_ok C ?s (gs_messages s ! i) (of_disposition d)"
    proof (cases d)
      case Reject
      from job have "msg_bundle C (fst (gs_messages s ! i)) (gj_bytes j) (gj_cid j) (gj_bundle j)" by (simp add: job_ok_def)
      moreover have "(gj_cid j, gj_bundle j, Invalid Reject r fs) \<in> set (gs_said ?s)" using Invalid Reject by simp
      ultimately have "reject_ok C ?s (gs_messages s ! i)" unfolding reject_ok_def by blast
      with Reject show ?thesis by (simp add: verdict_ok_def of_disposition_def)
    qed (simp add: verdict_ok_def of_disposition_def)
    with gate_inv_finish [OF s, of i "of_disposition d"] job Invalid Inr show ?thesis
      by (cases "isCacheableVerdict v") (simp_all add: gate_verified_def Let_def job_ok_def)
  qed
qed

lemma gate_inv_admitted:
  assumes inv: "gate_inv C says s" and j: "jget (gs_jobs s) i = Some j" and w: "gj_wait j = Admitting"
  shows "gate_inv C says (gate_admitted C outcome i j s)"
proof (cases outcome)
  case (Inl e)
  with gate_inv_ignored [OF inv j] show ?thesis by (simp add: gate_admitted_def)
next
  case (Inr u)
  from inv j have job: "job_ok C s i j" and mem: "memory_ok C says s" by (auto simp: gate_inv_def)
  let ?s = "s\<lparr>gs_dedup := dedup_record (gc_lib C) (gc_bucketMath C) (gc_dedupMax C) (gj_bundle j) (gs_dedup s),
             gs_calls := gs_calls s @ [OnAccept (gj_cid j) (gj_bundle j) (gj_from j)]\<rparr>"
  have "gate_inv C says ?s"
  proof (rule gate_inv_grow [OF inv])
    note old = mem [unfolded memory_ok_def]
    have admit: "Admit (gj_cid j) (gj_bytes j) (gj_bundle j) \<in> set (gs_calls s)" using job w by (simp add: job_ok_def)
    have keys: "k = dedup_key (gc_lib C) (gc_bucketMath C) (gj_bundle j) \<or> k \<in> set (dd_keys (gs_dedup s))"
      if "k \<in> set (dd_keys (gs_dedup ?s))" for k
      using that by (auto simp: dedup_record_def dedup_add_def Let_def split: if_splits)
    show "memory_ok C says ?s"
      unfolding memory_ok_def
    proof (intro conjI allI ballI impI, goal_cases)
      case (10)
      with old show ?case by (simp add: dedup_record_def dedup_wf_add)
    next
      case (11 k)
      from keys [OF this] show ?case
      proof
        assume "k \<in> set (dd_keys (gs_dedup s))"
        from memory_dedupD [OF mem this] show ?thesis by auto
      qed auto
    next
      case (12 c b f)
      then consider "OnAccept c b f \<in> set (gs_calls s)" | "c = gj_cid j" "b = gj_bundle j" by auto
      then show ?case
      proof cases
        case 1
        from memory_acceptD [OF mem this] show ?thesis by auto
      qed (use admit in auto)
    next
      case (2 c b w)
      then have "(c, b, w) \<in> set (gs_said s)" by simp
      from memory_saidD [OF mem this] show ?case by auto
    qed (use old in auto)
  qed (auto simp: grows_def)
  note s = this
  have "accept_ok C ?s (gs_messages s ! i)"
  proof -
    from job w have m: "msg_bundle C (fst (gs_messages s ! i)) (gj_bytes j) (gj_cid j) (gj_bundle j)"
      and a: "Admit (gj_cid j) (gj_bytes j) (gj_bundle j) \<in> set (gs_calls s)" by (auto simp: job_ok_def)
    from mem a obtain names where "(gj_cid j, gj_bundle j, Valid names) \<in> set (gs_said s)"
      unfolding memory_ok_def by metis
    with m a show ?thesis unfolding accept_ok_def by fastforce
  qed
  then have "verdict_ok C ?s (gs_messages ?s ! i) VAccept" by (simp add: verdict_ok_def)
  from gate_inv_finish [OF s _ this] job Inr show ?thesis by (simp add: gate_admitted_def job_ok_def)
qed

lemma gate_inv_step:
  assumes "gate_step C says s s'" "cid_laws (gc_lib C)" "gate_inv C says s"
  shows "gate_inv C says s'"
  using assms
proof (induction rule: gate_step.induct)
  case (receives s now data from_peer)
  then show ?case by (intro gate_inv_receive)
next
  case (hashed s i j)
  then show ?case by (intro gate_inv_hashed) auto
next
  case (dated s i j evaluable)
  then show ?case by (intro gate_inv_dated) auto
next
  case (verified s i j answer)
  then show ?case by (intro gate_inv_verified) auto
next
  case (admitted s i j outcome)
  then show ?case by (intro gate_inv_admitted) auto
next
  case (expires s i)
  then obtain j where "jget (gs_jobs s) i = Some j" by (auto simp: jhas_def)
  with expires show ?case
    by (intro gate_inv_settle) (auto simp: gate_inv_def job_ok_def verdict_ok_def)
next
  case (caches bytes c b v s)
  then show ?case by (intro gate_inv_cached) auto
next
  case (rejoins s)
  have "gate_rejoins s = s\<lparr>gs_bundleWindows := [], gs_rootWindows := []\<rparr>" by (simp add: gate_rejoins_def)
  with rejoins show ?case
    by (intro gate_inv_grow [OF rejoins(2)]) (auto simp: grows_def gate_inv_def memory_ok_def)
qed

lemma gate_inv_reachable:
  assumes "cid_laws (gc_lib C)" "(gate_step C says)\<^sup>*\<^sup>* gate_start s"
  shows "gate_inv C says s"
  using assms(2) by (induction rule: rtranclp_induct) (auto intro: gate_inv_start dest: gate_inv_step [OF _ assms(1)])


text \<open>Every message is answered or still being validated, and its validation can always be ended.\<close>

definition pending_ok :: "gate_state \<Rightarrow> bool" where
  "pending_ok s \<longleftrightarrow> (\<forall>i < length (gs_messages s). jhas (gs_jobs s) i \<or> jhas (gs_verdicts s) i) \<and>
     (\<forall>i. jhas (gs_jobs s) i \<or> jhas (gs_verdicts s) i \<longrightarrow> i < length (gs_messages s))"

lemma pending_settle: "pending_ok s \<Longrightarrow> i < length (gs_messages s) \<Longrightarrow> pending_ok (gate_settle i v s)"
  by (auto simp: pending_ok_def gate_settle_def jhas_def jsmap_simps)

lemma pending_finish: "pending_ok s \<Longrightarrow> i < length (gs_messages s) \<Longrightarrow> pending_ok (gate_finish i v s)"
  by (auto simp: pending_ok_def gate_settle_def gate_finish_def jhas_def jsmap_simps)

lemma pending_wait: "pending_ok s \<Longrightarrow> i < length (gs_messages s) \<Longrightarrow> pending_ok (gate_wait_for i w j s)"
  by (auto simp: pending_ok_def gate_wait_for_def jhas_def jsmap_simps)

lemma pending_new:
  assumes "pending_ok s" "gs_messages s' = gs_messages s @ [m]" "gs_jobs s' = gs_jobs s" "gs_verdicts s' = gs_verdicts s"
  shows "pending_ok (gate_settle (length (gs_messages s)) v s')" "pending_ok (gate_wait_for (length (gs_messages s)) w j s')"
  using assms by (auto simp: pending_ok_def gate_settle_def gate_wait_for_def jhas_def jsmap_simps less_Suc_eq)

lemma pending_receive: "pending_ok s \<Longrightarrow> pending_ok (gate_receive C now data from_peer s)"
  unfolding gate_receive_def Let_def
  by (auto simp: Let_def split: sum.splits vote_message.splits prod.splits intro!: pending_new)

lemma pending_memory:
  "pending_ok (s\<lparr>gs_said := x\<rparr>) = pending_ok s" "pending_ok (s\<lparr>gs_cache := y\<rparr>) = pending_ok s"
  "pending_ok (s\<lparr>gs_calls := z\<rparr>) = pending_ok s" "pending_ok (s\<lparr>gs_dedup := d\<rparr>) = pending_ok s"
  by (simp_all add: pending_ok_def)

lemma pending_step: "gate_step C says s s' \<Longrightarrow> pending_ok s \<Longrightarrow> pending_ok s'"
proof (induction rule: gate_step.induct)
  case (receives s now data from_peer)
  then show ?case by (rule pending_receive)
next
  case (hashed s i j)
  then have "i < length (gs_messages s)" by (auto simp: pending_ok_def jhas_def)
  with hashed show ?case by (auto simp: gate_hashed_def pending_finish pending_wait split: option.splits)
next
  case (dated s i j evaluable)
  then have "i < length (gs_messages s)" by (auto simp: pending_ok_def jhas_def)
  with dated show ?case by (auto simp: gate_dated_def pending_finish pending_wait split: sum.splits)
next
  case (verified s i j answer)
  then have "i < length (gs_messages s)" by (auto simp: pending_ok_def jhas_def)
  with verified show ?case
    by (auto simp: gate_verified_def Let_def pending_memory intro!: pending_finish pending_wait split: sum.splits verdict.splits)
next
  case (admitted s i j outcome)
  then have "i < length (gs_messages s)" by (auto simp: pending_ok_def jhas_def)
  with admitted show ?case
    by (auto simp: gate_admitted_def pending_memory intro!: pending_finish split: sum.splits)
next
  case (expires s i)
  then show ?case by (intro pending_settle) (auto simp: pending_ok_def)
next
  case (caches bytes c b v s)
  then show ?case by (simp add: gate_cached_def pending_ok_def)
next
  case (rejoins s)
  then show ?case by (simp add: gate_rejoins_def pending_ok_def)
qed

lemma pending_reachable: "(gate_step C says)\<^sup>*\<^sup>* gate_start s \<Longrightarrow> pending_ok s"
proof (induction rule: rtranclp_induct)
  case base
  show ?case by (simp add: pending_ok_def gate_start_def jhas_def)
qed (rule pending_step)

text \<open>A verdict, once given, stands.\<close>

lemma settle_keeps: "jget (gs_verdicts s) i = Some v \<Longrightarrow> jget (gs_verdicts (gate_settle k w s)) i = Some v"
  by (auto simp: gate_settle_def jhas_def jsmap_simps)

lemma finish_keeps: "jget (gs_verdicts s) i = Some v \<Longrightarrow> jget (gs_verdicts (gate_finish k w s)) i = Some v"
  by (simp add: gate_finish_def settle_keeps)

lemma wait_keeps: "jget (gs_verdicts (gate_wait_for k w j s)) i = jget (gs_verdicts s) i"
  by (simp add: gate_wait_for_def)

lemma step_keeps: "gate_step C says s s' \<Longrightarrow> jget (gs_verdicts s) i = Some v \<Longrightarrow> jget (gs_verdicts s') i = Some v"
proof (induction rule: gate_step.induct)
  case (receives s now data from_peer)
  then show ?case unfolding gate_receive_def Let_def
    by (auto simp: Let_def wait_keeps split: sum.splits vote_message.splits prod.splits intro!: settle_keeps)
qed (auto simp: gate_hashed_def gate_dated_def gate_verified_def gate_admitted_def gate_cached_def gate_rejoins_def Let_def wait_keeps
    split: option.splits sum.splits verdict.splits intro!: settle_keeps finish_keeps)

section \<open>The transport\<close>

text \<open>The host's pubsub: its validators by topic, where it has such a map, the topics subscribed, and
  what was published.\<close>

record 'g pubsub =
  ps_topicValidators :: "(string, 'g) jsmap option"
  ps_subscribed :: "string list"
  ps_published :: "(string \<times> bytes) list"

definition transport_validator :: "string \<Rightarrow> (bytes \<Rightarrow> string \<Rightarrow> message_verdict) \<Rightarrow> string \<Rightarrow> string \<Rightarrow> bytes \<Rightarrow> message_verdict" where
  "transport_validator topic validate peer message_topic data =
     (if message_topic \<noteq> topic then VIgnore else validate data peer)"

definition transport_start :: "string \<Rightarrow> 'g \<Rightarrow> 'g pubsub \<Rightarrow> 'g pubsub res" where
  "transport_start topic validator ps =
     (case ps_topicValidators ps of
        None \<Rightarrow> Inl (PlainError ''the injected pubsub has no topicValidators map'')
      | Some vs \<Rightarrow> Inr (ps\<lparr>ps_topicValidators := Some (jset topic validator vs), ps_subscribed := sadd topic (ps_subscribed ps)\<rparr>))"

definition transport_stop :: "string \<Rightarrow> 'g pubsub \<Rightarrow> 'g pubsub" where
  "transport_stop topic ps =
     ps\<lparr>ps_topicValidators := map_option (jdel topic) (ps_topicValidators ps),
        ps_subscribed := removeAll topic (ps_subscribed ps)\<rparr>"

text \<open>\<open>publish\<close> is the pubsub's answer: it throws, or gives the number of recipients when it has one.\<close>

definition publishBundle ::
  "lib \<Rightarrow> (string \<Rightarrow> bytes \<Rightarrow> nat option res) \<Rightarrow> string \<Rightarrow> bytes \<Rightarrow> 'g pubsub \<Rightarrow> 'g pubsub \<times> nat res" where
  "publishBundle L publish topic blockBytes ps =
     (let data = encodeBundleMessage L blockBytes in
      (ps\<lparr>ps_published := ps_published ps @ [(topic, data)]\<rparr>,
       sbind (publish topic data) (\<lambda>r. Inr (case r of Some n \<Rightarrow> n | None \<Rightarrow> 0))))"

definition publishRootRecord ::
  "lib \<Rightarrow> (string \<Rightarrow> bytes \<Rightarrow> nat option res) \<Rightarrow> string \<Rightarrow> ('a) root_record_scheme \<Rightarrow> 'g pubsub \<Rightarrow> 'g pubsub \<times> unit res" where
  "publishRootRecord L publish topic record ps =
     (case encodeRootMessage L record of
        Inl e \<Rightarrow> (ps, Inl e)
      | Inr data \<Rightarrow> (ps\<lparr>ps_published := ps_published ps @ [(topic, data)]\<rparr>, sbind (publish topic data) (\<lambda>_. Inr ())))"

section \<open>Bundles in the host's blockstore\<close>

definition bs_put :: "lib \<Rightarrow> (cid, bytes) jsmap \<Rightarrow> votes_bundle \<Rightarrow> ((cid, bytes) jsmap \<times> cid) res" where
  "bs_put L blocks b =
     sbind (bundleCid L b) (\<lambda>cid. sbind (encodeBundle L b) (\<lambda>block. Inr (jset cid block blocks, cid)))"

text \<open>A block that is missing or does not decode is \<open>undefined\<close>.\<close>

definition bs_get :: "lib \<Rightarrow> (cid, bytes) jsmap \<Rightarrow> cid \<Rightarrow> votes_bundle option res" where
  "bs_get L blocks cid =
     Inr (case jget blocks cid of
        None \<Rightarrow> None
      | Some block \<Rightarrow> (case decodeBundle L block of Inl _ \<Rightarrow> None | Inr b \<Rightarrow> Some b))"

definition bs_has :: "bool res \<Rightarrow> bool" where
  "bs_has answer = (case answer of Inl _ \<Rightarrow> False | Inr b \<Rightarrow> b)"

text \<open>With codecs that keep their word it is a bundle store like the one in memory.\<close>

lemma blockstore_is_bundle_store:
  assumes "cbor_laws L" "b58_laws L"
  shows "bundle_store (bs_put L) (bs_get L) (bundleCid L)"
proof
  fix s s' :: "(cid, bytes) jsmap" and b :: votes_bundle and c d :: cid
  assume p: "bs_put L s b = Inr (s', c)"
  then obtain block where b: "encodeBundle L b = Inr block" "s' = jset c block s" "bundleCid L b = Inr c"
    by (auto simp: bs_put_def res_simps)
  show "bundleCid L b = Inr c" by (rule b(3))
  show "\<exists>b'. bs_get L s' c = Inr (Some b') \<and> lower_bundle b' = lower_bundle b"
    using b decodeBundle_encode [OF assms b(1)] by (simp add: bs_get_def jsmap_simps lower_bundle_def)
  show "d \<noteq> c \<Longrightarrow> bs_get L s' d = bs_get L s d" using b by (simp add: bs_get_def jsmap_simps)
qed


section \<open>A fresh valid vote goes through\<close>

lemma gate_accepts_fresh:
  assumes reach: "(gate_step C says)\<^sup>*\<^sup>* gate_start s" and m: "msg_bundle C data bytes c b"
    and rate: "snd (rate_allow (fst (gc_bundleRate C)) (snd (gc_bundleRate C)) now peer (gs_bundleWindows s))"
    and fresh: "verdict_get (gc_lib C) c (gs_cache s) = None"
    and new: "\<not> isResignDuplicate (gc_lib C) (gc_bucketMath C) b (gs_dedup s)" and says: "says b (Valid names)"
  shows "\<exists>s'. (gate_step C says)\<^sup>*\<^sup>* s s' \<and> gs_messages s' = gs_messages s @ [(data, peer)] \<and>
    jget (gs_verdicts s') (length (gs_messages s)) = Some VAccept \<and>
    gs_calls s' = gs_calls s @ [Admit c bytes b, OnAccept c b peer] \<and>
    gs_dedup s' = dedup_record (gc_lib C) (gc_bucketMath C) (gc_dedupMax C) b (gs_dedup s) \<and> gs_heard s' = gs_heard s"
proof -
  let ?i = "length (gs_messages s)"
  define j where "j w = \<lparr>gj_cid = c, gj_bundle = b, gj_bytes = bytes, gj_from = peer, gj_wait = w\<rparr>" for w
  have j: "gj_cid (j w) = c" "gj_bundle (j w) = b" "gj_bytes (j w) = bytes" "gj_from (j w) = peer" "gj_wait (j w) = w"
    "(j w)\<lparr>gj_wait := w'\<rparr> = j w'" for w w' by (simp_all add: j_def)
  from pending_reachable [OF reach] have free: "\<not> jhas (gs_verdicts s) ?i" by (auto simp: pending_ok_def)
  define s1 where "s1 = gate_receive C now data peer s"
  have s1: "jget (gs_jobs s1) ?i = Some (j Hashing)" "gs_messages s1 = gs_messages s @ [(data, peer)]"
    "gs_verdicts s1 = gs_verdicts s" "gs_calls s1 = gs_calls s" "gs_cache s1 = gs_cache s" "gs_dedup s1 = gs_dedup s" "gs_heard s1 = gs_heard s"
    using m rate by (auto simp: s1_def gate_receive_def msg_bundle_def Let_def gate_wait_for_def j_def jsmap_simps split: prod.splits)
  define s2 where "s2 = gate_hashed C ?i (j Hashing) s1"
  have s2: "s2 = s1\<lparr>gs_jobs := jset ?i (j Dating) (gs_jobs s1)\<rparr>"
    using fresh by (simp add: s2_def gate_hashed_def gate_wait_for_def j s1)
  define s3 where "s3 = gate_dated C (Inr True) ?i (j Dating) s2"
  have s3: "s3 = s2\<lparr>gs_jobs := jset ?i (j Verifying) (gs_jobs s2)\<rparr>"
    using new by (simp add: s3_def gate_dated_def gate_wait_for_def j s1 s2)
  define s4 where "s4 = gate_verified C (Inr (Valid names)) ?i (j Verifying) s3"
  have s4: "jget (gs_jobs s4) ?i = Some (j Admitting)" "gs_messages s4 = gs_messages s @ [(data, peer)]"
    "gs_verdicts s4 = gs_verdicts s" "gs_calls s4 = gs_calls s @ [Admit c bytes b]" "gs_dedup s4 = gs_dedup s" "gs_heard s4 = gs_heard s"
    by (simp_all add: s4_def gate_verified_def gate_wait_for_def j s1 s2 s3 Let_def jsmap_simps)
  define s5 where "s5 = gate_admitted C (Inr ()) ?i (j Admitting) s4"
  have "gs_messages s5 = gs_messages s @ [(data, peer)]" "jget (gs_verdicts s5) ?i = Some VAccept"
    "gs_calls s5 = gs_calls s @ [Admit c bytes b, OnAccept c b peer]"
    "gs_dedup s5 = dedup_record (gc_lib C) (gc_bucketMath C) (gc_dedupMax C) b (gs_dedup s)" "gs_heard s5 = gs_heard s"
    using free by (simp_all add: s5_def gate_admitted_def gate_finish_def gate_settle_def j s4 jsmap_simps)
  moreover have "gate_step C says s s1" unfolding s1_def by (rule receives)
  moreover have "gate_step C says s1 s2" unfolding s2_def by (rule hashed) (simp_all add: s1 j)
  moreover have "gate_step C says s2 s3" unfolding s3_def by (rule dated) (simp_all add: s2 j jsmap_simps)
  moreover have "gate_step C says s3 s4" unfolding s4_def by (rule verified) (simp_all add: s3 j jsmap_simps says)
  moreover have "gate_step C says s4 s5" unfolding s5_def by (rule admitted) (simp_all add: s4 j)
  ultimately show ?thesis by (meson converse_rtranclp_into_rtranclp rtranclp.rtrancl_refl)
qed


end
