(* ===== verification/Gossip_Properties.thy ===== *)
theory Gossip_Properties
  imports Gossip Rule_Properties
begin

text \<open>
  What the forward gate promises, whatever the order in which concurrent validations progress and
  whichever deadlines pass: verdicts are justified, every message gets one, re-sign drops lose no
  vote, and a peer's rate is bounded.
\<close>

definition sample_gate :: "nat \<Rightarrow> gate_config" where
  "sample_gate n = \<lparr>gc_lib = sample_lib, gc_bucketMath = \<lparr>bucketForBlock = bucket_of 10, sampleBlockForBucket = sample_of 10\<rparr>,
     gc_cacheMax = 4, gc_dedupMax = 4, gc_bundleRate = GATE_RATE, gc_rootRate = GATE_ROOT_RATE,
     gc_maxBundleMessageBytes = n, gc_maxRootMessageBytes = MAX_ROOT_MESSAGE_BYTES\<rparr>"

lemma sample_cid_laws: "cid_laws sample_lib"
  unfolding cid_laws_def by (auto simp: sample_lib_def inj_def intro: hex_of_bytes_inj)

text \<open>A withdrawal, as a message.\<close>

definition quiet_bundle :: votes_bundle where
  "quiet_bundle = (sample_bundle 1 7)\<lparr>b_votes := []\<rparr>"

lemma quiet_encodes: "\<exists>block. encodeBundle sample_lib quiet_bundle = Inr block"
proof -
  have "votes_bundle_ok sample_lib (sample_bundle 1 7)" by (rule sample_bundle_ok) (simp add: max_safe_integer_def)
  then have "votes_bundle_ok sample_lib quiet_bundle"
    by (simp add: quiet_bundle_def votes_bundle_ok_def sample_bundle_def signature_ok_def)
  then show ?thesis
    by (simp add: encodeBundle_def toWireBundle_def quiet_bundle_def sample_bundle_def ADDRESS_BYTES_def SIGNATURE_BYTES_def)
qed

definition quiet_block :: bytes where
  "quiet_block = (case encodeBundle sample_lib quiet_bundle of Inr block \<Rightarrow> block | Inl _ \<Rightarrow> [])"

definition quiet_message :: bytes where
  "quiet_message = encodeBundleMessage sample_lib quiet_block"

abbreviation quiet_gate :: gate_config where
  "quiet_gate \<equiv> sample_gate (length quiet_message)"

lemma quiet_msg: "msg_bundle quiet_gate quiet_message quiet_block (bundleCidForBytes sample_lib quiet_block) quiet_bundle"
proof -
  from quiet_encodes obtain block where e: "encodeBundle sample_lib quiet_bundle = Inr block" ..
  have "decodeBundle sample_lib quiet_block = Inr (lower_bundle quiet_bundle)"
    using decodeBundle_encode [OF sample_cbor_laws sample_b58_laws e] e by (simp add: quiet_block_def)
  moreover have "lower_bundle quiet_bundle = quiet_bundle"
    by (simp add: lower_bundle_def quiet_bundle_def sample_bundle_def)
  ultimately show ?thesis
    using decodeVoteMessage_bundle [OF sample_cbor_laws]
    by (simp add: msg_bundle_def sample_gate_def quiet_message_def parseBundle_def)
qed

lemma quiet_run:
  assumes "says quiet_bundle (Valid [])"
  obtains s where "(gate_step quiet_gate says)\<^sup>*\<^sup>* gate_start s" "gs_messages s = [(quiet_message, ''p'')]"
    "jget (gs_verdicts s) 0 = Some VAccept"
    "gs_calls s = [Admit (bundleCidForBytes sample_lib quiet_block) quiet_block quiet_bundle,
       OnAccept (bundleCidForBytes sample_lib quiet_block) quiet_bundle ''p'']"
    "isResignDuplicate (gc_lib quiet_gate) (gc_bucketMath quiet_gate) quiet_bundle (gs_dedup s)" "gs_heard s = []"
proof -
  have "snd (rate_allow (fst (gc_bundleRate quiet_gate)) (snd (gc_bundleRate quiet_gate)) 3 ''p'' (gs_bundleWindows gate_start))"
    "verdict_get (gc_lib quiet_gate) (bundleCidForBytes sample_lib quiet_block) (gs_cache gate_start) = None"
    "\<not> isResignDuplicate (gc_lib quiet_gate) (gc_bucketMath quiet_gate) quiet_bundle (gs_dedup gate_start)"
    by (simp_all add: gate_start_def rate_allow_def verdict_get_def isResignDuplicate_def dedup_empty_def)
  from gate_accepts_fresh [OF rtranclp.rtrancl_refl quiet_msg this, of says "[]", OF assms]
  obtain s where s: "(gate_step quiet_gate says)\<^sup>*\<^sup>* gate_start s" "gs_messages s = [(quiet_message, ''p'')]"
    "jget (gs_verdicts s) 0 = Some VAccept"
    "gs_calls s = [Admit (bundleCidForBytes sample_lib quiet_block) quiet_block quiet_bundle,
       OnAccept (bundleCidForBytes sample_lib quiet_block) quiet_bundle ''p'']"
    "gs_dedup s = dedup_record (gc_lib quiet_gate) (gc_bucketMath quiet_gate) (gc_dedupMax quiet_gate) quiet_bundle dedup_empty" "gs_heard s = []"
    by (auto simp: gate_start_def)
  moreover have "isResignDuplicate (gc_lib quiet_gate) (gc_bucketMath quiet_gate) quiet_bundle (gs_dedup s)"
    unfolding s(5) by (simp add: isResignDuplicate_def dedup_record_def dedup_add_def dedup_empty_def sadd_def sample_gate_def)
  ultimately show thesis using that by blast
qed

text \<open>C3: The gate's verdicts are justified, over all joins of a contest and whatever the other components of
  the engine write to the verdict cache they share with it. In every reachable state, a message the gate
  accepts is a well-formed root record within its size that was handed to the host, or a bundle within
  its size that the verification pipeline found valid: either the gate ran it, and admitted the exact
  block bytes, or another component did, and had cached that verdict for the CID. A message it rejects
  is provably bad: too large, malformed, or a bundle the verifier rejected for everyone.\<close>

theorem gossip_verdicts_justified:
  assumes "cid_laws (gc_lib C)" "(gate_step C says)\<^sup>*\<^sup>* gate_start s" "jget (gs_verdicts s) i = Some v"
  shows "\<exists>data peer. gs_messages s ! i = (data, peer) \<and>
    (v = VAccept \<longrightarrow>
       (\<exists>r. decodeVoteMessage (gc_lib C) data = Inr (MsgRoot r) \<and> length data \<le> gc_maxRootMessageBytes C \<and>
          OnRootRecord r peer \<in> set (gs_calls s)) \<or>
       (\<exists>bytes c b names. msg_bundle C data bytes c b \<and> says b (Valid names) \<and>
          (Admit c bytes b \<in> set (gs_calls s) \<or> (c, b, Valid names) \<in> set (gs_heard s)))) \<and>
    (v = VReject \<longrightarrow> malformed C data \<or>
       (\<exists>bytes c b why fs. msg_bundle C data bytes c b \<and> says b (Invalid Reject why fs)))"
proof -
  from gate_inv_reachable [OF assms(1,2)] assms(3)
  have vo: "verdict_ok C s (gs_messages s ! i) v" and mem: "memory_ok C says s" by (auto simp: gate_inv_def)
  obtain data peer where m: "gs_messages s ! i = (data, peer)" by fastforce
  have said: "says b w" if "(c, b, w) \<in> set (gs_said s) \<or> (c, b, w) \<in> set (gs_heard s)" for c b w
    using that memory_saidD [OF mem] memory_heardD [OF mem] by blast
  show ?thesis
    using vo m said unfolding verdict_ok_def accept_ok_def reject_ok_def by (cases v) fastforce+
qed

theorem gossip_verdicts_justified_witness:
  "\<exists>s :: gate_state. jget (gs_verdicts s) 0 = Some VAccept \<and> gs_messages s = [(quiet_message, ''p'')] \<and>
     (\<exists>c. Admit c quiet_block quiet_bundle \<in> set (gs_calls s))"
proof -
  obtain s where s: "(gate_step quiet_gate (\<lambda>b v. b = quiet_bundle \<and> v = Valid []))\<^sup>*\<^sup>* gate_start s"
    "gs_messages s = [(quiet_message, ''p'')]" "jget (gs_verdicts s) 0 = Some VAccept" "gs_heard s = []"
    using quiet_run [of "\<lambda>b v. b = quiet_bundle \<and> v = Valid []"] by auto
  have "cid_laws (gc_lib quiet_gate)" using sample_cid_laws by (simp add: sample_gate_def)
  from gossip_verdicts_justified [OF this s(1,3)] obtain data peer where m: "gs_messages s ! 0 = (data, peer)"
    "(\<exists>r. decodeVoteMessage (gc_lib quiet_gate) data = Inr (MsgRoot r) \<and> length data \<le> gc_maxRootMessageBytes quiet_gate \<and>
        OnRootRecord r peer \<in> set (gs_calls s)) \<or>
     (\<exists>bytes c b names. msg_bundle quiet_gate data bytes c b \<and> (b = quiet_bundle \<and> Valid names = Valid []) \<and>
        (Admit c bytes b \<in> set (gs_calls s) \<or> (c, b, Valid names) \<in> set (gs_heard s)))" by blast
  from m(1) s(2) have d: "data = quiet_message" by simp
  have dec: "decodeVoteMessage (gc_lib quiet_gate) quiet_message = Inr (MsgBundle quiet_block)"
    using quiet_msg by (simp only: msg_bundle_def)
  from m(2) obtain c where "Admit c quiet_block quiet_bundle \<in> set (gs_calls s)"
  proof (elim disjE exE conjE)
    fix r assume "decodeVoteMessage (gc_lib quiet_gate) data = Inr (MsgRoot r)"
    then show thesis unfolding d dec by simp
  next
    fix bytes c b names
    assume "msg_bundle quiet_gate data bytes c b" "b = quiet_bundle" "Admit c bytes b \<in> set (gs_calls s)"
    then show thesis unfolding msg_bundle_def d dec using that [of c] by simp
  next
    fix bytes c b names
    assume "(c, b, Valid names) \<in> set (gs_heard s)"
    then show thesis using s(4) by simp
  qed
  with s(2,3) show ?thesis by metis
qed

text \<open>Only eligible votes cross an honest hop. With the code's verifier behind the gate and behind what
  the other components cached, an accepted bundle carries a signature that recovers to its wallet over this contest, chain, votes and block,
  keeps the contest's count and range, and its wallet satisfied the gate when it was judged.\<close>

theorem gossip_forwards_only_eligible:
  assumes "cid_laws (gc_lib C)"
    and "(gate_step C (\<lambda>b v. \<exists>now st st'. verify V now b st = (st', Inr v)))\<^sup>*\<^sup>* gate_start s"
    and "jget (gs_verdicts s) i = Some VAccept"
    and "decodeVoteMessage (gc_lib C) (fst (gs_messages s ! i)) = Inr (MsgBundle bytes)"
  shows "\<exists>c b. parseBundle (gc_lib C) bytes = Inr (c, b) \<and>
    (Admit c bytes b \<in> set (gs_calls s) \<or> (\<exists>names. (c, b, Valid names) \<in> set (gs_heard s))) \<and>
    (\<exists>a. vf_recover V (ballotTypedData (vf_criteriaCid V) (vf_chainId V) (b_votes b) (b_blockNumber b))
       (sig_signature (b_signature b)) = Inr a \<and> to_lower a = to_lower (b_address b)) \<and>
    length (b_votes b) \<le> c_maxVotesPerAddress (vf_criteria V) \<and>
    (\<forall>v \<in> set (b_votes b). c_voteMin (vf_criteria V) \<le> v_vote v \<and> v_vote v \<le> c_voteMax (vf_criteria V)) \<and>
    (\<exists>r es. evaluateGate (c_gate (vf_criteria V)) (leaf_answer V (wallet_at V b)) False False = Inr (r, es) \<and> gr_sat r = Some True)"
proof -
  from gate_inv_reachable [OF assms(1,2)] assms(3)
  have vo: "verdict_ok C s (gs_messages s ! i) VAccept" and mem: "memory_ok C (\<lambda>b v. \<exists>now st st'. verify V now b st = (st', Inr v)) s"
    by (auto simp: gate_inv_def)
  from vo assms(4) obtain c b names where p: "parseBundle (gc_lib C) bytes = Inr (c, b)"
      "Admit c bytes b \<in> set (gs_calls s) \<or> (\<exists>names. (c, b, Valid names) \<in> set (gs_heard s))"
    and said: "(c, b, Valid names) \<in> set (gs_said s) \<or> (c, b, Valid names) \<in> set (gs_heard s)"
    by (auto simp: verdict_ok_def accept_ok_def msg_bundle_def)
  from said memory_saidD [OF mem] memory_heardD [OF mem]
  obtain now st st' where "verify V now b st = (st', Inr (Valid names))" by blast
  from verify_ValidD [OF this] show ?thesis
    using p unfolding offline_Valid signature_Valid constraints_Valid by blast
qed

theorem gossip_forwards_only_eligible_witness:
  "\<exists>(s :: gate_state) c. Admit c quiet_block quiet_bundle \<in> set (gs_calls s) \<and> jget (gs_verdicts s) 0 = Some VAccept"
proof -
  let ?V = "sample_verifier []"
  let ?says = "\<lambda>b v. \<exists>now st st'. verify ?V now b st = (st', Inr v)"
  have hex: "isHex (bytesToHex (replicate 65 1))" by (simp add: bytesToHex_def isHex_def)
  have off: "verifyOffline ?V quiet_bundle = Valid ()"
    using hex by (simp add: verifyOffline_def sample_verifier_def verifyBundleSignature_def checkBundleConstraints_def
        quiet_bundle_def sample_bundle_def EIP712_SIGNATURE_TYPE_def)
  have leaf: "leaf_answer ?V w 0 = Inr (RSuccess 1)" for w
    by (simp add: leaf_answer_def sample_verifier_def constant_rule_def constant_evaluate_def)
  have "c_gate (vf_criteria ?V) = GLeaf (RuleRef ''constant'' [])" by (simp add: sample_verifier_def sample_criteria_def)
  then have "verify ?V 0 quiet_bundle [] = ([], Inr (Valid []))"
    using off leaf by (simp add: verify_def evaluateGate_def quiet_bundle_def leaf_result_def gateFailure_def)
  then have "?says quiet_bundle (Valid [])" by blast
  from quiet_run [of ?says, OF this] obtain s where s: "(gate_step quiet_gate ?says)\<^sup>*\<^sup>* gate_start s"
    "gs_messages s = [(quiet_message, ''p'')]" "jget (gs_verdicts s) 0 = Some VAccept" "gs_heard s = []" by blast
  have "cid_laws (gc_lib quiet_gate)" using sample_cid_laws by (simp add: sample_gate_def)
  moreover have "decodeVoteMessage (gc_lib quiet_gate) (fst (gs_messages s ! 0)) = Inr (MsgBundle quiet_block)"
    using quiet_msg by (simp add: msg_bundle_def s(2))
  ultimately have "\<exists>c b. parseBundle (gc_lib quiet_gate) quiet_block = Inr (c, b) \<and> Admit c quiet_block b \<in> set (gs_calls s)"
    using gossip_forwards_only_eligible [of quiet_gate ?V s 0 quiet_block] s by fastforce
  then obtain c b where "parseBundle (gc_lib quiet_gate) quiet_block = Inr (c, b)" "Admit c quiet_block b \<in> set (gs_calls s)" by blast
  then have "Admit c quiet_block quiet_bundle \<in> set (gs_calls s)" using quiet_msg unfolding msg_bundle_def by simp
  with s(3) show ?thesis by metis
qed

text \<open>C22: A fresh valid vote goes through. From any reachable state, a well-formed bundle message of a
  peer within its rate, whose CID has no cached verdict and whose choice was not just accepted, and
  which the verifier finds valid, can be accepted: it is admitted once with its exact bytes, the host
  is told once, and it is forwarded.\<close>

theorem gossip_fresh_vote_accepted:
  assumes "(gate_step C says)\<^sup>*\<^sup>* gate_start s" "msg_bundle C data bytes c b"
    and "snd (rate_allow (fst (gc_bundleRate C)) (snd (gc_bundleRate C)) now peer (gs_bundleWindows s))"
    and "verdict_get (gc_lib C) c (gs_cache s) = None"
    and "\<not> isResignDuplicate (gc_lib C) (gc_bucketMath C) b (gs_dedup s)" "says b (Valid names)"
  shows "\<exists>s'. (gate_step C says)\<^sup>*\<^sup>* s s' \<and> gs_messages s' = gs_messages s @ [(data, peer)] \<and>
    jget (gs_verdicts s') (length (gs_messages s)) = Some VAccept \<and>
    gs_calls s' = gs_calls s @ [Admit c bytes b, OnAccept c b peer]"
  using gate_accepts_fresh [OF assms] by blast

theorem gossip_fresh_vote_accepted_witness:
  "\<exists>s'. (gate_step quiet_gate (\<lambda>_ _. True))\<^sup>*\<^sup>* gate_start s' \<and> jget (gs_verdicts s') 0 = Some VAccept"
proof -
  have "snd (rate_allow (fst (gc_bundleRate quiet_gate)) (snd (gc_bundleRate quiet_gate)) 3 ''p'' (gs_bundleWindows gate_start))"
    "verdict_get (gc_lib quiet_gate) (bundleCidForBytes sample_lib quiet_block) (gs_cache gate_start) = None"
    "\<not> isResignDuplicate (gc_lib quiet_gate) (gc_bucketMath quiet_gate) quiet_bundle (gs_dedup gate_start)"
    by (simp_all add: gate_start_def rate_allow_def verdict_get_def isResignDuplicate_def dedup_empty_def)
  from gossip_fresh_vote_accepted [OF rtranclp.rtrancl_refl quiet_msg this, of "\<lambda>_ _. True" "[]"]
  show ?thesis by (auto simp: gate_start_def)
qed

text \<open>No message is left without a verdict. In every reachable state each message received has its
  verdict or is still being validated; whatever its validation waits for, its deadline can end it with
  a verdict; and a verdict once given never changes, though the validation behind it may go on.\<close>

theorem gossip_always_answers:
  assumes "(gate_step C says)\<^sup>*\<^sup>* gate_start s" "i < length (gs_messages s)"
  shows "(jhas (gs_jobs s) i \<or> jhas (gs_verdicts s) i) \<and>
    (\<exists>s'. (gate_step C says)\<^sup>*\<^sup>* s s' \<and> jhas (gs_verdicts s') i) \<and>
    (\<forall>v s'. jget (gs_verdicts s) i = Some v \<longrightarrow> (gate_step C says)\<^sup>*\<^sup>* s s' \<longrightarrow> jget (gs_verdicts s') i = Some v)"
proof (intro conjI allI impI)
  from pending_reachable [OF assms(1)] assms(2) show p: "jhas (gs_jobs s) i \<or> jhas (gs_verdicts s) i"
    by (simp add: pending_ok_def)
  show "\<exists>s'. (gate_step C says)\<^sup>*\<^sup>* s s' \<and> jhas (gs_verdicts s') i"
  proof (cases "jhas (gs_verdicts s) i")
    case False
    with p have "gate_step C says s (gate_settle i VIgnore s)" by (intro expires) simp
    moreover have "jhas (gs_verdicts (gate_settle i VIgnore s)) i"
      using False by (simp add: gate_settle_def jhas_def jsmap_simps)
    ultimately show ?thesis by blast
  qed blast
next
  fix v s' assume v: "jget (gs_verdicts s) i = Some v" and r: "(gate_step C says)\<^sup>*\<^sup>* s s'"
  from r show "jget (gs_verdicts s') i = Some v" by (induction rule: rtranclp_induct) (auto intro: v step_keeps)
qed

theorem gossip_always_answers_witness:
  "\<exists>s'. (gate_step quiet_gate (\<lambda>_ _. False))\<^sup>*\<^sup>* (gate_receive quiet_gate 3 quiet_message ''p'' gate_start) s' \<and>
     jhas (gs_verdicts s') 0"
proof -
  let ?s = "gate_receive quiet_gate 3 quiet_message ''p'' gate_start"
  have "gate_step quiet_gate (\<lambda>_ _. False) gate_start ?s" by (rule receives)
  then have "(gate_step quiet_gate (\<lambda>_ _. False))\<^sup>*\<^sup>* gate_start ?s" by blast
  moreover have "0 < length (gs_messages ?s)"
    using quiet_msg by (auto simp: gate_receive_def msg_bundle_def Let_def gate_start_def gate_wait_for_def gate_settle_def split: prod.splits)
  ultimately show ?thesis using gossip_always_answers by blast
qed

text \<open>Dropping a re-signed vote loses nothing. If the re-sign filter of a reachable state matches a
  bundle, then a bundle of the same wallet, in the same bucket and with the same votes, was found valid,
  admitted and reported before. (The codec is canonical and the votes are safe integers, as decoding
  guarantees.)\<close>

theorem gossip_resign_drop_is_safe:
  assumes "cid_laws (gc_lib C)" "cbor_laws (gc_lib C)" "(gate_step C says)\<^sup>*\<^sup>* gate_start s"
    and "parseBundle (gc_lib C) bs = Inr (c, b)" "isResignDuplicate (gc_lib C) (gc_bucketMath C) b (gs_dedup s)"
  shows "\<exists>c' bytes b' f names. Admit c' bytes b' \<in> set (gs_calls s) \<and> OnAccept c' b' f \<in> set (gs_calls s) \<and>
    says b' (Valid names) \<and> to_lower (b_address b') = to_lower (b_address b) \<and>
    bucketForBlock (gc_bucketMath C) (b_blockNumber b') = bucketForBlock (gc_bucketMath C) (b_blockNumber b) \<and>
    b_votes b' = b_votes b"
proof -
  from gate_inv_reachable [OF assms(1,3)] have mem: "memory_ok C says s" by (simp add: gate_inv_def)
  from assms(5) memory_dedupD [OF mem] obtain c' b' f where a: "OnAccept c' b' f \<in> set (gs_calls s)"
    and k: "dedup_key (gc_lib C) (gc_bucketMath C) b' = dedup_key (gc_lib C) (gc_bucketMath C) b"
    unfolding isResignDuplicate_def by metis
  from memory_acceptD [OF mem a] obtain bytes where adm: "Admit c' bytes b' \<in> set (gs_calls s)" ..
  from memory_admitD [OF mem adm] obtain names where p: "parseBundle (gc_lib C) bytes = Inr (c', b')"
    and said: "(c', b', Valid names) \<in> set (gs_said s)" by blast
  have safe: "\<forall>v \<in> set (b_votes d). safe_int (v_vote v)" if "parseBundle (gc_lib C) x = Inr (e, d)" for x e d
    using that fromWireBundle_Inr(1) [of "gc_lib C" _ d]
    by (auto simp: parseBundle_def decodeBundle_def res_simps votes_bundle_ok_def vote_ok_def list_all_iff)
  from dedup_key_eq [OF assms(2) k safe [OF p] safe [OF assms(4)]] a adm memory_saidD [OF mem said] show ?thesis by metis
qed

theorem gossip_resign_drop_is_safe_witness:
  "\<exists>s :: gate_state. (\<exists>c' bytes b' f. Admit c' bytes b' \<in> set (gs_calls s) \<and> OnAccept c' b' f \<in> set (gs_calls s) \<and>
     b_votes b' = b_votes quiet_bundle)"
proof -
  obtain s where s: "(gate_step quiet_gate (\<lambda>_ _. True))\<^sup>*\<^sup>* gate_start s"
    "isResignDuplicate (gc_lib quiet_gate) (gc_bucketMath quiet_gate) quiet_bundle (gs_dedup s)"
    using quiet_run [of "\<lambda>_ _. True"] by blast
  have L: "cid_laws (gc_lib quiet_gate)" "cbor_laws (gc_lib quiet_gate)"
    using sample_cid_laws sample_cbor_laws by (simp_all add: sample_gate_def)
  from quiet_msg have p: "parseBundle (gc_lib quiet_gate) quiet_block = Inr (bundleCidForBytes sample_lib quiet_block, quiet_bundle)"
    by (simp only: msg_bundle_def)
  from gossip_resign_drop_is_safe [OF L s(1) p s(2)] show ?thesis by metis
qed

text \<open>A peer's rate is bounded. Over any stretch of calls whose times span less than one interval,
  whoever else calls in between, a peer is let through at most twice its limit (once, at least, per
  window).\<close>

theorem rate_limit_bound:
  assumes "rate_run limit intervalMs calls windows = (windows', oks)"
    and "\<forall>(peer, now) \<in> set calls. t \<le> now \<and> now < t + intervalMs"
  shows "allowed_of p calls oks \<le> 2 * max 1 limit"
proof -
  have "allowed_of p calls oks \<le> (case jget windows p of None \<Rightarrow> 0 | Some w \<Rightarrow> limit - rw_count w) + max 1 limit"
    by (rule rate_span [OF assms(1)]) (use assms(2) in blast)+
  also have "\<dots> \<le> 2 * max 1 limit" by (cases "jget windows p") auto
  finally show ?thesis .
qed

theorem rate_limit_bound_witness:
  "let calls = map (Pair ''p'') [7, 7, 8, 9, 11, 12, 13] in
   allowed_of ''p'' calls (snd (rate_run 2 10 calls [(''p'', \<lparr>rw_count = 0, rw_start = 0\<rparr>)])) \<le> 4"
proof -
  let ?calls = "map (Pair ''p'') [7, 7, 8, 9, 11, 12, 13 :: nat]"
  have "\<forall>(peer, now) \<in> set ?calls. 7 \<le> now \<and> now < 7 + 10" by simp
  from rate_limit_bound [of 2 10 ?calls "[(''p'', \<lparr>rw_count = 0, rw_start = 0\<rparr>)]", OF prod.collapse [symmetric] this, of "''p''"]
  show ?thesis by (simp add: Let_def)
qed

end
