(* ===== verification/Coalescer.thy ===== *)
theory Coalescer
  imports Rules
begin

text \<open>
  The read coalescer every contest on one chain shares (\<open>src/chain/coalescer.ts\<close>): pinned reads of
  one block gather for a window and go out as multicalls of bounded size, a read asked for while it
  is unanswered is asked once, and at most \<open>concurrency\<close> round trips are in flight. A promise is its
  index in the list of reads ever made; its answer is what it settled with.
\<close>

section \<open>State\<close>

definition CHAIN_READS_PER_MULTICALL :: nat where
  "CHAIN_READS_PER_MULTICALL = 200"

definition CHAIN_MULTICALL_CONCURRENCY :: nat where
  "CHAIN_MULTICALL_CONCURRENCY = 2"

definition CHAIN_CHUNK_RETRY_DELAY_MS :: nat where
  "CHAIN_CHUNK_RETRY_DELAY_MS = 500"

definition COALESCE_WINDOW_MS :: nat where
  "COALESCE_WINDOW_MS = 25"

record coalescer_options =
  readsPerCall :: nat
  concurrency :: nat

definition coalescer_defaults :: coalescer_options where
  "coalescer_defaults = \<lparr>readsPerCall = CHAIN_READS_PER_MULTICALL, concurrency = CHAIN_MULTICALL_CONCURRENCY\<rparr>"

text \<open>A contract read; \<open>encodeFunctionData\<close> is a parameter, \<open>None\<close> when it throws.\<close>

record 'c contract_read =
  cr_address :: string
  cr_call :: 'c

type_synonym read_key = "nat \<times> string \<times> string"

definition read_key :: "('c \<Rightarrow> string option) \<Rightarrow> 'c contract_read \<Rightarrow> nat \<Rightarrow> read_key option" where
  "read_key encode contract blockNumber =
     map_option (\<lambda>calldata. (blockNumber, to_lower (cr_address contract), calldata)) (encode (cr_call contract))"

datatype 'v read_outcome = Fulfilled 'v | Rejected js_error

text \<open>What holds a slot of the budget: a chunk of reads, with the attempts already failed, or a
  multicall passed through.\<close>

datatype round_trip = Chunk nat "nat list" nat | RawMulticall nat

record 'v coalescer =
  co_reads :: "read_key list"
  co_settled :: "(nat, 'v read_outcome) jsmap"
  co_groups :: "(nat, nat list) jsmap"
  co_inFlight :: "(read_key, nat) jsmap"
  co_active :: nat
  co_waiting :: "round_trip list"
  co_running :: "round_trip list"

definition coalescer_start :: "'v coalescer" where
  "coalescer_start = \<lparr>co_reads = [], co_settled = [], co_groups = [], co_inFlight = [], co_active = 0,
     co_waiting = [], co_running = []\<rparr>"

section \<open>The budget\<close>

definition co_attempt :: "coalescer_options \<Rightarrow> round_trip \<Rightarrow> 'v coalescer \<Rightarrow> 'v coalescer" where
  "co_attempt C t s =
     (if co_active s < concurrency C then s\<lparr>co_active := co_active s + 1, co_running := co_running s @ [t]\<rparr>
      else s\<lparr>co_waiting := co_waiting s @ [t]\<rparr>)"

definition co_acquire :: "coalescer_options \<Rightarrow> round_trip \<Rightarrow> 'v coalescer \<Rightarrow> 'v coalescer" where
  "co_acquire C t s = co_attempt C t s"

definition co_release :: "coalescer_options \<Rightarrow> round_trip \<Rightarrow> 'v coalescer \<Rightarrow> 'v coalescer" where
  "co_release C t s =
     (let s = s\<lparr>co_active := co_active s - 1, co_running := remove1 t (co_running s)\<rparr> in
      case co_waiting s of [] \<Rightarrow> s | next_trip # rest \<Rightarrow> co_attempt C next_trip (s\<lparr>co_waiting := rest\<rparr>))"

section \<open>Reads\<close>

definition flushGroup :: "coalescer_options \<Rightarrow> nat \<Rightarrow> 'v coalescer \<Rightarrow> 'v coalescer" where
  "flushGroup C blockKey s =
     (case jget (co_groups s) blockKey of
        None \<Rightarrow> s
      | Some reads \<Rightarrow>
          fold (\<lambda>chunk. co_acquire C (Chunk blockKey chunk 0)) (chunks_of (readsPerCall C) reads)
            (s\<lparr>co_groups := jdel blockKey (co_groups s)\<rparr>))"

text \<open>The promise of a read: shared with the same read in flight, new, or the raw client's own.\<close>

datatype 'c read_promise = Shared nat | Direct "'c contract_read" nat

definition enqueueRead :: "coalescer_options \<Rightarrow> ('c \<Rightarrow> string option) \<Rightarrow> 'c contract_read \<Rightarrow> nat \<Rightarrow> 'v coalescer \<Rightarrow> 'v coalescer \<times> 'c read_promise" where
  "enqueueRead C encode contract blockNumber s =
     (case read_key encode contract blockNumber of
        None \<Rightarrow> (s, Direct contract blockNumber)
      | Some key \<Rightarrow>
          (case jget (co_inFlight s) key of
             Some existing \<Rightarrow> (s, Shared existing)
           | None \<Rightarrow>
               let read = length (co_reads s);
                   reads = (case jget (co_groups s) blockNumber of None \<Rightarrow> [] | Some reads \<Rightarrow> reads) @ [read];
                   s = s\<lparr>co_reads := co_reads s @ [key], co_inFlight := jset key read (co_inFlight s),
                         co_groups := jset blockNumber reads (co_groups s)\<rparr>
               in (if readsPerCall C \<le> length reads then flushGroup C blockNumber s else s, Shared read)))"

text \<open>\<open>readContract\<close>: only a plain read pinned to a block is coalesced.\<close>

definition co_readContract ::
  "coalescer_options \<Rightarrow> ('c \<Rightarrow> string option) \<Rightarrow> 'c contract_read \<Rightarrow> nat option \<Rightarrow> bool \<Rightarrow> 'v coalescer \<Rightarrow> 'v coalescer \<times> 'c read_promise option" where
  "co_readContract C encode contract blockNumber plain s =
     (case blockNumber of
        Some b \<Rightarrow> if plain then (case enqueueRead C encode contract b s of (s, p) \<Rightarrow> (s, Some p)) else (s, None)
      | None \<Rightarrow> (s, None))"

fun enqueueReads ::
  "coalescer_options \<Rightarrow> ('c \<Rightarrow> string option) \<Rightarrow> 'c contract_read list \<Rightarrow> nat \<Rightarrow> 'v coalescer \<Rightarrow> 'v coalescer \<times> 'c read_promise list" where
  "enqueueReads C encode [] blockNumber s = (s, [])"
| "enqueueReads C encode (contract # contracts) blockNumber s =
     (case enqueueRead C encode contract blockNumber s of
        (s, p) \<Rightarrow> case enqueueReads C encode contracts blockNumber s of (s, ps) \<Rightarrow> (s, p # ps))"

text \<open>\<open>multicall\<close>: pinned, it becomes reads of the pool; otherwise it goes through raw, under the budget.\<close>

definition co_multicall ::
  "coalescer_options \<Rightarrow> ('c \<Rightarrow> string option) \<Rightarrow> 'c contract_read list \<Rightarrow> nat option \<Rightarrow> bool \<Rightarrow> nat \<Rightarrow> 'v coalescer \<Rightarrow>
     'v coalescer \<times> 'c read_promise list option" where
  "co_multicall C encode contracts blockNumber plain ticket s =
     (case blockNumber of
        Some b \<Rightarrow>
          if plain then (case enqueueReads C encode contracts b s of (s, ps) \<Rightarrow> (s, Some ps))
          else (co_acquire C (RawMulticall ticket) s, None)
      | None \<Rightarrow> (co_acquire C (RawMulticall ticket) s, None))"

text \<open>What a decomposed multicall resolves to once all its reads have settled.\<close>

definition multicall_result :: "bool \<Rightarrow> 'v read_outcome list \<Rightarrow> 'v read_outcome list res" where
  "multicall_result allowFailure settled =
     (if allowFailure then Inr settled
      else case List.find (\<lambda>o'. case o' of Rejected _ \<Rightarrow> True | Fulfilled _ \<Rightarrow> False) settled of
        Some (Rejected e) \<Rightarrow> Inl e
      | _ \<Rightarrow> Inr settled)"

section \<open>Round trips\<close>

definition co_settle :: "nat \<Rightarrow> 'v read_outcome \<Rightarrow> 'v coalescer \<Rightarrow> 'v coalescer" where
  "co_settle i outcome s =
     (if jhas (co_settled s) i then s else s\<lparr>co_settled := jset i outcome (co_settled s)\<rparr>)"

definition outcome_at :: "'v read_outcome list \<Rightarrow> nat \<Rightarrow> 'v read_outcome" where
  "outcome_at results i =
     (if i < length results then results ! i
      else Rejected (PlainError ''multicall returned no result for this read''))"

text \<open>The multicall of a running chunk returns, or throws: the first throw is retried after a pause.\<close>

definition chunk_returns ::
  "coalescer_options \<Rightarrow> 'v read_outcome list res \<Rightarrow> nat \<Rightarrow> nat list \<Rightarrow> nat \<Rightarrow> 'v coalescer \<Rightarrow> 'v coalescer" where
  "chunk_returns C answer blockNumber reads attempt s =
     (case answer of
        Inl e \<Rightarrow>
          if attempt = 0
          then s\<lparr>co_running := map (\<lambda>t. if t = Chunk blockNumber reads 0 then Chunk blockNumber reads 1 else t) (co_running s)\<rparr>
          else let s = fold (\<lambda>i. co_settle i (Rejected e)) reads s;
                   s = co_release C (Chunk blockNumber reads attempt) s
               in s\<lparr>co_inFlight := fold (\<lambda>i. jdel (co_reads s ! i)) reads (co_inFlight s)\<rparr>
      | Inr results \<Rightarrow>
          let s = fold (\<lambda>k. co_settle (reads ! k) (outcome_at results k)) [0..<length reads] s;
              s = co_release C (Chunk blockNumber reads attempt) s
          in s\<lparr>co_inFlight := fold (\<lambda>i. jdel (co_reads s ! i)) reads (co_inFlight s)\<rparr>)"

text \<open>The steps: reads and multicalls arrive, a block's window closes, a round trip comes back.
  \<open>chain\<close> tells which answers the chain may give to a read.\<close>

inductive co_step ::
  "coalescer_options \<Rightarrow> ('c \<Rightarrow> string option) \<Rightarrow> (read_key \<Rightarrow> 'v read_outcome \<Rightarrow> bool) \<Rightarrow> 'v coalescer \<Rightarrow> 'v coalescer \<Rightarrow> bool"
  for C encode chain where
  reads: "co_step C encode chain s (fst (co_readContract C encode contract blockNumber plain s))"
| multicalls: "co_step C encode chain s (fst (co_multicall C encode contracts blockNumber plain ticket s))"
| window: "co_step C encode chain s (flushGroup C blockKey s)"
| returns: "Chunk b ids attempt \<in> set (co_running s) \<Longrightarrow>
    (case answer of Inl _ \<Rightarrow> True | Inr results \<Rightarrow>
       \<forall>k < min (length results) (length ids). chain (co_reads s ! (ids ! k)) (results ! k)) \<Longrightarrow>
    co_step C encode chain s (chunk_returns C answer b ids attempt s)"
| raw_returns: "RawMulticall ticket \<in> set (co_running s) \<Longrightarrow>
    co_step C encode chain s (co_release C (RawMulticall ticket) s)"

section \<open>Wrapping clients\<close>

text \<open>Without a known multicall3 deployment the client passes through; one wrapper per client, so that
  every contest on a chain shares its pool.\<close>

definition coalescingChainClient :: "('k \<Rightarrow> bool) \<Rightarrow> ('k \<Rightarrow> bool) \<Rightarrow> ('k \<Rightarrow> 'k) \<Rightarrow> 'k \<Rightarrow> 'k" where
  "coalescingChainClient hasMulticall hasMulticall3 wrap client =
     (if \<not> hasMulticall client \<or> \<not> hasMulticall3 client then client else wrap client)"

definition coalescingChainFactory ::
  "('a \<Rightarrow> 'k option) \<Rightarrow> ('k \<Rightarrow> 'k) \<Rightarrow> 'a \<Rightarrow> ('k, 'k) jsmap \<Rightarrow> ('k, 'k) jsmap \<times> 'k option" where
  "coalescingChainFactory factory coalesce args wrapped =
     (case factory args of
        None \<Rightarrow> (wrapped, None)
      | Some client \<Rightarrow>
          (case jget wrapped client of
             Some coalesced \<Rightarrow> (wrapped, Some coalesced)
           | None \<Rightarrow> let coalesced = coalesce client in (jset client coalesced wrapped, Some coalesced)))"

section \<open>No read is lost, doubled or misdelivered\<close>

fun trip_ids :: "round_trip \<Rightarrow> nat list" where
  "trip_ids (Chunk b ids attempt) = ids"
| "trip_ids (RawMulticall ticket) = []"

definition co_trips :: "'v coalescer \<Rightarrow> round_trip list" where
  "co_trips s = co_waiting s @ co_running s"

definition co_ids :: "'v coalescer \<Rightarrow> nat list" where
  "co_ids s = concat (jvalues (co_groups s)) @ concat (map trip_ids (co_trips s))"

definition unsettled :: "'v coalescer \<Rightarrow> nat \<Rightarrow> bool" where
  "unsettled s i \<longleftrightarrow> i < length (co_reads s) \<and> \<not> jhas (co_settled s) i"

definition budget_ok :: "coalescer_options \<Rightarrow> 'v coalescer \<Rightarrow> bool" where
  "budget_ok C s \<longleftrightarrow> co_active s = length (co_running s) \<and> co_active s \<le> concurrency C \<and>
     (co_waiting s \<noteq> [] \<longrightarrow> co_active s = concurrency C)"

definition trip_ok :: "coalescer_options \<Rightarrow> read_key list \<Rightarrow> round_trip \<Rightarrow> bool" where
  "trip_ok C reads t \<longleftrightarrow>
     (case t of
        Chunk b ids attempt \<Rightarrow> ids \<noteq> [] \<and> length ids \<le> readsPerCall C \<and> attempt \<le> 1 \<and> (\<forall>i \<in> set ids. fst (reads ! i) = b)
      | RawMulticall ticket \<Rightarrow> True)"

definition group_ok :: "read_key list \<Rightarrow> nat \<Rightarrow> nat list \<Rightarrow> bool" where
  "group_ok reads b ids \<longleftrightarrow> ids \<noteq> [] \<and> (\<forall>i \<in> set ids. fst (reads ! i) = b)"

definition co_inv :: "coalescer_options \<Rightarrow> 'v coalescer \<Rightarrow> bool" where
  "co_inv C s \<longleftrightarrow> budget_ok C s \<and>
     mset (co_ids s) = mset (filter (\<lambda>i. \<not> jhas (co_settled s) i) [0..<length (co_reads s)]) \<and>
     (\<forall>k i. jget (co_inFlight s) k = Some i \<longleftrightarrow> unsettled s i \<and> co_reads s ! i = k) \<and>
     (\<forall>t \<in> set (co_trips s). trip_ok C (co_reads s) t) \<and>
     jwf (co_groups s) \<and> (\<forall>(b, ids) \<in> set (co_groups s). group_ok (co_reads s) b ids) \<and>
     (\<forall>i. jhas (co_settled s) i \<longrightarrow> i < length (co_reads s))"

lemma co_inv_ids: "co_inv C s \<Longrightarrow> distinct (co_ids s) \<and> set (co_ids s) = {i. unsettled s i}"
  using mset_eq_imp_distinct_iff [of "co_ids s" "filter (\<lambda>i. \<not> jhas (co_settled s) i) [0..<length (co_reads s)]"]
    mset_eq_setD [of "co_ids s" "filter (\<lambda>i. \<not> jhas (co_settled s) i) [0..<length (co_reads s)]"]
  by (auto simp: co_inv_def unsettled_def)

text \<open>The budget's operations move round trips only.\<close>

definition same_reads :: "'v coalescer \<Rightarrow> 'v coalescer \<Rightarrow> bool" where
  "same_reads s s' \<longleftrightarrow> co_reads s' = co_reads s \<and> co_settled s' = co_settled s \<and> co_groups s' = co_groups s \<and>
     co_inFlight s' = co_inFlight s"

lemma attempt_spec:
  assumes "budget_ok C s"
  shows "budget_ok C (co_attempt C t s)" "same_reads s (co_attempt C t s)"
    "mset (co_trips (co_attempt C t s)) = add_mset t (mset (co_trips s))"
  using assms by (auto simp: co_attempt_def budget_ok_def same_reads_def co_trips_def)

lemma acquires_spec:
  "budget_ok C s \<Longrightarrow> budget_ok C (fold (\<lambda>x. co_acquire C (f x)) xs s) \<and> same_reads s (fold (\<lambda>x. co_acquire C (f x)) xs s) \<and>
     mset (co_trips (fold (\<lambda>x. co_acquire C (f x)) xs s)) = mset (co_trips s) + mset (map f xs)"
proof (induction xs arbitrary: s)
  case (Cons x xs)
  from Cons.IH [of "co_attempt C (f x) s"] attempt_spec [OF Cons.prems, of "f x"] show ?case
    by (auto simp: co_acquire_def same_reads_def)
qed (simp add: same_reads_def)

lemma release_spec:
  assumes "budget_ok C s" "t \<in> set (co_running s)"
  shows "budget_ok C (co_release C t s)" "same_reads s (co_release C t s)"
    "add_mset t (mset (co_trips (co_release C t s))) = mset (co_trips s)"
proof -
  have len: "length (remove1 t (co_running s)) = co_active s - 1" "0 < co_active s"
    using assms by (auto simp: budget_ok_def length_remove1 intro: length_pos_if_in_set)
  have m: "add_mset t (mset (remove1 t (co_running s))) = mset (co_running s)" using assms(2) by simp
  show "budget_ok C (co_release C t s)" "same_reads s (co_release C t s)"
    using assms(1) len by (auto simp: co_release_def co_attempt_def budget_ok_def same_reads_def Let_def split: list.splits)
  show "add_mset t (mset (co_trips (co_release C t s))) = mset (co_trips s)"
    using m by (cases "co_waiting s") (auto simp: co_release_def co_attempt_def co_trips_def Let_def)
qed

lemma ids_of_trips: "mset (concat (map trip_ids ts)) = sum_mset (image_mset (mset \<circ> trip_ids) (mset ts))"
  by (induction ts) auto

text \<open>A state with the same reads and the same unanswered ones, spread over sound round trips and groups.\<close>

lemma co_inv_transfer:
  assumes "co_inv C s" "co_reads s' = co_reads s" "co_settled s' = co_settled s" "co_inFlight s' = co_inFlight s"
    and "budget_ok C s'" "mset (co_ids s') = mset (co_ids s)" "\<forall>t \<in> set (co_trips s'). trip_ok C (co_reads s) t"
    and "jwf (co_groups s')" "\<forall>(b, ids) \<in> set (co_groups s'). group_ok (co_reads s) b ids"
  shows "co_inv C s'"
  using assms by (simp add: co_inv_def unsettled_def)

lemma filter_other_keys: "k \<notin> fst ` set m \<Longrightarrow> filter (\<lambda>kv. fst kv \<noteq> k) m = m"
  by (auto simp: filter_id_conv)

lemma jvalues_take:
  assumes "jwf m" "jget m k = Some v"
  shows "mset (concat (jvalues m)) = mset (concat (jvalues (jdel k m))) + mset v"
  using assms
proof (induction m)
  case (Cons p m)
  then show ?case
    by (cases p) (auto simp: jwf_Cons jdel_filter filter_other_keys)
qed simp

lemma co_invD:
  assumes "co_inv C s"
  shows "budget_ok C s" "mset (co_ids s) = mset (filter (\<lambda>i. \<not> jhas (co_settled s) i) [0..<length (co_reads s)])"
    "jget (co_inFlight s) k = Some i \<longleftrightarrow> unsettled s i \<and> co_reads s ! i = k"
    "t \<in> set (co_trips s) \<Longrightarrow> trip_ok C (co_reads s) t" "jwf (co_groups s)"
    "(b, ids) \<in> set (co_groups s) \<Longrightarrow> group_ok (co_reads s) b ids" "jhas (co_settled s) j \<Longrightarrow> j < length (co_reads s)"
  using assms unfolding co_inv_def by blast+

lemma groups_frame [simp]:
  "co_trips (s\<lparr>co_groups := g\<rparr>) = co_trips s" "budget_ok C (s\<lparr>co_groups := g\<rparr>) = budget_ok C s"
  "co_trips (s\<lparr>co_inFlight := f\<rparr>) = co_trips s" "budget_ok C (s\<lparr>co_inFlight := f\<rparr>) = budget_ok C s"
  "co_trips (s\<lparr>co_reads := r\<rparr>) = co_trips s" "budget_ok C (s\<lparr>co_reads := r\<rparr>) = budget_ok C s"
  by (simp_all add: co_trips_def budget_ok_def)

lemma flush_inv:
  assumes "co_inv C s" "0 < readsPerCall C"
  shows "co_inv C (flushGroup C b s)"
proof (cases "jget (co_groups s) b")
  case None
  with assms(1) show ?thesis by (simp add: flushGroup_def)
next
  case (Some ids)
  let ?s = "s\<lparr>co_groups := jdel b (co_groups s)\<rparr>" and ?cs = "chunks_of (readsPerCall C) ids"
  let ?t = "fold (\<lambda>chunk. co_acquire C (Chunk b chunk 0)) ?cs ?s"
  note D = co_invD [OF assms(1)]
  from D(1) have "budget_ok C ?s" by simp
  note a = acquires_spec [OF this, of "\<lambda>chunk. Chunk b chunk 0" ?cs]
  from D(6) [OF jget_SomeD [OF Some]] have gb: "group_ok (co_reads s) b ids" .
  have trips: "mset (co_trips ?t) = mset (co_trips s) + mset (map (\<lambda>c. Chunk b c 0) ?cs)" using a by simp
  have same: "same_reads ?s ?t" using a by blast
  have chunk: "trip_ok C (co_reads s) (Chunk b c 0)" if "c \<in> set ?cs" for c
  proof -
    have "set c \<subseteq> set ids" using that concat_chunks_of [OF assms(2), of ids] by (metis UN_upper set_concat)
    with chunks_of_bound [OF that] gb show ?thesis by (auto simp: trip_ok_def group_ok_def)
  qed
  have "co_inv C ?t"
  proof (rule co_inv_transfer [OF assms(1)])
    show "budget_ok C ?t" using a by blast
    show "\<forall>t \<in> set (co_trips ?t). trip_ok C (co_reads s) t"
    proof
      fix t assume "t \<in> set (co_trips ?t)"
      then have "t \<in># mset (co_trips s) + mset (map (\<lambda>c. Chunk b c 0) ?cs)" using trips by (metis set_mset_mset)
      then show "trip_ok C (co_reads s) t" using D(4) chunk by auto
    qed
    have "mset (concat (map trip_ids (co_trips ?t))) = mset (concat (map trip_ids (co_trips s))) + mset ids"
      unfolding ids_of_trips trips using concat_chunks_of [OF assms(2), of ids]
      by (simp add: comp_def flip: mset_map) (metis mset_concat sum_mset_sum_list)
    then show "mset (co_ids ?t) = mset (co_ids s)"
      using jvalues_take [OF D(5) Some] same by (simp add: co_ids_def same_reads_def del: mset_concat)
    show "\<forall>(b, ids) \<in> set (co_groups ?t). group_ok (co_reads s) b ids" "jwf (co_groups ?t)"
      using D(5,6) same by (auto simp: same_reads_def jdel_filter)
  qed (use same in \<open>simp_all add: same_reads_def\<close>)
  with Some show ?thesis by (simp add: flushGroup_def)
qed

lemma jvalues_jset:
  "jwf m \<Longrightarrow> mset (concat (jvalues (jset k ((case jget m k of None \<Rightarrow> [] | Some v \<Rightarrow> v) @ [x]) m))) =
     add_mset x (mset (concat (jvalues m)))"
  by (induction m) (auto simp: jwf_Cons)

lemma read_key_block: "read_key encode contract b = Some key \<Longrightarrow> fst key = b"
  by (auto simp: read_key_def)

lemma enqueue_inv:
  assumes inv: "co_inv C s" and R: "0 < readsPerCall C"
  shows "co_inv C (fst (enqueueRead C encode contract b s))"
proof (cases "read_key encode contract b")
  case None
  with inv show ?thesis by (simp add: enqueueRead_def)
next
  case (Some key)
  note D = co_invD [OF inv]
  show ?thesis
  proof (cases "jget (co_inFlight s) key")
    case existing: (Some i)
    with Some inv show ?thesis by (simp add: enqueueRead_def)
  next
    case new: None
    let ?i = "length (co_reads s)"
    let ?ids = "(case jget (co_groups s) b of None \<Rightarrow> [] | Some reads \<Rightarrow> reads) @ [?i]"
    let ?s = "s\<lparr>co_reads := co_reads s @ [key], co_inFlight := jset key ?i (co_inFlight s),
                co_groups := jset b ?ids (co_groups s)\<rparr>"
    have ids: "set (co_ids s) = {i. unsettled s i}" using co_inv_ids [OF inv] by blast
    have free: "\<not> jhas (co_settled s) ?i" using D(7) by blast
    have nth: "(co_reads s @ [key]) ! i = co_reads s ! i" if "i \<in> set (co_ids s)" for i
      using that ids by (simp add: unsettled_def nth_append)
    have "co_inv C ?s"
      unfolding co_inv_def
    proof (intro conjI, goal_cases)
      case 1
      with D(1) show ?case by simp
    next
      case 2
      show ?case using D(2) jvalues_jset [OF D(5), of b ?i] free
        by (simp add: co_ids_def co_trips_def del: mset_concat)
    next
      case 3
      show ?case
      proof (intro allI)
        fix k i
        have "\<not> (unsettled s i \<and> co_reads s ! i = key)" using D(3) [of key i] new by simp
        then show "jget (co_inFlight ?s) k = Some i \<longleftrightarrow> unsettled ?s i \<and> co_reads ?s ! i = k"
          using D(3) [of k i] free by (auto simp: jsmap_simps unsettled_def nth_append less_Suc_eq)
      qed
    next
      case 4
      have "trip_ok C (co_reads s @ [key]) t" if "t \<in> set (co_trips s)" for t
      proof -
        from that have "set (trip_ids t) \<subseteq> set (co_ids s)" by (auto simp: co_ids_def)
        with D(4) [OF that] nth show ?thesis by (cases t) (auto simp: trip_ok_def subset_iff)
      qed
      then show ?case by (simp add: co_trips_def)
    next
      case 5
      with D(5) show ?case by auto
    next
      case 6
      have old: "group_ok (co_reads s @ [key]) c js" if "(c, js) \<in> set (co_groups s)" for c js
      proof -
        from that have "set js \<subseteq> set (co_ids s)" by (force simp: co_ids_def)
        with D(6) [OF that] nth show ?thesis by (auto simp: group_ok_def subset_iff)
      qed
      have "group_ok (co_reads s @ [key]) b ?ids"
      proof (cases "jget (co_groups s) b")
        case (Some js)
        with read_key_block [OF \<open>read_key encode contract b = Some key\<close>] old [OF jget_SomeD [OF Some]]
        show ?thesis by (auto simp: group_ok_def nth_append)
      qed (use read_key_block [OF Some] in \<open>simp add: group_ok_def\<close>)
      with old set_jset_subset [of b ?ids "co_groups s"] show ?case by auto
    next
      case 7
      show ?case using D(7) by (auto intro: less_SucI)
    qed
    with flush_inv [OF this R, of b] Some new show ?thesis
      by (simp add: enqueueRead_def Let_def)
  qed
qed

lemma settle_fields [simp]:
  "co_reads (co_settle i o' s) = co_reads s" "co_groups (co_settle i o' s) = co_groups s"
  "co_inFlight (co_settle i o' s) = co_inFlight s" "co_trips (co_settle i o' s) = co_trips s"
  "co_running (co_settle i o' s) = co_running s" "budget_ok C (co_settle i o' s) = budget_ok C s"
  by (simp_all add: co_settle_def co_trips_def budget_ok_def)

lemma settles_fields [simp]:
  "co_reads (fold (\<lambda>k. co_settle (f k) (g k)) ks s) = co_reads s" "co_groups (fold (\<lambda>k. co_settle (f k) (g k)) ks s) = co_groups s"
  "co_inFlight (fold (\<lambda>k. co_settle (f k) (g k)) ks s) = co_inFlight s" "co_trips (fold (\<lambda>k. co_settle (f k) (g k)) ks s) = co_trips s"
  "co_running (fold (\<lambda>k. co_settle (f k) (g k)) ks s) = co_running s" "budget_ok C (fold (\<lambda>k. co_settle (f k) (g k)) ks s) = budget_ok C s"
  by (induction ks arbitrary: s) simp_all

text \<open>A promise settles once: its first answer stands.\<close>

lemma jget_settles:
  "distinct (map f ks) \<Longrightarrow> jget (co_settled (fold (\<lambda>k. co_settle (f k) (g k)) ks s)) i =
     (case jget (co_settled s) i of Some o' \<Rightarrow> Some o' | None \<Rightarrow> map_option g (List.find (\<lambda>k. f k = i) ks))"
proof (induction ks arbitrary: s)
  case (Cons k ks)
  have "List.find (\<lambda>k'. f k' = f k) ks = None" using Cons.prems by (auto simp: find_None_iff) (metis image_eqI)
  with Cons show ?case by (auto simp: co_settle_def jhas_def jsmap_simps split: option.splits)
qed (simp split: option.splits)

text \<open>The end of a chunk: its promises settle, its slot goes to the next round trip, its keys are free.\<close>

definition chunk_done :: "coalescer_options \<Rightarrow> (nat \<Rightarrow> 'v read_outcome) \<Rightarrow> nat \<Rightarrow> nat list \<Rightarrow> nat \<Rightarrow> 'v coalescer \<Rightarrow> 'v coalescer" where
  "chunk_done C g b ids attempt s =
     (let s = co_release C (Chunk b ids attempt) (fold (\<lambda>k. co_settle (ids ! k) (g k)) [0..<length ids] s)
      in s\<lparr>co_inFlight := fold (\<lambda>i. jdel (co_reads s ! i)) ids (co_inFlight s)\<rparr>)"

lemma fold_nths: "fold f xs s = fold (\<lambda>k. f (xs ! k)) [0..<length xs] s"
  using arg_cong [OF map_nth [of xs], of "\<lambda>ys. fold f ys s"] by (simp add: fold_map comp_def)

lemma chunk_returns_done:
  "chunk_returns C (Inr results) b ids attempt s = chunk_done C (outcome_at results) b ids attempt s"
  "attempt \<noteq> 0 \<Longrightarrow> chunk_returns C (Inl e) b ids attempt s = chunk_done C (\<lambda>_. Rejected e) b ids attempt s"
  by (simp_all add: chunk_returns_def chunk_done_def Let_def fold_nths [of _ ids s])

lemma jget_jdels: "jget (fold (\<lambda>i. jdel (h i)) xs m) k = (if k \<in> h ` set xs then None else jget m k)"
  by (induction xs arbitrary: m) (auto simp: jsmap_simps)

lemma done_inv:
  assumes inv: "co_inv C s" and t: "Chunk b ids attempt \<in> set (co_running s)"
  shows "co_inv C (chunk_done C g b ids attempt s)"
proof -
  note D = co_invD [OF inv] and I = co_inv_ids [OF inv]
  let ?s0 = "fold (\<lambda>k. co_settle (ids ! k) (g k)) [0..<length ids] s"
  let ?t = "Chunk b ids attempt"
  let ?s1 = "co_release C ?t ?s0"
  let ?s2 = "?s1\<lparr>co_inFlight := fold (\<lambda>i. jdel (co_reads ?s1 ! i)) ids (co_inFlight ?s1)\<rparr>"
  from D(1) t have "budget_ok C ?s0" "?t \<in> set (co_running ?s0)" by simp_all
  note r = release_spec [OF this]
  have same: "co_reads ?s1 = co_reads s" "co_groups ?s1 = co_groups s" "co_inFlight ?s1 = co_inFlight s"
    "co_settled ?s1 = co_settled ?s0" using r(2) by (simp_all add: same_reads_def)
  have trips: "add_mset ?t (mset (co_trips ?s1)) = mset (co_trips s)" using r(3) by simp
  have "mset (concat (map trip_ids (co_trips s))) = mset (concat (map trip_ids (co_trips ?s1))) + mset ids"
    unfolding ids_of_trips using trips [symmetric] by (simp add: comp_def)
  then have bag: "mset (co_ids s) = mset (co_ids ?s2 @ ids)"
    using same(2) by (simp add: co_ids_def co_trips_def del: mset_concat)
  then have d: "distinct (co_ids ?s2 @ ids)" "set (co_ids ?s2 @ ids) = {i. unsettled s i}"
    using I mset_eq_imp_distinct_iff [OF bag] mset_eq_setD [OF bag] by simp_all
  have ids: "distinct ids" "\<And>i. i \<in> set ids \<Longrightarrow> unsettled s i" using d by auto
  have settled: "jhas (co_settled ?s0) i \<longleftrightarrow> jhas (co_settled s) i \<or> i \<in> set ids" for i
  proof -
    have "map (\<lambda>k. ids ! k) [0..<length ids] = ids" by (rule map_nth)
    with ids(1) have dd: "distinct (map (\<lambda>k. ids ! k) [0..<length ids])" by simp
    have "List.find (\<lambda>k. ids ! k = i) [0..<length ids] \<noteq> None \<longleftrightarrow> i \<in> set ids"
      by (auto simp: find_None_iff in_set_conv_nth)
    then show ?thesis
      unfolding jhas_def jget_settles [OF dd, of g s i] by (auto split: option.splits)
  qed
  have uns: "unsettled ?s2 i \<longleftrightarrow> unsettled s i \<and> i \<notin> set ids" for i
    using settled [of i] by (auto simp: unsettled_def same)
  have "co_inv C ?s2"
    unfolding co_inv_def
  proof (intro conjI, goal_cases)
    case 1
    show ?case using r(1) by simp
  next
    case 2
    have "set (co_ids ?s2) = set (filter (\<lambda>i. \<not> jhas (co_settled ?s2) i) [0..<length (co_reads ?s2)])"
      using d uns by (auto simp: unsettled_def)
    then show ?case using d(1) by (subst set_eq_iff_mset_eq_distinct [symmetric]) auto
  next
    case 3
    show ?case
    proof (intro allI)
      fix k i
      have "jget (co_inFlight ?s2) k = Some i \<longleftrightarrow> unsettled s i \<and> co_reads s ! i = k \<and> k \<notin> (!) (co_reads s) ` set ids"
        using D(3) by (simp add: jget_jdels same)
      also have "\<dots> \<longleftrightarrow> unsettled ?s2 i \<and> co_reads ?s2 ! i = k"
      proof -
        have "i = j" if "unsettled s i" "unsettled s j" "co_reads s ! i = co_reads s ! j" for j
          using D(3) [of "co_reads s ! i" i] D(3) [of "co_reads s ! i" j] that by simp
        with ids(2) show ?thesis unfolding uns by (auto simp: same)
      qed
      finally show "jget (co_inFlight ?s2) k = Some i \<longleftrightarrow> unsettled ?s2 i \<and> co_reads ?s2 ! i = k" .
    qed
  next
    case 4
    have "set (co_trips ?s1) \<subseteq> set (co_trips s)" using trips by (metis set_mset_mset set_mset_add_mset_insert subset_insertI)
    with D(4) show ?case by (auto simp: same)
  next
    case 5
    show ?case using D(5) by (simp add: same)
  next
    case 6
    show ?case using D(6) by (auto simp: same)
  next
    case 7
    show ?case using D(7) settled ids(2) by (auto simp: same unsettled_def)
  qed
  then show ?thesis by (simp add: chunk_done_def Let_def)
qed

lemma enqueues_inv:
  "co_inv C s \<Longrightarrow> 0 < readsPerCall C \<Longrightarrow> co_inv C (fst (enqueueReads C encode contracts b s))"
proof (induction contracts arbitrary: s)
  case (Cons contract contracts)
  obtain t p where t: "enqueueRead C encode contract b s = (t, p)" by fastforce
  obtain u ps where u: "enqueueReads C encode contracts b t = (u, ps)" by fastforce
  from enqueue_inv [OF Cons.prems, of encode contract b] have "co_inv C t" by (simp add: t)
  from Cons.IH [OF this Cons.prems(2)] show ?case by (simp add: t u)
qed simp

lemma acquire_inv:
  assumes "co_inv C s" "trip_ids t = []" "trip_ok C (co_reads s) t"
  shows "co_inv C (co_acquire C t s)"
proof -
  note D = co_invD [OF assms(1)] and a = attempt_spec [OF co_invD(1) [OF assms(1)], of t]
  have "set (co_trips (co_attempt C t s)) = insert t (set (co_trips s))"
    using a(3) by (metis set_mset_add_mset_insert set_mset_mset)
  moreover have "mset (concat (map trip_ids (co_trips (co_attempt C t s)))) = mset (concat (map trip_ids (co_trips s)))"
    unfolding ids_of_trips a(3) using assms(2) by simp
  ultimately show ?thesis
    using a(1,2) D(4-6) assms(3) unfolding co_acquire_def
    by (intro co_inv_transfer [OF assms(1)]) (auto simp: same_reads_def co_ids_def simp del: mset_concat)
qed

lemma raw_release_inv:
  assumes "co_inv C s" "RawMulticall ticket \<in> set (co_running s)"
  shows "co_inv C (co_release C (RawMulticall ticket) s)"
proof -
  note D = co_invD [OF assms(1)] and r = release_spec [OF co_invD(1) [OF assms(1)] assms(2)]
  have "set (co_trips (co_release C (RawMulticall ticket) s)) \<subseteq> set (co_trips s)"
    using r(3) by (metis set_mset_mset set_mset_add_mset_insert subset_insertI)
  moreover have "mset (concat (map trip_ids (co_trips (co_release C (RawMulticall ticket) s)))) = mset (concat (map trip_ids (co_trips s)))"
    unfolding ids_of_trips r(3) [symmetric] by simp
  ultimately show ?thesis
    using r(1,2) D(4-6)
    by (intro co_inv_transfer [OF assms(1)]) (auto simp: same_reads_def co_ids_def simp del: mset_concat)
qed

text \<open>A retry keeps the chunk's slot.\<close>

lemma retry_inv:
  assumes "co_inv C s" "Chunk b ids 0 \<in> set (co_running s)"
  shows "co_inv C (chunk_returns C (Inl e) b ids 0 s)"
proof -
  note D = co_invD [OF assms(1)]
  let ?f = "\<lambda>t. if t = Chunk b ids 0 then Chunk b ids 1 else t"
  have "map trip_ids (map ?f ts) = map trip_ids ts" for ts by (induction ts) auto
  then have m: "concat (map trip_ids (map ?f ts)) = concat (map trip_ids ts)" for ts by metis
  have "trip_ok C (co_reads s) (?f t)" if "t \<in> set (co_running s)" for t
    using D(4) [of t] that by (auto simp: trip_ok_def co_trips_def)
  then have trips: "\<forall>t \<in> set (map ?f (co_running s)). trip_ok C (co_reads s) t" unfolding set_map by blast
  let ?s = "s\<lparr>co_running := map ?f (co_running s)\<rparr>"
  have "co_inv C ?s"
  proof (rule co_inv_transfer [OF assms(1)])
    show "budget_ok C ?s" using D(1) by (auto simp: budget_ok_def)
    show "mset (co_ids ?s) = mset (co_ids s)"
      using m [of "co_running s"] by (simp add: co_ids_def co_trips_def del: map_map)
    show "\<forall>t \<in> set (co_trips ?s). trip_ok C (co_reads s) t"
      using trips D(4) by (auto simp: co_trips_def)
  qed (use D(5,6) in auto)
  then show ?thesis by (simp add: chunk_returns_def)
qed

lemma co_inv_start: "co_inv C coalescer_start"
  by (simp add: co_inv_def coalescer_start_def budget_ok_def co_trips_def co_ids_def unsettled_def jhas_def)

lemma co_inv_step:
  assumes "co_step C encode chain s s'" "0 < readsPerCall C" "co_inv C s"
  shows "co_inv C s'"
  using assms
proof (induction rule: co_step.induct)
  case (reads s contract blockNumber plain)
  then have "co_inv C (fst (co_readContract C encode contract (Some b) True s))" for b
    using enqueue_inv [of C s encode contract b]
    by (cases "enqueueRead C encode contract b s") (simp add: co_readContract_def)
  with reads show ?case by (cases blockNumber; cases plain) (auto simp: co_readContract_def)
next
  case (multicalls s contracts blockNumber plain ticket)
  then have "co_inv C (fst (co_multicall C encode contracts (Some b) True ticket s))" for b
    using enqueues_inv [of C s encode contracts b]
    by (cases "enqueueReads C encode contracts b s") (simp add: co_multicall_def)
  moreover have "co_inv C (co_acquire C (RawMulticall ticket) s)"
    using multicalls by (intro acquire_inv) (simp_all add: trip_ok_def)
  ultimately show ?case by (cases blockNumber; cases plain) (auto simp: co_multicall_def)
next
  case (window s blockKey)
  then show ?case by (intro flush_inv)
next
  case (returns b ids attempt s answer)
  show ?case
  proof (cases answer)
    case (Inl e)
    show ?thesis
    proof (cases "attempt = 0")
      case True
      with returns Inl retry_inv show ?thesis by blast
    next
      case False
      with done_inv [OF returns.prems(2) returns.hyps(1)] Inl show ?thesis by (simp add: chunk_returns_done)
    qed
  next
    case (Inr results)
    with done_inv [OF returns.prems(2) returns.hyps(1)] show ?thesis by (simp add: chunk_returns_done)
  qed
next
  case (raw_returns ticket s)
  then show ?case by (intro raw_release_inv)
qed

lemma co_inv_reachable:
  assumes "(co_step C encode chain)\<^sup>*\<^sup>* coalescer_start s" "0 < readsPerCall C"
  shows "co_inv C s"
  using assms(1) by (induction rule: rtranclp_induct) (auto intro: co_inv_start co_inv_step [OF _ assms(2)])

section \<open>Answers are the chain's\<close>

definition co_true :: "(read_key \<Rightarrow> 'v read_outcome \<Rightarrow> bool) \<Rightarrow> 'v coalescer \<Rightarrow> bool" where
  "co_true chain s \<longleftrightarrow> (\<forall>i v. jget (co_settled s) i = Some (Fulfilled v) \<longrightarrow> chain (co_reads s ! i) (Fulfilled v))"

lemma acquires_fields:
  "co_reads (fold (\<lambda>x. co_acquire C (f x)) xs s) = co_reads s" "co_settled (fold (\<lambda>x. co_acquire C (f x)) xs s) = co_settled s"
  "co_inFlight (fold (\<lambda>x. co_acquire C (f x)) xs s) = co_inFlight s"
  by (induction xs arbitrary: s) (simp_all add: co_acquire_def co_attempt_def)

lemma flush_fields [simp]:
  "co_reads (flushGroup C b s) = co_reads s" "co_settled (flushGroup C b s) = co_settled s"
  "co_inFlight (flushGroup C b s) = co_inFlight s"
  by (simp_all add: flushGroup_def acquires_fields split: option.splits)

text \<open>Reads are only ever added, and a promise a caller holds is for the read it asked.\<close>

lemma enqueue_reads:
  "\<exists>rs. co_reads (fst (enqueueRead C encode contract b s)) = co_reads s @ rs"
  "co_settled (fst (enqueueRead C encode contract b s)) = co_settled s"
  by (auto simp: enqueueRead_def Let_def split: option.splits)

lemma enqueues_reads:
  "(\<exists>rs. co_reads (fst (enqueueReads C encode contracts b s)) = co_reads s @ rs) \<and>
   co_settled (fst (enqueueReads C encode contracts b s)) = co_settled s"
proof (induction contracts arbitrary: s)
  case (Cons contract contracts)
  obtain t p where t: "enqueueRead C encode contract b s = (t, p)" by fastforce
  obtain u ps where u: "enqueueReads C encode contracts b t = (u, ps)" by fastforce
  from enqueue_reads [of C encode contract b s] Cons.IH [of t] show ?case by (auto simp: t u)
qed simp

lemma enqueue_own_read:
  assumes "co_inv C s" "enqueueRead C encode contract b s = (s', Shared i)"
  shows "i < length (co_reads s') \<and> Some (co_reads s' ! i) = read_key encode contract b"
proof -
  from assms(2) obtain key where key: "read_key encode contract b = Some key"
    by (auto simp: enqueueRead_def split: option.splits)
  show ?thesis
  proof (cases "jget (co_inFlight s) key")
    case (Some k)
    with assms key co_invD(3) [OF assms(1), of key k] show ?thesis
      by (auto simp: enqueueRead_def unsettled_def)
  qed (use assms(2) key in \<open>auto simp: enqueueRead_def Let_def\<close>)
qed

lemma co_true_more: "co_true chain s \<Longrightarrow> co_inv C s \<Longrightarrow> co_settled s' = co_settled s \<Longrightarrow> \<exists>rs. co_reads s' = co_reads s @ rs \<Longrightarrow> co_true chain s'"
  by (auto simp: co_true_def co_inv_def jhas_def nth_append)

lemma release_fields [simp]:
  "co_reads (co_release C t s) = co_reads s" "co_settled (co_release C t s) = co_settled s"
  by (simp_all add: co_release_def co_attempt_def Let_def split: list.splits)

lemma chunk_done_fields:
  "co_reads (chunk_done C g b ids attempt s) = co_reads s"
  "co_settled (chunk_done C g b ids attempt s) = co_settled (fold (\<lambda>k. co_settle (ids ! k) (g k)) [0..<length ids] s)"
  by (simp_all add: chunk_done_def Let_def)

lemma co_true_done:
  assumes inv: "co_inv C s" and true: "co_true chain s" and t: "Chunk b ids attempt \<in> set (co_running s)"
    and g: "\<And>k v. k < length ids \<Longrightarrow> g k = Fulfilled v \<Longrightarrow> chain (co_reads s ! (ids ! k)) (Fulfilled v)"
  shows "co_true chain (chunk_done C g b ids attempt s)"
proof -
  from t obtain xs ys where "co_trips s = xs @ Chunk b ids attempt # ys"
    using split_list [of "Chunk b ids attempt" "co_trips s"] by (auto simp: co_trips_def)
  with co_inv_ids [OF inv] have "distinct ids" by (simp add: co_ids_def)
  then have d: "distinct (map (\<lambda>k. ids ! k) [0..<length ids])" by (simp add: map_nth)
  show ?thesis
    unfolding co_true_def chunk_done_fields
  proof (intro allI impI)
    fix i v assume "jget (co_settled (fold (\<lambda>k. co_settle (ids ! k) (g k)) [0..<length ids] s)) i = Some (Fulfilled v)"
    then consider "jget (co_settled s) i = Some (Fulfilled v)"
      | k where "List.find (\<lambda>k. ids ! k = i) [0..<length ids] = Some k" "g k = Fulfilled v"
      unfolding jget_settles [OF d, of g s i] by (auto split: option.splits)
    then show "chain (co_reads s ! i) (Fulfilled v)"
    proof cases
      case 1
      with true show ?thesis by (simp add: co_true_def)
    next
      case 2
      then have "k < length ids" "ids ! k = i" by (auto simp: find_Some_iff)
      with g 2(2) show ?thesis by blast
    qed
  qed
qed

lemma co_true_step:
  assumes "co_step C encode chain s s'" "co_inv C s" "co_true chain s"
  shows "co_true chain s'"
  using assms
proof (induction rule: co_step.induct)
  case (reads s contract blockNumber plain)
  show ?case
  proof (rule co_true_more [OF reads(2,1)])
    show "co_settled (fst (co_readContract C encode contract blockNumber plain s)) = co_settled s"
      using enqueue_reads(2) [of C encode contract _ s]
      by (auto simp: co_readContract_def split: option.splits prod.splits) (metis fst_conv)
    show "\<exists>rs. co_reads (fst (co_readContract C encode contract blockNumber plain s)) = co_reads s @ rs"
      using enqueue_reads(1) [of C encode contract _ s]
      by (auto simp: co_readContract_def split: option.splits prod.splits) (metis fst_conv)
  qed
next
  case (multicalls s contracts blockNumber plain ticket)
  show ?case
  proof (rule co_true_more [OF multicalls(2,1)])
    show "co_settled (fst (co_multicall C encode contracts blockNumber plain ticket s)) = co_settled s"
      using enqueues_reads [of C encode contracts _ s]
      by (auto simp: co_multicall_def co_acquire_def co_attempt_def split: option.splits prod.splits) (metis fst_conv)
    show "\<exists>rs. co_reads (fst (co_multicall C encode contracts blockNumber plain ticket s)) = co_reads s @ rs"
      using enqueues_reads [of C encode contracts _ s]
      by (auto simp: co_multicall_def co_acquire_def co_attempt_def split: option.splits prod.splits) (metis fst_conv)
  qed
next
  case (window s blockKey)
  then show ?case by (simp add: co_true_def)
next
  case (returns b ids attempt s answer)
  show ?case
  proof (cases "\<exists>e. answer = Inl e \<and> attempt = 0")
    case True
    with returns.prems show ?thesis by (auto simp: chunk_returns_def co_true_def)
  next
    case False
    then obtain g where g: "chunk_returns C answer b ids attempt s = chunk_done C g b ids attempt s"
      "\<And>k v. k < length ids \<Longrightarrow> g k = Fulfilled v \<Longrightarrow> chain (co_reads s ! (ids ! k)) (Fulfilled v)"
    proof (cases answer)
      case (Inl e)
      with False that [of "\<lambda>_. Rejected e"] show thesis by (simp add: chunk_returns_done)
    next
      case (Inr results)
      show thesis
      proof (rule that [of "outcome_at results"])
        show "chunk_returns C answer b ids attempt s = chunk_done C (outcome_at results) b ids attempt s"
          by (simp add: Inr chunk_returns_done)
        show "chain (co_reads s ! (ids ! k)) (Fulfilled v)" if "k < length ids" "outcome_at results k = Fulfilled v" for k v
          using returns.hyps(2) that Inr by (auto simp: outcome_at_def split: if_splits)
      qed
    qed
    from co_true_done [OF returns.prems returns.hyps(1) g(2)] g(1) show ?thesis by simp
  qed
next
  case (raw_returns ticket s)
  then show ?case by (simp add: co_true_def)
qed

lemma co_true_reachable:
  assumes "(co_step C encode chain)\<^sup>*\<^sup>* coalescer_start s" "0 < readsPerCall C"
  shows "co_true chain s"
  using assms(1)
proof (induction rule: rtranclp_induct)
  case base
  show ?case by (simp add: co_true_def coalescer_start_def)
next
  case (step s s')
  from co_true_step [OF step(2) co_inv_reachable [OF step(1) assms(2)] step(3)] show ?case .
qed

lemma co_step_reads: "co_step C encode chain s s' \<Longrightarrow> \<exists>rs. co_reads s' = co_reads s @ rs"
proof (induction rule: co_step.induct)
  case (reads s contract blockNumber plain)
  show ?case using enqueue_reads(1) [of C encode contract _ s]
    by (auto simp: co_readContract_def split: option.splits prod.splits) (metis fst_conv)
next
  case (multicalls s contracts blockNumber plain ticket)
  show ?case using enqueues_reads [of C encode contracts _ s]
    by (auto simp: co_multicall_def co_acquire_def co_attempt_def split: option.splits prod.splits) (metis fst_conv)
next
  case (returns b ids attempt s answer)
  show ?case
    by (cases answer; cases "attempt = 0") (simp_all add: chunk_returns_done chunk_done_fields, simp add: chunk_returns_def)
qed simp_all

lemma co_steps_reads: "(co_step C encode chain)\<^sup>*\<^sup>* s s' \<Longrightarrow> \<exists>rs. co_reads s' = co_reads s @ rs"
  by (induction rule: rtranclp_induct) (auto dest: co_step_reads)

end
