(* ===== verification/Coalescer_Properties.thy ===== *)
theory Coalescer_Properties
  imports Coalescer
begin

text \<open>
  What the shared read pool promises of every schedule: the budget and chunk bounds, that each
  unanswered read is owed exactly once, and that an answer is the chain's to the caller's own read.
\<close>

definition sample_options :: coalescer_options where
  "sample_options = \<lparr>readsPerCall = 2, concurrency = 1\<rparr>"

definition sample_read :: "string \<Rightarrow> string contract_read" where
  "sample_read a = \<lparr>cr_address = ''c'', cr_call = a\<rparr>"

text \<open>The read pool keeps its budget and forgets no read. In every reachable state at most
  \<open>concurrency\<close> round trips run, and none waits while a slot is free; a chunk holds between one and
  \<open>readsPerCall\<close> reads, all of one block; every unanswered read stands exactly once among the windows
  and the round trips, no question is asked twice at a time, and when no window is open and nothing
  runs, every read has been answered.\<close>

theorem coalescer_owes_every_read:
  assumes "(co_step C encode chain)\<^sup>*\<^sup>* coalescer_start s" "0 < readsPerCall C" "0 < concurrency C"
  shows "length (co_running s) \<le> concurrency C \<and> (co_waiting s \<noteq> [] \<longrightarrow> length (co_running s) = concurrency C) \<and>
    (\<forall>b ids attempt. Chunk b ids attempt \<in> set (co_trips s) \<longrightarrow>
       ids \<noteq> [] \<and> length ids \<le> readsPerCall C \<and> (\<forall>i \<in> set ids. fst (co_reads s ! i) = b)) \<and>
    distinct (co_ids s) \<and> set (co_ids s) = {i. i < length (co_reads s) \<and> \<not> jhas (co_settled s) i} \<and>
    (\<forall>i j. unsettled s i \<longrightarrow> unsettled s j \<longrightarrow> co_reads s ! i = co_reads s ! j \<longrightarrow> i = j) \<and>
    (co_groups s = [] \<and> co_running s = [] \<longrightarrow> (\<forall>i < length (co_reads s). jhas (co_settled s) i))"
proof -
  from co_inv_reachable [OF assms(1,2)] have inv: "co_inv C s" .
  note D = co_invD [OF inv] and I = co_inv_ids [OF inv]
  have budget: "length (co_running s) \<le> concurrency C" "co_waiting s \<noteq> [] \<longrightarrow> length (co_running s) = concurrency C"
    using D(1) by (auto simp: budget_ok_def)
  moreover have "ids \<noteq> [] \<and> length ids \<le> readsPerCall C \<and> (\<forall>i \<in> set ids. fst (co_reads s ! i) = b)"
    if "Chunk b ids attempt \<in> set (co_trips s)" for b ids attempt
    using D(4) [OF that] by (simp add: trip_ok_def)
  moreover have "i = j" if "unsettled s i" "unsettled s j" "co_reads s ! i = co_reads s ! j" for i j
    using D(3) [of "co_reads s ! i" i] D(3) [of "co_reads s ! i" j] that by simp
  moreover have "\<forall>i < length (co_reads s). jhas (co_settled s) i" if "co_groups s = []" "co_running s = []"
  proof -
    from that budget assms(3) have "co_waiting s = []" by auto
    with that have "co_ids s = []" by (simp add: co_ids_def co_trips_def)
    with I show ?thesis by (auto simp: unsettled_def)
  qed
  ultimately show ?thesis using I unfolding unsettled_def [symmetric] by blast
qed

theorem coalescer_owes_every_read_witness:
  "let s = fst (enqueueRead sample_options Some (sample_read ''a'') 7 coalescer_start :: unit coalescer \<times> _) in
   co_ids s = [0] \<and> set (co_ids s) = {i. i < length (co_reads s) \<and> \<not> jhas (co_settled s) i}"
proof -
  let ?s = "fst (enqueueRead sample_options Some (sample_read ''a'') 7 coalescer_start :: unit coalescer \<times> _)"
  have "co_step sample_options Some (\<lambda>_ _. True) coalescer_start ?s"
    using reads [of sample_options Some "\<lambda>_ _. True" "coalescer_start :: unit coalescer" "sample_read ''a''" "Some 7" True]
    by (cases "enqueueRead sample_options Some (sample_read ''a'') 7 (coalescer_start :: unit coalescer)")
      (simp add: co_readContract_def)
  then have "(co_step sample_options Some (\<lambda>_ _. True))\<^sup>*\<^sup>* coalescer_start ?s" by blast
  from coalescer_owes_every_read [OF this] have "set (co_ids ?s) = {i. i < length (co_reads ?s) \<and> \<not> jhas (co_settled ?s) i}"
    by (simp add: sample_options_def)
  moreover have "co_ids ?s = [0]"
    by (simp add: enqueueRead_def read_key_def sample_read_def sample_options_def coalescer_start_def Let_def co_ids_def co_trips_def)
  ultimately show ?thesis by (simp only: Let_def)
qed

text \<open>C25: The pool is transparent. Whoever asks for a pinned read holds a promise for exactly that
  contract, call and block, shared or not; and in whatever state is reached later, if the promise has
  been fulfilled, it was with an answer the chain gives to that read.\<close>

theorem coalescer_transparent:
  assumes "(co_step C encode chain)\<^sup>*\<^sup>* coalescer_start s" "0 < readsPerCall C"
    and "enqueueRead C encode contract b s = (s', Shared i)" "(co_step C encode chain)\<^sup>*\<^sup>* s' t"
    and "jget (co_settled t) i = Some (Fulfilled v)"
  shows "\<exists>key. read_key encode contract b = Some key \<and> chain key (Fulfilled v)"
proof -
  have "co_step C encode chain s s'"
    using reads [of C encode chain s contract "Some b" True] assms(3) by (simp add: co_readContract_def)
  with assms(1,4) have "(co_step C encode chain)\<^sup>*\<^sup>* coalescer_start t" by (meson rtranclp.rtrancl_into_rtrancl rtranclp_trans)
  from co_true_reachable [OF this assms(2)] assms(5) have c: "chain (co_reads t ! i) (Fulfilled v)" by (simp add: co_true_def)
  from enqueue_own_read [OF co_inv_reachable [OF assms(1,2)] assms(3)]
  have own: "i < length (co_reads s')" "Some (co_reads s' ! i) = read_key encode contract b" by auto
  from co_steps_reads [OF assms(4)] own(1) have "co_reads t ! i = co_reads s' ! i" by (auto simp: nth_append)
  with own(2) c show ?thesis by metis
qed

theorem coalescer_transparent_witness:
  "\<exists>t. jget (co_settled (t :: nat coalescer)) 0 = Some (Fulfilled 5) \<and>
     (\<exists>key. read_key Some (sample_read ''a'') 7 = Some key \<and> snd (snd key) = ''a'')"
proof -
  let ?chain = "\<lambda>key :: read_key. \<lambda>o'. o' = Fulfilled (5 :: nat) \<and> snd (snd key) = ''a''"
  define s where "s = fst (enqueueRead sample_options Some (sample_read ''a'') 7 (coalescer_start :: nat coalescer))"
  have e: "enqueueRead sample_options Some (sample_read ''a'') 7 (coalescer_start :: nat coalescer) = (s, Shared 0)"
    by (simp add: s_def enqueueRead_def read_key_def sample_read_def sample_options_def coalescer_start_def Let_def)
  have s: "s = coalescer_start\<lparr>co_reads := [(7, ''c'', ''a'')], co_groups := [(7, [0])], co_inFlight := [((7, ''c'', ''a''), 0)]\<rparr>"
    by (simp add: s_def enqueueRead_def read_key_def sample_read_def sample_options_def coalescer_start_def Let_def to_lower_def lower_char_def)
  define t where "t = flushGroup sample_options 7 s"
  have t: "t = s\<lparr>co_groups := [], co_active := 1, co_running := [Chunk 7 [0] 0]\<rparr>"
    by (simp add: t_def s flushGroup_def sample_options_def coalescer_start_def chunks_of.simps co_acquire_def co_attempt_def)
  define u where "u = chunk_returns sample_options (Inr [Fulfilled 5]) 7 [0] 0 t"
  have "co_step sample_options Some ?chain s t" unfolding t_def by (rule window)
  moreover have "co_step sample_options Some ?chain t u" unfolding u_def by (rule returns) (simp_all add: t s coalescer_start_def)
  ultimately have run: "(co_step sample_options Some ?chain)\<^sup>*\<^sup>* s u" by (meson converse_rtranclp_into_rtranclp rtranclp.rtrancl_refl)
  have settled: "jget (co_settled u) 0 = Some (Fulfilled 5)"
    by (simp add: u_def chunk_returns_def t s coalescer_start_def co_settle_def jhas_def outcome_at_def Let_def co_release_def)
  have "\<exists>key. read_key Some (sample_read ''a'') 7 = Some key \<and> ?chain key (Fulfilled 5)"
    by (rule coalescer_transparent [OF rtranclp.rtrancl_refl _ e run settled]) (simp add: sample_options_def)
  with settled show ?thesis by blast
qed

end
