(* ===== verification/Engine.thy ===== *)
theory Engine
  imports Gossip Tally Background
begin

text \<open>
  The contest engine (class \<open>ContestEngine\<close> of \<open>src/client/voter.ts\<close>): which admitted bundles have
  which deferred checks, which are this wallet's own and who waits for their verdict, which peers
  serve them, the checkpoint encoded on demand, the snapshot on disk and its restore, and the
  heartbeat. One \<open>engine\<close> record holds the private fields of the class. An operation is a function
  on it; what a seam answers while it runs (the head reader, the blockstore, the signer) is an
  argument. Callbacks and calls into other components are recorded in order as \<open>engine_call\<close>s. The
  verifier, the gate and the chaser are the components of their own theories; here their effect on
  the engine is the operation they call.
\<close>

type_synonym peer = string

section \<open>Constants\<close>

definition HEAD_BUCKET_TTL_MS :: nat where
  "HEAD_BUCKET_TTL_MS = 1000"

definition HEARTBEAT_INTERVAL_MS :: nat where
  "HEARTBEAT_INTERVAL_MS = 600000"

definition PEER_ROOTS_MAX :: nat where
  "PEER_ROOTS_MAX = 256"

definition DECODED_ROOTS_MAX :: nat where
  "DECODED_ROOTS_MAX = 64"

definition OWN_CIDS_MAX :: nat where
  "OWN_CIDS_MAX = 64"

definition SNAPSHOT_WRITE_ATTEMPTS :: nat where
  "SNAPSHOT_WRITE_ATTEMPTS = 3"

definition RESTORE_RETRY_MS :: nat where
  "RESTORE_RETRY_MS = 30000"

definition RESTORE_RETRY_CAP_MS :: nat where
  "RESTORE_RETRY_CAP_MS = 600000"

section \<open>State\<close>

text \<open>What the constructor fixes: the contest's criteria CID and topic, the bucket math, the offline
  verifier and the tally.\<close>

record 'x engine_config =
  eg_lib :: lib
  eg_topic :: string
  eg_criteriaCid :: bytes
  eg_chainId :: nat
  eg_bucketMath :: bucket_math
  eg_voteExpiryBuckets :: nat
  eg_verifyOffline :: "votes_bundle \<Rightarrow> verify_result"
  eg_tally :: "'x tally"

record root_cache =
  rc_record :: fetch_root_record
  rc_bucket :: nat
  rc_blocks :: "checkpoint_block list"

text \<open>A publication's callbacks are named by the number it was given when it signed.\<close>

datatype engine_call =
    NotifyEvicted nat votes_bundle bundle_verdict
  | NotifyVerified nat cid
  | NotifyCheckpointed nat cid
  | EmitEvicted votes_bundle bundle_verdict
  | EmitError js_error
  | EmitUpdate
  | CheckpointChanged
  | EnqueueChecks "pending_bundle list"
  | ResumeChecks
  | StopChecks
  | ChaseRoot cid "cid list option" "peer list"
  | PublishRoot fetch_root_record
  | PublishBundle bytes
  | SnapshotWritten bytes
  | TopicJoined
  | TopicLeft

text \<open>\<open>en_disk\<close> is this topic's blob in the snapshot store, \<open>en_encodes\<close> the checkpoint encodings in
  flight, each with the bucket and the winners it started from.\<close>

record engine =
  en_crdt :: crdt
  en_blocks :: "(cid, bytes) jsmap"
  en_disk :: "bytes option"
  en_checks :: "(cid, bundle_checks) jsmap"
  en_ownPublishes :: "(cid, votes_bundle) jsmap"
  en_ownEvictionCbs :: "(cid, nat) jsmap"
  en_ownVerifiedCbs :: "(cid, nat) jsmap"
  en_ownCheckpointCbs :: "(cid, nat) jsmap"
  en_ownCids :: "cid list"
  en_decodedRoots :: "(cid, cid list) jsmap"
  en_ownCheckpointPeers :: "(cid, peer list) jsmap"
  en_peerRoots :: "(peer, cid) jsmap"
  en_currentBucket :: nat
  en_headReadMs :: nat
  en_rootRecordCache :: "root_cache option"
  en_checkpointDirty :: bool
  en_encodes :: "(nat \<times> votes_bundle list) list"
  en_heardMatchingRoot :: bool
  en_publishedRoot :: bool
  en_transport :: bool
  en_chaser :: bool
  en_joined :: bool
  en_destroyed :: bool
  en_heartbeat :: bool
  en_snapshotTimer :: bool
  en_snapshotWriteFailures :: nat
  en_restoreBacklog :: "votes_bundle list"
  en_restoreTimer :: "nat option"
  en_restoreAttempts :: nat
  en_updateListeners :: nat
  en_tallyDirty :: bool
  en_tallyRefreshing :: bool
  en_cachedTally :: "contest_tally option"
  en_calls :: "engine_call list"

definition engine_start :: "(cid, bytes) jsmap \<Rightarrow> bytes option \<Rightarrow> engine" where
  "engine_start blocks disk =
     \<lparr>en_crdt = empty_crdt, en_blocks = blocks, en_disk = disk, en_checks = [], en_ownPublishes = [],
      en_ownEvictionCbs = [], en_ownVerifiedCbs = [], en_ownCheckpointCbs = [], en_ownCids = [],
      en_decodedRoots = [], en_ownCheckpointPeers = [], en_peerRoots = [], en_currentBucket = 0,
      en_headReadMs = 0, en_rootRecordCache = None, en_checkpointDirty = True, en_encodes = [],
      en_heardMatchingRoot = False, en_publishedRoot = False, en_transport = False, en_chaser = False,
      en_joined = False, en_destroyed = False, en_heartbeat = False, en_snapshotTimer = False,
      en_snapshotWriteFailures = 0, en_restoreBacklog = [], en_restoreTimer = None,
      en_restoreAttempts = 0, en_updateListeners = 0, en_tallyDirty = True,
      en_tallyRefreshing = False, en_cachedTally = None, en_calls = []\<rparr>"

definition call :: "engine_call \<Rightarrow> engine \<Rightarrow> engine" where
  "call c en = en\<lparr>en_calls := en_calls en @ [c]\<rparr>"


section \<open>Invalidation\<close>

definition scheduleSnapshotWrite :: "engine \<Rightarrow> engine" where
  "scheduleSnapshotWrite en =
     (if \<not> en_joined en \<or> en_snapshotTimer en then en else en\<lparr>en_snapshotTimer := True\<rparr>)"

definition markStateChanged :: "engine \<Rightarrow> engine" where
  "markStateChanged en = scheduleSnapshotWrite (call CheckpointChanged (en\<lparr>en_checkpointDirty := True\<rparr>))"

text \<open>The refresh loop starts at once unless it runs already or nobody listens.\<close>

definition kickTallyRefresh :: "engine \<Rightarrow> engine" where
  "kickTallyRefresh en =
     (let en' = en\<lparr>en_tallyDirty := True\<rparr> in
      if en_tallyRefreshing en' \<or> en_updateListeners en' = 0 then en'
      else en'\<lparr>en_tallyRefreshing := True\<rparr>)"

definition onStateChanged :: "engine \<Rightarrow> engine" where
  "onStateChanged en = kickTallyRefresh (markStateChanged en)"

section \<open>Deferred checks\<close>

definition carriesName :: "votes_bundle \<Rightarrow> bool" where
  "carriesName b = list_ex (\<lambda>v. vote_name v \<noteq> None) (b_votes b)"

definition recordChecks :: "cid \<Rightarrow> votes_bundle \<Rightarrow> bool \<Rightarrow> bool \<Rightarrow> engine \<Rightarrow> engine" where
  "recordChecks cid b settled nameSettled en =
     en\<lparr>en_checks := jset cid
          \<lparr>bk_chainVerified = settled, bk_nameResolved = (if carriesName b then Some nameSettled else None)\<rparr>
          (en_checks en)\<rparr>"

definition checksFor :: "cid \<Rightarrow> votes_bundle \<Rightarrow> engine \<Rightarrow> bundle_checks" where
  "checksFor cid b en =
     (case jget (en_checks en) cid of
        Some checks \<Rightarrow> checks
      | None \<Rightarrow> \<lparr>bk_chainVerified = False, bk_nameResolved = (if carriesName b then Some False else None)\<rparr>)"

definition unsettled :: "bundle_checks \<Rightarrow> bool" where
  "unsettled checks \<longleftrightarrow> \<not> bk_chainVerified checks \<or> bk_nameResolved checks = Some False"

definition isPending :: "engine \<Rightarrow> cid \<Rightarrow> bool" where
  "isPending en cid = (case jget (en_checks en) cid of None \<Rightarrow> False | Some checks \<Rightarrow> unsettled checks)"

definition isFullyVerified :: "engine \<Rightarrow> cid \<Rightarrow> bool" where
  "isFullyVerified en cid =
     (case jget (en_checks en) cid of
        None \<Rightarrow> False
      | Some checks \<Rightarrow> bk_chainVerified checks \<and> bk_nameResolved checks \<noteq> Some False)"

definition hasUnsettledChecks :: "engine \<Rightarrow> bool" where
  "hasUnsettledChecks en = list_ex unsettled (jvalues (en_checks en))"

section \<open>This wallet's own bundles\<close>

definition dropOwnTracking :: "cid \<Rightarrow> engine \<Rightarrow> engine" where
  "dropOwnTracking key en =
     en\<lparr>en_ownPublishes := jdel key (en_ownPublishes en), en_ownEvictionCbs := jdel key (en_ownEvictionCbs en),
        en_ownVerifiedCbs := jdel key (en_ownVerifiedCbs en)\<rparr>"

definition forgetOwnBundle :: "cid \<Rightarrow> engine \<Rightarrow> engine" where
  "forgetOwnBundle key en =
     (let en' = dropOwnTracking key en in
      en'\<lparr>en_ownCheckpointCbs := jdel key (en_ownCheckpointCbs en'), en_ownCids := removeAll key (en_ownCids en'),
          en_ownCheckpointPeers := jdel key (en_ownCheckpointPeers en')\<rparr>)"

definition trackOwnBundle :: "cid \<Rightarrow> engine \<Rightarrow> engine" where
  "trackOwnBundle key en =
     (if key \<in> set (en_ownCids en) then en
      else
        let en' = (if OWN_CIDS_MAX \<le> length (en_ownCids en) then forgetOwnBundle (hd (en_ownCids en)) en else en)
        in en'\<lparr>en_ownCids := sadd key (en_ownCids en')\<rparr>)"

definition notify :: "(nat \<Rightarrow> engine_call) \<Rightarrow> nat option \<Rightarrow> engine \<Rightarrow> engine" where
  "notify c cb en = (case cb of None \<Rightarrow> en | Some token \<Rightarrow> call (c token) en)"

datatype check_key = ChainVerified | NameResolved

definition set_check :: "check_key \<Rightarrow> bundle_checks \<Rightarrow> bundle_checks" where
  "set_check key checks =
     (case key of
        ChainVerified \<Rightarrow> checks\<lparr>bk_chainVerified := True\<rparr>
      | NameResolved \<Rightarrow> checks\<lparr>bk_nameResolved := Some True\<rparr>)"

definition settleCheck :: "cid \<Rightarrow> check_key \<Rightarrow> engine \<Rightarrow> engine" where
  "settleCheck cid key en =
     (case jget (en_checks en) cid of
        None \<Rightarrow> en
      | Some checks \<Rightarrow>
          let en' = en\<lparr>en_checks := jset cid (set_check key checks) (en_checks en)\<rparr> in
          onStateChanged
            (if isFullyVerified en' cid
             then dropOwnTracking cid (notify (\<lambda>t. NotifyVerified t cid) (jget (en_ownVerifiedCbs en') cid) en')
             else en'))"

definition evictBundle :: "cid \<Rightarrow> bundle_verdict \<Rightarrow> engine \<Rightarrow> engine" where
  "evictBundle cid verdict en =
     (let en' = en\<lparr>en_crdt := crdt_remove cid (en_crdt en), en_checks := jdel cid (en_checks en),
                   en_ownCids := removeAll cid (en_ownCids en),
                   en_ownCheckpointPeers := jdel cid (en_ownCheckpointPeers en)\<rparr>
      in onStateChanged
           (case jget (en_ownPublishes en') cid of
              None \<Rightarrow> en'
            | Some own \<Rightarrow>
                call (EmitEvicted own verdict)
                  (notify (\<lambda>t. NotifyEvicted t own verdict) (jget (en_ownEvictionCbs en') cid)
                     (forgetOwnBundle cid en'))))"

section \<open>The current bucket\<close>

text \<open>\<open>head\<close> is what the shared head reader answers; a read that accepts a sample of some age does not
  count as a fresh one.\<close>

definition refreshBucket :: "'x engine_config \<Rightarrow> nat \<Rightarrow> nat res \<Rightarrow> bool \<Rightarrow> engine \<Rightarrow> engine \<times> nat res" where
  "refreshBucket C now head maxAge en =
     (case head of
        Inl e \<Rightarrow> (en, Inl e)
      | Inr h \<Rightarrow>
          let bucket = bucketForBlock (eg_bucketMath C) h in
          (en\<lparr>en_currentBucket := bucket, en_headReadMs := (if maxAge then en_headReadMs en else now)\<rparr>, Inr bucket))"

definition nowBucket :: "'x engine_config \<Rightarrow> nat \<Rightarrow> nat res \<Rightarrow> engine \<Rightarrow> engine \<times> nat res" where
  "nowBucket C now head en =
     (if en_headReadMs en \<noteq> 0 \<and> now - en_headReadMs en < HEAD_BUCKET_TTL_MS
      then (en, Inr (en_currentBucket en)) else refreshBucket C now head False en)"

definition isEvaluableNow :: "'x engine_config \<Rightarrow> nat \<Rightarrow> nat res \<Rightarrow> votes_bundle \<Rightarrow> engine \<Rightarrow> engine \<times> bool res" where
  "isEvaluableNow C now head b en =
     (let sampleBucket = bucketForBlock (eg_bucketMath C) (b_blockNumber b) in
      if sampleBucket \<le> en_currentBucket en then (en, Inr True)
      else case nowBucket C now head en of
             (en', r) \<Rightarrow> (en', sbind r (\<lambda>bucket. Inr (sampleBucket \<le> bucket))))"

definition pruneDecayed :: "'x engine_config \<Rightarrow> engine \<Rightarrow> engine \<times> nat" where
  "pruneDecayed C en =
     (case prune lwwResolve (bucketForBlock (eg_bucketMath C)) (eg_voteExpiryBuckets C) (isPending en)
             (en_currentBucket en) (en_crdt en) of
        (s, removed) \<Rightarrow>
          (fold (\<lambda>key en'. forgetOwnBundle key (en'\<lparr>en_checks := jdel key (en_checks en')\<rparr>)) removed
             (en\<lparr>en_crdt := s\<rparr>), length removed))"

section \<open>Who serves our bundles\<close>

text \<open>One pass of \<open>creditPeer\<close>; the flag tells whether anything was new.\<close>

definition creditKey :: "peer \<Rightarrow> cid \<Rightarrow> engine \<times> bool \<Rightarrow> engine \<times> bool" where
  "creditKey peerId key st =
     (case st of (en, added) \<Rightarrow>
        if key \<notin> set (en_ownCids en) then (en, added)
        else
          let peers = (case jget (en_ownCheckpointPeers en) key of None \<Rightarrow> [] | Some ps \<Rightarrow> ps) in
          if peerId \<in> set peers then (en, added)
          else
            let en' = en\<lparr>en_ownCheckpointPeers := jset key (peers @ [peerId]) (en_ownCheckpointPeers en)\<rparr> in
            (if peers = []
             then (notify (\<lambda>t. NotifyCheckpointed t key) (jget (en_ownCheckpointCbs en') key) en')
                    \<lparr>en_ownCheckpointCbs := jdel key (en_ownCheckpointCbs en')\<rparr>
             else en', True))"

definition creditPeer :: "peer \<Rightarrow> cid list \<Rightarrow> engine \<Rightarrow> engine \<times> bool" where
  "creditPeer peerId ownCids en = fold (creditKey peerId) ownCids (en, False)"

definition attributeRoot :: "peer \<Rightarrow> cid \<Rightarrow> engine \<Rightarrow> engine" where
  "attributeRoot peerId root en =
     (case jget (en_decodedRoots en) root of
        None \<Rightarrow> en
      | Some mine \<Rightarrow> (case creditPeer peerId mine en of (en', added) \<Rightarrow> if added then onStateChanged en' else en'))"

text \<open>A map bounded by evicting its oldest entry; writing a key again renews its place.\<close>

definition lru_put :: "nat \<Rightarrow> 'k \<Rightarrow> 'v \<Rightarrow> ('k, 'v) jsmap \<Rightarrow> ('k, 'v) jsmap" where
  "lru_put n k v m =
     (let m' = (if jhas m k then jdel k m else if n \<le> length m then tl m else m) in jset k v m')"

definition notePeerRoot :: "peer \<Rightarrow> cid \<Rightarrow> engine \<Rightarrow> engine" where
  "notePeerRoot peerId root en =
     attributeRoot peerId root (en\<lparr>en_peerRoots := lru_put PEER_ROOTS_MAX peerId root (en_peerRoots en)\<rparr>)"

definition credit_at :: "cid \<Rightarrow> cid list \<Rightarrow> peer \<times> cid \<Rightarrow> engine \<times> bool \<Rightarrow> engine \<times> bool" where
  "credit_at root mine advert st =
     (if snd advert \<noteq> root then st
      else case creditPeer (fst advert) mine (fst st) of (en', added) \<Rightarrow> (en', added \<or> snd st))"

definition indexRootContents :: "cid \<Rightarrow> cid list \<Rightarrow> engine \<Rightarrow> engine" where
  "indexRootContents root mine en =
     (if mine = [] then en
      else
        let en' = en\<lparr>en_decodedRoots := lru_put DECODED_ROOTS_MAX root mine (en_decodedRoots en)\<rparr> in
        case fold (credit_at root mine) (en_peerRoots en') (en', False) of
          (en'', credited) \<Rightarrow> if credited then onStateChanged en'' else en'')"

definition noteCheckpointContents :: "cid \<Rightarrow> cid list \<Rightarrow> engine \<Rightarrow> engine" where
  "noteCheckpointContents root cids en =
     indexRootContents root (foldl (\<lambda>mine key. if key \<in> set (en_ownCids en) then sadd key mine else mine) [] cids) en"

definition ownVerifiedCids :: "engine \<Rightarrow> cid list" where
  "ownVerifiedCids en = filter (isFullyVerified en) (en_ownCids en)"

definition engine_checksFor :: "cid \<Rightarrow> engine \<Rightarrow> bundle_checks option" where
  "engine_checksFor cid en = jget (en_checks en) cid"

definition checkpointPeersFor :: "cid \<Rightarrow> engine \<Rightarrow> peer list" where
  "checkpointPeersFor cid en = (case jget (en_ownCheckpointPeers en) cid of None \<Rightarrow> [] | Some ps \<Rightarrow> ps)"

text \<open>\<open>connections\<close> are the remote peers of the node's open connections, a peer once per connection.\<close>

fun add_connected :: "peer list \<Rightarrow> peer list \<Rightarrow> peer list \<Rightarrow> peer list" where
  "add_connected [] wanted providers = providers"
| "add_connected (p # connections) wanted providers =
     (if p \<notin> set wanted then add_connected connections wanted providers
      else if removeAll p wanted = [] then providers @ [p]
      else add_connected connections (removeAll p wanted) (providers @ [p]))"

definition sessionProvidersFor :: "cid \<Rightarrow> peer option \<Rightarrow> peer list \<Rightarrow> engine \<Rightarrow> peer list" where
  "sessionProvidersFor root known connections en =
     (let providers = (case known of None \<Rightarrow> [] | Some p \<Rightarrow> [p]);
          wanted = map fst (filter (\<lambda>(p, advertised). advertised = root \<and> Some p \<noteq> known) (en_peerRoots en))
      in if wanted = [] then providers else add_connected connections wanted providers)"

section \<open>The checkpoint on demand\<close>

text \<open>\<open>rootRecord\<close> in two parts. The first runs when the head read has returned, up to the encoding:
  it answers from the cache, or takes the winners and consumes the dirty flag. The second runs when
  the encoding and the block writes have ended.\<close>

datatype record_begun = Served fetch_root_record | Encoding nat "votes_bundle list"

definition verified_winners :: "'x engine_config \<Rightarrow> nat \<Rightarrow> engine \<Rightarrow> votes_bundle list" where
  "verified_winners C bucket en =
     map e_bundle (currentEntries lwwResolve (bucketForBlock (eg_bucketMath C)) (eg_voteExpiryBuckets C)
       (en_crdt en) bucket (isFullyVerified en))"

definition record_bucket :: "'x engine_config \<Rightarrow> nat \<Rightarrow> nat res \<Rightarrow> engine \<Rightarrow> engine \<times> nat res" where
  "record_bucket C now head en =
     (if 0 < nodeCount (en_crdt en) then refreshBucket C now head True en else (en, Inr (en_currentBucket en)))"

definition record_begin :: "'x engine_config \<Rightarrow> nat \<Rightarrow> nat res \<Rightarrow> engine \<Rightarrow> engine \<times> record_begun res" where
  "record_begin C now head en =
     (case record_bucket C now head en of
        (en', Inl e) \<Rightarrow> (en', Inl e)
      | (en', Inr bucket) \<Rightarrow>
          (case en_rootRecordCache en' of
             Some cached \<Rightarrow>
               if \<not> en_checkpointDirty en' \<and> rc_bucket cached = bucket then (en', Inr (Served (rc_record cached)))
               else (en'\<lparr>en_checkpointDirty := False\<rparr>, Inr (Encoding bucket (verified_winners C bucket en')))
           | None \<Rightarrow> (en'\<lparr>en_checkpointDirty := False\<rparr>, Inr (Encoding bucket (verified_winners C bucket en')))))"

text \<open>\<open>put\<close> tells whether the blockstore takes a block.\<close>

fun put_blocks :: "(cid \<Rightarrow> unit res) \<Rightarrow> checkpoint_block list \<Rightarrow> (cid, bytes) jsmap \<Rightarrow> (cid, bytes) jsmap \<times> unit res" where
  "put_blocks put [] blocks = (blocks, Inr ())"
| "put_blocks put (b # bs) blocks =
     (case put (blk_cid b) of
        Inl e \<Rightarrow> (blocks, Inl e)
      | Inr _ \<Rightarrow> put_blocks put bs (jset (blk_cid b) (blk_bytes b) blocks))"

definition record_of :: "encoded_checkpoint \<Rightarrow> nat \<Rightarrow> fetch_root_record" where
  "record_of enc n =
     \<lparr>rr_version = ROOT_RECORD_VERSION, rr_root = ec_root enc, rr_count = n,
      rr_sizeBytes = sum_list (map (\<lambda>b. length (blk_bytes b)) (ec_blocks enc)), fr_chunks = ec_chunks enc\<rparr>"

definition record_finish :: "'x engine_config \<Rightarrow> (cid \<Rightarrow> unit res) \<Rightarrow> nat \<Rightarrow> votes_bundle list \<Rightarrow> engine \<Rightarrow> engine \<times> fetch_root_record res" where
  "record_finish C put bucket winners en =
     (case encodeCheckpoint (eg_lib C) winners DEFAULT_MAX_CHUNK_BYTES of
        Inl e \<Rightarrow> (en, Inl e)
      | Inr enc \<Rightarrow>
          (case put_blocks put (ec_blocks enc) (en_blocks en) of
             (blocks, Inl e) \<Rightarrow> (en\<lparr>en_blocks := blocks\<rparr>, Inl e)
           | (blocks, Inr _) \<Rightarrow>
               (en\<lparr>en_blocks := blocks,
                   en_rootRecordCache := Some \<lparr>rc_record = record_of enc (length winners), rc_bucket = bucket,
                                               rc_blocks = ec_blocks enc\<rparr>\<rparr>,
                Inr (record_of enc (length winners)))))"

text \<open>A call with nothing in between.\<close>

definition rootRecord :: "'x engine_config \<Rightarrow> nat \<Rightarrow> nat res \<Rightarrow> (cid \<Rightarrow> unit res) \<Rightarrow> engine \<Rightarrow> engine \<times> fetch_root_record res" where
  "rootRecord C now head put en =
     (case record_begin C now head en of
        (en', Inl e) \<Rightarrow> (en', Inl e)
      | (en', Inr (Served r)) \<Rightarrow> (en', Inr r)
      | (en', Inr (Encoding bucket winners)) \<Rightarrow> record_finish C put bucket winners en')"

definition latestCheckpointRoot :: "engine \<Rightarrow> cid option" where
  "latestCheckpointRoot en = map_option (\<lambda>c. rr_root (rc_record c)) (en_rootRecordCache en)"

text \<open>\<open>multihash\<close> reads a CID's digest.\<close>

definition engine_retainsBlock :: "'x engine_config \<Rightarrow> (cid \<Rightarrow> bytes) \<Rightarrow> cid \<Rightarrow> engine \<Rightarrow> bool" where
  "engine_retainsBlock C multihash cid en =
     (if \<not> en_joined en then False
      else
        let key = create_v1 (eg_lib C) dagCborCode (multihash cid) in
        jhas (en_checks en) key \<or>
        (case en_rootRecordCache en of None \<Rightarrow> False | Some c \<Rightarrow> list_ex (\<lambda>b. blk_cid b = key) (rc_blocks c)))"

text \<open>The blocks named by the record, in its order, or none when one is missing.\<close>

definition blocks_for :: "checkpoint_block list \<Rightarrow> cid list \<Rightarrow> checkpoint_block list" where
  "blocks_for have chunks =
     (case opt_map (map_of (rev (map (\<lambda>b. (blk_cid b, b)) have))) chunks of None \<Rightarrow> [] | Some blocks \<Rightarrow> blocks)"

definition rootRecordWithBlocks ::
  "'x engine_config \<Rightarrow> nat \<Rightarrow> nat res \<Rightarrow> (cid \<Rightarrow> unit res) \<Rightarrow> engine \<Rightarrow> engine \<times> (fetch_root_record \<times> checkpoint_block list) res" where
  "rootRecordWithBlocks C now head put en =
     (case rootRecord C now head put en of
        (en', Inl e) \<Rightarrow> (en', Inl e)
      | (en', Inr r) \<Rightarrow>
          (en', Inr (r, blocks_for (case en_rootRecordCache en' of None \<Rightarrow> [] | Some c \<Rightarrow> rc_blocks c) (fr_chunks r))))"

section \<open>Roots that are heard\<close>

definition chase :: "cid \<Rightarrow> cid list option \<Rightarrow> peer option \<Rightarrow> peer list \<Rightarrow> engine \<Rightarrow> engine" where
  "chase root chunks known connections en =
     (if en_chaser en then call (ChaseRoot root chunks (sessionProvidersFor root known connections en)) en else en)"

definition ingestRootRecord ::
  "'x engine_config \<Rightarrow> nat \<Rightarrow> nat res \<Rightarrow> (cid \<Rightarrow> unit res) \<Rightarrow> peer list \<Rightarrow> peer \<Rightarrow> bytes \<Rightarrow> engine \<Rightarrow> engine \<times> unit res" where
  "ingestRootRecord C now head put connections peerId encoded en =
     (if \<not> en_chaser en then (en, Inr ())
      else case decodeRootRecord (eg_lib C) encoded of
        Inl e \<Rightarrow> (en, Inl e)
      | Inr record \<Rightarrow>
          (case rootRecord C now head put en of
             (en', Inl e) \<Rightarrow> (en', Inl e)
           | (en', Inr own) \<Rightarrow>
               let en'' = notePeerRoot peerId (rr_root record) en' in
               (if rr_root record = rr_root own then en''
                else chase (rr_root record) (Some (fr_chunks record)) (Some peerId) connections en'', Inr ())))"

definition publish_root :: "fetch_root_record \<Rightarrow> engine \<Rightarrow> engine" where
  "publish_root own en = (if en_transport en then call (PublishRoot own) en else en)"

definition handleRootRecord ::
  "'x engine_config \<Rightarrow> nat \<Rightarrow> nat res \<Rightarrow> (cid \<Rightarrow> unit res) \<Rightarrow> peer list \<Rightarrow> root_record \<Rightarrow> peer option \<Rightarrow> engine \<Rightarrow> engine" where
  "handleRootRecord C now head put connections record from_peer en =
     (let en0 = (case from_peer of None \<Rightarrow> en | Some p \<Rightarrow> notePeerRoot p (rr_root record) en) in
      case rootRecord C now head put en0 of
        (en1, Inl _) \<Rightarrow> en1
      | (en1, Inr own) \<Rightarrow>
          if rr_root own = rr_root record
          then let en2 = en1\<lparr>en_heardMatchingRoot := True\<rparr> in indexRootContents (rr_root record) (ownVerifiedCids en2) en2
          else
            let en2 = chase (rr_root record) None None connections en1 in
            if en_publishedRoot en2 then en2 else publish_root own (en2\<lparr>en_publishedRoot := True\<rparr>))"

definition prune_on_tick :: "'x engine_config \<Rightarrow> nat \<Rightarrow> nat res \<Rightarrow> engine \<Rightarrow> engine \<times> nat" where
  "prune_on_tick C now head en =
     (if nodeCount (en_crdt en) = 0 then (en, 0)
      else
        let (en', pruned) = (case refreshBucket C now head True en of
                               (en', Inl _) \<Rightarrow> (en', 0)
                             | (en', Inr _) \<Rightarrow> pruneDecayed C en')
        in (if 0 < pruned then onStateChanged en' else en', pruned))"

definition beat_publish :: "'x engine_config \<Rightarrow> nat \<Rightarrow> nat res \<Rightarrow> (cid \<Rightarrow> unit res) \<Rightarrow> nat \<Rightarrow> engine \<Rightarrow> engine" where
  "beat_publish C now head put pruned en =
     (let suppressed = (pruned = 0 \<and> (en_heardMatchingRoot en \<or> en_publishedRoot en));
          en1 = en\<lparr>en_heardMatchingRoot := False, en_publishedRoot := False\<rparr>
      in if suppressed then en1
         else if \<not> en_transport en1 then en1
         else case rootRecord C now head put en1 of
                (en2, Inl _) \<Rightarrow> en2
              | (en2, Inr own) \<Rightarrow> publish_root own en2)"

definition heartbeatTick :: "'x engine_config \<Rightarrow> nat \<Rightarrow> nat res \<Rightarrow> nat res \<Rightarrow> (cid \<Rightarrow> unit res) \<Rightarrow> engine \<Rightarrow> engine" where
  "heartbeatTick C now head head' put en =
     (case prune_on_tick C now head en of (en', pruned) \<Rightarrow> beat_publish C now head' put pruned en')"

section \<open>The tally\<close>

definition tally_current :: "'x engine_config \<Rightarrow> engine \<Rightarrow> (votes_bundle \<times> bundle_checks) list" where
  "tally_current C en =
     map (\<lambda>e. (e_bundle e, checksFor (e_cid e) (e_bundle e) en))
       (currentEntries lwwResolve (bucketForBlock (eg_bucketMath C)) (eg_voteExpiryBuckets C)
          (en_crdt en) (en_currentBucket en) (\<lambda>_. True))"

text \<open>The tie-break block: \<open>block_at\<close> is the chain's block hash at a height, if it gives one.\<close>

definition bucketBlockHash :: "'x engine_config \<Rightarrow> nat res \<Rightarrow> (nat \<Rightarrow> bytes option res) \<Rightarrow> bytes res" where
  "bucketBlockHash C head block_at =
     sbind head (\<lambda>h.
       let boundary = sampleBlockForBucket (eg_bucketMath C) (bucketForBlock (eg_bucketMath C) h) in
       sbind (block_at boundary) (require_some (PlainError ''bucket boundary block has no hash'')))"

definition computeTally ::
  "'x engine_config \<Rightarrow> nat \<Rightarrow> nat res \<Rightarrow> nat res \<Rightarrow> (nat \<Rightarrow> bytes option res) \<Rightarrow> engine \<Rightarrow> engine \<times> contest_tally res" where
  "computeTally C now head head' block_at en =
     (case (if 0 < nodeCount (en_crdt en)
            then (case refreshBucket C now head False en of
                    (en', Inl e) \<Rightarrow> (en', Some e)
                  | (en', Inr _) \<Rightarrow> (fst (pruneDecayed C en'), None))
            else (en, None)) of
        (en', Some e) \<Rightarrow> (en', Inl e)
      | (en', None) \<Rightarrow> (en', tally_compute (eg_tally C) (tally_current C en') (bucketBlockHash C head' block_at)))"

definition computeAndEmit ::
  "'x engine_config \<Rightarrow> nat \<Rightarrow> nat res \<Rightarrow> nat res \<Rightarrow> (nat \<Rightarrow> bytes option res) \<Rightarrow> engine \<Rightarrow> engine" where
  "computeAndEmit C now head head' block_at en =
     (case computeTally C now head head' block_at (en\<lparr>en_tallyDirty := False\<rparr>) of
        (en', Inl e) \<Rightarrow> call (EmitError e) en'
      | (en', Inr t) \<Rightarrow> call EmitUpdate (en'\<lparr>en_cachedTally := Some t\<rparr>))"

text \<open>One turn of the refresh loop, with the test that follows it.\<close>

definition tally_round ::
  "'x engine_config \<Rightarrow> nat \<Rightarrow> nat res \<Rightarrow> nat res \<Rightarrow> (nat \<Rightarrow> bytes option res) \<Rightarrow> engine \<Rightarrow> engine" where
  "tally_round C now head head' block_at en =
     (let en' = computeAndEmit C now head head' block_at en in
      if en_tallyDirty en' \<and> 0 < en_updateListeners en' then en' else en'\<lparr>en_tallyRefreshing := False\<rparr>)"

section \<open>Admission and signing\<close>

text \<open>The \<open>admit\<close> seams of the gate and the chaser: write the block, merge its CID, record its checks.
  \<open>put\<close> and \<open>got\<close> are how the blockstore's write and read end.\<close>

definition admit_block ::
  "'x engine_config \<Rightarrow> unit res \<Rightarrow> unit res \<Rightarrow> cid \<Rightarrow> bytes \<Rightarrow> votes_bundle \<Rightarrow> bool \<Rightarrow> engine \<Rightarrow> engine \<times> unit res" where
  "admit_block C put got cid bs b verified en =
     (case put of
        Inl e \<Rightarrow> (en, Inl e)
      | Inr _ \<Rightarrow>
          let blocks = jset cid bs (en_blocks en); en' = en\<lparr>en_blocks := blocks\<rparr> in
          (case merge (\<lambda>c. sbind got (\<lambda>_. bs_get (eg_lib C) blocks c)) [cid] (en_crdt en') of
             (s, Inl e) \<Rightarrow> (en'\<lparr>en_crdt := s\<rparr>, Inl e)
           | (s, Inr _) \<Rightarrow> (recordChecks cid b verified verified (en'\<lparr>en_crdt := s\<rparr>), Inr ())))"

definition gate_admit :: "'x engine_config \<Rightarrow> unit res \<Rightarrow> unit res \<Rightarrow> cid \<Rightarrow> bytes \<Rightarrow> votes_bundle \<Rightarrow> engine \<Rightarrow> engine \<times> unit res" where
  "gate_admit C put got cid bs b en =
     (case admit_block C put got cid bs b True en of
        (en', Inl e) \<Rightarrow> (en', Inl e)
      | (en', Inr _) \<Rightarrow> (onStateChanged en', Inr ()))"

definition chase_admit :: "'x engine_config \<Rightarrow> unit res \<Rightarrow> unit res \<Rightarrow> cid \<Rightarrow> bytes \<Rightarrow> votes_bundle \<Rightarrow> bool \<Rightarrow> engine \<Rightarrow> engine \<times> unit res" where
  "chase_admit C put got cid bs b verified en =
     (case admit_block C put got cid bs b verified en of
        (en', Inl e) \<Rightarrow> (en', Inl e)
      | (en', Inr _) \<Rightarrow> (markStateChanged en', Inr ()))"

text \<open>\<open>crdt.add\<close> through the blockstore; \<open>put\<close> tells whether it takes the block.\<close>

definition engine_add :: "'x engine_config \<Rightarrow> unit res \<Rightarrow> votes_bundle \<Rightarrow> engine \<Rightarrow> (engine \<times> cid) res" where
  "engine_add C put b en =
     sbind (crdt_add (\<lambda>blocks b'. sbind put (\<lambda>_. bs_put (eg_lib C) blocks b')) (en_blocks en) b (en_crdt en))
       (\<lambda>(blocks, s, cid). Inr (en\<lparr>en_blocks := blocks, en_crdt := s\<rparr>, cid))"

definition track_signed :: "cid \<Rightarrow> votes_bundle \<Rightarrow> bool \<Rightarrow> nat option \<Rightarrow> engine \<Rightarrow> engine" where
  "track_signed cid b namesSettled token en =
     (let en1 = recordChecks cid b False namesSettled en;
          en2 = en1\<lparr>en_ownPublishes := jset cid b (en_ownPublishes en1), en_ownCids := sadd cid (en_ownCids en1)\<rparr>;
          en3 = (case token of
                   None \<Rightarrow> en2
                 | Some t \<Rightarrow> en2\<lparr>en_ownEvictionCbs := jset cid t (en_ownEvictionCbs en2),
                                 en_ownVerifiedCbs := jset cid t (en_ownVerifiedCbs en2),
                                 en_ownCheckpointCbs := jset cid t (en_ownCheckpointCbs en2)\<rparr>)
      in onStateChanged (call (EnqueueChecks [\<lparr>pb_cid = cid, pb_bundle = b\<rparr>]) en3))"

text \<open>\<open>sign\<close> and \<open>address\<close> are the signer's answers; a publication passes its token with all three
  callbacks.\<close>

definition signVote ::
  "'x engine_config \<Rightarrow> nat res \<Rightarrow> (ballot_typed_data \<Rightarrow> signature res) \<Rightarrow> string res \<Rightarrow> unit res \<Rightarrow> vote list \<Rightarrow> bool \<Rightarrow>
     nat option \<Rightarrow> engine \<Rightarrow> engine \<times> (votes_bundle \<times> bytes \<times> cid) res" where
  "signVote C head sign address put votes namesSettled token en =
     (case head of
        Inl e \<Rightarrow> (en, Inl e)
      | Inr h \<Rightarrow>
          let bucket = bucketForBlock (eg_bucketMath C) h;
              en1 = en\<lparr>en_currentBucket := bucket\<rparr>;
              blockNumber = sampleBlockForBucket (eg_bucketMath C) bucket;
              typedData = ballotTypedData (eg_criteriaCid C) (eg_chainId C) votes blockNumber
          in case sbind (sign typedData) (\<lambda>sig. sbind address (\<lambda>a.
                   let b = \<lparr>b_address = a, b_votes = votes, b_blockNumber = blockNumber, b_signature = sig\<rparr> in
                   sbind (guard (ZodError ''VotesBundleSchema'') (votes_bundle_ok (eg_lib C) b)) (\<lambda>_.
                   sbind (engine_add C put b en1) (\<lambda>(en2, cid). Inr (b, en2, cid))))) of
               Inl e \<Rightarrow> (en1, Inl e)
             | Inr (b, en2, cid) \<Rightarrow>
                 (track_signed cid b namesSettled token en2,
                  sbind (encodeBundle (eg_lib C) b) (\<lambda>encoded. Inr (b, encoded, cid))))"

text \<open>\<open>sent\<close> is how the transport's publish ends.\<close>

definition broadcastBundle :: "nat res \<Rightarrow> bytes \<Rightarrow> engine \<Rightarrow> engine \<times> nat res" where
  "broadcastBundle sent encoded en =
     (if en_transport en then (call (PublishBundle encoded) en, sent) else (en, Inr 0))"

section \<open>The snapshot\<close>

definition write_failed :: "'x engine_config \<Rightarrow> bool \<Rightarrow> engine \<Rightarrow> engine" where
  "write_failed C retry en =
     (let en' = en\<lparr>en_snapshotWriteFailures := Suc (en_snapshotWriteFailures en)\<rparr> in
      if retry \<and> en_snapshotWriteFailures en' < SNAPSHOT_WRITE_ATTEMPTS then scheduleSnapshotWrite en'
      else call (EmitError (SnapshotError WriteFailed (eg_topic C))) (en'\<lparr>en_snapshotWriteFailures := 0\<rparr>))"

definition snapshot_blob :: "'x engine_config \<Rightarrow> root_cache \<Rightarrow> bytes res" where
  "snapshot_blob C cached =
     sbind (encodeRootRecord (eg_lib C) (rc_record cached)) (\<lambda>record.
     Inr (encodeSnapshot (eg_lib C) \<lparr>sn_record = record, sn_blocks = map blk_bytes (rc_blocks cached)\<rparr>))"

text \<open>\<open>stored\<close> is how the snapshot store's write ends; one that fails leaves the old blob.\<close>

definition writeSnapshot ::
  "'x engine_config \<Rightarrow> nat \<Rightarrow> nat res \<Rightarrow> (cid \<Rightarrow> unit res) \<Rightarrow> unit res \<Rightarrow> bool \<Rightarrow> engine \<Rightarrow> engine" where
  "writeSnapshot C now head put stored retry en =
     (if hasUnsettledChecks en \<or> en_restoreBacklog en \<noteq> [] then en
      else case rootRecord C now head put en of
        (en', Inl _) \<Rightarrow> write_failed C retry en'
      | (en', Inr _) \<Rightarrow>
          (case en_rootRecordCache en' of
             None \<Rightarrow> en'
           | Some cached \<Rightarrow>
               (case sbind (snapshot_blob C cached) (\<lambda>blob. sbind stored (\<lambda>_. Inr blob)) of
                  Inl _ \<Rightarrow> write_failed C retry en'
                | Inr blob \<Rightarrow> call (SnapshotWritten blob) (en'\<lparr>en_disk := Some blob, en_snapshotWriteFailures := 0\<rparr>))))"

definition snapshot_timer_fires ::
  "'x engine_config \<Rightarrow> nat \<Rightarrow> nat res \<Rightarrow> (cid \<Rightarrow> unit res) \<Rightarrow> unit res \<Rightarrow> engine \<Rightarrow> engine" where
  "snapshot_timer_fires C now head put stored en =
     writeSnapshot C now head put stored True (en\<lparr>en_snapshotTimer := False\<rparr>)"

section \<open>The restore\<close>

text \<open>What the decode of a blob gives; any throw on the way means the blob is bad.\<close>

definition restore_decode :: "'x engine_config \<Rightarrow> bytes \<Rightarrow> votes_bundle list res" where
  "restore_decode C blob =
     (let L = eg_lib C in
      sbind (decodeSnapshot L blob) (\<lambda>snapshot.
      sbind (decodeRootRecord L (sn_record snapshot)) (\<lambda>record.
        let byCid = foldl (\<lambda>m bs. jset (blk_cid (blockForBytes L bs)) bs m) [] (sn_blocks snapshot) in
        decodeCheckpoint L (rr_root record) (\<lambda>cid. Inr (jget byCid cid)) (Some (fr_chunks record)))))"

text \<open>What becomes of one decoded bundle: skipped (known, or refused offline), kept for a retry, or
  admitted. \<open>head\<close> and \<open>put\<close> are what the head reader and the blockstore answer for it.\<close>

datatype restored = Skipped | Backlogged | Readmitted pending_bundle

definition restore_one :: "'x engine_config \<Rightarrow> nat \<Rightarrow> nat res \<Rightarrow> unit res \<Rightarrow> votes_bundle \<Rightarrow> engine \<Rightarrow> engine \<times> restored" where
  "restore_one C now head put b en =
     (case encodeBundle (eg_lib C) b of
        Inl _ \<Rightarrow> (en, Backlogged)
      | Inr bs \<Rightarrow>
          let cid = bundleCidForBytes (eg_lib C) bs in
          if jhas (en_checks en) cid then (en, Skipped)
          else case isEvaluableNow C now head b en of
            (en', Inl _) \<Rightarrow> (en', Backlogged)
          | (en', Inr False) \<Rightarrow> (en', Backlogged)
          | (en', Inr True) \<Rightarrow>
              if \<not> is_valid (eg_verifyOffline C b) then (en', Skipped)
              else (case engine_add C put b en' of
                      Inl _ \<Rightarrow> (en', Backlogged)
                    | Inr (en'', _) \<Rightarrow>
                        (recordChecks cid b False False en'', Readmitted \<lparr>pb_cid = cid, pb_bundle = b\<rparr>)))"

fun restore_each ::
  "'x engine_config \<Rightarrow> nat \<Rightarrow> (votes_bundle \<Rightarrow> nat res) \<Rightarrow> (votes_bundle \<Rightarrow> unit res) \<Rightarrow> votes_bundle list \<Rightarrow>
     engine \<Rightarrow> pending_bundle list \<Rightarrow> votes_bundle list \<Rightarrow> engine \<times> pending_bundle list \<times> votes_bundle list" where
  "restore_each C now heads puts [] en pending backlog = (en, pending, backlog)"
| "restore_each C now heads puts (b # bs) en pending backlog =
     (case restore_one C now (heads b) (puts b) b en of
        (en', Skipped) \<Rightarrow> restore_each C now heads puts bs en' pending backlog
      | (en', Backlogged) \<Rightarrow> restore_each C now heads puts bs en' pending (backlog @ [b])
      | (en', Readmitted p) \<Rightarrow> restore_each C now heads puts bs en' (pending @ [p]) backlog)"

definition armRestoreRetry :: "engine \<Rightarrow> engine" where
  "armRestoreRetry en =
     (if en_restoreTimer en \<noteq> None \<or> \<not> en_joined en then en
      else en\<lparr>en_restoreTimer := Some (min (RESTORE_RETRY_MS * 2 ^ en_restoreAttempts en) RESTORE_RETRY_CAP_MS),
              en_restoreAttempts := Suc (en_restoreAttempts en)\<rparr>)"

definition admitRestored ::
  "'x engine_config \<Rightarrow> nat \<Rightarrow> (votes_bundle \<Rightarrow> nat res) \<Rightarrow> (votes_bundle \<Rightarrow> unit res) \<Rightarrow> votes_bundle list \<Rightarrow> engine \<Rightarrow> engine" where
  "admitRestored C now heads puts winners en =
     (case restore_each C now heads puts winners en [] [] of
        (en', pending, backlog) \<Rightarrow>
          let wasIncomplete = (en_restoreBacklog en' \<noteq> []);
              en1 = en'\<lparr>en_restoreBacklog := backlog\<rparr>;
              en2 = (if pending \<noteq> [] then onStateChanged (call (EnqueueChecks pending) en1) else en1)
          in if backlog = [] then (if wasIncomplete then scheduleSnapshotWrite en2 else en2)
             else armRestoreRetry
                    (if wasIncomplete then en2 else call (EmitError (SnapshotError RestoreIncomplete (eg_topic C))) en2))"

text \<open>\<open>read\<close> is how the snapshot store's read ends.\<close>

definition restoreSnapshot ::
  "'x engine_config \<Rightarrow> nat \<Rightarrow> unit res \<Rightarrow> (votes_bundle \<Rightarrow> nat res) \<Rightarrow> (votes_bundle \<Rightarrow> unit res) \<Rightarrow> engine \<Rightarrow> engine" where
  "restoreSnapshot C now read heads puts en =
     (case (read, en_disk en) of
        (Inl _, _) \<Rightarrow> en
      | (Inr _, None) \<Rightarrow> en
      | (Inr _, Some blob) \<Rightarrow>
          (case restore_decode C blob of
             Inl _ \<Rightarrow> call (EmitError (SnapshotError Discarded (eg_topic C))) (en\<lparr>en_disk := None\<rparr>)
           | Inr winners \<Rightarrow> admitRestored C now heads puts winners (en\<lparr>en_restoreAttempts := 0\<rparr>)))"

definition restore_timer_fires ::
  "'x engine_config \<Rightarrow> nat \<Rightarrow> (votes_bundle \<Rightarrow> nat res) \<Rightarrow> (votes_bundle \<Rightarrow> unit res) \<Rightarrow> engine \<Rightarrow> engine" where
  "restore_timer_fires C now heads puts en =
     (let en' = en\<lparr>en_restoreTimer := None\<rparr> in
      if en_restoreBacklog en' = [] \<or> \<not> en_joined en' then en'
      else admitRestored C now heads puts (en_restoreBacklog en') en')"

section \<open>Joining and leaving\<close>

definition markDestroyed :: "engine \<Rightarrow> engine" where
  "markDestroyed en = en\<lparr>en_destroyed := True\<rparr>"

text \<open>\<open>join\<close> up to the transport's start, which it awaits: a throw, nothing to do, or the start.\<close>

datatype join_begun = AlreadyJoined | Starting

definition join_begin :: "engine \<Rightarrow> engine \<times> join_begun res" where
  "join_begin en =
     (if en_destroyed en then (en, Inl VoterDestroyedError)
      else if en_joined en then (en, Inr AlreadyJoined)
      else (en\<lparr>en_checkpointDirty := True, en_rootRecordCache := None, en_chaser := True, en_transport := True\<rparr>,
            Inr Starting))"

text \<open>From the started transport to the restore's end; then from there, with the state read at last.\<close>

definition join_started :: "engine \<Rightarrow> engine" where
  "join_started en = (call TopicJoined (call ResumeChecks (en\<lparr>en_joined := True\<rparr>)))\<lparr>en_heartbeat := True\<rparr>"

definition join_finish :: "'x engine_config \<Rightarrow> nat \<Rightarrow> nat res \<Rightarrow> engine \<Rightarrow> engine \<times> unit res" where
  "join_finish C now head en =
     (if nodeCount (en_crdt en) = 0 then (en, Inr ())
      else case refreshBucket C now head False en of
             (en', Inl e) \<Rightarrow> (en', Inl e)
           | (en', Inr _) \<Rightarrow> (fst (pruneDecayed C en'), Inr ()))"

text \<open>\<open>leave\<close> up to the transport's stop, with the flush of an armed snapshot write, and the rest.\<close>

definition leave_begin ::
  "'x engine_config \<Rightarrow> nat \<Rightarrow> nat res \<Rightarrow> (cid \<Rightarrow> unit res) \<Rightarrow> unit res \<Rightarrow> engine \<Rightarrow> engine" where
  "leave_begin C now head put stored en =
     (let en1 = en\<lparr>en_heartbeat := False\<rparr> in
      if en_snapshotTimer en1 then writeSnapshot C now head put stored False (en1\<lparr>en_snapshotTimer := False\<rparr>) else en1)"

definition leave_reset :: "engine \<Rightarrow> engine \<times> bool" where
  "leave_reset en =
     ((call StopChecks (en\<lparr>en_restoreTimer := None, en_restoreBacklog := [], en_restoreAttempts := 0,
                           en_snapshotWriteFailures := 0\<rparr>))
        \<lparr>en_heardMatchingRoot := False, en_publishedRoot := False, en_chaser := False, en_peerRoots := [],
         en_joined := False\<rparr>, en_joined en)"

definition leave_end :: "bool \<Rightarrow> engine \<Rightarrow> engine" where
  "leave_end wasJoined en =
     (let en' = en\<lparr>en_transport := False\<rparr> in if wasJoined then call TopicLeft en' else en')"

end
