(* ===== verification/Engine_Steps.thy ===== *)
theory Engine_Steps
  imports Engine
begin

text \<open>
  The engine as a state machine: any operation may come at any time, with any answer of the seams it
  uses, encodings of the checkpoint overlap, a heartbeat may be interrupted between its pruning and its
  publication, and the handling of a heard root between the note of its sender and the rest. What every reachable state satisfies: the working
  set and the recorded checks name the same bundles, nothing is remembered of a bundle that is
  gone, the maps fed by peers stay within their caps, and each publication hears at most one verdict.
\<close>

section \<open>Steps\<close>

definition fresh_token :: "nat \<Rightarrow> engine \<Rightarrow> bool" where
  "fresh_token t en \<longleftrightarrow>
     t \<notin> ran (jget (en_ownEvictionCbs en)) \<and> t \<notin> ran (jget (en_ownCheckpointCbs en)) \<and>
     (\<forall>c \<in> set (en_calls en). case c of
        NotifyEvicted t' _ _ \<Rightarrow> t' \<noteq> t
      | NotifyVerified t' _ \<Rightarrow> t' \<noteq> t
      | NotifyCheckpointed t' _ \<Rightarrow> t' \<noteq> t
      | _ \<Rightarrow> True)"

inductive en_step :: "'x engine_config \<Rightarrow> engine \<Rightarrow> engine \<Rightarrow> bool" for C where
  blockstore: "en_step C en (en\<lparr>en_blocks := blocks\<rparr>)"
| listeners: "en_step C en (en\<lparr>en_updateListeners := n\<rparr>)"
| errors: "en_step C en (call (EmitError e) en)"
| gate_admits: "parseBundle (eg_lib C) bs = Inr (cid, b) \<Longrightarrow> en_step C en (fst (gate_admit C put got cid bs b en))"
| chase_admits: "parseBundle (eg_lib C) bs = Inr (cid, b) \<Longrightarrow> en_step C en (fst (chase_admit C put got cid bs b verified en))"
| signs: "(\<And>t. token = Some t \<Longrightarrow> fresh_token t en) \<Longrightarrow>
    en_step C en (fst (signVote C head sign address put votes namesSettled token en))"
| broadcasts: "en_step C en (fst (broadcastBundle sent encoded en))"
| settles: "en_step C en (settleCheck cid key en)"
| evicts: "en_step C en (evictBundle cid verdict en)"
| tracks: "en_step C en (trackOwnBundle cid en)"
| decodes: "en_step C en (noteCheckpointContents root cids en)"
| notices: "en_step C en (notePeerRoot p root en)"
| hears: "en_step C en (handleRootRecord C now head puts connections record None en)"
| ingests: "en_step C en (fst (ingestRootRecord C now head puts connections p encoded en))"
| serves: "en_step C en (fst (rootRecordWithBlocks C now head puts en))"
| encode_begins: "record_begin C now head en = (en', Inr (Encoding bucket ws)) \<Longrightarrow>
    en_step C en (en'\<lparr>en_encodes := (bucket, ws) # en_encodes en'\<rparr>)"
| encode_ends: "(bucket, ws) \<in> set (en_encodes en) \<Longrightarrow>
    en_step C en ((fst (record_finish C puts bucket ws en))\<lparr>en_encodes := remove1 (bucket, ws) (en_encodes en)\<rparr>)"
| dates: "en_step C en (fst (isEvaluableNow C now head b en))"
| tallies: "en_step C en (fst (computeTally C now head head' block_at en))"
| emits: "en_step C en (computeAndEmit C now head head' block_at en)"
| recounts: "en_tallyRefreshing en \<Longrightarrow> en_step C en (tally_round C now head head' block_at en)"
| beat_prunes: "en_heartbeat en \<Longrightarrow> en_step C en (fst (prune_on_tick C now head en))"
| beat_publishes: "en_step C en (beat_publish C now head puts pruned en)"
| writes: "en_snapshotTimer en \<Longrightarrow> en_step C en (snapshot_timer_fires C now head puts stored en)"
| destroys: "en_step C en (markDestroyed en)"
| join_begins: "en_step C en (fst (join_begin en))"
| join_starts: "en_step C en (join_started en)"
| restores: "en_step C en (restoreSnapshot C now stored heads bputs en)"
| retries: "en_restoreTimer en \<noteq> None \<Longrightarrow> en_step C en (restore_timer_fires C now heads bputs en)"
| join_ends: "en_step C en (fst (join_finish C now head en))"
| leave_begins: "en_step C en (leave_begin C now head puts stored en)"
| leave_resets: "en_step C en (fst (leave_reset en))"
| leave_ends: "en_step C en (leave_end wasJoined en)"

abbreviation en_run :: "'x engine_config \<Rightarrow> engine \<Rightarrow> engine \<Rightarrow> bool" where
  "en_run C \<equiv> (en_step C)\<^sup>*\<^sup>*"

section \<open>What an operation leaves alone\<close>

text \<open>The part of the state that names bundles, roots and peers.\<close>

definition tracking ::
  "engine \<Rightarrow> crdt \<times> (cid, bundle_checks) jsmap \<times> (cid, votes_bundle) jsmap \<times> (cid, nat) jsmap \<times> (cid, nat) jsmap \<times>
     (cid, nat) jsmap \<times> cid list \<times> (cid, cid list) jsmap \<times> (cid, peer list) jsmap \<times> (peer, cid) jsmap" where
  "tracking en =
     (en_crdt en, en_checks en, en_ownPublishes en, en_ownEvictionCbs en, en_ownVerifiedCbs en,
      en_ownCheckpointCbs en, en_ownCids en, en_decodedRoots en, en_ownCheckpointPeers en, en_peerRoots en)"

named_theorems quiet "operations that change no tracking field and deliver no verdict"

lemma tracking_fields:
  assumes "tracking en' = tracking en"
  shows "en_crdt en' = en_crdt en" "en_checks en' = en_checks en" "en_ownPublishes en' = en_ownPublishes en"
    "en_ownEvictionCbs en' = en_ownEvictionCbs en" "en_ownVerifiedCbs en' = en_ownVerifiedCbs en"
    "en_ownCheckpointCbs en' = en_ownCheckpointCbs en" "en_ownCids en' = en_ownCids en"
    "en_decodedRoots en' = en_decodedRoots en" "en_ownCheckpointPeers en' = en_ownCheckpointPeers en"
    "en_peerRoots en' = en_peerRoots en"
  using assms by (simp_all add: tracking_def)

text \<open>The verdicts a call delivers to publication \<open>t\<close>, and the news that a peer has its vote.\<close>

fun verdict_for :: "nat \<Rightarrow> engine_call \<Rightarrow> bool" where
  "verdict_for t (NotifyEvicted t' b v) = (t' = t)"
| "verdict_for t (NotifyVerified t' c) = (t' = t)"
| "verdict_for t _ = False"

fun news_for :: "nat \<Rightarrow> engine_call \<Rightarrow> bool" where
  "news_for t (NotifyCheckpointed t' c) = (t' = t)"
| "news_for t _ = False"

definition verdicts :: "nat \<Rightarrow> engine \<Rightarrow> nat" where
  "verdicts t en = length (filter (verdict_for t) (en_calls en))"

definition news :: "nat \<Rightarrow> engine \<Rightarrow> nat" where
  "news t en = length (filter (news_for t) (en_calls en))"

text \<open>An operation is quiet when it keeps the tracking fields and delivers nothing to publications.\<close>

definition quiet_to :: "engine \<Rightarrow> engine \<Rightarrow> bool" where
  "quiet_to en en' \<longleftrightarrow> tracking en' = tracking en \<and> (\<forall>t. verdicts t en' = verdicts t en \<and> news t en' = news t en)"

lemma quiet_refl [simp, intro]: "quiet_to en en"
  by (simp add: quiet_to_def)

lemma quiet_trans [trans]: "quiet_to a b \<Longrightarrow> quiet_to b c \<Longrightarrow> quiet_to a c"
  by (simp add: quiet_to_def)

lemmas quiet_defs = quiet_to_def tracking_def verdicts_def news_def

lemma quiet_call:
  assumes "\<And>t. \<not> verdict_for t c" "\<And>t. \<not> news_for t c"
  shows "quiet_to en (call c en)"
  using assms by (simp add: quiet_defs call_def)

lemma quiet_schedule: "quiet_to en (scheduleSnapshotWrite en)"
  by (simp add: scheduleSnapshotWrite_def quiet_defs)

lemma quiet_mark: "quiet_to en (markStateChanged en)"
proof -
  have "quiet_to en (call CheckpointChanged (en\<lparr>en_checkpointDirty := True\<rparr>))" by (simp add: quiet_defs call_def)
  then show ?thesis unfolding markStateChanged_def by (rule quiet_trans) (rule quiet_schedule)
qed

lemma quiet_kick: "quiet_to en (kickTallyRefresh en)"
  by (simp add: kickTallyRefresh_def quiet_defs Let_def)

lemma quiet_changed: "quiet_to en (onStateChanged en)"
  unfolding onStateChanged_def by (rule quiet_trans [OF quiet_mark quiet_kick])

lemma quiet_refresh: "quiet_to en (fst (refreshBucket C now head maxAge en))"
  by (simp add: refreshBucket_def quiet_defs Let_def split: sum.splits)

lemma quiet_now: "quiet_to en (fst (nowBucket C now head en))"
  by (simp add: nowBucket_def quiet_refresh)

lemma quiet_dates: "quiet_to en (fst (isEvaluableNow C now head b en))"
  using quiet_now [of en C now head] by (auto simp: isEvaluableNow_def Let_def split: prod.splits)

lemma quiet_begin: "quiet_to en (fst (record_begin C now head en))"
proof -
  obtain en' r where r: "record_bucket C now head en = (en', r)" by fastforce
  then have "quiet_to en en'" using quiet_refresh [of en C now head True] by (auto simp: record_bucket_def split: if_splits)
  moreover have "quiet_to en' (fst (record_begin C now head en))"
    by (auto simp: record_begin_def r quiet_defs split: sum.splits option.splits)
  ultimately show ?thesis by (rule quiet_trans)
qed

lemma quiet_finish: "quiet_to en (fst (record_finish C put bucket ws en))"
  by (auto simp: record_finish_def quiet_defs split: sum.splits prod.splits)

lemma quiet_record: "quiet_to en (fst (rootRecord C now head put en))"
proof -
  obtain en' r where r: "record_begin C now head en = (en', r)" by fastforce
  then have "quiet_to en en'" using quiet_begin [of en C now head] by simp
  moreover have "quiet_to en' (fst (rootRecord C now head put en))"
    using quiet_finish by (auto simp: rootRecord_def r split: sum.splits record_begun.splits)
  ultimately show ?thesis by (rule quiet_trans)
qed

lemma quiet_served: "quiet_to en (fst (rootRecordWithBlocks C now head put en))"
  using quiet_record [of en C now head put] by (auto simp: rootRecordWithBlocks_def split: prod.splits sum.splits)

lemma quiet_chase: "quiet_to en (chase root chunks known connections en)"
  by (simp add: chase_def quiet_call)

lemma quiet_publish: "quiet_to en (publish_root own en)"
  by (simp add: publish_root_def quiet_call)

lemma quiet_write_failed: "quiet_to en (write_failed C retry en)"
  by (auto simp: write_failed_def Let_def scheduleSnapshotWrite_def quiet_defs call_def)

lemma quiet_write: "quiet_to en (writeSnapshot C now head put stored retry en)"
proof (cases "hasUnsettledChecks en \<or> en_restoreBacklog en \<noteq> []")
  case False
  obtain en' r where r: "rootRecord C now head put en = (en', r)" by fastforce
  then have "quiet_to en en'" using quiet_record [of en C now head put] by simp
  moreover have "quiet_to en' (writeSnapshot C now head put stored retry en)"
    using False quiet_write_failed
    by (auto simp: writeSnapshot_def r split: sum.splits option.splits) (simp add: quiet_defs call_def)
  ultimately show ?thesis by (rule quiet_trans)
qed (auto simp: writeSnapshot_def)

lemma quiet_arm: "quiet_to en (armRestoreRetry en)"
  by (simp add: armRestoreRetry_def quiet_defs)

lemma quiet_fields:
  "quiet_to en (en\<lparr>en_blocks := x1\<rparr>)" "quiet_to en (en\<lparr>en_updateListeners := x2\<rparr>)"
  "quiet_to en (en\<lparr>en_snapshotTimer := x3\<rparr>)" "quiet_to en (en\<lparr>en_restoreTimer := x4\<rparr>)"
  "quiet_to en (en\<lparr>en_restoreBacklog := x5\<rparr>)" "quiet_to en (en\<lparr>en_restoreAttempts := x6\<rparr>)"
  "quiet_to en (en\<lparr>en_encodes := x7\<rparr>)" "quiet_to en (en\<lparr>en_heartbeat := x8\<rparr>)"
  "quiet_to en (en\<lparr>en_heardMatchingRoot := x9\<rparr>)" "quiet_to en (en\<lparr>en_publishedRoot := x10\<rparr>)"
  "quiet_to en (en\<lparr>en_tallyDirty := x11\<rparr>)" "quiet_to en (en\<lparr>en_cachedTally := x12\<rparr>)"
  "quiet_to en (en\<lparr>en_tallyRefreshing := x13\<rparr>)" "quiet_to en (en\<lparr>en_transport := x14\<rparr>)"
  "quiet_to en (en\<lparr>en_disk := x15\<rparr>)" "quiet_to en (en\<lparr>en_currentBucket := x16\<rparr>)"
  by (simp_all add: quiet_defs)

lemma quiet_broadcast: "quiet_to en (fst (broadcastBundle sent encoded en))"
  by (simp add: broadcastBundle_def quiet_call)

lemma quiet_join:
  "quiet_to en (markDestroyed en)" "quiet_to en (fst (join_begin en))" "quiet_to en (join_started en)"
  "quiet_to en (leave_end wasJoined en)"
  by (simp_all add: markDestroyed_def join_begin_def join_started_def leave_end_def quiet_defs call_def Let_def)

lemma quiet_timer: "quiet_to en (snapshot_timer_fires C now head put stored en)"
  unfolding snapshot_timer_fires_def by (rule quiet_trans [OF quiet_fields(3) quiet_write])

lemma quiet_leave_begin: "quiet_to en (leave_begin C now head put stored en)"
proof -
  let ?en = "en\<lparr>en_heartbeat := False\<rparr>"
  have "quiet_to ?en (writeSnapshot C now head put stored False (?en\<lparr>en_snapshotTimer := False\<rparr>))"
    by (rule quiet_trans [OF quiet_fields(3) quiet_write])
  with quiet_fields(8) [of en False] show ?thesis
    unfolding leave_begin_def Let_def by (auto intro: quiet_trans)
qed

section \<open>The invariant\<close>

text \<open>The keys of a map, as a set the simplifier leaves alone.\<close>

definition keyset :: "('k, 'v) jsmap \<Rightarrow> 'k set" where
  "keyset m = fst ` set m"

lemma keyset_simps [simp]:
  "keyset [] = {}" "keyset (jset k v m) = insert k (keyset m)" "keyset (jdel k m) = keyset m - {k}"
  by (simp_all add: keyset_def keys_jset keys_jdel)

lemma keyset_get: "jget m k = Some v \<Longrightarrow> k \<in> keyset m"
  using jget_SomeD [of m k v] by (force simp: keyset_def)

lemma keyset_none: "k \<notin> keyset m \<Longrightarrow> jget m k = None"
  using keyset_get by fastforce

definition sets_ok :: "engine \<Rightarrow> bool" where
  "sets_ok en \<longleftrightarrow> crdt_wf (en_crdt en) \<and> jwf (en_checks en) \<and>
     keyset (en_checks en) = keyset (bundles (en_crdt en)) \<and>
     keyset (en_ownPublishes en) \<subseteq> keyset (bundles (en_crdt en)) \<and>
     en_ownVerifiedCbs en = en_ownEvictionCbs en \<and>
     keyset (en_ownEvictionCbs en) \<subseteq> keyset (en_ownPublishes en)"

definition peers_ok :: "engine \<Rightarrow> bool" where
  "peers_ok en \<longleftrightarrow> distinct (en_ownCids en) \<and>
     (\<forall>k ps. jget (en_ownCheckpointPeers en) k = Some ps \<longrightarrow> k \<in> set (en_ownCids en) \<and> ps \<noteq> [] \<and> distinct ps)"

definition caps_ok :: "engine \<Rightarrow> bool" where
  "caps_ok en \<longleftrightarrow> jwf (en_peerRoots en) \<and> length (en_peerRoots en) \<le> PEER_ROOTS_MAX \<and>
     jwf (en_decodedRoots en) \<and> length (en_decodedRoots en) \<le> DECODED_ROOTS_MAX"

definition one_each :: "(cid, nat) jsmap \<Rightarrow> (nat \<Rightarrow> nat) \<Rightarrow> bool" where
  "one_each cbs told \<longleftrightarrow>
     (\<forall>t. told t \<le> 1) \<and> (\<forall>k t. jget cbs k = Some t \<longrightarrow> told t = 0) \<and>
     (\<forall>k k' t. jget cbs k = Some t \<longrightarrow> jget cbs k' = Some t \<longrightarrow> k = k')"

definition tokens_ok :: "engine \<Rightarrow> bool" where
  "tokens_ok en \<longleftrightarrow>
     one_each (en_ownEvictionCbs en) (\<lambda>t. verdicts t en) \<and> one_each (en_ownCheckpointCbs en) (\<lambda>t. news t en)"

definition engine_inv :: "engine \<Rightarrow> bool" where
  "engine_inv en \<longleftrightarrow> sets_ok en \<and> peers_ok en \<and> caps_ok en \<and> tokens_ok en"

lemmas inv_defs = engine_inv_def sets_ok_def peers_ok_def caps_ok_def tokens_ok_def

lemma inv_quiet: "quiet_to en en' \<Longrightarrow> engine_inv en \<Longrightarrow> engine_inv en'"
  unfolding quiet_to_def by (simp add: inv_defs tracking_fields [of en' en])

lemma inv_start: "engine_inv (engine_start blocks disk)"
  by (simp add: inv_defs engine_start_def one_each_def verdicts_def news_def empty_crdt_def crdt_wf_def)

text \<open>Callbacks: dropping one, telling one, and registering a new one.\<close>

lemma one_each_del: "one_each cbs told \<Longrightarrow> one_each (jdel k cbs) told"
  by (auto simp: one_each_def jsmap_simps split: if_splits)

lemma one_each_tell:
  "one_each cbs told \<Longrightarrow> jget cbs k = Some t \<Longrightarrow> one_each (jdel k cbs) (told(t := Suc (told t)))"
  unfolding one_each_def jsmap_simps fun_upd_def
  by (intro conjI; (elim conjE)?; (intro allI impI)?; fastforce split: if_splits)

lemma one_each_new:
  "one_each cbs told \<Longrightarrow> t \<notin> ran (jget cbs) \<Longrightarrow> told t = 0 \<Longrightarrow> one_each (jset k t cbs) told"
  by (auto simp: one_each_def jsmap_simps ran_def split: if_splits)

lemma told_call:
  "verdicts t (call c en) = (if verdict_for t c then Suc (verdicts t en) else verdicts t en)"
  "news t (call c en) = (if news_for t c then Suc (news t en) else news t en)"
  by (simp_all add: verdicts_def news_def call_def)

lemma fresh_tokenD:
  assumes "fresh_token t en"
  shows "t \<notin> ran (jget (en_ownEvictionCbs en))" "t \<notin> ran (jget (en_ownCheckpointCbs en))"
    "verdicts t en = 0" "news t en = 0"
proof -
  have v: "\<not> verdict_for t c" "\<not> news_for t c" if "c \<in> set (en_calls en)" for c
    using assms that by (cases c; force simp: fresh_token_def)+
  show "verdicts t en = 0" "news t en = 0"
    using v by (auto simp: verdicts_def news_def filter_empty_conv)
qed (use assms in \<open>simp_all add: fresh_token_def\<close>)

section \<open>Own bundles\<close>

lemma forget_fields [simp]:
  "en_crdt (forgetOwnBundle k en) = en_crdt en" "en_checks (forgetOwnBundle k en) = en_checks en"
  "en_ownPublishes (forgetOwnBundle k en) = jdel k (en_ownPublishes en)"
  "en_ownEvictionCbs (forgetOwnBundle k en) = jdel k (en_ownEvictionCbs en)"
  "en_ownVerifiedCbs (forgetOwnBundle k en) = jdel k (en_ownVerifiedCbs en)"
  "en_ownCheckpointCbs (forgetOwnBundle k en) = jdel k (en_ownCheckpointCbs en)"
  "en_ownCids (forgetOwnBundle k en) = removeAll k (en_ownCids en)"
  "en_ownCheckpointPeers (forgetOwnBundle k en) = jdel k (en_ownCheckpointPeers en)"
  "en_peerRoots (forgetOwnBundle k en) = en_peerRoots en" "en_decodedRoots (forgetOwnBundle k en) = en_decodedRoots en"
  "en_calls (forgetOwnBundle k en) = en_calls en"
  "verdicts t (forgetOwnBundle k en) = verdicts t en" "news t (forgetOwnBundle k en) = news t en"
  by (simp_all add: forgetOwnBundle_def dropOwnTracking_def Let_def verdicts_def news_def)

lemma peers_forget: "peers_ok en \<Longrightarrow> peers_ok (forgetOwnBundle k en)"
  by (auto simp: peers_ok_def jsmap_simps distinct_removeAll split: if_splits)

lemma tokens_forget: "tokens_ok en \<Longrightarrow> tokens_ok (forgetOwnBundle k en)"
  by (simp add: tokens_ok_def one_each_del)

lemma inv_forget: "engine_inv en \<Longrightarrow> engine_inv (forgetOwnBundle k en)"
  using peers_forget [of en k] tokens_forget [of en k]
  by (auto simp: engine_inv_def sets_ok_def caps_ok_def)

lemma inv_track: "engine_inv en \<Longrightarrow> engine_inv (trackOwnBundle key en)"
proof -
  assume inv: "engine_inv en"
  have add: "engine_inv (e\<lparr>en_ownCids := sadd key (en_ownCids e)\<rparr>)" if "engine_inv e" for e
    using that by (simp add: inv_defs verdicts_def news_def distinct_sadd)
  show ?thesis
    using inv add [OF inv] add [OF inv_forget [OF inv]] unfolding trackOwnBundle_def Let_def by auto
qed

text \<open>Dropping a bundle's verdict callbacks, silently or after telling the one they belong to.\<close>

lemma drop_fields [simp]:
  "en_crdt (dropOwnTracking k en) = en_crdt en" "en_checks (dropOwnTracking k en) = en_checks en"
  "en_ownPublishes (dropOwnTracking k en) = jdel k (en_ownPublishes en)"
  "en_ownEvictionCbs (dropOwnTracking k en) = jdel k (en_ownEvictionCbs en)"
  "en_ownVerifiedCbs (dropOwnTracking k en) = jdel k (en_ownVerifiedCbs en)"
  "en_ownCheckpointCbs (dropOwnTracking k en) = en_ownCheckpointCbs en" "en_ownCids (dropOwnTracking k en) = en_ownCids en"
  "en_ownCheckpointPeers (dropOwnTracking k en) = en_ownCheckpointPeers en"
  "en_peerRoots (dropOwnTracking k en) = en_peerRoots en" "en_decodedRoots (dropOwnTracking k en) = en_decodedRoots en"
  "verdicts t (dropOwnTracking k en) = verdicts t en" "news t (dropOwnTracking k en) = news t en"
  by (simp_all add: dropOwnTracking_def verdicts_def news_def)

lemma call_fields [simp]:
  "en_crdt (call c en) = en_crdt en" "en_checks (call c en) = en_checks en"
  "en_ownPublishes (call c en) = en_ownPublishes en" "en_ownEvictionCbs (call c en) = en_ownEvictionCbs en"
  "en_ownVerifiedCbs (call c en) = en_ownVerifiedCbs en" "en_ownCheckpointCbs (call c en) = en_ownCheckpointCbs en"
  "en_ownCids (call c en) = en_ownCids en" "en_ownCheckpointPeers (call c en) = en_ownCheckpointPeers en"
  "en_peerRoots (call c en) = en_peerRoots en" "en_decodedRoots (call c en) = en_decodedRoots en"
  by (simp_all add: call_def)

lemma inv_drop: "engine_inv en \<Longrightarrow> engine_inv (dropOwnTracking k en)"
  by (auto simp: inv_defs one_each_del)

lemma told_upd:
  "(\<And>x. verdict_for x c = (x = t)) \<Longrightarrow> (\<lambda>x. verdicts x (call c en)) = (\<lambda>x. verdicts x en)(t := Suc (verdicts t en))"
  "(\<And>x. \<not> news_for x c) \<Longrightarrow> (\<lambda>x. news x (call c en)) = (\<lambda>x. news x en)"
  "(\<And>x. news_for x c = (x = t)) \<Longrightarrow> (\<lambda>x. news x (call c en)) = (\<lambda>x. news x en)(t := Suc (news t en))"
  "(\<And>x. \<not> verdict_for x c) \<Longrightarrow> (\<lambda>x. verdicts x (call c en)) = (\<lambda>x. verdicts x en)"
  by (auto simp: told_call)

lemma inv_drop_told:
  assumes inv: "engine_inv en" and t: "jget (en_ownEvictionCbs en) k = Some t \<or> jget (en_ownVerifiedCbs en) k = Some t"
    and c: "\<And>x. verdict_for x c = (x = t)" "\<And>x. \<not> news_for x c"
  shows "engine_inv (dropOwnTracking k (call c en))"
proof -
  have "jget (en_ownEvictionCbs en) k = Some t" using inv t by (auto simp: engine_inv_def sets_ok_def)
  with inv have "one_each (jdel k (en_ownEvictionCbs en)) ((\<lambda>x. verdicts x en)(t := Suc (verdicts t en)))"
    by (intro one_each_tell) (simp_all add: inv_defs)
  with inv_drop [OF inv, of k] show ?thesis
    by (simp add: inv_defs told_upd(1) [OF c(1)] told_upd(2) [OF c(2)])
qed

lemma inv_settle: "engine_inv en \<Longrightarrow> engine_inv (settleCheck cid key en)"
proof (cases "jget (en_checks en) cid")
  case (Some checks)
  assume inv: "engine_inv en"
  let ?en = "en\<lparr>en_checks := jset cid (set_check key checks) (en_checks en)\<rparr>"
  have dom: "insert cid (keyset (bundles (en_crdt en))) = keyset (bundles (en_crdt en))"
    using keyset_get [OF Some] inv by (auto simp: engine_inv_def sets_ok_def)
  have e: "engine_inv ?en"
    using inv by (simp add: inv_defs dom verdicts_def news_def jwf_jset)
  have told: "engine_inv (dropOwnTracking cid (notify (\<lambda>t. NotifyVerified t cid) (jget (en_ownVerifiedCbs ?en) cid) ?en))"
  proof (cases "jget (en_ownVerifiedCbs ?en) cid")
    case None
    with inv_drop [OF e] show ?thesis by (simp add: notify_def)
  next
    case (Some t)
    with inv_drop_told [OF e, of cid t "NotifyVerified t cid"] show ?thesis by (auto simp: notify_def)
  qed
  show ?thesis
    using inv_quiet [OF quiet_changed told] inv_quiet [OF quiet_changed e]
    by (simp add: settleCheck_def Some Let_def)
qed (simp add: settleCheck_def)

lemma inv_call_told:
  assumes "engine_inv en" "one_each (en_ownEvictionCbs en) ((\<lambda>x. verdicts x en)(t := Suc (verdicts t en)))"
    and c: "\<And>x. verdict_for x c = (x = t)" "\<And>x. \<not> news_for x c"
  shows "engine_inv (call c en)"
  using assms(1,2) by (simp add: inv_defs told_upd(1) [OF c(1)] told_upd(2) [OF c(2)])

lemma bundles_remove [simp]: "bundles (crdt_remove c s) = jdel c (bundles s)"
  by (simp add: crdt_remove_def)

lemma inv_evict: "engine_inv en \<Longrightarrow> engine_inv (evictBundle cid verdict en)"
proof -
  assume inv: "engine_inv en"
  let ?en = "en\<lparr>en_crdt := crdt_remove cid (en_crdt en), en_checks := jdel cid (en_checks en),
                en_ownCids := removeAll cid (en_ownCids en),
                en_ownCheckpointPeers := jdel cid (en_ownCheckpointPeers en)\<rparr>"
  have e: "engine_inv (forgetOwnBundle cid ?en)"
  proof -
    have "sets_ok (forgetOwnBundle cid ?en)"
      using inv by (auto simp: inv_defs crdt_wf_remove jwf_jdel)
    moreover have "peers_ok (forgetOwnBundle cid ?en)"
      using inv by (auto simp: inv_defs jsmap_simps distinct_removeAll split: if_splits)
    moreover have "tokens_ok (forgetOwnBundle cid ?en)"
      by (rule tokens_forget) (use inv in \<open>simp add: inv_defs verdicts_def news_def\<close>)
    moreover have "caps_ok (forgetOwnBundle cid ?en)" using inv by (simp add: inv_defs)
    ultimately show ?thesis by (simp add: engine_inv_def)
  qed
  show ?thesis
  proof (cases "jget (en_ownPublishes en) cid")
    case None
    then have "cid \<notin> keyset (en_ownPublishes en)" by (simp add: keyset_def map_of_eq_None_iff)
    then have "engine_inv ?en"
      using inv by (auto simp: inv_defs crdt_wf_remove jwf_jdel jsmap_simps distinct_removeAll
          verdicts_def news_def split: if_splits)
    from inv_quiet [OF quiet_changed this] None show ?thesis by (simp add: evictBundle_def Let_def)
  next
    case (Some own)
    have told: "engine_inv (notify (\<lambda>t. NotifyEvicted t own verdict) (jget (en_ownEvictionCbs en) cid) (forgetOwnBundle cid ?en))"
    proof (cases "jget (en_ownEvictionCbs en) cid")
      case None
      with e show ?thesis by (simp add: notify_def)
    next
      case t: (Some t)
      have "one_each (jdel cid (en_ownEvictionCbs en)) ((\<lambda>x. verdicts x en)(t := Suc (verdicts t en)))"
        using inv by (intro one_each_tell [OF _ t]) (simp add: inv_defs)
      moreover have "verdicts x (forgetOwnBundle cid ?en) = verdicts x en" for x
        unfolding forget_fields by (simp add: verdicts_def)
      ultimately have "engine_inv (call (NotifyEvicted t own verdict) (forgetOwnBundle cid ?en))"
        by (intro inv_call_told [OF e]) auto
      with t show ?thesis by (simp add: notify_def)
    qed
    have "engine_inv (call (EmitEvicted own verdict)
        (notify (\<lambda>t. NotifyEvicted t own verdict) (jget (en_ownEvictionCbs en) cid) (forgetOwnBundle cid ?en)))"
      by (rule inv_quiet [OF quiet_call told]) auto
    from inv_quiet [OF quiet_changed this] Some show ?thesis by (simp add: evictBundle_def Let_def)
  qed
qed

section \<open>Attribution\<close>

lemma inv_credit_key: "engine_inv en \<Longrightarrow> engine_inv (fst (creditKey peerId key (en, added)))"
proof -
  assume inv: "engine_inv en"
  define peers where "peers = (case jget (en_ownCheckpointPeers en) key of None \<Rightarrow> [] | Some ps \<Rightarrow> ps)"
  let ?en = "en\<lparr>en_ownCheckpointPeers := jset key (peers @ [peerId]) (en_ownCheckpointPeers en)\<rparr>"
  note def = creditKey_def Let_def peers_def [symmetric]
  show ?thesis
  proof (cases "key \<in> set (en_ownCids en) \<and> peerId \<notin> set peers")
    case True
    have "distinct peers" using inv by (auto simp: peers_def inv_defs split: option.splits)
    with True have e: "engine_inv ?en"
      using inv by (auto simp: inv_defs jsmap_simps verdicts_def news_def split: if_splits)
    have "engine_inv ((notify (\<lambda>t. NotifyCheckpointed t key) (jget (en_ownCheckpointCbs ?en) key) ?en)
            \<lparr>en_ownCheckpointCbs := jdel key (en_ownCheckpointCbs ?en)\<rparr>)"
    proof (cases "jget (en_ownCheckpointCbs en) key")
      case None
      with e show ?thesis by (simp add: notify_def inv_defs one_each_del verdicts_def news_def)
    next
      case (Some t)
      have "one_each (jdel key (en_ownCheckpointCbs en)) ((\<lambda>x. news x en)(t := Suc (news t en)))"
        using inv by (intro one_each_tell [OF _ Some]) (simp add: inv_defs)
      moreover have "(\<lambda>x. news x en)(t := Suc (news t en)) =
          (\<lambda>x. length (filter (news_for x) (en_calls en @ [NotifyCheckpointed t key])))"
        by (auto simp: news_def)
      ultimately show ?thesis
        using e Some by (simp add: inv_defs notify_def call_def verdicts_def news_def)
    qed
    with e True show ?thesis by (cases "peers = []") (simp_all add: def)
  qed (use inv in \<open>auto simp: def\<close>)
qed

lemma inv_credit: "engine_inv en \<Longrightarrow> engine_inv (fst (creditPeer peerId cids en))"
proof -
  have "engine_inv (fst st) \<Longrightarrow> engine_inv (fst (fold (creditKey peerId) cids st))" for st
  proof (induction cids arbitrary: st)
    case (Cons c cids)
    then show ?case using inv_credit_key [of "fst st" peerId c "snd st"] by simp
  qed simp
  then show "engine_inv en \<Longrightarrow> ?thesis" by (simp add: creditPeer_def)
qed

lemma lru_put_spec:
  assumes "jwf m" "length m \<le> n" "0 < n"
  shows "jwf (lru_put n k v m)" "length (lru_put n k v m) \<le> n" "jget (lru_put n k v m) k = Some v"
proof -
  have tl: "jwf (tl m)" using assms(1) by (cases m) (auto simp: jwf_def)
  then show "jwf (lru_put n k v m)" using assms(1) by (auto simp: lru_put_def Let_def)
  show "jget (lru_put n k v m) k = Some v" by (simp add: lru_put_def Let_def jsmap_simps)
  have "\<not> jhas (jdel k m) k" by (simp add: jhas_def jsmap_simps)
  moreover have "\<not> jhas (tl m) k" if "\<not> jhas m k"
    using that by (cases m) (auto simp: jhas_def split: if_splits)
  moreover have "0 < length m" if "jhas m k" using that by (cases m) (auto simp: jhas_def)
  ultimately show "length (lru_put n k v m) \<le> n"
    using assms length_jdel [OF assms(1), of k] by (auto simp: lru_put_def Let_def length_jset)
qed

lemma inv_attribute: "engine_inv en \<Longrightarrow> engine_inv (attributeRoot p root en)"
  using inv_credit [of en p] inv_quiet [OF quiet_changed]
  by (auto simp: attributeRoot_def split: option.splits prod.splits) (metis fst_conv)+

lemma inv_note: "engine_inv en \<Longrightarrow> engine_inv (notePeerRoot p root en)"
proof -
  assume inv: "engine_inv en"
  then have "engine_inv (en\<lparr>en_peerRoots := lru_put PEER_ROOTS_MAX p root (en_peerRoots en)\<rparr>)"
    using lru_put_spec [of "en_peerRoots en" PEER_ROOTS_MAX p root]
    by (simp add: inv_defs verdicts_def news_def PEER_ROOTS_MAX_def)
  then show ?thesis unfolding notePeerRoot_def by (rule inv_attribute)
qed

lemma inv_index: "engine_inv en \<Longrightarrow> engine_inv (indexRootContents root mine en)"
proof -
  assume inv: "engine_inv en"
  let ?en = "en\<lparr>en_decodedRoots := lru_put DECODED_ROOTS_MAX root mine (en_decodedRoots en)\<rparr>"
  have e: "engine_inv ?en"
    using inv lru_put_spec [of "en_decodedRoots en" DECODED_ROOTS_MAX root mine]
    by (simp add: inv_defs verdicts_def news_def DECODED_ROOTS_MAX_def)
  have "engine_inv (fst st) \<Longrightarrow> engine_inv (fst (fold (credit_at root mine) adverts st))" for adverts st
    by (induction adverts arbitrary: st) (auto simp: credit_at_def inv_credit split: prod.splits, metis fst_conv inv_credit)
  then have "engine_inv (fst (fold (credit_at root mine) (en_peerRoots ?en) (?en, False)))" using e by simp
  then show ?thesis
    using inv inv_quiet [OF quiet_changed]
    by (auto simp: indexRootContents_def Let_def split: prod.splits)
qed

lemma inv_decoded: "engine_inv en \<Longrightarrow> engine_inv (noteCheckpointContents root cids en)"
  unfolding noteCheckpointContents_def by (rule inv_index)

lemma inv_after_record: "engine_inv en \<Longrightarrow> engine_inv (fst (rootRecord C now head put en))"
  by (rule inv_quiet [OF quiet_record])

lemma inv_hears: "engine_inv en \<Longrightarrow> engine_inv (handleRootRecord C now head put connections record from_peer en)"
proof -
  assume inv: "engine_inv en"
  define en0 where "en0 = (case from_peer of None \<Rightarrow> en | Some p \<Rightarrow> notePeerRoot p (rr_root record) en)"
  obtain en1 r where r: "rootRecord C now head put en0 = (en1, r)" by fastforce
  have "engine_inv en0" using inv inv_note by (auto simp: en0_def split: option.splits)
  then have e1: "engine_inv en1" using inv_after_record [of en0 C now head put] r by simp
  have "engine_inv (indexRootContents (rr_root record) mine (en1\<lparr>en_heardMatchingRoot := True\<rparr>))" for mine
    by (rule inv_index [OF inv_quiet [OF quiet_fields(9) e1]])
  moreover have e2: "engine_inv (chase root chunks known connections en1)" for root chunks known
    by (rule inv_quiet [OF quiet_chase e1])
  moreover have "engine_inv (publish_root own (chase root chunks known connections en1\<lparr>en_publishedRoot := True\<rparr>))"
    for own root chunks known
    by (rule inv_quiet [OF quiet_publish inv_quiet [OF quiet_fields(10) e2]])
  ultimately show ?thesis
    using e1 by (auto simp: handleRootRecord_def en0_def [symmetric] r Let_def split: sum.splits)
qed

lemma inv_ingests: "engine_inv en \<Longrightarrow> engine_inv (fst (ingestRootRecord C now head put connections p encoded en))"
proof -
  assume inv: "engine_inv en"
  obtain en1 r where r: "rootRecord C now head put en = (en1, r)" by fastforce
  then have e1: "engine_inv en1" using inv_after_record [OF inv, of C now head put] by simp
  then have "engine_inv (chase root chunks known connections (notePeerRoot p root' en1))" for root chunks known root'
    by (intro inv_quiet [OF quiet_chase] inv_note)
  with e1 inv inv_note [OF e1] show ?thesis
    by (auto simp: ingestRootRecord_def r Let_def split: sum.splits)
qed

section \<open>Admission, pruning and the restore\<close>

text \<open>A bundle that enters the working set together with its checks.\<close>

lemma inv_enter:
  assumes "engine_inv en" "crdt_wf s" "keyset (bundles s) = insert cid (keyset (bundles (en_crdt en)))"
  shows "engine_inv (recordChecks cid b settled nameSettled (en\<lparr>en_blocks := blocks, en_crdt := s\<rparr>))"
  using assms by (auto simp: inv_defs recordChecks_def verdicts_def news_def)

lemma merge_one:
  assumes "crdt_wf s"
  shows "case merge get [cid] s of
      (s', Inl e) \<Rightarrow> s' = s
    | (s', Inr _) \<Rightarrow> crdt_wf s' \<and> keyset (bundles s') = insert cid (keyset (bundles s))"
proof (cases "integrate get cid s")
  case (Inr s')
  have "keyset (bundles s') = insert cid (keyset (bundles s))"
    using Inr by (auto simp: integrate_def res_simps jhas_iff keyset_def [symmetric] split: if_splits option.splits)
  with crdt_wf_integrate [OF assms Inr] Inr show ?thesis by simp
qed simp

lemma inv_admit: "engine_inv en \<Longrightarrow> engine_inv (fst (admit_block C put got cid bs b verified en))"
proof (cases put)
  case (Inr u)
  assume inv: "engine_inv en"
  let ?blocks = "jset cid bs (en_blocks en)"
  obtain s r where m: "merge (\<lambda>c. sbind got (\<lambda>_. bs_get (eg_lib C) ?blocks c)) [cid] (en_crdt en) = (s, r)" by fastforce
  have wf: "crdt_wf (en_crdt en)" using inv by (simp add: inv_defs)
  show ?thesis
  proof (cases r)
    case (Inl e)
    with merge_one [OF wf, where get = "\<lambda>c. sbind got (\<lambda>_. bs_get (eg_lib C) ?blocks c)" and cid = cid] m have "s = en_crdt en" by simp
    with Inl m Inr inv_quiet [OF quiet_fields(1) inv] show ?thesis by (simp add: admit_block_def Let_def del: merge.simps)
  next
    case inr: (Inr v)
    with merge_one [OF wf, where get = "\<lambda>c. sbind got (\<lambda>_. bs_get (eg_lib C) ?blocks c)" and cid = cid] m
    have "crdt_wf s" "keyset (bundles s) = insert cid (keyset (bundles (en_crdt en)))" by simp_all
    from inv_enter [OF inv this, of b verified verified ?blocks] inr m Inr show ?thesis
      by (simp add: admit_block_def Let_def del: merge.simps)
  qed
qed (simp add: admit_block_def)

lemma inv_gate_admit: "engine_inv en \<Longrightarrow> engine_inv (fst (gate_admit C put got cid bs b en))"
  using inv_admit [of en C put got cid bs b True] inv_quiet [OF quiet_changed]
  by (auto simp: gate_admit_def split: prod.splits sum.splits)

lemma inv_chase_admit: "engine_inv en \<Longrightarrow> engine_inv (fst (chase_admit C put got cid bs b verified en))"
  using inv_admit [of en C put got cid bs b verified] inv_quiet [OF quiet_mark]
  by (auto simp: chase_admit_def split: prod.splits sum.splits)

lemma engine_add_spec:
  assumes "engine_add C put b en = Inr (en', cid)" "crdt_wf (en_crdt en)"
  shows "\<exists>blocks s. en' = en\<lparr>en_blocks := blocks, en_crdt := s\<rparr> \<and> crdt_wf s \<and>
    keyset (bundles s) = insert cid (keyset (bundles (en_crdt en))) \<and> bundleCid (eg_lib C) b = Inr cid"
proof -
  from assms(1) obtain bs where a: "bundleCid (eg_lib C) b = Inr cid"
    "en' = en\<lparr>en_blocks := jset cid bs (en_blocks en),
              en_crdt := en_crdt en\<lparr>bundles := jset cid \<lparr>e_cid = cid, e_bundle = b\<rparr> (bundles (en_crdt en))\<rparr>\<rparr>"
    by (auto simp: engine_add_def crdt_add_def bs_put_def res_simps)
  moreover have "crdt_wf (en_crdt en\<lparr>bundles := jset cid \<lparr>e_cid = cid, e_bundle = b\<rparr> (bundles (en_crdt en))\<rparr>)"
    by (rule crdt_wf_jset [OF assms(2)]) simp
  ultimately show ?thesis by (intro exI conjI) (assumption | simp)+
qed

lemma inv_signed:
  assumes inv: "engine_inv (recordChecks cid b False namesSettled en)" and fresh: "\<And>t. token = Some t \<Longrightarrow> fresh_token t en"
  shows "engine_inv (track_signed cid b namesSettled token en)"
proof -
  let ?en1 = "recordChecks cid b False namesSettled en"
  let ?en2 = "?en1\<lparr>en_ownPublishes := jset cid b (en_ownPublishes ?en1), en_ownCids := sadd cid (en_ownCids ?en1)\<rparr>"
  have cid: "cid \<in> keyset (bundles (en_crdt en))" using inv by (auto simp: inv_defs recordChecks_def)
  have "sets_ok ?en2" "peers_ok ?en2" "caps_ok ?en2" "tokens_ok ?en2"
    using inv cid distinct_sadd by (auto simp: inv_defs recordChecks_def verdicts_def news_def)
  then have e2: "engine_inv ?en2" by (simp add: engine_inv_def)
  have e3: "engine_inv (case token of
                   None \<Rightarrow> ?en2
                 | Some t \<Rightarrow> ?en2\<lparr>en_ownEvictionCbs := jset cid t (en_ownEvictionCbs ?en2),
                                 en_ownVerifiedCbs := jset cid t (en_ownVerifiedCbs ?en2),
                                 en_ownCheckpointCbs := jset cid t (en_ownCheckpointCbs ?en2)\<rparr>)"
  proof (cases token)
    case (Some t)
    note f = fresh_tokenD [OF fresh [OF Some]]
    have "one_each (en_ownEvictionCbs en) (\<lambda>t. verdicts t en)" "one_each (en_ownCheckpointCbs en) (\<lambda>t. news t en)"
      using inv by (simp_all add: inv_defs recordChecks_def verdicts_def news_def)
    then have "one_each (jset cid t (en_ownEvictionCbs en)) (\<lambda>t. verdicts t en)"
      "one_each (jset cid t (en_ownCheckpointCbs en)) (\<lambda>t. news t en)"
      using f by (simp_all add: one_each_new)
    with e2 Some show ?thesis by (auto simp: inv_defs recordChecks_def verdicts_def news_def)
  qed (use e2 in simp)
  show ?thesis
    unfolding track_signed_def Let_def
    by (rule inv_quiet [OF quiet_changed inv_quiet [OF quiet_call e3]]) auto
qed

lemma fresh_frame:
  assumes "fresh_token t en" "en_calls en' = en_calls en" "en_ownEvictionCbs en' = en_ownEvictionCbs en"
    "en_ownCheckpointCbs en' = en_ownCheckpointCbs en"
  shows "fresh_token t en'"
  using assms by (simp add: fresh_token_def)

lemma inv_signs:
  assumes inv: "engine_inv en" and fresh: "\<And>t. token = Some t \<Longrightarrow> fresh_token t en"
  shows "engine_inv (fst (signVote C head sign address put votes namesSettled token en))"
proof -
  have e1: "engine_inv (en\<lparr>en_currentBucket := bucket\<rparr>)" for bucket by (rule inv_quiet [OF quiet_fields(16) inv])
  have "engine_inv (track_signed cid b namesSettled token en2)"
    if "engine_add C put b (en\<lparr>en_currentBucket := bucket\<rparr>) = Inr (en2, cid)" for b en2 cid bucket
  proof -
    from engine_add_spec [OF that] inv obtain blocks s where
      en2: "en2 = (en\<lparr>en_currentBucket := bucket\<rparr>)\<lparr>en_blocks := blocks, en_crdt := s\<rparr>" and
      s: "crdt_wf s" "keyset (bundles s) = insert cid (keyset (bundles (en_crdt en)))"
      by (auto simp: inv_defs)
    have "engine_inv (recordChecks cid b False namesSettled en2)"
      unfolding en2 by (rule inv_enter [OF e1]) (use s in simp_all)
    then show ?thesis
      by (rule inv_signed) (rule fresh_frame [OF fresh], simp_all add: en2)
  qed
  with e1 inv show ?thesis
    by (auto simp: signVote_def Let_def res_simps split: sum.splits)
qed

definition prune_one :: "cid \<Rightarrow> engine \<Rightarrow> engine" where
  "prune_one key en = forgetOwnBundle key (en\<lparr>en_checks := jdel key (en_checks en)\<rparr>)"

lemma prune_one_fields [simp]:
  "en_crdt (prune_one k en) = en_crdt en" "en_checks (prune_one k en) = jdel k (en_checks en)"
  "en_ownPublishes (prune_one k en) = jdel k (en_ownPublishes en)"
  "en_ownEvictionCbs (prune_one k en) = jdel k (en_ownEvictionCbs en)"
  "en_ownVerifiedCbs (prune_one k en) = jdel k (en_ownVerifiedCbs en)"
  by (simp_all add: prune_one_def)

lemma fold_keeps: "(\<And>k e. P e \<Longrightarrow> P (f k e)) \<Longrightarrow> P e \<Longrightarrow> P (fold f ks e)"
  by (induction ks arbitrary: e) auto

lemma prune_one_keeps:
  "peers_ok en \<Longrightarrow> peers_ok (prune_one k en)" "tokens_ok en \<Longrightarrow> tokens_ok (prune_one k en)"
  "caps_ok en \<Longrightarrow> caps_ok (prune_one k en)"
  using peers_forget [of "en\<lparr>en_checks := jdel k (en_checks en)\<rparr>" k]
    tokens_forget [of "en\<lparr>en_checks := jdel k (en_checks en)\<rparr>" k]
  by (simp_all add: prune_one_def peers_ok_def tokens_ok_def caps_ok_def verdicts_def news_def)

lemma prune_fold:
  "en_crdt (fold prune_one ks en) = en_crdt en"
  "keyset (en_checks (fold prune_one ks en)) = keyset (en_checks en) - set ks"
  "keyset (en_ownPublishes (fold prune_one ks en)) = keyset (en_ownPublishes en) - set ks"
  "keyset (en_ownEvictionCbs (fold prune_one ks en)) = keyset (en_ownEvictionCbs en) - set ks"
  by (induction ks arbitrary: en) (simp_all add: Diff_insert2 [symmetric])

lemma prune_keys:
  assumes "crdt_wf s" "prune r bf ex pv b s = (s', removed)"
  shows "keyset (bundles s') = keyset (bundles s) - set removed" "set removed \<subseteq> keyset (bundles s)"
proof -
  define drops where "drops = (\<lambda>kv :: cid \<times> entry. prune_drops (winnersByWallet r (\<lambda>_. True) s) bf ex pv b (snd kv))"
  have s': "bundles s' = filter (\<lambda>kv. \<not> drops kv) (bundles s)" "removed = map (\<lambda>kv. e_cid (snd kv)) (filter drops (bundles s))"
    using assms(2) by (auto simp: prune_def Let_def drops_def)
  have key: "e_cid (snd kv) = fst kv" if "kv \<in> set (bundles s)" for kv
    using assms(1) that by (auto simp: crdt_wf_def)
  then have "set removed = fst ` {kv \<in> set (bundles s). drops kv}"
    unfolding s' by (force simp: image_iff)
  moreover have "inj_on fst (set (bundles s))"
    using assms(1) by (simp add: crdt_wf_def jwf_def distinct_map)
  ultimately show "keyset (bundles s') = keyset (bundles s) - set removed" "set removed \<subseteq> keyset (bundles s)"
    unfolding s' keyset_def by (force simp: inj_on_def image_iff)+
qed

lemma inv_prune: "engine_inv en \<Longrightarrow> engine_inv (fst (pruneDecayed C en))"
proof -
  assume inv: "engine_inv en"
  obtain s removed where p: "prune lwwResolve (bucketForBlock (eg_bucketMath C)) (eg_voteExpiryBuckets C) (isPending en)
      (en_currentBucket en) (en_crdt en) = (s, removed)" by fastforce
  have wf: "crdt_wf (en_crdt en)" using inv by (simp add: inv_defs)
  have s: "crdt_wf s" using crdt_wf_prune [OF wf] p by (metis fst_conv)
  note keys = prune_keys [OF wf p]
  let ?en = "fold prune_one removed (en\<lparr>en_crdt := s\<rparr>)"
  have "peers_ok ?en" using inv by (intro fold_keeps [where P = peers_ok] prune_one_keeps(1)) (simp_all add: inv_defs)
  moreover have "caps_ok ?en" using inv by (intro fold_keeps [where P = caps_ok] prune_one_keeps(3)) (simp_all add: inv_defs)
  moreover have "tokens_ok ?en"
    using inv by (intro fold_keeps [where P = tokens_ok] prune_one_keeps(2)) (simp_all add: inv_defs verdicts_def news_def)
  moreover have "jwf (en_checks ?en)"
    by (rule fold_keeps [where P = "\<lambda>e. jwf (en_checks e)"]) (use inv in \<open>auto simp: inv_defs\<close>)
  moreover have vers: "en_ownVerifiedCbs ?en = en_ownEvictionCbs ?en"
    by (rule fold_keeps [where P = "\<lambda>e. en_ownVerifiedCbs e = en_ownEvictionCbs e"]) (use inv in \<open>simp_all add: inv_defs\<close>)
  moreover have "sets_ok ?en"
    using inv s keys calculation vers by (auto simp: inv_defs prune_fold)
  ultimately show ?thesis by (simp add: pruneDecayed_def p engine_inv_def prune_one_def [abs_def])
qed

lemma inv_refresh: "engine_inv en \<Longrightarrow> engine_inv (fst (refreshBucket C now head maxAge en))"
  by (rule inv_quiet [OF quiet_refresh])

lemma inv_on_tick: "engine_inv en \<Longrightarrow> engine_inv (fst (prune_on_tick C now head en))"
proof -
  assume inv: "engine_inv en"
  obtain en1 r where r: "refreshBucket C now head True en = (en1, r)" by fastforce
  with inv_refresh [OF inv, of C now head True] have e1: "engine_inv en1" by simp
  obtain en2 n where n: "pruneDecayed C en1 = (en2, n)" by fastforce
  with inv_prune [OF e1, of C] have e2: "engine_inv en2" by simp
  show ?thesis
    using inv e1 e2 inv_quiet [OF quiet_changed e1] inv_quiet [OF quiet_changed e2]
    by (auto simp: prune_on_tick_def r n split: sum.splits)
qed

lemma inv_beats: "engine_inv en \<Longrightarrow> engine_inv (beat_publish C now head puts pruned en)"
proof -
  assume inv: "engine_inv en"
  let ?en1 = "en\<lparr>en_heardMatchingRoot := False, en_publishedRoot := False\<rparr>"
  have e1: "engine_inv ?en1" using inv by (simp add: inv_defs verdicts_def news_def)
  obtain en2 r where r: "rootRecord C now head puts ?en1 = (en2, r)" by fastforce
  with inv_after_record [OF e1, of C now head puts] have e2: "engine_inv en2" by simp
  show ?thesis
    using e1 e2 inv_quiet [OF quiet_publish e2] by (auto simp: beat_publish_def r Let_def split: sum.splits)
qed

lemma inv_tallies: "engine_inv en \<Longrightarrow> engine_inv (fst (computeTally C now head head' block_at en))"
proof -
  assume inv: "engine_inv en"
  obtain en1 r where r: "refreshBucket C now head False en = (en1, r)" by fastforce
  with inv_refresh [OF inv, of C now head False] have e1: "engine_inv en1" by simp
  from inv e1 inv_prune [OF e1, of C] show ?thesis
    by (auto simp: computeTally_def r split: sum.splits)
qed

lemma inv_emits: "engine_inv en \<Longrightarrow> engine_inv (computeAndEmit C now head head' block_at en)"
proof -
  assume inv: "engine_inv en"
  obtain en1 r where r: "computeTally C now head head' block_at (en\<lparr>en_tallyDirty := False\<rparr>) = (en1, r)" by fastforce
  with inv_tallies [OF inv_quiet [OF quiet_fields(11) inv], of C now head head' block_at False]
  have e1: "engine_inv en1" by simp
  have "engine_inv (call (EmitError e) en1)" for e by (rule inv_quiet [OF quiet_call e1]) auto
  moreover have "engine_inv (call EmitUpdate (en1\<lparr>en_cachedTally := t\<rparr>))" for t
    by (rule inv_quiet [OF quiet_call inv_quiet [OF quiet_fields(12) e1]]) auto
  ultimately show ?thesis by (auto simp: computeAndEmit_def r split: sum.splits)
qed

lemma inv_recounts: "engine_inv en \<Longrightarrow> engine_inv (tally_round C now head head' block_at en)"
  using inv_emits [of en C now head head' block_at] inv_quiet [OF quiet_fields(13)]
  by (simp add: tally_round_def Let_def)

lemma inv_join_ends: "engine_inv en \<Longrightarrow> engine_inv (fst (join_finish C now head en))"
proof -
  assume inv: "engine_inv en"
  obtain en1 r where r: "refreshBucket C now head False en = (en1, r)" by fastforce
  with inv_refresh [OF inv, of C now head False] have e1: "engine_inv en1" by simp
  with inv inv_prune [OF e1, of C] show ?thesis by (auto simp: join_finish_def r split: sum.splits)
qed

lemma inv_restore_one: "engine_inv en \<Longrightarrow> engine_inv (fst (restore_one C now head put b en))"
proof -
  assume inv: "engine_inv en"
  obtain en1 r where r: "isEvaluableNow C now head b en = (en1, r)" by fastforce
  with inv_quiet [OF quiet_dates inv, of C now head b] have e1: "engine_inv en1" by simp
  have add: "engine_inv (recordChecks cid b False False en2)"
    if "engine_add C put b en1 = Inr (en2, cid')" "encodeBundle (eg_lib C) b = Inr bs" "cid = bundleCidForBytes (eg_lib C) bs"
    for en2 cid cid' bs
  proof -
    from engine_add_spec [OF that(1)] e1 obtain blocks s where en2: "en2 = en1\<lparr>en_blocks := blocks, en_crdt := s\<rparr>" and
      s: "crdt_wf s" "keyset (bundles s) = insert cid' (keyset (bundles (en_crdt en1)))" "bundleCid (eg_lib C) b = Inr cid'"
      by (auto simp: inv_defs)
    have "cid' = cid" using s(3) that(2,3) by (auto simp: bundleCid_def res_simps)
    then show ?thesis unfolding en2 using inv_enter [OF e1] s by simp
  qed
  from inv e1 show ?thesis
    by (auto simp: restore_one_def r Let_def intro!: add split: sum.splits bool.splits)
qed

lemma inv_restore_each:
  "engine_inv en \<Longrightarrow> engine_inv (fst (restore_each C now heads puts bs en pending backlog))"
proof (induction C now heads puts bs en pending backlog rule: restore_each.induct)
  case (2 C now heads puts b bs en pending backlog)
  obtain en1 r where r: "restore_one C now (heads b) (puts b) b en = (en1, r)" by fastforce
  with inv_restore_one [OF "2.prems", of C now "heads b" "puts b" b] have e1: "engine_inv en1" by simp
  show ?case
    using "2.IH"(1) [OF r [symmetric] _ e1] "2.IH"(2) [OF r [symmetric] _ e1] "2.IH"(3) [OF r [symmetric] _ e1] r
    by (cases r) simp_all
qed simp

lemma inv_admit_restored: "engine_inv en \<Longrightarrow> engine_inv (admitRestored C now heads puts winners en)"
proof -
  assume inv: "engine_inv en"
  obtain en1 pending backlog where r: "restore_each C now heads puts winners en [] [] = (en1, pending, backlog)"
    by (metis prod_cases3)
  have e1: "engine_inv (en1\<lparr>en_restoreBacklog := backlog\<rparr>)"
    using inv_restore_each [OF inv, of C now heads puts winners "[]" "[]"] r by (intro inv_quiet [OF quiet_fields(5)]) simp
  have e2: "engine_inv (onStateChanged (call (EnqueueChecks pending) (en1\<lparr>en_restoreBacklog := backlog\<rparr>)))"
    by (rule inv_quiet [OF quiet_changed inv_quiet [OF quiet_call e1]]) auto
  have keep: "engine_inv (scheduleSnapshotWrite e)" "engine_inv (armRestoreRetry e)"
    "engine_inv (armRestoreRetry (call (EmitError x) e))" if "engine_inv e" for e x
    using that inv_quiet [OF quiet_schedule that] inv_quiet [OF quiet_arm that]
      inv_quiet [OF quiet_arm inv_quiet [OF quiet_call that]] by auto
  show ?thesis
    using e1 e2 keep [OF e1] keep [OF e2]
    by (cases "backlog = []"; cases "pending = []"; cases "en_restoreBacklog en1 = []") (simp_all add: admitRestored_def r Let_def)
qed

lemma inv_restores: "engine_inv en \<Longrightarrow> engine_inv (restoreSnapshot C now stored heads puts en)"
proof -
  assume inv: "engine_inv en"
  have "engine_inv (call (EmitError e) (en\<lparr>en_disk := None\<rparr>))" for e
    by (rule inv_quiet [OF quiet_call inv_quiet [OF quiet_fields(15) inv]]) auto
  with inv inv_admit_restored [OF inv_quiet [OF quiet_fields(6) inv]] show ?thesis
    by (auto simp: restoreSnapshot_def split: sum.splits option.splits)
qed

lemma inv_retries: "engine_inv en \<Longrightarrow> engine_inv (restore_timer_fires C now heads puts en)"
  using inv_quiet [OF quiet_fields(4), of en None] inv_admit_restored
  by (auto simp: restore_timer_fires_def Let_def)

lemma inv_leave_resets: "engine_inv en \<Longrightarrow> engine_inv (fst (leave_reset en))"
  by (simp add: leave_reset_def inv_defs verdicts_def news_def call_def)

section \<open>Every reachable state\<close>

lemma inv_step:
  assumes "en_step C en en'" "engine_inv en"
  shows "engine_inv en'"
  using assms
proof cases
  case (encode_begins now head en1 bucket ws)
  have "engine_inv en1" using inv_quiet [OF quiet_begin assms(2), of C now head] encode_begins by simp
  with encode_begins show ?thesis using inv_quiet [OF quiet_fields(7)] by blast
next
  case (encode_ends bucket ws puts)
  with inv_quiet [OF quiet_fields(7) inv_quiet [OF quiet_finish assms(2)]] show ?thesis by blast
next
  case (signs token head sign address put votes namesSettled)
  with inv_signs [OF assms(2)] show ?thesis by blast
qed (use assms(2) in \<open>auto intro: inv_quiet [OF quiet_fields(1)] inv_quiet [OF quiet_fields(2)] inv_gate_admit
    inv_chase_admit inv_quiet [OF quiet_broadcast] inv_settle inv_evict inv_track inv_decoded inv_note inv_hears inv_ingests
    inv_quiet [OF quiet_served] inv_quiet [OF quiet_dates] inv_tallies inv_emits inv_recounts inv_beats inv_on_tick
    inv_quiet [OF quiet_timer] inv_quiet [OF quiet_join(1)] inv_quiet [OF quiet_join(2)] inv_quiet [OF quiet_join(3)]
    inv_quiet [OF quiet_join(4)] inv_restores inv_retries inv_join_ends inv_quiet [OF quiet_leave_begin]
    inv_leave_resets inv_quiet [OF quiet_call]\<close>)

lemma inv_run: "en_run C en en' \<Longrightarrow> engine_inv en \<Longrightarrow> engine_inv en'"
  by (induction rule: rtranclp_induct) (auto intro: inv_step)

lemma inv_reachable: "en_run C (engine_start blocks disk) en \<Longrightarrow> engine_inv en"
  by (rule inv_run [OF _ inv_start])

end
