(* ===== verification/Engine_Served.thy ===== *)
theory Engine_Served
  imports Engine_Steps
begin

text \<open>
  What the engine shows of itself: the cached root record, the records it publishes and the
  snapshots it writes. Each is the encoding of the winners among the fully verified bundles of one
  state the engine was in before; the lemmas follow the cache, the encodings in flight and the calls
  through every step.
\<close>

section \<open>Encodings and where they come from\<close>

definition encoding :: "'x engine_config \<Rightarrow> votes_bundle list \<Rightarrow> root_cache \<Rightarrow> bool" where
  "encoding C ws rc \<longleftrightarrow>
     (\<exists>enc. encodeCheckpoint (eg_lib C) ws DEFAULT_MAX_CHUNK_BYTES = Inr enc \<and>
        rc_record rc = record_of enc (length ws) \<and> rc_blocks rc = ec_blocks enc)"

definition encoded_from :: "'x engine_config \<Rightarrow> engine \<Rightarrow> root_cache \<Rightarrow> bool" where
  "encoded_from C en rc = encoding C (verified_winners C (rc_bucket rc) en) rc"

definition from_past :: "'x engine_config \<Rightarrow> engine \<Rightarrow> engine \<Rightarrow> root_cache \<Rightarrow> bool" where
  "from_past C s en rc \<longleftrightarrow> (\<exists>en0. en_run C s en0 \<and> en_run C en0 en \<and> encoded_from C en0 rc)"

fun shown_of :: "'x engine_config \<Rightarrow> root_cache \<Rightarrow> engine_call \<Rightarrow> bool" where
  "shown_of C rc (PublishRoot r) = (r = rc_record rc)"
| "shown_of C rc (SnapshotWritten blob) = (snapshot_blob C rc = Inr blob)"
| "shown_of C rc _ = False"

fun public :: "engine_call \<Rightarrow> bool" where
  "public (PublishRoot r) = True"
| "public (SnapshotWritten blob) = True"
| "public _ = False"

definition served_ok :: "'x engine_config \<Rightarrow> engine \<Rightarrow> engine \<Rightarrow> bool" where
  "served_ok C s en \<longleftrightarrow>
     (\<forall>rc. en_rootRecordCache en = Some rc \<longrightarrow> from_past C s en rc) \<and>
     (\<forall>bucket ws. (bucket, ws) \<in> set (en_encodes en) \<longrightarrow>
        (\<exists>en0. en_run C s en0 \<and> en_run C en0 en \<and> ws = verified_winners C bucket en0)) \<and>
     (\<forall>c \<in> set (en_calls en). public c \<longrightarrow> (\<exists>rc. from_past C s en rc \<and> shown_of C rc c))"

text \<open>What a step may do to them.\<close>

definition serves :: "'x engine_config \<Rightarrow> engine \<Rightarrow> engine \<Rightarrow> bool" where
  "serves C en en' \<longleftrightarrow>
     (\<forall>rc. en_rootRecordCache en' = Some rc \<longrightarrow>
        en_rootRecordCache en = Some rc \<or> encoded_from C en rc \<or>
        (\<exists>ws. (rc_bucket rc, ws) \<in> set (en_encodes en) \<and> encoding C ws rc)) \<and>
     (\<forall>bucket ws. (bucket, ws) \<in> set (en_encodes en') \<longrightarrow>
        (bucket, ws) \<in> set (en_encodes en) \<or> ws = verified_winners C bucket en) \<and>
     (\<forall>c \<in> set (en_calls en'). public c \<longrightarrow>
        c \<in> set (en_calls en) \<or> (\<exists>rc. en_rootRecordCache en' = Some rc \<and> shown_of C rc c))"

lemma from_past_later: "from_past C s en rc \<Longrightarrow> en_step C en en' \<Longrightarrow> from_past C s en' rc"
  unfolding from_past_def by (meson rtranclp.rtrancl_into_rtrancl)

lemma served_step:
  assumes ok: "served_ok C s en" and run: "en_run C s en" and step: "en_step C en en'" and serves: "serves C en en'"
  shows "served_ok C s en'"
proof -
  have here: "encoded_from C en rc \<Longrightarrow> from_past C s en' rc" for rc
    using run step unfolding from_past_def by blast
  have cached: "from_past C s en' rc" if rc: "en_rootRecordCache en' = Some rc" for rc
  proof -
    consider "en_rootRecordCache en = Some rc" | "encoded_from C en rc"
      | ws where "(rc_bucket rc, ws) \<in> set (en_encodes en)" "encoding C ws rc"
      using serves rc unfolding serves_def by blast
    then show ?thesis
    proof cases
      case 1
      with ok show ?thesis unfolding served_ok_def using from_past_later [OF _ step] by blast
    next
      case 3
      with ok obtain en0 where en0: "en_run C s en0" "en_run C en0 en" "ws = verified_winners C (rc_bucket rc) en0"
        unfolding served_ok_def by blast
      with 3(2) have "from_past C s en rc" unfolding from_past_def encoded_from_def by blast
      then show ?thesis by (rule from_past_later [OF _ step])
    qed (rule here)
  qed
  moreover have "\<exists>en0. en_run C s en0 \<and> en_run C en0 en' \<and> ws = verified_winners C bucket en0"
    if "(bucket, ws) \<in> set (en_encodes en')" for bucket ws
  proof -
    have "(bucket, ws) \<in> set (en_encodes en) \<or> ws = verified_winners C bucket en"
      using serves that unfolding serves_def by blast
    then obtain en0 where "en_run C s en0" "en_run C en0 en" "ws = verified_winners C bucket en0"
      using ok run unfolding served_ok_def by blast
    moreover from this(2) step have "en_run C en0 en'" by (rule rtranclp.rtrancl_into_rtrancl)
    ultimately show ?thesis by blast
  qed
  moreover have "\<exists>rc. from_past C s en' rc \<and> shown_of C rc c" if "c \<in> set (en_calls en')" "public c" for c
  proof -
    have "c \<in> set (en_calls en) \<or> (\<exists>rc. en_rootRecordCache en' = Some rc \<and> shown_of C rc c)"
      using serves that unfolding serves_def by blast
    with ok cached that(2) from_past_later [OF _ step] show ?thesis unfolding served_ok_def by blast
  qed
  ultimately show ?thesis unfolding served_ok_def by blast
qed

section \<open>Operations that show nothing\<close>

definition serving :: "engine \<Rightarrow> root_cache option \<times> (nat \<times> votes_bundle list) list \<times> engine_call list" where
  "serving en = (en_rootRecordCache en, en_encodes en, filter public (en_calls en))"

named_theorems silent "operations that keep the cache and show nothing"

lemma serving_fields:
  assumes "serving en' = serving en"
  shows "en_rootRecordCache en' = en_rootRecordCache en" "en_encodes en' = en_encodes en"
    "public c \<Longrightarrow> c \<in> set (en_calls en') \<longleftrightarrow> c \<in> set (en_calls en)"
proof -
  show "public c \<Longrightarrow> c \<in> set (en_calls en') \<longleftrightarrow> c \<in> set (en_calls en)"
    using arg_cong [OF assms, of "\<lambda>x. set (snd (snd x))"] by (auto simp: serving_def)
qed (use assms in \<open>simp_all add: serving_def\<close>)

lemma serves_silent: "serving en' = serving en \<Longrightarrow> serves C en en'"
  using serving_fields [of en' en] by (auto simp: serves_def)

lemma serves_then: "serves C en en1 \<Longrightarrow> serving en2 = serving en1 \<Longrightarrow> serves C en en2"
  using serving_fields [of en2 en1] unfolding serves_def by metis

lemma verified_winners_cong:
  "en_crdt en' = en_crdt en \<Longrightarrow> en_checks en' = en_checks en \<Longrightarrow> verified_winners C b en' = verified_winners C b en"
  by (simp add: verified_winners_def isFullyVerified_def [abs_def])

lemma serves_after:
  assumes "serving en1 = serving en" "en_crdt en1 = en_crdt en" "en_checks en1 = en_checks en" "serves C en1 en2"
  shows "serves C en en2"
proof -
  note w = verified_winners_cong [OF assms(2,3), of C]
  show ?thesis
    using assms(4) serving_fields [OF assms(1)] unfolding serves_def encoded_from_def w by metis
qed

lemma silent_call [silent]: "\<not> public c \<Longrightarrow> serving (call c en) = serving en"
  by (simp add: serving_def call_def)

lemma silent_changed [silent]:
  "serving (scheduleSnapshotWrite en) = serving en" "serving (markStateChanged en) = serving en"
  "serving (kickTallyRefresh en) = serving en" "serving (onStateChanged en) = serving en"
  by (simp_all add: serving_def scheduleSnapshotWrite_def markStateChanged_def kickTallyRefresh_def onStateChanged_def
      call_def Let_def)

lemma silent_own [silent]:
  "serving (recordChecks cid b s n en) = serving en" "serving (dropOwnTracking k en) = serving en"
  "serving (forgetOwnBundle k en) = serving en" "serving (trackOwnBundle k en) = serving en"
  by (simp_all add: serving_def recordChecks_def dropOwnTracking_def forgetOwnBundle_def trackOwnBundle_def Let_def)

lemma silent_notify [silent]: "(\<And>t. \<not> public (c t)) \<Longrightarrow> serving (notify c cb en) = serving en"
  by (simp add: notify_def silent split: option.splits)

lemma silent_settle: "serving (settleCheck cid key en) = serving en"
proof (cases "jget (en_checks en) cid")
  case (Some checks)
  let ?en = "en\<lparr>en_checks := jset cid (set_check key checks) (en_checks en)\<rparr>"
  have "serving ?en = serving en" by (simp add: serving_def)
  with Some show ?thesis by (simp add: settleCheck_def Let_def silent)
qed (simp add: settleCheck_def)

lemma silent_evict: "serving (evictBundle cid verdict en) = serving en"
proof -
  have "serving (en\<lparr>en_crdt := s, en_checks := k, en_ownCids := o', en_ownCheckpointPeers := p\<rparr>) = serving en" for s k o' p
    by (simp add: serving_def)
  then show ?thesis by (simp add: evictBundle_def Let_def silent split: option.splits)
qed

lemma silent_refresh: "serving (fst (refreshBucket C now head maxAge en)) = serving en"
  by (simp add: refreshBucket_def serving_def Let_def split: sum.splits)

lemma silent_dates: "serving (fst (isEvaluableNow C now head b en)) = serving en"
proof -
  have "serving (fst (nowBucket C now head en)) = serving en" by (simp add: nowBucket_def silent_refresh)
  then show ?thesis by (auto simp: isEvaluableNow_def Let_def split: prod.splits)
qed

lemma silent_prune: "serving (fst (pruneDecayed C en)) = serving en"
proof -
  obtain s removed where p: "prune lwwResolve (bucketForBlock (eg_bucketMath C)) (eg_voteExpiryBuckets C) (isPending en)
      (en_currentBucket en) (en_crdt en) = (s, removed)" by fastforce
  have "serving (prune_one k e) = serving e" for k e
    by (simp add: prune_one_def silent) (simp add: serving_def)
  then have "serving (fold prune_one removed e) = serving e" for e by (induction removed arbitrary: e) auto
  then have "serving (fold prune_one removed (en\<lparr>en_crdt := s\<rparr>)) = serving (en\<lparr>en_crdt := s\<rparr>)" .
  then show ?thesis by (simp add: pruneDecayed_def p prune_one_def [abs_def]) (simp add: serving_def)
qed

lemma silent_tick: "serving (fst (prune_on_tick C now head en)) = serving en"
proof -
  obtain en1 r where r: "refreshBucket C now head True en = (en1, r)" by fastforce
  obtain en2 n where n: "pruneDecayed C en1 = (en2, n)" by fastforce
  have "serving en1 = serving en" "serving en2 = serving en1"
    using silent_refresh [of C now head True en] silent_prune [of C en1] r n by simp_all
  then show ?thesis by (simp add: prune_on_tick_def r n silent split: sum.splits)
qed

lemma silent_tally: "serving (fst (computeTally C now head head' block_at en)) = serving en"
proof -
  obtain en1 r where r: "refreshBucket C now head False en = (en1, r)" by fastforce
  then have "serving en1 = serving en" using silent_refresh [of C now head False en] by simp
  then show ?thesis by (simp add: computeTally_def r silent_prune split: sum.splits)
qed

lemma silent_emit: "serving (computeAndEmit C now head head' block_at en) = serving en"
proof -
  obtain en1 r where r: "computeTally C now head head' block_at (en\<lparr>en_tallyDirty := False\<rparr>) = (en1, r)" by fastforce
  have "serving (en\<lparr>en_tallyDirty := False\<rparr>) = serving en" "serving (en1\<lparr>en_cachedTally := t\<rparr>) = serving en1" for t
    by (simp_all add: serving_def)
  moreover from r have "serving en1 = serving (en\<lparr>en_tallyDirty := False\<rparr>)"
    using silent_tally [of C now head head' block_at "en\<lparr>en_tallyDirty := False\<rparr>"] by simp
  ultimately show ?thesis by (simp add: computeAndEmit_def r silent split: sum.splits)
qed

lemma silent_round: "serving (tally_round C now head head' block_at en) = serving en"
proof -
  have "serving (e\<lparr>en_tallyRefreshing := False\<rparr>) = serving e" for e by (simp add: serving_def)
  then show ?thesis by (simp add: tally_round_def Let_def silent_emit)
qed

lemma silent_finish_join: "serving (fst (join_finish C now head en)) = serving en"
proof -
  obtain en1 r where r: "refreshBucket C now head False en = (en1, r)" by fastforce
  then have "serving en1 = serving en" using silent_refresh [of C now head False en] by simp
  then show ?thesis by (simp add: join_finish_def r silent_prune split: sum.splits)
qed

lemma silent_admit: "serving (fst (admit_block C put got cid bs b verified en)) = serving en"
  by (simp add: admit_block_def Let_def silent split: sum.splits prod.splits del: merge.simps) (simp add: serving_def)

lemma silent_admits:
  "serving (fst (gate_admit C put got cid bs b en)) = serving en"
  "serving (fst (chase_admit C put got cid bs b verified en)) = serving en"
  using silent_admit [of C put got cid bs b] by (auto simp: gate_admit_def chase_admit_def silent split: prod.splits sum.splits)
    (metis fst_conv)+

lemma silent_add: "engine_add C put b en = Inr (en', cid) \<Longrightarrow> serving en' = serving en"
  by (auto simp: engine_add_def res_simps serving_def)

lemma silent_sign: "serving (fst (signVote C head sign address put votes namesSettled token en)) = serving en"
proof -
  have bucket: "serving (en\<lparr>en_currentBucket := k\<rparr>) = serving en" for k by (simp add: serving_def)
  have track: "serving (track_signed cid b namesSettled token e) = serving e" for cid b e
  proof -
    have "serving (e\<lparr>en_ownPublishes := x, en_ownCids := y\<rparr>) = serving e"
      "serving (e\<lparr>en_ownEvictionCbs := x', en_ownVerifiedCbs := y', en_ownCheckpointCbs := z'\<rparr>) = serving e"
      for e x y x' y' z' by (simp_all add: serving_def)
    then show ?thesis by (simp add: track_signed_def Let_def silent split: option.splits)
  qed
  show ?thesis
    using silent_add [of C put _ "en\<lparr>en_currentBucket := _\<rparr>"] bucket track
    by (auto simp: signVote_def Let_def res_simps split: sum.splits)
qed

lemma silent_restore_one: "serving (fst (restore_one C now head put b en)) = serving en"
proof -
  obtain en1 r where r: "isEvaluableNow C now head b en = (en1, r)" by fastforce
  then have "serving en1 = serving en" using silent_dates [of C now head b en] by simp
  with silent_add [of C put b en1] show ?thesis
    by (auto simp: restore_one_def r Let_def silent split: sum.splits bool.splits)
qed

lemma silent_restore_each: "serving (fst (restore_each C now heads puts bs en pending backlog)) = serving en"
proof (induction bs arbitrary: en pending backlog)
  case (Cons b bs)
  obtain en1 r where r: "restore_one C now (heads b) (puts b) b en = (en1, r)" by fastforce
  then have "serving en1 = serving en" using silent_restore_one [of C now "heads b" "puts b" b en] by simp
  with Cons r show ?case by (cases r) simp_all
qed simp

lemma silent_arm [silent]: "serving (armRestoreRetry en) = serving en"
  by (simp add: armRestoreRetry_def serving_def)

lemma silent_restored: "serving (admitRestored C now heads puts winners en) = serving en"
proof -
  obtain en1 pending backlog where r: "restore_each C now heads puts winners en [] [] = (en1, pending, backlog)"
    by (metis prod_cases3)
  then have e1: "serving en1 = serving en" using silent_restore_each [of C now heads puts winners en "[]" "[]"] by simp
  have "serving (e\<lparr>en_restoreBacklog := x\<rparr>) = serving e" for e x by (simp add: serving_def)
  with e1 show ?thesis by (simp add: admitRestored_def r Let_def silent)
qed

lemma silent_restores:
  "serving (restoreSnapshot C now stored heads puts en) = serving en"
  "serving (restore_timer_fires C now heads puts en) = serving en"
proof -
  have f: "serving (e\<lparr>en_restoreAttempts := x\<rparr>) = serving e" "serving (e\<lparr>en_disk := y\<rparr>) = serving e"
    "serving (e\<lparr>en_restoreTimer := z\<rparr>) = serving e" for e x y z by (simp_all add: serving_def)
  show "serving (restoreSnapshot C now stored heads puts en) = serving en"
    "serving (restore_timer_fires C now heads puts en) = serving en"
    by (simp_all add: restoreSnapshot_def restore_timer_fires_def Let_def silent silent_restored f
        split: sum.splits option.splits)
qed

lemma silent_lifecycle:
  "serving (markDestroyed en) = serving en" "serving (join_started en) = serving en"
  "serving (fst (leave_reset en)) = serving en" "serving (leave_end wasJoined en) = serving en"
  "serving (fst (broadcastBundle sent encoded en)) = serving en"
  by (simp_all add: markDestroyed_def join_started_def leave_reset_def leave_end_def broadcastBundle_def serving_def
      call_def Let_def)

lemma silent_credit: "serving (fst (creditPeer p cids en)) = serving en"
proof -
  have key: "serving (fst (creditKey p k st)) = serving (fst st)" for k st
  proof -
    have "serving (e\<lparr>en_ownCheckpointPeers := x\<rparr>) = serving e" "serving (e\<lparr>en_ownCheckpointCbs := y\<rparr>) = serving e" for e x y
      by (simp_all add: serving_def)
    then show ?thesis by (simp add: creditKey_def Let_def silent split: prod.splits)
  qed
  have "serving (fst (fold (creditKey p) cids st)) = serving (fst st)" for st
    by (induction cids arbitrary: st) (simp_all add: key)
  then show ?thesis by (simp add: creditPeer_def)
qed

lemma silent_note: "serving (notePeerRoot p root en) = serving en"
proof -
  have "serving (attributeRoot p root e) = serving e" for e
    using silent_credit [of p _ e] by (auto simp: attributeRoot_def silent split: option.splits prod.splits) (metis fst_conv)+
  then show ?thesis by (simp add: notePeerRoot_def) (simp add: serving_def)
qed

lemma silent_index: "serving (indexRootContents root mine en) = serving en"
proof -
  have at: "serving (fst (credit_at root mine a st)) = serving (fst st)" for a st
    using silent_credit [of "fst a" mine "fst st"] by (auto simp: credit_at_def split: prod.splits)
  have "serving (fst (fold (credit_at root mine) adverts st)) = serving (fst st)" for adverts st
    by (induction adverts arbitrary: st) (simp_all add: at)
  moreover have "serving (en\<lparr>en_decodedRoots := x\<rparr>) = serving en" for x by (simp add: serving_def)
  ultimately show ?thesis by (auto simp: indexRootContents_def Let_def silent split: prod.splits) (metis fst_conv)+
qed

section \<open>The record on demand\<close>

lemma begin_spec:
  assumes "record_begin C now head en = (en', r)"
  shows "serving en' = serving en" "en_crdt en' = en_crdt en" "en_checks en' = en_checks en"
    "r = Inr (Encoding bucket ws) \<Longrightarrow> ws = verified_winners C bucket en"
    "r = Inr (Served rec) \<Longrightarrow> \<exists>rc. en_rootRecordCache en = Some rc \<and> rc_record rc = rec"
proof -
  obtain en1 r1 where r1: "record_bucket C now head en = (en1, r1)" by fastforce
  then have e1: "serving en1 = serving en" "en_crdt en1 = en_crdt en" "en_checks en1 = en_checks en"
    by (auto simp: record_bucket_def refreshBucket_def Let_def serving_def split: if_splits sum.splits)
  have "serving (en1\<lparr>en_checkpointDirty := False\<rparr>) = serving en1" by (simp add: serving_def)
  with assms e1 show "serving en' = serving en" "en_crdt en' = en_crdt en" "en_checks en' = en_checks en"
    by (auto simp: record_begin_def r1 split: sum.splits option.splits if_splits)
  have "verified_winners C b en1 = verified_winners C b en" for b by (rule verified_winners_cong) (use e1 in simp_all)
  with assms show "r = Inr (Encoding bucket ws) \<Longrightarrow> ws = verified_winners C bucket en"
    by (auto simp: record_begin_def r1 split: sum.splits option.splits if_splits)
  show "r = Inr (Served rec) \<Longrightarrow> \<exists>rc. en_rootRecordCache en = Some rc \<and> rc_record rc = rec"
    using assms serving_fields(1) [OF e1(1)]
    by (auto simp: record_begin_def r1 split: sum.splits option.splits if_splits)
qed

lemma finish_spec:
  assumes "record_finish C put bucket ws en = (en', r)"
  shows "en_encodes en' = en_encodes en" "en_calls en' = en_calls en"
    "en_rootRecordCache en' = en_rootRecordCache en \<or>
       (\<exists>rc. en_rootRecordCache en' = Some rc \<and> rc_bucket rc = bucket \<and> encoding C ws rc)"
    "r = Inr rec \<Longrightarrow> \<exists>rc. en_rootRecordCache en' = Some rc \<and> rc_record rc = rec"
  using assms by (auto simp: record_finish_def encoding_def split: sum.splits prod.splits)

lemma record_spec:
  assumes "rootRecord C now head put en = (en', r)"
  shows "serves C en en'" "en_crdt en' = en_crdt en" "en_checks en' = en_checks en"
    "r = Inr rec \<Longrightarrow> \<exists>rc. en_rootRecordCache en' = Some rc \<and> rc_record rc = rec"
proof -
  obtain en1 r1 where b: "record_begin C now head en = (en1, r1)" by fastforce
  note b1 = begin_spec [OF b]
  have quiet: "quiet_to en en'" using quiet_record [of en C now head put] assms by simp
  then show "en_crdt en' = en_crdt en" "en_checks en' = en_checks en" by (simp_all add: quiet_to_def tracking_def)
  show "serves C en en'"
  proof (cases "\<exists>bucket ws. r1 = Inr (Encoding bucket ws)")
    case True
    then obtain bucket ws where r1: "r1 = Inr (Encoding bucket ws)" by blast
    with assms b have f: "record_finish C put bucket ws en1 = (en', r)" by (simp add: rootRecord_def)
    note f1 = finish_spec [OF f]
    have "ws = verified_winners C bucket en" using b1(4) r1 by blast
    then have "encoded_from C en rc" if "rc_bucket rc = bucket" "encoding C ws rc" for rc
      using that by (simp add: encoded_from_def)
    then have "encoded_from C en rc" if "en_rootRecordCache en' = Some rc" "en_rootRecordCache en' \<noteq> en_rootRecordCache en" for rc
      using that f1(3) serving_fields(1) [OF b1(1)] by auto
    with f1(1,2) serving_fields [OF b1(1)] show ?thesis unfolding serves_def by auto
  next
    case False
    with assms b have "en' = en1" by (auto simp: rootRecord_def split: sum.splits record_begun.splits)
    with b1(1) show ?thesis by (simp add: serves_silent)
  qed
  show "r = Inr rec \<Longrightarrow> \<exists>rc. en_rootRecordCache en' = Some rc \<and> rc_record rc = rec"
  proof -
    assume r: "r = Inr rec"
    then consider "r1 = Inr (Served rec)" "en' = en1"
      | bucket ws where "record_finish C put bucket ws en1 = (en', r)"
      using assms b by (auto simp: rootRecord_def split: sum.splits record_begun.splits)
    then show ?thesis
      using b1(5) [of rec] serving_fields(1) [OF b1(1)] finish_spec(4) [OF _ r] by cases metis+
  qed
qed

lemma serves_show:
  assumes "serves C en en1" "en_rootRecordCache en1 = Some rc" "shown_of C rc c"
  shows "serves C en (call c en1)"
  using assms unfolding serves_def by (auto simp: call_def)

lemma silent_chase: "serving (chase root chunks known connections en) = serving en"
  by (simp add: chase_def silent)

lemma serves_publish:
  assumes "serves C en en1" "en_rootRecordCache en1 = Some rc" "rc_record rc = own"
  shows "serves C en (publish_root own en1)"
  using assms serves_show [OF assms(1,2), of "PublishRoot own"] by (simp add: publish_root_def)

lemma serves_write: "serves C en (writeSnapshot C now head put stored retry en)"
proof (cases "hasUnsettledChecks en \<or> en_restoreBacklog en \<noteq> []")
  case False
  obtain en1 r where r: "rootRecord C now head put en = (en1, r)" by fastforce
  note s = record_spec(1) [OF r]
  have failed: "serves C en (write_failed C retry en1)"
    by (rule serves_then [OF s]) (simp add: write_failed_def Let_def silent, simp add: serving_def)
  have written: "serves C en (call (SnapshotWritten blob) (en1\<lparr>en_disk := Some blob, en_snapshotWriteFailures := 0\<rparr>))"
    if "en_rootRecordCache en1 = Some rc" "snapshot_blob C rc = Inr blob" for rc blob
    by (rule serves_show [OF serves_then [OF s]]) (use that in \<open>simp_all add: serving_def\<close>)
  show ?thesis
    using False s failed written
    by (auto simp: writeSnapshot_def r res_simps split: sum.splits option.splits)
qed (simp add: writeSnapshot_def serves_silent)

lemma serves_timer: "serves C en (snapshot_timer_fires C now head put stored en)"
  unfolding snapshot_timer_fires_def by (rule serves_after [OF _ _ _ serves_write]) (simp_all add: serving_def)

lemma serves_leave_begin: "serves C en (leave_begin C now head put stored en)"
proof -
  have "serves C en (writeSnapshot C now head put stored False (en\<lparr>en_heartbeat := False, en_snapshotTimer := False\<rparr>))"
    by (rule serves_after [OF _ _ _ serves_write]) (simp_all add: serving_def)
  moreover have "serves C en (en\<lparr>en_heartbeat := False\<rparr>)" by (rule serves_silent) (simp add: serving_def)
  ultimately show ?thesis by (simp add: leave_begin_def Let_def)
qed

lemma serves_beat: "serves C en (beat_publish C now head put pruned en)"
proof -
  let ?en = "en\<lparr>en_heardMatchingRoot := False, en_publishedRoot := False\<rparr>"
  obtain en2 r where r: "rootRecord C now head put ?en = (en2, r)" by fastforce
  have e: "serving ?en = serving en" by (simp add: serving_def)
  have s: "serves C en en2" by (rule serves_after [OF e _ _ record_spec(1) [OF r]]) simp_all
  have "serves C en (publish_root own en2)" if own: "r = Inr own" for own
  proof -
    from record_spec(4) [OF r own] obtain rc where "en_rootRecordCache en2 = Some rc" "rc_record rc = own" by blast
    then show ?thesis by (rule serves_publish [OF s])
  qed
  with s serves_silent [OF e] show ?thesis by (auto simp: beat_publish_def r Let_def split: sum.splits)
qed

lemma note_keeps: "en_crdt (notePeerRoot p root en) = en_crdt en" "en_checks (notePeerRoot p root en) = en_checks en"
proof -
  have key: "en_crdt (fst (creditKey p k st)) = en_crdt (fst st) \<and> en_checks (fst (creditKey p k st)) = en_checks (fst st)" for k st
    by (simp add: creditKey_def Let_def notify_def split: prod.splits option.splits)
  have "en_crdt (fst (fold (creditKey p) cids st)) = en_crdt (fst st) \<and>
      en_checks (fst (fold (creditKey p) cids st)) = en_checks (fst st)" for cids st
    by (induction cids arbitrary: st) (simp_all add: key)
  then have credit: "en_crdt (fst (creditPeer p cids e)) = en_crdt e \<and> en_checks (fst (creditPeer p cids e)) = en_checks e" for cids e
    by (simp add: creditPeer_def)
  have changed: "en_crdt (onStateChanged e) = en_crdt e" "en_checks (onStateChanged e) = en_checks e" for e
    using quiet_changed [of e] by (simp_all add: quiet_to_def tracking_def)
  show "en_crdt (notePeerRoot p root en) = en_crdt en" "en_checks (notePeerRoot p root en) = en_checks en"
    using credit [of _ "en\<lparr>en_peerRoots := lru_put PEER_ROOTS_MAX p root (en_peerRoots en)\<rparr>"]
    by (auto simp: notePeerRoot_def attributeRoot_def changed split: option.splits prod.splits) (metis fst_conv)+
qed

lemma serves_hears: "serves C en (handleRootRecord C now head put connections record from_peer en)"
proof -
  define en0 where "en0 = (case from_peer of None \<Rightarrow> en | Some p \<Rightarrow> notePeerRoot p (rr_root record) en)"
  obtain en1 r where r: "rootRecord C now head put en0 = (en1, r)" by fastforce
  have e0: "serving en0 = serving en" "en_crdt en0 = en_crdt en" "en_checks en0 = en_checks en"
    by (simp_all add: en0_def silent_note note_keeps split: option.splits)
  have s: "serves C en en1" by (rule serves_after [OF e0 record_spec(1) [OF r]])
  have matched: "serves C en (indexRootContents root mine (en1\<lparr>en_heardMatchingRoot := True\<rparr>))" for root mine
    by (rule serves_then [OF s]) (simp add: silent_index, simp add: serving_def)
  have chased: "serves C en (chase root chunks known connections en1)" for root chunks known
    by (rule serves_then [OF s silent_chase])
  have published: "serves C en (publish_root own (chase root chunks known connections en1\<lparr>en_publishedRoot := True\<rparr>))"
    if own: "r = Inr own" for own root chunks known
  proof -
    from record_spec(4) [OF r own] obtain rc where rc: "en_rootRecordCache en1 = Some rc" "rc_record rc = own" by blast
    have same: "serving (chase root chunks known connections en1\<lparr>en_publishedRoot := True\<rparr>) = serving en1"
      using silent_chase [of root chunks known connections en1] by (simp add: serving_def)
    show ?thesis
      by (rule serves_publish [OF serves_then [OF s same]]) (use rc serving_fields(1) [OF same] in simp_all)
  qed
  show ?thesis
    using s matched chased published
    by (auto simp: handleRootRecord_def en0_def [symmetric] r Let_def split: sum.splits)
qed

lemma serves_ingests: "serves C en (fst (ingestRootRecord C now head put connections p encoded en))"
proof -
  obtain en1 r where r: "rootRecord C now head put en = (en1, r)" by fastforce
  have s: "serves C en (chase root chunks known connections (notePeerRoot p root' en1))"
    "serves C en (notePeerRoot p root' en1)" for root chunks known root'
    by (rule serves_then [OF record_spec(1) [OF r]], simp add: silent_chase silent_note)+
  show ?thesis
    using s record_spec(1) [OF r] serves_silent [OF refl, of C en]
    by (auto simp: ingestRootRecord_def r Let_def split: sum.splits)
qed

section \<open>Every step\<close>

lemma serves_step: "en_step C en en' \<Longrightarrow> serves C en en'"
proof (induction rule: en_step.cases)
  case (encode_begins now head en1 en2 bucket ws)
  note b = begin_spec [OF encode_begins(3)]
  show ?case
    using serving_fields [OF b(1)] b(4) [OF refl] unfolding encode_begins(1,2) serves_def by auto
next
  case (encode_ends bucket ws en1 puts)
  obtain en2 r where f: "record_finish C puts bucket ws en1 = (en2, r)" by fastforce
  note f1 = finish_spec [OF f]
  have "set (remove1 (bucket, ws) (en_encodes en1)) \<subseteq> set (en_encodes en1)" by (rule set_remove1_subset)
  with f1 encode_ends(3) show ?case unfolding encode_ends(1,2) serves_def by (auto simp: f)
next
  case (blockstore en1 blocks)
  then show ?case by (simp add: serves_silent serving_def)
next
  case (listeners en1 n)
  then show ?case by (simp add: serves_silent serving_def)
next
  case (join_begins en1)
  then show ?case by (auto simp: join_begin_def serves_def)
next
  case (serves en1 now head puts)
  obtain en2 r where "rootRecord C now head puts en1 = (en2, r)" by fastforce
  with serves record_spec(1) [OF this] show ?case by (auto simp: rootRecordWithBlocks_def split: sum.splits)
qed (simp_all add: serves_hears serves_ingests serves_timer serves_leave_begin serves_beat serves_silent silent_admits
    silent_sign silent_lifecycle silent_settle silent_evict silent silent_note silent_index noteCheckpointContents_def silent_dates
    silent_tally silent_emit silent_round silent_tick silent_restores silent_finish_join)

lemma served_reachable: "en_run C (engine_start blocks disk) en \<Longrightarrow> served_ok C (engine_start blocks disk) en"
proof (induction rule: rtranclp_induct)
  case base
  then show ?case by (simp add: served_ok_def engine_start_def)
next
  case (step en en')
  show ?case by (rule served_step [OF step.IH step.hyps(1,2) serves_step [OF step.hyps(2)]])
qed

end
