(* ===== verification/Engine_Current.thy ===== *)
theory Engine_Current
  imports Engine_Served
begin

text \<open>
  That what the engine serves is up to date: no step changes the verified winners of the current
  bucket without invalidating the cached record, pruning included, so that a record call that
  succeeds gives the encoding of the verified winners as they are now.
\<close>

section \<open>The verified winners\<close>

lemma distinct_wallets: "distinct (map wallet_of (currentEntries resolve bf ex s b el))"
proof -
  let ?m = "winnersByWallet resolve el s"
  have "map wallet_of (jvalues ?m) = jkeys ?m"
    using winnersByWallet_wf(2) [of _ _ resolve el s] by auto
  then have "distinct (map wallet_of (jvalues ?m))"
    using winnersByWallet_wf(1) [of resolve el s] by (simp only: jwf_def)
  then show ?thesis unfolding currentEntries_def by (rule distinct_map_filter)
qed

lemma winners_mset:
  assumes "set (currentEntries resolve bf ex s b el) = set (currentEntries resolve bf ex s' b el')"
  shows "mset (map e_bundle (currentEntries resolve bf ex s b el)) = mset (map e_bundle (currentEntries resolve bf ex s' b el'))"
  using assms set_eq_iff_mset_eq_distinct [OF distinct_currentEntries distinct_currentEntries] by (metis mset_map)

text \<open>Encoding sorts by wallet, so it depends on the winners and not on their order.\<close>

lemma encoding_perm:
  assumes "encoding C ws rc" "mset ws = mset ws'" "distinct (map (\<lambda>b. to_lower (b_address b)) ws)"
  shows "encoding C ws' rc"
proof -
  have "sort_winners ws = sort_winners ws'" using assms(2,3) by (rule sort_winners_cong)
  then have "encodeCheckpoint (eg_lib C) ws m = encodeCheckpoint (eg_lib C) ws' m" for m
    by (simp add: encodeCheckpoint_def)
  moreover have "length ws = length ws'" using assms(2) by (metis size_mset)
  ultimately show ?thesis using assms(1) by (simp add: encoding_def)
qed

lemma distinct_verified: "distinct (map (\<lambda>b. to_lower (b_address b)) (verified_winners C b en))"
  using distinct_wallets unfolding verified_winners_def by (simp add: wallet_of_def [abs_def] comp_def)

definition bucketed :: "'x engine_config \<Rightarrow> bool" where
  "bucketed C \<longleftrightarrow> (\<exists>blocksPerBucket. makeBucketMath blocksPerBucket = Inr (eg_bucketMath C))"

lemma bucketed_mono: "bucketed C \<Longrightarrow> mono (bucketForBlock (eg_bucketMath C))"
  by (auto simp: bucketed_def makeBucketMath_Inr mono_def bucket_of_def div_le_mono)

section \<open>Pruning\<close>

lemma prune_checks: "jget (en_checks (fold prune_one ks en)) c = (if c \<in> set ks then None else jget (en_checks en) c)"
  by (induction ks arbitrary: en) (auto simp: jsmap_simps)

lemma prune_verified:
  assumes C: "bucketed C" and inv: "engine_inv en" and b: "en_currentBucket en \<le> b"
  shows "mset (verified_winners C b (fst (pruneDecayed C en))) = mset (verified_winners C b en)"
proof -
  let ?bf = "bucketForBlock (eg_bucketMath C)" and ?ex = "eg_voteExpiryBuckets C"
  obtain s removed where p: "prune lwwResolve ?bf ?ex (isPending en) (en_currentBucket en) (en_crdt en) = (s, removed)"
    by fastforce
  let ?en = "fold prune_one removed (en\<lparr>en_crdt := s\<rparr>)"
  have en': "fst (pruneDecayed C en) = ?en" by (simp add: pruneDecayed_def p prune_one_def [abs_def])
  have wf: "crdt_wf (en_crdt en)" and keys: "keyset (en_checks en) = keyset (bundles (en_crdt en))"
    using inv by (simp_all add: inv_defs)
  have s: "crdt_wf s" "s = fst (prune lwwResolve ?bf ?ex (isPending en) (en_currentBucket en) (en_crdt en))"
    using crdt_wf_prune [OF wf] p by (metis fst_conv)+
  have cid: "e_cid e \<in> keyset (bundles t)" if "crdt_wf t" "e \<in> entries t" for e t
    using that by (force simp: crdt_wf_def entries_def keyset_def)
  have "isFullyVerified en (e_cid m)" if "is_winner lww_beats (\<lambda>_. True) (entries (en_crdt en)) m" "\<not> isPending en (e_cid m)" for m
  proof -
    have "e_cid m \<in> keyset (en_checks en)" using cid [OF wf, of m] that(1) keys by (simp add: is_winner_def)
    then obtain k where "jget (en_checks en) (e_cid m) = Some k"
      by (auto simp: keyset_def dest: weak_map_of_SomeI)
    with that(2) show ?thesis by (simp add: isPending_def isFullyVerified_def unsettled_def)
  qed
  then have view: "set (currentEntries lwwResolve ?bf ?ex s b (isFullyVerified en)) =
      set (currentEntries lwwResolve ?bf ?ex (en_crdt en) b (isFullyVerified en))"
    unfolding s(2) by (intro lww.prune_view [OF wf bucketed_mono [OF C] b]) blast
  have same: "isFullyVerified ?en (e_cid e) = isFullyVerified en (e_cid e)" if "e \<in> entries s" for e
  proof -
    have "e_cid e \<notin> set removed" using cid [OF s(1) that] prune_keys(1) [OF wf p] by blast
    then show ?thesis by (simp add: isFullyVerified_def prune_checks)
  qed
  have "set (currentEntries lwwResolve ?bf ?ex s b (isFullyVerified ?en)) =
      set (currentEntries lwwResolve ?bf ?ex s b (isFullyVerified en))"
    unfolding lww.set_currentEntries [OF s(1)] using same by (auto simp: is_winner_def)
  with view have "set (currentEntries lwwResolve ?bf ?ex s b (isFullyVerified ?en)) =
      set (currentEntries lwwResolve ?bf ?ex (en_crdt en) b (isFullyVerified en))" by simp
  from winners_mset [OF this] show ?thesis by (simp add: verified_winners_def en' prune_fold)
qed

section \<open>No change goes unmarked\<close>

definition marked :: "'x engine_config \<Rightarrow> engine \<Rightarrow> engine \<Rightarrow> bool" where
  "marked C en en' \<longleftrightarrow> en_checkpointDirty en' \<or>
     (\<forall>b \<ge> en_currentBucket en'. mset (verified_winners C b en') = mset (verified_winners C b en))"

lemma marked_dirty [simp]: "en_checkpointDirty en' \<Longrightarrow> marked C en en'"
  by (simp add: marked_def)

lemma marked_view: "en_crdt en' = en_crdt en \<Longrightarrow> en_checks en' = en_checks en \<Longrightarrow> marked C en en'"
  using verified_winners_cong [of en' en C] by (simp add: marked_def)

lemma marked_quiet: "quiet_to en en' \<Longrightarrow> marked C en en'"
  by (rule marked_view) (simp_all add: quiet_to_def tracking_def)

lemma dirty_changed [simp]:
  "en_checkpointDirty (onStateChanged en)" "en_checkpointDirty (markStateChanged en)"
  "en_checkpointDirty (call c en) = en_checkpointDirty en"
  "en_checkpointDirty (scheduleSnapshotWrite en) = en_checkpointDirty en"
  "en_checkpointDirty (armRestoreRetry en) = en_checkpointDirty en"
  by (simp_all add: onStateChanged_def markStateChanged_def scheduleSnapshotWrite_def kickTallyRefresh_def call_def
      armRestoreRetry_def Let_def)

lemma view_simps [simp]:
  "en_crdt (onStateChanged en) = en_crdt en" "en_checks (onStateChanged en) = en_checks en"
  "en_crdt (scheduleSnapshotWrite en) = en_crdt en" "en_checks (scheduleSnapshotWrite en) = en_checks en"
  "en_crdt (armRestoreRetry en) = en_crdt en" "en_checks (armRestoreRetry en) = en_checks en"
  "en_crdt (chase root chunks known connections en) = en_crdt en" "en_checks (chase root chunks known connections en) = en_checks en"
  "en_crdt (publish_root own en) = en_crdt en" "en_checks (publish_root own en) = en_checks en"
  using quiet_changed [of en] quiet_schedule [of en] quiet_arm [of en] quiet_chase [of en root chunks known connections]
    quiet_publish [of en own]
  by (simp_all add: quiet_to_def tracking_def)

lemma prune_one_bucket: "en_currentBucket (fold prune_one ks en) = en_currentBucket en"
  by (induction ks arbitrary: en) (simp_all add: prune_one_def forgetOwnBundle_def dropOwnTracking_def Let_def)

lemma prune_bucket [simp]: "en_currentBucket (fst (pruneDecayed C en)) = en_currentBucket en"
  by (simp add: pruneDecayed_def prune_one_def [abs_def, symmetric] prune_one_bucket split: prod.splits)

lemma marked_prune:
  assumes C: "bucketed C" and inv: "engine_inv en" and r: "refreshBucket C now head maxAge en = (en1, r)"
  shows "marked C en (fst (pruneDecayed C en1))"
proof -
  have q: "quiet_to en en1" using quiet_refresh [of en C now head maxAge] r by simp
  then have "verified_winners C b en1 = verified_winners C b en" for b
    by (intro verified_winners_cong) (simp_all add: quiet_to_def tracking_def)
  with prune_verified [OF C inv_quiet [OF q inv]] show ?thesis by (simp add: marked_def)
qed

lemma marked_tallies:
  assumes "bucketed C" "engine_inv en"
  shows "marked C en (fst (computeTally C now head head' block_at en))"
proof -
  obtain en1 r where r: "refreshBucket C now head False en = (en1, r)" by fastforce
  then have "quiet_to en en1" using quiet_refresh [of en C now head False] by simp
  with marked_prune [OF assms r] show ?thesis
    by (auto simp: computeTally_def r marked_quiet split: sum.splits)
qed

lemma marked_same: "marked C en en1 \<Longrightarrow> quiet_to en1 en2 \<Longrightarrow> en_currentBucket en2 = en_currentBucket en1 \<Longrightarrow>
    en_checkpointDirty en2 = en_checkpointDirty en1 \<Longrightarrow> marked C en en2"
  using verified_winners_cong [of en2 en1 C] by (simp add: marked_def quiet_to_def tracking_def)

lemma marked_emits:
  assumes "bucketed C" "engine_inv en"
  shows "marked C en (computeAndEmit C now head head' block_at en)"
proof -
  let ?en = "en\<lparr>en_tallyDirty := False\<rparr>"
  obtain en1 r where r: "computeTally C now head head' block_at ?en = (en1, r)" by fastforce
  have "marked C ?en en1"
    using marked_tallies [OF assms(1) inv_quiet [OF quiet_fields(11) assms(2)]] r by (metis fst_conv)
  then have m: "marked C en en1" using verified_winners_cong [of ?en en C] by (simp add: marked_def)
  have "marked C en (call (EmitError e) en1)" for e
    by (rule marked_same [OF m quiet_call]) (simp_all add: call_def)
  moreover have "marked C en (call EmitUpdate (en1\<lparr>en_cachedTally := t\<rparr>))" for t
    by (rule marked_same [OF m quiet_trans [OF quiet_fields(12) quiet_call]]) (simp_all add: call_def)
  ultimately show ?thesis by (auto simp: computeAndEmit_def r split: sum.splits)
qed

lemma marked_recounts:
  assumes "bucketed C" "engine_inv en"
  shows "marked C en (tally_round C now head head' block_at en)"
proof -
  have m: "marked C en (computeAndEmit C now head head' block_at en)" by (rule marked_emits [OF assms])
  from m marked_same [OF m quiet_fields(13) [where ?x13.0 = False]] show ?thesis
    by (simp add: tally_round_def Let_def)
qed

lemma marked_tick:
  assumes "bucketed C" "engine_inv en"
  shows "marked C en (fst (prune_on_tick C now head en))"
proof -
  obtain en1 r where r: "refreshBucket C now head True en = (en1, r)" by fastforce
  then have "quiet_to en en1" using quiet_refresh [of en C now head True] by simp
  with marked_prune [OF assms r] show ?thesis
    by (auto simp: prune_on_tick_def r marked_quiet split: sum.splits prod.splits)
qed

lemma marked_join:
  assumes "bucketed C" "engine_inv en"
  shows "marked C en (fst (join_finish C now head en))"
proof -
  obtain en1 r where r: "refreshBucket C now head False en = (en1, r)" by fastforce
  then have "quiet_to en en1" using quiet_refresh [of en C now head False] by simp
  with marked_prune [OF assms r] show ?thesis
    by (auto simp: join_finish_def r marked_quiet split: sum.splits)
qed

lemma marked_admits:
  assumes "engine_inv en"
  shows "marked C en (fst (gate_admit C put got cid bs b en))"
    and "marked C en (fst (chase_admit C put got cid bs b verified en))"
proof -
  have failed: "marked C en en'" if a: "admit_block C put got cid bs b v en = (en', Inl e)" for en' e v
  proof (cases put)
    case (Inl x)
    with a show ?thesis by (simp add: admit_block_def marked_view)
  next
    case (Inr u)
    let ?get = "\<lambda>c. sbind got (\<lambda>_. bs_get (eg_lib C) (jset cid bs (en_blocks en)) c)"
    obtain s r where m: "merge ?get [cid] (en_crdt en) = (s, r)" by fastforce
    have "s = en_crdt en" if "r = Inl x" for x
      using merge_one [of "en_crdt en", where get = ?get and cid = cid] assms m that by (simp add: inv_defs del: merge.simps)
    with a m Inr show ?thesis
      by (auto simp: admit_block_def Let_def marked_view simp del: merge.simps split: sum.splits)
  qed
  show "marked C en (fst (gate_admit C put got cid bs b en))"
    "marked C en (fst (chase_admit C put got cid bs b verified en))"
    using failed by (auto simp: gate_admit_def chase_admit_def split: prod.splits sum.splits)
qed

lemma marked_signs: "marked C en (fst (signVote C head sign address put votes namesSettled token en))"
  by (auto simp: signVote_def track_signed_def Let_def marked_view split: sum.splits)

lemma marked_settle: "marked C en (settleCheck cid key en)" "marked C en (evictBundle cid verdict en)"
  by (auto simp: settleCheck_def evictBundle_def Let_def marked_view split: option.splits)

lemma restore_one_view:
  "restore_one C now head put b en = (en', r) \<Longrightarrow> (\<And>p. r \<noteq> Readmitted p) \<Longrightarrow>
     en_crdt en' = en_crdt en \<and> en_checks en' = en_checks en"
proof -
  assume r: "restore_one C now head put b en = (en', r)" "\<And>p. r \<noteq> Readmitted p"
  obtain en1 e where e: "isEvaluableNow C now head b en = (en1, e)" by fastforce
  then have "en_crdt en1 = en_crdt en \<and> en_checks en1 = en_checks en"
    using quiet_dates [of en C now head b] by (simp add: quiet_to_def tracking_def)
  with r show ?thesis by (auto simp: restore_one_def e Let_def split: sum.splits bool.splits if_splits)
qed

lemma restore_each_view:
  "restore_each C now heads puts bs en pending backlog = (en', pending', backlog') \<Longrightarrow>
     (pending' = [] \<longrightarrow> pending = [] \<and> en_crdt en' = en_crdt en \<and> en_checks en' = en_checks en)"
proof (induction C now heads puts bs en pending backlog rule: restore_each.induct)
  case (2 C now heads puts b bs en pending backlog)
  obtain en1 r where r: "restore_one C now (heads b) (puts b) b en = (en1, r)" by fastforce
  with 2 show ?case
    using restore_one_view [OF r] by (cases r) auto
qed simp

lemma marked_restored: "marked C en (admitRestored C now heads puts winners en)"
proof -
  obtain en1 pending backlog where r: "restore_each C now heads puts winners en [] [] = (en1, pending, backlog)"
    by (metis prod_cases3)
  show ?thesis
  proof (cases "pending = []")
    case True
    let ?e = "en1\<lparr>en_restoreBacklog := backlog\<rparr>"
    have "en_crdt (admitRestored C now heads puts winners en) = en_crdt ?e \<and>
        en_checks (admitRestored C now heads puts winners en) = en_checks ?e"
      by (simp add: admitRestored_def r True Let_def)
    with restore_each_view [OF r] True show ?thesis by (intro marked_view) simp_all
  next
    case False
    then show ?thesis by (simp add: admitRestored_def r Let_def)
  qed
qed

lemma marked_restores:
  "marked C en (restoreSnapshot C now stored heads puts en)" "marked C en (restore_timer_fires C now heads puts en)"
proof -
  have m: "marked C en (admitRestored C now heads puts ws (en\<lparr>en_restoreAttempts := x\<rparr>))"
    "marked C en (admitRestored C now heads puts ws (en\<lparr>en_restoreTimer := y\<rparr>))" for ws x y
    using marked_restored [of C "en\<lparr>en_restoreAttempts := x\<rparr>"] marked_restored [of C "en\<lparr>en_restoreTimer := y\<rparr>"]
      verified_winners_cong [of "en\<lparr>en_restoreAttempts := x\<rparr>" en C] verified_winners_cong [of "en\<lparr>en_restoreTimer := y\<rparr>" en C]
    by (simp_all add: marked_def)
  show "marked C en (restoreSnapshot C now stored heads puts en)" "marked C en (restore_timer_fires C now heads puts en)"
    using m by (auto simp: restoreSnapshot_def restore_timer_fires_def Let_def marked_view split: sum.splits option.splits)
qed

lemma credit_view:
  "en_crdt (fst (creditPeer p cids en)) = en_crdt en" "en_checks (fst (creditPeer p cids en)) = en_checks en"
proof -
  have key: "en_crdt (fst (creditKey p k st)) = en_crdt (fst st) \<and> en_checks (fst (creditKey p k st)) = en_checks (fst st)" for k st
    by (simp add: creditKey_def Let_def notify_def split: prod.splits option.splits)
  have "en_crdt (fst (fold (creditKey p) cids st)) = en_crdt (fst st) \<and>
      en_checks (fst (fold (creditKey p) cids st)) = en_checks (fst st)" for st
    by (induction cids arbitrary: st) (simp_all add: key)
  then show "en_crdt (fst (creditPeer p cids en)) = en_crdt en" "en_checks (fst (creditPeer p cids en)) = en_checks en"
    by (simp_all add: creditPeer_def)
qed

lemma index_view [simp]:
  "en_crdt (indexRootContents root mine en) = en_crdt en" "en_checks (indexRootContents root mine en) = en_checks en"
proof -
  have at: "en_crdt (fst (credit_at root mine a st)) = en_crdt (fst st) \<and> en_checks (fst (credit_at root mine a st)) = en_checks (fst st)"
    for a st
    using credit_view [of "fst a" mine "fst st"] by (auto simp: credit_at_def split: prod.splits)
  have fold: "en_crdt (fst (fold (credit_at root mine) adverts st)) = en_crdt (fst st) \<and>
      en_checks (fst (fold (credit_at root mine) adverts st)) = en_checks (fst st)" for adverts st
    by (induction adverts arbitrary: st) (simp_all add: at)
  let ?en = "en\<lparr>en_decodedRoots := lru_put DECODED_ROOTS_MAX root mine (en_decodedRoots en)\<rparr>"
  obtain e credited where e: "fold (credit_at root mine) (en_peerRoots ?en) (?en, False) = (e, credited)" by fastforce
  from fold [of "en_peerRoots ?en" "(?en, False)"] e
  show "en_crdt (indexRootContents root mine en) = en_crdt en" "en_checks (indexRootContents root mine en) = en_checks en"
    by (simp_all add: indexRootContents_def Let_def)
qed

lemma record_view:
  assumes "rootRecord C now head put en = (en', r)"
  shows "en_crdt en' = en_crdt en" "en_checks en' = en_checks en"
  using record_spec(2,3) [OF assms] .

lemma marked_hears: "marked C en (handleRootRecord C now head put connections record from_peer en)"
proof -
  define en0 where "en0 = (case from_peer of None \<Rightarrow> en | Some p \<Rightarrow> notePeerRoot p (rr_root record) en)"
  obtain en1 r where r: "rootRecord C now head put en0 = (en1, r)" by fastforce
  have "en_crdt en0 = en_crdt en" "en_checks en0 = en_checks en" by (simp_all add: en0_def note_keeps split: option.splits)
  with record_view [OF r] show ?thesis
    by (intro marked_view) (simp_all add: handleRootRecord_def en0_def [symmetric] r Let_def split: sum.splits)
qed

lemma marked_ingests: "marked C en (fst (ingestRootRecord C now head put connections p encoded en))"
proof -
  obtain en1 r where r: "rootRecord C now head put en = (en1, r)" by fastforce
  with record_view [OF r] show ?thesis
    by (intro marked_view) (simp_all add: ingestRootRecord_def r Let_def note_keeps split: sum.splits)
qed

lemma marked_beat: "marked C en (beat_publish C now head put pruned en)"
proof -
  obtain en2 r where r: "rootRecord C now head put (en\<lparr>en_heardMatchingRoot := False, en_publishedRoot := False\<rparr>) = (en2, r)"
    by fastforce
  with record_view [OF r] show ?thesis
    by (intro marked_view) (simp_all add: beat_publish_def r Let_def split: sum.splits)
qed

lemma marked_track: "marked C en (trackOwnBundle cid en)"
  by (intro marked_view) (simp_all add: trackOwnBundle_def Let_def)

lemma invalidation_complete:
  assumes "bucketed C" "engine_inv en" "en_step C en en'"
  shows "marked C en en'"
  using assms(3)
proof cases
  case (encode_begins now head en1 bucket ws)
  with begin_spec(2,3) [OF encode_begins(2)] show ?thesis by (intro marked_view) simp_all
next
  case (encode_ends bucket ws puts)
  with quiet_finish [of en C puts bucket ws] show ?thesis by (intro marked_view) (simp_all add: quiet_to_def tracking_def)
qed (use assms(1,2) in \<open>auto intro: marked_admits marked_signs marked_settle marked_track marked_hears marked_ingests
    marked_tallies marked_emits marked_recounts marked_tick marked_beat marked_restores marked_join
    marked_quiet [OF quiet_fields(1)] marked_quiet [OF quiet_fields(2)] marked_quiet [OF quiet_call]
    marked_quiet [OF quiet_broadcast] marked_quiet [OF quiet_served] marked_quiet [OF quiet_dates]
    marked_quiet [OF quiet_timer] marked_quiet [OF quiet_join(1)] marked_quiet [OF quiet_join(2)]
    marked_quiet [OF quiet_join(3)] marked_quiet [OF quiet_join(4)] marked_quiet [OF quiet_leave_begin]
    marked_view simp: noteCheckpointContents_def leave_reset_def note_keeps\<close>)

section \<open>Runs in which records are encoded without interruption\<close>

text \<open>A calm step moves the head only forward and is either a record call that succeeds, or a step that
  encodes nothing: it keeps the cached record or drops it, and does not consume the dirty flag.\<close>

inductive calm_step :: "'x engine_config \<Rightarrow> engine \<Rightarrow> engine \<Rightarrow> bool" for C where
  other: "en_step C en en' \<Longrightarrow> en_currentBucket en \<le> en_currentBucket en' \<Longrightarrow>
    en_rootRecordCache en' \<in> {en_rootRecordCache en, None} \<Longrightarrow>
    (en_checkpointDirty en \<longrightarrow> en_checkpointDirty en') \<Longrightarrow> calm_step C en en'"
| records: "rootRecord C now head put en = (en', Inr r) \<Longrightarrow> en_currentBucket en \<le> en_currentBucket en' \<Longrightarrow> calm_step C en en'"

definition accurate :: "'x engine_config \<Rightarrow> engine \<Rightarrow> bool" where
  "accurate C en \<longleftrightarrow>
     (\<forall>rc. en_rootRecordCache en = Some rc \<longrightarrow> rc_bucket rc \<le> en_currentBucket en \<and>
        (\<not> en_checkpointDirty en \<longrightarrow> rc_bucket rc = en_currentBucket en \<longrightarrow> encoded_from C en rc))"

lemma record_bucket_cur: "record_bucket C now head en = (en', Inr bucket) \<Longrightarrow> en_currentBucket en' = bucket"
  by (auto simp: record_bucket_def refreshBucket_def Let_def split: if_splits sum.splits)

lemma record_current:
  assumes acc: "accurate C en" and r: "rootRecord C now head put en = (en', Inr rec)"
    and mono: "en_currentBucket en \<le> en_currentBucket en'"
  shows "\<exists>rc. en_rootRecordCache en' = Some rc \<and> rc_record rc = rec \<and> rc_bucket rc = en_currentBucket en' \<and> encoded_from C en' rc"
proof -
  obtain en1 b1 where b1: "record_bucket C now head en = (en1, b1)" by fastforce
  with r obtain bucket where b: "b1 = Inr bucket" by (cases b1) (auto simp: rootRecord_def record_begin_def)
  have cur: "en_currentBucket en1 = bucket" using record_bucket_cur b1 b by blast
  have e1: "en_crdt en1 = en_crdt en" "en_checks en1 = en_checks en" "en_rootRecordCache en1 = en_rootRecordCache en"
    "en_checkpointDirty en1 = en_checkpointDirty en"
    using b1 by (auto simp: record_bucket_def refreshBucket_def Let_def split: if_splits sum.splits)
  have same: "verified_winners C k en1 = verified_winners C k en" for k by (rule verified_winners_cong) (simp_all add: e1)
  note en' = record_view [OF r]
  have same': "verified_winners C k en' = verified_winners C k en" for k by (rule verified_winners_cong) (simp_all add: en')
  show ?thesis
  proof (cases "\<exists>rc. en_rootRecordCache en1 = Some rc \<and> \<not> en_checkpointDirty en1 \<and> rc_bucket rc = bucket")
    case True
    then obtain rc where rc: "en_rootRecordCache en1 = Some rc" "\<not> en_checkpointDirty en1" "rc_bucket rc = bucket" by blast
    with r b b1 have same_en: "en' = en1" "rec = rc_record rc" by (auto simp: rootRecord_def record_begin_def)
    have "rc_bucket rc \<le> en_currentBucket en" using acc rc(1) e1 by (auto simp: accurate_def)
    moreover have "en_currentBucket en \<le> bucket" using mono same_en cur by simp
    ultimately have "rc_bucket rc = en_currentBucket en" using rc(3) by simp
    then have "encoded_from C en rc" using acc rc e1 by (auto simp: accurate_def)
    with rc same_en cur show ?thesis by (simp add: encoded_from_def same)
  next
    case False
    with r b b1 have f: "record_finish C put bucket (verified_winners C bucket en1) (en1\<lparr>en_checkpointDirty := False\<rparr>) = (en', Inr rec)"
      by (auto simp: rootRecord_def record_begin_def split: option.splits if_splits)
    then have "en_currentBucket en' = bucket" using cur by (auto simp: record_finish_def split: sum.splits prod.splits)
    moreover from f obtain enc where enc: "encodeCheckpoint (eg_lib C) (verified_winners C bucket en) DEFAULT_MAX_CHUNK_BYTES = Inr enc"
      "rec = record_of enc (length (verified_winners C bucket en))"
      "en_rootRecordCache en' = Some \<lparr>rc_record = rec, rc_bucket = bucket, rc_blocks = ec_blocks enc\<rparr>"
      by (auto simp: record_finish_def same split: sum.splits prod.splits)
    ultimately show ?thesis by (simp add: encoded_from_def encoding_def same')
  qed
qed

lemma accurate_step:
  assumes C: "bucketed C" and inv: "engine_inv en" and acc: "accurate C en" and step: "calm_step C en en'"
  shows "accurate C en'"
  using step
proof cases
  case other
  show ?thesis
    unfolding accurate_def
  proof (intro allI impI conjI)
    fix rc assume rc: "en_rootRecordCache en' = Some rc"
    with other(3) have old: "en_rootRecordCache en = Some rc" by auto
    with acc other(2) show "rc_bucket rc \<le> en_currentBucket en'" by (auto simp: accurate_def)
    assume clean: "\<not> en_checkpointDirty en'" and bucket: "rc_bucket rc = en_currentBucket en'"
    have "rc_bucket rc = en_currentBucket en" using acc old other(2) bucket by (auto simp: accurate_def intro: le_antisym)
    then have "encoded_from C en rc" using acc old clean other(4) by (auto simp: accurate_def)
    moreover have "mset (verified_winners C (rc_bucket rc) en') = mset (verified_winners C (rc_bucket rc) en)"
      using invalidation_complete [OF C inv other(1)] clean bucket by (simp add: marked_def)
    ultimately show "encoded_from C en' rc"
      unfolding encoded_from_def using encoding_perm [OF _ _ distinct_verified] by metis
  qed
next
  case (records now head put r)
  from record_current [OF acc records] show ?thesis by (auto simp: accurate_def)
qed

lemma calm_inv: "engine_inv en \<Longrightarrow> calm_step C en en' \<Longrightarrow> engine_inv en'"
  using inv_step inv_after_record by (metis calm_step.cases fst_conv)

lemma calm_run:
  assumes "bucketed C" "(calm_step C)\<^sup>*\<^sup>* (engine_start blocks disk) en"
  shows "engine_inv en \<and> accurate C en"
  using assms(2)
proof (induction rule: rtranclp_induct)
  case base
  show ?case by (simp add: inv_start) (simp add: accurate_def engine_start_def)
next
  case (step y z)
  with accurate_step [OF assms(1)] calm_inv show ?case by blast
qed

end
