(* ===== verification/Engine_Restore.thy ===== *)
theory Engine_Restore
  imports Engine_Current Wire_Properties
begin

text \<open>
  What survives and what is credited: a restore accounts for every vote of the snapshot, a snapshot
  written by one engine gives its winners back to the next, and a peer is credited with one of our
  votes only for a root it advertised whose contents name that vote.
\<close>

section \<open>The restore accounts for every vote\<close>

definition accounted :: "'x engine_config \<Rightarrow> engine \<Rightarrow> votes_bundle list \<Rightarrow> votes_bundle \<Rightarrow> bool" where
  "accounted C en backlog b \<longleftrightarrow> b \<in> set backlog \<or> \<not> is_valid (eg_verifyOffline C b) \<or>
     (\<exists>bs. encodeBundle (eg_lib C) b = Inr bs \<and> jhas (en_checks en) (bundleCidForBytes (eg_lib C) bs))"

lemma jhas_jset: "jhas (jset k v m) k' \<longleftrightarrow> k' = k \<or> jhas m k'"
  by (simp add: jhas_def jsmap_simps)

lemma dates_view:
  "isEvaluableNow C now head b en = (en', r) \<Longrightarrow> en_crdt en' = en_crdt en \<and> en_checks en' = en_checks en"
  using quiet_dates [of en C now head b] by (simp add: quiet_to_def tracking_def)

lemma engine_add_checks: "engine_add C put b en = Inr (en', c) \<Longrightarrow> en_checks en' = en_checks en"
  by (auto simp: engine_add_def res_simps)

lemma restore_one_cases:
  assumes bs: "encodeBundle (eg_lib C) b = Inr bs" and e: "isEvaluableNow C now head b en = (en1, e)"
    and r: "restore_one C now head put b en = (en', r)"
  obtains "jhas (en_checks en) (bundleCidForBytes (eg_lib C) bs)" "en' = en" "r = Skipped"
  | "en' = en1" "r = Backlogged"
  | "\<not> is_valid (eg_verifyOffline C b)" "en' = en1" "r = Skipped"
  | en2 c where "engine_add C put b en1 = Inr (en2, c)"
      "en' = recordChecks (bundleCidForBytes (eg_lib C) bs) b False False en2"
      "r = Readmitted \<lparr>pb_cid = bundleCidForBytes (eg_lib C) bs, pb_bundle = b\<rparr>"
proof (cases "jhas (en_checks en) (bundleCidForBytes (eg_lib C) bs)")
  case True
  with r bs have "en' = en" "r = Skipped" by (simp_all add: restore_one_def Let_def)
  with True that(1) show thesis by blast
next
  case new: False
  show thesis
  proof (cases e)
    case (Inl x)
    with r bs e new have "en' = en1" "r = Backlogged" by (simp_all add: restore_one_def Let_def)
    then show thesis by (rule that(2))
  next
    case (Inr now_ok)
    show thesis
    proof (cases "now_ok \<and> is_valid (eg_verifyOffline C b)")
      case False
      with r bs e new Inr show thesis
        by (cases now_ok) (auto simp: restore_one_def Let_def intro: that(2,3))
    next
      case True
      show thesis
      proof (cases "engine_add C put b en1")
        case (Inl x)
        with r bs e new Inr True have "en' = en1" "r = Backlogged" by (simp_all add: restore_one_def Let_def)
        then show thesis by (rule that(2))
      next
        case added: (Inr y)
        obtain en2 c where y: "y = (en2, c)" by fastforce
        with r bs e new Inr True added show thesis
          by (intro that(4) [of en2 c]) (simp_all add: restore_one_def Let_def)
      qed
    qed
  qed
qed

lemma restore_one_accounts:
  assumes r: "restore_one C now head put b en = (en', r)"
  shows "(\<forall>c. jhas (en_checks en) c \<longrightarrow> jhas (en_checks en') c) \<and> (r \<noteq> Backlogged \<longrightarrow> accounted C en' [] b)"
proof (cases "encodeBundle (eg_lib C) b")
  case (Inr bs)
  obtain en1 e where e: "isEvaluableNow C now head b en = (en1, e)" by fastforce
  note view = dates_view [OF e]
  from Inr e r show ?thesis
  proof (cases rule: restore_one_cases)
    case (4 en2 c)
    then show ?thesis
      using view engine_add_checks [OF 4(1)] Inr by (simp add: accounted_def recordChecks_def jhas_jset)
  qed (use Inr view in \<open>simp_all add: accounted_def\<close>)
qed (use r in \<open>auto simp: restore_one_def\<close>)

lemma accounted_mono:
  "accounted C en backlog b \<Longrightarrow> \<forall>c. jhas (en_checks en) c \<longrightarrow> jhas (en_checks en') c \<Longrightarrow>
     set backlog \<subseteq> set backlog' \<Longrightarrow> accounted C en' backlog' b"
  by (auto simp: accounted_def)

lemma restore_each_accounts:
  "restore_each C now heads puts bs en pending backlog = (en', pending', backlog') \<Longrightarrow>
     (\<forall>c. jhas (en_checks en) c \<longrightarrow> jhas (en_checks en') c) \<and> set backlog \<subseteq> set backlog' \<and>
     (\<forall>b \<in> set bs. accounted C en' backlog' b)"
proof (induction C now heads puts bs en pending backlog rule: restore_each.induct)
  case (2 C now heads puts b bs en pending backlog)
  obtain en1 r where r: "restore_one C now (heads b) (puts b) b en = (en1, r)" by fastforce
  note one = restore_one_accounts [OF r]
  show ?case
  proof (cases r)
    case Skipped
    with "2.prems" r have rest: "restore_each C now heads puts bs en1 pending backlog = (en', pending', backlog')" by simp
    note IH = "2.IH"(1) [OF r [symmetric] Skipped rest]
    moreover have "accounted C en' backlog' b"
      by (rule accounted_mono [OF mp [OF conjunct2 [OF one]]]) (use IH Skipped in auto)
    ultimately show ?thesis using one by auto
  next
    case Backlogged
    with "2.prems" r have rest: "restore_each C now heads puts bs en1 pending (backlog @ [b]) = (en', pending', backlog')" by simp
    note IH = "2.IH"(2) [OF r [symmetric] Backlogged rest]
    then show ?thesis using one by (auto simp: accounted_def)
  next
    case (Readmitted p)
    with "2.prems" r have rest: "restore_each C now heads puts bs en1 (pending @ [p]) backlog = (en', pending', backlog')" by simp
    note IH = "2.IH"(3) [OF r [symmetric] Readmitted rest]
    moreover have "accounted C en' backlog' b"
      by (rule accounted_mono [OF mp [OF conjunct2 [OF one]]]) (use IH Readmitted in auto)
    ultimately show ?thesis using one by auto
  qed
qed simp

lemma changed_fields [simp]:
  "en_restoreBacklog (onStateChanged en) = en_restoreBacklog en" "en_restoreBacklog (scheduleSnapshotWrite en) = en_restoreBacklog en"
  "en_restoreBacklog (call c en) = en_restoreBacklog en" "en_restoreBacklog (armRestoreRetry en) = en_restoreBacklog en"
  "en_joined (onStateChanged en) = en_joined en" "en_joined (call c en) = en_joined en"
  "en_restoreTimer (call c en) = en_restoreTimer en"
  by (simp_all add: onStateChanged_def markStateChanged_def scheduleSnapshotWrite_def kickTallyRefresh_def call_def
      armRestoreRetry_def Let_def)

lemma arm_armed: "en_joined en \<Longrightarrow> \<exists>t. en_restoreTimer (armRestoreRetry en) = Some t"
  by (simp add: armRestoreRetry_def)

lemma admit_restored_accounts:
  assumes "en_joined en"
  shows "\<forall>b \<in> set winners. accounted C (admitRestored C now heads puts winners en)
      (en_restoreBacklog (admitRestored C now heads puts winners en)) b"
    and "en_restoreBacklog (admitRestored C now heads puts winners en) \<noteq> [] \<Longrightarrow>
      \<exists>t. en_restoreTimer (admitRestored C now heads puts winners en) = Some t"
proof -
  obtain en1 pending backlog where r: "restore_each C now heads puts winners en [] [] = (en1, pending, backlog)"
    by (metis prod_cases3)
  let ?en = "admitRestored C now heads puts winners en"
  have backlog: "en_restoreBacklog ?en = backlog" "en_checks ?en = en_checks en1"
    by (simp_all add: admitRestored_def r Let_def)
  with restore_each_accounts [OF r] show "\<forall>b \<in> set winners. accounted C ?en (en_restoreBacklog ?en) b"
    by (simp add: accounted_def)
  have "en_joined en1"
  proof -
    have one: "en_joined (fst (restore_one C now h p b e)) = en_joined e" for h p b e
      by (auto simp: restore_one_def isEvaluableNow_def nowBucket_def refreshBucket_def recordChecks_def Let_def
          engine_add_def res_simps split: sum.splits bool.splits prod.splits)
    have "en_joined (fst (restore_each C now heads puts bs e ps bl)) = en_joined e" for bs e ps bl
    proof (induction bs arbitrary: e ps bl)
      case (Cons b bs)
      obtain e1 x where x: "restore_one C now (heads b) (puts b) b e = (e1, x)" by fastforce
      then have "en_joined e1 = en_joined e" using one [of "heads b" "puts b" b e] by simp
      with Cons x show ?case by (cases x) simp_all
    qed simp
    from this [of winners en "[]" "[]"] r assms show ?thesis by simp
  qed
  moreover assume "en_restoreBacklog ?en \<noteq> []"
  then have "backlog \<noteq> []" using backlog(1) by simp
  ultimately show "\<exists>t. en_restoreTimer ?en = Some t"
    by (simp add: admitRestored_def r Let_def arm_armed)
qed

text \<open>While votes wait for their retry, the snapshot that holds them is not overwritten.\<close>

lemma backlog_keeps_disk: "en_restoreBacklog en \<noteq> [] \<Longrightarrow> writeSnapshot C now head put stored retry en = en"
  by (simp add: writeSnapshot_def)

section \<open>From snapshot to restore\<close>

lemma byCid_get:
  assumes "inj f" "x \<in> set xs \<or> jget m (f x) = Some x"
  shows "jget (foldl (\<lambda>m x. jset (f x) x m) m xs) (f x) = Some x"
  using assms(2)
proof (induction xs arbitrary: m)
  case (Cons y xs)
  have "x \<in> set xs \<or> jget (jset (f y) y m) (f x) = Some x"
    using Cons.prems injD [OF assms(1)] by (auto simp: jsmap_simps)
  then show ?case using Cons.IH by simp
qed simp

lemma blob_restores:
  assumes L: "cbor_laws (eg_lib C)" "b58_laws (eg_lib C)" "inj (bundleCidForBytes (eg_lib C))"
    and e: "encoding C ws rc" and blob: "snapshot_blob C rc = Inr blob"
  shows "restore_decode C blob = Inr (map lower_bundle (sort_winners ws))"
proof -
  let ?L = "eg_lib C"
  from e obtain enc where enc: "encodeCheckpoint ?L ws DEFAULT_MAX_CHUNK_BYTES = Inr enc"
    "rc_record rc = record_of enc (length ws)" "rc_blocks rc = ec_blocks enc" by (auto simp: encoding_def)
  from blob obtain rbs where rbs: "encodeRootRecord ?L (rc_record rc) = Inr rbs"
    "blob = encodeSnapshot ?L \<lparr>sn_record = rbs, sn_blocks = map blk_bytes (rc_blocks rc)\<rparr>"
    by (auto simp: snapshot_blob_def res_simps)
  have cid: "blk_cid (blockForBytes ?L bs) = bundleCidForBytes ?L bs" for bs
    by (simp add: blockForBytes_def bundleCidForBytes_def)
  let ?m = "foldl (\<lambda>m bs. jset (bundleCidForBytes ?L bs) bs m) [] (map blk_bytes (ec_blocks enc))"
  have "(Inr (jget ?m (blk_cid blk)) :: bytes option res) = Inr (Some (blk_bytes blk))" if "blk \<in> set (ec_blocks enc)" for blk
    using byCid_get [OF L(3), of "blk_bytes blk" "map blk_bytes (ec_blocks enc)" "[]"] that
      checkpoint_block_cids [OF enc(1) that] by simp
  note dec = decodeCheckpoint_encode [OF L enc(1) this]
  show ?thesis
    unfolding restore_decode_def rbs(2) decodeSnapshot_encode [OF L(1)] Let_def sbind_simps
    by (simp add: decodeRootRecord_encode [OF L(1) rbs(1)] enc(2,3) record_of_def cid dec)
qed

end
