(* ===== verification/Engine_Credit.thy ===== *)
theory Engine_Credit
  imports Engine_Restore
begin

text \<open>
  Which peers are credited with serving one of our votes: a credit is given only while the peer's
  latest advertised root is one whose contents name that vote.
\<close>

definition credited :: "engine \<Rightarrow> cid \<Rightarrow> peer \<Rightarrow> bool" where
  "credited en c p \<longleftrightarrow> (\<exists>ps. jget (en_ownCheckpointPeers en) c = Some ps \<and> p \<in> set ps)"

definition advertises :: "engine \<Rightarrow> peer \<Rightarrow> cid \<Rightarrow> bool" where
  "advertises en p c \<longleftrightarrow>
     (\<exists>root mine. jget (en_peerRoots en) p = Some root \<and> jget (en_decodedRoots en) root = Some mine \<and> c \<in> set mine)"

definition credits_earned :: "engine \<Rightarrow> engine \<Rightarrow> bool" where
  "credits_earned en en' \<longleftrightarrow> (\<forall>c p. credited en' c p \<longrightarrow> credited en c p \<or> advertises en' p c)"

lemma earned_same: "en_ownCheckpointPeers en' = en_ownCheckpointPeers en \<Longrightarrow> credits_earned en en'"
  by (simp add: credits_earned_def credited_def)

lemma earned_quiet: "quiet_to en en' \<Longrightarrow> credits_earned en en'"
  by (rule earned_same) (simp add: quiet_to_def tracking_def)

lemma earned_fewer:
  "(\<And>c ps. jget (en_ownCheckpointPeers en') c = Some ps \<Longrightarrow> jget (en_ownCheckpointPeers en) c = Some ps) \<Longrightarrow> credits_earned en en'"
  unfolding credits_earned_def credited_def by blast

section \<open>Crediting\<close>

lemma credit_key_gives:
  assumes "credited (fst (creditKey p k st)) c q"
  shows "credited (fst st) c q \<or> q = p \<and> c = k"
  using assms
  by (auto simp: creditKey_def Let_def credited_def notify_def call_def jsmap_simps split: prod.splits if_splits option.splits)

lemma credit_key_frame [simp]:
  "en_peerRoots (fst (creditKey p k st)) = en_peerRoots (fst st)"
  "en_decodedRoots (fst (creditKey p k st)) = en_decodedRoots (fst st)"
  by (simp_all add: creditKey_def Let_def notify_def call_def split: prod.splits option.splits)

lemma credit_peer_gives:
  "credited (fst (creditPeer p cids en)) c q \<Longrightarrow> credited en c q \<or> q = p \<and> c \<in> set cids"
proof -
  have "credited (fst (fold (creditKey p) cids st)) c q \<Longrightarrow> credited (fst st) c q \<or> q = p \<and> c \<in> set cids" for st
  proof (induction cids arbitrary: st)
    case (Cons k ks)
    from Cons.IH [of "creditKey p k st"] Cons.prems have "credited (fst (creditKey p k st)) c q \<or> q = p \<and> c \<in> set ks" by simp
    with credit_key_gives show ?case by fastforce
  qed simp
  then show "credited (fst (creditPeer p cids en)) c q \<Longrightarrow> credited en c q \<or> q = p \<and> c \<in> set cids"
    unfolding creditPeer_def by fastforce
qed

lemma credit_peer_frame [simp]:
  "en_peerRoots (fst (creditPeer p cids en)) = en_peerRoots en"
  "en_decodedRoots (fst (creditPeer p cids en)) = en_decodedRoots en"
proof -
  have "en_peerRoots (fst (fold (creditKey p) cids st)) = en_peerRoots (fst st) \<and>
      en_decodedRoots (fst (fold (creditKey p) cids st)) = en_decodedRoots (fst st)" for st
    by (induction cids arbitrary: st) simp_all
  then show "en_peerRoots (fst (creditPeer p cids en)) = en_peerRoots en"
    "en_decodedRoots (fst (creditPeer p cids en)) = en_decodedRoots en" by (simp_all add: creditPeer_def)
qed

lemma changed_peers [simp]:
  "en_ownCheckpointPeers (onStateChanged en) = en_ownCheckpointPeers en"
  "en_ownCheckpointPeers (markStateChanged en) = en_ownCheckpointPeers en"
  "en_ownCheckpointPeers (scheduleSnapshotWrite en) = en_ownCheckpointPeers en"
  "en_ownCheckpointPeers (call c en) = en_ownCheckpointPeers en"
  "en_peerRoots (onStateChanged en) = en_peerRoots en" "en_decodedRoots (onStateChanged en) = en_decodedRoots en"
  by (simp_all add: onStateChanged_def markStateChanged_def scheduleSnapshotWrite_def kickTallyRefresh_def call_def Let_def)

lemma credited_changed [simp]: "credited (onStateChanged en) c p = credited en c p"
  by (simp add: credited_def)

lemma attribute_gives:
  assumes "credited (attributeRoot p root en) c q"
  shows "credited en c q \<or> q = p \<and> (\<exists>mine. jget (en_decodedRoots en) root = Some mine \<and> c \<in> set mine)"
proof (cases "jget (en_decodedRoots en) root")
  case (Some mine)
  obtain en' added where e: "creditPeer p mine en = (en', added)" by fastforce
  with assms Some have "credited en' c q" by (simp add: attributeRoot_def split: if_splits)
  with credit_peer_gives [of p mine en c q] e Some show ?thesis by auto
qed (use assms in \<open>simp add: attributeRoot_def\<close>)

lemma attribute_frame [simp]:
  "en_peerRoots (attributeRoot p root en) = en_peerRoots en" "en_decodedRoots (attributeRoot p root en) = en_decodedRoots en"
proof -
  have "en_peerRoots (attributeRoot p root en) = en_peerRoots en \<and> en_decodedRoots (attributeRoot p root en) = en_decodedRoots en"
  proof (cases "jget (en_decodedRoots en) root")
    case (Some mine)
    obtain en' added where e: "creditPeer p mine en = (en', added)" by fastforce
    with Some credit_peer_frame [of p mine en] show ?thesis by (simp add: attributeRoot_def)
  qed (simp add: attributeRoot_def)
  then show "en_peerRoots (attributeRoot p root en) = en_peerRoots en"
    "en_decodedRoots (attributeRoot p root en) = en_decodedRoots en" by blast+
qed

lemma lru_get: "jget (lru_put n k v m) k = Some v"
  by (simp add: lru_put_def Let_def jsmap_simps)

lemma earned_note: "credits_earned en (notePeerRoot p root en)"
  unfolding credits_earned_def
proof (intro allI impI)
  fix c q assume "credited (notePeerRoot p root en) c q"
  then have "credited en c q \<or> q = p \<and> (\<exists>mine. jget (en_decodedRoots en) root = Some mine \<and> c \<in> set mine)"
    unfolding notePeerRoot_def by (drule_tac attribute_gives) (simp add: credited_def)
  then show "credited en c q \<or> advertises (notePeerRoot p root en) q c"
    by (auto simp: advertises_def notePeerRoot_def lru_get)
qed

lemma credit_at_gives:
  "credited (fst (fold (credit_at root mine) adverts st)) c q \<Longrightarrow>
     credited (fst st) c q \<or> (q, root) \<in> set adverts \<and> c \<in> set mine"
proof (induction adverts arbitrary: st)
  case (Cons a as)
  obtain q' r where a: "a = (q', r)" by fastforce
  obtain en' added where e: "creditPeer q' mine (fst st) = (en', added)" by fastforce
  from Cons.IH [of "credit_at root mine a st"] Cons.prems
  have "credited (fst (credit_at root mine a st)) c q \<or> (q, root) \<in> set as \<and> c \<in> set mine" by simp
  moreover have "credited (fst (credit_at root mine a st)) c q \<Longrightarrow>
      credited (fst st) c q \<or> q = q' \<and> r = root \<and> c \<in> set mine"
    using credit_peer_gives [of q' mine "fst st" c q] by (auto simp: credit_at_def a e split: if_splits)
  ultimately show ?case by (auto simp: a)
qed simp

lemma credit_at_frame:
  "en_peerRoots (fst (fold (credit_at root mine) adverts st)) = en_peerRoots (fst st) \<and>
     en_decodedRoots (fst (fold (credit_at root mine) adverts st)) = en_decodedRoots (fst st)"
proof (induction adverts arbitrary: st)
  case (Cons a as)
  obtain en' added where e: "creditPeer (fst a) mine (fst st) = (en', added)" by fastforce
  have "en_peerRoots (fst (credit_at root mine a st)) = en_peerRoots (fst st)"
    "en_decodedRoots (fst (credit_at root mine a st)) = en_decodedRoots (fst st)"
    using credit_peer_frame [of "fst a" mine "fst st"] by (auto simp: credit_at_def e)
  with Cons.IH [of "credit_at root mine a st"] show ?case by simp
qed simp

lemma earned_index:
  assumes inv: "engine_inv en"
  shows "credits_earned en (indexRootContents root mine en)"
proof (cases "mine = []")
  case True
  then show ?thesis by (intro earned_same) (simp add: indexRootContents_def)
next
  case False
  let ?en = "en\<lparr>en_decodedRoots := lru_put DECODED_ROOTS_MAX root mine (en_decodedRoots en)\<rparr>"
  obtain en1 f where e: "fold (credit_at root mine) (en_peerRoots en) (?en, False) = (en1, f)" by fastforce
  have frame: "en_peerRoots en1 = en_peerRoots en"
    "en_decodedRoots en1 = lru_put DECODED_ROOTS_MAX root mine (en_decodedRoots en)"
    using credit_at_frame [of root mine "en_peerRoots en" "(?en, False)"] e by simp_all
  have gives: "credited en1 c q \<Longrightarrow> credited en c q \<or> (q, root) \<in> set (en_peerRoots en) \<and> c \<in> set mine" for c q
    using credit_at_gives [of root mine "en_peerRoots en" "(?en, False)" c q] e by (simp add: credited_def)
  have wf: "jwf (en_peerRoots en)" using inv by (simp add: engine_inv_def caps_ok_def)
  have to: "credited (indexRootContents root mine en) c q \<longleftrightarrow> credited en1 c q"
    "advertises (indexRootContents root mine en) q c \<longleftrightarrow> advertises en1 q c" for c q
    using e False by (simp_all add: indexRootContents_def Let_def advertises_def)
  have "credited en c q \<or> advertises en1 q c" if "credited en1 c q" for c q
    using gives [OF that] by (auto simp: advertises_def frame jget_mem [OF wf] lru_get)
  then show ?thesis unfolding credits_earned_def to by blast
qed


section \<open>Every step\<close>

lemma earned_forget: "credits_earned en (forgetOwnBundle k en)"
  by (rule earned_fewer) (auto simp: forgetOwnBundle_def dropOwnTracking_def Let_def jsmap_simps split: if_splits)

lemma earned_trans:
  "credits_earned a b \<Longrightarrow> en_ownCheckpointPeers c = en_ownCheckpointPeers b \<Longrightarrow> en_peerRoots c = en_peerRoots b \<Longrightarrow>
     en_decodedRoots c = en_decodedRoots b \<Longrightarrow> credits_earned a c"
  by (simp add: credits_earned_def credited_def advertises_def)

lemma earned_from: "en_ownCheckpointPeers b = en_ownCheckpointPeers a \<Longrightarrow> credits_earned b c \<Longrightarrow> credits_earned a c"
  by (simp add: credits_earned_def credited_def)

lemma peers_prune:
  "jget (en_ownCheckpointPeers (fold prune_one ks en)) c = Some ps \<Longrightarrow> jget (en_ownCheckpointPeers en) c = Some ps"
proof (induction ks arbitrary: en)
  case (Cons k ks)
  then have "jget (en_ownCheckpointPeers (prune_one k en)) c = Some ps" by simp
  then show ?case by (simp add: prune_one_def forgetOwnBundle_def dropOwnTracking_def Let_def jsmap_simps split: if_splits)
qed simp

lemma peers_pruned:
  "jget (en_ownCheckpointPeers (fst (pruneDecayed C en))) c = Some ps \<Longrightarrow> jget (en_ownCheckpointPeers en) c = Some ps"
  using peers_prune [of _ "en\<lparr>en_crdt := _\<rparr>" c ps]
  by (fastforce simp: pruneDecayed_def prune_one_def [abs_def, symmetric] split: prod.splits)

lemma peers_refresh [simp]: "en_ownCheckpointPeers (fst (refreshBucket C now head m en)) = en_ownCheckpointPeers en"
  by (simp add: refreshBucket_def Let_def split: sum.splits)

lemma refresh_prune_fewer:
  assumes "refreshBucket C now head m en = (en1, r)" "jget (en_ownCheckpointPeers (fst (pruneDecayed C en1))) c = Some ps"
  shows "jget (en_ownCheckpointPeers en) c = Some ps"
  using peers_pruned [OF assms(2)] peers_refresh [of C now head m en] assms(1) by simp

lemma tick_fewer:
  "jget (en_ownCheckpointPeers (fst (prune_on_tick C now head en))) c = Some ps \<Longrightarrow> jget (en_ownCheckpointPeers en) c = Some ps"
proof -
  obtain en1 r where r: "refreshBucket C now head True en = (en1, r)" by fastforce
  obtain en2 n where n: "pruneDecayed C en1 = (en2, n)" by fastforce
  assume "jget (en_ownCheckpointPeers (fst (prune_on_tick C now head en))) c = Some ps"
  then have "jget (en_ownCheckpointPeers en) c = Some ps \<or> jget (en_ownCheckpointPeers en1) c = Some ps \<or>
      jget (en_ownCheckpointPeers en2) c = Some ps"
    by (auto simp: prune_on_tick_def r n Let_def split: if_splits sum.splits)
  with refresh_prune_fewer [OF r] n peers_refresh [of C now head True en] r show ?thesis by auto
qed

lemma tally_fewer:
  "jget (en_ownCheckpointPeers (fst (computeTally C now head head' block_at en))) c = Some ps \<Longrightarrow>
     jget (en_ownCheckpointPeers en) c = Some ps"
proof -
  obtain en1 r where r: "refreshBucket C now head False en = (en1, r)" by fastforce
  assume "jget (en_ownCheckpointPeers (fst (computeTally C now head head' block_at en))) c = Some ps"
  with refresh_prune_fewer [OF r] peers_refresh [of C now head False en] r show ?thesis
    by (auto simp: computeTally_def r split: if_splits sum.splits)
qed

lemma emit_fewer:
  "jget (en_ownCheckpointPeers (computeAndEmit C now head head' block_at en)) c = Some ps \<Longrightarrow>
     jget (en_ownCheckpointPeers en) c = Some ps"
  using tally_fewer [of C now head head' block_at "en\<lparr>en_tallyDirty := False\<rparr>" c ps]
  by (auto simp: computeAndEmit_def split: prod.splits sum.splits)

lemma join_fewer:
  "jget (en_ownCheckpointPeers (fst (join_finish C now head en))) c = Some ps \<Longrightarrow> jget (en_ownCheckpointPeers en) c = Some ps"
proof -
  obtain en1 r where r: "refreshBucket C now head False en = (en1, r)" by fastforce
  assume "jget (en_ownCheckpointPeers (fst (join_finish C now head en))) c = Some ps"
  with refresh_prune_fewer [OF r] peers_refresh [of C now head False en] r show ?thesis
    by (auto simp: join_finish_def r split: if_splits sum.splits)
qed

lemma admit_peers [simp]: "en_ownCheckpointPeers (fst (admit_block C put got cid bs b v en)) = en_ownCheckpointPeers en"
  by (simp add: admit_block_def Let_def recordChecks_def split: sum.splits prod.splits del: merge.simps)

lemma earned_admits:
  "credits_earned en (fst (gate_admit C put got cid bs b en))"
  "credits_earned en (fst (chase_admit C put got cid bs b v en))"
proof -
  obtain en1 r where r: "admit_block C put got cid bs b True en = (en1, r)" by fastforce
  obtain en2 q where q: "admit_block C put got cid bs b v en = (en2, q)" by fastforce
  show "credits_earned en (fst (gate_admit C put got cid bs b en))"
    using admit_peers [of C put got cid bs b True en] r by (intro earned_same) (simp add: gate_admit_def split: sum.splits)
  show "credits_earned en (fst (chase_admit C put got cid bs b v en))"
    using admit_peers [of C put got cid bs b v en] q by (intro earned_same) (simp add: chase_admit_def split: sum.splits)
qed

lemma add_peers: "engine_add C put b en = Inr (en', c) \<Longrightarrow> en_ownCheckpointPeers en' = en_ownCheckpointPeers en"
  by (auto simp: engine_add_def res_simps)

lemma earned_signs: "credits_earned en (fst (signVote C head sign address put votes namesSettled token en))"
  by (rule earned_same)
    (auto simp: signVote_def track_signed_def recordChecks_def Let_def res_simps dest!: add_peers split: sum.splits option.splits)

lemma earned_settles: "credits_earned en (settleCheck cid key en)"
  by (rule earned_same) (simp add: settleCheck_def Let_def dropOwnTracking_def notify_def split: option.splits)

lemma earned_evicts: "credits_earned en (evictBundle cid verdict en)"
  by (rule earned_fewer)
    (auto simp: evictBundle_def Let_def forgetOwnBundle_def dropOwnTracking_def notify_def jsmap_simps split: option.splits if_splits)

lemma restore_one_peers:
  "restore_one C now head put b en = (en', r) \<Longrightarrow> en_ownCheckpointPeers en' = en_ownCheckpointPeers en"
proof -
  assume r: "restore_one C now head put b en = (en', r)"
  obtain en1 e where e: "isEvaluableNow C now head b en = (en1, e)" by fastforce
  have 1: "en_ownCheckpointPeers en1 = en_ownCheckpointPeers en"
    using quiet_dates [of en C now head b] e by (simp add: quiet_to_def tracking_def)
  show ?thesis
  proof (cases "encodeBundle (eg_lib C) b")
    case (Inr bs)
    from Inr e r show ?thesis
      by (cases rule: restore_one_cases) (use 1 in \<open>auto simp: recordChecks_def dest: add_peers\<close>)
  qed (use r in \<open>simp add: restore_one_def\<close>)
qed

lemma restore_each_peers:
  "en_ownCheckpointPeers (fst (restore_each C now heads puts bs en pending backlog)) = en_ownCheckpointPeers en"
proof (induction bs arbitrary: en pending backlog)
  case (Cons b bs)
  obtain en1 r where r: "restore_one C now (heads b) (puts b) b en = (en1, r)" by fastforce
  with Cons restore_one_peers [OF r] show ?case by (cases r) simp_all
qed simp

lemma arm_peers [simp]: "en_ownCheckpointPeers (armRestoreRetry en) = en_ownCheckpointPeers en"
  by (simp add: armRestoreRetry_def)

lemma restored_peers: "en_ownCheckpointPeers (admitRestored C now heads puts winners en) = en_ownCheckpointPeers en"
proof -
  obtain en1 pending backlog where r: "restore_each C now heads puts winners en [] [] = (en1, pending, backlog)"
    by (metis prod_cases3)
  with restore_each_peers [of C now heads puts winners en "[]" "[]"] show ?thesis by (simp add: admitRestored_def Let_def)
qed

lemma earned_restores:
  "credits_earned en (restoreSnapshot C now stored heads puts en)" "credits_earned en (restore_timer_fires C now heads puts en)"
  by (rule earned_same, simp add: restoreSnapshot_def restore_timer_fires_def Let_def restored_peers split: sum.splits option.splits)+

lemma record_peers:
  assumes "rootRecord C now head put en = (en', r)"
  shows "en_ownCheckpointPeers en' = en_ownCheckpointPeers en" "en_peerRoots en' = en_peerRoots en"
    "en_decodedRoots en' = en_decodedRoots en" "engine_inv en \<Longrightarrow> engine_inv en'"
  using quiet_record [of en C now head put] inv_after_record [of en C now head put] assms
  by (simp_all add: quiet_to_def tracking_def)

lemma chase_peers [simp]:
  "en_ownCheckpointPeers (chase root chunks known connections en) = en_ownCheckpointPeers en"
  "en_peerRoots (chase root chunks known connections en) = en_peerRoots en"
  "en_decodedRoots (chase root chunks known connections en) = en_decodedRoots en"
  by (simp_all add: chase_def call_def)

lemma earned_ingests: "credits_earned en (fst (ingestRootRecord C now head put connections p encoded en))"
proof -
  obtain en1 r where r: "rootRecord C now head put en = (en1, r)" by fastforce
  note peers = record_peers(1-3) [OF r]
  note noted = earned_from [OF peers(1) earned_note]
  show ?thesis
    by (auto simp: ingestRootRecord_def r Let_def split: sum.splits
        intro: earned_same [OF refl] earned_same [OF peers(1)] noted earned_trans [OF noted])
qed

lemma earned_hears:
  assumes "engine_inv en"
  shows "credits_earned en (handleRootRecord C now head put connections record None en)"
proof -
  obtain en1 r where r: "rootRecord C now head put en = (en1, r)" by fastforce
  note peers = record_peers(1-3) [OF r]
  have "engine_inv (en1\<lparr>en_heardMatchingRoot := True\<rparr>)"
    using record_peers(4) [OF r assms] inv_quiet [OF quiet_fields(1)] by (simp add: inv_defs verdicts_def news_def)
  then have "credits_earned en (indexRootContents root mine (en1\<lparr>en_heardMatchingRoot := True\<rparr>))" for root mine
    using earned_index [of "en1\<lparr>en_heardMatchingRoot := True\<rparr>" root mine] earned_from [of "en1\<lparr>en_heardMatchingRoot := True\<rparr>" en] peers(1)
    by simp
  then show ?thesis
    by (auto simp: handleRootRecord_def r Let_def publish_root_def peers split: sum.splits intro: earned_same)
qed


lemma earned_begin: "record_begin C now head en = (en', r) \<Longrightarrow> credits_earned en en'"
  using quiet_begin [of en C now head] earned_quiet by fastforce


lemma earned_beat: "credits_earned en (beat_publish C now head put pruned en)"
proof -
  let ?en = "en\<lparr>en_heardMatchingRoot := False, en_publishedRoot := False\<rparr>"
  obtain en2 r where r: "rootRecord C now head put ?en = (en2, r)" by fastforce
  from record_peers(1) [OF r] show ?thesis
    by (intro earned_same) (simp add: beat_publish_def Let_def r publish_root_def split: sum.splits)
qed

lemma earned_step:
  assumes inv: "engine_inv en" and step: "en_step C en en'"
  shows "credits_earned en en'"
  using step
proof cases
  case (encode_begins now head en1 bucket ws)
  show ?thesis unfolding encode_begins(1) by (rule earned_trans [OF earned_begin [OF encode_begins(2)]]) simp_all
next
  case (encode_ends bucket ws puts)
  show ?thesis unfolding encode_ends(1) by (rule earned_trans [OF earned_quiet [OF quiet_finish]]) simp_all
next
  case (recounts now head head' block_at)
  then show ?thesis
    by (intro earned_fewer) (auto simp: tally_round_def Let_def intro: emit_fewer split: if_splits)
next
  case (tracks cid)
  then show ?thesis
    using earned_trans [OF earned_forget] by (simp add: trackOwnBundle_def Let_def earned_same)
next
  case (decodes root cids)
  then show ?thesis using earned_index [OF inv] by (simp add: noteCheckpointContents_def)
next
  case (leave_resets)
  then show ?thesis by (intro earned_same) (simp add: leave_reset_def)
next
  case destroys
  then show ?thesis by (intro earned_same) (simp add: markDestroyed_def)
qed (use inv in \<open>auto intro: earned_quiet [OF quiet_fields(1)] earned_quiet [OF quiet_fields(2)] earned_quiet [OF quiet_call]
    earned_quiet [OF quiet_broadcast] earned_quiet [OF quiet_served] earned_quiet [OF quiet_dates] earned_quiet [OF quiet_timer]
    earned_quiet [OF quiet_join(1)] earned_quiet [OF quiet_join(2)] earned_quiet [OF quiet_join(3)]
    earned_quiet [OF quiet_join(4)] earned_quiet [OF quiet_leave_begin]
    earned_admits earned_signs earned_settles earned_evicts earned_note earned_hears earned_ingests earned_beat earned_restores
    earned_fewer [OF tally_fewer] earned_fewer [OF emit_fewer] earned_fewer [OF tick_fewer] earned_fewer [OF join_fewer]\<close>)

lemma credits_reachable:
  assumes "en_run C (engine_start blocks disk) en" "credited en c p"
  shows "\<exists>en0. en_run C (engine_start blocks disk) en0 \<and> en_run C en0 en \<and> advertises en0 p c"
  using assms
proof (induction rule: rtranclp_induct)
  case base
  then show ?case by (simp add: credited_def engine_start_def)
next
  case (step en en')
  with earned_step [OF inv_reachable [OF step(1)] step(2)] consider "credited en c p" | "advertises en' p c"
    unfolding credits_earned_def by blast
  then show ?case
  proof cases
    case 1
    from step.IH [OF 1] step(2) show ?thesis by (meson rtranclp.rtrancl_into_rtrancl)
  next
    case 2
    from step(1,2) have "en_run C (engine_start blocks disk) en'" by (rule rtranclp.rtrancl_into_rtrancl)
    with 2 show ?thesis by blast
  qed
qed

end
