(* ===== verification/Engine_Sample.thy ===== *)
theory Engine_Sample
  imports Engine_Credit Tally_Properties Gossip_Properties
begin

text \<open>
  A concrete run of the engine for the closed instances of its theorems: it joins, signs a
  withdrawal, settles its check, writes a snapshot, hears its own root and credits a peer with it.
\<close>

definition sample_engine :: "unit engine_config" where
  "sample_engine = \<lparr>eg_lib = sample_lib, eg_topic = ''topic'', eg_criteriaCid = [1], eg_chainId = 1,
     eg_bucketMath = \<lparr>bucketForBlock = bucket_of 10, sampleBlockForBucket = sample_of 10\<rparr>, eg_voteExpiryBuckets = 5,
     eg_verifyOffline = (\<lambda>_. Valid ()), eg_tally = sample_tally\<rparr>"

lemma sample_engine_lib: "eg_lib sample_engine = sample_lib"
  by (simp add: sample_engine_def)

definition signed_bundle :: votes_bundle where
  "signed_bundle = quiet_bundle\<lparr>b_blockNumber := 0\<rparr>"

lemma signed_ok: "votes_bundle_ok sample_lib signed_bundle"
proof -
  have "votes_bundle_ok sample_lib (sample_bundle 1 0)" by (rule sample_bundle_ok) (simp add: max_safe_integer_def)
  then show ?thesis by (simp add: signed_bundle_def quiet_bundle_def votes_bundle_ok_def sample_bundle_def signature_ok_def)
qed

lemma signed_encodes: "\<exists>block. encodeBundle sample_lib signed_bundle = Inr block"
  using signed_ok
  by (simp add: encodeBundle_def toWireBundle_def signed_bundle_def quiet_bundle_def sample_bundle_def ADDRESS_BYTES_def SIGNATURE_BYTES_def)

definition signed_block :: bytes where
  "signed_block = (case encodeBundle sample_lib signed_bundle of Inr block \<Rightarrow> block | Inl _ \<Rightarrow> [])"

definition signed_cid :: cid where
  "signed_cid = bundleCidForBytes sample_lib signed_block"

lemma signed_encode: "encodeBundle sample_lib signed_bundle = Inr signed_block"
  using signed_encodes by (auto simp: signed_block_def)

definition run_joined :: engine where
  "run_joined = join_started (fst (join_begin (engine_start [] None)))"

lemma run_joined_fields:
  "en_currentBucket run_joined = 0" "en_rootRecordCache run_joined = None" "en_checkpointDirty run_joined"
  by (simp_all add: run_joined_def join_started_def join_begin_def engine_start_def call_def)

definition run_signed :: engine where
  "run_signed = fst (signVote sample_engine (Inr 7) (\<lambda>_. Inr (b_signature signed_bundle)) (Inr (b_address signed_bundle))
     (Inr ()) [] True (Some 1) run_joined)"

definition run_settled :: engine where
  "run_settled = settleCheck signed_cid ChainVerified run_signed"

definition run_written :: engine where
  "run_written = snapshot_timer_fires sample_engine 5 (Inr 7) (\<lambda>_. Inr ()) (Inr ()) run_settled"

lemma sample_run_signed: "en_run sample_engine (engine_start [] None) run_signed"
proof -
  have "en_step sample_engine (engine_start [] None) (fst (join_begin (engine_start [] None)))" by (rule join_begins)
  moreover have "en_step sample_engine (fst (join_begin (engine_start [] None))) run_joined"
    unfolding run_joined_def by (rule join_starts)
  moreover have "en_step sample_engine run_joined run_signed"
    unfolding run_signed_def
    by (rule signs) (simp add: fresh_token_def run_joined_def join_started_def join_begin_def engine_start_def call_def)
  ultimately show ?thesis by (meson converse_rtranclp_into_rtranclp rtranclp.rtrancl_refl)
qed

lemma signed_again: "\<lparr>b_address = b_address signed_bundle, b_votes = [], b_blockNumber = 0, b_signature = b_signature signed_bundle\<rparr> = signed_bundle"
  by (simp add: signed_bundle_def quiet_bundle_def)

lemma run_signed_eq:
  "run_signed = track_signed signed_cid signed_bundle True (Some 1)
     (run_joined\<lparr>en_currentBucket := 0, en_blocks := [(signed_cid, signed_block)],
        en_crdt := \<lparr>bundles = [(signed_cid, \<lparr>e_cid = signed_cid, e_bundle = signed_bundle\<rparr>)]\<rparr>\<rparr>)"
proof -
  have add: "engine_add sample_engine (Inr ()) signed_bundle (run_joined\<lparr>en_currentBucket := 0\<rparr>) =
      Inr (run_joined\<lparr>en_currentBucket := 0, en_blocks := [(signed_cid, signed_block)],
        en_crdt := \<lparr>bundles = [(signed_cid, \<lparr>e_cid = signed_cid, e_bundle = signed_bundle\<rparr>)]\<rparr>\<rparr>, signed_cid)"
    by (simp add: engine_add_def crdt_add_def bundleCid_def bs_put_def sample_engine_def signed_encode signed_cid_def
        run_joined_def join_started_def join_begin_def engine_start_def call_def empty_crdt_def)
  have now: "bucketForBlock (eg_bucketMath sample_engine) 7 = 0" "sampleBlockForBucket (eg_bucketMath sample_engine) 0 = 0"
    "eg_lib sample_engine = sample_lib" by (simp_all add: sample_engine_def bucket_of_def sample_of_def)
  show ?thesis
    by (simp add: run_signed_def signVote_def now Let_def signed_again signed_ok add signed_encode guard_def)
qed

lemma run_signed_fields:
  "en_crdt run_signed = \<lparr>bundles = [(signed_cid, \<lparr>e_cid = signed_cid, e_bundle = signed_bundle\<rparr>)]\<rparr>"
  "en_checks run_signed = [(signed_cid, \<lparr>bk_chainVerified = False, bk_nameResolved = None\<rparr>)]"
  "en_ownCids run_signed = [signed_cid]" "en_joined run_signed" "en_snapshotTimer run_signed"
  "en_rootRecordCache run_signed = None" "en_checkpointDirty run_signed" "en_restoreBacklog run_signed = []"
  "en_currentBucket run_signed = 0" "en_ownVerifiedCbs run_signed = [(signed_cid, 1)]"
  "en_ownCheckpointCbs run_signed = [(signed_cid, 1)]" "en_ownCheckpointPeers run_signed = []"
  "en_decodedRoots run_signed = []" "en_peerRoots run_signed = []" "en_transport run_signed"
  "\<not> en_heardMatchingRoot run_signed" "\<not> en_publishedRoot run_signed"
  by (simp_all add: run_signed_eq track_signed_def recordChecks_def Let_def run_joined_def join_started_def join_begin_def
      engine_start_def call_def onStateChanged_def markStateChanged_def scheduleSnapshotWrite_def kickTallyRefresh_def
      carriesName_def signed_bundle_def quiet_bundle_def sadd_def)

lemma run_settled_fields:
  "en_crdt run_settled = en_crdt run_signed"
  "en_checks run_settled = [(signed_cid, \<lparr>bk_chainVerified = True, bk_nameResolved = None\<rparr>)]"
  "en_ownCids run_settled = [signed_cid]" "en_joined run_settled" "en_snapshotTimer run_settled"
  "en_rootRecordCache run_settled = None" "en_checkpointDirty run_settled" "en_restoreBacklog run_settled = []"
  "en_ownCheckpointCbs run_settled = [(signed_cid, 1)]" "en_ownCheckpointPeers run_settled = []"
  "en_decodedRoots run_settled = []" "en_peerRoots run_settled = []" "en_transport run_settled"
  "\<not> en_heardMatchingRoot run_settled" "\<not> en_publishedRoot run_settled" "en_currentBucket run_settled = 0"
  "NotifyVerified (Suc 0) signed_cid \<in> set (en_calls run_settled)"
  by (simp_all add: run_settled_def settleCheck_def run_signed_fields Let_def set_check_def isFullyVerified_def notify_def
      dropOwnTracking_def onStateChanged_def markStateChanged_def scheduleSnapshotWrite_def kickTallyRefresh_def call_def)

lemma settled_winners: "verified_winners sample_engine 0 e = [signed_bundle]"
  if "en_crdt e = en_crdt run_signed" "en_checks e = en_checks run_settled"
  using that
  by (simp add: verified_winners_def run_signed_fields run_settled_fields currentEntries_def winnersByWallet_def
      isFullyVerified_def sample_engine_def isExpired_def signed_bundle_def quiet_bundle_def bucket_of_def)

lemma signed_checkpoint: "\<exists>enc. encodeCheckpoint sample_lib [signed_bundle] n = Inr enc"
  by (rule encodeCheckpoint_total) (use signed_encode in \<open>auto simp: encodeBundle_def res_simps\<close>)

definition signed_cache :: root_cache where
  "signed_cache =
     (case encodeCheckpoint sample_lib [signed_bundle] DEFAULT_MAX_CHUNK_BYTES of
        Inr enc \<Rightarrow> \<lparr>rc_record = record_of enc 1, rc_bucket = 0, rc_blocks = ec_blocks enc\<rparr>
      | Inl _ \<Rightarrow> undefined)"

lemma put_blocks_ok: "\<exists>blocks'. put_blocks (\<lambda>_. Inr ()) bs blocks = (blocks', Inr ())"
  by (induction bs arbitrary: blocks) simp_all

lemma settled_record:
  assumes "en_crdt e = en_crdt run_signed" "en_checks e = en_checks run_settled" "en_checkpointDirty e"
  shows "\<exists>blocks. rootRecord sample_engine now (Inr 7) (\<lambda>_. Inr ()) e =
    (e\<lparr>en_currentBucket := 0, en_checkpointDirty := False, en_blocks := blocks, en_rootRecordCache := Some signed_cache\<rparr>,
     Inr (rc_record signed_cache))"
proof -
  obtain enc where enc: "encodeCheckpoint sample_lib [signed_bundle] DEFAULT_MAX_CHUNK_BYTES = Inr enc"
    using signed_checkpoint by blast
  let ?e = "e\<lparr>en_currentBucket := 0\<rparr>"
  have "record_bucket sample_engine now (Inr 7) e = (?e, Inr 0)"
    using assms(1) by (simp add: record_bucket_def nodeCount_def run_signed_fields refreshBucket_def sample_engine_def bucket_of_def)
  then have b: "record_begin sample_engine now (Inr 7) e = (?e\<lparr>en_checkpointDirty := False\<rparr>, Inr (Encoding 0 [signed_bundle]))"
    using assms settled_winners [of ?e] by (simp add: record_begin_def split: option.splits)
  obtain blocks where blocks: "put_blocks (\<lambda>_. Inr ()) (ec_blocks enc) (en_blocks e) = (blocks, Inr ())"
    using put_blocks_ok by blast
  show ?thesis
    by (rule exI [of _ blocks]) (simp add: rootRecord_def b record_finish_def sample_engine_lib enc blocks signed_cache_def)
qed

lemma signed_cache_encoding: "encoding sample_engine [signed_bundle] signed_cache"
  using signed_checkpoint [of DEFAULT_MAX_CHUNK_BYTES] by (auto simp: encoding_def signed_cache_def sample_engine_def)

section \<open>The snapshot is written\<close>

definition ser_size :: "string \<times> ipld \<Rightarrow> nat" where
  "ser_size p = length (ser_string (fst p)) + length (ser (snd p))"

lemma length_ser_map: "length (ser (IMap m)) = 2 + length m + sum_list (map ser_size m)"
proof -
  have "length (concat (map (\<lambda>p. ser_string (fst p) @ snd p) (map (map_prod id ser) m))) = sum_list (map ser_size m)"
    by (induction m) (simp_all add: ser_size_def)
  then show ?thesis by (simp add: ser_nat_def)
qed

lemma length_ser_canon: "length (ser (canon v)) = length (ser v)"
proof (induction v)
  case (IList xs)
  then have "map (\<lambda>x. length (ser (canon x))) xs = map (\<lambda>x. length (ser x)) xs" by simp
  then have "sum_list (map (\<lambda>x. length (ser (canon x))) xs) = sum_list (map (\<lambda>x. length (ser x)) xs)" by (rule arg_cong)
  then show ?case by (simp add: length_concat comp_def)
next
  case (IMap m)
  let ?m = "map (map_prod id canon) m"
  have sort: "mset (sort_by key_le ?m) = mset ?m" by simp
  have "map ser_size ?m = map ser_size m"
    using IMap by (auto simp: ser_size_def)
  then have "sum_list (map ser_size (sort_by key_le ?m)) = sum_list (map ser_size m)"
    by (metis sort mset_map sum_mset_sum_list)
  with mset_eq_length [OF sort] show ?case unfolding canon.simps length_ser_map by simp
qed simp_all

lemma length_encode: "length (encodeCanonical sample_lib v) = length (ser v)"
  by (simp add: encodeCanonical_def sample_lib_def length_ser_canon)

lemma length_cid: "length (create_v1 sample_lib code (sha256 sample_lib bs)) = Suc (length bs)"
  by (simp add: sample_lib_def)

lemma signed_wire: "\<exists>w. toWireBundle sample_lib signed_bundle = Inr w \<and> length (w_address w) = 20 \<and> length (w_signature w) = 65 \<and>
    w_blockNumber w = 0 \<and> w_sigtype w = ''eip712'' \<and> w_votes w = []"
  using signed_ok
  by (simp add: toWireBundle_def signed_bundle_def quiet_bundle_def sample_bundle_def ADDRESS_BYTES_def SIGNATURE_BYTES_def)

lemma signed_sizes:
  assumes "encodeCheckpoint sample_lib [signed_bundle] DEFAULT_MAX_CHUNK_BYTES = Inr enc"
  shows "sum_list (map (\<lambda>b. length (blk_bytes b)) (ec_blocks enc)) \<le> 2000"
proof -
  obtain w where w: "toWireBundle sample_lib signed_bundle = Inr w" "length (w_address w) = 20" "length (w_signature w) = 65"
    "w_blockNumber w = 0" "w_sigtype w = ''eip712''" "w_votes w = []" using signed_wire by blast
  let ?chunk = "encodeCanonical sample_lib (IList [wire_ipld w])"
  have chunk: "length ?chunk \<le> 500"
    by (simp add: length_encode wire_ipld_def w ser_nat_def ser_string_def)
  have fill: "fill_chunks sample_lib DEFAULT_MAX_CHUNK_BYTES (sort_winners [signed_bundle]) [] [] 0 = Inr [[signed_bundle]]"
    by (simp add: sort_winners_def signed_encode Let_def)
  have "ec_blocks enc = [blockForBytes sample_lib ?chunk, checkpointRootBlock sample_lib [blk_cid (blockForBytes sample_lib ?chunk)]]"
    using assms by (simp add: encodeCheckpoint_def fill chunk_block_def w(1) Let_def) auto
  moreover have "length (blk_bytes (checkpointRootBlock sample_lib [blk_cid (blockForBytes sample_lib ?chunk)])) \<le> 1100"
    using chunk
    by (simp add: checkpointRootBlock_def blockForBytes_def length_encode root_ipld_def ser_nat_def ser_string_def length_cid)
  ultimately show ?thesis using chunk by (simp add: blockForBytes_def)
qed

lemma signed_blob: "\<exists>blob. snapshot_blob sample_engine signed_cache = Inr blob"
proof -
  obtain enc where enc: "encodeCheckpoint sample_lib [signed_bundle] DEFAULT_MAX_CHUNK_BYTES = Inr enc"
    using signed_checkpoint by blast
  have "rr_sizeBytes (rc_record signed_cache) \<le> 2000" "rr_count (rc_record signed_cache) = 1"
    "rr_version (rc_record signed_cache) = ROOT_RECORD_VERSION"
    using signed_sizes [OF enc] by (simp_all add: signed_cache_def enc record_of_def)
  moreover have "opt_map as_link (map ILink cs) = Some cs" for cs by (induction cs) simp_all
  ultimately show ?thesis
    by (simp add: snapshot_blob_def sample_engine_lib encodeRootRecord_def FetchRootRecordSchema_def fetch_record_ipld_def
        strict_keys_def root_fields_def chunk_links_def obj_get_def as_nat_def safe_int_def max_safe_integer_def root_keys_def
        ROOT_RECORD_VERSION_def positive_int_def)
qed

definition signed_snapshot :: bytes where
  "signed_snapshot = (case snapshot_blob sample_engine signed_cache of Inr blob \<Rightarrow> blob | Inl _ \<Rightarrow> [])"

lemma signed_snapshot_blob: "snapshot_blob sample_engine signed_cache = Inr signed_snapshot"
  using signed_blob by (auto simp: signed_snapshot_def)

lemma run_written_fields:
  "en_crdt run_written = en_crdt run_signed" "en_checks run_written = en_checks run_settled"
  "en_ownCids run_written = [signed_cid]" "en_rootRecordCache run_written = Some signed_cache"
  "\<not> en_checkpointDirty run_written" "en_disk run_written = Some signed_snapshot" "en_currentBucket run_written = 0"
  "SnapshotWritten signed_snapshot \<in> set (en_calls run_written)" "NotifyVerified (Suc 0) signed_cid \<in> set (en_calls run_written)"
  "en_ownCheckpointCbs run_written = [(signed_cid, 1)]" "en_ownCheckpointPeers run_written = []"
  "en_decodedRoots run_written = []" "en_peerRoots run_written = []" "en_transport run_written"
  "\<not> en_heardMatchingRoot run_written" "\<not> en_publishedRoot run_written"
proof -
  let ?e = "run_settled\<lparr>en_snapshotTimer := False\<rparr>"
  obtain blocks where r: "rootRecord sample_engine 5 (Inr 7) (\<lambda>_. Inr ()) ?e =
    (?e\<lparr>en_currentBucket := 0, en_checkpointDirty := False, en_blocks := blocks, en_rootRecordCache := Some signed_cache\<rparr>,
     Inr (rc_record signed_cache))"
    using settled_record [of ?e 5] by (auto simp: run_settled_fields)
  have settled: "\<not> hasUnsettledChecks ?e" by (simp add: hasUnsettledChecks_def run_settled_fields unsettled_def)
  have run: "run_written = call (SnapshotWritten signed_snapshot)
      (?e\<lparr>en_currentBucket := 0, en_checkpointDirty := False, en_blocks := blocks, en_rootRecordCache := Some signed_cache,
          en_disk := Some signed_snapshot, en_snapshotWriteFailures := 0\<rparr>)"
    using settled
    by (simp add: run_written_def snapshot_timer_fires_def writeSnapshot_def r run_settled_fields signed_snapshot_blob)
  show "en_crdt run_written = en_crdt run_signed" "en_checks run_written = en_checks run_settled"
    "en_ownCids run_written = [signed_cid]" "en_rootRecordCache run_written = Some signed_cache"
    "\<not> en_checkpointDirty run_written" "en_disk run_written = Some signed_snapshot" "en_currentBucket run_written = 0"
    "SnapshotWritten signed_snapshot \<in> set (en_calls run_written)" "NotifyVerified (Suc 0) signed_cid \<in> set (en_calls run_written)"
    "en_ownCheckpointCbs run_written = [(signed_cid, 1)]" "en_ownCheckpointPeers run_written = []"
    "en_decodedRoots run_written = []" "en_peerRoots run_written = []" "en_transport run_written"
  "\<not> en_heardMatchingRoot run_written" "\<not> en_publishedRoot run_written"
    by (simp_all add: run call_def run_settled_fields)
qed

lemma sample_run_written: "en_run sample_engine (engine_start [] None) run_written"
proof -
  have "en_step sample_engine run_signed run_settled" unfolding run_settled_def by (rule settles)
  moreover have "en_step sample_engine run_settled run_written"
    unfolding run_written_def by (rule writes) (simp add: run_settled_fields)
  ultimately show ?thesis using sample_run_signed by (meson rtranclp.rtrancl_into_rtrancl)
qed

text \<open>A peer advertises the root, and the engine learns that the root holds its vote.\<close>

definition run_credited :: engine where
  "run_credited = noteCheckpointContents [9] [signed_cid] (notePeerRoot ''p'' [9] run_written)"

lemma sample_run_credited: "en_run sample_engine (engine_start [] None) run_credited"
  unfolding run_credited_def
  by (rule rtranclp.rtrancl_into_rtrancl [OF rtranclp.rtrancl_into_rtrancl [OF sample_run_written notices] decodes])

lemma run_credited_fields: "credited run_credited signed_cid ''p''" "NotifyCheckpointed (Suc 0) signed_cid \<in> set (en_calls run_credited)"
  by (simp_all add: run_credited_def notePeerRoot_def attributeRoot_def run_written_fields lru_put_def PEER_ROOTS_MAX_def
      noteCheckpointContents_def indexRootContents_def sadd_def credit_at_def creditPeer_def creditKey_def Let_def notify_def
      call_def DECODED_ROOTS_MAX_def onStateChanged_def markStateChanged_def scheduleSnapshotWrite_def kickTallyRefresh_def
      credited_def)

end
