(* ===== verification/Engine_Properties.thy ===== *)
theory Engine_Properties
  imports Engine_Sample
begin

text \<open>
  What the contest engine promises in every order of its operations: peers and the disk are given
  checkpoints of verified winners, a checkpoint answers for the present state unless an encoding
  fails, a restart loses no vote, a publication hears at most one verdict, and credit is earned.
\<close>

section \<open>What peers are told\<close>

text \<open>A bundle the engine holds with every check settled.\<close>

definition held_verified :: "engine \<Rightarrow> votes_bundle \<Rightarrow> bool" where
  "held_verified en b \<longleftrightarrow>
     (\<exists>cid. isFullyVerified en cid \<and> jget (bundles (en_crdt en)) cid = Some \<lparr>e_cid = cid, e_bundle = b\<rparr>)"

lemma winner_verified:
  assumes "engine_inv en" "b \<in> set (verified_winners C bucket en)"
  shows "held_verified en b"
proof -
  have wf: "crdt_wf (en_crdt en)" using assms(1) by (simp add: engine_inv_def sets_ok_def)
  from assms(2) obtain e where e: "e_bundle e = b" "e \<in> entries (en_crdt en)" "isFullyVerified en (e_cid e)"
    unfolding verified_winners_def using lww.set_currentEntries [OF wf] by (auto simp: is_winner_def)
  from e(2) obtain k where k: "(k, e) \<in> set (bundles (en_crdt en))" by (auto simp: entries_def)
  with wf have "k = e_cid e" "jwf (bundles (en_crdt en))" by (auto simp: crdt_wf_def)
  with k have "jget (bundles (en_crdt en)) (e_cid e) = Some e" using jget_mem by metis
  with e show ?thesis unfolding held_verified_def by (metis entry.surjective old.unit.exhaust)
qed

text \<open>C6: Peers are told of verified votes only. Whatever the order of admissions, settlements, evictions,
  prunings and encodings, each root the engine publishes is the checkpoint of votes that an earlier
  state of the engine held with every check settled.\<close>

theorem checkpoint_serves_verified:
  assumes "en_run C (engine_start blocks disk) en" "PublishRoot r \<in> set (en_calls en)"
  shows "\<exists>en0 ws enc. en_run C (engine_start blocks disk) en0 \<and> en_run C en0 en \<and>
    encodeCheckpoint (eg_lib C) ws DEFAULT_MAX_CHUNK_BYTES = Inr enc \<and> r = record_of enc (length ws) \<and>
    (\<forall>b \<in> set ws. held_verified en0 b)"
proof -
  from served_reachable [OF assms(1)] assms(2) obtain rc where rc: "from_past C (engine_start blocks disk) en rc" "r = rc_record rc"
    unfolding served_ok_def by force
  then obtain en0 where en0: "en_run C (engine_start blocks disk) en0" "en_run C en0 en"
    "encoding C (verified_winners C (rc_bucket rc) en0) rc" by (auto simp: from_past_def encoded_from_def)
  with rc(2) winner_verified [OF inv_reachable [OF en0(1)]] show ?thesis unfolding encoding_def by metis
qed

text \<open>A joined engine that publishes its root on the first heartbeat.\<close>

definition run_published :: engine where
  "run_published = beat_publish sample_engine 6 (Inr 7) (\<lambda>_. Inr ()) 0 run_written"

lemma sample_run_published: "en_run sample_engine (engine_start [] None) run_published"
  unfolding run_published_def by (rule rtranclp.rtrancl_into_rtrancl [OF sample_run_written beat_publishes])

theorem checkpoint_serves_verified_witness:
  "\<exists>en0 ws enc. encodeCheckpoint sample_lib ws DEFAULT_MAX_CHUNK_BYTES = Inr enc \<and>
     rc_record signed_cache = record_of enc (length ws) \<and> en_run sample_engine en0 run_published"
proof -
  let ?e = "run_written\<lparr>en_heardMatchingRoot := False, en_publishedRoot := False\<rparr>"
  have "record_bucket sample_engine 6 (Inr 7) ?e = (?e\<lparr>en_currentBucket := 0\<rparr>, Inr 0)"
    by (simp add: record_bucket_def nodeCount_def run_written_fields run_signed_fields refreshBucket_def sample_engine_def bucket_of_def)
  moreover have "rc_bucket signed_cache = 0"
    using signed_checkpoint [of DEFAULT_MAX_CHUNK_BYTES] by (auto simp: signed_cache_def)
  ultimately have "PublishRoot (rc_record signed_cache) \<in> set (en_calls run_published)"
    by (simp add: run_published_def beat_publish_def Let_def run_written_fields rootRecord_def record_begin_def publish_root_def call_def)
  from checkpoint_serves_verified [OF sample_run_published this] show ?thesis unfolding sample_engine_lib by blast
qed

text \<open>C23: The checkpoint is current. In an orderly run (a record is encoded without interruption or
  failure, buckets do not go back) the record the engine answers with is the checkpoint of the votes
  that win at this moment: no admission, settlement, eviction or prune leaves the cache stale.\<close>

theorem checkpoint_is_current:
  assumes "bucketed C" "(calm_step C)\<^sup>*\<^sup>* (engine_start blocks disk) en"
    and "rootRecord C now head put en = (en', Inr r)" "en_currentBucket en \<le> en_currentBucket en'"
  shows "\<exists>enc. encodeCheckpoint (eg_lib C) (verified_winners C (en_currentBucket en') en') DEFAULT_MAX_CHUNK_BYTES = Inr enc \<and>
    r = record_of enc (length (verified_winners C (en_currentBucket en') en'))"
proof -
  from calm_run [OF assms(1,2)] have "accurate C en" by blast
  from record_current [OF this assms(3,4)] show ?thesis by (auto simp: encoded_from_def encoding_def)
qed

lemma sample_bucketed: "bucketed sample_engine"
  unfolding bucketed_def sample_engine_def by (intro exI [of _ 10]) (simp add: makeBucketMath_def)

lemma sample_calm_settled: "(calm_step sample_engine)\<^sup>*\<^sup>* (engine_start [] None) run_settled"
proof -
  let ?s0 = "engine_start [] None" and ?s1 = "fst (join_begin (engine_start [] None))"
  have "calm_step sample_engine ?s0 ?s1"
    by (rule calm_step.other [OF join_begins]) (simp_all add: join_begin_def engine_start_def)
  moreover have "calm_step sample_engine ?s1 run_joined"
    unfolding run_joined_def
    by (rule calm_step.other [OF join_starts]) (simp_all add: join_begin_def join_started_def call_def)
  moreover have "en_step sample_engine run_joined run_signed"
    unfolding run_signed_def
    by (rule signs) (simp add: fresh_token_def run_joined_def join_started_def join_begin_def engine_start_def call_def)
  then have "calm_step sample_engine run_joined run_signed"
    by (rule calm_step.other) (simp_all add: run_joined_fields run_signed_fields)
  moreover have "en_step sample_engine run_signed run_settled" unfolding run_settled_def by (rule settles)
  then have "calm_step sample_engine run_signed run_settled"
    by (rule calm_step.other) (simp_all add: run_settled_fields run_signed_fields)
  ultimately show ?thesis by (meson converse_rtranclp_into_rtranclp rtranclp.rtrancl_refl)
qed

theorem checkpoint_is_current_witness:
  "\<exists>enc. encodeCheckpoint sample_lib [signed_bundle] DEFAULT_MAX_CHUNK_BYTES = Inr enc \<and>
     rc_record signed_cache = record_of enc 1"
proof -
  obtain blocks where r: "rootRecord sample_engine 5 (Inr 7) (\<lambda>_. Inr ()) run_settled =
    (run_settled\<lparr>en_currentBucket := 0, en_checkpointDirty := False, en_blocks := blocks, en_rootRecordCache := Some signed_cache\<rparr>,
     Inr (rc_record signed_cache))" (is "_ = (?e, _)")
    using settled_record [of run_settled 5] run_settled_fields by auto
  with checkpoint_is_current [OF sample_bucketed sample_calm_settled r] settled_winners [of ?e] show ?thesis
    by (simp add: run_settled_fields sample_engine_lib)
qed

section \<open>Across a restart\<close>

text \<open>What becomes of a restored vote: it waits for its retry, it is refused by the offline checks, or
  the engine holds it, with its checks on record.\<close>

definition recovered :: "'x engine_config \<Rightarrow> engine \<Rightarrow> votes_bundle \<Rightarrow> bool" where
  "recovered C en b \<longleftrightarrow> b \<in> set (en_restoreBacklog en) \<or> \<not> is_valid (eg_verifyOffline C b) \<or>
     (\<exists>bs. encodeBundle (eg_lib C) b = Inr bs \<and> bundleCidForBytes (eg_lib C) bs \<in> set (jkeys (bundles (en_crdt en))))"

text \<open>A restored vote is retained when it is held or waits for its retry: what a vote that passes the
  offline checks is owed.\<close>

definition retained :: "'x engine_config \<Rightarrow> engine \<Rightarrow> votes_bundle \<Rightarrow> bool" where
  "retained C en b \<longleftrightarrow> b \<in> set (en_restoreBacklog en) \<or>
     (\<exists>bs. encodeBundle (eg_lib C) b = Inr bs \<and> bundleCidForBytes (eg_lib C) bs \<in> set (jkeys (bundles (en_crdt en))))"

lemma recovered_retained: "recovered C en b \<Longrightarrow> is_valid (eg_verifyOffline C b) \<Longrightarrow> retained C en b"
  by (auto simp: recovered_def retained_def)

lemma jhas_keyset: "jhas m k \<longleftrightarrow> k \<in> keyset m"
  by (force simp: jhas_def keyset_def map_of_eq_None_iff)

lemma restore_recovers:
  assumes "en_run C (engine_start blocks disk) en" "en_joined en" "en_disk en = Some blob" "restore_decode C blob = Inr winners"
    and en': "restoreSnapshot C now (Inr ()) heads puts en = en'"
  shows "\<forall>b \<in> set winners. recovered C en' b"
    and "en_restoreBacklog en' \<noteq> [] \<Longrightarrow> \<exists>t. en_restoreTimer en' = Some t"
proof -
  let ?en = "en\<lparr>en_restoreAttempts := 0\<rparr>"
  have eq: "en' = admitRestored C now heads puts winners ?en"
    using assms(3,4) by (simp add: restoreSnapshot_def flip: en')
  have "engine_inv en'"
    using inv_restores [OF inv_reachable [OF assms(1)]] by (simp flip: en')
  then have keys: "keyset (en_checks en') = keyset (bundles (en_crdt en'))" by (simp add: engine_inv_def sets_ok_def)
  note acc = admit_restored_accounts [of ?en, OF _, where C = C and now = now and heads = heads and puts = puts and winners = winners]
  from acc(1) assms(2) have "\<forall>b \<in> set winners. accounted C en' (en_restoreBacklog en') b" by (simp add: eq)
  with keys show "\<forall>b \<in> set winners. recovered C en' b"
    unfolding accounted_def recovered_def jhas_keyset keyset_def by simp
  from acc(2) assms(2) show "en_restoreBacklog en' \<noteq> [] \<Longrightarrow> \<exists>t. en_restoreTimer en' = Some t" by (simp add: eq)
qed

text \<open>C17: A restore loses no vote. When the snapshot on disk decodes, each vote in it is afterwards
  held by the engine, refused by the offline checks, or kept for a retry; while any is kept a retry
  is armed, and no snapshot write replaces the blob it came from.\<close>

theorem restore_loses_no_vote:
  assumes "en_run C (engine_start blocks disk) en" "en_joined en" "en_disk en = Some blob" "restore_decode C blob = Inr winners"
    and en': "restoreSnapshot C now (Inr ()) heads puts en = en'"
  shows "(\<forall>b \<in> set winners. recovered C en' b) \<and>
    (en_restoreBacklog en' \<noteq> [] \<longrightarrow> (\<exists>t. en_restoreTimer en' = Some t) \<and>
       (\<forall>later head put stored retry. writeSnapshot C later head put stored retry en' = en'))"
  using restore_recovers [OF assms] backlog_keeps_disk by blast

definition run_restarted :: engine where
  "run_restarted = join_started (fst (join_begin (engine_start [] (Some signed_snapshot))))"

lemma sample_run_restarted:
  "en_run sample_engine (engine_start [] (Some signed_snapshot)) run_restarted"
  "en_joined run_restarted" "en_disk run_restarted = Some signed_snapshot"
proof -
  show "en_run sample_engine (engine_start [] (Some signed_snapshot)) run_restarted"
    unfolding run_restarted_def
    by (meson join_begins join_starts rtranclp.rtrancl_into_rtrancl rtranclp.rtrancl_refl)
qed (simp_all add: run_restarted_def join_started_def join_begin_def engine_start_def call_def)

lemma signed_restores: "restore_decode sample_engine signed_snapshot = Inr [signed_bundle]"
proof -
  have "lower_bundle signed_bundle = signed_bundle" by (simp add: lower_bundle_def signed_bundle_def quiet_bundle_def sample_bundle_def)
  with blob_restores [of sample_engine, unfolded sample_engine_lib, OF sample_cbor_laws sample_b58_laws sample_cid_inj
      signed_cache_encoding signed_snapshot_blob] show ?thesis by (simp add: sort_winners_def)
qed

text \<open>The chain head cannot be read: the vote is from a bucket the engine has not seen, and waits.\<close>

theorem restore_loses_no_vote_witness:
  "recovered sample_engine (restoreSnapshot sample_engine 9 (Inr ()) (\<lambda>_. Inl (PlainError ''rpc'')) (\<lambda>_. Inr ()) run_restarted)
     signed_bundle"
  using restore_loses_no_vote [OF sample_run_restarted signed_restores refl] by simp

text \<open>What the blob of an encoded checkpoint holds.\<close>

lemma blob_holds:
  assumes "cbor_laws (eg_lib C)" "encoding C ws rc" "snapshot_blob C rc = Inr blob"
  shows "\<exists>enc rbs. encodeCheckpoint (eg_lib C) ws DEFAULT_MAX_CHUNK_BYTES = Inr enc \<and>
    decodeSnapshot (eg_lib C) blob = Inr \<lparr>sn_record = rbs, sn_blocks = map blk_bytes (ec_blocks enc)\<rparr> \<and>
    decodeRootRecord (eg_lib C) rbs = Inr (record_of enc (length ws))"
proof -
  from assms(2) obtain enc where enc: "encodeCheckpoint (eg_lib C) ws DEFAULT_MAX_CHUNK_BYTES = Inr enc"
    "rc_record rc = record_of enc (length ws)" "rc_blocks rc = ec_blocks enc" by (auto simp: encoding_def)
  from assms(3) obtain rbs where "encodeRootRecord (eg_lib C) (rc_record rc) = Inr rbs"
    "blob = encodeSnapshot (eg_lib C) \<lparr>sn_record = rbs, sn_blocks = map blk_bytes (rc_blocks rc)\<rparr>"
    by (auto simp: snapshot_blob_def res_simps)
  with enc decodeSnapshot_encode [OF assms(1)] decodeRootRecord_encode [OF assms(1)] show ?thesis by auto
qed

text \<open>C18: Votes survive a restart. What an engine wrote to the snapshot store is the checkpoint of exactly
  the winners \<open>ws\<close> of a reachable moment of its run, all of them held with every check settled: the blob
  holds the record and the blocks of that checkpoint, and decodes to exactly those votes. A later engine
  of the same contest that joins with the blob on disk retains each of them that passes the offline
  checks, which depend on the vote alone: it holds the vote or keeps it for a retry, whatever the chain
  and the block store answer meanwhile.\<close>

theorem snapshot_survives_restart:
  assumes "cbor_laws (eg_lib C)" "b58_laws (eg_lib C)" "inj (bundleCidForBytes (eg_lib C))"
    and "en_run C (engine_start blocks disk) en" "SnapshotWritten blob \<in> set (en_calls en)"
    and "en_run C (engine_start blocks' disk') new" "en_joined new" "en_disk new = Some blob"
  shows "\<exists>en0 bucket ws enc rbs. en_run C (engine_start blocks disk) en0 \<and> en_run C en0 en \<and>
    ws = verified_winners C bucket en0 \<and> (\<forall>b \<in> set ws. held_verified en0 b) \<and>
    encodeCheckpoint (eg_lib C) ws DEFAULT_MAX_CHUNK_BYTES = Inr enc \<and>
    decodeSnapshot (eg_lib C) blob = Inr \<lparr>sn_record = rbs, sn_blocks = map blk_bytes (ec_blocks enc)\<rparr> \<and>
    decodeRootRecord (eg_lib C) rbs = Inr (record_of enc (length ws)) \<and>
    restore_decode C blob = Inr (map lower_bundle (sort_winners ws)) \<and>
    (\<forall>b \<in> set ws. is_valid (eg_verifyOffline C (lower_bundle b)) \<longrightarrow>
       retained C (restoreSnapshot C now (Inr ()) heads puts new) (lower_bundle b))"
proof -
  from served_reachable [OF assms(4)] assms(5)
  obtain rc where rc: "from_past C (engine_start blocks disk) en rc" "snapshot_blob C rc = Inr blob"
    unfolding served_ok_def by force
  then obtain en0 where en0: "en_run C (engine_start blocks disk) en0" "en_run C en0 en"
    "encoding C (verified_winners C (rc_bucket rc) en0) rc" by (auto simp: from_past_def encoded_from_def)
  let ?ws = "verified_winners C (rc_bucket rc) en0"
  from blob_restores [OF assms(1-3) en0(3) rc(2)] have dec: "restore_decode C blob = Inr (map lower_bundle (sort_winners ?ws))" .
  from restore_recovers(1) [OF assms(6-8) this refl] have
    "\<forall>b \<in> set ?ws. is_valid (eg_verifyOffline C (lower_bundle b)) \<longrightarrow>
       retained C (restoreSnapshot C now (Inr ()) heads puts new) (lower_bundle b)"
    by (auto simp: sort_winners_def intro!: recovered_retained)
  moreover have "\<forall>b \<in> set ?ws. held_verified en0 b" using winner_verified [OF inv_reachable [OF en0(1)]] by blast
  ultimately show ?thesis using en0(1,2) dec blob_holds [OF assms(1) en0(3) rc(2)] by blast
qed

lemma signed_offline: "is_valid (eg_verifyOffline sample_engine signed_bundle)"
  by (simp add: sample_engine_def)

text \<open>The vote of the sample, written by one engine, is held by the next one or waits for its retry.\<close>

theorem snapshot_survives_restart_witness:
  "retained sample_engine (restoreSnapshot sample_engine 9 (Inr ()) (\<lambda>_. Inr 7) (\<lambda>_. Inr ()) run_restarted) signed_bundle"
proof -
  have low: "lower_bundle signed_bundle = signed_bundle" by (simp add: lower_bundle_def signed_bundle_def quiet_bundle_def sample_bundle_def)
  obtain ws where ws: "restore_decode sample_engine signed_snapshot = Inr (map lower_bundle (sort_winners ws))"
    "\<forall>b \<in> set ws. is_valid (eg_verifyOffline sample_engine (lower_bundle b)) \<longrightarrow>
       retained sample_engine (restoreSnapshot sample_engine 9 (Inr ()) (\<lambda>_. Inr 7) (\<lambda>_. Inr ()) run_restarted) (lower_bundle b)"
    using snapshot_survives_restart [of sample_engine, unfolded sample_engine_lib, OF sample_cbor_laws sample_b58_laws
      sample_cid_inj sample_run_written run_written_fields(8) sample_run_restarted, of 9 "\<lambda>_. Inr 7" "\<lambda>_. Inr ()"] by blast
  from ws(1) signed_restores obtain b where "b \<in> set (sort_winners ws)" "lower_bundle b = signed_bundle" by auto
  then have "b \<in> set ws" "lower_bundle b = signed_bundle" by (simp_all add: sort_winners_def)
  with ws(2) signed_offline show ?thesis by metis
qed

section \<open>What a publication hears\<close>

text \<open>C19: One verdict for a publication. However its vote is admitted, settled, evicted, pruned or signed
  again, a publication is told at most once that its vote was verified or evicted, and at most once
  that a peer serves it; and one that still waits for either has not been told yet.\<close>

theorem one_verdict_per_publication:
  assumes "en_run C (engine_start blocks disk) en"
  shows "verdicts t en \<le> 1 \<and> news t en \<le> 1 \<and>
    (jget (en_ownVerifiedCbs en) c = Some t \<longrightarrow> verdicts t en = 0) \<and>
    (jget (en_ownCheckpointCbs en) c = Some t \<longrightarrow> news t en = 0)"
proof -
  from inv_reachable [OF assms] have inv: "tokens_ok en" "en_ownVerifiedCbs en = en_ownEvictionCbs en"
    by (simp_all add: engine_inv_def sets_ok_def)
  then show ?thesis unfolding tokens_ok_def one_each_def by metis
qed

theorem one_verdict_per_publication_witness:
  "verdicts 1 run_credited = 1 \<and> news 1 run_credited = 1"
proof -
  have "NotifyVerified (Suc 0) signed_cid \<in> set (en_calls run_credited)"
    by (simp add: run_credited_def notePeerRoot_def attributeRoot_def run_written_fields lru_put_def PEER_ROOTS_MAX_def
      noteCheckpointContents_def indexRootContents_def sadd_def credit_at_def creditPeer_def creditKey_def Let_def notify_def
      call_def DECODED_ROOTS_MAX_def onStateChanged_def markStateChanged_def scheduleSnapshotWrite_def kickTallyRefresh_def)
  then have "filter (verdict_for (Suc 0)) (en_calls run_credited) \<noteq> []" "filter (news_for (Suc 0)) (en_calls run_credited) \<noteq> []"
    using run_credited_fields(2) by (metis filter_empty_conv verdict_for.simps(2), metis filter_empty_conv news_for.simps(1))
  with one_verdict_per_publication [OF sample_run_credited, of 1] show ?thesis
    by (simp add: verdicts_def news_def le_Suc_eq)
qed

text \<open>The engine's tables agree and are bounded. Checks are on record for exactly the bundles the
  CRDT holds; a publication waits for a verdict only on an own bundle that is held; credits are kept
  only for own votes; and what peers advertise and what roots contain stay within their caps.\<close>

theorem engine_tables_sound:
  assumes "en_run C (engine_start blocks disk) en"
  shows "set (jkeys (en_checks en)) = set (jkeys (bundles (en_crdt en))) \<and>
    set (jkeys (en_ownVerifiedCbs en)) \<subseteq> set (jkeys (en_ownPublishes en)) \<and>
    set (jkeys (en_ownPublishes en)) \<subseteq> set (jkeys (bundles (en_crdt en))) \<and>
    set (jkeys (en_ownCheckpointPeers en)) \<subseteq> set (en_ownCids en) \<and>
    length (en_peerRoots en) \<le> PEER_ROOTS_MAX \<and> length (en_decodedRoots en) \<le> DECODED_ROOTS_MAX"
proof -
  from inv_reachable [OF assms] have inv: "sets_ok en" "peers_ok en" "caps_ok en" by (simp_all add: engine_inv_def)
  have "k \<in> set (en_ownCids en)" if "k \<in> set (jkeys (en_ownCheckpointPeers en))" for k
  proof -
    from that obtain ps where "jget (en_ownCheckpointPeers en) k = Some ps"
      by (metis map_of_eq_None_iff not_None_eq set_map)
    with inv(2) show ?thesis by (simp add: peers_ok_def)
  qed
  with inv show ?thesis unfolding sets_ok_def caps_ok_def keyset_def by auto
qed

theorem engine_tables_sound_witness:
  "set (jkeys (bundles (en_crdt run_written))) = {signed_cid} \<and> length (en_peerRoots run_written) \<le> 256"
  using engine_tables_sound [OF sample_run_written] by (simp add: run_written_fields run_settled_fields PEER_ROOTS_MAX_def)

text \<open>C26: Credit is earned. A peer counted as serving one of our votes has, at some earlier moment, had
  as its latest advertised root one whose known contents named that vote.\<close>

theorem peer_credit_is_earned:
  assumes "en_run C (engine_start blocks disk) en" "p \<in> set (checkpointPeersFor c en)"
  shows "\<exists>en0. en_run C (engine_start blocks disk) en0 \<and> en_run C en0 en \<and> advertises en0 p c"
  using credits_reachable [OF assms(1)] assms(2) by (cases "jget (en_ownCheckpointPeers en) c") (simp_all add: checkpointPeersFor_def credited_def)

theorem peer_credit_is_earned_witness:
  "\<exists>en0. en_run sample_engine (engine_start [] None) en0 \<and> advertises en0 ''p'' signed_cid"
proof -
  have "''p'' \<in> set (checkpointPeersFor signed_cid run_credited)"
    using run_credited_fields(1) by (auto simp: checkpointPeersFor_def credited_def)
  from peer_credit_is_earned [OF sample_run_credited this] show ?thesis by blast
qed

section \<open>A record that fails to encode\<close>

lemma record_bucket_spec:
  "record_bucket C now head en = (en1, r) \<Longrightarrow> en_rootRecordCache en1 = en_rootRecordCache en \<and>
     en_crdt en1 = en_crdt en \<and> en_checks en1 = en_checks en"
  by (auto simp: record_bucket_def refreshBucket_def Let_def split: if_splits sum.splits)

text \<open>C40: A failed encoding hides the change that caused it. The dirty flag is consumed before the
  checkpoint is encoded; when the encoding or a block write then fails, the next call in the same
  bucket answers with the old record, whatever the winners are by now.\<close>

theorem stale_record_after_failure:
  assumes "rootRecord C now head put en = (en', Inl e)" "en_rootRecordCache en = Some rc"
    and "record_bucket C now head en = (en1, Inr (rc_bucket rc))"
  shows "snd (rootRecord C now head put' en') = Inr (rc_record rc) \<and> \<not> en_checkpointDirty en' \<and>
    en_crdt en' = en_crdt en \<and> en_checks en' = en_checks en"
proof -
  let ?b = "rc_bucket rc"
  from record_bucket_spec [OF assms(3)] assms(2)
  have one: "en_rootRecordCache en1 = Some rc" "en_crdt en1 = en_crdt en" "en_checks en1 = en_checks en" by simp_all
  with assms(1,3) have failed: "en_checkpointDirty en1"
    "record_finish C put ?b (verified_winners C ?b en1) (en1\<lparr>en_checkpointDirty := False\<rparr>) = (en', Inl e)"
    by (auto simp: rootRecord_def record_begin_def split: if_splits)
  then have two: "en_rootRecordCache en' = Some rc" "\<not> en_checkpointDirty en'" "en_crdt en' = en_crdt en" "en_checks en' = en_checks en"
    "en_currentBucket en' = en_currentBucket en1"
    using one by (auto simp: record_finish_def split: sum.splits prod.splits)
  then have "\<exists>en2. record_bucket C now head en' = (en2, Inr ?b) \<and> en_rootRecordCache en2 = Some rc \<and> \<not> en_checkpointDirty en2"
    using assms(3) by (auto simp: record_bucket_def refreshBucket_def Let_def split: if_splits sum.splits)
  then obtain en2 where "record_bucket C now head en' = (en2, Inr ?b)" "en_rootRecordCache en2 = Some rc" "\<not> en_checkpointDirty en2"
    by blast
  then have "snd (rootRecord C now head put' en') = Inr (rc_record rc)" by (simp add: rootRecord_def record_begin_def)
  with two show ?thesis by blast
qed

text \<open>The vote is evicted, and the block store is full when the next record is built: peers are still
  given the record that counts the vote.\<close>

theorem stale_record_after_failure_witness:
  "\<exists>en'. rootRecord sample_engine 6 (Inr 7) (\<lambda>_. Inl (PlainError ''full'')) (evictBundle signed_cid (Invalid Reject (NotAdmitted ''gate'') None) run_written) = (en', Inl (PlainError ''full'')) \<and>
     snd (rootRecord sample_engine 6 (Inr 7) (\<lambda>_. Inr ()) en') = Inr (rc_record signed_cache) \<and>
     rr_count (rc_record signed_cache) = 1 \<and> verified_winners sample_engine 0 en' = []"
proof -
  let ?e = "evictBundle signed_cid (Invalid Reject (NotAdmitted ''gate'') None) run_written"
  have "en_currentBucket ?e = en_currentBucket run_written"
    by (simp add: evictBundle_def Let_def onStateChanged_def markStateChanged_def scheduleSnapshotWrite_def kickTallyRefresh_def
        call_def notify_def forgetOwnBundle_def dropOwnTracking_def split: option.splits)
  moreover have "en_crdt ?e = crdt_remove signed_cid (en_crdt run_written)" "en_checks ?e = jdel signed_cid (en_checks run_written)"
    by (simp_all add: evictBundle_def Let_def notify_def forgetOwnBundle_def dropOwnTracking_def split: option.splits)
  moreover have "en_rootRecordCache ?e = Some signed_cache"
    using serving_fields(1) [OF silent_evict, of signed_cid _ run_written] run_written_fields(4) by simp
  ultimately have e: "en_rootRecordCache ?e = Some signed_cache" "en_crdt ?e = \<lparr>bundles = []\<rparr>" "en_currentBucket ?e = 0"
    by (simp_all add: run_written_fields run_signed_fields crdt_remove_def)
  have dirty: "en_checkpointDirty ?e" by (simp add: evictBundle_def Let_def)
  have bucket: "rc_bucket signed_cache = 0" "rr_count (rc_record signed_cache) = 1"
    using signed_checkpoint [of DEFAULT_MAX_CHUNK_BYTES] by (auto simp: signed_cache_def record_of_def)
  have rb: "record_bucket sample_engine 6 (Inr 7) ?e = (?e, Inr (rc_bucket signed_cache))"
    by (simp add: record_bucket_def nodeCount_def e bucket)
  have none: "verified_winners sample_engine 0 x = []" if "en_crdt x = \<lparr>bundles = []\<rparr>" for x
    using that by (simp add: verified_winners_def currentEntries_def winnersByWallet_def)
  obtain enc where enc: "encodeCheckpoint sample_lib [] DEFAULT_MAX_CHUNK_BYTES = Inr enc" "ec_blocks enc \<noteq> []"
    by (auto simp: encodeCheckpoint_def sort_winners_def Let_def)
  have "\<exists>en'. rootRecord sample_engine 6 (Inr 7) (\<lambda>_. Inl (PlainError ''full'')) ?e = (en', Inl (PlainError ''full''))"
    using enc none [OF e(2)]
    by (cases "ec_blocks enc") (simp_all add: rootRecord_def record_begin_def rb e(1) dirty bucket record_finish_def sample_engine_lib)
  then obtain en' where en': "rootRecord sample_engine 6 (Inr 7) (\<lambda>_. Inl (PlainError ''full'')) ?e = (en', Inl (PlainError ''full''))" ..
  from stale_record_after_failure [OF en' e(1) rb, of "\<lambda>_. Inr ()"] none [of en'] e(2) bucket en' show ?thesis by simp
qed

end
