(* ===== verification/Engine_Voice.thy ===== *)
theory Engine_Voice
  imports Engine_Credit
begin

text \<open>
  What the engine tells others: which operations call a publication's callbacks or notify the voter
  of a join or leave, and that what they tell is so at that moment.
\<close>

fun loud :: "engine_call \<Rightarrow> bool" where
  "loud (NotifyEvicted t b v) = True"
| "loud (NotifyVerified t c) = True"
| "loud (NotifyCheckpointed t c) = True"
| "loud TopicJoined = True"
| "loud TopicLeft = True"
| "loud _ = False"

definition voice :: "engine \<Rightarrow> bool \<times> bool \<times> engine_call list" where
  "voice en = (en_joined en, en_destroyed en, filter loud (en_calls en))"

named_theorems mute "operations that keep the flags and make no loud call"

lemma mute_call [mute]: "\<not> loud c \<Longrightarrow> voice (call c en) = voice en"
  by (simp add: voice_def call_def)

lemma mute_changed [mute]:
  "voice (scheduleSnapshotWrite en) = voice en" "voice (markStateChanged en) = voice en"
  "voice (kickTallyRefresh en) = voice en" "voice (onStateChanged en) = voice en"
  by (simp_all add: voice_def scheduleSnapshotWrite_def markStateChanged_def kickTallyRefresh_def onStateChanged_def
      call_def Let_def)

lemma mute_own [mute]:
  "voice (recordChecks cid b s n en) = voice en" "voice (dropOwnTracking k en) = voice en"
  "voice (forgetOwnBundle k en) = voice en" "voice (trackOwnBundle k en) = voice en"
  by (simp_all add: voice_def recordChecks_def dropOwnTracking_def forgetOwnBundle_def trackOwnBundle_def Let_def)

lemma mute_refresh: "voice (fst (refreshBucket C now head maxAge en)) = voice en"
  by (simp add: refreshBucket_def voice_def Let_def split: sum.splits)

lemma mute_dates: "voice (fst (isEvaluableNow C now head b en)) = voice en"
proof -
  have "voice (fst (nowBucket C now head en)) = voice en" by (simp add: nowBucket_def mute_refresh)
  then show ?thesis by (auto simp: isEvaluableNow_def Let_def split: prod.splits)
qed

lemma mute_prune: "voice (fst (pruneDecayed C en)) = voice en"
proof -
  obtain s removed where p: "prune lwwResolve (bucketForBlock (eg_bucketMath C)) (eg_voteExpiryBuckets C) (isPending en)
      (en_currentBucket en) (en_crdt en) = (s, removed)" by fastforce
  have "voice (prune_one k e) = voice e" for k e
    by (simp add: prune_one_def mute) (simp add: voice_def)
  then have "voice (fold prune_one removed e) = voice e" for e by (induction removed arbitrary: e) auto
  then have "voice (fold prune_one removed (en\<lparr>en_crdt := s\<rparr>)) = voice (en\<lparr>en_crdt := s\<rparr>)" .
  then show ?thesis by (simp add: pruneDecayed_def p prune_one_def [abs_def]) (simp add: voice_def)
qed

lemma mute_tick: "voice (fst (prune_on_tick C now head en)) = voice en"
proof -
  obtain en1 r where r: "refreshBucket C now head True en = (en1, r)" by fastforce
  obtain en2 n where n: "pruneDecayed C en1 = (en2, n)" by fastforce
  have "voice en1 = voice en" "voice en2 = voice en1"
    using mute_refresh [of C now head True en] mute_prune [of C en1] r n by simp_all
  then show ?thesis by (simp add: prune_on_tick_def r n mute split: sum.splits)
qed

lemma mute_tally: "voice (fst (computeTally C now head head' block_at en)) = voice en"
proof -
  obtain en1 r where r: "refreshBucket C now head False en = (en1, r)" by fastforce
  then have "voice en1 = voice en" using mute_refresh [of C now head False en] by simp
  then show ?thesis by (simp add: computeTally_def r mute_prune split: sum.splits)
qed

lemma mute_emit: "voice (computeAndEmit C now head head' block_at en) = voice en"
proof -
  obtain en1 r where r: "computeTally C now head head' block_at (en\<lparr>en_tallyDirty := False\<rparr>) = (en1, r)" by fastforce
  have "voice (en\<lparr>en_tallyDirty := False\<rparr>) = voice en" "voice (en1\<lparr>en_cachedTally := t\<rparr>) = voice en1" for t
    by (simp_all add: voice_def)
  moreover from r have "voice en1 = voice (en\<lparr>en_tallyDirty := False\<rparr>)"
    using mute_tally [of C now head head' block_at "en\<lparr>en_tallyDirty := False\<rparr>"] by simp
  ultimately show ?thesis by (simp add: computeAndEmit_def r mute split: sum.splits)
qed

lemma mute_round: "voice (tally_round C now head head' block_at en) = voice en"
proof -
  have "voice (e\<lparr>en_tallyRefreshing := False\<rparr>) = voice e" for e by (simp add: voice_def)
  then show ?thesis by (simp add: tally_round_def Let_def mute_emit)
qed

lemma mute_finish_join: "voice (fst (join_finish C now head en)) = voice en"
proof -
  obtain en1 r where r: "refreshBucket C now head False en = (en1, r)" by fastforce
  then have "voice en1 = voice en" using mute_refresh [of C now head False en] by simp
  then show ?thesis by (simp add: join_finish_def r mute_prune split: sum.splits)
qed

lemma mute_admit: "voice (fst (admit_block C put got cid bs b verified en)) = voice en"
  by (simp add: admit_block_def Let_def mute split: sum.splits prod.splits del: merge.simps) (simp add: voice_def)

lemma mute_admits:
  "voice (fst (gate_admit C put got cid bs b en)) = voice en"
  "voice (fst (chase_admit C put got cid bs b verified en)) = voice en"
  using mute_admit [of C put got cid bs b] by (auto simp: gate_admit_def chase_admit_def mute split: prod.splits sum.splits)
    (metis fst_conv)+

lemma mute_add: "engine_add C put b en = Inr (en', cid) \<Longrightarrow> voice en' = voice en"
  by (auto simp: engine_add_def res_simps voice_def)

lemma mute_sign: "voice (fst (signVote C head sign address put votes namesSettled token en)) = voice en"
proof -
  have bucket: "voice (en\<lparr>en_currentBucket := k\<rparr>) = voice en" for k by (simp add: voice_def)
  have track: "voice (track_signed cid b namesSettled token e) = voice e" for cid b e
  proof -
    have "voice (e\<lparr>en_ownPublishes := x, en_ownCids := y\<rparr>) = voice e"
      "voice (e\<lparr>en_ownEvictionCbs := x', en_ownVerifiedCbs := y', en_ownCheckpointCbs := z'\<rparr>) = voice e"
      for e x y x' y' z' by (simp_all add: voice_def)
    then show ?thesis by (simp add: track_signed_def Let_def mute split: option.splits)
  qed
  show ?thesis
    using mute_add [of C put _ "en\<lparr>en_currentBucket := _\<rparr>"] bucket track
    by (auto simp: signVote_def Let_def res_simps split: sum.splits)
qed

lemma mute_restore_one: "voice (fst (restore_one C now head put b en)) = voice en"
proof -
  obtain en1 r where r: "isEvaluableNow C now head b en = (en1, r)" by fastforce
  then have "voice en1 = voice en" using mute_dates [of C now head b en] by simp
  with mute_add [of C put b en1] show ?thesis
    by (auto simp: restore_one_def r Let_def mute split: sum.splits bool.splits)
qed

lemma mute_restore_each: "voice (fst (restore_each C now heads puts bs en pending backlog)) = voice en"
proof (induction bs arbitrary: en pending backlog)
  case (Cons b bs)
  obtain en1 r where r: "restore_one C now (heads b) (puts b) b en = (en1, r)" by fastforce
  then have "voice en1 = voice en" using mute_restore_one [of C now "heads b" "puts b" b en] by simp
  with Cons r show ?case by (cases r) simp_all
qed simp

lemma mute_arm [mute]: "voice (armRestoreRetry en) = voice en"
  by (simp add: armRestoreRetry_def voice_def)

lemma mute_restored: "voice (admitRestored C now heads puts winners en) = voice en"
proof -
  obtain en1 pending backlog where r: "restore_each C now heads puts winners en [] [] = (en1, pending, backlog)"
    by (metis prod_cases3)
  then have e1: "voice en1 = voice en" using mute_restore_each [of C now heads puts winners en "[]" "[]"] by simp
  have "voice (e\<lparr>en_restoreBacklog := x\<rparr>) = voice e" for e x by (simp add: voice_def)
  with e1 show ?thesis by (simp add: admitRestored_def r Let_def mute)
qed

lemma mute_restores:
  "voice (restoreSnapshot C now stored heads puts en) = voice en"
  "voice (restore_timer_fires C now heads puts en) = voice en"
proof -
  have f: "voice (e\<lparr>en_restoreAttempts := x\<rparr>) = voice e" "voice (e\<lparr>en_disk := y\<rparr>) = voice e"
    "voice (e\<lparr>en_restoreTimer := z\<rparr>) = voice e" for e x y z by (simp_all add: voice_def)
  show "voice (restoreSnapshot C now stored heads puts en) = voice en"
    "voice (restore_timer_fires C now heads puts en) = voice en"
    by (simp_all add: restoreSnapshot_def restore_timer_fires_def Let_def mute mute_restored f
        split: sum.splits option.splits)
qed

lemma mute_chase: "voice (chase root chunks known connections en) = voice en"
  by (simp add: chase_def mute)

lemma mute_fields:
  "voice (en\<lparr>en_blocks := x1\<rparr>) = voice en" "voice (en\<lparr>en_updateListeners := x2\<rparr>) = voice en"
  "voice (en\<lparr>en_encodes := x3\<rparr>) = voice en" "voice (en\<lparr>en_snapshotTimer := x4\<rparr>) = voice en"
  "voice (en\<lparr>en_heartbeat := x5\<rparr>) = voice en" "voice (en\<lparr>en_checkpointDirty := x6\<rparr>) = voice en"
  "voice (en\<lparr>en_heardMatchingRoot := x7\<rparr>) = voice en" "voice (en\<lparr>en_publishedRoot := x8\<rparr>) = voice en"
  "voice (en\<lparr>en_disk := x9\<rparr>) = voice en" "voice (en\<lparr>en_snapshotWriteFailures := x10\<rparr>) = voice en"
  "voice (en\<lparr>en_rootRecordCache := x11\<rparr>) = voice en" "voice (en\<lparr>en_transport := x12\<rparr>) = voice en"
  "voice (en\<lparr>en_peerRoots := x13\<rparr>) = voice en" "voice (en\<lparr>en_decodedRoots := x14\<rparr>) = voice en"
  "voice (en\<lparr>en_checks := x15\<rparr>) = voice en"
  "voice (en\<lparr>en_ownCheckpointPeers := x17\<rparr>) = voice en" "voice (en\<lparr>en_ownCheckpointCbs := x18\<rparr>) = voice en"
  "voice (en\<lparr>en_chaser := x19\<rparr>) = voice en" "voice (en\<lparr>en_crdt := x20\<rparr>) = voice en" "voice (en\<lparr>en_ownCids := x21\<rparr>) = voice en"
  by (simp_all add: voice_def)

lemma mute_record_bucket: "voice (fst (record_bucket C now head en)) = voice en"
  by (simp add: record_bucket_def mute_refresh)

lemma mute_begin: "voice (fst (record_begin C now head en)) = voice en"
proof -
  obtain en1 r where r: "record_bucket C now head en = (en1, r)" by fastforce
  then have "voice en1 = voice en" using mute_record_bucket [of C now head en] by simp
  then show ?thesis by (simp add: record_begin_def r mute_fields split: sum.splits option.splits)
qed

lemma mute_finish: "voice (fst (record_finish C put bucket ws en)) = voice en"
  by (simp add: record_finish_def voice_def split: sum.splits prod.splits)

lemma mute_record: "voice (fst (rootRecord C now head put en)) = voice en"
proof -
  obtain en1 r where b: "record_begin C now head en = (en1, r)" by fastforce
  then have "voice en1 = voice en" using mute_begin [of C now head en] by simp
  then show ?thesis by (simp add: rootRecord_def b mute_finish split: sum.splits record_begun.splits)
qed

lemma mute_recordD: "rootRecord C now head put en = (en', r) \<Longrightarrow> voice en' = voice en"
  using mute_record [of C now head put en] by simp

lemma mute_served: "voice (fst (rootRecordWithBlocks C now head put en)) = voice en"
proof -
  obtain en1 r where r: "rootRecord C now head put en = (en1, r)" by fastforce
  with mute_recordD [OF r] show ?thesis by (simp add: rootRecordWithBlocks_def split: sum.splits)
qed

lemma mute_write: "voice (writeSnapshot C now head put stored retry en) = voice en"
proof -
  obtain en1 r where r: "rootRecord C now head put en = (en1, r)" by fastforce
  note r1 = mute_recordD [OF r]
  have "voice (write_failed C retry e) = voice e" for e by (simp add: write_failed_def Let_def mute mute_fields)
  with r1 show ?thesis by (simp add: writeSnapshot_def r mute mute_fields split: sum.splits option.splits)
qed

lemma mute_beat: "voice (beat_publish C now head put pruned en) = voice en"
proof -
  let ?en = "en\<lparr>en_heardMatchingRoot := False, en_publishedRoot := False\<rparr>"
  obtain en2 r where r: "rootRecord C now head put ?en = (en2, r)" by fastforce
  with mute_recordD [OF r] show ?thesis
    by (simp add: beat_publish_def r Let_def publish_root_def mute mute_fields split: sum.splits)
qed

lemma mute_lifecycle:
  "voice (fst (join_begin en)) = voice en"
  "voice (fst (broadcastBundle sent encoded en)) = voice en"
  "voice (snapshot_timer_fires C now head put stored en) = voice en" "voice (leave_begin C now head put stored en) = voice en"
  by (simp_all add: join_begin_def broadcastBundle_def mute mute_fields snapshot_timer_fires_def leave_begin_def
      mute_write Let_def)

section \<open>The operations that tell\<close>

fun truthful :: "engine \<Rightarrow> engine_call \<Rightarrow> bool" where
  "truthful en (NotifyVerified t c) = isFullyVerified en c"
| "truthful en (NotifyCheckpointed t c) = (\<exists>p. credited en c p)"
| "truthful en _ = True"

text \<open>The callback a call goes through.\<close>

fun registered :: "engine \<Rightarrow> engine_call \<Rightarrow> bool" where
  "registered en (NotifyVerified t c) = (jget (en_ownVerifiedCbs en) c = Some t)"
| "registered en (NotifyCheckpointed t c) = (jget (en_ownCheckpointCbs en) c = Some t)"
| "registered en (NotifyEvicted t b v) = (\<exists>c. jget (en_ownEvictionCbs en) c = Some t)"
| "registered en _ = True"

definition tells :: "engine \<Rightarrow> engine \<Rightarrow> engine_call list \<Rightarrow> bool" where
  "tells en en' cs \<longleftrightarrow> en_joined en' = en_joined en \<and> en_destroyed en' = en_destroyed en \<and> filter loud (en_calls en') = filter loud (en_calls en) @ cs \<and> (\<forall>c \<in> set cs. truthful en' c \<and> registered en c)"

lemma tells_mute: "voice en' = voice en \<Longrightarrow> tells en en' []"
  by (simp add: tells_def voice_def)

lemma tells_then:
  assumes "tells en en1 cs" "voice en2 = voice en1" "en_checks en2 = en_checks en1"
    "en_ownCheckpointPeers en2 = en_ownCheckpointPeers en1"
  shows "tells en en2 cs"
proof -
  have "credited en2 = credited en1" using assms(4) by (intro ext) (simp add: credited_def)
  then have "truthful en2 c = truthful en1 c" for c
    using assms(3) by (cases c) (simp_all add: isFullyVerified_def)
  with assms(1,2) show ?thesis by (simp add: tells_def voice_def)
qed

lemma tells_settle: "\<exists>cs. tells en (settleCheck cid key en) cs \<and> (\<forall>c \<in> set cs. \<exists>t. c = NotifyVerified t cid)"
proof (cases "jget (en_checks en) cid")
  case (Some checks)
  let ?en = "en\<lparr>en_checks := jset cid (set_check key checks) (en_checks en)\<rparr>"
  let ?n = "notify (\<lambda>t. NotifyVerified t cid) (jget (en_ownVerifiedCbs ?en) cid) ?en"
  show ?thesis
  proof (cases "isFullyVerified ?en cid")
    case True
    have "tells en ?n (case jget (en_ownVerifiedCbs en) cid of None \<Rightarrow> [] | Some t \<Rightarrow> [NotifyVerified t cid])"
      using True by (auto simp: tells_def notify_def call_def isFullyVerified_def split: option.splits)
    then have "tells en (onStateChanged (dropOwnTracking cid ?n)) (case jget (en_ownVerifiedCbs en) cid of None \<Rightarrow> [] | Some t \<Rightarrow> [NotifyVerified t cid])"
      by (rule tells_then) (simp_all add: mute dropOwnTracking_def mute_fields, simp add: voice_def)
    moreover have "settleCheck cid key en = onStateChanged (dropOwnTracking cid ?n)"
      using Some True by (simp add: settleCheck_def Let_def)
    ultimately show ?thesis by (auto split: option.splits intro!: exI)
  next
    case False
    then have "voice (settleCheck cid key en) = voice en" using Some by (simp add: settleCheck_def Let_def mute mute_fields)
    then show ?thesis using tells_mute by fastforce
  qed
qed (auto simp: settleCheck_def intro: tells_mute)


lemma evict_view:
  "en_ownEvictionCbs (forgetOwnBundle k en) = jdel k (en_ownEvictionCbs en)"
  by (simp add: forgetOwnBundle_def dropOwnTracking_def Let_def)

lemma tells_evict: "\<exists>cs. tells en (evictBundle cid verdict en) cs \<and> (\<forall>c \<in> set cs. \<exists>t b. c = NotifyEvicted t b verdict)"
proof -
  let ?en = "en\<lparr>en_crdt := crdt_remove cid (en_crdt en), en_checks := jdel cid (en_checks en),
                   en_ownCids := removeAll cid (en_ownCids en),
                   en_ownCheckpointPeers := jdel cid (en_ownCheckpointPeers en)\<rparr>"
  have e: "voice ?en = voice en" by (simp add: voice_def)
  show ?thesis
  proof (cases "jget (en_ownPublishes en) cid")
    case None
    then have "voice (evictBundle cid verdict en) = voice en" using e by (simp add: evictBundle_def Let_def mute)
    then show ?thesis using tells_mute by fastforce
  next
    case (Some own)
    let ?n = "notify (\<lambda>t. NotifyEvicted t own verdict) (jget (en_ownEvictionCbs en) cid) (forgetOwnBundle cid ?en)"
    have "voice (forgetOwnBundle cid ?en) = voice en" using e by (simp add: mute)
    then have "tells en ?n (case jget (en_ownEvictionCbs en) cid of None \<Rightarrow> [] | Some t \<Rightarrow> [NotifyEvicted t own verdict])"
      by (auto simp: tells_def notify_def call_def voice_def split: option.splits)
    moreover have "evictBundle cid verdict en = onStateChanged (call (EmitEvicted own verdict) ?n)"
      using Some by (simp add: evictBundle_def Let_def)
    moreover have "voice (onStateChanged (call (EmitEvicted own verdict) ?n)) = voice ?n" by (simp add: mute)
    moreover have "en_checks (onStateChanged (call (EmitEvicted own verdict) ?n)) = en_checks ?n"
      "en_ownCheckpointPeers (onStateChanged (call (EmitEvicted own verdict) ?n)) = en_ownCheckpointPeers ?n"
      by (simp_all add: call_def)
    ultimately have "tells en (evictBundle cid verdict en) (case jget (en_ownEvictionCbs en) cid of None \<Rightarrow> [] | Some t \<Rightarrow> [NotifyEvicted t own verdict])"
      using tells_then by metis
    then show ?thesis by (auto split: option.splits intro!: exI)
  qed
qed

definition only_credit :: "engine_call list \<Rightarrow> bool" where
  "only_credit cs \<longleftrightarrow> (\<forall>c \<in> set cs. \<exists>t k. c = NotifyCheckpointed t k)"

lemma tells_key:
  "\<exists>cs. tells (fst st) (fst (creditKey p k st)) cs \<and> only_credit cs \<and> (\<forall>c q. credited (fst st) c q \<longrightarrow> credited (fst (creditKey p k st)) c q)"
proof -
  obtain en added where st: "st = (en, added)" by fastforce
  define peers where "peers = (case jget (en_ownCheckpointPeers en) k of None \<Rightarrow> [] | Some ps \<Rightarrow> ps)"
  let ?en = "en\<lparr>en_ownCheckpointPeers := jset k (peers @ [p]) (en_ownCheckpointPeers en)\<rparr>"
  let ?n = "notify (\<lambda>t. NotifyCheckpointed t k) (jget (en_ownCheckpointCbs en) k) ?en"
  let ?f = "?n\<lparr>en_ownCheckpointCbs := jdel k (en_ownCheckpointCbs ?en)\<rparr>"
  have kept: "credited en c q \<Longrightarrow> credited ?en c q" for c q by (auto simp: credited_def jsmap_simps peers_def)
  have key: "fst (creditKey p k st) =
      (if k \<notin> set (en_ownCids en) \<or> p \<in> set peers then en else if peers = [] then ?f else ?en)"
    by (simp add: st creditKey_def Let_def peers_def [symmetric])
  have same: "tells en en []" by (simp add: tells_def)
  consider "k \<notin> set (en_ownCids en) \<or> p \<in> set peers" | "k \<in> set (en_ownCids en)" "p \<notin> set peers" "peers \<noteq> []"
    | "k \<in> set (en_ownCids en)" "peers = []" by blast
  then show ?thesis
  proof cases
    case 1
    then have "fst (creditKey p k st) = en" by (auto simp: key)
    with same show ?thesis by (auto simp: st only_credit_def intro!: exI [of _ "[]"])
  next
    case 2
    then have "fst (creditKey p k st) = ?en" by (simp add: key)
    moreover have "tells en ?en []" by (rule tells_mute) (simp add: mute_fields)
    ultimately show ?thesis using kept by (auto simp: st only_credit_def intro!: exI [of _ "[]"])
  next
    case 3
    have f: "fst (creditKey p k st) = ?f" using 3 by (simp add: key)
    have "credited ?f k p" by (simp add: credited_def jsmap_simps notify_def call_def split: option.splits)
    then have "tells en ?f (case jget (en_ownCheckpointCbs en) k of None \<Rightarrow> [] | Some t \<Rightarrow> [NotifyCheckpointed t k])"
      by (auto simp: tells_def notify_def call_def split: option.splits)
    moreover have "credited ?f c q" if "credited en c q" for c q
      using kept [OF that] by (simp add: credited_def notify_def call_def split: option.splits)
    ultimately show ?thesis unfolding f by (auto simp: st only_credit_def split: option.splits intro!: exI)
  qed
qed

text \<open>Steps that only add credits compose.\<close>

definition credits_told :: "engine \<Rightarrow> engine \<Rightarrow> bool" where
  "credits_told en en' \<longleftrightarrow>
     (\<exists>cs. tells en en' cs \<and> only_credit cs) \<and> (\<forall>c q. credited en c q \<longrightarrow> credited en' c q) \<and>
     (\<forall>c t. jget (en_ownCheckpointCbs en') c = Some t \<longrightarrow> jget (en_ownCheckpointCbs en) c = Some t)"

lemma told_trans:
  assumes "credits_told a b" "credits_told b c"
  shows "credits_told a c"
proof -
  from assms obtain cs ds where cs: "tells a b cs" "only_credit cs" and ds: "tells b c ds" "only_credit ds"
    by (auto simp: credits_told_def)
  have kept: "\<exists>q. credited c k q" if "\<exists>q. credited b k q" for k
    using that assms(2) by (auto simp: credits_told_def)
  have "truthful c x" if "x \<in> set cs" for x
  proof -
    from that cs have "truthful b x" "\<exists>t k. x = NotifyCheckpointed t k" by (auto simp: tells_def only_credit_def)
    with kept show ?thesis by auto
  qed
  moreover have "registered a x" if "x \<in> set ds" for x
  proof -
    from that ds have "registered b x" "\<exists>t k. x = NotifyCheckpointed t k" by (auto simp: tells_def only_credit_def)
    with assms(1) show ?thesis by (auto simp: credits_told_def)
  qed
  ultimately have "tells a c (cs @ ds)" "only_credit (cs @ ds)" using cs ds by (auto simp: tells_def only_credit_def)
  with assms show ?thesis unfolding credits_told_def by blast
qed

lemma told_mute:
  "voice en' = voice en \<Longrightarrow> (\<And>c q. credited en c q \<Longrightarrow> credited en' c q) \<Longrightarrow>
     en_ownCheckpointCbs en' = en_ownCheckpointCbs en \<Longrightarrow> credits_told en en'"
  unfolding credits_told_def using tells_mute by (fastforce simp: only_credit_def)

lemma told_key: "credits_told (fst st) (fst (creditKey p k st))"
proof -
  have "jget (en_ownCheckpointCbs (fst (creditKey p k st))) c = Some t \<Longrightarrow> jget (en_ownCheckpointCbs (fst st)) c = Some t" for c t
    by (auto simp: creditKey_def Let_def notify_def call_def jsmap_simps split: prod.splits if_splits option.splits)
  with tells_key [of st p k] show ?thesis unfolding credits_told_def by blast
qed

lemma told_fold:
  assumes "\<And>x st. credits_told (fst st) (fst (f x st))"
  shows "credits_told (fst st) (fst (fold f xs st))"
proof (induction xs arbitrary: st)
  case Nil
  then show ?case by (simp add: told_mute)
next
  case (Cons x xs)
  from told_trans [OF assms [of st x] Cons [of "f x st"]] show ?case by simp
qed

lemma told_peer: "credits_told en (fst (creditPeer p cids en))"
  using told_fold [of "creditKey p" "(en, False)" cids] told_key by (simp add: creditPeer_def)

lemma changed_cbs [simp]: "en_ownCheckpointCbs (onStateChanged en) = en_ownCheckpointCbs en"
  by (simp add: onStateChanged_def markStateChanged_def scheduleSnapshotWrite_def kickTallyRefresh_def call_def Let_def)

lemma told_changed: "credits_told en (onStateChanged en)"
  by (rule told_mute) (simp_all add: mute)

lemma told_attribute: "credits_told en (attributeRoot p root en)"
proof (cases "jget (en_decodedRoots en) root")
  case (Some mine)
  obtain en1 added where e: "creditPeer p mine en = (en1, added)" by fastforce
  with told_peer [of en p mine] have "credits_told en en1" by simp
  with told_trans [OF this told_changed] Some e show ?thesis by (simp add: attributeRoot_def)
qed (simp add: attributeRoot_def told_mute)

lemma told_note: "credits_told en (notePeerRoot p root en)"
  unfolding notePeerRoot_def
  by (rule told_trans [OF told_mute told_attribute]) (simp_all add: mute_fields credited_def)

lemma told_index: "credits_told en (indexRootContents root mine en)"
proof (cases "mine = []")
  case False
  let ?en = "en\<lparr>en_decodedRoots := lru_put DECODED_ROOTS_MAX root mine (en_decodedRoots en)\<rparr>"
  obtain en1 f where e: "fold (credit_at root mine) (en_peerRoots en) (?en, False) = (en1, f)" by fastforce
  have "credits_told (fst st) (fst (credit_at root mine a st))" for a st
  proof -
    obtain en2 added where c: "creditPeer (fst a) mine (fst st) = (en2, added)" by fastforce
    with told_peer [of "fst st" "fst a" mine] show ?thesis by (simp add: credit_at_def told_mute)
  qed
  from told_fold [of "credit_at root mine" "(?en, False)", OF this] e have "credits_told ?en en1" by (metis fst_conv)
  moreover have "credits_told en ?en" by (rule told_mute) (simp_all add: mute_fields credited_def)
  ultimately have "credits_told en en1" by (rule told_trans [rotated])
  with told_trans [OF this told_changed] False e show ?thesis by (simp add: indexRootContents_def Let_def)
qed (simp add: indexRootContents_def told_mute)


section \<open>Every step\<close>

fun topic_call :: "engine_call \<Rightarrow> bool" where
  "topic_call TopicJoined = True"
| "topic_call TopicLeft = True"
| "topic_call _ = False"

definition speaks :: "engine \<Rightarrow> engine \<Rightarrow> bool" where
  "speaks en en' \<longleftrightarrow> (\<exists>cs. tells en en' cs \<and> (\<forall>c \<in> set cs. \<not> topic_call c))"

lemma speaks_mute: "voice en' = voice en \<Longrightarrow> speaks en en'"
  using tells_mute by (fastforce simp: speaks_def)

lemma speaks_told: "credits_told en en' \<Longrightarrow> speaks en en'"
  by (fastforce simp: speaks_def credits_told_def only_credit_def)

lemma speaks_settle: "speaks en (settleCheck cid key en)"
  using tells_settle [of en cid key] by (fastforce simp: speaks_def)

lemma speaks_evict: "speaks en (evictBundle cid verdict en)"
  using tells_evict [of en cid verdict] by (fastforce simp: speaks_def)

lemma told_after:
  "voice en1 = voice en \<Longrightarrow> en_ownCheckpointPeers en1 = en_ownCheckpointPeers en \<Longrightarrow>
     en_ownCheckpointCbs en1 = en_ownCheckpointCbs en \<Longrightarrow> credits_told en en1"
  by (rule told_mute) (simp_all add: credited_def)

lemma told_chase: "credits_told en (chase root chunks known connections en)"
  by (rule told_after, simp add: mute_chase, simp_all add: chase_def call_def)

lemma speaks_ingests: "speaks en (fst (ingestRootRecord C now head put connections p encoded en))"
proof -
  obtain en1 r where r: "rootRecord C now head put en = (en1, r)" by fastforce
  have "en_ownCheckpointCbs en1 = en_ownCheckpointCbs en"
    using quiet_record [of en C now head put] r by (simp add: quiet_to_def tracking_def)
  note 1 = told_after [OF mute_recordD [OF r] record_peers(1) [OF r] this]
  note 2 = told_trans [OF 1 told_note]
  show ?thesis
    by (rule speaks_told)
      (auto simp: ingestRootRecord_def r Let_def told_mute split: sum.splits intro: 1 2 told_trans [OF 2 told_chase])
qed

lemma speaks_hears: "speaks en (handleRootRecord C now head put connections record None en)"
proof -
  obtain en1 r where r: "rootRecord C now head put en = (en1, r)" by fastforce
  have "en_ownCheckpointCbs en1 = en_ownCheckpointCbs en"
    using quiet_record [of en C now head put] r by (simp add: quiet_to_def tracking_def)
  note 1 = told_after [OF mute_recordD [OF r] record_peers(1) [OF r] this]
  have "credits_told en1 (en1\<lparr>en_heardMatchingRoot := True\<rparr>)" by (rule told_after) (simp_all add: mute_fields)
  note 2 = told_trans [OF told_trans [OF 1 this] told_index]
  note 3 = told_trans [OF 1 told_chase]
  have 4: "credits_told e (publish_root own (e\<lparr>en_publishedRoot := True\<rparr>))" for own e
    by (rule told_after, simp add: publish_root_def mute mute_fields, simp_all add: publish_root_def call_def)
  show ?thesis
    by (rule speaks_told)
      (auto simp: handleRootRecord_def r Let_def split: sum.splits intro: 1 2 3 told_trans [OF 3 4])
qed

lemma step_speaks:
  assumes "en_step C en en'"
  shows "speaks en en' \<or> en' = join_started en \<or> en' = fst (leave_reset en) \<or> (\<exists>wasJoined. en' = leave_end wasJoined en) \<or>
    en' = markDestroyed en"
  using assms
proof cases
  case (encode_begins now head en1 bucket ws)
  then show ?thesis using mute_begin [of C now head en] by (simp add: speaks_mute mute_fields)
next
  case (encode_ends bucket ws puts)
  then show ?thesis by (simp add: speaks_mute mute_fields mute_finish)
next
  case (decodes root cids)
  then show ?thesis by (simp add: noteCheckpointContents_def speaks_told told_index)
qed (auto simp: speaks_mute mute mute_fields mute_admits mute_sign speaks_settle speaks_evict speaks_told told_note speaks_ingests
    speaks_hears mute_served mute_dates mute_tally mute_emit mute_round mute_tick mute_beat mute_lifecycle mute_restores
    mute_finish_join)

end
