(* ===== verification/Publication.thy ===== *)
theory Publication
  imports Engine_Credit
begin

text \<open>
  One publishable ballot (class \<open>ContestVotePublication\<close> of \<open>src/client/voter.ts\<close>): the publishing
  state machine, its attempt counter, and the callbacks each attempt leaves with the engine. A call
  of \<open>publish\<close> is four steps, split at its awaits: it begins, its join ends, its signing ends, its
  broadcast ends; the verdicts of the engine arrive in between or afterwards. \<open>Publication_Runs\<close>
  composes it with the engine.
\<close>

datatype publishing_state = Stopped | Signing | Publishing | Published | VerifiedLocally | VerifiedByPeer | Failed

text \<open>What a call of \<open>publish\<close> waits for.\<close>

datatype publish_await = Joining | SigningVote | Broadcasting

datatype publish_event =
    StateChanged publishing_state
  | ErrorEvent js_error
  | EvictedEvent votes_bundle bundle_verdict
  | Resolved nat votes_bundle cid nat
  | Rejected nat js_error

record publication =
  pu_state :: publishing_state
  pu_bundle :: "votes_bundle option"
  pu_cid :: "cid option"
  pu_attempt :: nat
  pu_evicted :: bool
  pu_awaits :: "(nat, publish_await) jsmap"
  pu_events :: "publish_event list"

definition publication_start :: publication where
  "publication_start = \<lparr>pu_state = Stopped, pu_bundle = None, pu_cid = None, pu_attempt = 0, pu_evicted = False,
     pu_awaits = [], pu_events = []\<rparr>"

definition publish_emit :: "publish_event \<Rightarrow> publication \<Rightarrow> publication" where
  "publish_emit e p = p\<lparr>pu_events := pu_events p @ [e]\<rparr>"

definition isCurrent :: "nat \<Rightarrow> publication \<Rightarrow> bool" where
  "isCurrent attempt p \<longleftrightarrow> attempt = pu_attempt p"

definition setState :: "publishing_state \<Rightarrow> publication \<Rightarrow> publication" where
  "setState state p = publish_emit (StateChanged state) (p\<lparr>pu_state := state\<rparr>)"

definition fail_with :: "publish_event \<Rightarrow> publication \<Rightarrow> publication" where
  "fail_with e p = publish_emit e (setState Failed p)"

definition settle_publication :: "nat \<Rightarrow> publishing_state \<Rightarrow> publication \<Rightarrow> publication" where
  "settle_publication attempt state p =
     (if \<not> isCurrent attempt p then p
      else if pu_evicted p \<or> pu_state p = Failed \<or> pu_state p = VerifiedByPeer then p
      else if state = VerifiedLocally \<and> pu_state p = VerifiedLocally then p
      else setState state p)"

section \<open>The callbacks\<close>

definition on_verified :: "nat \<Rightarrow> publication \<Rightarrow> publication" where
  "on_verified attempt p = settle_publication attempt VerifiedLocally p"

definition on_checkpointed :: "nat \<Rightarrow> publication \<Rightarrow> publication" where
  "on_checkpointed attempt p = settle_publication attempt VerifiedByPeer p"

definition on_evicted :: "nat \<Rightarrow> votes_bundle \<Rightarrow> bundle_verdict \<Rightarrow> publication \<Rightarrow> publication" where
  "on_evicted attempt b verdict p =
     (if \<not> isCurrent attempt p then p else fail_with (EvictedEvent b verdict) (p\<lparr>pu_evicted := True\<rparr>))"

section \<open>A call of publish\<close>

definition publish_begin :: "publication \<Rightarrow> publication" where
  "publish_begin p =
     (let attempt = Suc (pu_attempt p) in
      p\<lparr>pu_attempt := attempt, pu_evicted := False, pu_awaits := jset attempt Joining (pu_awaits p)\<rparr>)"

text \<open>The \<open>catch\<close> block.\<close>

definition publish_throws :: "nat \<Rightarrow> js_error \<Rightarrow> publication \<Rightarrow> publication" where
  "publish_throws attempt e p =
     (let p' = p\<lparr>pu_awaits := jdel attempt (pu_awaits p)\<rparr>
      in publish_emit (Rejected attempt e) (if isCurrent attempt p' then fail_with (ErrorEvent e) p' else p'))"

text \<open>\<open>joined\<close> is how the name preflight and the join end.\<close>

definition publish_joined :: "nat \<Rightarrow> unit res \<Rightarrow> publication \<Rightarrow> publication" where
  "publish_joined attempt joined p =
     (case joined of
        Inl e \<Rightarrow> publish_throws attempt e p
      | Inr _ \<Rightarrow> setState Signing (p\<lparr>pu_awaits := jset attempt SigningVote (pu_awaits p)\<rparr>))"

definition publish_signed :: "nat \<Rightarrow> (votes_bundle \<times> bytes \<times> cid) res \<Rightarrow> publication \<Rightarrow> publication" where
  "publish_signed attempt sig p =
     (case sig of
        Inl e \<Rightarrow> publish_throws attempt e p
      | Inr (b, encoded, c) \<Rightarrow>
          let p' = p\<lparr>pu_bundle := Some b, pu_cid := Some c, pu_awaits := jset attempt Broadcasting (pu_awaits p)\<rparr>
          in if pu_state p' = Signing then setState Publishing p' else p')"

definition publish_sent :: "nat \<Rightarrow> nat res \<Rightarrow> votes_bundle \<Rightarrow> cid \<Rightarrow> publication \<Rightarrow> publication" where
  "publish_sent attempt sent b c p =
     (case sent of
        Inl e \<Rightarrow> publish_throws attempt e p
      | Inr recipientCount \<Rightarrow>
          let p' = p\<lparr>pu_awaits := jdel attempt (pu_awaits p)\<rparr>
          in publish_emit (Resolved attempt b c recipientCount)
               (if \<not> pu_evicted p' \<and> pu_state p' = Publishing then setState Published p' else p'))"

section \<open>Its steps\<close>

text \<open>The callbacks of an attempt exist once its signing has begun.\<close>

inductive pub_step :: "publication \<Rightarrow> publication \<Rightarrow> bool" where
  begins: "pub_step p (publish_begin p)"
| joins: "jget (pu_awaits p) a = Some Joining \<Longrightarrow> pub_step p (publish_joined a joined p)"
| signs: "jget (pu_awaits p) a = Some SigningVote \<Longrightarrow> pub_step p (publish_signed a sig p)"
| sends: "jget (pu_awaits p) a = Some Broadcasting \<Longrightarrow> pub_step p (publish_sent a sent b c p)"
| verified: "0 < a \<Longrightarrow> a \<le> pu_attempt p \<Longrightarrow> jget (pu_awaits p) a \<noteq> Some Joining \<Longrightarrow> pub_step p (on_verified a p)"
| checkpointed: "0 < a \<Longrightarrow> a \<le> pu_attempt p \<Longrightarrow> jget (pu_awaits p) a \<noteq> Some Joining \<Longrightarrow> pub_step p (on_checkpointed a p)"
| evicted: "0 < a \<Longrightarrow> a \<le> pu_attempt p \<Longrightarrow> jget (pu_awaits p) a \<noteq> Some Joining \<Longrightarrow> pub_step p (on_evicted a b verdict p)"

text \<open>An orderly caller waits for a call of \<open>publish\<close> before the next.\<close>

inductive calm_pub :: "publication \<Rightarrow> publication \<Rightarrow> bool" where
  first: "pu_awaits p = [] \<Longrightarrow> calm_pub p (publish_begin p)"
| other: "pub_step p p' \<Longrightarrow> pu_attempt p' = pu_attempt p \<Longrightarrow> calm_pub p p'"

fun rank :: "publishing_state \<Rightarrow> nat" where
  "rank Stopped = 0"
| "rank Signing = 1"
| "rank Publishing = 2"
| "rank Published = 3"
| "rank VerifiedLocally = 4"
| "rank VerifiedByPeer = 5"
| "rank Failed = 6"


section \<open>What every orderly run keeps\<close>

lemmas pub_defs = publish_emit_def setState_def fail_with_def settle_publication_def on_verified_def on_checkpointed_def
  on_evicted_def publish_begin_def publish_throws_def publish_joined_def publish_signed_def publish_sent_def isCurrent_def Let_def

text \<open>Only the current attempt is in flight, and where it waits fits the state.\<close>

fun fits :: "publish_await option \<Rightarrow> publishing_state \<Rightarrow> bool" where
  "fits None s \<longleftrightarrow> s \<notin> {Signing, Publishing}"
| "fits (Some Joining) s \<longleftrightarrow> True"
| "fits (Some SigningVote) s \<longleftrightarrow> s \<in> {Signing, VerifiedLocally, VerifiedByPeer, Failed}"
| "fits (Some Broadcasting) s \<longleftrightarrow> s \<in> {Publishing, VerifiedLocally, VerifiedByPeer, Failed}"

definition pub_ok :: "publication \<Rightarrow> bool" where
  "pub_ok p \<longleftrightarrow>
     (pu_awaits p = [] \<or> (\<exists>w. pu_awaits p = [(pu_attempt p, w)])) \<and>
     (jget (pu_awaits p) (pu_attempt p) \<noteq> Some Joining \<longrightarrow> fits (jget (pu_awaits p) (pu_attempt p)) (pu_state p)) \<and>
     (pu_evicted p \<longrightarrow> pu_state p = Failed \<and> jget (pu_awaits p) (pu_attempt p) \<noteq> Some Joining)"

lemma pub_ok_start: "pub_ok publication_start"
  by (simp add: pub_ok_def publication_start_def)


lemma pub_ok_cases:
  assumes "pub_ok p"
  obtains "pu_awaits p = []" "pu_state p \<notin> {Signing, Publishing}" "pu_evicted p \<Longrightarrow> pu_state p = Failed"
  | "pu_awaits p = [(pu_attempt p, Joining)]" "\<not> pu_evicted p"
  | "pu_awaits p = [(pu_attempt p, SigningVote)]" "pu_state p \<in> {Signing, VerifiedLocally, VerifiedByPeer, Failed}"
      "pu_evicted p \<Longrightarrow> pu_state p = Failed"
  | "pu_awaits p = [(pu_attempt p, Broadcasting)]" "pu_state p \<in> {Publishing, VerifiedLocally, VerifiedByPeer, Failed}"
      "pu_evicted p \<Longrightarrow> pu_state p = Failed"
proof (cases "pu_awaits p = []")
  case True
  with assms that(1) show thesis by (simp add: pub_ok_def)
next
  case False
  with assms obtain w where w: "pu_awaits p = [(pu_attempt p, w)]" by (auto simp: pub_ok_def)
  with assms that show thesis by (cases w) (auto simp: pub_ok_def)
qed

lemma pub_ok_step:
  assumes ok: "pub_ok p" and step: "calm_pub p p'"
  shows "pub_ok p'"
  using step
proof cases
  case first
  then show ?thesis by (simp add: pub_ok_def publish_begin_def Let_def)
next
  case other
  from other(1) show ?thesis
  proof cases
    case begins
    with other(2) show ?thesis by (simp add: publish_begin_def Let_def)
  next
    case (joins a joined)
    with ok show ?thesis
      by (cases rule: pub_ok_cases) (auto simp: pub_ok_def pub_defs split: if_splits sum.splits)
  next
    case (signs a sig)
    with ok show ?thesis
      by (cases rule: pub_ok_cases) (auto simp: pub_ok_def pub_defs split: if_splits sum.splits)
  next
    case (sends a sent b c)
    with ok show ?thesis
      by (cases rule: pub_ok_cases) (auto simp: pub_ok_def pub_defs split: if_splits sum.splits)
  next
    case (verified a)
    with ok show ?thesis
      by (cases rule: pub_ok_cases) (auto simp: pub_ok_def pub_defs split: if_splits)
  next
    case (checkpointed a)
    with ok show ?thesis
      by (cases rule: pub_ok_cases) (auto simp: pub_ok_def pub_defs split: if_splits)
  next
    case (evicted a b verdict)
    with ok show ?thesis
      by (cases rule: pub_ok_cases) (auto simp: pub_ok_def pub_defs split: if_splits)
  qed
qed

lemma pub_ok_reachable: "calm_pub\<^sup>*\<^sup>* publication_start p \<Longrightarrow> pub_ok p"
  by (induction rule: rtranclp_induct) (auto intro: pub_ok_start pub_ok_step)

section \<open>Progress\<close>

lemma rank_top: "rank s \<le> 6"
  by (cases s) simp_all

lemma settle_rank:
  assumes "state = VerifiedLocally \<or> state = VerifiedByPeer"
  shows "rank (pu_state p) \<le> rank (pu_state (settle_publication a state p))"
  using assms by (cases "pu_state p") (auto simp: settle_publication_def setState_def publish_emit_def)

lemma forward_only:
  assumes ok: "pub_ok p" and step: "pub_step p p'" and same: "pu_attempt p' = pu_attempt p"
    and begun: "jget (pu_awaits p) (pu_attempt p) \<noteq> Some Joining"
  shows "rank (pu_state p) \<le> rank (pu_state p')"
  using step
proof cases
  case begins
  with same show ?thesis by (simp add: publish_begin_def Let_def)
next
  case (joins a joined)
  with ok begun show ?thesis by (auto simp: pub_ok_def split: if_splits)
next
  case (signs a sig)
  then show ?thesis by (auto simp: pub_defs rank_top split: sum.splits)
next
  case (sends a sent b c)
  then show ?thesis by (auto simp: pub_defs rank_top split: sum.splits)
next
  case (verified a)
  then show ?thesis by (simp add: on_verified_def settle_rank)
next
  case (checkpointed a)
  then show ?thesis by (simp add: on_checkpointed_def settle_rank)
next
  case (evicted a b verdict)
  then show ?thesis by (simp add: pub_defs rank_top)
qed

end
