(* ===== verification/Publication_Runs.thy ===== *)
theory Publication_Runs
  imports Engine_Voice Publication
begin

text \<open>
  A publication together with its engine: every call of the engine that names the publication runs
  the callback its attempt left there. The engine's own steps are those of \<open>en_step\<close>; a signing
  registers the callbacks and its result is taken up by \<open>publish\<close> later.
\<close>

record pub_system =
  ps_engine :: engine
  ps_pub :: publication
  ps_signed :: "(nat, (votes_bundle \<times> bytes \<times> cid) res) jsmap"

fun deliver :: "engine_call \<Rightarrow> publication \<Rightarrow> publication" where
  "deliver (NotifyVerified t c) = on_verified t"
| "deliver (NotifyCheckpointed t c) = on_checkpointed t"
| "deliver (NotifyEvicted t b v) = on_evicted t b v"
| "deliver _ = (\<lambda>p. p)"

text \<open>What a step of the engine told, in order.\<close>

definition told_by :: "engine \<Rightarrow> engine \<Rightarrow> engine_call list" where
  "told_by en en' = drop (length (filter loud (en_calls en))) (filter loud (en_calls en'))"

text \<open>A step that registers callbacks for somebody else's publication is not one of these.\<close>

definition no_new_callbacks :: "engine \<Rightarrow> engine \<Rightarrow> bool" where
  "no_new_callbacks en en' \<longleftrightarrow>
     (\<forall>c t. jget (en_ownVerifiedCbs en') c = Some t \<longrightarrow> jget (en_ownVerifiedCbs en) c = Some t) \<and>
     (\<forall>c t. jget (en_ownCheckpointCbs en') c = Some t \<longrightarrow> jget (en_ownCheckpointCbs en) c = Some t)"

inductive sys_step :: "'x engine_config \<Rightarrow> pub_system \<Rightarrow> pub_system \<Rightarrow> bool" for C where
  works: "en_step C (ps_engine S) en' \<Longrightarrow> no_new_callbacks (ps_engine S) en' \<Longrightarrow>
    sys_step C S (S\<lparr>ps_engine := en', ps_pub := fold deliver (told_by (ps_engine S) en') (ps_pub S)\<rparr>)"
| begins: "sys_step C S (S\<lparr>ps_pub := publish_begin (ps_pub S)\<rparr>)"
| joins: "jget (pu_awaits (ps_pub S)) a = Some Joining \<Longrightarrow>
    sys_step C S (S\<lparr>ps_pub := publish_joined a joined (ps_pub S)\<rparr>)"
| signs: "jget (pu_awaits (ps_pub S)) a = Some SigningVote \<Longrightarrow> jget (ps_signed S) a = None \<Longrightarrow>
    signVote C head sign address put votes namesSettled (Some a) (ps_engine S) = (en', r) \<Longrightarrow>
    sys_step C S (S\<lparr>ps_engine := en', ps_signed := jset a r (ps_signed S)\<rparr>)"
| resumes: "jget (pu_awaits (ps_pub S)) a = Some SigningVote \<Longrightarrow> jget (ps_signed S) a = Some r \<Longrightarrow>
    sys_step C S (S\<lparr>ps_pub := publish_signed a r (ps_pub S)\<rparr>)"
| sends: "jget (pu_awaits (ps_pub S)) a = Some Broadcasting \<Longrightarrow> jget (ps_signed S) a = Some (Inr (b, encoded, c)) \<Longrightarrow>
    sys_step C S (S\<lparr>ps_pub := publish_sent a sent b c (ps_pub S)\<rparr>)"

definition sys_start :: "(cid, bytes) jsmap \<Rightarrow> bytes option \<Rightarrow> pub_system" where
  "sys_start blocks disk = \<lparr>ps_engine = engine_start blocks disk, ps_pub = publication_start, ps_signed = []\<rparr>"

abbreviation sys_run :: "'x engine_config \<Rightarrow> pub_system \<Rightarrow> pub_system \<Rightarrow> bool" where
  "sys_run C \<equiv> (sys_step C)\<^sup>*\<^sup>*"

section \<open>Callbacks belong to signed attempts\<close>

definition signed_as :: "pub_system \<Rightarrow> nat \<Rightarrow> cid \<Rightarrow> bool" where
  "signed_as S t c \<longleftrightarrow> (\<exists>b encoded. jget (ps_signed S) t = Some (Inr (b, encoded, c)))"

definition linked :: "pub_system \<Rightarrow> bool" where
  "linked S \<longleftrightarrow>
     (\<forall>c t. jget (en_ownVerifiedCbs (ps_engine S)) c = Some t \<longrightarrow> signed_as S t c) \<and>
     (\<forall>c t. jget (en_ownCheckpointCbs (ps_engine S)) c = Some t \<longrightarrow> signed_as S t c)"

lemma track_cbs:
  "en_ownVerifiedCbs (track_signed c b n (Some t) en) = jset c t (en_ownVerifiedCbs en)"
  "en_ownCheckpointCbs (track_signed c b n (Some t) en) = jset c t (en_ownCheckpointCbs en)"
  by (simp_all add: track_signed_def Let_def recordChecks_def onStateChanged_def markStateChanged_def scheduleSnapshotWrite_def
      kickTallyRefresh_def call_def)

lemma add_cbs:
  "engine_add C put b en = Inr (en', c) \<Longrightarrow> en_ownVerifiedCbs en' = en_ownVerifiedCbs en \<and>
     en_ownCheckpointCbs en' = en_ownCheckpointCbs en \<and> (\<exists>encoded. encodeBundle (eg_lib C) b = Inr encoded)"
  by (auto simp: engine_add_def crdt_add_def bs_put_def bundleCid_def res_simps)

lemma sign_cbs:
  assumes "signVote C head sign address put votes n (Some t) en = (en', r)"
    and "jget (en_ownVerifiedCbs en') c = Some t' \<or> jget (en_ownCheckpointCbs en') c = Some t'"
  shows "jget (en_ownVerifiedCbs en) c = Some t' \<or> jget (en_ownCheckpointCbs en) c = Some t' \<or>
    t' = t \<and> (\<exists>b encoded. r = Inr (b, encoded, c))"
proof (cases head)
  case (Inr h)
  let ?bucket = "bucketForBlock (eg_bucketMath C) h"
  let ?en = "en\<lparr>en_currentBucket := ?bucket\<rparr>"
  from assms(1) Inr consider (failed) "en' = ?en"
    | (ended) b en2 c2 where "engine_add C put b ?en = Inr (en2, c2)" "en' = track_signed c2 b n (Some t) en2"
      "r = sbind (encodeBundle (eg_lib C) b) (\<lambda>encoded. Inr (b, encoded, c2))"
    by (auto simp: signVote_def Let_def res_simps split: sum.splits)
  then show ?thesis
  proof cases
    case failed
    with assms(2) show ?thesis by auto
  next
    case ended
    note add = add_cbs [OF ended(1)]
    then obtain encoded where "r = Inr (b, encoded, c2)" using ended(3) by auto
    with assms(2) add show ?thesis unfolding ended(2) track_cbs by (auto simp: jsmap_simps split: if_splits)
  qed
qed (use assms in \<open>auto simp: signVote_def\<close>)

lemma linked_start: "linked (sys_start blocks disk)"
  by (simp add: linked_def sys_start_def engine_start_def)

lemma linked_step: "sys_step C S S' \<Longrightarrow> linked S \<Longrightarrow> linked S'"
proof (induction rule: sys_step.induct)
  case (signs S a head sign address put votes n en' r)
  note new = sign_cbs [OF signs(3)]
  have kept: "signed_as S t c \<Longrightarrow> signed_as (S\<lparr>ps_engine := en', ps_signed := jset a r (ps_signed S)\<rparr>) t c" for t c
    using signs(2) by (auto simp: signed_as_def jsmap_simps)
  have here: "r = Inr (b, encoded, c) \<Longrightarrow> signed_as (S\<lparr>ps_engine := en', ps_signed := jset a r (ps_signed S)\<rparr>) a c" for b encoded c
    by (simp add: signed_as_def jsmap_simps)
  show ?case
    unfolding linked_def
    using new kept here signs(4) unfolding linked_def by (simp, metis)
qed (auto simp: linked_def signed_as_def no_new_callbacks_def)

section \<open>Settled states are true\<close>

lemma told_by_tells: "tells en en' cs \<Longrightarrow> told_by en en' = cs"
  by (simp add: tells_def told_by_def)

lemma deliver_attempt [simp]: "pu_attempt (deliver c p) = pu_attempt p" "pu_awaits (deliver c p) = pu_awaits p"
  by (cases c; simp add: pub_defs)+

lemma deliver_fold [simp]: "pu_attempt (fold deliver cs p) = pu_attempt p" "pu_awaits (fold deliver cs p) = pu_awaits p"
  by (induction cs arbitrary: p) simp_all

lemma deliver_state:
  "pu_state (deliver c p) = VerifiedLocally \<Longrightarrow> pu_state p = VerifiedLocally \<or> (\<exists>k. c = NotifyVerified (pu_attempt p) k)"
  "pu_state (deliver c p) = VerifiedByPeer \<Longrightarrow> pu_state p = VerifiedByPeer \<or> (\<exists>k. c = NotifyCheckpointed (pu_attempt p) k)"
  by (cases c; auto simp: pub_defs split: if_splits)+

lemma fold_state:
  "pu_state (fold deliver cs p) = VerifiedLocally \<Longrightarrow>
     pu_state p = VerifiedLocally \<or> (\<exists>k. NotifyVerified (pu_attempt p) k \<in> set cs)"
  "pu_state (fold deliver cs p) = VerifiedByPeer \<Longrightarrow>
     pu_state p = VerifiedByPeer \<or> (\<exists>k. NotifyCheckpointed (pu_attempt p) k \<in> set cs)"
proof -
  show "pu_state (fold deliver cs p) = VerifiedLocally \<Longrightarrow>
     pu_state p = VerifiedLocally \<or> (\<exists>k. NotifyVerified (pu_attempt p) k \<in> set cs)"
  proof (induction cs arbitrary: p)
    case (Cons c cs)
    with Cons.IH [of "deliver c p"] deliver_state(1) [of c p] show ?case by auto
  qed simp
  show "pu_state (fold deliver cs p) = VerifiedByPeer \<Longrightarrow>
     pu_state p = VerifiedByPeer \<or> (\<exists>k. NotifyCheckpointed (pu_attempt p) k \<in> set cs)"
  proof (induction cs arbitrary: p)
    case (Cons c cs)
    with Cons.IH [of "deliver c p"] deliver_state(2) [of c p] show ?case by auto
  qed simp
qed

definition grounded :: "'x engine_config \<Rightarrow> pub_system \<Rightarrow> pub_system \<Rightarrow> bool" where
  "grounded C s S \<longleftrightarrow>
     (let a = pu_attempt (ps_pub S); state = pu_state (ps_pub S) in
      jget (pu_awaits (ps_pub S)) a \<noteq> Some Joining \<longrightarrow>
      (state = VerifiedLocally \<longrightarrow>
         (\<exists>S0 c. sys_run C s S0 \<and> sys_run C S0 S \<and> signed_as S a c \<and> isFullyVerified (ps_engine S0) c)) \<and>
      (state = VerifiedByPeer \<longrightarrow>
         (\<exists>S0 c p. sys_run C s S0 \<and> sys_run C S0 S \<and> signed_as S a c \<and> credited (ps_engine S0) c p)))"


lemma told_by_true:
  assumes "en_step C en en'" "x \<in> set (told_by en en')"
  shows "truthful en' x \<and> registered en x"
proof -
  from step_speaks [OF assms(1)] consider (spoken) cs where "tells en en' cs"
    | (lifecycle) "en' = join_started en \<or> en' = fst (leave_reset en) \<or> (\<exists>w. en' = leave_end w en) \<or>
        en' = markDestroyed en"
    by (auto simp: speaks_def)
  then show ?thesis
  proof cases
    case spoken
    with told_by_tells [OF spoken] assms(2) show ?thesis by (simp add: tells_def)
  next
    case lifecycle
    then have "x = TopicJoined \<or> x = TopicLeft"
      using assms(2) by (auto simp: told_by_def join_started_def leave_reset_def leave_end_def call_def Let_def markDestroyed_def split: if_splits)
    then show ?thesis by auto
  qed
qed

lemma grounded_later:
  assumes "grounded C s S" "sys_step C S S'" "pu_attempt (ps_pub S') = pu_attempt (ps_pub S)"
    "pu_state (ps_pub S') = pu_state (ps_pub S)"
    "jget (pu_awaits (ps_pub S')) (pu_attempt (ps_pub S)) = Some Joining \<or>
       jget (pu_awaits (ps_pub S)) (pu_attempt (ps_pub S)) \<noteq> Some Joining"
    "\<And>t c. signed_as S t c \<Longrightarrow> signed_as S' t c"
  shows "grounded C s S'"
proof -
  have "sys_run C S0 S \<Longrightarrow> sys_run C S0 S'" for S0 using assms(2) by (rule rtranclp.rtrancl_into_rtrancl [rotated])
  with assms show ?thesis unfolding grounded_def Let_def by metis
qed

lemma unsettled_grounded:
  "pu_state (ps_pub S) \<noteq> VerifiedLocally \<Longrightarrow> pu_state (ps_pub S) \<noteq> VerifiedByPeer \<Longrightarrow> grounded C s S"
  by (simp add: grounded_def Let_def)

lemma grounded_step:
  assumes run: "sys_run C s S" and step: "sys_step C S S'" and link: "linked S" and ground: "grounded C s S"
  shows "grounded C s S'"
proof -
  have run': "sys_run C s S'" using run step by (rule rtranclp.rtrancl_into_rtrancl)
  show ?thesis
    using step
  proof cases
    case (works en')
    let ?cs = "told_by (ps_engine S) en'" and ?a = "pu_attempt (ps_pub S)"
    show ?thesis
    proof (cases "jget (pu_awaits (ps_pub S)) ?a = Some Joining")
      case True
      then show ?thesis by (simp add: grounded_def Let_def works(1))
    next
      case False
      have local: "\<exists>S0 c. sys_run C s S0 \<and> sys_run C S0 S' \<and> signed_as S' ?a c \<and> isFullyVerified (ps_engine S0) c"
        if "NotifyVerified ?a k \<in> set ?cs" for k
      proof -
        from told_by_true [OF works(2) that] have "isFullyVerified en' k" "jget (en_ownVerifiedCbs (ps_engine S)) k = Some ?a" by simp_all
        with link have "signed_as S ?a k" by (simp add: linked_def)
        with \<open>isFullyVerified en' k\<close> run' show ?thesis
          by (intro exI [of _ S'] exI [of _ k]) (simp add: works(1) signed_as_def)
      qed
      have peer: "\<exists>S0 c p. sys_run C s S0 \<and> sys_run C S0 S' \<and> signed_as S' ?a c \<and> credited (ps_engine S0) c p"
        if "NotifyCheckpointed ?a k \<in> set ?cs" for k
      proof -
        from told_by_true [OF works(2) that] obtain p where "credited en' k p" "jget (en_ownCheckpointCbs (ps_engine S)) k = Some ?a" by auto
        with link have "signed_as S ?a k" by (simp add: linked_def)
        with \<open>credited en' k p\<close> run' show ?thesis
          by (intro exI [of _ S'] exI [of _ k] exI [of _ p]) (simp add: works(1) signed_as_def)
      qed
      have old: "sys_run C S0 S \<Longrightarrow> sys_run C S0 S'" for S0 using step by (rule rtranclp.rtrancl_into_rtrancl [rotated])
      have same: "ps_pub S' = fold deliver ?cs (ps_pub S)" "signed_as S' = signed_as S"
        by (simp_all add: works(1) signed_as_def [abs_def])
      show ?thesis
        unfolding grounded_def Let_def same(1) deliver_fold
      proof (intro impI conjI)
        assume "pu_state (fold deliver ?cs (ps_pub S)) = VerifiedLocally"
        from fold_state(1) [OF this] local ground False old same(2)
        show "\<exists>S0 c. sys_run C s S0 \<and> sys_run C S0 S' \<and> signed_as S' ?a c \<and> isFullyVerified (ps_engine S0) c"
          unfolding grounded_def Let_def by metis
      next
        assume "pu_state (fold deliver ?cs (ps_pub S)) = VerifiedByPeer"
        from fold_state(2) [OF this] peer ground False old same(2)
        show "\<exists>S0 c p. sys_run C s S0 \<and> sys_run C S0 S' \<and> signed_as S' ?a c \<and> credited (ps_engine S0) c p"
          unfolding grounded_def Let_def by metis
      qed
    qed
  next
    case begins
    then show ?thesis by (simp add: grounded_def publish_begin_def Let_def jsmap_simps)
  next
    case (joins a joined)
    show ?thesis
    proof (cases "\<exists>e. joined = Inl e \<and> a \<noteq> pu_attempt (ps_pub S)")
      case True
      then show ?thesis
        by (intro grounded_later [OF ground step]) (auto simp: joins(1) pub_defs jsmap_simps signed_as_def)
    next
      case False
      then have "pu_state (ps_pub S') = Signing \<or> pu_state (ps_pub S') = Failed"
        by (auto simp: joins(1) pub_defs split: sum.splits)
      then show ?thesis by (intro unsettled_grounded) auto
    qed
  next
    case (signs a head sign address put votes n en' r)
    then show ?thesis
      by (intro grounded_later [OF ground step]) (auto simp: signs(1) jsmap_simps signed_as_def)
  next
    case (resumes a r)
    show ?thesis
    proof (cases "pu_state (ps_pub S') = pu_state (ps_pub S)")
      case True
      then show ?thesis
        using resumes(2)
        by (intro grounded_later [OF ground step])
          (auto simp: resumes(1) pub_defs jsmap_simps signed_as_def split: sum.splits if_splits)
    next
      case False
      then have "pu_state (ps_pub S') = Publishing \<or> pu_state (ps_pub S') = Failed"
        by (auto simp: resumes(1) pub_defs split: sum.splits if_splits)
      then show ?thesis by (intro unsettled_grounded) auto
    qed
  next
    case (sends a b encoded c sent)
    show ?thesis
    proof (cases "pu_state (ps_pub S') = pu_state (ps_pub S)")
      case True
      then show ?thesis
        using sends(2)
        by (intro grounded_later [OF ground step])
          (auto simp: sends(1) pub_defs jsmap_simps signed_as_def split: sum.splits if_splits)
    next
      case False
      then have "pu_state (ps_pub S') = Published \<or> pu_state (ps_pub S') = Failed"
        by (auto simp: sends(1) pub_defs split: sum.splits if_splits)
      then show ?thesis by (intro unsettled_grounded) auto
    qed
  qed
qed

lemma grounded_reachable:
  assumes "sys_run C (sys_start blocks disk) S"
  shows "linked S \<and> grounded C (sys_start blocks disk) S"
  using assms
proof (induction rule: rtranclp_induct)
  case base
  show ?case using linked_start [of blocks disk] by (simp add: grounded_def sys_start_def publication_start_def Let_def)
next
  case (step S S')
  then show ?case using linked_step grounded_step by blast
qed

end
