(* ===== verification/Publication_Properties.thy ===== *)
theory Publication_Properties
  imports Publication_Runs Engine_Properties
begin

text \<open>
  What the state of a publication promises: it only moves forward, it never stays between states when
  no call is in flight, and its verified states are true of the engine.
\<close>

text \<open>C20: A publication only moves forward. When its caller waits for one \<open>publish\<close> before the next,
  then from the moment the current attempt begins to sign its state never goes back: not by a late
  verdict of an earlier attempt, not by the weaker local verdict after a peer's, and not by the
  broadcast that ends after a verdict; and a failed attempt stays failed.\<close>

theorem publication_moves_forward:
  assumes "calm_pub\<^sup>*\<^sup>* publication_start p" "jget (pu_awaits p) (pu_attempt p) \<noteq> Some Joining"
    and "pub_step p p'" "pu_attempt p' = pu_attempt p"
  shows "rank (pu_state p) \<le> rank (pu_state p')"
  using pub_ok_reachable [OF assms(1)] assms(3,4,2) by (rule forward_only)

text \<open>The verdict arrives before the broadcast ends.\<close>

definition pub_signing :: publication where
  "pub_signing = publish_joined 1 (Inr ()) (publish_begin publication_start)"

definition pub_verified :: publication where
  "pub_verified = on_verified 1 (publish_signed 1 (Inr (signed_bundle, signed_block, signed_cid)) pub_signing)"

lemma pub_verified_run: "calm_pub\<^sup>*\<^sup>* publication_start pub_verified"
  "jget (pu_awaits pub_verified) 1 = Some Broadcasting" "pu_attempt pub_verified = 1" "pu_state pub_verified = VerifiedLocally"
proof -
  let ?p1 = "publish_begin publication_start"
  let ?p2 = "publish_signed 1 (Inr (signed_bundle, signed_block, signed_cid)) pub_signing"
  have "calm_pub publication_start ?p1" by (rule calm_pub.first) (simp add: publication_start_def)
  moreover have "calm_pub ?p1 pub_signing"
    unfolding pub_signing_def
    by (rule calm_pub.other [OF pub_step.joins]) (simp_all add: pub_defs publication_start_def)
  moreover have "calm_pub pub_signing ?p2"
    by (rule calm_pub.other [OF pub_step.signs]) (simp_all add: pub_defs publication_start_def pub_signing_def)
  moreover have "calm_pub ?p2 pub_verified"
    unfolding pub_verified_def
    by (rule calm_pub.other [OF pub_step.verified]) (simp_all add: pub_defs publication_start_def pub_signing_def)
  ultimately show "calm_pub\<^sup>*\<^sup>* publication_start pub_verified" by (meson converse_rtranclp_into_rtranclp rtranclp.rtrancl_refl)
qed (simp_all add: pub_verified_def pub_signing_def pub_defs publication_start_def)

theorem publication_moves_forward_witness:
  "rank VerifiedLocally \<le> rank (pu_state (publish_sent 1 (Inr 3) signed_bundle signed_cid pub_verified))"
proof -
  have "pub_step pub_verified (publish_sent 1 (Inr 3) signed_bundle signed_cid pub_verified)"
    using pub_verified_run(2) by (rule pub_step.sends)
  from publication_moves_forward [OF pub_verified_run(1) _ this] pub_verified_run(2-4) show ?thesis by (simp add: pub_defs)
qed

text \<open>A publication is never left in between. Whenever no call of \<open>publish\<close> is in flight its state
  is neither \<open>signing\<close> nor \<open>publishing\<close>, and while one is in flight its state is one of those that
  belong to where the call waits; an eviction shows as \<open>failed\<close> for as long as its attempt is current.\<close>

theorem publication_never_in_between:
  assumes "calm_pub\<^sup>*\<^sup>* publication_start p"
  shows "(pu_awaits p = [] \<longrightarrow> pu_state p \<notin> {Signing, Publishing}) \<and>
    (jget (pu_awaits p) (pu_attempt p) = Some Broadcasting \<longrightarrow> pu_state p \<in> {Publishing, VerifiedLocally, VerifiedByPeer, Failed}) \<and>
    (pu_evicted p \<longrightarrow> pu_state p = Failed)"
  by (rule pub_ok_cases [OF pub_ok_reachable [OF assms]]) auto

theorem publication_never_in_between_witness:
  "pu_state pub_verified \<in> {Publishing, VerifiedLocally, VerifiedByPeer, Failed}"
  using publication_never_in_between [OF pub_verified_run(1)] pub_verified_run(2,3) by simp

text \<open>C21: The verified states are true. However \<open>publish\<close> calls, engine operations and verdicts
  interleave: once the current attempt has joined, \<open>verified-locally\<close> means that at some earlier
  moment the engine held every check of the vote this attempt signed as settled, and
  \<open>verified-by-peer\<close> that a peer was credited with serving that very vote.\<close>

theorem publication_states_true:
  assumes "sys_run C (sys_start blocks disk) S"
    and "jget (pu_awaits (ps_pub S)) (pu_attempt (ps_pub S)) \<noteq> Some Joining"
  shows "(pu_state (ps_pub S) = VerifiedLocally \<longrightarrow>
      (\<exists>S0 c. sys_run C (sys_start blocks disk) S0 \<and> sys_run C S0 S \<and> signed_as S (pu_attempt (ps_pub S)) c \<and>
        isFullyVerified (ps_engine S0) c)) \<and>
    (pu_state (ps_pub S) = VerifiedByPeer \<longrightarrow>
      (\<exists>S0 c p. sys_run C (sys_start blocks disk) S0 \<and> sys_run C S0 S \<and> signed_as S (pu_attempt (ps_pub S)) c \<and>
        credited (ps_engine S0) c p))"
  using grounded_reachable [OF assms(1)] assms(2) unfolding grounded_def Let_def by blast

text \<open>A joined engine signs for the first attempt, and the background verifier settles the vote.\<close>

definition sys_signing :: pub_system where
  "sys_signing = \<lparr>ps_engine = run_joined, ps_pub = pub_signing, ps_signed = []\<rparr>"

definition sys_signed :: pub_system where
  "sys_signed = sys_signing\<lparr>ps_engine := run_signed, ps_signed := [(1, Inr (signed_bundle, signed_block, signed_cid))]\<rparr>"

definition sys_settled :: pub_system where
  "sys_settled = sys_signed\<lparr>ps_engine := run_settled, ps_pub := fold deliver (told_by run_signed run_settled) pub_signing\<rparr>"

lemma quiet_work: "sys_step C S (S\<lparr>ps_engine := en'\<rparr>)"
  if "en_step C (ps_engine S) en'" "told_by (ps_engine S) en' = [] \<or> told_by (ps_engine S) en' = [TopicJoined]"
    "en_ownVerifiedCbs en' = en_ownVerifiedCbs (ps_engine S)" "en_ownCheckpointCbs en' = en_ownCheckpointCbs (ps_engine S)"
proof -
  have "sys_step C S (S\<lparr>ps_engine := en', ps_pub := fold deliver (told_by (ps_engine S) en') (ps_pub S)\<rparr>)"
    by (rule sys_step.works [OF that(1)]) (simp add: no_new_callbacks_def that(3,4))
  moreover have "fold deliver (told_by (ps_engine S) en') (ps_pub S) = ps_pub S" using that(2) by auto
  ultimately show ?thesis by simp
qed

lemma sign_result:
  "signVote sample_engine (Inr 7) (\<lambda>_. Inr (b_signature signed_bundle)) (Inr (b_address signed_bundle)) (Inr ()) [] True (Some 1) run_joined =
     (run_signed, Inr (signed_bundle, signed_block, signed_cid))"
proof -
  have now: "bucketForBlock (eg_bucketMath sample_engine) 7 = 0" "sampleBlockForBucket (eg_bucketMath sample_engine) 0 = 0"
    by (simp_all add: sample_engine_def bucket_of_def sample_of_def)
  have "engine_add sample_engine (Inr ()) signed_bundle (run_joined\<lparr>en_currentBucket := 0\<rparr>) =
      Inr (run_joined\<lparr>en_currentBucket := 0, en_blocks := [(signed_cid, signed_block)],
        en_crdt := \<lparr>bundles = [(signed_cid, \<lparr>e_cid = signed_cid, e_bundle = signed_bundle\<rparr>)]\<rparr>\<rparr>, signed_cid)"
    by (simp add: engine_add_def crdt_add_def bundleCid_def bs_put_def sample_engine_def signed_encode signed_cid_def
        run_joined_def join_started_def join_begin_def engine_start_def call_def empty_crdt_def)
  then have "snd (signVote sample_engine (Inr 7) (\<lambda>_. Inr (b_signature signed_bundle)) (Inr (b_address signed_bundle)) (Inr ()) [] True (Some 1) run_joined) =
      Inr (signed_bundle, signed_block, signed_cid)"
    by (simp add: signVote_def now Let_def sample_engine_lib signed_again signed_ok signed_encode guard_def)
  then show ?thesis by (simp add: run_signed_def prod_eq_iff)
qed

lemma sys_signed_run: "sys_run sample_engine (sys_start [] None) sys_signed"
proof -
  let ?s0 = "sys_start [] None :: pub_system"
  let ?s1 = "?s0\<lparr>ps_engine := fst (join_begin (engine_start [] None))\<rparr>"
  let ?s2 = "?s1\<lparr>ps_engine := run_joined\<rparr>"
  let ?s3 = "?s2\<lparr>ps_pub := publish_begin (ps_pub ?s2)\<rparr>"
  have "sys_step sample_engine ?s0 ?s1"
  proof (rule quiet_work)
    show "en_step sample_engine (ps_engine ?s0) (fst (join_begin (engine_start [] None)))"
      using join_begins [of sample_engine "engine_start [] None"] by (simp only: sys_start_def pub_system.simps)
  qed (simp_all add: sys_start_def told_by_def join_begin_def engine_start_def)
  moreover have "sys_step sample_engine ?s1 ?s2"
  proof (rule quiet_work)
    show "en_step sample_engine (ps_engine ?s1) run_joined" unfolding run_joined_def by (simp add: join_starts)
  qed (simp_all add: sys_start_def told_by_def run_joined_def join_begin_def join_started_def engine_start_def call_def)
  moreover have "sys_step sample_engine ?s2 ?s3" by (rule sys_step.begins)
  moreover have "sys_step sample_engine ?s3 (?s3\<lparr>ps_pub := publish_joined 1 (Inr ()) (ps_pub ?s3)\<rparr>)"
    by (rule sys_step.joins) (simp add: sys_start_def publication_start_def publish_begin_def Let_def)
  moreover have "?s3\<lparr>ps_pub := publish_joined 1 (Inr ()) (ps_pub ?s3)\<rparr> = sys_signing"
    by (simp add: sys_signing_def sys_start_def pub_signing_def)
  moreover have "sys_step sample_engine sys_signing (sys_signing\<lparr>ps_engine := run_signed,
      ps_signed := jset 1 (Inr (signed_bundle, signed_block, signed_cid)) (ps_signed sys_signing)\<rparr>)"
  proof (rule sys_step.signs)
    show "signVote sample_engine (Inr 7) (\<lambda>_. Inr (b_signature signed_bundle)) (Inr (b_address signed_bundle)) (Inr ()) [] True (Some 1)
        (ps_engine sys_signing) = (run_signed, Inr (signed_bundle, signed_block, signed_cid))"
      using sign_result by (simp only: sys_signing_def pub_system.simps)
  qed (simp_all add: sys_signing_def pub_signing_def pub_defs publication_start_def)
  moreover have "sys_signing\<lparr>ps_engine := run_signed,
      ps_signed := jset 1 (Inr (signed_bundle, signed_block, signed_cid)) (ps_signed sys_signing)\<rparr> = sys_signed"
    by (simp add: sys_signed_def sys_signing_def)
  ultimately show ?thesis by (metis (no_types, lifting) rtranclp.rtrancl_into_rtrancl rtranclp.rtrancl_refl)
qed

lemma settled_told: "told_by run_signed run_settled = [NotifyVerified 1 signed_cid]"
proof -
  have "en_calls run_settled = en_calls run_signed @ [NotifyVerified 1 signed_cid, CheckpointChanged]"
    by (auto simp: run_settled_def settleCheck_def run_signed_fields Let_def set_check_def isFullyVerified_def notify_def
        dropOwnTracking_def onStateChanged_def markStateChanged_def scheduleSnapshotWrite_def kickTallyRefresh_def call_def)
  then show ?thesis by (simp add: told_by_def)
qed

lemma sys_settled_run: "sys_run sample_engine (sys_start [] None) sys_settled"
  "pu_state (ps_pub sys_settled) = VerifiedLocally" "pu_attempt (ps_pub sys_settled) = 1"
  "pu_awaits (ps_pub sys_settled) = [(1, SigningVote)]"
proof -
  have "en_step sample_engine (ps_engine sys_signed) run_settled"
    unfolding run_settled_def sys_signed_def by (simp add: settles)
  then have "sys_step sample_engine sys_signed (sys_signed\<lparr>ps_engine := run_settled,
      ps_pub := fold deliver (told_by (ps_engine sys_signed) run_settled) (ps_pub sys_signed)\<rparr>)"
    by (rule sys_step.works)
      (auto simp: no_new_callbacks_def sys_signed_def run_settled_def settleCheck_def run_signed_fields Let_def dropOwnTracking_def
        notify_def onStateChanged_def markStateChanged_def scheduleSnapshotWrite_def kickTallyRefresh_def call_def jsmap_simps
        split: if_splits)
  moreover have "sys_signed\<lparr>ps_engine := run_settled,
      ps_pub := fold deliver (told_by (ps_engine sys_signed) run_settled) (ps_pub sys_signed)\<rparr> = sys_settled"
    by (simp add: sys_settled_def sys_signed_def sys_signing_def)
  ultimately show "sys_run sample_engine (sys_start [] None) sys_settled"
    using sys_signed_run by (metis rtranclp.rtrancl_into_rtrancl)
qed (simp_all add: sys_settled_def settled_told pub_signing_def pub_defs publication_start_def)

theorem publication_states_true_witness:
  "\<exists>S0 c. sys_run sample_engine S0 sys_settled \<and> signed_as sys_settled 1 c \<and> isFullyVerified (ps_engine S0) c"
proof -
  have "jget (pu_awaits (ps_pub sys_settled)) (pu_attempt (ps_pub sys_settled)) \<noteq> Some Joining"
    by (simp add: sys_settled_run(3,4))
  from publication_states_true [OF sys_settled_run(1) this] sys_settled_run(2,3) show ?thesis by auto
qed

end
