(* ===== verification/Voter.thy ===== *)
theory Voter
  imports Engine_Voice
begin

text \<open>
  The vote client (class \<open>PubsubVoter\<close> of \<open>src/client/voter.ts\<close>) and its read views
  (\<open>ContestView\<close>): one engine per contest, the fetch responder and the announcer that live while
  some contest is joined, the answers of the responder, and the terminal \<open>destroy\<close>. Each engine is the
  record of \<open>Engine\<close>; the awaits inside its \<open>join\<close> and \<open>leave\<close> are visible here as calls in flight,
  because that is where two of them can overlap.
\<close>

section \<open>Building an engine\<close>

text \<open>The constructor of \<open>ContestEngine\<close>: the contest's chain client, bucket math, weight rule, verifier
  and tally, in this order of failures. \<open>leaf_ctx\<close> and \<open>weight_ctx\<close> pair the client with the rule
  caches the constructor opens.\<close>

definition make_engine ::
  "lib \<Rightarrow> recover \<Rightarrow> (nat \<Rightarrow> 'c option) \<Rightarrow> ('c \<Rightarrow> nat \<Rightarrow> 'x) \<Rightarrow> ('c \<Rightarrow> 'x) \<Rightarrow> 'x registry \<Rightarrow> name_resolver list \<Rightarrow>
     's lru_ops option \<Rightarrow> criteria \<Rightarrow> string \<Rightarrow> bytes \<Rightarrow> 'x engine_config res" where
  "make_engine L recover chain_of leaf_ctx weight_ctx reg resolvers cache c topic cidBytes =
     sbind (require_some (MissingChainClientError (c_bucketChainId c)) (chain_of (c_bucketChainId c))) (\<lambda>chain.
     sbind (makeBucketMath (int (c_blocksPerBucket c))) (\<lambda>bucketMath.
     sbind (require_some (UnknownRuleError SlotWeight (ref_type (c_weight c))) (jget reg (ref_type (c_weight c)))) (\<lambda>_.
     sbind (makeBundleVerifier L recover c cidBytes (c_bucketChainId c) reg (leaf_ctx chain) bucketMath resolvers cache) (\<lambda>verifier.
     sbind (makeTally L c reg (weight_ctx chain) bucketMath) (\<lambda>tally.
     Inr \<lparr>eg_lib = L, eg_topic = topic, eg_criteriaCid = cidBytes, eg_chainId = c_bucketChainId c,
          eg_bucketMath = bucketMath, eg_voteExpiryBuckets = c_voteExpiryBuckets c,
          eg_verifyOffline = verifyOffline verifier, eg_tally = tally\<rparr>)))))"

definition republishIntervalBuckets :: "criteria \<Rightarrow> nat" where
  "republishIntervalBuckets c = (c_voteExpiryBuckets c + 1) div 2"

section \<open>State\<close>

datatype voter_call =
    RegisterResponder
  | UnregisterResponder
  | AnnouncerStart
  | AnnouncerNotify
  | AnnouncerStop
  | CloseStorage

text \<open>\<open>mb_joins\<close> counts the calls of \<open>join\<close> that wait for the transport's start, \<open>mb_leaves\<close> holds what
  each call of \<open>leave\<close> that waits for its stop found in \<open>joined\<close>.\<close>

record 'x member =
  mb_config :: "'x engine_config"
  mb_engine :: engine
  mb_joins :: nat
  mb_leaves :: "bool list"

text \<open>\<open>vo_views\<close> maps a topic to its view's \<open>subscribed\<close> flag; \<open>vo_announcing\<close> tells whether an announcer
  was configured.\<close>

record 'x voter =
  vo_engines :: "(string, 'x member) jsmap"
  vo_views :: "(string, bool) jsmap"
  vo_responderRegistered :: bool
  vo_joinedEngines :: int
  vo_destroyed :: bool
  vo_announcing :: bool
  vo_calls :: "voter_call list"

definition voter_start :: "bool \<Rightarrow> 'x voter" where
  "voter_start announcing =
     \<lparr>vo_engines = [], vo_views = [], vo_responderRegistered = False, vo_joinedEngines = 0, vo_destroyed = False,
      vo_announcing = announcing, vo_calls = []\<rparr>"

definition voter_call :: "voter_call \<Rightarrow> 'x voter \<Rightarrow> 'x voter" where
  "voter_call c v = v\<lparr>vo_calls := vo_calls v @ [c]\<rparr>"

definition announcer :: "voter_call \<Rightarrow> 'x voter \<Rightarrow> 'x voter" where
  "announcer c v = (if vo_announcing v then voter_call c v else v)"

section \<open>The responder's lifecycle\<close>

definition unregisterResponder :: "'x voter \<Rightarrow> 'x voter" where
  "unregisterResponder v =
     (if \<not> vo_responderRegistered v then v
      else (voter_call UnregisterResponder v)\<lparr>vo_responderRegistered := False\<rparr>)"

definition onTopicJoined :: "'x voter \<Rightarrow> 'x voter" where
  "onTopicJoined v =
     (let v1 = announcer AnnouncerNotify (announcer AnnouncerStart (v\<lparr>vo_joinedEngines := vo_joinedEngines v + 1\<rparr>))
      in if vo_responderRegistered v1 then v1
         else (voter_call RegisterResponder v1)\<lparr>vo_responderRegistered := True\<rparr>)"

definition onTopicLeft :: "'x voter \<Rightarrow> 'x voter" where
  "onTopicLeft v =
     (let v1 = v\<lparr>vo_joinedEngines := vo_joinedEngines v - 1\<rparr>
      in if vo_joinedEngines v1 \<le> 0 then unregisterResponder (announcer AnnouncerStop v1) else v1)"

fun notice :: "engine_call \<Rightarrow> 'x voter \<Rightarrow> 'x voter" where
  "notice TopicJoined = onTopicJoined"
| "notice TopicLeft = onTopicLeft"
| "notice _ = (\<lambda>v. v)"

text \<open>An operation of the engine at \<open>topic\<close>, with the notifications it makes.\<close>

definition heard_from :: "engine \<Rightarrow> engine \<Rightarrow> engine_call list" where
  "heard_from en en' = drop (length (filter loud (en_calls en))) (filter loud (en_calls en'))"

definition at_engine :: "string \<Rightarrow> ('x member \<Rightarrow> 'x member) \<Rightarrow> 'x voter \<Rightarrow> 'x voter" where
  "at_engine topic f v =
     (case jget (vo_engines v) topic of
        None \<Rightarrow> v
      | Some m \<Rightarrow>
          fold notice (heard_from (mb_engine m) (mb_engine (f m))) (v\<lparr>vo_engines := jset topic (f m) (vo_engines v)\<rparr>))"

section \<open>Creating contests\<close>

definition assertLive :: "'x voter \<Rightarrow> unit res" where
  "assertLive v = guard VoterDestroyedError (\<not> vo_destroyed v)"

definition validateCriteria :: "lib \<Rightarrow> 'x registry \<Rightarrow> ipld \<Rightarrow> criteria res" where
  "validateCriteria L reg input =
     sbind (CriteriaSchema L input) (\<lambda>c. sbind (validateCriteriaRules c reg) (\<lambda>_. Inr c))"

text \<open>\<open>build\<close> is the constructor of \<open>ContestEngine\<close> with the voter's dependencies; \<open>blocks\<close> and \<open>disk\<close> are
  what the block store and the snapshot store hold for the topic.\<close>

definition engineFor ::
  "lib \<Rightarrow> (criteria \<Rightarrow> string \<Rightarrow> bytes \<Rightarrow> 'x engine_config res) \<Rightarrow> (cid, bytes) jsmap \<Rightarrow> bytes option \<Rightarrow> criteria \<Rightarrow> 'x voter \<Rightarrow>
     ('x voter \<times> string) res" where
  "engineFor L build blocks disk c v =
     (let cid = criteriaCid L c; topic = TOPIC_PREFIX @ cid_str L cid in
      case jget (vo_engines v) topic of
        Some _ \<Rightarrow> Inr (v, topic)
      | None \<Rightarrow>
          sbind (build c topic cid) (\<lambda>C.
            let m = \<lparr>mb_config = C, mb_engine = engine_start blocks disk, mb_joins = 0, mb_leaves = []\<rparr>
            in Inr (v\<lparr>vo_engines := jset topic m (vo_engines v)\<rparr>, topic)))"

definition createContest ::
  "lib \<Rightarrow> 'x registry \<Rightarrow> (criteria \<Rightarrow> string \<Rightarrow> bytes \<Rightarrow> 'x engine_config res) \<Rightarrow> (cid, bytes) jsmap \<Rightarrow> bytes option \<Rightarrow> ipld \<Rightarrow>
     'x voter \<Rightarrow> ('x voter \<times> string) res" where
  "createContest L reg build blocks disk input v =
     sbind (assertLive v) (\<lambda>_.
     sbind (validateCriteria L reg input) (\<lambda>c.
     sbind (engineFor L build blocks disk c v) (\<lambda>(v1, topic).
     Inr (if jhas (vo_views v1) topic then v1 else v1\<lparr>vo_views := jset topic False (vo_views v1)\<rparr>, topic))))"

definition createContestVote ::
  "lib \<Rightarrow> 'x registry \<Rightarrow> (criteria \<Rightarrow> string \<Rightarrow> bytes \<Rightarrow> 'x engine_config res) \<Rightarrow> (cid, bytes) jsmap \<Rightarrow> bytes option \<Rightarrow> ipld \<Rightarrow>
     'x voter \<Rightarrow> ('x voter \<times> string) res" where
  "createContestVote L reg build blocks disk input v =
     sbind (assertLive v) (\<lambda>_. sbind (validateCriteria L reg input) (\<lambda>c. engineFor L build blocks disk c v))"

section \<open>Views\<close>

text \<open>\<open>update\<close> up to its join, its rollback when the join fails, and \<open>stop\<close> up to its leave.\<close>

definition set_listeners :: "(nat \<Rightarrow> nat) \<Rightarrow> 'x member \<Rightarrow> 'x member" where
  "set_listeners f m = m\<lparr>mb_engine := (mb_engine m)\<lparr>en_updateListeners := f (en_updateListeners (mb_engine m))\<rparr>\<rparr>"

definition view_subscribe :: "string \<Rightarrow> 'x voter \<Rightarrow> 'x voter" where
  "view_subscribe topic v =
     (case jget (vo_views v) topic of
        Some False \<Rightarrow> (at_engine topic (set_listeners Suc) v)\<lparr>vo_views := jset topic True (vo_views v)\<rparr>
      | _ \<Rightarrow> v)"

definition view_unsubscribe :: "string \<Rightarrow> 'x voter \<Rightarrow> 'x voter" where
  "view_unsubscribe topic v =
     (case jget (vo_views v) topic of
        Some True \<Rightarrow> (at_engine topic (set_listeners (\<lambda>n. n - 1)) v)\<lparr>vo_views := jset topic False (vo_views v)\<rparr>
      | _ \<Rightarrow> v)"

section \<open>Joining, leaving, destroying\<close>

definition member_joins :: "'x member \<Rightarrow> 'x member" where
  "member_joins m =
     (case join_begin (mb_engine m) of
        (en, Inr Starting) \<Rightarrow> m\<lparr>mb_engine := en, mb_joins := Suc (mb_joins m)\<rparr>
      | (en, _) \<Rightarrow> m\<lparr>mb_engine := en\<rparr>)"

definition member_started :: "'x member \<Rightarrow> 'x member" where
  "member_started m = m\<lparr>mb_engine := join_started (mb_engine m), mb_joins := mb_joins m - 1\<rparr>"

definition member_resets :: "'x member \<Rightarrow> 'x member" where
  "member_resets m =
     (case leave_reset (mb_engine m) of (en, wasJoined) \<Rightarrow> m\<lparr>mb_engine := en, mb_leaves := mb_leaves m @ [wasJoined]\<rparr>)"

definition member_left :: "bool \<Rightarrow> 'x member \<Rightarrow> 'x member" where
  "member_left wasJoined m =
     m\<lparr>mb_engine := leave_end wasJoined (mb_engine m), mb_leaves := remove1 wasJoined (mb_leaves m)\<rparr>"

definition destroy_begin :: "'x voter \<Rightarrow> 'x voter" where
  "destroy_begin v =
     unregisterResponder (announcer AnnouncerStop
       (v\<lparr>vo_destroyed := True,
          vo_engines := map (\<lambda>(topic, m). (topic, m\<lparr>mb_engine := markDestroyed (mb_engine m)\<rparr>)) (vo_engines v)\<rparr>))"

definition destroy_end :: "'x voter \<Rightarrow> 'x voter" where
  "destroy_end v = voter_call CloseStorage v"

text \<open>The steps of a voter: a contest is created, an engine works (any operation but its joining and
  leaving), a view subscribes or unsubscribes, and the four steps of joins and leaves.\<close>

inductive voter_step :: "'x voter \<Rightarrow> 'x voter \<Rightarrow> bool" where
  creates: "createContest L reg build blocks disk input v = Inr (v', topic) \<Longrightarrow> voter_step v v'"
| creates_vote: "createContestVote L reg build blocks disk input v = Inr (v', topic) \<Longrightarrow> voter_step v v'"
| works: "jget (vo_engines v) topic = Some m \<Longrightarrow> en_step (mb_config m) (mb_engine m) en' \<Longrightarrow> speaks (mb_engine m) en' \<Longrightarrow>
    voter_step v (at_engine topic (\<lambda>m. m\<lparr>mb_engine := en'\<rparr>) v)"
| subscribes: "voter_step v (view_subscribe topic v)"
| unsubscribes: "voter_step v (view_unsubscribe topic v)"
| joins: "voter_step v (at_engine topic member_joins v)"
| starts: "jget (vo_engines v) topic = Some m \<Longrightarrow> 0 < mb_joins m \<Longrightarrow> voter_step v (at_engine topic member_started v)"
| resets: "voter_step v (at_engine topic member_resets v)"
| leaves: "jget (vo_engines v) topic = Some m \<Longrightarrow> wasJoined \<in> set (mb_leaves m) \<Longrightarrow>
    voter_step v (at_engine topic (member_left wasJoined) v)"
| destroys: "voter_step v (destroy_begin v)"
| closes: "voter_step v (destroy_end v)"

text \<open>An orderly caller lets a join or leave of a contest end before the next one, and all of them before
  it destroys the client.\<close>

definition idle_at :: "string \<Rightarrow> 'x voter \<Rightarrow> bool" where
  "idle_at topic v \<longleftrightarrow> (\<forall>m. jget (vo_engines v) topic = Some m \<longrightarrow> mb_joins m = 0 \<and> mb_leaves m = [])"

inductive calm_voter :: "'x voter \<Rightarrow> 'x voter \<Rightarrow> bool" where
  creates: "createContest L reg build blocks disk input v = Inr (v', topic) \<Longrightarrow> calm_voter v v'"
| creates_vote: "createContestVote L reg build blocks disk input v = Inr (v', topic) \<Longrightarrow> calm_voter v v'"
| works: "jget (vo_engines v) topic = Some m \<Longrightarrow> en_step (mb_config m) (mb_engine m) en' \<Longrightarrow> speaks (mb_engine m) en' \<Longrightarrow>
    calm_voter v (at_engine topic (\<lambda>m. m\<lparr>mb_engine := en'\<rparr>) v)"
| subscribes: "calm_voter v (view_subscribe topic v)"
| unsubscribes: "calm_voter v (view_unsubscribe topic v)"
| joins: "idle_at topic v \<Longrightarrow> calm_voter v (at_engine topic member_joins v)"
| starts: "jget (vo_engines v) topic = Some m \<Longrightarrow> 0 < mb_joins m \<Longrightarrow> calm_voter v (at_engine topic member_started v)"
| resets: "idle_at topic v \<Longrightarrow> calm_voter v (at_engine topic member_resets v)"
| leaves: "jget (vo_engines v) topic = Some m \<Longrightarrow> wasJoined \<in> set (mb_leaves m) \<Longrightarrow>
    calm_voter v (at_engine topic (member_left wasJoined) v)"
| destroys: "\<forall>topic. idle_at topic v \<Longrightarrow> calm_voter v (destroy_begin v)"
| closes: "calm_voter v (destroy_end v)"

lemma calm_is_step: "calm_voter v v' \<Longrightarrow> voter_step v v'"
  by (induction rule: calm_voter.induct) (rule voter_step.intros; assumption)+

section \<open>The responder's answers\<close>

text \<open>What the seams answer each engine while its record is built: the clock, the chain head and the
  block store's writes, by topic.\<close>

record seams =
  se_now :: nat
  se_head :: "string \<Rightarrow> nat res"
  se_put :: "string \<Rightarrow> cid \<Rightarrow> unit res"

text \<open>The record of a joined engine, or nothing.\<close>

definition record_at :: "seams \<Rightarrow> string \<Rightarrow> 'x voter \<Rightarrow> 'x voter \<times> (fetch_root_record \<times> checkpoint_block list) option" where
  "record_at se topic v =
     (case jget (vo_engines v) topic of
        None \<Rightarrow> (v, None)
      | Some m \<Rightarrow>
          if \<not> en_joined (mb_engine m) then (v, None)
          else case rootRecordWithBlocks (mb_config m) (se_now se) (se_head se topic) (se_put se topic) (mb_engine m) of
                 (en, r) \<Rightarrow>
                   (v\<lparr>vo_engines := jset topic (m\<lparr>mb_engine := en\<rparr>) (vo_engines v)\<rparr>,
                    (case r of Inl _ \<Rightarrow> None | Inr answer \<Rightarrow> Some answer)))"

definition ends_with :: "string \<Rightarrow> string \<Rightarrow> bool" where
  "ends_with s suffix \<longleftrightarrow> length suffix \<le> length s \<and> drop (length s - length suffix) s = suffix"

text \<open>One pass of the bulk loop: the records so far and the inline budget left.\<close>

definition bulk_entry ::
  "seams \<Rightarrow> string \<Rightarrow> 'x voter \<times> (string, bulk_root_record) jsmap \<times> nat \<Rightarrow> 'x voter \<times> (string, bulk_root_record) jsmap \<times> nat" where
  "bulk_entry se topic st =
     (case st of (v, records, inlineBudget) \<Rightarrow>
        (case record_at se topic v of
           (v', None) \<Rightarrow> (v', records, inlineBudget)
         | (v', Some (r, chunkBlocks)) \<Rightarrow>
             let inlineBytes = sum_list (map (\<lambda>b. length (blk_bytes b)) chunkBlocks);
                 inline = (chunkBlocks \<noteq> [] \<and> inlineBytes \<le> inlineBudget)
             in (v',
                 jset topic (fetch_root_record.extend r
                   \<lparr>bk_chunkBlocks = (if inline then Some (map blk_bytes chunkBlocks) else None)\<rparr>) records,
                 (if inline then inlineBudget - inlineBytes else inlineBudget))))"

definition joined_topics :: "'x voter \<Rightarrow> string list" where
  "joined_topics v = map fst (filter (\<lambda>(topic, m). en_joined (mb_engine m)) (vo_engines v))"

definition bulk_records :: "seams \<Rightarrow> 'x voter \<Rightarrow> 'x voter \<times> (string, bulk_root_record) jsmap \<times> nat" where
  "bulk_records se v =
     fold (bulk_entry se) (take BULK_ROOTS_MAX_RECORDS (joined_topics v)) (v, [], BULK_ROOTS_MAX_INLINE_BYTES)"

definition bulkRootsAnswer :: "lib \<Rightarrow> seams \<Rightarrow> 'x voter \<Rightarrow> 'x voter \<times> bytes option" where
  "bulkRootsAnswer L se v =
     (case bulk_records se v of
        (v', records, _) \<Rightarrow> (v', case encodeBulkRootRecords L records of Inl _ \<Rightarrow> None | Inr bs \<Rightarrow> Some bs))"

definition rootLookup :: "lib \<Rightarrow> seams \<Rightarrow> string \<Rightarrow> 'x voter \<Rightarrow> 'x voter \<times> bytes option" where
  "rootLookup L se key v =
     (if key = BULK_ROOTS_FETCH_KEY then bulkRootsAnswer L se v
      else if \<not> ends_with key ROOT_FETCH_KEY_SUFFIX then (v, None)
      else case record_at se (take (length key - length ROOT_FETCH_KEY_SUFFIX) key) v of
             (v', None) \<Rightarrow> (v', None)
           | (v', Some (r, _)) \<Rightarrow> (v', case encodeRootRecord L r of Inl _ \<Rightarrow> None | Inr bs \<Rightarrow> Some bs))"

text \<open>The keys the announcer publishes; \<open>cid_str\<close> renders a CID.\<close>

definition announce_entry :: "lib \<Rightarrow> seams \<Rightarrow> string \<Rightarrow> 'x voter \<times> string list \<Rightarrow> 'x voter \<times> string list" where
  "announce_entry L se topic st =
     (case st of (v, keys) \<Rightarrow>
        (case record_at se topic v of
           (v', None) \<Rightarrow> (v', keys @ [drop (length TOPIC_PREFIX) topic])
         | (v', Some (r, _)) \<Rightarrow>
             (v', keys @ drop (length TOPIC_PREFIX) topic # cid_str L (rr_root r) # map (cid_str L) (fr_chunks r))))"

definition announceKeys :: "lib \<Rightarrow> seams \<Rightarrow> 'x voter \<Rightarrow> 'x voter \<times> string list" where
  "announceKeys L se v =
     (case fold (announce_entry L se) (joined_topics v) (v, []) of (v', keys) \<Rightarrow> (v', rev (remdups (rev keys))))"

text \<open>Block retention and the announcer's error fan-out.\<close>

definition voter_retainsBlock :: "(cid \<Rightarrow> bytes) \<Rightarrow> cid \<Rightarrow> 'x voter \<Rightarrow> bool" where
  "voter_retainsBlock multihash c v =
     list_ex (\<lambda>(topic, m). engine_retainsBlock (mb_config m) multihash c (mb_engine m)) (vo_engines v)"

end
