(* ===== verification/Voter_Lifecycle.thy ===== *)
theory Voter_Lifecycle
  imports Voter
begin

text \<open>
  The responder and the announcer live exactly while a contest is joined, when joins and leaves of a
  contest do not overlap: the count of joined engines is right, and a destroyed client stays silent.
\<close>

section \<open>The count\<close>

definition weight :: "'x member \<Rightarrow> nat" where
  "weight m = (if en_joined (mb_engine m) then 1 else 0) + length (filter id (mb_leaves m))"

definition total :: "'x voter \<Rightarrow> nat" where
  "total v = sum_list (map (\<lambda>(topic, m). weight m) (vo_engines v))"

text \<open>What holds of one engine: at most one call in flight, a join only of an engine that is not joined,
  and every engine is marked once the client is destroyed.\<close>

definition member_ok :: "bool \<Rightarrow> 'x member \<Rightarrow> bool" where
  "member_ok destroyed m \<longleftrightarrow>
     (mb_joins m = 0 \<or> mb_joins m = 1 \<and> mb_leaves m = [] \<and> \<not> en_joined (mb_engine m) \<and> \<not> destroyed) \<and>
     (mb_leaves m = [] \<or> (\<exists>w. mb_leaves m = [w]) \<and> \<not> en_joined (mb_engine m)) \<and>
     (destroyed \<longrightarrow> en_destroyed (mb_engine m))"

definition voter_ok :: "'x voter \<Rightarrow> bool" where
  "voter_ok v \<longleftrightarrow>
     jwf (vo_engines v) \<and> (\<forall>(topic, m) \<in> set (vo_engines v). member_ok (vo_destroyed v) m) \<and>
     vo_joinedEngines v = int (total v) \<and> (vo_responderRegistered v \<longleftrightarrow> 0 < total v \<and> \<not> vo_destroyed v)"

lemma voter_ok_start: "voter_ok (voter_start announcing)"
  by (simp add: voter_ok_def voter_start_def total_def)

lemma voter_okD: "voter_ok v \<Longrightarrow> jget (vo_engines v) topic = Some m \<Longrightarrow> member_ok (vo_destroyed v) m"
  unfolding voter_ok_def by (auto dest: jget_SomeD)

lemma sum_jset:
  assumes "jget ms t = Some m"
  shows "sum_list (map (\<lambda>(topic, m). f m) (jset t m' ms)) + f m = sum_list (map (\<lambda>(topic, m). f m) ms) + (f m' :: nat)"
  using assms by (induction ms) (auto split: if_splits)

lemma sum_jset_new:
  "jget ms t = None \<Longrightarrow> sum_list (map (\<lambda>(topic, m). f m) (jset t m' ms)) = sum_list (map (\<lambda>(topic, m). f m) ms) + (f m' :: nat)"
  by (induction ms) (auto split: if_splits)

section \<open>Notifications\<close>

lemma joined_fields:
  "vo_engines (onTopicJoined v) = vo_engines v" "vo_views (onTopicJoined v) = vo_views v"
  "vo_destroyed (onTopicJoined v) = vo_destroyed v" "vo_joinedEngines (onTopicJoined v) = vo_joinedEngines v + 1"
  "vo_responderRegistered (onTopicJoined v)"
  by (simp_all add: onTopicJoined_def Let_def announcer_def voter_call_def)

lemma left_fields:
  "vo_engines (onTopicLeft v) = vo_engines v" "vo_views (onTopicLeft v) = vo_views v"
  "vo_destroyed (onTopicLeft v) = vo_destroyed v" "vo_joinedEngines (onTopicLeft v) = vo_joinedEngines v - 1"
  "vo_responderRegistered (onTopicLeft v) \<longleftrightarrow> vo_responderRegistered v \<and> 1 < vo_joinedEngines v"
  by (simp_all add: onTopicLeft_def unregisterResponder_def Let_def announcer_def voter_call_def)

lemma heard_fields:
  "heard_from en (join_started en) = [TopicJoined]"
  "heard_from en (leave_end w en) = (if w then [TopicLeft] else [])"
  "heard_from en (fst (leave_reset en)) = []"
  "heard_from en (fst (join_begin en)) = []"
  "heard_from en (en\<lparr>en_updateListeners := n\<rparr>) = []"
  by (simp_all add: heard_from_def join_started_def leave_end_def leave_reset_def join_begin_def call_def Let_def)

lemma speaks_notices:
  fixes v :: "'x voter"
  assumes "speaks en en'"
  shows "fold notice (heard_from en en') v = v" "en_joined en' = en_joined en" "en_destroyed en' = en_destroyed en"
proof -
  from assms obtain cs where cs: "tells en en' cs" "\<forall>c \<in> set cs. \<not> topic_call c" by (auto simp: speaks_def)
  from cs(1) show "en_joined en' = en_joined en" "en_destroyed en' = en_destroyed en" by (simp_all add: tells_def)
  from cs(1) have heard: "heard_from en en' = cs" by (simp add: heard_from_def tells_def)
  have "notice c v = v" if "\<not> topic_call c" for c and v :: "'x voter" using that by (cases c) simp_all
  with cs(2) have "fold notice cs v = v" by (induction cs arbitrary: v) auto
  with heard show "fold notice (heard_from en en') v = v" by simp
qed

section \<open>Steps\<close>

lemma voter_ok_put:
  assumes ok: "voter_ok v" and m: "jget (vo_engines v) topic = Some m" and m': "member_ok (vo_destroyed v) m'"
    and "vo_engines v' = jset topic m' (vo_engines v)" "vo_destroyed v' = vo_destroyed v"
    and "vo_joinedEngines v' = vo_joinedEngines v + int (weight m') - int (weight m)"
    and "vo_responderRegistered v' \<longleftrightarrow> 0 < vo_joinedEngines v' \<and> \<not> vo_destroyed v"
  shows "voter_ok v'"
proof -
  have "total v' + weight m = total v + weight m'"
    unfolding total_def assms(4) by (rule sum_jset [OF m])
  then have "vo_joinedEngines v' = int (total v')" using ok assms(6) by (simp add: voter_ok_def)
  moreover have "jwf (vo_engines v)" using ok by (simp add: voter_ok_def)
  then have "jwf (vo_engines v')" unfolding assms(4) by (rule jwf_jset)
  moreover have "\<forall>(topic, m) \<in> set (vo_engines v'). member_ok (vo_destroyed v') m"
    using ok m' set_jset_subset [of topic m' "vo_engines v"] unfolding voter_ok_def assms(4,5) by auto
  ultimately show ?thesis using assms(5,7) by (simp add: voter_ok_def)
qed

lemma voter_ok_work:
  assumes "voter_ok v" "jget (vo_engines v) topic = Some m" "speaks (mb_engine m) en'"
  shows "voter_ok (at_engine topic (\<lambda>m. m\<lparr>mb_engine := en'\<rparr>) v)"
proof (rule voter_ok_put [OF assms(1,2)])
  note quiet = speaks_notices(2,3) [OF assms(3)]
  note ok = voter_okD [OF assms(1,2)]
  show "member_ok (vo_destroyed v) (m\<lparr>mb_engine := en'\<rparr>)" using ok quiet by (simp add: member_ok_def)
  show "vo_responderRegistered (at_engine topic (\<lambda>m. m\<lparr>mb_engine := en'\<rparr>) v) \<longleftrightarrow>
      0 < vo_joinedEngines (at_engine topic (\<lambda>m. m\<lparr>mb_engine := en'\<rparr>) v) \<and> \<not> vo_destroyed v"
    using assms(1,2) by (simp add: at_engine_def voter_ok_def speaks_notices(1) [OF assms(3)])
qed (use assms(2) speaks_notices(2) [OF assms(3)] in \<open>simp_all add: at_engine_def weight_def speaks_notices(1) [OF assms(3)]\<close>)

lemma voter_ok_started:
  assumes ok: "voter_ok v" and at: "jget (vo_engines v) topic = Some m" and join: "0 < mb_joins m"
  shows "voter_ok (at_engine topic member_started v)"
proof (rule voter_ok_put [OF ok at])
  from voter_okD [OF ok at] join have m: "mb_joins m = 1" "mb_leaves m = []" "\<not> en_joined (mb_engine m)" "\<not> vo_destroyed v"
    by (auto simp: member_ok_def)
  show "member_ok (vo_destroyed v) (member_started m)"
    using m by (simp add: member_ok_def member_started_def)
  show "vo_joinedEngines (at_engine topic member_started v) = vo_joinedEngines v + int (weight (member_started m)) - int (weight m)"
    using at m
    by (simp add: at_engine_def member_started_def heard_fields joined_fields weight_def) (simp add: join_started_def call_def)
  show "vo_responderRegistered (at_engine topic member_started v) \<longleftrightarrow>
      0 < vo_joinedEngines (at_engine topic member_started v) \<and> \<not> vo_destroyed v"
    using at m(4) ok by (simp add: at_engine_def member_started_def heard_fields joined_fields voter_ok_def)
qed (use at in \<open>simp_all add: at_engine_def member_started_def heard_fields joined_fields\<close>)

lemma voter_ok_joins:
  assumes ok: "voter_ok v" and idle: "idle_at topic v"
  shows "voter_ok (at_engine topic member_joins v)"
proof (cases "jget (vo_engines v) topic")
  case (Some m)
  from idle Some have m: "mb_joins m = 0" "mb_leaves m = []" by (auto simp: idle_at_def)
  obtain en r where r: "join_begin (mb_engine m) = (en, r)" by fastforce
  have en: "heard_from (mb_engine m) en = []" "en_joined en = en_joined (mb_engine m)" "en_destroyed en = en_destroyed (mb_engine m)"
    using heard_fields(4) [of "mb_engine m"] r by (auto simp: join_begin_def split: if_splits)
  have joins: "member_joins m = (if r = Inr Starting then m\<lparr>mb_engine := en, mb_joins := Suc (mb_joins m)\<rparr> else m\<lparr>mb_engine := en\<rparr>)"
    by (cases r) (auto simp: member_joins_def r split: join_begun.splits)
  have start: "r = Inr Starting \<Longrightarrow> \<not> en_joined (mb_engine m) \<and> \<not> en_destroyed (mb_engine m)"
    using r by (auto simp: join_begin_def split: if_splits)
  show ?thesis
  proof (rule voter_ok_put [OF ok Some])
    show "member_ok (vo_destroyed v) (member_joins m)"
      using voter_okD [OF ok Some] m start by (auto simp: member_ok_def joins en)
    show "vo_responderRegistered (at_engine topic member_joins v) \<longleftrightarrow>
        0 < vo_joinedEngines (at_engine topic member_joins v) \<and> \<not> vo_destroyed v"
      using Some ok by (simp add: at_engine_def joins en voter_ok_def)
  qed (use Some in \<open>simp_all add: at_engine_def joins en weight_def\<close>)
qed (use ok in \<open>simp add: at_engine_def\<close>)

lemma voter_ok_resets:
  assumes ok: "voter_ok v" and idle: "idle_at topic v"
  shows "voter_ok (at_engine topic member_resets v)"
proof (cases "jget (vo_engines v) topic")
  case (Some m)
  from idle Some have m: "mb_joins m = 0" "mb_leaves m = []" by (auto simp: idle_at_def)
  have resets: "member_resets m =
      m\<lparr>mb_engine := fst (leave_reset (mb_engine m)), mb_leaves := [en_joined (mb_engine m)]\<rparr>"
    by (simp add: member_resets_def leave_reset_def m)
  have en: "\<not> en_joined (fst (leave_reset (mb_engine m)))"
    "en_destroyed (fst (leave_reset (mb_engine m))) = en_destroyed (mb_engine m)"
    by (simp_all add: leave_reset_def call_def)
  show ?thesis
  proof (rule voter_ok_put [OF ok Some])
    show "member_ok (vo_destroyed v) (member_resets m)"
      using voter_okD [OF ok Some] m by (auto simp: member_ok_def resets en)
    show "vo_responderRegistered (at_engine topic member_resets v) \<longleftrightarrow>
        0 < vo_joinedEngines (at_engine topic member_resets v) \<and> \<not> vo_destroyed v"
      using Some ok by (simp add: at_engine_def resets heard_fields voter_ok_def)
  qed (use Some m in \<open>simp_all add: at_engine_def resets heard_fields weight_def en\<close>)
qed (use ok in \<open>simp add: at_engine_def\<close>)

lemma voter_ok_left:
  assumes ok: "voter_ok v" and at: "jget (vo_engines v) topic = Some m" and w: "w \<in> set (mb_leaves m)"
  shows "voter_ok (at_engine topic (member_left w) v)"
proof (rule voter_ok_put [OF ok at])
  note mok = voter_okD [OF ok at]
  with w have m: "mb_leaves m = [w]" "\<not> en_joined (mb_engine m)" "mb_joins m = 0" by (auto simp: member_ok_def)
  have en: "en_joined (leave_end w (mb_engine m)) = en_joined (mb_engine m)"
    "en_destroyed (leave_end w (mb_engine m)) = en_destroyed (mb_engine m)"
    by (simp_all add: leave_end_def Let_def call_def)
  have left: "member_left w m = m\<lparr>mb_engine := leave_end w (mb_engine m), mb_leaves := []\<rparr>"
    by (simp add: member_left_def m)
  show "member_ok (vo_destroyed v) (member_left w m)" using mok m by (simp add: member_ok_def left en)
  show "vo_joinedEngines (at_engine topic (member_left w) v) = vo_joinedEngines v + int (weight (member_left w m)) - int (weight m)"
    using at by (simp add: at_engine_def left heard_fields left_fields weight_def en m)
  show "vo_responderRegistered (at_engine topic (member_left w) v) \<longleftrightarrow>
      0 < vo_joinedEngines (at_engine topic (member_left w) v) \<and> \<not> vo_destroyed v"
    using at ok by (auto simp: at_engine_def left heard_fields left_fields voter_ok_def)
qed (use at in \<open>simp_all add: at_engine_def member_left_def heard_fields left_fields\<close>)

lemma voter_ok_views: "voter_ok v \<Longrightarrow> voter_ok (v\<lparr>vo_views := x\<rparr>)"
  by (simp add: voter_ok_def total_def)

lemma voter_ok_listeners: "voter_ok v \<Longrightarrow> voter_ok (at_engine topic (set_listeners f) v)"
proof (cases "jget (vo_engines v) topic")
  case (Some m)
  assume ok: "voter_ok v"
  show ?thesis
  proof (rule voter_ok_put [OF ok Some])
    show "member_ok (vo_destroyed v) (set_listeners f m)"
      using voter_okD [OF ok Some] by (simp add: member_ok_def set_listeners_def)
    show "vo_responderRegistered (at_engine topic (set_listeners f) v) \<longleftrightarrow>
        0 < vo_joinedEngines (at_engine topic (set_listeners f) v) \<and> \<not> vo_destroyed v"
      using Some ok by (simp add: at_engine_def set_listeners_def heard_fields voter_ok_def)
  qed (use Some in \<open>simp_all add: at_engine_def set_listeners_def heard_fields weight_def\<close>)
qed (simp add: at_engine_def)

lemma voter_ok_engineFor:
  assumes "voter_ok v" "\<not> vo_destroyed v" "engineFor L build blocks disk c v = Inr (v', topic)"
  shows "voter_ok v' \<and> vo_destroyed v' = vo_destroyed v"
proof (cases "jget (vo_engines v) topic")
  case None
  with assms(3) obtain C where v': "v' = v\<lparr>vo_engines := jset topic
      \<lparr>mb_config = C, mb_engine = engine_start blocks disk, mb_joins = 0, mb_leaves = []\<rparr> (vo_engines v)\<rparr>"
    by (auto simp: engineFor_def Let_def res_simps split: option.splits)
  have "weight \<lparr>mb_config = C, mb_engine = engine_start blocks disk, mb_joins = 0, mb_leaves = []\<rparr> = 0"
    by (simp add: weight_def engine_start_def)
  then have "total v' = total v" unfolding total_def v' using sum_jset_new [OF None, of weight] by simp
  moreover have "jwf (vo_engines v')" unfolding v' using assms(1) jwf_jset by (simp add: voter_ok_def) blast
  moreover have "\<forall>(t, m) \<in> set (vo_engines v'). member_ok (vo_destroyed v') m"
  proof -
    have "member_ok (vo_destroyed v) \<lparr>mb_config = C, mb_engine = engine_start blocks disk, mb_joins = 0, mb_leaves = []\<rparr>"
      using assms(2) by (simp add: member_ok_def)
    moreover have "\<forall>(t, m) \<in> set (vo_engines v). member_ok (vo_destroyed v) m" using assms(1) by (simp add: voter_ok_def)
    ultimately show ?thesis using set_jset_subset [of topic _ "vo_engines v"] unfolding v' by fastforce
  qed
  moreover have "vo_destroyed v' = vo_destroyed v" "vo_joinedEngines v' = vo_joinedEngines v"
    "vo_responderRegistered v' = vo_responderRegistered v" by (simp_all add: v')
  ultimately show ?thesis using assms(1) by (simp add: voter_ok_def)
next
  case (Some m)
  with assms show ?thesis by (auto simp: engineFor_def Let_def res_simps split: option.splits)
qed

lemma voter_ok_destroys:
  assumes ok: "voter_ok v" and idle: "\<forall>topic. idle_at topic v"
  shows "voter_ok (destroy_begin v)"
proof -
  let ?f = "\<lambda>(topic, m :: 'a member). (topic, m\<lparr>mb_engine := markDestroyed (mb_engine m)\<rparr>)"
  have fields: "vo_engines (destroy_begin v) = map ?f (vo_engines v)" "vo_destroyed (destroy_begin v)"
    "vo_joinedEngines (destroy_begin v) = vo_joinedEngines v" "\<not> vo_responderRegistered (destroy_begin v)"
    by (simp_all add: destroy_begin_def unregisterResponder_def announcer_def voter_call_def)
  have "map fst (map ?f (vo_engines v)) = map fst (vo_engines v)" by (simp add: split_beta)
  moreover have "distinct (map fst (vo_engines v))" using ok by (simp add: voter_ok_def jwf_def)
  ultimately have wf: "jwf (vo_engines (destroy_begin v))" unfolding fields jwf_def by metis
  have "weight (m\<lparr>mb_engine := markDestroyed (mb_engine m)\<rparr>) = weight m" for m :: "'a member"
    by (simp add: weight_def markDestroyed_def)
  then have "map (\<lambda>(topic, m). weight m) (map ?f (vo_engines v)) = map (\<lambda>(topic, m). weight m) (vo_engines v)" by auto
  then have "total (destroy_begin v) = total v" unfolding total_def fields by metis
  moreover have "member_ok True (m\<lparr>mb_engine := markDestroyed (mb_engine m)\<rparr>)" if "(topic, m) \<in> set (vo_engines v)" for topic m
  proof -
    from ok that have "jget (vo_engines v) topic = Some m" using jget_mem by (metis voter_ok_def)
    with idle have "mb_joins m = 0" "mb_leaves m = []" by (auto simp: idle_at_def)
    then show ?thesis by (simp add: member_ok_def markDestroyed_def)
  qed
  ultimately show ?thesis using ok wf fields by (auto simp: voter_ok_def)
qed

lemma voter_ok_step:
  assumes step: "calm_voter v v'" and ok: "voter_ok v"
  shows "voter_ok v'"
  using step
proof cases
  case (creates L reg build blocks disk input topic)
  then obtain c v1 where "\<not> vo_destroyed v" "engineFor L build blocks disk c v = Inr (v1, topic)"
    "v' = v1 \<or> v' = v1\<lparr>vo_views := jset topic False (vo_views v1)\<rparr>"
    by (auto simp: createContest_def assertLive_def res_simps)
  with voter_ok_engineFor [OF ok] voter_ok_views show ?thesis by blast
next
  case (creates_vote L reg build blocks disk input topic)
  then obtain c where "\<not> vo_destroyed v" "engineFor L build blocks disk c v = Inr (v', topic)"
    by (auto simp: createContestVote_def assertLive_def res_simps)
  with voter_ok_engineFor [OF ok] show ?thesis by blast
next
  case (works topic m en')
  then show ?thesis using voter_ok_work [OF ok] by simp
next
  case (subscribes topic)
  then show ?thesis
    using ok voter_ok_views [OF voter_ok_listeners [OF ok]] by (simp add: view_subscribe_def split: option.splits bool.splits)
next
  case (unsubscribes topic)
  then show ?thesis
    using ok voter_ok_views [OF voter_ok_listeners [OF ok]] by (simp add: view_unsubscribe_def split: option.splits bool.splits)
next
  case closes
  then show ?thesis using ok by (simp add: destroy_end_def voter_call_def voter_ok_def total_def)
qed (use ok in \<open>auto intro: voter_ok_started voter_ok_joins voter_ok_resets voter_ok_left voter_ok_destroys\<close>)

lemma voter_ok_reachable: "calm_voter\<^sup>*\<^sup>* (voter_start announcing) v \<Longrightarrow> voter_ok v"
  by (induction rule: rtranclp_induct) (auto intro: voter_ok_start voter_ok_step)

end
