(* ===== verification/Voter_Properties.thy ===== *)
theory Voter_Properties
  imports Voter_Lifecycle Publication_Properties
begin

text \<open>
  What the client promises: its responder and announcer follow the joined contests, a destroyed client
  is silent, its answers are the records of joined contests within their budgets; and what overlapping
  joins do to the first two.
\<close>

section \<open>The responder's lifecycle\<close>




text \<open>A destroyed client is silent. Once an orderly client is destroyed it is never registered as a
  responder again, no join is in flight, each further join throws \<open>VoterDestroyedError\<close>, and so does
  each way of creating a contest.\<close>

theorem destroyed_is_silent:
  assumes "calm_voter\<^sup>*\<^sup>* (voter_start announcing) v" "vo_destroyed v"
  shows "\<not> vo_responderRegistered v \<and>
    (jget (vo_engines v) topic = Some m \<longrightarrow> mb_joins m = 0 \<and> snd (join_begin (mb_engine m)) = Inl VoterDestroyedError) \<and>
    createContest L reg build blocks disk input v = Inl VoterDestroyedError \<and>
    createContestVote L reg build blocks disk input v = Inl VoterDestroyedError"
proof -
  note ok = voter_ok_reachable [OF assms(1)]
  have "mb_joins m = 0 \<and> snd (join_begin (mb_engine m)) = Inl VoterDestroyedError" if "jget (vo_engines v) topic = Some m"
    using voter_okD [OF ok that] assms(2) by (auto simp: member_ok_def join_begin_def)
  with ok assms(2) show ?thesis
    by (simp add: voter_ok_def createContest_def createContestVote_def assertLive_def guard_def)
qed

section \<open>Calls that overlap\<close>

definition joined_at :: "string \<Rightarrow> 'x voter \<Rightarrow> bool" where
  "joined_at topic v \<longleftrightarrow> (\<exists>m. jget (vo_engines v) topic = Some m \<and> en_joined (mb_engine m))"

lemma notices_engines: "vo_engines (fold notice cs v) = vo_engines v"
proof (induction cs arbitrary: v)
  case (Cons c cs)
  have "vo_engines (notice c v) = vo_engines v" by (cases c) (simp_all add: joined_fields left_fields)
  with Cons show ?case by simp
qed simp

lemma notices_destroyed: "vo_destroyed (fold notice cs v) = vo_destroyed v"
proof (induction cs arbitrary: v)
  case (Cons c cs)
  have "vo_destroyed (notice c v) = vo_destroyed v" by (cases c) (simp_all add: joined_fields left_fields)
  with Cons show ?case by simp
qed simp

lemma at_engine_destroyed [simp]: "vo_destroyed (at_engine t f v) = vo_destroyed v"
  by (simp add: at_engine_def notices_destroyed split: option.splits)

lemma at_engine_get: "jget (vo_engines v) t = Some m \<Longrightarrow> jget (vo_engines (at_engine t f v)) t = Some (f m)"
  by (simp add: at_engine_def jsmap_simps notices_engines)

text \<open>Overlapping joins are not idempotent. Two calls of \<open>join\<close> that both find the contest not joined
  (two votes of one contest published at once) both count it; after the one \<open>leave\<close> nothing is joined
  and nothing is in flight, but the responder stays registered and the count stays one too high.\<close>

theorem overlapping_joins_leak:
  assumes "jget (vo_engines v) topic = Some m" "mb_joins m = 0" "mb_leaves m = []"
    and "\<not> en_joined (mb_engine m)" "\<not> en_destroyed (mb_engine m)" "0 \<le> vo_joinedEngines v"
  shows "\<exists>v'. voter_step\<^sup>*\<^sup>* v v' \<and> idle_at topic v' \<and> \<not> joined_at topic v' \<and>
    vo_joinedEngines v' = vo_joinedEngines v + 1 \<and> vo_responderRegistered v'"
proof -
  let ?v1 = "at_engine topic member_joins v"
  let ?v2 = "at_engine topic member_joins ?v1"
  let ?v3 = "at_engine topic member_started ?v2"
  let ?v4 = "at_engine topic member_started ?v3"
  let ?v5 = "at_engine topic member_resets ?v4"
  let ?v6 = "at_engine topic (member_left True) ?v5"
  let ?m2 = "member_joins (member_joins m)"
  let ?m4 = "member_started (member_started ?m2)"
  note g1 = at_engine_get [OF assms(1)]
  note g2 = at_engine_get [OF g1]
  note g3 = at_engine_get [OF g2]
  note g4 = at_engine_get [OF g3]
  note g5 = at_engine_get [OF g4]
  note g6 = at_engine_get [OF g5]
  have started: "join_begin en = (en\<lparr>en_checkpointDirty := True, en_rootRecordCache := None, en_chaser := True, en_transport := True\<rparr>, Inr Starting)"
    if "\<not> en_destroyed en" "\<not> en_joined en" for en using that by (simp add: join_begin_def)
  have j1: "member_joins m = m\<lparr>mb_engine := fst (join_begin (mb_engine m)), mb_joins := 1\<rparr>"
    using assms by (simp add: member_joins_def started)
  have j2: "?m2 = (member_joins m)\<lparr>mb_engine := fst (join_begin (mb_engine (member_joins m))), mb_joins := 2\<rparr>"
    using assms unfolding j1 by (simp add: member_joins_def started)
  have m2: "mb_joins ?m2 = 2" "mb_leaves ?m2 = []" unfolding j2 using assms by (simp_all add: j1)
  have m4: "mb_joins ?m4 = 0" "mb_leaves ?m4 = []" "en_joined (mb_engine ?m4)"
    using m2 by (simp_all add: member_started_def join_started_def call_def)
  have m5: "mb_joins (member_resets ?m4) = 0" "mb_leaves (member_resets ?m4) = [True]" "\<not> en_joined (mb_engine (member_resets ?m4))"
    using m4 by (simp_all add: member_resets_def leave_reset_def call_def)
  have m6: "mb_joins (member_left True (member_resets ?m4)) = 0" "mb_leaves (member_left True (member_resets ?m4)) = []"
    "\<not> en_joined (mb_engine (member_left True (member_resets ?m4)))"
    using m5 by (simp_all add: member_left_def leave_end_def Let_def call_def)
  have quiet: "heard_from (mb_engine x) (mb_engine (member_joins x)) = []" for x :: "'a member"
  proof -
    obtain en r where "join_begin (mb_engine x) = (en, r)" by fastforce
    with heard_fields(4) [of "mb_engine x"] show ?thesis by (simp add: member_joins_def split: sum.splits join_begun.splits)
  qed
  have c1: "vo_joinedEngines ?v1 = vo_joinedEngines v" using assms(1) by (simp add: at_engine_def quiet)
  have c2: "vo_joinedEngines ?v2 = vo_joinedEngines v" using g1 c1 by (simp add: at_engine_def quiet)
  have c3: "vo_joinedEngines ?v3 = vo_joinedEngines v + 1"
    using g2 c2 by (simp add: at_engine_def [of _ member_started] heard_fields member_started_def joined_fields)
  have c4: "vo_joinedEngines ?v4 = vo_joinedEngines v + 2" "vo_responderRegistered ?v4"
    using g3 c3 by (simp_all add: at_engine_def [of _ member_started ?v3] heard_fields member_started_def joined_fields)
  have c5: "vo_joinedEngines ?v5 = vo_joinedEngines v + 2" "vo_responderRegistered ?v5"
    using g4 c4 heard_fields(3) [of "mb_engine ?m4"] by (simp_all add: at_engine_def [of _ member_resets] member_resets_def split_beta)
  have c6: "vo_joinedEngines ?v6 = vo_joinedEngines v + 1" "vo_responderRegistered ?v6"
    using g5 c5 assms(6) by (simp_all add: at_engine_def [of _ "member_left True"] member_left_def heard_fields left_fields)
  have "voter_step v ?v1" "voter_step ?v1 ?v2" by (rule voter_step.joins)+
  moreover have "voter_step ?v2 ?v3" by (rule voter_step.starts [OF g2]) (simp add: m2)
  moreover have "voter_step ?v3 ?v4" by (rule voter_step.starts [OF g3]) (simp add: m2 member_started_def)
  moreover have "voter_step ?v4 ?v5" by (rule voter_step.resets)
  moreover have "voter_step ?v5 ?v6" by (rule voter_step.leaves [OF g5]) (simp add: m5)
  ultimately have "voter_step\<^sup>*\<^sup>* v ?v6" by (meson converse_rtranclp_into_rtranclp rtranclp.rtrancl_refl)
  moreover have "idle_at topic ?v6" "\<not> joined_at topic ?v6" using g6 m6 by (simp_all add: idle_at_def joined_at_def)
  ultimately show ?thesis using c6 by blast
qed


section \<open>Contests\<close>

lemma validated_weight:
  "validateCriteriaRules c reg = Inr () \<Longrightarrow>
     \<exists>w opts. jget reg (ref_type (c_weight c)) = Some w \<and> ru_parse w (c_weight c) = Some opts"
  by (auto simp: validateCriteriaRules_def validate_ref_def res_simps)

text \<open>An engine that counts in the document's buckets, on its chain, under its CID, and checks and tallies
  votes by it.\<close>

definition engine_of_document :: "lib \<Rightarrow> recover \<Rightarrow> criteria \<Rightarrow> 'x engine_config \<Rightarrow> bool" where
  "engine_of_document L recover c C \<longleftrightarrow>
     eg_lib C = L \<and> eg_topic C = topicFor L c \<and> eg_criteriaCid C = criteriaCid L c \<and> eg_chainId C = c_bucketChainId c \<and>
     bucketForBlock (eg_bucketMath C) = bucket_of (c_blocksPerBucket c) \<and>
     sampleBlockForBucket (eg_bucketMath C) = sample_of (c_blocksPerBucket c) \<and>
     eg_voteExpiryBuckets C = c_voteExpiryBuckets c \<and>
     (\<forall>b. eg_verifyOffline C b =
        (case verifyBundleSignature recover b (criteriaCid L c) (c_bucketChainId c) of
           Invalid d r fs \<Rightarrow> Invalid d r fs | Valid _ \<Rightarrow> checkBundleConstraints b c)) \<and>
     ta_criteria (eg_tally C) = c \<and> ta_bucketMath (eg_tally C) = eg_bucketMath C"

lemma make_engine_validated:
  assumes "CriteriaSchema L input = Inr c" "validateCriteriaRules c reg = Inr ()" "chain_of (c_bucketChainId c) = Some chain"
  shows "\<exists>C. make_engine L recover chain_of leaf_ctx weight_ctx reg resolvers cache c (topicFor L c) (criteriaCid L c) = Inr C \<and>
    engine_of_document L recover c C"
proof -
  from CriteriaSchema_fields(1) [OF assms(1)]
  have bm: "makeBucketMath (int (c_blocksPerBucket c)) =
      Inr \<lparr>bucketForBlock = bucket_of (c_blocksPerBucket c), sampleBlockForBucket = sample_of (c_blocksPerBucket c)\<rparr>"
    by (simp add: makeBucketMath_def)
  from validated_weight [OF assms(2)] obtain w opts where w: "jget reg (ref_type (c_weight c)) = Some w" "ru_parse w (c_weight c) = Some opts"
    by blast
  from resolveGate_validated [OF assms(2)] obtain ls where "resolveGate L c reg (leaf_ctx chain) = Inr ls" by blast
  with assms(3) bm w show ?thesis
    by (auto simp: make_engine_def makeBundleVerifier_def makeTally_def engine_of_document_def verifyOffline_def split: verdict.split)
qed

text \<open>C37: A contest that validates gets an engine of its document. When a live client creates a contest it has
  no engine for, from a document that passes the schema and whose rules are registered, the only way to
  fail is a missing client for the document's chain. Otherwise the client then holds, under the topic of
  the document's CID, a new engine over its stores that counts in the document's buckets and expiry, on
  its chain, checks votes offline against the document and tallies under it; and that topic is the answer.\<close>

theorem validated_contest_builds:
  assumes "CriteriaSchema L input = Inr c" "validateCriteriaRules c reg = Inr ()"
    and "\<not> vo_destroyed v" "jget (vo_engines v) (topicFor L c) = None"
    and build: "build = make_engine L recover chain_of leaf_ctx weight_ctx reg resolvers cache"
  shows "(chain_of (c_bucketChainId c) = None \<and>
       createContest L reg build blocks disk input v = Inl (MissingChainClientError (c_bucketChainId c))) \<or>
    (\<exists>v' m. chain_of (c_bucketChainId c) \<noteq> None \<and> createContest L reg build blocks disk input v = Inr (v', topicFor L c) \<and>
       jget (vo_engines v') (topicFor L c) = Some m \<and> mb_engine m = engine_start blocks disk \<and>
       engine_of_document L recover c (mb_config m))"
proof (cases "chain_of (c_bucketChainId c)")
  case None
  then have "build c topic cid = Inl (MissingChainClientError (c_bucketChainId c))" for topic cid
    by (simp add: build make_engine_def require_some_def)
  with None assms(1-4) show ?thesis
    by (simp add: createContest_def assertLive_def validateCriteria_def engineFor_def Let_def guard_def topicFor_def)
next
  case (Some chain)
  from make_engine_validated [of L input c reg chain_of chain, OF assms(1,2) Some] obtain C where
    C: "build c (topicFor L c) (criteriaCid L c) = Inr C" "engine_of_document L recover c C" unfolding build by blast
  let ?m = "\<lparr>mb_config = C, mb_engine = engine_start blocks disk, mb_joins = 0, mb_leaves = []\<rparr>"
  have "\<exists>v'. createContest L reg build blocks disk input v = Inr (v', topicFor L c) \<and> vo_engines v' = jset (topicFor L c) ?m (vo_engines v)"
    using assms(1-4) C(1)
    by (simp add: createContest_def assertLive_def validateCriteria_def engineFor_def Let_def guard_def topicFor_def)
  then obtain v' where "createContest L reg build blocks disk input v = Inr (v', topicFor L c)"
    "vo_engines v' = jset (topicFor L c) ?m (vo_engines v)" by blast
  with Some C(2) show ?thesis by (intro disjI2 exI [of _ v'] exI [of _ ?m]) (simp add: jsmap_simps)
qed

lemma sample_criteria_parses: "CriteriaSchema L (criteria_ipld sample_criteria) = Inr sample_criteria"
  by (simp add: sample_criteria_def criteria_ipld_def ref_ipld_def
      CriteriaSchema_def parse_criteria_def obj_get_def strict_keys_def criteria_keys_def nonempty_string_def
      VoteRangeSchema_def RequiresSchema_def positive_int_def as_nat_def safe_int_def max_safe_integer_def
      sample_gate RuleRefSchema_def sadd_def)

definition sample_registry :: "unit registry" where
  "sample_registry = [(''constant'', constant_rule)]"

definition sample_build :: "criteria \<Rightarrow> string \<Rightarrow> bytes \<Rightarrow> unit engine_config res" where
  "sample_build = make_engine sample_lib (\<lambda>_ _. Inr []) (\<lambda>_. Some ()) (\<lambda>_ _. ()) (\<lambda>_. ()) sample_registry [] (None :: unit lru_ops option)"

lemma sample_validates: "validateCriteriaRules sample_criteria sample_registry = Inr ()"
  by (simp add: validateCriteriaRules_def sample_criteria_def validate_ref_def constant_rule_def sample_registry_def
      ConstantOptionsSchema_def positive_default_def require_some_def)

theorem validated_contest_builds_witness:
  "\<exists>v' m. createContest sample_lib sample_registry sample_build [] None (criteria_ipld sample_criteria) (voter_start True) =
      Inr (v', topicFor sample_lib sample_criteria) \<and> jget (vo_engines v') (topicFor sample_lib sample_criteria) = Some m \<and>
     bucketForBlock (eg_bucketMath (mb_config m)) 25 = 2"
proof -
  have "\<not> vo_destroyed (voter_start True :: unit voter)" "jget (vo_engines (voter_start True :: unit voter)) t = None" for t
    by (simp_all add: voter_start_def)
  from validated_contest_builds [OF sample_criteria_parses sample_validates this sample_build_def, of "[]" None]
  show ?thesis by (auto simp: engine_of_document_def bucket_of_def sample_criteria_def)
qed

text \<open>A client that creates the contest, joins it, leaves it, and is destroyed.\<close>

definition sample_topic :: string where
  "sample_topic = TOPIC_PREFIX @ cid_str sample_lib (criteriaCid sample_lib sample_criteria)"

definition sample_config :: "unit engine_config" where
  "sample_config = (case sample_build sample_criteria sample_topic (criteriaCid sample_lib sample_criteria) of
     Inr C \<Rightarrow> C | Inl _ \<Rightarrow> sample_engine)"

definition sample_member :: "unit member" where
  "sample_member = \<lparr>mb_config = sample_config, mb_engine = engine_start [] None, mb_joins = 0, mb_leaves = []\<rparr>"

definition voter_created :: "unit voter" where
  "voter_created = (voter_start True)\<lparr>vo_engines := [(sample_topic, sample_member)]\<rparr>"

definition voter_joined :: "unit voter" where
  "voter_joined = at_engine sample_topic member_started (at_engine sample_topic member_joins voter_created)"

lemma voter_creates_sample:
  "createContestVote sample_lib sample_registry sample_build [] None (criteria_ipld sample_criteria) (voter_start True) =
     Inr (voter_created, sample_topic)"
proof -
  have "\<exists>C. sample_build sample_criteria sample_topic (criteriaCid sample_lib sample_criteria) = Inr C"
    using make_engine_validated [OF sample_criteria_parses sample_validates, of "\<lambda>_. Some ()" "()" sample_lib]
    unfolding sample_build_def sample_topic_def topicFor_def by blast
  then have "sample_build sample_criteria sample_topic (criteriaCid sample_lib sample_criteria) = Inr sample_config"
    by (auto simp: sample_config_def)
  then show ?thesis
    by (simp add: createContestVote_def assertLive_def voter_start_def validateCriteria_def sample_criteria_parses sample_validates
        engineFor_def Let_def sample_topic_def [symmetric] voter_created_def sample_member_def)
qed

lemma voter_creates: "calm_voter (voter_start True) voter_created"
  using voter_creates_sample by (rule calm_voter.creates_vote)

lemma sample_member_at: "jget (vo_engines voter_created) sample_topic = Some sample_member"
  "mb_joins sample_member = 0" "mb_leaves sample_member = []" "\<not> en_joined (mb_engine sample_member)"
  "\<not> en_destroyed (mb_engine sample_member)" "vo_joinedEngines voter_created = 0"
  by (simp_all add: voter_created_def sample_member_def engine_start_def voter_start_def)

lemma voter_joined_eq: "vo_engines voter_joined = [(sample_topic, member_started (member_joins sample_member))]"
  by (simp add: voter_joined_def at_engine_def notices_engines voter_created_def voter_start_def)

lemma member_joined: "mb_joins (member_started (member_joins sample_member)) = 0"
  "mb_leaves (member_started (member_joins sample_member)) = []" "en_joined (mb_engine (member_started (member_joins sample_member)))"
  by (simp_all add: member_started_def member_joins_def join_begin_def join_started_def sample_member_def engine_start_def call_def)

lemma voter_joined_run: "calm_voter\<^sup>*\<^sup>* (voter_start True) voter_joined" "\<forall>topic. idle_at topic voter_joined"
proof -
  have "idle_at sample_topic voter_created" using sample_member_at by (simp add: idle_at_def)
  then have "calm_voter voter_created (at_engine sample_topic member_joins voter_created)" by (rule calm_voter.joins)
  moreover have "calm_voter (at_engine sample_topic member_joins voter_created) voter_joined"
    unfolding voter_joined_def
    by (rule calm_voter.starts [OF at_engine_get [OF sample_member_at(1)]])
      (simp add: member_joins_def join_begin_def sample_member_def engine_start_def)
  ultimately show "calm_voter\<^sup>*\<^sup>* (voter_start True) voter_joined"
    using voter_creates by (meson converse_rtranclp_into_rtranclp rtranclp.rtrancl_refl)
  show "\<forall>topic. idle_at topic voter_joined" by (simp add: idle_at_def voter_joined_eq member_joined)
qed


theorem destroyed_is_silent_witness:
  "\<not> vo_responderRegistered (destroy_begin voter_joined) \<and>
     createContest sample_lib sample_registry sample_build [] None (criteria_ipld sample_criteria) (destroy_begin voter_joined) =
       Inl VoterDestroyedError"
proof -
  have run: "calm_voter\<^sup>*\<^sup>* (voter_start True) (destroy_begin voter_joined)"
    by (rule rtranclp.rtrancl_into_rtrancl [OF voter_joined_run(1) calm_voter.destroys [OF voter_joined_run(2)]])
  have "vo_destroyed (destroy_begin voter_joined)"
    by (simp add: destroy_begin_def unregisterResponder_def announcer_def voter_call_def)
  from destroyed_is_silent [OF run this] show ?thesis by blast
qed

theorem overlapping_joins_leak_witness:
  "\<exists>v'. voter_step\<^sup>*\<^sup>* voter_created v' \<and> idle_at sample_topic v' \<and> \<not> joined_at sample_topic v' \<and>
     vo_joinedEngines v' = 1 \<and> vo_responderRegistered v'"
  using overlapping_joins_leak [OF sample_member_at(1-5)] sample_member_at(6) by simp

text \<open>A join outlives \<open>destroy\<close>. A join that waits for the transport when the client is destroyed goes on
  afterwards: although \<open>destroy\<close> is terminal, the contest is joined in the end, with nothing in
  flight, and the destroyed client is registered as a responder again.\<close>

theorem join_outlives_destroy:
  assumes "jget (vo_engines v) topic = Some m" "mb_joins m = 0" "mb_leaves m = []"
    and "\<not> en_joined (mb_engine m)" "\<not> en_destroyed (mb_engine m)" "0 \<le> vo_joinedEngines v"
  shows "\<exists>v'. voter_step\<^sup>*\<^sup>* v v' \<and> vo_destroyed v' \<and> idle_at topic v' \<and> joined_at topic v' \<and> vo_responderRegistered v'"
proof -
  let ?v1 = "at_engine topic member_joins v"
  let ?v2 = "destroy_begin ?v1"
  let ?v3 = "at_engine topic member_resets ?v2"
  let ?v4 = "at_engine topic (member_left False) ?v3"
  let ?v5 = "at_engine topic member_started ?v4"
  let ?m1 = "member_joins m"
  let ?m2 = "?m1\<lparr>mb_engine := markDestroyed (mb_engine ?m1)\<rparr>"
  let ?m4 = "member_left False (member_resets ?m2)"
  note g1 = at_engine_get [OF assms(1), of member_joins]
  have g2: "jget (vo_engines ?v2) topic = Some ?m2"
  proof -
    have "jget (map (\<lambda>(t, m). (t, m\<lparr>mb_engine := markDestroyed (mb_engine m)\<rparr>)) ms) topic = Some ?m2"
      if "jget ms topic = Some ?m1" for ms using that by (induction ms) (auto split: if_splits)
    from this [OF g1] show ?thesis by (simp add: destroy_begin_def unregisterResponder_def announcer_def voter_call_def)
  qed
  note g3 = at_engine_get [OF g2, of member_resets]
  note g4 = at_engine_get [OF g3, of "member_left False"]
  note g5 = at_engine_get [OF g4, of member_started]
  have m1: "mb_joins ?m1 = 1" "mb_leaves ?m1 = []" "\<not> en_joined (mb_engine ?m1)"
    using assms by (simp_all add: member_joins_def join_begin_def)
  have m4: "mb_joins ?m4 = 1" "mb_leaves ?m4 = []"
    using m1 by (simp_all add: member_left_def member_resets_def leave_reset_def markDestroyed_def)
  have "vo_destroyed ?v2" by (simp add: destroy_begin_def unregisterResponder_def announcer_def voter_call_def)
  then have "vo_destroyed ?v5" by simp
  moreover have "vo_responderRegistered ?v5"
    using g4 by (simp add: at_engine_def [of _ member_started] member_started_def heard_fields joined_fields)
  moreover have "idle_at topic ?v5" "joined_at topic ?v5"
    using g5 m4 by (simp_all add: idle_at_def joined_at_def member_started_def join_started_def call_def)
  moreover have "voter_step v ?v1" "voter_step ?v1 ?v2" "voter_step ?v2 ?v3"
    by (rule voter_step.joins voter_step.destroys voter_step.resets)+
  moreover have "voter_step ?v3 ?v4"
    by (rule voter_step.leaves [OF g3]) (use m1 in \<open>simp add: member_resets_def leave_reset_def markDestroyed_def\<close>)
  moreover have "voter_step ?v4 ?v5" by (rule voter_step.starts [OF g4]) (simp add: m4)
  ultimately show ?thesis by (meson converse_rtranclp_into_rtranclp rtranclp.rtrancl_refl)
qed

theorem join_outlives_destroy_witness:
  "\<exists>v'. voter_step\<^sup>*\<^sup>* voter_created v' \<and> vo_destroyed v' \<and> joined_at sample_topic v' \<and> vo_responderRegistered v'"
  using join_outlives_destroy [OF sample_member_at(1-5)] sample_member_at(6) by auto

end
