(* ===== verification/Voter_Answers.thy ===== *)
theory Voter_Answers
  imports Voter_Properties Engine_Properties
begin

text \<open>
  What the client answers other nodes: the root record of one contest, the bulk answer with its caps,
  and the keys it announces. Every engine of a client is a run of its own, so what the engine
  promises of its checkpoint holds of every answer.
\<close>

section \<open>The engines of a client\<close>

definition own_run :: "'x member \<Rightarrow> bool" where
  "own_run m \<longleftrightarrow> (\<exists>blocks disk. en_run (mb_config m) (engine_start blocks disk) (mb_engine m))"

definition engines_run :: "'x voter \<Rightarrow> bool" where
  "engines_run v \<longleftrightarrow> jwf (vo_engines v) \<and> (\<forall>topic m. jget (vo_engines v) topic = Some m \<longrightarrow> own_run m)"

definition keeps_run :: "('x member \<Rightarrow> 'x member) \<Rightarrow> bool" where
  "keeps_run f \<longleftrightarrow> (\<forall>m. own_run m \<longrightarrow> own_run (f m))"

lemma own_run_step:
  "own_run m \<Longrightarrow> mb_config m' = mb_config m \<Longrightarrow> en_step (mb_config m) (mb_engine m) (mb_engine m') \<Longrightarrow> own_run m'"
  unfolding own_run_def by (metis rtranclp.rtrancl_into_rtrancl)

lemma own_run_start: "mb_engine m = engine_start blocks disk \<Longrightarrow> own_run m"
  unfolding own_run_def by (metis rtranclp.rtrancl_refl)

lemma engines_run_at:
  assumes "engines_run v" "\<And>m. jget (vo_engines v) topic = Some m \<Longrightarrow> own_run m \<Longrightarrow> own_run (f m)"
  shows "engines_run (at_engine topic f v)"
  using assms by (simp add: engines_run_def at_engine_def notices_engines jwf_jset jsmap_simps split: option.splits)

lemma engines_run_member: "keeps_run f \<Longrightarrow> engines_run v \<Longrightarrow> engines_run (at_engine topic f v)"
  by (rule engines_run_at) (simp_all add: keeps_run_def)

lemma engines_run_created:
  assumes "engines_run v" "engineFor L build blocks disk c v = Inr (v', topic)"
  shows "engines_run v'"
proof -
  from assms(2) consider "v' = v"
    | m t where "vo_engines v' = jset t m (vo_engines v)" "mb_engine m = engine_start blocks disk"
    by (auto simp: engineFor_def Let_def res_simps split: option.splits)
  then show ?thesis
  proof cases
    case (2 m t)
    with assms(1) own_run_start [OF 2(2)] show ?thesis by (simp add: engines_run_def jwf_jset jsmap_simps)
  qed (use assms(1) in simp)
qed

lemma engines_run_views: "engines_run (v\<lparr>vo_views := views\<rparr>) = engines_run v"
  by (simp add: engines_run_def)

lemma member_joins_fields:
  "mb_config (member_joins m) = mb_config m" "mb_engine (member_joins m) = fst (join_begin (mb_engine m))"
  by (auto simp: member_joins_def split: prod.splits sum.splits join_begun.splits)

lemma member_resets_fields:
  "mb_config (member_resets m) = mb_config m" "mb_engine (member_resets m) = fst (leave_reset (mb_engine m))"
  by (simp_all add: member_resets_def split: prod.splits)

lemma keeps_run_members: "keeps_run member_joins" "keeps_run member_started" "keeps_run member_resets"
  "keeps_run (member_left w)" "keeps_run (set_listeners g)"
  by (auto simp: keeps_run_def member_joins_fields member_resets_fields member_started_def member_left_def set_listeners_def
      join_begins leave_resets join_starts leave_ends listeners elim!: own_run_step)

lemma jget_map_snd: "jget (map (\<lambda>(t, m). (t, f m)) ms) topic = map_option f (jget ms topic)"
  by (induction ms) auto

lemma destroy_members:
  "jget (vo_engines (destroy_begin v)) topic = map_option (\<lambda>m. m\<lparr>mb_engine := markDestroyed (mb_engine m)\<rparr>) (jget (vo_engines v) topic)"
  "jwf (vo_engines (destroy_begin v)) = jwf (vo_engines v)"
  by (simp_all add: destroy_begin_def unregisterResponder_def announcer_def voter_call_def jget_map_snd jwf_def comp_def split_beta)

lemma engines_run_step: "voter_step v v' \<Longrightarrow> engines_run v \<Longrightarrow> engines_run v'"
proof (induction rule: voter_step.induct)
  case (creates L reg build blocks disk input v v' topic)
  then obtain c v1 where "engineFor L build blocks disk c v = Inr (v1, topic)" "vo_engines v' = vo_engines v1"
    by (auto simp: createContest_def res_simps split: if_splits)
  with creates.prems show ?case using engines_run_created [of v] unfolding engines_run_def by metis
next
  case (creates_vote L reg build blocks disk input v v' topic)
  then show ?case using engines_run_created [of v] by (auto simp: createContestVote_def res_simps)
next
  case (works v topic m en')
  then show ?case by (intro engines_run_at) (auto intro: own_run_step)
next
  case (subscribes v topic)
  then show ?case
    by (simp add: view_subscribe_def engines_run_views engines_run_member keeps_run_members split: option.splits bool.splits)
next
  case (unsubscribes v topic)
  then show ?case
    by (simp add: view_unsubscribe_def engines_run_views engines_run_member keeps_run_members split: option.splits bool.splits)
next
  case (destroys v)
  have "own_run (m\<lparr>mb_engine := markDestroyed (mb_engine m)\<rparr>)" if "own_run m" for m :: "'a member"
    using that by (rule own_run_step) (simp_all add: Engine_Steps.en_step.destroys)
  with destroys show ?case by (auto simp: engines_run_def destroy_members)
next
  case (closes v)
  then show ?case by (simp add: engines_run_def destroy_end_def voter_call_def)
qed (simp_all add: engines_run_member keeps_run_members)

lemma engines_run_reachable: "voter_step\<^sup>*\<^sup>* (voter_start announcing) v \<Longrightarrow> engines_run v"
proof (induction rule: rtranclp_induct)
  case base
  then show ?case by (simp add: engines_run_def voter_start_def jwf_def)
qed (rule engines_run_step)

section \<open>The record of one contest\<close>

lemma record_at_answer:
  assumes "record_at se topic v = (v', Some (r, blocks))"
  obtains m en where "jget (vo_engines v) topic = Some m" "en_joined (mb_engine m)"
    "rootRecord (mb_config m) (se_now se) (se_head se topic) (se_put se topic) (mb_engine m) = (en, Inr r)"
  using assms by (auto simp: record_at_def rootRecordWithBlocks_def split: option.splits if_splits prod.splits sum.splits)

lemma fetch_key: "ends_with (rootFetchKey topic) ROOT_FETCH_KEY_SUFFIX"
  "take (length (rootFetchKey topic) - length ROOT_FETCH_KEY_SUFFIX) (rootFetchKey topic) = topic"
  "rootFetchKey topic \<noteq> BULK_ROOTS_FETCH_KEY"
proof -
  have "last (rootFetchKey topic) = CHR ''t''" by (simp add: rootFetchKey_def ROOT_FETCH_KEY_SUFFIX_def)
  moreover have "last BULK_ROOTS_FETCH_KEY = CHR ''s''" by (simp add: BULK_ROOTS_FETCH_KEY_def TOPIC_PREFIX_def)
  ultimately show "rootFetchKey topic \<noteq> BULK_ROOTS_FETCH_KEY" by auto
qed (simp_all add: ends_with_def rootFetchKey_def)

text \<open>A record of a joined contest: the checkpoint of the winners, in some bucket, of a moment \<open>en0\<close> of that
  contest's engine, which lies between the engine's creation and now, where all of them were held with
  every check settled.\<close>

definition verified_record :: "'x voter \<Rightarrow> string \<Rightarrow> fetch_root_record \<Rightarrow> bool" where
  "verified_record v topic r \<longleftrightarrow>
     (\<exists>m blocks disk en0 bucket ws enc. jget (vo_engines v) topic = Some m \<and> en_joined (mb_engine m) \<and>
        en_run (mb_config m) (engine_start blocks disk) en0 \<and> en_run (mb_config m) en0 (mb_engine m) \<and>
        ws = verified_winners (mb_config m) bucket en0 \<and> (\<forall>b \<in> set ws. held_verified en0 b) \<and>
        encodeCheckpoint (eg_lib (mb_config m)) ws DEFAULT_MAX_CHUNK_BYTES = Inr enc \<and> r = record_of enc (length ws))"

lemma record_at_verified:
  assumes "voter_step\<^sup>*\<^sup>* (voter_start announcing) v" "record_at se topic v = (v', Some (r, blocks))"
  shows "verified_record v topic r"
proof -
  from assms(2) obtain m en where m: "jget (vo_engines v) topic = Some m" "en_joined (mb_engine m)"
    and rec: "rootRecord (mb_config m) (se_now se) (se_head se topic) (se_put se topic) (mb_engine m) = (en, Inr r)"
    by (rule record_at_answer)
  from engines_run_reachable [OF assms(1)] m(1) obtain blocks disk
    where run: "en_run (mb_config m) (engine_start blocks disk) (mb_engine m)"
    unfolding engines_run_def own_run_def by blast
  note spec = record_spec [OF rec]
  from spec(4) obtain rc where rc: "en_rootRecordCache en = Some rc" "rc_record rc = r" by blast
  note ok = served_reachable [OF run]
  have "\<exists>en0 ws. en_run (mb_config m) (engine_start blocks disk) en0 \<and> en_run (mb_config m) en0 (mb_engine m) \<and>
      ws = verified_winners (mb_config m) (rc_bucket rc) en0 \<and> encoding (mb_config m) ws rc"
    using spec(1) ok run rc(1) unfolding serves_def served_ok_def from_past_def encoded_from_def
    by (metis rtranclp.rtrancl_refl)
  then obtain en0 where en0: "en_run (mb_config m) (engine_start blocks disk) en0" "en_run (mb_config m) en0 (mb_engine m)"
    "encoding (mb_config m) (verified_winners (mb_config m) (rc_bucket rc) en0) rc" by blast
  from en0(3) rc(2) obtain enc
    where enc: "encodeCheckpoint (eg_lib (mb_config m)) (verified_winners (mb_config m) (rc_bucket rc) en0) DEFAULT_MAX_CHUNK_BYTES = Inr enc"
      "r = record_of enc (length (verified_winners (mb_config m) (rc_bucket rc) en0))"
    unfolding encoding_def by auto
  have "\<forall>b \<in> set (verified_winners (mb_config m) (rc_bucket rc) en0). held_verified en0 b"
    using winner_verified [OF inv_reachable [OF en0(1)]] by blast
  with m en0(1,2) enc show ?thesis unfolding verified_record_def by metis
qed

lemma lookup_record:
  assumes "rootLookup L se (rootFetchKey topic) v = (v', Some answer)"
  obtains r blocks where "record_at se topic v = (v', Some (r, blocks))" "encodeRootRecord L r = Inr answer"
  using assms by (auto simp: rootLookup_def fetch_key split: prod.splits option.splits sum.splits)

text \<open>C7: What the client answers for a contest is verified. The answer to the key of a contest exists only
  while that contest is joined; it decodes to the record of the checkpoint of exactly the winners of a
  moment of that engine's run, reached from its creation and before now, all of which the engine then
  held with every check settled.\<close>

theorem answer_is_verified_checkpoint:
  assumes "voter_step\<^sup>*\<^sup>* (voter_start announcing) v" "cbor_laws L"
    and "rootLookup L se (rootFetchKey topic) v = (v', Some answer)"
  shows "\<exists>m r. jget (vo_engines v) topic = Some m \<and> en_joined (mb_engine m) \<and> decodeRootRecord L answer = Inr r \<and>
    (\<exists>blocks disk en0 bucket ws enc. en_run (mb_config m) (engine_start blocks disk) en0 \<and>
       en_run (mb_config m) en0 (mb_engine m) \<and> ws = verified_winners (mb_config m) bucket en0 \<and>
       (\<forall>b \<in> set ws. held_verified en0 b) \<and>
       encodeCheckpoint (eg_lib (mb_config m)) ws DEFAULT_MAX_CHUNK_BYTES = Inr enc \<and> r = record_of enc (length ws))"
proof -
  from assms(3) obtain r blocks where r: "record_at se topic v = (v', Some (r, blocks))" "encodeRootRecord L r = Inr answer"
    by (rule lookup_record)
  from record_at_verified [OF assms(1) r(1)] decodeRootRecord_encode [OF assms(2) r(2)] show ?thesis
    unfolding verified_record_def by metis
qed

section \<open>The bulk answer\<close>

definition inline_bytes :: "(string, bulk_root_record) jsmap \<Rightarrow> nat" where
  "inline_bytes rs = sum_list (map (\<lambda>(t, r). case bk_chunkBlocks r of None \<Rightarrow> 0 | Some bs \<Rightarrow> sum_list (map length bs)) rs)"

text \<open>A record of the bulk answer is the record the engine answers, its blocks inlined or not.\<close>

definition bulk_entry_ok :: "seams \<Rightarrow> 'x voter \<Rightarrow> string \<Rightarrow> bulk_root_record \<Rightarrow> bool" where
  "bulk_entry_ok se v topic r \<longleftrightarrow>
     (\<exists>blocks. snd (record_at se topic v) = Some (fetch_root_record.truncate r, blocks) \<and>
        (\<forall>bs. bk_chunkBlocks r = Some bs \<longrightarrow> bs = map blk_bytes blocks))"

definition bulk_ok :: "seams \<Rightarrow> 'x voter \<Rightarrow> string list \<Rightarrow> 'x voter \<times> (string, bulk_root_record) jsmap \<times> nat \<Rightarrow> bool" where
  "bulk_ok se v ts st =
     (case st of (v', records, budget) \<Rightarrow>
        jwf records \<and> length records \<le> length ts \<and> inline_bytes records + budget = BULK_ROOTS_MAX_INLINE_BYTES \<and>
        (\<forall>t r. jget records t = Some r \<longrightarrow> t \<in> set ts \<and> bulk_entry_ok se v t r) \<and>
        (\<forall>t. t \<in> set ts \<longrightarrow> snd (record_at se t v) \<noteq> None \<longrightarrow> jget records t \<noteq> None) \<and>
        (\<forall>t. t \<notin> set ts \<longrightarrow> jget (vo_engines v') t = jget (vo_engines v) t))"

lemma record_at_local:
  "jget (vo_engines v') t = jget (vo_engines v) t \<Longrightarrow> snd (record_at se t v') = snd (record_at se t v)"
  "t' \<noteq> t \<Longrightarrow> jget (vo_engines (fst (record_at se t v))) t' = jget (vo_engines v) t'"
  by (auto simp: record_at_def jsmap_simps split: option.splits prod.splits)

lemma bulk_ok_entry:
  assumes "bulk_ok se v ts st" "t \<notin> set ts"
  shows "bulk_ok se v (ts @ [t]) (bulk_entry se t st)"
proof -
  obtain v1 records budget where st: "st = (v1, records, budget)" by (cases st)
  obtain v2 answer where r: "record_at se t v1 = (v2, answer)" by fastforce
  note ok = assms(1) [unfolded bulk_ok_def st, simplified]
  from ok assms(2) have same: "jget (vo_engines v1) t = jget (vo_engines v) t" by blast
  then have mine: "snd (record_at se t v) = answer" using record_at_local(1) [OF same, of se] r by simp
  have others: "jget (vo_engines v2) t' = jget (vo_engines v1) t'" if "t' \<noteq> t" for t'
    using record_at_local(2) [OF that, of se v1] r by simp
  from ok assms(2) have new: "jget records t = None" by (metis option.exhaust)
  show ?thesis
  proof (cases answer)
    case None
    with r have "bulk_entry se t st = (v2, records, budget)" by (simp add: bulk_entry_def st)
    with ok mine None others show ?thesis by (auto simp: bulk_ok_def)
  next
    case (Some a)
    obtain rec blocks where a: "a = (rec, blocks)" by fastforce
    let ?bytes = "sum_list (map (\<lambda>b. length (blk_bytes b)) blocks)"
    let ?inline = "blocks \<noteq> [] \<and> ?bytes \<le> budget"
    let ?r = "fetch_root_record.extend rec \<lparr>bk_chunkBlocks = (if ?inline then Some (map blk_bytes blocks) else None)\<rparr>"
    have e: "bulk_entry se t st = (v2, jset t ?r records, if ?inline then budget - ?bytes else budget)"
      using r Some a by (simp add: bulk_entry_def st Let_def)
    have "fetch_root_record.truncate ?r = rec"
      by (cases rec) (simp add: fetch_root_record.truncate_def fetch_root_record.extend_def)
    then have mine': "bulk_entry_ok se v t ?r" using mine Some a
      by (auto simp: bulk_entry_ok_def fetch_root_record.extend_def split: if_splits)
    have app: "jset t ?r records = records @ [(t, ?r)]" using new by (simp add: jset_new map_of_eq_None_iff)
    have "inline_bytes (jset t ?r records) = inline_bytes records + (if ?inline then ?bytes else 0)"
      unfolding app by (simp add: inline_bytes_def fetch_root_record.extend_def comp_def)
    with ok have "inline_bytes (jset t ?r records) + (if ?inline then budget - ?bytes else budget) = BULK_ROOTS_MAX_INLINE_BYTES"
      by auto
    moreover have "jwf (jset t ?r records)" using ok by (simp only: jwf_jset)
    moreover have "length (jset t ?r records) \<le> length (ts @ [t])" using ok by (simp add: app)
    moreover have "\<forall>t' r. jget (jset t ?r records) t' = Some r \<longrightarrow> t' \<in> set (ts @ [t]) \<and> bulk_entry_ok se v t' r"
      using ok mine' by (auto simp: jsmap_simps split: if_splits)
    ultimately show ?thesis unfolding e bulk_ok_def using ok others by (auto simp: jsmap_simps)
  qed
qed

lemma bulk_ok_fold:
  "bulk_ok se v ds st \<Longrightarrow> distinct (ds @ ts) \<Longrightarrow> bulk_ok se v (ds @ ts) (fold (bulk_entry se) ts st)"
proof (induction ts arbitrary: ds st)
  case (Cons t ts)
  from Cons.prems have "bulk_ok se v (ds @ [t]) (bulk_entry se t st)" by (intro bulk_ok_entry) auto
  from Cons.IH [OF this] Cons.prems(2) show ?case by simp
qed simp

lemma jsmap_ext:
  assumes "jwf a" "jwf b" "\<And>k. jget a k = jget b k"
  shows "mset a = mset b"
proof -
  have "set a = set b" using assms(3) map_of_eq_Some_iff [OF assms(1) [unfolded jwf_def]] map_of_eq_Some_iff [OF assms(2) [unfolded jwf_def]]
    by (metis (no_types, lifting) subsetI subset_antisym surj_pair)
  moreover have "distinct a" "distinct b" using assms(1,2) by (auto simp: jwf_def distinct_map)
  ultimately show ?thesis by (simp add: set_eq_iff_mset_eq_distinct)
qed

lemma inline_bytes_mset:
  "inline_bytes rs =
     sum_mset (image_mset (\<lambda>(t, r). case bk_chunkBlocks r of None \<Rightarrow> 0 | Some bs \<Rightarrow> sum_list (map length bs)) (mset rs))"
  by (simp only: inline_bytes_def sum_mset_sum_list mset_map [symmetric])

lemma bulk_records_ok:
  assumes "jwf (vo_engines v)"
  shows "bulk_ok se v (take BULK_ROOTS_MAX_RECORDS (joined_topics v)) (bulk_records se v)"
proof -
  have "distinct (joined_topics v)"
    using assms unfolding joined_topics_def jwf_def by (induction "vo_engines v" rule: rev_induct) (auto simp: distinct_map_filter)
  then have "distinct (take BULK_ROOTS_MAX_RECORDS (joined_topics v))" by (rule distinct_take)
  moreover have "bulk_ok se v [] (v, [], BULK_ROOTS_MAX_INLINE_BYTES)" by (simp add: bulk_ok_def inline_bytes_def jwf_def)
  ultimately show ?thesis using bulk_ok_fold [of se v "[]"] by (simp add: bulk_records_def)
qed

lemma bulk_decodes:
  assumes "voter_step\<^sup>*\<^sup>* (voter_start announcing) v" "cbor_laws L"
    and "rootLookup L se BULK_ROOTS_FETCH_KEY v = (v', Some answer)"
  shows "\<exists>rs. decodeBulkRootRecords L answer = Inr rs \<and> length rs \<le> BULK_ROOTS_MAX_RECORDS \<and>
    inline_bytes rs \<le> BULK_ROOTS_MAX_INLINE_BYTES \<and>
    (\<forall>t r. jget rs t = Some r \<longrightarrow> t \<in> set (joined_topics v) \<and> bulk_entry_ok se v t r) \<and>
    (\<forall>t \<in> set (take BULK_ROOTS_MAX_RECORDS (joined_topics v)). snd (record_at se t v) \<noteq> None \<longrightarrow> jget rs t \<noteq> None)"
proof -
  from assms(3) obtain records budget where b: "bulk_records se v = (v', records, budget)"
    and enc: "encodeBulkRootRecords L records = Inr answer"
    by (auto simp: rootLookup_def bulkRootsAnswer_def split: prod.splits sum.splits)
  have "jwf (vo_engines v)" using engines_run_reachable [OF assms(1)] by (simp add: engines_run_def)
  from bulk_records_ok [OF this, of se] have ok: "bulk_ok se v (take BULK_ROOTS_MAX_RECORDS (joined_topics v)) (v', records, budget)"
    unfolding b .
  then have "jwf records" by (simp add: bulk_ok_def)
  from decodeBulk_encode [OF assms(2) enc this] obtain rs where rs: "decodeBulkRootRecords L answer = Inr rs" "jwf rs" "\<And>k. jget rs k = jget records k"
    by blast
  have same: "mset rs = mset records" by (rule jsmap_ext [OF rs(2) \<open>jwf records\<close> rs(3)])
  then have "length rs = length records" by (rule mset_eq_length)
  moreover have "inline_bytes rs = inline_bytes records"
    unfolding inline_bytes_mset same ..
  moreover have "length records \<le> BULK_ROOTS_MAX_RECORDS" using ok by (simp add: bulk_ok_def)
  moreover have "inline_bytes records \<le> BULK_ROOTS_MAX_INLINE_BYTES" using ok unfolding bulk_ok_def by simp
  moreover have "t \<in> set (joined_topics v) \<and> bulk_entry_ok se v t r" if "jget rs t = Some r" for t r
    using ok that [unfolded rs(3)] unfolding bulk_ok_def by (blast dest: in_set_takeD)
  moreover have "jget rs t \<noteq> None"
    if "t \<in> set (take BULK_ROOTS_MAX_RECORDS (joined_topics v))" "snd (record_at se t v) \<noteq> None" for t
    using ok that unfolding rs(3) bulk_ok_def by blast
  ultimately show ?thesis using rs(1) by metis
qed

text \<open>C36: The bulk answer is bounded and faithful. It decodes to at most 512 records with at most 512 KiB of
  inlined blocks in all; each record is the one the engine of that topic answers, with all of its
  blocks or none; and a topic among the first 512 joined ones is left out only when its engine has
  no record to give.\<close>

theorem bulk_answer_bounded:
  assumes "voter_step\<^sup>*\<^sup>* (voter_start announcing) v" "cbor_laws L"
    and "rootLookup L se BULK_ROOTS_FETCH_KEY v = (v', Some answer)"
  shows "\<exists>rs. decodeBulkRootRecords L answer = Inr rs \<and> length rs \<le> BULK_ROOTS_MAX_RECORDS \<and>
    inline_bytes rs \<le> BULK_ROOTS_MAX_INLINE_BYTES \<and>
    (\<forall>t r. jget rs t = Some r \<longrightarrow> t \<in> set (joined_topics v) \<and> bulk_entry_ok se v t r) \<and>
    (\<forall>t \<in> set (take BULK_ROOTS_MAX_RECORDS (joined_topics v)). snd (record_at se t v) \<noteq> None \<longrightarrow> jget rs t \<noteq> None)"
  using assms by (rule bulk_decodes)

text \<open>What the client of the sample answers while its one contest is joined and holds no votes.\<close>

definition sample_seams :: seams where
  "sample_seams = \<lparr>se_now = 6, se_head = (\<lambda>_. Inr 7), se_put = (\<lambda>_ _. Inr ())\<rparr>"

lemma sample_config_lib: "eg_lib sample_config = sample_lib"
proof -
  have "\<exists>C. sample_build sample_criteria sample_topic (criteriaCid sample_lib sample_criteria) = Inr C"
    using make_engine_validated [OF sample_criteria_parses sample_validates, of "\<lambda>_. Some ()" "()" sample_lib]
    unfolding sample_build_def sample_topic_def topicFor_def by blast
  then show ?thesis by (auto simp: sample_config_def sample_build_def make_engine_def res_simps)
qed

lemma empty_checkpoint:
  "\<exists>enc. encodeCheckpoint sample_lib [] DEFAULT_MAX_CHUNK_BYTES = Inr enc \<and> root_record_ok (record_of enc 0)"
proof -
  have "sort_winners [] = []" by (simp add: sort_winners_def)
  then show ?thesis
    by (simp add: encodeCheckpoint_def checkpointRootBlock_def blockForBytes_def encodeCanonical_def sample_lib_def root_ipld_def
      record_of_def root_record_ok_def ROOT_RECORD_VERSION_def max_safe_integer_def
      ser_nat_def ser_string_def)
qed

abbreviation (input) joined_engine :: engine where
  "joined_engine \<equiv> mb_engine (member_started (member_joins sample_member))"

lemma joined_engine_fields:
  "en_crdt joined_engine = \<lparr>bundles = []\<rparr>" "en_rootRecordCache joined_engine = None" "en_joined joined_engine"
  by (simp_all add: member_started_def member_joins_def join_begin_def join_started_def sample_member_def engine_start_def call_def empty_crdt_def)

lemma joined_record:
  "\<exists>en r. rootRecord sample_config 6 (Inr 7) (\<lambda>_. Inr ()) joined_engine = (en, Inr r) \<and> root_record_ok r"
proof -
  obtain enc where enc: "encodeCheckpoint sample_lib [] DEFAULT_MAX_CHUNK_BYTES = Inr enc" "root_record_ok (record_of enc 0)"
    using empty_checkpoint by blast
  have "verified_winners sample_config b joined_engine = []" for b
    unfolding verified_winners_def joined_engine_fields by (simp add: currentEntries_def winnersByWallet_def)
  then have "record_begin sample_config 6 (Inr 7) joined_engine =
      (joined_engine\<lparr>en_checkpointDirty := False\<rparr>, Inr (Encoding (en_currentBucket joined_engine) []))"
    by (simp add: record_begin_def record_bucket_def nodeCount_def joined_engine_fields)
  moreover obtain blocks where "put_blocks (\<lambda>_. Inr ()) (ec_blocks enc) (en_blocks joined_engine) = (blocks, Inr ())"
    using put_blocks_ok by blast
  ultimately show ?thesis using enc by (simp add: rootRecord_def record_finish_def sample_config_lib)
qed

lemma joined_answers:
  "\<exists>v' r blocks. record_at sample_seams sample_topic voter_joined = (v', Some (r, blocks)) \<and> root_record_ok r"
proof -
  obtain en r where rec: "rootRecord sample_config 6 (Inr 7) (\<lambda>_. Inr ()) joined_engine = (en, Inr r)" "root_record_ok r"
    using joined_record by blast
  have "mb_config (member_started (member_joins sample_member)) = sample_config"
    by (simp add: member_started_def member_joins_fields sample_member_def)
  with rec show ?thesis
    by (auto simp: record_at_def voter_joined_eq member_joined sample_seams_def rootRecordWithBlocks_def)
qed

lemma sample_voter_run: "voter_step\<^sup>*\<^sup>* (voter_start True) voter_joined"
  by (rule rtranclp_mono [THEN predicate2D, OF _ voter_joined_run(1)]) (blast intro: calm_is_step)

theorem answer_is_verified_checkpoint_witness:
  "\<exists>v' answer r. rootLookup sample_lib sample_seams (rootFetchKey sample_topic) voter_joined = (v', Some answer) \<and>
     decodeRootRecord sample_lib answer = Inr r"
proof -
  obtain v' r blocks where r: "record_at sample_seams sample_topic voter_joined = (v', Some (r, blocks))" "root_record_ok r"
    using joined_answers by blast
  then obtain answer where "encodeRootRecord sample_lib r = Inr answer"
    by (simp add: encodeRootRecord_def FetchRootRecordSchema_ipld fetch_truncate)
  with r(1) have "rootLookup sample_lib sample_seams (rootFetchKey sample_topic) voter_joined = (v', Some answer)"
    by (simp add: rootLookup_def fetch_key)
  with answer_is_verified_checkpoint [OF sample_voter_run sample_cbor_laws this] show ?thesis by blast
qed

lemma joined_bulk:
  "\<exists>v' answer rs. rootLookup sample_lib sample_seams BULK_ROOTS_FETCH_KEY voter_joined = (v', Some answer) \<and>
     decodeBulkRootRecords sample_lib answer = Inr rs \<and> jget rs sample_topic \<noteq> None"
proof -
  obtain v' r blocks where r: "record_at sample_seams sample_topic voter_joined = (v', Some (r, blocks))" "root_record_ok r"
    using joined_answers by blast
  have one: "joined_topics voter_joined = [sample_topic]" by (simp add: joined_topics_def voter_joined_eq member_joined)
  then obtain v2 e budget where b: "bulk_records sample_seams voter_joined = (v2, [(sample_topic, e)], budget)"
    "fetch_root_record.truncate e = r"
    using r(1) by (cases r) (simp add: bulk_records_def BULK_ROOTS_MAX_RECORDS_def bulk_entry_def Let_def fetch_root_record.truncate_def
        fetch_root_record.extend_def)
  have "root_record_ok e" using r(2) b(2) by (auto simp: fetch_root_record.truncate_def root_record_ok_def)
  then obtain answer where "encodeBulkRootRecords sample_lib [(sample_topic, e)] = Inr answer"
    by (simp add: encodeBulkRootRecords_def bulk_schema_ipld)
  with b(1) have "rootLookup sample_lib sample_seams BULK_ROOTS_FETCH_KEY voter_joined = (v2, Some answer)"
    by (simp add: rootLookup_def bulkRootsAnswer_def)
  with bulk_decodes [OF sample_voter_run sample_cbor_laws this] r(1) one show ?thesis
    by (auto simp: BULK_ROOTS_MAX_RECORDS_def)
qed

theorem bulk_answer_bounded_witness:
  "\<exists>v' answer rs. rootLookup sample_lib sample_seams BULK_ROOTS_FETCH_KEY voter_joined = (v', Some answer) \<and>
     decodeBulkRootRecords sample_lib answer = Inr rs \<and> jget rs sample_topic \<noteq> None"
proof -
  obtain v' answer rs where a: "rootLookup sample_lib sample_seams BULK_ROOTS_FETCH_KEY voter_joined = (v', Some answer)"
    "decodeBulkRootRecords sample_lib answer = Inr rs" "jget rs sample_topic \<noteq> None"
    using joined_bulk by blast
  from bulk_answer_bounded [OF sample_voter_run sample_cbor_laws a(1)] a show ?thesis by auto
qed

section \<open>One engine per document\<close>

text \<open>Creating a contest is idempotent. Once a document has been created, creating it again changes nothing
  and answers the same topic, which is the document's, whatever the stores hold by then; and no
  creation touches another contest's engine.\<close>

theorem contest_created_once:
  assumes "createContest L reg build blocks disk input v = Inr (v', topic)"
  shows "createContest L reg build' blocks' disk' input v' = Inr (v', topic) \<and>
    (\<exists>c. CriteriaSchema L input = Inr c \<and> topic = topicFor L c) \<and> jget (vo_engines v') topic \<noteq> None \<and>
    (\<forall>t m. jget (vo_engines v) t = Some m \<longrightarrow> jget (vo_engines v') t = Some m)"
proof -
  from assms obtain c v1 where live: "\<not> vo_destroyed v" and c: "CriteriaSchema L input = Inr c" "validateCriteriaRules c reg = Inr ()"
    and v1: "engineFor L build blocks disk c v = Inr (v1, topic)"
    and v': "v' = (if jhas (vo_views v1) topic then v1 else v1\<lparr>vo_views := jset topic False (vo_views v1)\<rparr>)"
    by (auto simp: createContest_def assertLive_def validateCriteria_def guard_def res_simps split: if_splits)
  from v1 have t: "topic = TOPIC_PREFIX @ cid_str L (criteriaCid L c)" and has: "jget (vo_engines v1) topic \<noteq> None"
    and d: "vo_destroyed v1 = vo_destroyed v" and kept: "\<forall>t m. jget (vo_engines v) t = Some m \<longrightarrow> jget (vo_engines v1) t = Some m"
    by (auto simp: engineFor_def Let_def res_simps jsmap_simps split: option.splits)
  from v' has d kept have after: "jget (vo_engines v') topic \<noteq> None" "\<not> vo_destroyed v'" "jhas (vo_views v') topic"
    "\<forall>t m. jget (vo_engines v) t = Some m \<longrightarrow> jget (vo_engines v') t = Some m"
    using live by (auto simp: jsmap_simps jhas_jset)
  then have "createContest L reg build' blocks' disk' input v' = Inr (v', topic)"
    using t c by (auto simp: createContest_def assertLive_def validateCriteria_def engineFor_def Let_def guard_def split: option.splits)
  moreover have "topic = topicFor L c" using t by (simp add: topicFor_def)
  ultimately show ?thesis using c after by blast
qed

theorem contest_created_once_witness:
  "\<exists>v'. createContest sample_lib sample_registry sample_build [] None (criteria_ipld sample_criteria) (voter_start True) = Inr (v', sample_topic) \<and>
     createContest sample_lib sample_registry sample_build [([1], [2])] (Some [3]) (criteria_ipld sample_criteria) v' = Inr (v', sample_topic)"
proof -
  have "\<exists>v'. createContest sample_lib sample_registry sample_build [] None (criteria_ipld sample_criteria) (voter_start True) =
      Inr (v', sample_topic)"
    using voter_creates_sample
    by (cases "jhas (vo_views voter_created) sample_topic")
      (auto simp: createContest_def createContestVote_def assertLive_def res_simps guard_def)
  with contest_created_once show ?thesis by blast
qed

end
