(* ===== verification/Chase.thy ===== *)
theory Chase
  imports Gossip Checkpoint
begin

text \<open>
  The divergence chase (\<open>src/transport/chase.ts\<close>): the chaser takes an advertised root, pulls the
  checkpoint behind it and admits its bundles, screened by the verdict cache, the date and the
  offline stage; the rest of the verification is handed on in one batch. Chases run concurrently:
  each is a flight that the steps of \<open>chase_step\<close> take from one \<open>await\<close> to the next, in any order.
\<close>

section \<open>Block sessions\<close>

text \<open>\<open>toChaseSession\<close>: a failed \<open>get\<close> is a missing block.\<close>

definition session_get :: "(cid \<Rightarrow> bytes option res) \<Rightarrow> cid \<Rightarrow> bytes option res" where
  "session_get get cid = (case get cid of Inl _ \<Rightarrow> Inr None | Inr r \<Rightarrow> Inr r)"

text \<open>One call of \<open>fetchBlock\<close>. The flag is \<open>sessionDead\<close>; \<open>aborted\<close> and \<open>aborted'\<close> tell whether the
  deadline has passed before the call and after the session failed it.\<close>

definition fetchBlock ::
  "bool \<Rightarrow> (cid \<Rightarrow> bytes option res) option \<Rightarrow> bool \<Rightarrow> (cid \<Rightarrow> bytes option res) \<Rightarrow> cid \<Rightarrow> bool \<Rightarrow> bool \<times> bytes option" where
  "fetchBlock aborted session aborted' getBlock cid sessionDead =
     (let broadcast = (case getBlock cid of Inl _ \<Rightarrow> None | Inr r \<Rightarrow> r) in
      if aborted then (sessionDead, None)
      else case session of
             None \<Rightarrow> (sessionDead, broadcast)
           | Some get \<Rightarrow>
               if sessionDead then (sessionDead, broadcast)
               else (case get cid of
                       Inr (Some bs) \<Rightarrow> (sessionDead, Some bs)
                     | _ \<Rightarrow> (True, if aborted' then None else broadcast)))"

section \<open>State\<close>

text \<open>What the chaser is built over: whether the host's blockstore makes sessions, the offline stage,
  the size of the verdict cache and the number of chases at a time.\<close>

record chase_config =
  cc_lib :: lib
  cc_sessions :: bool
  cc_verifyOffline :: "votes_bundle \<Rightarrow> verify_result"
  cc_cacheMax :: nat
  cc_limit :: nat

definition CHASE_CONCURRENCY :: nat where
  "CHASE_CONCURRENCY = 2"

definition CHASE_TIMEOUT_MS :: nat where
  "CHASE_TIMEOUT_MS = 30000"

text \<open>The host's callbacks and the calls on a session, in the order they were made.\<close>

datatype chase_call =
    OpenSession cid "string list"
  | AddPeer cid string
  | CloseSession cid
  | ChaseAdmit cid bytes votes_bundle bool
  | DeferVerify "(cid \<times> votes_bundle) list"
  | CheckpointContents cid "cid list"
  | Merged

text \<open>What a flight waits for: a free slot, the checkpoint, the hash of a bundle and the admission test,
  the date test, the offline stage, or the admission.\<close>

datatype chase_wait =
    Queued
  | Fetching
  | Screening bytes votes_bundle
  | DatingBundle cid bytes votes_bundle
  | CheckingOffline cid bytes votes_bundle
  | AdmittingBundle cid votes_bundle bool

record flight =
  fl_root :: cid
  fl_chunks :: "cid list option"
  fl_seeded :: "string list"
  fl_queued :: "string list"
  fl_session :: bool
  fl_started :: bool
  fl_wait :: chase_wait
  fl_rest :: "votes_bundle list"
  fl_merged :: bool
  fl_pending :: "(cid \<times> votes_bundle) list"
  fl_contained :: "cid list"

text \<open>\<open>ch_queue\<close> holds the flights the limiter has not started, in order.\<close>

record chaser =
  ch_flights :: "(string, flight) jsmap"
  ch_queue :: "string list"
  ch_cache :: verdict_cache
  ch_calls :: "chase_call list"

definition chaser_start :: "verdict_cache \<Rightarrow> chaser" where
  "chaser_start cache = \<lparr>ch_flights = [], ch_queue = [], ch_cache = cache, ch_calls = []\<rparr>"

definition chase_call :: "chase_call \<Rightarrow> chaser \<Rightarrow> chaser" where
  "chase_call c s = s\<lparr>ch_calls := ch_calls s @ [c]\<rparr>"

definition put_flight :: "string \<Rightarrow> flight \<Rightarrow> chaser \<Rightarrow> chaser" where
  "put_flight key fl s = s\<lparr>ch_flights := jset key fl (ch_flights s)\<rparr>"

section \<open>A hint\<close>

text \<open>One pass of \<open>addProviders\<close>.\<close>

definition addProvider :: "string \<Rightarrow> flight \<times> chase_call list \<Rightarrow> flight \<times> chase_call list" where
  "addProvider peer st =
     (case st of (fl, calls) \<Rightarrow>
        if peer \<in> set (fl_seeded fl) then (fl, calls)
        else
          let fl = fl\<lparr>fl_seeded := fl_seeded fl @ [peer]\<rparr> in
          if fl_session fl then (fl, calls @ [AddPeer (fl_root fl) peer])
          else if \<not> fl_started fl then (fl\<lparr>fl_queued := fl_queued fl @ [peer]\<rparr>, calls)
          else (fl, calls))"

definition addProviders :: "string list \<Rightarrow> flight \<Rightarrow> flight \<times> chase_call list" where
  "addProviders providers fl = fold addProvider providers (fl, [])"

definition new_flight :: "cid \<Rightarrow> cid list option \<Rightarrow> flight" where
  "new_flight root chunks =
     \<lparr>fl_root = root, fl_chunks = chunks, fl_seeded = [], fl_queued = [], fl_session = False, fl_started = False,
      fl_wait = Queued, fl_rest = [], fl_merged = False, fl_pending = [], fl_contained = []\<rparr>"

definition chase_root :: "chase_config \<Rightarrow> cid \<Rightarrow> cid list option \<Rightarrow> string list option \<Rightarrow> chaser \<Rightarrow> chaser" where
  "chase_root C root chunks providers s =
     (let key = cid_str (cc_lib C) root in
      case jget (ch_flights s) key of
        Some existing \<Rightarrow>
          (case providers of
             None \<Rightarrow> s
           | Some ps \<Rightarrow>
               (case addProviders ps existing of
                  (fl, calls) \<Rightarrow> (put_flight key fl s)\<lparr>ch_calls := ch_calls s @ calls\<rparr>))
      | None \<Rightarrow>
          let fl = (case providers of None \<Rightarrow> new_flight root chunks
                    | Some ps \<Rightarrow> fst (addProviders ps (new_flight root chunks)))
          in (put_flight key fl s)\<lparr>ch_queue := ch_queue s @ [key]\<rparr>)"

section \<open>A chase\<close>

definition chase_active :: "chaser \<Rightarrow> nat" where
  "chase_active s = length (filter (\<lambda>(key, fl). fl_wait fl \<noteq> Queued) (ch_flights s))"

text \<open>The limiter runs the oldest flight in the queue. \<open>opened\<close> tells whether the factory gives a
  session; one that throws or declines gives none.\<close>

definition chase_begin :: "chase_config \<Rightarrow> bool \<Rightarrow> string \<Rightarrow> flight \<Rightarrow> chaser \<Rightarrow> chaser" where
  "chase_begin C opened key fl s =
     (let seed = fl_queued fl \<noteq> [] \<and> cc_sessions C;
          s' = (if seed then chase_call (OpenSession (fl_root fl) (fl_queued fl)) s else s)
      in (put_flight key
            (fl\<lparr>fl_session := (seed \<and> opened), fl_queued := (if seed then [] else fl_queued fl),
                fl_started := True, fl_wait := Fetching\<rparr>) s')
           \<lparr>ch_queue := tl (ch_queue s)\<rparr>)"

text \<open>The \<open>finally\<close> of a run and of its caller: the session closes and the flight is gone.\<close>

definition chase_end :: "string \<Rightarrow> flight \<Rightarrow> chaser \<Rightarrow> chaser" where
  "chase_end key fl s =
     (let s' = (if fl_session fl then chase_call (CloseSession (fl_root fl)) s else s)
      in s'\<lparr>ch_flights := jdel key (ch_flights s')\<rparr>)"

text \<open>After the loop.\<close>

definition chase_report :: "string \<Rightarrow> flight \<Rightarrow> chaser \<Rightarrow> chaser" where
  "chase_report key fl s =
     (let s1 = (if fl_pending fl = [] then s else chase_call (DeferVerify (fl_pending fl)) s);
          s2 = (if fl_contained fl = [] then s1 else chase_call (CheckpointContents (fl_root fl) (fl_contained fl)) s1);
          s3 = (if fl_merged fl then chase_call Merged s2 else s2)
      in chase_end key fl s3)"

text \<open>The head of the loop; \<open>aborted\<close> tells whether the deadline has passed. A bundle that does not encode
  throws.\<close>

definition chase_next :: "chase_config \<Rightarrow> bool \<Rightarrow> string \<Rightarrow> flight \<Rightarrow> chaser \<Rightarrow> chaser" where
  "chase_next C aborted key fl s =
     (case fl_rest fl of
        [] \<Rightarrow> chase_report key fl s
      | b # rest \<Rightarrow>
          if aborted then chase_report key fl s
          else case encodeBundle (cc_lib C) b of
                 Inl e \<Rightarrow> chase_end key fl s
               | Inr bs \<Rightarrow> put_flight key (fl\<lparr>fl_rest := rest, fl_wait := Screening bs b\<rparr>) s)"

text \<open>The checkpoint is decoded, or the deadline was first (\<open>None\<close>).\<close>

definition chase_decoded ::
  "chase_config \<Rightarrow> bool \<Rightarrow> votes_bundle list option res \<Rightarrow> string \<Rightarrow> flight \<Rightarrow> chaser \<Rightarrow> chaser" where
  "chase_decoded C aborted decoded key fl s =
     (case decoded of
        Inl e \<Rightarrow> chase_end key fl s
      | Inr None \<Rightarrow> chase_end key fl s
      | Inr (Some winners) \<Rightarrow> chase_next C aborted key (fl\<lparr>fl_rest := winners\<rparr>) s)"

definition chase_admits :: "string \<Rightarrow> cid \<Rightarrow> bytes \<Rightarrow> votes_bundle \<Rightarrow> bool \<Rightarrow> flight \<Rightarrow> chaser \<Rightarrow> chaser" where
  "chase_admits key cid bs b verified fl s =
     chase_call (ChaseAdmit cid bs b verified) (put_flight key (fl\<lparr>fl_wait := AdmittingBundle cid b verified\<rparr>) s)"

definition chase_screened ::
  "chase_config \<Rightarrow> bool \<Rightarrow> bool res \<Rightarrow> bytes \<Rightarrow> votes_bundle \<Rightarrow> string \<Rightarrow> flight \<Rightarrow> chaser \<Rightarrow> chaser" where
  "chase_screened C aborted admitted bs b key fl s =
     (let cid = bundleCidForBytes (cc_lib C) bs; fl = fl\<lparr>fl_contained := fl_contained fl @ [cid]\<rparr> in
      case admitted of
        Inl e \<Rightarrow> chase_end key fl s
      | Inr True \<Rightarrow> chase_next C aborted key fl s
      | Inr False \<Rightarrow>
          (case verdict_get (cc_lib C) cid (ch_cache s) of
             Some (Invalid d r fs) \<Rightarrow> chase_next C aborted key fl s
           | Some (Valid names) \<Rightarrow> chase_admits key cid bs b True fl s
           | None \<Rightarrow> put_flight key (fl\<lparr>fl_wait := DatingBundle cid bs b\<rparr>) s))"

definition chase_dated ::
  "chase_config \<Rightarrow> bool \<Rightarrow> bool res \<Rightarrow> cid \<Rightarrow> bytes \<Rightarrow> votes_bundle \<Rightarrow> string \<Rightarrow> flight \<Rightarrow> chaser \<Rightarrow> chaser" where
  "chase_dated C aborted evaluable cid bs b key fl s =
     (case evaluable of
        Inl e \<Rightarrow> chase_end key fl s
      | Inr False \<Rightarrow> chase_next C aborted key fl s
      | Inr True \<Rightarrow> put_flight key (fl\<lparr>fl_wait := CheckingOffline cid bs b\<rparr>) s)"

definition chase_checked :: "chase_config \<Rightarrow> bool \<Rightarrow> cid \<Rightarrow> bytes \<Rightarrow> votes_bundle \<Rightarrow> string \<Rightarrow> flight \<Rightarrow> chaser \<Rightarrow> chaser" where
  "chase_checked C aborted cid bs b key fl s =
     (case cc_verifyOffline C b of
        Valid _ \<Rightarrow> chase_admits key cid bs b False fl s
      | Invalid d r fs \<Rightarrow>
          chase_next C aborted key fl
            (if d = Reject then s\<lparr>ch_cache := verdict_set (cc_lib C) (cc_cacheMax C) cid (Invalid d r fs) (ch_cache s)\<rparr> else s))"

definition chase_admitted ::
  "chase_config \<Rightarrow> bool \<Rightarrow> unit res \<Rightarrow> cid \<Rightarrow> votes_bundle \<Rightarrow> bool \<Rightarrow> string \<Rightarrow> flight \<Rightarrow> chaser \<Rightarrow> chaser" where
  "chase_admitted C aborted stored cid b verified key fl s =
     (case stored of
        Inl e \<Rightarrow> chase_end key fl s
      | Inr _ \<Rightarrow>
          chase_next C aborted key
            (fl\<lparr>fl_merged := True, fl_pending := (if verified then fl_pending fl else fl_pending fl @ [(cid, b)])\<rparr>) s)"

text \<open>The steps of a chaser; the verdict cache is shared with the forward gate and the background
  verifier: \<open>said\<close> tells which verdicts those record.\<close>

inductive chase_step :: "chase_config \<Rightarrow> (cid \<Rightarrow> bundle_verdict \<Rightarrow> bool) \<Rightarrow> chaser \<Rightarrow> chaser \<Rightarrow> bool" for C said where
  hints: "chase_step C said s (chase_root C root chunks providers s)"
| caches: "said cid v \<Longrightarrow> chase_step C said s (s\<lparr>ch_cache := verdict_set (cc_lib C) (cc_cacheMax C) cid v (ch_cache s)\<rparr>)"
| begins: "ch_queue s = key # waiting \<Longrightarrow> chase_active s < cc_limit C \<Longrightarrow> jget (ch_flights s) key = Some fl \<Longrightarrow>
    chase_step C said s (chase_begin C opened key fl s)"
| decodes: "jget (ch_flights s) key = Some fl \<Longrightarrow> fl_wait fl = Fetching \<Longrightarrow>
    decoded = Inr None \<or> decoded = map_sum id Some (decodeCheckpoint (cc_lib C) (fl_root fl) (\<lambda>c. Inr (blocks c)) (fl_chunks fl)) \<Longrightarrow>
    chase_step C said s (chase_decoded C aborted decoded key fl s)"
| screens: "jget (ch_flights s) key = Some fl \<Longrightarrow> fl_wait fl = Screening bs b \<Longrightarrow>
    chase_step C said s (chase_screened C aborted admitted bs b key fl s)"
| dates: "jget (ch_flights s) key = Some fl \<Longrightarrow> fl_wait fl = DatingBundle cid bs b \<Longrightarrow>
    chase_step C said s (chase_dated C aborted evaluable cid bs b key fl s)"
| checks: "jget (ch_flights s) key = Some fl \<Longrightarrow> fl_wait fl = CheckingOffline cid bs b \<Longrightarrow>
    chase_step C said s (chase_checked C aborted cid bs b key fl s)"
| stores: "jget (ch_flights s) key = Some fl \<Longrightarrow> fl_wait fl = AdmittingBundle cid b verified \<Longrightarrow>
    chase_step C said s (chase_admitted C aborted stored cid b verified key fl s)"

text \<open>An orderly run: the host's answers do not throw.\<close>

inductive calm_chase :: "chase_config \<Rightarrow> (cid \<Rightarrow> bundle_verdict \<Rightarrow> bool) \<Rightarrow> chaser \<Rightarrow> chaser \<Rightarrow> bool" for C said where
  hints: "calm_chase C said s (chase_root C root chunks providers s)"
| caches: "said cid v \<Longrightarrow> calm_chase C said s (s\<lparr>ch_cache := verdict_set (cc_lib C) (cc_cacheMax C) cid v (ch_cache s)\<rparr>)"
| begins: "ch_queue s = key # waiting \<Longrightarrow> chase_active s < cc_limit C \<Longrightarrow> jget (ch_flights s) key = Some fl \<Longrightarrow>
    calm_chase C said s (chase_begin C opened key fl s)"
| decodes: "jget (ch_flights s) key = Some fl \<Longrightarrow> fl_wait fl = Fetching \<Longrightarrow>
    decoded = Inr None \<or> decoded = map_sum id Some (decodeCheckpoint (cc_lib C) (fl_root fl) (\<lambda>c. Inr (blocks c)) (fl_chunks fl)) \<Longrightarrow>
    calm_chase C said s (chase_decoded C aborted decoded key fl s)"
| screens: "jget (ch_flights s) key = Some fl \<Longrightarrow> fl_wait fl = Screening bs b \<Longrightarrow>
    calm_chase C said s (chase_screened C aborted (Inr admitted) bs b key fl s)"
| dates: "jget (ch_flights s) key = Some fl \<Longrightarrow> fl_wait fl = DatingBundle cid bs b \<Longrightarrow>
    calm_chase C said s (chase_dated C aborted (Inr evaluable) cid bs b key fl s)"
| checks: "jget (ch_flights s) key = Some fl \<Longrightarrow> fl_wait fl = CheckingOffline cid bs b \<Longrightarrow>
    calm_chase C said s (chase_checked C aborted cid bs b key fl s)"
| stores: "jget (ch_flights s) key = Some fl \<Longrightarrow> fl_wait fl = AdmittingBundle cid b verified \<Longrightarrow>
    calm_chase C said s (chase_admitted C aborted (Inr ()) cid b verified key fl s)"

lemma calm_is_chase: "calm_chase C said s s' \<Longrightarrow> chase_step C said s s'"
  by (induction rule: calm_chase.induct) (rule chase_step.intros; assumption)+

end
