(* ===== verification/Tables.thy ===== *)
theory Tables
  imports Prelude
begin

text \<open>
  Sums over the values of a map: a value that is replaced, added or removed changes the sum by its own
  share. The counts of the chaser, the puller and the head reader are such sums. The last lemmas read
  a count of numbered requests as "each exactly once".
\<close>

definition over_values :: "('v \<Rightarrow> 'b :: comm_monoid_add) \<Rightarrow> ('k, 'v) jsmap \<Rightarrow> 'b" where
  "over_values f m = sum_mset (image_mset (\<lambda>(k, v). f v) (mset m))"

lemma mset_jset: "jwf m \<Longrightarrow> mset (jset k v m) = add_mset (k, v) (mset (jdel k m))"
proof (induction m)
  case (Cons p m)
  obtain k' v' where p: "p = (k', v')" by fastforce
  with Cons.prems have wf: "jwf m" "k' \<notin> fst ` set m" by (auto simp: jwf_def)
  show ?case
  proof (cases "k' = k")
    case True
    with wf(2) have "jdel k m = m" by (simp add: delete_idem)
    with True p show ?thesis by simp
  qed (use p Cons.IH [OF wf(1)] in simp)
qed simp

lemma mset_jdel: "jwf m \<Longrightarrow> jget m k = Some v \<Longrightarrow> mset m = add_mset (k, v) (mset (jdel k m))"
proof (induction m)
  case (Cons p m)
  obtain k' v' where p: "p = (k', v')" by fastforce
  with Cons.prems have wf: "jwf m" "k' \<notin> fst ` set m" by (auto simp: jwf_def)
  show ?case
  proof (cases "k' = k")
    case True
    with wf(2) have "jdel k m = m" by (simp add: delete_idem)
    with True p Cons.prems(2) show ?thesis by simp
  qed (use p Cons.IH [OF wf(1)] Cons.prems(2) in simp)
qed simp

lemma over_jset: "jwf m \<Longrightarrow> over_values f (jset k v m) = f v + over_values f (jdel k m)"
  by (simp add: over_values_def mset_jset)

lemma over_jdel: "jwf m \<Longrightarrow> jget m k = Some v \<Longrightarrow> over_values f m = f v + over_values f (jdel k m)"
  by (simp add: over_values_def mset_jdel)

lemma over_new: "jget m k = None \<Longrightarrow> jdel k m = m"
  by (simp add: delete_idem map_of_eq_None_iff)

lemma over_Nil [simp]: "over_values f [] = 0"
  by (simp add: over_values_def)

section \<open>Numbered requests\<close>

lemma distinct_le_one: "(\<And>i. count (mset xs) i \<le> 1) \<Longrightarrow> distinct xs"
proof (induction xs)
  case (Cons x xs)
  have "count (mset xs) i \<le> 1" for i
    by (rule order_trans [OF _ Cons.prems [of i]]) simp
  moreover have "x \<notin> set xs" using Cons.prems [of x] by (simp add: count_mset_0_iff)
  ultimately show ?case using Cons.IH by simp
qed simp

lemma count_upto: "count (mset [0..<n]) i = (if i < n then 1 else 0)"
  by (induction n) auto

end
