(* ===== verification/Chase_Invariants.thy ===== *)
theory Chase_Invariants
  imports Chase Tables
begin

text \<open>
  What every run of the chaser keeps: one flight per root, at most as many running as the limiter
  allows, sessions opened with their advertisers and closed, admissions screened, and no provisional
  admission forgotten while the host's answers do not throw.
\<close>

definition running :: "flight \<Rightarrow> nat" where
  "running fl = (if fl_wait fl = Queued then 0 else 1)"

lemma active_sum: "chase_active s = over_values running (ch_flights s)"
proof -
  have "length (filter (\<lambda>(key, fl). fl_wait fl \<noteq> Queued) m) = over_values running m" for m :: "(string, flight) jsmap"
    by (induction m) (auto simp: over_values_def running_def)
  then show ?thesis by (simp add: chase_active_def)
qed

section \<open>The invariant\<close>

text \<open>A bundle as it comes out of a block: it encodes, and its hexadecimal is in lower case.\<close>

definition wire_form :: "lib \<Rightarrow> votes_bundle \<Rightarrow> bool" where
  "wire_form L b \<longleftrightarrow> lower_bundle b = b \<and> (\<exists>bs. encodeBundle L b = Inr bs)"

definition block_of :: "lib \<Rightarrow> cid \<Rightarrow> bytes \<Rightarrow> votes_bundle \<Rightarrow> bool" where
  "block_of L cid bs b \<longleftrightarrow> encodeBundle L b = Inr bs \<and> lower_bundle b = b \<and> cid = bundleCidForBytes L bs"

fun wait_ok :: "chase_config \<Rightarrow> chase_wait \<Rightarrow> bool" where
  "wait_ok C (Screening bs b) \<longleftrightarrow> block_of (cc_lib C) (bundleCidForBytes (cc_lib C) bs) bs b"
| "wait_ok C (DatingBundle cid bs b) \<longleftrightarrow> block_of (cc_lib C) cid bs b"
| "wait_ok C (CheckingOffline cid bs b) \<longleftrightarrow> block_of (cc_lib C) cid bs b"
| "wait_ok C _ \<longleftrightarrow> True"

fun pending_ok :: "chase_wait \<Rightarrow> (cid \<times> votes_bundle) list \<Rightarrow> bool" where
  "pending_ok Queued pending \<longleftrightarrow> pending = []"
| "pending_ok Fetching pending \<longleftrightarrow> pending = []"
| "pending_ok _ pending \<longleftrightarrow> True"

definition flight_ok :: "chase_config \<Rightarrow> string \<Rightarrow> flight \<Rightarrow> bool" where
  "flight_ok C key fl \<longleftrightarrow>
     key = cid_str (cc_lib C) (fl_root fl) \<and> distinct (fl_queued fl) \<and> set (fl_queued fl) \<subseteq> set (fl_seeded fl) \<and>
     (fl_wait fl = Queued \<longleftrightarrow> \<not> fl_started fl) \<and> pending_ok (fl_wait fl) (fl_pending fl) \<and> (fl_session fl \<longrightarrow> fl_started fl) \<and>
     (\<forall>b \<in> set (fl_rest fl). wire_form (cc_lib C) b) \<and> wait_ok C (fl_wait fl)"

text \<open>A call the host may rely on. \<open>Valid\<close> verdicts come from the whole pipeline.\<close>

fun chase_call_ok :: "chase_config \<Rightarrow> (cid \<Rightarrow> bundle_verdict \<Rightarrow> bool) \<Rightarrow> chase_call \<Rightarrow> bool" where
  "chase_call_ok C said (ChaseAdmit cid bs b verified) \<longleftrightarrow>
     block_of (cc_lib C) cid bs b \<and>
     (if verified then \<exists>cid' names. cid_str (cc_lib C) cid' = cid_str (cc_lib C) cid \<and> said cid' (Valid names)
      else is_valid (cc_verifyOffline C b))"
| "chase_call_ok C said (OpenSession root providers) \<longleftrightarrow> providers \<noteq> [] \<and> distinct providers"
| "chase_call_ok C said _ \<longleftrightarrow> True"

definition cache_ok :: "chase_config \<Rightarrow> (cid \<Rightarrow> bundle_verdict \<Rightarrow> bool) \<Rightarrow> verdict_cache \<Rightarrow> bool" where
  "cache_ok C said cache \<longleftrightarrow> fifo_wf (cc_cacheMax C) cache \<and>
     fifo.sound (\<lambda>k v. is_valid v \<longrightarrow> (\<exists>cid. cid_str (cc_lib C) cid = k \<and> said cid v)) cache"

definition chase_ok :: "chase_config \<Rightarrow> (cid \<Rightarrow> bundle_verdict \<Rightarrow> bool) \<Rightarrow> chaser \<Rightarrow> bool" where
  "chase_ok C said s \<longleftrightarrow>
     jwf (ch_flights s) \<and> (\<forall>key fl. jget (ch_flights s) key = Some fl \<longrightarrow> flight_ok C key fl) \<and>
     distinct (ch_queue s) \<and>
     (\<forall>key. key \<in> set (ch_queue s) \<longleftrightarrow> (\<exists>fl. jget (ch_flights s) key = Some fl \<and> fl_wait fl = Queued)) \<and>
     chase_active s \<le> cc_limit C \<and> cache_ok C said (ch_cache s) \<and> (\<forall>c \<in> set (ch_calls s). chase_call_ok C said c)"

lemma cache_ok_set:
  assumes "cache_ok C said cache" "is_valid v \<Longrightarrow> said cid v"
  shows "cache_ok C said (verdict_set (cc_lib C) (cc_cacheMax C) cid v cache)"
  using assms unfolding cache_ok_def verdict_set_def by (auto intro!: fifo.wf_store fifo.sound_store)

lemma cache_ok_get:
  "cache_ok C said cache \<Longrightarrow> verdict_get (cc_lib C) cid cache = Some v \<Longrightarrow> is_valid v \<Longrightarrow>
     \<exists>cid'. cid_str (cc_lib C) cid' = cid_str (cc_lib C) cid \<and> said cid' v"
  unfolding cache_ok_def verdict_get_def fifo.sound_def by blast

lemma chase_ok_start: "chase_ok C said (chaser_start fifo_empty)"
  by (simp add: chase_ok_def chaser_start_def chase_active_def cache_ok_def fifo.wf_empty fifo.sound_empty jwf_def)

section \<open>Providers\<close>

lemma addProviders_fields:
  assumes "addProviders ps fl = (fl', calls)"
  shows "fl_root fl' = fl_root fl" "fl_session fl' = fl_session fl" "fl_started fl' = fl_started fl" "fl_wait fl' = fl_wait fl"
    "fl_rest fl' = fl_rest fl" "fl_pending fl' = fl_pending fl" "fl_merged fl' = fl_merged fl" "fl_chunks fl' = fl_chunks fl"
    "\<not> fl_session fl \<Longrightarrow> calls = []" "set calls \<subseteq> {AddPeer (fl_root fl) p | p. p \<notin> set (fl_seeded fl)}"
    "distinct calls" "set (fl_seeded fl') = set (fl_seeded fl) \<union> set ps"
    "distinct (fl_queued fl) \<Longrightarrow> set (fl_queued fl) \<subseteq> set (fl_seeded fl) \<Longrightarrow>
       distinct (fl_queued fl') \<and> set (fl_queued fl') \<subseteq> set (fl_seeded fl')"
proof -
  define good where "good = (\<lambda>ps (st :: flight \<times> chase_call list). case st of (fl', calls) \<Rightarrow>
    fl_root fl' = fl_root fl \<and> fl_session fl' = fl_session fl \<and> fl_started fl' = fl_started fl \<and> fl_wait fl' = fl_wait fl \<and>
    fl_rest fl' = fl_rest fl \<and> fl_pending fl' = fl_pending fl \<and> fl_merged fl' = fl_merged fl \<and> fl_chunks fl' = fl_chunks fl \<and>
    (\<not> fl_session fl \<longrightarrow> calls = []) \<and>
    set calls \<subseteq> {AddPeer (fl_root fl) p | p. p \<in> set (fl_seeded fl') - set (fl_seeded fl)} \<and> distinct calls \<and>
    set (fl_seeded fl') = set (fl_seeded fl) \<union> set ps \<and>
    (distinct (fl_queued fl) \<longrightarrow> set (fl_queued fl) \<subseteq> set (fl_seeded fl) \<longrightarrow>
       distinct (fl_queued fl') \<and> set (fl_queued fl') \<subseteq> set (fl_seeded fl')))"
  have step: "good (ds @ [p]) (addProvider p st)" if "good ds st" for ds p st
    using that by (cases st) (auto simp: good_def addProvider_def Let_def)
  have "good ds st \<Longrightarrow> good (ds @ ps) (fold addProvider ps st)" for ds st
  proof (induction ps arbitrary: ds st)
    case (Cons p ps)
    from Cons.IH [OF step [OF Cons.prems]] show ?case by simp
  qed simp
  moreover have "good [] (fl, [])" by (simp add: good_def)
  ultimately have "good ps (fl', calls)" using assms unfolding addProviders_def by (metis append_Nil)
  then show "fl_root fl' = fl_root fl" "fl_session fl' = fl_session fl" "fl_started fl' = fl_started fl" "fl_wait fl' = fl_wait fl"
    "fl_rest fl' = fl_rest fl" "fl_pending fl' = fl_pending fl" "fl_merged fl' = fl_merged fl" "fl_chunks fl' = fl_chunks fl"
    "\<not> fl_session fl \<Longrightarrow> calls = []" "set calls \<subseteq> {AddPeer (fl_root fl) p | p. p \<notin> set (fl_seeded fl)}"
    "distinct calls" "set (fl_seeded fl') = set (fl_seeded fl) \<union> set ps"
    "distinct (fl_queued fl) \<Longrightarrow> set (fl_queued fl) \<subseteq> set (fl_seeded fl) \<Longrightarrow>
       distinct (fl_queued fl') \<and> set (fl_queued fl') \<subseteq> set (fl_seeded fl')"
    by (auto simp: good_def)
qed

section \<open>Steps\<close>

lemma chase_ok_call: "chase_ok C said s \<Longrightarrow> chase_call_ok C said c \<Longrightarrow> chase_ok C said (chase_call c s)"
  by (auto simp: chase_ok_def chase_call_def chase_active_def)

lemma chase_ok_put:
  assumes "chase_ok C said s" "jget (ch_flights s) key = Some fl" "fl_wait fl \<noteq> Queued" "flight_ok C key fl'" "fl_wait fl' \<noteq> Queued"
  shows "chase_ok C said (put_flight key fl' s)"
proof -
  have wf: "jwf (ch_flights s)" using assms(1) by (simp add: chase_ok_def)
  have "chase_active (put_flight key fl' s) = chase_active s"
    using assms(3,5) by (simp add: active_sum put_flight_def over_jset [OF wf] over_jdel [OF wf assms(2)] running_def)
  with assms wf show ?thesis by (auto simp: chase_ok_def put_flight_def jsmap_simps jwf_jset)
qed

lemma flights_call [simp]: "ch_flights (chase_call c s) = ch_flights s" "ch_queue (chase_call c s) = ch_queue s"
  "ch_cache (chase_call c s) = ch_cache s"
  by (simp_all add: chase_call_def)

lemma chase_ok_end:
  assumes "chase_ok C said s" "jget (ch_flights s) key = Some fl" "fl_wait fl \<noteq> Queued"
  shows "chase_ok C said (chase_end key fl' s)"
proof -
  define s' where "s' = (if fl_session fl' then chase_call (CloseSession (fl_root fl')) s else s)"
  have ok: "chase_ok C said s'" "ch_flights s' = ch_flights s" using assms(1) by (simp_all add: s'_def chase_ok_call)
  then have wf: "jwf (ch_flights s')" by (simp add: chase_ok_def)
  have "chase_active (s'\<lparr>ch_flights := jdel key (ch_flights s')\<rparr>) \<le> chase_active s'"
    using over_jdel [OF wf, of key fl running] ok(2) assms(2) by (simp add: active_sum)
  with ok assms(2,3) wf have "chase_ok C said (s'\<lparr>ch_flights := jdel key (ch_flights s')\<rparr>)"
    by (auto simp: chase_ok_def jsmap_simps jwf_jdel)
  then show ?thesis by (simp add: chase_end_def Let_def s'_def)
qed

lemma chase_ok_report:
  assumes "chase_ok C said s" "jget (ch_flights s) key = Some fl" "fl_wait fl \<noteq> Queued"
  shows "chase_ok C said (chase_report key fl' s)"
  unfolding chase_report_def Let_def
  by (rule chase_ok_end [OF _ _ assms(3)]) (use assms(1,2) in \<open>simp_all add: chase_ok_call\<close>)

lemma chase_ok_next:
  assumes "chase_ok C said s" "jget (ch_flights s) key = Some fl" "fl_wait fl \<noteq> Queued" "flight_ok C key fl'" "fl_wait fl' \<noteq> Queued"
  shows "chase_ok C said (chase_next C aborted key fl' s)"
proof -
  have "flight_ok C key (fl'\<lparr>fl_rest := rest, fl_wait := Screening bs b\<rparr>)"
    if "fl_rest fl' = b # rest" "encodeBundle (cc_lib C) b = Inr bs" for b rest bs
    using assms(4,5) that by (auto simp: flight_ok_def wire_form_def block_of_def)
  then show ?thesis
    using chase_ok_report [OF assms(1-3)] chase_ok_end [OF assms(1-3)] chase_ok_put [OF assms(1-3)]
    by (auto simp: chase_next_def split: list.splits sum.splits)
qed

lemma chase_ok_admits:
  assumes "chase_ok C said s" "jget (ch_flights s) key = Some fl" "fl_wait fl \<noteq> Queued" "flight_ok C key fl'" "fl_wait fl' \<noteq> Queued"
    and "chase_call_ok C said (ChaseAdmit cid bs b verified)"
  shows "chase_ok C said (chase_admits key cid bs b verified fl' s)"
  unfolding chase_admits_def
  by (intro chase_ok_call [OF chase_ok_put [OF assms(1-3)] assms(6)]) (use assms(4,5) in \<open>auto simp: flight_ok_def\<close>)

lemma traverse_mem: "traverse f xs = Inr ys \<Longrightarrow> y \<in> set ys \<Longrightarrow> \<exists>x \<in> set xs. f x = Inr y"
  unfolding traverse_Inr_iff by (induction xs ys rule: list_all2_induct) auto

lemma decoded_encodes:
  assumes "decodeCheckpoint L root getBlock chunks = Inr winners" "b \<in> set winners"
  shows "wire_form L b"
proof -
  from assms(1) obtain cs perChunk where "traverse (decode_chunk L getBlock) cs = Inr perChunk" "winners = concat perChunk"
    by (auto simp: decodeCheckpoint_def res_simps)
  with assms(2) traverse_mem obtain c chunk where "decode_chunk L getBlock c = Inr chunk" "b \<in> set chunk" by fastforce
  then obtain wires where "traverse (fromWireBundle L) wires = Inr chunk" by (auto simp: decode_chunk_def res_simps)
  from traverse_mem [OF this \<open>b \<in> set chunk\<close>] obtain w where "fromWireBundle L w = Inr b" by blast
  then show ?thesis using fromWireBundle_encodes fromWireBundle_Inr(2) unfolding wire_form_def by blast
qed

lemma chase_ok_hint:
  assumes ok: "chase_ok C said s"
  shows "chase_ok C said (chase_root C root chunks providers s)"
proof (cases "jget (ch_flights s) (cid_str (cc_lib C) root)")
  case (Some fl)
  show ?thesis
  proof (cases providers)
    case (Some ps)
    obtain fl' calls where add: "addProviders ps fl = (fl', calls)" by fastforce
    note f = addProviders_fields [OF add]
    let ?key = "cid_str (cc_lib C) root"
    note old = \<open>jget (ch_flights s) ?key = Some fl\<close>
    have flok: "flight_ok C ?key fl" and wf: "jwf (ch_flights s)" using ok old by (simp_all add: chase_ok_def)
    then have "flight_ok C ?key fl'" using f by (simp add: flight_ok_def)
    moreover have "chase_active (put_flight ?key fl' s) = chase_active s"
      using f(4) by (simp add: active_sum put_flight_def over_jset [OF wf] over_jdel [OF wf old] running_def)
    moreover have "\<forall>c \<in> set calls. chase_call_ok C said c" using f(10) by auto
    ultimately have "chase_ok C said ((put_flight ?key fl' s)\<lparr>ch_calls := ch_calls s @ calls\<rparr>)"
      using ok wf old f(4) by (auto simp: chase_ok_def put_flight_def jsmap_simps jwf_jset chase_active_def)
    with old Some add show ?thesis by (simp add: chase_root_def Let_def)
  qed (use ok Some in \<open>simp add: chase_root_def Let_def\<close>)
next
  case None
  let ?key = "cid_str (cc_lib C) root"
  define fl where "fl = (case providers of None \<Rightarrow> new_flight root chunks | Some ps \<Rightarrow> fst (addProviders ps (new_flight root chunks)))"
  have wf: "jwf (ch_flights s)" using ok by (simp add: chase_ok_def)
  have new: "flight_ok C ?key (new_flight root chunks)" by (simp add: flight_ok_def new_flight_def)
  have "flight_ok C ?key fl \<and> fl_wait fl = Queued"
  proof (cases providers)
    case (Some ps)
    obtain fl' calls where add: "addProviders ps (new_flight root chunks) = (fl', calls)" by fastforce
    from addProviders_fields [OF add] new have "flight_ok C ?key fl'" "fl_wait fl' = Queued"
      by (simp_all add: flight_ok_def) (simp_all add: new_flight_def)
    with Some add show ?thesis by (simp add: fl_def)
  qed (use new in \<open>simp add: fl_def, simp add: new_flight_def\<close>)
  then have fl: "flight_ok C ?key fl" "fl_wait fl = Queued" by simp_all
  have "chase_active (put_flight ?key fl s) = chase_active s"
    using fl(2) None by (simp add: active_sum put_flight_def over_jset [OF wf] over_new running_def)
  with ok wf fl None show ?thesis
    by (auto simp: chase_root_def Let_def fl_def [symmetric] chase_ok_def put_flight_def jsmap_simps jwf_jset chase_active_def)
qed

lemma chase_ok_begin:
  assumes ok: "chase_ok C said s" and q: "ch_queue s = key # waiting" and free: "chase_active s < cc_limit C"
    and at: "jget (ch_flights s) key = Some fl"
  shows "chase_ok C said (chase_begin C opened key fl s)"
proof -
  let ?seed = "fl_queued fl \<noteq> [] \<and> cc_sessions C"
  define s' where "s' = (if ?seed then chase_call (OpenSession (fl_root fl) (fl_queued fl)) s else s)"
  define fl' where "fl' = fl\<lparr>fl_session := (?seed \<and> opened), fl_queued := (if ?seed then [] else fl_queued fl),
                fl_started := True, fl_wait := Fetching\<rparr>"
  have flok: "flight_ok C key fl" and wf: "jwf (ch_flights s)" using ok at by (simp_all add: chase_ok_def)
  have wait: "fl_wait fl = Queued" using ok q at unfolding chase_ok_def by (metis list.set_intros(1) option.inject)
  have ok': "chase_ok C said s'" using ok flok by (simp add: s'_def chase_ok_call flight_ok_def)
  have same: "ch_flights s' = ch_flights s" "ch_queue s' = ch_queue s" by (simp_all add: s'_def)
  have fl': "flight_ok C key fl'" using flok wait by (auto simp: flight_ok_def fl'_def)
  have "chase_active ((put_flight key fl' s')\<lparr>ch_queue := waiting\<rparr>) = Suc (chase_active s)"
    using wait by (simp add: active_sum put_flight_def same over_jset [OF wf] over_jdel [OF wf at] running_def fl'_def)
  moreover have "key \<notin> set waiting" "distinct waiting" using ok q by (simp_all add: chase_ok_def)
  ultimately have "chase_ok C said ((put_flight key fl' s')\<lparr>ch_queue := waiting\<rparr>)"
    using ok' wf free fl' q at wait
    by (auto simp: chase_ok_def same put_flight_def jsmap_simps jwf_jset) (simp add: fl'_def)
  then show ?thesis by (simp add: chase_begin_def Let_def s'_def fl'_def q)
qed

lemma chase_ok_step: "chase_step C said s s' \<Longrightarrow> chase_ok C said s \<Longrightarrow> chase_ok C said s'"
proof (induction rule: chase_step.induct)
  case (caches cid v s)
  then show ?case using cache_ok_set [of C said "ch_cache s" v cid] by (simp add: chase_ok_def chase_active_def)
next
  case (decodes s key fl decoded blocks aborted)
  note at = decodes(1)
  have wait: "fl_wait fl \<noteq> Queued" using decodes(2) by simp
  have flok: "flight_ok C key fl" using decodes(4) at by (simp add: chase_ok_def)
  note ends = chase_ok_end [OF decodes(4) at wait]
  show ?case
  proof (cases "\<exists>winners. decoded = Inr (Some winners)")
    case True
    then obtain winners where w: "decoded = Inr (Some winners)" by blast
    with decodes(3) have "decodeCheckpoint (cc_lib C) (fl_root fl) (\<lambda>c. Inr (blocks c)) (fl_chunks fl) = Inr winners"
      by (cases "decodeCheckpoint (cc_lib C) (fl_root fl) (\<lambda>c. Inr (blocks c)) (fl_chunks fl)") auto
    from decoded_encodes [OF this] have "flight_ok C key (fl\<lparr>fl_rest := winners\<rparr>)" using flok by (simp add: flight_ok_def)
    from chase_ok_next [OF decodes(4) at wait this] wait w show ?thesis by (simp add: chase_decoded_def)
  next
    case False
    with ends show ?thesis by (auto simp: chase_decoded_def split: sum.splits option.splits)
  qed
next
  case (screens s key fl bs b aborted admitted)
  note at = screens(1)
  have wait: "fl_wait fl \<noteq> Queued" using screens(2) by simp
  have flok: "flight_ok C key fl" using screens(3) at by (simp add: chase_ok_def)
  define cid where "cid = bundleCidForBytes (cc_lib C) bs"
  define fl' where "fl' = fl\<lparr>fl_contained := fl_contained fl @ [cid]\<rparr>"
  have fl': "flight_ok C key fl'" "fl_wait fl' \<noteq> Queued" using flok wait by (simp_all add: flight_ok_def fl'_def)
  have enc: "block_of (cc_lib C) cid bs b" using flok screens(2) by (simp add: flight_ok_def cid_def)
  have cache: "cache_ok C said (ch_cache s)" using screens(3) by (simp add: chase_ok_def)
  have said: "\<exists>cid' names. cid_str (cc_lib C) cid' = cid_str (cc_lib C) cid \<and> said cid' (Valid names)"
    if "verdict_get (cc_lib C) cid (ch_cache s) = Some (Valid names)" for names
    using cache_ok_get [OF cache that] by auto
  have dating: "chase_ok C said (put_flight key (fl'\<lparr>fl_wait := DatingBundle cid bs b\<rparr>) s)"
    by (rule chase_ok_put [OF screens(3) at wait]) (use fl' enc in \<open>auto simp: flight_ok_def\<close>)
  show ?case
    using chase_ok_next [OF screens(3) at wait fl'] chase_ok_end [OF screens(3) at wait]
      chase_ok_admits [OF screens(3) at wait fl', of cid bs b True] dating enc said
    unfolding chase_screened_def Let_def cid_def [symmetric] fl'_def [symmetric]
    by (auto split: sum.splits bool.splits option.splits verdict.splits)
next
  case (dates s key fl cid bs b aborted evaluable)
  note at = dates(1)
  have wait: "fl_wait fl \<noteq> Queued" using dates(2) by simp
  have flok: "flight_ok C key fl" using dates(3) at by (simp add: chase_ok_def)
  then have "flight_ok C key (fl\<lparr>fl_wait := CheckingOffline cid bs b\<rparr>)" using dates(2) by (auto simp: flight_ok_def)
  then show ?case
    using chase_ok_next [OF dates(3) at wait flok wait] chase_ok_end [OF dates(3) at wait] chase_ok_put [OF dates(3) at wait]
    by (auto simp: chase_dated_def split: sum.splits bool.splits)
next
  case (checks s key fl cid bs b aborted)
  note at = checks(1)
  have wait: "fl_wait fl \<noteq> Queued" using checks(2) by simp
  have flok: "flight_ok C key fl" using checks(3) at by (simp add: chase_ok_def)
  have cached: "chase_ok C said (s\<lparr>ch_cache := verdict_set (cc_lib C) (cc_cacheMax C) cid (Invalid d r fs) (ch_cache s)\<rparr>)" for d r fs
    using checks(3) cache_ok_set [of C said "ch_cache s" "Invalid d r fs" cid] by (simp add: chase_ok_def chase_active_def)
  have nexts: "chase_ok C said (chase_next C aborted key fl (s\<lparr>ch_cache := verdict_set (cc_lib C) (cc_cacheMax C) cid (Invalid d r fs) (ch_cache s)\<rparr>))" for d r fs
    by (rule chase_ok_next [OF cached _ wait flok wait]) (simp add: at)
  have "chase_call_ok C said (ChaseAdmit cid bs b False)" if "cc_verifyOffline C b = Valid ()"
    using flok checks(2) that by (simp add: flight_ok_def)
  from chase_ok_admits [OF checks(3) at wait flok wait this] nexts chase_ok_next [OF checks(3) at wait flok wait]
  show ?case by (auto simp: chase_checked_def split: verdict.splits)
next
  case (stores s key fl cid b verified aborted stored)
  note at = stores(1)
  have wait: "fl_wait fl \<noteq> Queued" using stores(2) by simp
  have flok: "flight_ok C key fl" using stores(3) at by (simp add: chase_ok_def)
  let ?fl = "fl\<lparr>fl_merged := True, fl_pending := (if verified then fl_pending fl else fl_pending fl @ [(cid, b)])\<rparr>"
  have fl': "flight_ok C key ?fl" "fl_wait ?fl \<noteq> Queued" using flok stores(2) by (simp_all add: flight_ok_def)
  show ?case
  proof (cases stored)
    case Inl
    with chase_ok_end [OF stores(3) at wait] show ?thesis by (simp add: chase_admitted_def)
  next
    case Inr
    show ?thesis unfolding chase_admitted_def Inr sum.case by (rule chase_ok_next [OF stores(3) at wait fl'])
  qed
qed (simp_all add: chase_ok_hint chase_ok_begin)

lemma chase_ok_reachable: "(chase_step C said)\<^sup>*\<^sup>* (chaser_start fifo_empty) s \<Longrightarrow> chase_ok C said s"
  by (induction rule: rtranclp_induct) (simp_all add: chase_ok_start chase_ok_step)

end
