(* ===== verification/Chase_Properties.thy ===== *)
theory Chase_Properties
  imports Chase_Invariants Wire_Properties
begin

text \<open>
  What the chase promises: it admits screened bundles only, it never runs more chases than its limit
  nor two for one root, it hands every provisional admission on to the deferred checks while the
  host's answers do not throw (and loses some when one does), and an honest checkpoint is taken over.
\<close>

section \<open>Screening\<close>

text \<open>C12: A chase admits only what was screened. Every bundle the chaser hands to the engine is the content
  of the block that it names, and it has passed the offline stage or carries a verdict of the whole
  pipeline.\<close>

theorem chase_admits_screened:
  assumes "cbor_laws (cc_lib C)" "b58_laws (cc_lib C)" "(chase_step C said)\<^sup>*\<^sup>* (chaser_start fifo_empty) s"
    and "ChaseAdmit cid bs b verified \<in> set (ch_calls s)"
  shows "parseBundle (cc_lib C) bs = Inr (cid, b) \<and>
    (if verified then \<exists>cid' names. cid_str (cc_lib C) cid' = cid_str (cc_lib C) cid \<and> said cid' (Valid names)
     else cc_verifyOffline C b = Valid ())"
proof -
  from chase_ok_reachable [OF assms(3)] assms(4) have "chase_call_ok C said (ChaseAdmit cid bs b verified)"
    unfolding chase_ok_def by blast
  moreover from this have "decodeBundle (cc_lib C) bs = Inr b"
    using decodeBundle_encode [OF assms(1,2), of b bs] by (simp add: block_of_def)
  ultimately show ?thesis
    by (cases "cc_verifyOffline C b") (auto simp: parseBundle_def block_of_def split: if_splits)
qed

section \<open>Slots\<close>

text \<open>Chases are bounded and distinct. However hints arrive, at most as many chases run as the limit
  allows, each root has one flight under its own key, the queue holds exactly the flights that wait
  for a slot, and a waiting flight starts as soon as a slot is free.\<close>

theorem chase_slots_bounded:
  assumes "(chase_step C said)\<^sup>*\<^sup>* (chaser_start fifo_empty) s"
  shows "chase_active s \<le> cc_limit C \<and> distinct (map fst (ch_flights s)) \<and>
    (\<forall>key fl. jget (ch_flights s) key = Some fl \<longrightarrow> key = cid_str (cc_lib C) (fl_root fl)) \<and>
    distinct (ch_queue s) \<and>
    set (ch_queue s) = {key. \<exists>fl. jget (ch_flights s) key = Some fl \<and> fl_wait fl = Queued} \<and>
    (\<forall>key waiting opened. ch_queue s = key # waiting \<and> chase_active s < cc_limit C \<longrightarrow>
       (\<exists>fl. jget (ch_flights s) key = Some fl \<and> chase_step C said s (chase_begin C opened key fl s)))"
proof -
  note ok = chase_ok_reachable [OF assms, unfolded chase_ok_def]
  then have "\<exists>fl. jget (ch_flights s) key = Some fl \<and> chase_step C said s (chase_begin C opened key fl s)"
    if "ch_queue s = key # waiting" "chase_active s < cc_limit C" for key waiting opened
    using that chase_step.begins [OF that] by (metis list.set_intros(1))
  with ok show ?thesis by (auto simp: jwf_def flight_ok_def)
qed

section \<open>Deferred checks\<close>

definition provisional_of :: "chase_call \<Rightarrow> (cid \<times> votes_bundle) list" where
  "provisional_of c = (case c of ChaseAdmit cid bs b verified \<Rightarrow> if verified then [] else [(cid, b)] | _ \<Rightarrow> [])"

definition deferred_of :: "chase_call \<Rightarrow> (cid \<times> votes_bundle) list" where
  "deferred_of c = (case c of DeferVerify es \<Rightarrow> es | _ \<Rightarrow> [])"

definition provisional :: "chaser \<Rightarrow> (cid \<times> votes_bundle) multiset" where
  "provisional s = mset (concat (map provisional_of (ch_calls s)))"

definition deferred :: "chaser \<Rightarrow> (cid \<times> votes_bundle) multiset" where
  "deferred s = mset (concat (map deferred_of (ch_calls s)))"

text \<open>What a flight will hand on: what it has collected, and the admission it waits for.\<close>

definition admitting :: "chase_wait \<Rightarrow> (cid \<times> votes_bundle) multiset" where
  "admitting w = (case w of AdmittingBundle cid b verified \<Rightarrow> if verified then {#} else {#(cid, b)#} | _ \<Rightarrow> {#})"

definition carried :: "flight \<Rightarrow> (cid \<times> votes_bundle) multiset" where
  "carried fl = mset (fl_pending fl) + admitting (fl_wait fl)"

definition balanced :: "chaser \<Rightarrow> bool" where
  "balanced s \<longleftrightarrow> provisional s = deferred s + over_values carried (ch_flights s)"

lemma count_call: "provisional (chase_call c s) = provisional s + mset (provisional_of c)"
  "deferred (chase_call c s) = deferred s + mset (deferred_of c)"
  by (simp_all add: provisional_def deferred_def chase_call_def)

lemma count_put [simp]: "provisional (put_flight key fl s) = provisional s" "deferred (put_flight key fl s) = deferred s"
  by (simp_all add: provisional_def deferred_def put_flight_def)

lemma count_cache [simp]: "provisional (s\<lparr>ch_cache := cache\<rparr>) = provisional s" "deferred (s\<lparr>ch_cache := cache\<rparr>) = deferred s"
  "provisional (s\<lparr>ch_flights := fls\<rparr>) = provisional s" "deferred (s\<lparr>ch_flights := fls\<rparr>) = deferred s"
  "provisional (s\<lparr>ch_queue := q\<rparr>) = provisional s" "deferred (s\<lparr>ch_queue := q\<rparr>) = deferred s"
  by (simp_all add: provisional_def deferred_def)

lemma quiet_calls [simp]: "provisional_of (OpenSession r ps) = []" "provisional_of (CloseSession r) = []" "provisional_of (DeferVerify es) = []"
  "provisional_of (CheckpointContents r cs) = []" "provisional_of Merged = []" "provisional_of (AddPeer r p) = []"
  "deferred_of (OpenSession r ps) = []" "deferred_of (CloseSession r) = []" "deferred_of (CheckpointContents r cs) = []"
  "deferred_of Merged = []" "deferred_of (AddPeer r p) = []" "deferred_of (ChaseAdmit cid bs b v) = []"
  "deferred_of (DeferVerify es) = es" "provisional_of (ChaseAdmit cid bs b v) = (if v then [] else [(cid, b)])"
  by (simp_all add: provisional_of_def deferred_of_def)

lemma count_report:
  assumes "jwf (ch_flights s)"
  shows "provisional (chase_report key fl s) = provisional s"
    "deferred (chase_report key fl s) = deferred s + mset (fl_pending fl)"
    "ch_flights (chase_report key fl s) = jdel key (ch_flights s)"
  by (simp_all add: chase_report_def chase_end_def Let_def count_call)

text \<open>The loop's head passes what the flight has collected on.\<close>

lemma balanced_next:
  assumes "jwf (ch_flights s)" "\<forall>b \<in> set (fl_rest fl). wire_form (cc_lib C) b"
    and "provisional s = deferred s + mset (fl_pending fl) + over_values carried (jdel key (ch_flights s))"
  shows "balanced (chase_next C aborted key fl s)"
proof -
  have "balanced (chase_report key fl s)" using assms(3) by (simp add: balanced_def count_report [OF assms(1)])
  moreover have "balanced (put_flight key (fl\<lparr>fl_rest := rest, fl_wait := Screening bs b\<rparr>) s)" for rest bs b
    using assms(3) by (simp add: balanced_def put_flight_def over_jset [OF assms(1)] carried_def admitting_def)
  ultimately show ?thesis using assms(2) by (auto simp: chase_next_def wire_form_def split: list.splits sum.splits)
qed

lemma balanced_other:
  assumes "balanced s" "jwf (ch_flights s)" "jget (ch_flights s) key = Some fl"
  shows "provisional s = deferred s + carried fl + over_values carried (jdel key (ch_flights s))"
  using assms by (simp add: balanced_def over_jdel add.assoc)

lemma balanced_put:
  assumes "balanced s" "jwf (ch_flights s)" "jget (ch_flights s) key = Some fl" "carried fl' = carried fl"
  shows "balanced (put_flight key fl' s)"
  using balanced_other [OF assms(1-3)] assms(2,4)
  by (simp add: balanced_def) (simp add: put_flight_def over_jset add.assoc)

lemma count_calls: "provisional (s\<lparr>ch_calls := ch_calls s @ cs\<rparr>) = provisional s + mset (concat (map provisional_of cs))"
  "deferred (s\<lparr>ch_calls := ch_calls s @ cs\<rparr>) = deferred s + mset (concat (map deferred_of cs))"
  by (simp_all add: provisional_def deferred_def)

lemma balanced_calls:
  assumes "balanced s" "\<forall>c \<in> set cs. provisional_of c = [] \<and> deferred_of c = []"
  shows "balanced (s\<lparr>ch_calls := ch_calls s @ cs\<rparr>)"
proof -
  have "concat (map provisional_of cs) = []" "concat (map deferred_of cs) = []" using assms(2) by simp_all
  then have "mset (concat (map provisional_of cs)) = {#}" "mset (concat (map deferred_of cs)) = {#}" by (simp_all only: mset.simps)
  moreover have "ch_flights (s\<lparr>ch_calls := ch_calls s @ cs\<rparr>) = ch_flights s" by simp
  ultimately show ?thesis using assms(1) by (simp only: balanced_def count_calls add_0_right)
qed

lemma balanced_admits:
  assumes "balanced s" "jwf (ch_flights s)" "jget (ch_flights s) key = Some fl" "admitting (fl_wait fl) = {#}"
    "fl_pending fl' = fl_pending fl"
  shows "balanced (chase_admits key cid bs b verified fl' s)"
  using balanced_other [OF assms(1-3)] assms(2,4,5)
  by (simp add: balanced_def chase_admits_def count_call) (simp add: put_flight_def over_jset carried_def admitting_def add_ac)

lemma carried_waits [simp]: "admitting Queued = {#}" "admitting Fetching = {#}" "admitting (Screening bs b) = {#}"
  "admitting (DatingBundle cid bs b) = {#}" "admitting (CheckingOffline cid bs b) = {#}"
  "admitting (AdmittingBundle cid b v) = (if v then {#} else {#(cid, b)#})"
  by (simp_all add: admitting_def)

lemma balanced_step: "calm_chase C said s s' \<Longrightarrow> chase_ok C said s \<Longrightarrow> balanced s \<Longrightarrow> balanced s'"
proof (induction rule: calm_chase.induct)
  case (hints s root chunks providers)
  let ?key = "cid_str (cc_lib C) root"
  have wf: "jwf (ch_flights s)" using hints(1) by (simp add: chase_ok_def)
  show ?case
  proof (cases "jget (ch_flights s) ?key")
    case None
    have "carried (case providers of None \<Rightarrow> new_flight root chunks | Some ps \<Rightarrow> fst (addProviders ps (new_flight root chunks))) = {#}"
    proof (cases providers)
      case (Some ps)
      obtain fl' calls where add: "addProviders ps (new_flight root chunks) = (fl', calls)" by fastforce
      with addProviders_fields(4,6) [OF add] have "carried fl' = {#}" by (simp add: carried_def) (simp add: new_flight_def)
      with Some add show ?thesis by simp
    qed (simp add: carried_def new_flight_def)
    with None hints(2) wf show ?thesis
      by (simp add: chase_root_def Let_def balanced_def) (simp add: put_flight_def over_jset over_new)
  next
    case (Some fl)
    show ?thesis
    proof (cases providers)
      case (Some ps)
      obtain fl' calls where add: "addProviders ps fl = (fl', calls)" by fastforce
      note f = addProviders_fields [OF add]
      have "carried fl' = carried fl" using f(4,6) by (simp add: carried_def)
      from balanced_put [OF hints(2) wf \<open>jget (ch_flights s) ?key = Some fl\<close> this]
      have "balanced ((put_flight ?key fl' s)\<lparr>ch_calls := ch_calls (put_flight ?key fl' s) @ calls\<rparr>)"
        by (rule balanced_calls) (use f(10) in auto)
      moreover have "ch_calls (put_flight ?key fl' s) = ch_calls s" by (simp add: put_flight_def)
      ultimately show ?thesis using Some add \<open>jget (ch_flights s) ?key = Some fl\<close> by (simp add: chase_root_def Let_def)
    qed (use Some hints(2) in \<open>simp add: chase_root_def Let_def\<close>)
  qed
next
  case (caches cid v s)
  then show ?case by (simp add: balanced_def)
next
  case (begins s key waiting fl opened)
  have wf: "jwf (ch_flights s)" using begins(4) by (simp add: chase_ok_def)
  have "fl_wait fl = Queued" using begins(1,3,4) unfolding chase_ok_def by (metis list.set_intros(1) option.inject)
  then have same: "carried (fl\<lparr>fl_session := a, fl_queued := q, fl_started := True, fl_wait := Fetching\<rparr>) = carried fl" for a q
    by (simp add: carried_def)
  have "balanced (if fl_queued fl \<noteq> [] \<and> cc_sessions C then chase_call (OpenSession (fl_root fl) (fl_queued fl)) s else s)"
    using begins(5) by (simp add: balanced_def count_call)
  from balanced_put [OF this _ _ same] wf begins(3) show ?case by (simp add: chase_begin_def Let_def balanced_def)
next
  case (decodes s key fl decoded blocks aborted)
  have wf: "jwf (ch_flights s)" and flok: "flight_ok C key fl" using decodes(1,4) by (simp_all add: chase_ok_def)
  note other = balanced_other [OF decodes(5) wf decodes(1)]
  have pending: "fl_pending fl = []" using flok decodes(2) by (simp add: flight_ok_def)
  show ?case
  proof (cases "\<exists>winners. decoded = Inr (Some winners)")
    case True
    then obtain winners where w: "decoded = Inr (Some winners)" by blast
    with decodes(3) have "decodeCheckpoint (cc_lib C) (fl_root fl) (\<lambda>c. Inr (blocks c)) (fl_chunks fl) = Inr winners"
      by (cases "decodeCheckpoint (cc_lib C) (fl_root fl) (\<lambda>c. Inr (blocks c)) (fl_chunks fl)") auto
    from decoded_encodes [OF this] have "balanced (chase_next C aborted key (fl\<lparr>fl_rest := winners\<rparr>) s)"
      by (intro balanced_next [OF wf]) (use other decodes(2) in \<open>simp_all add: carried_def\<close>)
    with w show ?thesis by (simp add: chase_decoded_def)
  next
    case False
    have "balanced (chase_end key fl s)"
      using other pending decodes(2) by (simp add: balanced_def chase_end_def Let_def count_call carried_def)
    with False show ?thesis by (auto simp: chase_decoded_def split: sum.splits option.splits)
  qed
next
  case (screens s key fl bs b aborted admitted)
  have wf: "jwf (ch_flights s)" and flok: "flight_ok C key fl" using screens(1,3) by (simp_all add: chase_ok_def)
  note other = balanced_other [OF screens(4) wf screens(1)]
  define fl' where "fl' = fl\<lparr>fl_contained := fl_contained fl @ [bundleCidForBytes (cc_lib C) bs]\<rparr>"
  have "balanced (chase_next C aborted key fl' s)"
    by (rule balanced_next [OF wf]) (use other screens(2) flok in \<open>simp_all add: carried_def flight_ok_def fl'_def\<close>)
  moreover have "balanced (chase_admits key cid bs b v fl' s)" for cid v
    by (rule balanced_admits [OF screens(4) wf screens(1)]) (simp_all add: screens(2) fl'_def)
  moreover have "balanced (put_flight key (fl'\<lparr>fl_wait := DatingBundle cid bs b\<rparr>) s)" for cid
    by (rule balanced_put [OF screens(4) wf screens(1)]) (simp add: carried_def screens(2) fl'_def)
  ultimately show ?case
    unfolding chase_screened_def Let_def fl'_def [symmetric] by (simp split: bool.splits option.splits verdict.splits)
next
  case (dates s key fl cid bs b aborted evaluable)
  have wf: "jwf (ch_flights s)" and flok: "flight_ok C key fl" using dates(1,3) by (simp_all add: chase_ok_def)
  note other = balanced_other [OF dates(4) wf dates(1)]
  have "balanced (chase_next C aborted key fl s)"
    by (rule balanced_next [OF wf]) (use other dates(2) flok in \<open>simp_all add: carried_def flight_ok_def\<close>)
  moreover have "balanced (put_flight key (fl\<lparr>fl_wait := CheckingOffline cid bs b\<rparr>) s)"
    by (rule balanced_put [OF dates(4) wf dates(1)]) (simp add: carried_def dates(2))
  ultimately show ?case by (simp add: chase_dated_def split: bool.splits)
next
  case (checks s key fl cid bs b aborted)
  have wf: "jwf (ch_flights s)" and flok: "flight_ok C key fl" using checks(1,3) by (simp_all add: chase_ok_def)
  note other = balanced_other [OF checks(4) wf checks(1)]
  have "balanced (chase_next C aborted key fl s')" if "ch_flights s' = ch_flights s" "provisional s' = provisional s" "deferred s' = deferred s" for s'
    by (rule balanced_next) (use that other checks(2) flok wf in \<open>simp_all add: carried_def flight_ok_def\<close>)
  moreover have "balanced (chase_admits key cid bs b False fl s)"
    by (rule balanced_admits [OF checks(4) wf checks(1)]) (simp_all add: checks(2))
  ultimately show ?case by (simp add: chase_checked_def split: verdict.splits)
next
  case (stores s key fl cid b verified aborted)
  have wf: "jwf (ch_flights s)" and flok: "flight_ok C key fl" using stores(1,3) by (simp_all add: chase_ok_def)
  note other = balanced_other [OF stores(4) wf stores(1)]
  show ?case unfolding chase_admitted_def sum.case
    by (rule balanced_next [OF wf]) (use other stores(2) flok in \<open>auto simp: carried_def flight_ok_def\<close>)
qed

lemma calm_balanced: "(calm_chase C said)\<^sup>*\<^sup>* (chaser_start fifo_empty) s \<Longrightarrow> chase_ok C said s \<and> balanced s"
proof (induction rule: rtranclp_induct)
  case base
  show ?case using chase_ok_start [of C said]
    by (simp add: balanced_def provisional_def deferred_def chaser_start_def over_values_def)
next
  case (step s s')
  then show ?case using balanced_step chase_ok_step [OF calm_is_chase] by blast
qed

text \<open>No provisional admission is forgotten. While the host's answers do not throw, every bundle the chaser
  admitted without a full verdict is handed to the deferred checks, exactly as often as it was
  admitted, or belongs to a flight that is still under way; deadlines change nothing about it.\<close>

theorem chase_defers_every_admission:
  assumes "(calm_chase C said)\<^sup>*\<^sup>* (chaser_start fifo_empty) s"
  shows "provisional s = deferred s + over_values carried (ch_flights s) \<and>
    (ch_flights s = [] \<longrightarrow> provisional s = deferred s)"
  using calm_balanced [OF assms] by (simp add: balanced_def over_values_def)

section \<open>An honest checkpoint\<close>

definition handled :: "(cid \<Rightarrow> bool) \<Rightarrow> chaser \<Rightarrow> cid \<Rightarrow> bytes \<Rightarrow> votes_bundle \<Rightarrow> bool" where
  "handled held s cid bs b \<longleftrightarrow> held cid \<or> (\<exists>verified. ChaseAdmit cid bs b verified \<in> set (ch_calls s))"

text \<open>One bundle of an undisturbed loop.\<close>

lemma chase_one:
  assumes rest: "fl_rest fl = b # rest" and enc: "encodeBundle (cc_lib C) b = Inr bs" and valid: "cc_verifyOffline C b = Valid ()"
    and cache: "\<And>v. verdict_get (cc_lib C) (bundleCidForBytes (cc_lib C) bs) (ch_cache s) = Some v \<Longrightarrow> is_valid v"
  shows "\<exists>s' fl'. (calm_chase C said)\<^sup>*\<^sup>* (chase_next C False key fl s) (chase_next C False key fl' s') \<and> fl_rest fl' = rest \<and>
    ch_cache s' = ch_cache s \<and> set (ch_calls s) \<subseteq> set (ch_calls s') \<and> handled held s' (bundleCidForBytes (cc_lib C) bs) bs b \<and>
    (held (bundleCidForBytes (cc_lib C) bs) \<or> verdict_get (cc_lib C) (bundleCidForBytes (cc_lib C) bs) (ch_cache s) \<noteq> None \<or>
       (bundleCidForBytes (cc_lib C) bs, b) \<in> set (fl_pending fl'))"
proof -
  let ?L = "cc_lib C" let ?cid = "bundleCidForBytes ?L bs"
  define fl0 where "fl0 = fl\<lparr>fl_rest := rest, fl_wait := Screening bs b\<rparr>"
  define fl1 where "fl1 = fl0\<lparr>fl_contained := fl_contained fl0 @ [?cid]\<rparr>"
  define s0 where "s0 = put_flight key fl0 s"
  have start: "chase_next C False key fl s = s0" by (simp add: chase_next_def rest enc s0_def fl0_def)
  have at0: "jget (ch_flights s0) key = Some fl0" "fl_wait fl0 = Screening bs b" "ch_cache s0 = ch_cache s" "ch_calls s0 = ch_calls s"
    by (simp_all add: s0_def put_flight_def jsmap_simps fl0_def)
  have screen: "calm_chase C said s0 (chase_screened C False (Inr a) bs b key fl0 s0)" for a
    by (rule calm_chase.screens [OF at0(1,2)])
  have finish: "\<exists>s' fl'. (calm_chase C said)\<^sup>*\<^sup>* s1 (chase_next C False key fl' s') \<and> fl_rest fl' = rest \<and>
      ch_cache s' = ch_cache s \<and> set (ch_calls s) \<subseteq> set (ch_calls s') \<and> handled held s' ?cid bs b \<and>
      (v \<or> (?cid, b) \<in> set (fl_pending fl'))"
    if s1: "s1 = chase_admits key ?cid bs b v f s2" and s2: "ch_cache s2 = ch_cache s" "ch_calls s2 = ch_calls s" "fl_rest f = rest" for s1 v f s2
  proof -
    have at: "jget (ch_flights s1) key = Some (f\<lparr>fl_wait := AdmittingBundle ?cid b v\<rparr>)"
      by (simp add: s1 chase_admits_def) (simp add: put_flight_def jsmap_simps)
    have "calm_chase C said s1 (chase_admitted C False (Inr ()) ?cid b v key (f\<lparr>fl_wait := AdmittingBundle ?cid b v\<rparr>) s1)"
      by (rule calm_chase.stores [OF at]) simp
    then have "\<exists>fl'. (calm_chase C said)\<^sup>*\<^sup>* s1 (chase_next C False key fl' s1) \<and> fl_rest fl' = rest \<and>
        (v \<or> (?cid, b) \<in> set (fl_pending fl'))"
      unfolding chase_admitted_def sum.case by - (intro exI conjI, erule r_into_rtranclp, simp add: s2(3), cases v, simp_all)
    moreover have "ch_cache s1 = ch_cache s" "set (ch_calls s) \<subseteq> set (ch_calls s1)" "handled held s1 ?cid bs b"
      using s2 by (auto simp: s1 chase_admits_def chase_call_def put_flight_def handled_def)
    ultimately show ?thesis by blast
  qed
  show ?thesis
  proof (cases "held ?cid")
    case True
    from screen [of True] have "calm_chase C said s0 (chase_next C False key fl1 s0)"
      by (simp add: chase_screened_def Let_def fl1_def)
    then show ?thesis unfolding start using True at0
      by (intro exI [of _ s0] exI [of _ fl1]) (auto simp: handled_def fl1_def fl0_def)
  next
    case False
    show ?thesis
    proof (cases "verdict_get ?L ?cid (ch_cache s)")
      case (Some v)
      with cache obtain names where "v = Valid names" by (cases v) auto
      with Some screen [of False] at0(3) have "calm_chase C said s0 (chase_admits key ?cid bs b True fl1 s0)"
        by (simp add: chase_screened_def Let_def fl1_def)
      then have "(calm_chase C said)\<^sup>*\<^sup>* s0 (chase_admits key ?cid bs b True fl1 s0)" by (rule r_into_rtranclp)
      moreover have "fl_rest fl1 = rest" by (simp add: fl1_def fl0_def)
      ultimately show ?thesis using finish [OF refl at0(3,4), of fl1 True] Some unfolding start by (blast intro: rtranclp_trans)
    next
      case None
      define s1 where "s1 = put_flight key (fl1\<lparr>fl_wait := DatingBundle ?cid bs b\<rparr>) s0"
      define s2 where "s2 = put_flight key (fl1\<lparr>fl_wait := CheckingOffline ?cid bs b\<rparr>) s1"
      have "calm_chase C said s0 s1"
        using None screen [of False] at0(3) by (simp add: chase_screened_def Let_def fl1_def s1_def)
      moreover have at1: "jget (ch_flights s1) key = Some (fl1\<lparr>fl_wait := DatingBundle ?cid bs b\<rparr>)"
        by (simp add: s1_def put_flight_def jsmap_simps)
      have "calm_chase C said s1 s2"
        using calm_chase.dates [OF at1, of ?cid bs b C said False True] by (simp add: chase_dated_def s2_def)
      moreover have at2: "jget (ch_flights s2) key = Some (fl1\<lparr>fl_wait := CheckingOffline ?cid bs b\<rparr>)"
        by (simp add: s2_def put_flight_def jsmap_simps)
      have "calm_chase C said s2 (chase_admits key ?cid bs b False (fl1\<lparr>fl_wait := CheckingOffline ?cid bs b\<rparr>) s2)"
        using calm_chase.checks [OF at2, of ?cid bs b C said False] by (simp add: chase_checked_def valid)
      ultimately have run: "(calm_chase C said)\<^sup>*\<^sup>* s0 (chase_admits key ?cid bs b False (fl1\<lparr>fl_wait := CheckingOffline ?cid bs b\<rparr>) s2)"
        by (meson converse_rtranclp_into_rtranclp rtranclp.rtrancl_refl)
      have "ch_cache s2 = ch_cache s" "ch_calls s2 = ch_calls s" using at0 by (simp_all add: s2_def s1_def put_flight_def)
      moreover have "fl_rest (fl1\<lparr>fl_wait := CheckingOffline ?cid bs b\<rparr>) = rest" by (simp add: fl1_def fl0_def)
      ultimately show ?thesis
        using finish [OF refl, of s2 "fl1\<lparr>fl_wait := CheckingOffline ?cid bs b\<rparr>" False] run unfolding start
        by (blast intro: rtranclp_trans)
    qed
  qed
qed

text \<open>C38: A chase that fails halfway forgets what it admitted. When the date test throws for one bundle (a head
  read that fails, say), the flight ends without a word: the bundles it had admitted provisionally are
  held by the engine but reach neither the deferred checks nor another flight.\<close>

theorem chase_failure_forgets:
  assumes "(calm_chase C said)\<^sup>*\<^sup>* (chaser_start fifo_empty) s"
    and "jget (ch_flights s) key = Some fl" "fl_wait fl = DatingBundle cid bs b"
  shows "\<exists>s'. chase_step C said s s' \<and> jget (ch_flights s') key = None \<and>
    ch_calls s' = ch_calls s @ (if fl_session fl then [CloseSession (fl_root fl)] else []) \<and>
    provisional s' = deferred s' + over_values carried (ch_flights s') + mset (fl_pending fl)"
proof -
  have ok: "chase_ok C said s \<and> balanced s" by (rule calm_balanced [OF assms(1)])
  then have wf: "jwf (ch_flights s)" by (simp add: chase_ok_def)
  have "carried fl = mset (fl_pending fl)" by (simp add: carried_def assms(3))
  with balanced_other [OF _ wf assms(2)] ok
  have count: "provisional s = deferred s + mset (fl_pending fl) + over_values carried (jdel key (ch_flights s))" by simp
  have step: "chase_step C said s (chase_end key fl s)"
    using chase_step.dates [OF assms(2,3), of C said False "Inl (Infra ''head'')"] by (simp add: chase_dated_def)
  have after: "jget (ch_flights (chase_end key fl s)) key = None" "provisional (chase_end key fl s) = provisional s"
    "deferred (chase_end key fl s) = deferred s" "ch_flights (chase_end key fl s) = jdel key (ch_flights s)"
    "ch_calls (chase_end key fl s) = ch_calls s @ (if fl_session fl then [CloseSession (fl_root fl)] else [])"
    by (simp_all add: chase_end_def Let_def jsmap_simps count_call) (simp add: chase_call_def)
  have "provisional (chase_end key fl s) =
      deferred (chase_end key fl s) + over_values carried (ch_flights (chase_end key fl s)) + mset (fl_pending fl)"
    unfolding after(2-4) count by (simp add: add_ac)
  with step after(1,5) show ?thesis by blast
qed

lemma chase_loop:
  assumes "\<And>b. b \<in> set (fl_rest fl) \<Longrightarrow> cc_verifyOffline C b = Valid () \<and> (\<exists>bs. encodeBundle (cc_lib C) b = Inr bs)"
    and "\<And>b bs v. b \<in> set (fl_rest fl) \<Longrightarrow> encodeBundle (cc_lib C) b = Inr bs \<Longrightarrow>
      verdict_get (cc_lib C) (bundleCidForBytes (cc_lib C) bs) (ch_cache s) = Some v \<Longrightarrow> is_valid v"
  shows "\<exists>s'. (calm_chase C said)\<^sup>*\<^sup>* (chase_next C False key fl s) s' \<and> jget (ch_flights s') key = None \<and>
    set (ch_calls s) \<subseteq> set (ch_calls s') \<and>
    (\<forall>b \<in> set (fl_rest fl). \<forall>bs. encodeBundle (cc_lib C) b = Inr bs \<longrightarrow>
       handled held s' (bundleCidForBytes (cc_lib C) bs) bs b)"
  using assms
proof (induction "fl_rest fl" arbitrary: fl s)
  case Nil
  have "set (ch_calls s) \<subseteq> set (ch_calls (chase_report key fl s))"
    by (auto simp: chase_report_def chase_end_def chase_call_def Let_def)
  moreover have "jget (ch_flights (chase_report key fl s)) key = None"
    by (simp add: chase_report_def chase_end_def Let_def jsmap_simps)
  ultimately show ?case using Nil(1) by (intro exI [of _ "chase_report key fl s"]) (simp add: chase_next_def flip: Nil(1))
next
  case (Cons b rest)
  have mem: "b \<in> set (fl_rest fl)" by (simp flip: Cons.hyps(2))
  with Cons.prems(1) obtain bs where bs: "encodeBundle (cc_lib C) b = Inr bs" "cc_verifyOffline C b = Valid ()" by blast
  from chase_one [OF Cons.hyps(2) [symmetric] bs Cons.prems(2) [OF mem bs(1)]] obtain s1 fl1
    where one: "(calm_chase C said)\<^sup>*\<^sup>* (chase_next C False key fl s) (chase_next C False key fl1 s1)" "fl_rest fl1 = rest"
      "ch_cache s1 = ch_cache s" "set (ch_calls s) \<subseteq> set (ch_calls s1)" "handled held s1 (bundleCidForBytes (cc_lib C) bs) bs b"
    by blast
  have sub: "b' \<in> set (fl_rest fl)" if "b' \<in> set (fl_rest fl1)" for b' using that one(2) by (simp flip: Cons.hyps(2))
  obtain s2 where two: "(calm_chase C said)\<^sup>*\<^sup>* (chase_next C False key fl1 s1) s2" "jget (ch_flights s2) key = None"
    "set (ch_calls s1) \<subseteq> set (ch_calls s2)"
    "\<And>b bs. b \<in> set rest \<Longrightarrow> encodeBundle (cc_lib C) b = Inr bs \<Longrightarrow> handled held s2 (bundleCidForBytes (cc_lib C) bs) bs b"
    using Cons.hyps(1) [OF one(2) [symmetric], of s1] Cons.prems(1) [OF sub] Cons.prems(2) [OF sub] one(2,3) by auto
  moreover have "handled held s2 (bundleCidForBytes (cc_lib C) bs) bs b" using one(5) two(3) by (auto simp: handled_def)
  ultimately show ?case using one(1,4) bs(1) unfolding Cons.hyps(2) [symmetric]
    by (intro exI [of _ s2]) (auto intro: rtranclp_trans)
qed

lemma honest_checkpoint:
  assumes "cbor_laws (cc_lib C)" "b58_laws (cc_lib C)" "inj (bundleCidForBytes (cc_lib C))"
    and "encodeCheckpoint (cc_lib C) ws n = Inr e" "\<And>blk. blk \<in> set (ec_blocks e) \<Longrightarrow> blocks (blk_cid blk) = Some (blk_bytes blk)"
    and "jget (ch_flights s) key = Some fl" "fl_wait fl = Fetching" "fl_root fl = ec_root e"
    and "\<And>b. b \<in> set ws \<Longrightarrow> cc_verifyOffline C (lower_bundle b) = Valid ()"
    and "\<And>b bs v. b \<in> set ws \<Longrightarrow> encodeBundle (cc_lib C) (lower_bundle b) = Inr bs \<Longrightarrow>
      verdict_get (cc_lib C) (bundleCidForBytes (cc_lib C) bs) (ch_cache s) = Some v \<Longrightarrow> is_valid v"
  shows "\<exists>s'. (calm_chase C said)\<^sup>*\<^sup>* s s' \<and> jget (ch_flights s') key = None \<and>
    (\<forall>b \<in> set ws. \<exists>bs. encodeBundle (cc_lib C) (lower_bundle b) = Inr bs \<and>
       handled held s' (bundleCidForBytes (cc_lib C) bs) bs (lower_bundle b))"
proof -
  let ?winners = "map lower_bundle (sort_winners ws)"
  have dec: "decodeCheckpoint (cc_lib C) (fl_root fl) (\<lambda>c. Inr (blocks c)) (fl_chunks fl) = Inr ?winners"
    unfolding assms(8) by (rule decodeCheckpoint_encode [OF assms(1-4)]) (simp add: assms(5))
  have step: "calm_chase C said s (chase_next C False key (fl\<lparr>fl_rest := ?winners\<rparr>) s)"
    using calm_chase.decodes [OF assms(6,7), of "Inr (Some ?winners)" C blocks said False] by (simp add: dec chase_decoded_def)
  have mem: "set ?winners = lower_bundle ` set ws" by (simp add: sort_winners_def)
  have enc: "\<exists>bs. encodeBundle (cc_lib C) b = Inr bs" if "b \<in> set ?winners" for b
    using decoded_encodes [OF dec that] by (simp add: wire_form_def)
  let ?fl = "fl\<lparr>fl_rest := ?winners\<rparr>"
  have rest: "fl_rest ?fl = ?winners" by simp
  have "\<exists>s'. (calm_chase C said)\<^sup>*\<^sup>* (chase_next C False key ?fl s) s' \<and> jget (ch_flights s') key = None \<and>
    set (ch_calls s) \<subseteq> set (ch_calls s') \<and>
    (\<forall>b \<in> set (fl_rest ?fl). \<forall>bs. encodeBundle (cc_lib C) b = Inr bs \<longrightarrow>
       handled held s' (bundleCidForBytes (cc_lib C) bs) bs b)"
  proof (rule chase_loop)
    fix b assume "b \<in> set (fl_rest ?fl)"
    then obtain b0 where b0: "b0 \<in> set ws" "b = lower_bundle b0" unfolding rest mem by blast
    with assms(9) enc \<open>b \<in> set (fl_rest ?fl)\<close> show "cc_verifyOffline C b = Valid () \<and> (\<exists>bs. encodeBundle (cc_lib C) b = Inr bs)"
      unfolding rest by blast
    show "is_valid v" if "encodeBundle (cc_lib C) b = Inr bs" "verdict_get (cc_lib C) (bundleCidForBytes (cc_lib C) bs) (ch_cache s) = Some v"
      for bs v using assms(10) [OF b0(1)] that unfolding b0(2) by blast
  qed
  then obtain s' where s': "(calm_chase C said)\<^sup>*\<^sup>* (chase_next C False key ?fl s) s'" "jget (ch_flights s') key = None"
    "\<And>b bs. b \<in> set ?winners \<Longrightarrow> encodeBundle (cc_lib C) b = Inr bs \<Longrightarrow> handled held s' (bundleCidForBytes (cc_lib C) bs) bs b"
    unfolding rest by blast
  have "\<exists>bs. encodeBundle (cc_lib C) (lower_bundle b) = Inr bs \<and> handled held s' (bundleCidForBytes (cc_lib C) bs) bs (lower_bundle b)"
    if "b \<in> set ws" for b
  proof -
    have "lower_bundle b \<in> set ?winners" using that mem by blast
    with enc s'(3) show ?thesis by blast
  qed
  with s'(1,2) step show ?thesis by (meson converse_rtranclp_into_rtranclp)
qed


section \<open>A chase of two votes\<close>

definition sample_chaser :: chase_config where
  "sample_chaser = \<lparr>cc_lib = sample_lib, cc_sessions = True, cc_verifyOffline = (\<lambda>_. Valid ()), cc_cacheMax = 100,
     cc_limit = CHASE_CONCURRENCY\<rparr>"

definition two_votes :: "votes_bundle list" where
  "two_votes = [sample_bundle 2 7, sample_bundle 1 9]"

definition two_root :: cid where
  "two_root = (case encodeCheckpoint sample_lib two_votes 300 of Inr e \<Rightarrow> ec_root e | Inl _ \<Rightarrow> [])"

text \<open>A hint arrives, and its flight gets a slot and a session.\<close>

definition chase_hinted :: chaser where
  "chase_hinted = chase_root sample_chaser two_root None (Some [''peer'']) (chaser_start fifo_empty)"

definition two_flight :: flight where
  "two_flight = (new_flight two_root None)\<lparr>fl_seeded := [''peer''], fl_queued := [''peer'']\<rparr>"

definition two_key :: string where
  "two_key = cid_str sample_lib two_root"

definition chase_fetching :: chaser where
  "chase_fetching = chase_begin sample_chaser True two_key two_flight chase_hinted"

lemma hinted_fields: "ch_flights chase_hinted = [(two_key, two_flight)]" "ch_queue chase_hinted = [two_key]" "chase_active chase_hinted = 0"
  by (simp_all add: chase_hinted_def chase_root_def chaser_start_def put_flight_def addProviders_def addProvider_def new_flight_def
      two_flight_def two_key_def sample_chaser_def chase_active_def Let_def)

lemma fetching_run: "(calm_chase sample_chaser said)\<^sup>*\<^sup>* (chaser_start fifo_empty) chase_fetching"
proof -
  have "calm_chase sample_chaser said (chaser_start fifo_empty) chase_hinted" unfolding chase_hinted_def by (rule calm_chase.hints)
  moreover have "calm_chase sample_chaser said chase_hinted chase_fetching" unfolding chase_fetching_def
    by (rule calm_chase.begins [OF hinted_fields(2)]) (simp_all add: hinted_fields sample_chaser_def CHASE_CONCURRENCY_def)
  ultimately show ?thesis by (meson converse_rtranclp_into_rtranclp rtranclp.rtrancl_refl)
qed

lemma fetching_fields:
  "\<exists>fl. jget (ch_flights chase_fetching) two_key = Some fl \<and> fl_wait fl = Fetching \<and> fl_root fl = two_root \<and> fl_chunks fl = None"
  "ch_cache chase_fetching = fifo_empty"
  by (simp_all add: chase_fetching_def chase_begin_def hinted_fields put_flight_def chase_call_def two_flight_def sample_chaser_def
      new_flight_def Let_def) (simp add: chase_hinted_def chase_root_def chaser_start_def put_flight_def Let_def sample_chaser_def)

lemma two_encode: "\<exists>e. encodeCheckpoint sample_lib two_votes 300 = Inr e \<and> two_root = ec_root e"
  using sample_checkpoint_encodes [of 300] unfolding two_votes_def two_root_def by auto

lemma two_blocks: "encodeCheckpoint sample_lib two_votes 300 = Inr e \<Longrightarrow> blk \<in> set (ec_blocks e) \<Longrightarrow> Some (tl (blk_cid blk)) = Some (blk_bytes blk)"
  using checkpoint_block_cids [of sample_lib two_votes 300 e blk] by (simp add: bundleCidForBytes_def sample_lib_def)

lemma two_taken:
  "\<exists>s. (calm_chase sample_chaser (\<lambda>_ _. False))\<^sup>*\<^sup>* (chaser_start fifo_empty) s \<and> jget (ch_flights s) two_key = None \<and>
     (\<forall>b \<in> set two_votes. \<exists>cid bs verified. ChaseAdmit cid bs (lower_bundle b) verified \<in> set (ch_calls s))"
proof -
  obtain e where e: "encodeCheckpoint sample_lib two_votes 300 = Inr e" "two_root = ec_root e" using two_encode by blast
  obtain fl where fl: "jget (ch_flights chase_fetching) two_key = Some fl" "fl_wait fl = Fetching" "fl_root fl = two_root"
    using fetching_fields(1) by blast
  have lib: "cc_lib sample_chaser = sample_lib" by (simp add: sample_chaser_def)
  have "\<exists>s'. (calm_chase sample_chaser (\<lambda>_ _. False))\<^sup>*\<^sup>* chase_fetching s' \<and> jget (ch_flights s') two_key = None \<and>
    (\<forall>b \<in> set two_votes. \<exists>bs. encodeBundle (cc_lib sample_chaser) (lower_bundle b) = Inr bs \<and>
       handled (\<lambda>_. False) s' (bundleCidForBytes (cc_lib sample_chaser) bs) bs (lower_bundle b))"
  proof (rule honest_checkpoint [where ws = two_votes and n = 300 and e = e and blocks = "\<lambda>c. Some (tl c)", OF _ _ _ _ _ fl(1,2)])
    show "encodeCheckpoint (cc_lib sample_chaser) two_votes 300 = Inr e" "fl_root fl = ec_root e" using e fl(3) by (simp_all add: lib)
    show "blk \<in> set (ec_blocks e) \<Longrightarrow> Some (tl (blk_cid blk)) = Some (blk_bytes blk)" for blk using two_blocks [OF e(1)] .
    show "verdict_get (cc_lib sample_chaser) (bundleCidForBytes (cc_lib sample_chaser) bs) (ch_cache chase_fetching) = Some v \<Longrightarrow> is_valid v" for bs v
      by (simp add: fetching_fields(2) verdict_get_def fifo_get_def fifo_empty_def)
  qed (simp_all add: lib sample_cbor_laws sample_b58_laws sample_cid_inj, simp add: sample_chaser_def)
  then show ?thesis using fetching_run unfolding handled_def by (meson rtranclp_trans)
qed


theorem chase_admits_screened_witness:
  "\<exists>(s :: chaser) cid bs b verified. ChaseAdmit cid bs b verified \<in> set (ch_calls s) \<and> parseBundle sample_lib bs = Inr (cid, b)"
proof -
  obtain s cid bs verified where s: "(calm_chase sample_chaser (\<lambda>_ _. False))\<^sup>*\<^sup>* (chaser_start fifo_empty) s"
    "ChaseAdmit cid bs (lower_bundle (sample_bundle 2 7)) verified \<in> set (ch_calls s)"
    using two_taken unfolding two_votes_def by (metis list.set_intros(1))
  have "(chase_step sample_chaser (\<lambda>_ _. False))\<^sup>*\<^sup>* (chaser_start fifo_empty) s"
    by (rule rtranclp_mono [THEN predicate2D, OF _ s(1)]) (blast intro: calm_is_chase)
  from chase_admits_screened [OF _ _ this s(2)] have "parseBundle sample_lib bs = Inr (cid, lower_bundle (sample_bundle 2 7))"
    by (simp add: sample_chaser_def sample_cbor_laws sample_b58_laws)
  with s(2) show ?thesis by blast
qed

theorem chase_slots_bounded_witness:
  "chase_active chase_hinted \<le> cc_limit sample_chaser \<and> chase_step sample_chaser said chase_hinted (chase_begin sample_chaser True two_key two_flight chase_hinted)"
proof -
  have "(chase_step sample_chaser said)\<^sup>*\<^sup>* (chaser_start fifo_empty) chase_hinted"
    unfolding chase_hinted_def by (rule r_into_rtranclp) (rule chase_step.hints)
  from chase_slots_bounded [OF this] show ?thesis
    by (auto simp: hinted_fields sample_chaser_def CHASE_CONCURRENCY_def)
qed

theorem chase_defers_every_admission_witness:
  "\<exists>s. jget (ch_flights s) two_key = None \<and> provisional s = deferred s + over_values carried (ch_flights s)"
  using two_taken chase_defers_every_admission by blast

lemma chase_dating:
  assumes "fl_rest fl = b # rest" "encodeBundle (cc_lib C) b = Inr bs"
    and "verdict_get (cc_lib C) (bundleCidForBytes (cc_lib C) bs) (ch_cache s) = None"
  shows "\<exists>s1 fl1. (calm_chase C said)\<^sup>*\<^sup>* (chase_next C False key fl s) s1 \<and> jget (ch_flights s1) key = Some fl1 \<and>
    fl_wait fl1 = DatingBundle (bundleCidForBytes (cc_lib C) bs) bs b \<and> fl_pending fl1 = fl_pending fl"
proof -
  define fl0 where "fl0 = fl\<lparr>fl_rest := rest, fl_wait := Screening bs b\<rparr>"
  define s0 where "s0 = put_flight key fl0 s"
  have start: "chase_next C False key fl s = s0" by (simp add: chase_next_def assms(1,2) s0_def fl0_def)
  have at0: "jget (ch_flights s0) key = Some fl0" "fl_wait fl0 = Screening bs b" "ch_cache s0 = ch_cache s"
    by (simp_all add: s0_def put_flight_def jsmap_simps fl0_def)
  define fl1 where "fl1 = fl0\<lparr>fl_contained := fl_contained fl0 @ [bundleCidForBytes (cc_lib C) bs],
    fl_wait := DatingBundle (bundleCidForBytes (cc_lib C) bs) bs b\<rparr>"
  have "calm_chase C said s0 (put_flight key fl1 s0)"
    using calm_chase.screens [OF at0(1,2), of C said False False] by (simp add: chase_screened_def Let_def at0(3) assms(3) fl1_def)
  moreover have "jget (ch_flights (put_flight key fl1 s0)) key = Some fl1" by (simp add: put_flight_def jsmap_simps)
  moreover have "fl_wait fl1 = DatingBundle (bundleCidForBytes (cc_lib C) bs) bs b" "fl_pending fl1 = fl_pending fl"
    by (simp_all add: fl1_def fl0_def)
  ultimately show ?thesis unfolding start by blast
qed

theorem chase_failure_forgets_witness:
  "\<exists>s s'. (calm_chase sample_chaser (\<lambda>_ _. False))\<^sup>*\<^sup>* (chaser_start fifo_empty) s \<and> chase_step sample_chaser (\<lambda>_ _. False) s s' \<and>
     provisional s' \<noteq> deferred s' + over_values carried (ch_flights s')"
proof -
  let ?run = "(calm_chase sample_chaser (\<lambda>_ _. False))\<^sup>*\<^sup>*"
  obtain e where e: "encodeCheckpoint sample_lib two_votes 300 = Inr e" "two_root = ec_root e" using two_encode by blast
  obtain fl where fl: "jget (ch_flights chase_fetching) two_key = Some fl" "fl_wait fl = Fetching" "fl_root fl = two_root"
    using fetching_fields(1) by blast
  have lib: "cc_lib sample_chaser = sample_lib" by (simp add: sample_chaser_def)
  let ?ws = "map lower_bundle (sort_winners two_votes)"
  have dec: "decodeCheckpoint sample_lib (fl_root fl) (\<lambda>c. Inr (Some (tl c))) (fl_chunks fl) = Inr ?ws"
    unfolding fl(3) e(2) by (rule decodeCheckpoint_encode [OF sample_cbor_laws sample_b58_laws sample_cid_inj e(1)]) (use two_blocks [OF e(1)] in simp)
  have "length ?ws = 2" by (simp add: sort_winners_def two_votes_def length_sort_by)
  then obtain b1 b2 where ws: "?ws = [b1, b2]" by (metis One_nat_def Suc_1 length_0_conv length_Suc_conv)
  have enc: "\<exists>bs. encodeBundle sample_lib b = Inr bs" if "b \<in> {b1, b2}" for b
    using decoded_encodes [OF dec, of b] that ws by (auto simp: wire_form_def)
  obtain bs1 bs2 where bs: "encodeBundle sample_lib b1 = Inr bs1" "encodeBundle sample_lib b2 = Inr bs2" using enc by blast
  have step: "?run chase_fetching (chase_next sample_chaser False two_key (fl\<lparr>fl_rest := [b1, b2]\<rparr>) chase_fetching)"
    using calm_chase.decodes [OF fl(1,2), of "Inr (Some ?ws)" sample_chaser "\<lambda>c. Some (tl c)" "\<lambda>_ _. False" False]
    by (simp add: lib dec chase_decoded_def ws)
  have none: "verdict_get sample_lib c fifo_empty = None" for c by (simp add: verdict_get_def fifo_get_def fifo_empty_def)
  obtain s1 fl1 where one: "?run (chase_next sample_chaser False two_key (fl\<lparr>fl_rest := [b1, b2]\<rparr>) chase_fetching)
      (chase_next sample_chaser False two_key fl1 s1)" "fl_rest fl1 = [b2]" "ch_cache s1 = fifo_empty" "fl_pending fl1 \<noteq> []"
  proof -
    let ?fl = "fl\<lparr>fl_rest := [b1, b2]\<rparr>"
    have "fl_rest ?fl = b1 # [b2]" "cc_verifyOffline sample_chaser b1 = Valid ()" "encodeBundle (cc_lib sample_chaser) b1 = Inr bs1"
      using bs(1) by (simp_all add: sample_chaser_def)
    from chase_one [OF this(1,3,2), of chase_fetching "\<lambda>_ _. False" two_key "\<lambda>_. False"] that show ?thesis
      unfolding lib fetching_fields(2) none by (metis empty_iff list.set(1) option.distinct(1))
  qed
  obtain s2 fl2 where two: "?run (chase_next sample_chaser False two_key fl1 s1) s2" "jget (ch_flights s2) two_key = Some fl2"
    "fl_wait fl2 = DatingBundle (bundleCidForBytes sample_lib bs2) bs2 b2" "fl_pending fl2 = fl_pending fl1"
    using chase_dating [OF one(2), of sample_chaser bs2 s1] bs(2) none one(3) lib by metis
  have run: "?run (chaser_start fifo_empty) s2" using fetching_run step one(1) two(1) by (meson rtranclp_trans)
  obtain s' where "chase_step sample_chaser (\<lambda>_ _. False) s2 s'"
    "provisional s' = deferred s' + over_values carried (ch_flights s') + mset (fl_pending fl2)"
    using chase_failure_forgets [OF run two(2,3)] by blast
  with run one(4) two(4) show ?thesis by (intro exI [of _ s2] exI [of _ s']) simp
qed

end
