(* ===== verification/Pull.thy ===== *)
theory Pull
  imports Messages Checkpoint
begin

text \<open>
  The root puller of \<open>src/client/voter.ts\<close> (\<open>makeRootPuller\<close>): the root fetches of many contests from
  one peer become one bulk fetch. Pulls are numbered as they are made; a step opens or joins a batch,
  closes its window, takes the answer of a bulk fetch, or that of a fetch of one contest.
\<close>

section \<open>State\<close>

definition BULK_ROOTS_COALESCE_MS :: nat where
  "BULK_ROOTS_COALESCE_MS = 50"

definition BULK_ROOTS_CACHE_MS :: nat where
  "BULK_ROOTS_CACHE_MS = 10000"

definition BULK_ROOTS_CACHE_MAX_PEERS :: nat where
  "BULK_ROOTS_CACHE_MAX_PEERS = 32"

text \<open>Whether the hooks \<open>putBlock\<close> and \<open>onRecord\<close> are there.\<close>

record pull_config =
  pc_lib :: lib
  pc_putBlock :: bool
  pc_onRecord :: bool

type_synonym stripped_records = "(string, fetch_root_record) jsmap"

datatype pull_call =
    FetchBulk string
  | FetchTopic string string
  | PutBlock cid bytes
  | OnRecord string string bytes

record waiter =
  wt_id :: nat
  wt_topic :: string

text \<open>A pull that has been answered: who was asked for what, and the answer.\<close>

record pulled =
  pd_peer :: string
  pd_waiter :: waiter
  pd_answer :: "bytes option res"

text \<open>\<open>pl_inflight\<close> holds, for a peer whose bulk request is under way, the waiters of its batch and the pulls
  that joined it; \<open>pl_singles\<close> the fetches of one contest; \<open>pl_made\<close> how many pulls were made.\<close>

record puller =
  pl_batches :: "(string, waiter list) jsmap"
  pl_cached :: "(string, nat \<times> stripped_records) jsmap"
  pl_inflight :: "(string, waiter list \<times> waiter list) jsmap"
  pl_singles :: "(string \<times> waiter) list"
  pl_done :: "pulled list"
  pl_calls :: "pull_call list"
  pl_made :: nat

definition puller_start :: puller where
  "puller_start = \<lparr>pl_batches = [], pl_cached = [], pl_inflight = [], pl_singles = [], pl_done = [], pl_calls = [], pl_made = 0\<rparr>"

definition pull_settle :: "string \<Rightarrow> waiter \<Rightarrow> bytes option res \<Rightarrow> puller \<Rightarrow> puller" where
  "pull_settle peer w answer s = s\<lparr>pl_done := pl_done s @ [\<lparr>pd_peer = peer, pd_waiter = w, pd_answer = answer\<rparr>]\<rparr>"

section \<open>Answers\<close>

text \<open>\<open>serve\<close>: what a waiter gets out of a decoded answer.\<close>

definition serve_record :: "lib \<Rightarrow> stripped_records \<Rightarrow> string \<Rightarrow> bytes option res" where
  "serve_record L records topic =
     (case jget records topic of None \<Rightarrow> Inr None | Some r \<Rightarrow> sbind (encodeRootRecord L r) (\<lambda>bs. Inr (Some bs)))"

definition serve :: "lib \<Rightarrow> string \<Rightarrow> stripped_records \<Rightarrow> waiter \<Rightarrow> puller \<Rightarrow> puller" where
  "serve L peer records w s = pull_settle peer w (serve_record L records (wt_topic w)) s"

text \<open>\<open>fetchOne\<close>\<close>

definition fetchOne :: "string \<Rightarrow> waiter \<Rightarrow> puller \<Rightarrow> puller" where
  "fetchOne peer w s = s\<lparr>pl_singles := pl_singles s @ [(peer, w)], pl_calls := pl_calls s @ [FetchTopic peer (wt_topic w)]\<rparr>"

definition strip_records :: "(string, bulk_root_record) jsmap \<Rightarrow> stripped_records" where
  "strip_records decoded = map (\<lambda>(topic, r). (topic, fetch_root_record.truncate r)) decoded"

text \<open>The inlined blocks of one record that hash to its chunks.\<close>

definition inlined_blocks :: "lib \<Rightarrow> bulk_root_record \<Rightarrow> pull_call list" where
  "inlined_blocks L r =
     (case bk_chunkBlocks r of
        None \<Rightarrow> []
      | Some blocks \<Rightarrow>
          if length blocks \<noteq> length (fr_chunks r) then []
          else map (\<lambda>(bs, expected). PutBlock expected bs)
                 (filter (\<lambda>(bs, expected). blk_cid (blockForBytes L bs) = expected) (zip blocks (fr_chunks r))))"

definition cache_answer :: "string \<Rightarrow> nat \<Rightarrow> stripped_records \<Rightarrow> (string, nat \<times> stripped_records) jsmap \<Rightarrow> (string, nat \<times> stripped_records) jsmap" where
  "cache_answer peer now records cached =
     (if records = [] then cached
      else jset peer (now, records)
        (if BULK_ROOTS_CACHE_MAX_PEERS \<le> length cached \<and> \<not> jhas cached peer then tl cached else cached))"

definition surplus_records :: "lib \<Rightarrow> string \<Rightarrow> string list \<Rightarrow> stripped_records \<Rightarrow> pull_call list" where
  "surplus_records L peer asked records =
     concat (map (\<lambda>(topic, r). case encodeRootRecord L r of Inl _ \<Rightarrow> [] | Inr bs \<Rightarrow> [OnRecord peer topic bs])
       (filter (\<lambda>(topic, r). topic \<notin> set asked) records))"

text \<open>\<open>accept\<close>: the blocks first, then the cache, then the contests that did not ask.\<close>

definition accept_answer ::
  "pull_config \<Rightarrow> nat \<Rightarrow> string \<Rightarrow> (string, bulk_root_record) jsmap \<Rightarrow> string list \<Rightarrow> puller \<Rightarrow> puller \<times> stripped_records" where
  "accept_answer C now peer decoded asked s =
     (let records = strip_records decoded;
          puts = (if pc_putBlock C then concat (map (\<lambda>(topic, r). inlined_blocks (pc_lib C) r) decoded) else []);
          surplus = (if pc_onRecord C then surplus_records (pc_lib C) peer asked records else [])
      in (s\<lparr>pl_calls := pl_calls s @ puts @ surplus, pl_cached := cache_answer peer now records (pl_cached s)\<rparr>, records))"

section \<open>Steps\<close>

text \<open>A pull at the time \<open>now\<close>.\<close>

definition pull_join :: "string \<Rightarrow> waiter \<Rightarrow> puller \<Rightarrow> puller" where
  "pull_join peer w s =
     (case jget (pl_inflight s) peer of
        Some (waiters, joined) \<Rightarrow> s\<lparr>pl_inflight := jset peer (waiters, joined @ [w]) (pl_inflight s)\<rparr>
      | None \<Rightarrow>
          (case jget (pl_batches s) peer of
             Some waiters \<Rightarrow> s\<lparr>pl_batches := jset peer (waiters @ [w]) (pl_batches s)\<rparr>
           | None \<Rightarrow> s\<lparr>pl_batches := jset peer [w] (pl_batches s)\<rparr>))"

definition pullRoot :: "pull_config \<Rightarrow> nat \<Rightarrow> string \<Rightarrow> string \<Rightarrow> puller \<Rightarrow> puller" where
  "pullRoot C now peer topic s0 =
     (let w = \<lparr>wt_id = pl_made s0, wt_topic = topic\<rparr>; s = s0\<lparr>pl_made := Suc (pl_made s0)\<rparr> in
      case jget (pl_cached s) peer of
        None \<Rightarrow> pull_join peer w s
      | Some (at_ms, records) \<Rightarrow>
          if now - at_ms \<le> BULK_ROOTS_CACHE_MS
          then (if jget records topic = None then pull_join peer w s else serve (pc_lib C) peer records w s)
          else pull_join peer w (s\<lparr>pl_cached := jdel peer (pl_cached s)\<rparr>))"

text \<open>\<open>flush\<close>, up to its request.\<close>

definition pull_flush :: "string \<Rightarrow> waiter list \<Rightarrow> puller \<Rightarrow> puller" where
  "pull_flush peer waiters s =
     s\<lparr>pl_batches := jdel peer (pl_batches s), pl_inflight := jset peer (waiters, []) (pl_inflight s),
       pl_calls := pl_calls s @ [FetchBulk peer]\<rparr>"

text \<open>How a bulk fetch ends: bytes or nothing, the protocol's own refusal, or a failure of the transport.\<close>

datatype bulk_reply = Replied "bytes option" | Refused | TransportFailed js_error

definition bulk_outcome :: "pull_config \<Rightarrow> bulk_reply \<Rightarrow> (string, bulk_root_record) jsmap option res" where
  "bulk_outcome C reply =
     (case reply of
        TransportFailed e \<Rightarrow> Inl e
      | Refused \<Rightarrow> Inr None
      | Replied None \<Rightarrow> Inr None
      | Replied (Some answer) \<Rightarrow> sbind (decodeBulkRootRecords (pc_lib C) answer) (\<lambda>decoded. Inr (Some decoded)))"

definition bulk_returns :: "pull_config \<Rightarrow> nat \<Rightarrow> bulk_reply \<Rightarrow> string \<Rightarrow> waiter list \<Rightarrow> waiter list \<Rightarrow> puller \<Rightarrow> puller" where
  "bulk_returns C now reply peer waiters joined s =
     (case bulk_outcome C reply of
        Inl e \<Rightarrow> fold (\<lambda>w. pull_settle peer w (Inl e)) (waiters @ joined) (s\<lparr>pl_inflight := jdel peer (pl_inflight s)\<rparr>)
      | Inr None \<Rightarrow> fold (fetchOne peer) (waiters @ joined) (s\<lparr>pl_inflight := jdel peer (pl_inflight s)\<rparr>)
      | Inr (Some decoded) \<Rightarrow>
          (case accept_answer C now peer decoded (map wt_topic waiters) (s\<lparr>pl_inflight := jdel peer (pl_inflight s)\<rparr>) of
             (s', records) \<Rightarrow> fold (serve (pc_lib C) peer records) (waiters @ joined) s'))"

definition single_returns :: "bytes option res \<Rightarrow> string \<Rightarrow> waiter \<Rightarrow> puller \<Rightarrow> puller" where
  "single_returns answer peer w s = pull_settle peer w answer (s\<lparr>pl_singles := remove1 (peer, w) (pl_singles s)\<rparr>)"

text \<open>The network is a history of replies: \<open>bulk\<close> relates a peer to its possible bulk replies, \<open>one\<close> a peer and a
  topic to the possible answers for that contest. Time is arbitrary. \<open>pull_work\<close> is what the puller does
  for the pulls it has; \<open>pull_step\<close> adds new ones.\<close>

inductive pull_work ::
  "pull_config \<Rightarrow> (string \<Rightarrow> bulk_reply \<Rightarrow> bool) \<Rightarrow> (string \<Rightarrow> string \<Rightarrow> bytes option res \<Rightarrow> bool) \<Rightarrow> puller \<Rightarrow> puller \<Rightarrow> bool"
  for C bulk one where
  flushes: "jget (pl_batches s) peer = Some waiters \<Longrightarrow> pull_work C bulk one s (pull_flush peer waiters s)"
| replies: "jget (pl_inflight s) peer = Some (waiters, joined) \<Longrightarrow> bulk peer reply \<Longrightarrow>
    pull_work C bulk one s (bulk_returns C now reply peer waiters joined s)"
| answers: "(peer, w) \<in> set (pl_singles s) \<Longrightarrow> one peer (wt_topic w) answer \<Longrightarrow>
    pull_work C bulk one s (single_returns answer peer w s)"

inductive pull_step ::
  "pull_config \<Rightarrow> (string \<Rightarrow> bulk_reply \<Rightarrow> bool) \<Rightarrow> (string \<Rightarrow> string \<Rightarrow> bytes option res \<Rightarrow> bool) \<Rightarrow> puller \<Rightarrow> puller \<Rightarrow> bool"
  for C bulk one where
  pulls: "pull_step C bulk one s (pullRoot C now peer topic s)"
| works: "pull_work C bulk one s s' \<Longrightarrow> pull_step C bulk one s s'"

end
