(* ===== verification/Pull_Properties.thy ===== *)
theory Pull_Properties
  imports Pull Tables Sample_Lib
begin

text \<open>
  What the puller promises: every pull is answered exactly once, one bulk request per peer is under way
  at a time, an answer is what the peer said, and blocks are stored under their own hash.
\<close>

section \<open>Every pull is somewhere\<close>

definition ids :: "waiter list \<Rightarrow> nat multiset" where
  "ids ws = mset (map wt_id ws)"

definition owed :: "puller \<Rightarrow> nat multiset" where
  "owed s = over_values ids (pl_batches s) + over_values (\<lambda>(waiters, joined). ids (waiters @ joined)) (pl_inflight s) +
     ids (map snd (pl_singles s))"

definition answered_ids :: "puller \<Rightarrow> nat multiset" where
  "answered_ids s = ids (map pd_waiter (pl_done s))"

definition one_request :: "puller \<Rightarrow> bool" where
  "one_request s \<longleftrightarrow> jwf (pl_batches s) \<and> jwf (pl_inflight s) \<and>
     (\<forall>peer. jget (pl_batches s) peer = None \<or> jget (pl_inflight s) peer = None)"

definition accounted :: "puller \<Rightarrow> bool" where
  "accounted s \<longleftrightarrow> one_request s \<and> owed s + answered_ids s = mset [0..<pl_made s]"

lemma ids_simps [simp]: "ids [] = {#}" "ids (w # ws) = add_mset (wt_id w) (ids ws)" "ids (ws @ ws') = ids ws + ids ws'"
  by (simp_all add: ids_def)

lemma pull_settle_fields [simp]:
  "pl_batches (pull_settle p w a s) = pl_batches s" "pl_inflight (pull_settle p w a s) = pl_inflight s"
  "pl_singles (pull_settle p w a s) = pl_singles s" "pl_made (pull_settle p w a s) = pl_made s"
  "pl_calls (pull_settle p w a s) = pl_calls s" "pl_cached (pull_settle p w a s) = pl_cached s"
  "owed (pull_settle p w a s) = owed s" "one_request (pull_settle p w a s) = one_request s"
  "answered_ids (pull_settle p w a s) = answered_ids s + {#wt_id w#}"
  by (simp_all add: pull_settle_def owed_def one_request_def answered_ids_def)

lemma serve_fields [simp]:
  "pl_batches (serve L p rs w s) = pl_batches s" "pl_inflight (serve L p rs w s) = pl_inflight s"
  "pl_singles (serve L p rs w s) = pl_singles s" "pl_made (serve L p rs w s) = pl_made s"
  "pl_calls (serve L p rs w s) = pl_calls s" "pl_cached (serve L p rs w s) = pl_cached s"
  "owed (serve L p rs w s) = owed s" "one_request (serve L p rs w s) = one_request s"
  "answered_ids (serve L p rs w s) = answered_ids s + {#wt_id w#}"
  by (simp_all add: serve_def)

lemma fetchOne_fields [simp]:
  "pl_made (fetchOne p w s) = pl_made s" "pl_done (fetchOne p w s) = pl_done s" "pl_cached (fetchOne p w s) = pl_cached s"
  "owed (fetchOne p w s) = owed s + {#wt_id w#}" "one_request (fetchOne p w s) = one_request s"
  "answered_ids (fetchOne p w s) = answered_ids s"
  by (simp_all add: fetchOne_def owed_def one_request_def answered_ids_def)

lemma fold_counts:
  "owed (fold (\<lambda>w. pull_settle p w a) ws s) = owed s" "answered_ids (fold (\<lambda>w. pull_settle p w a) ws s) = answered_ids s + ids ws"
  "one_request (fold (\<lambda>w. pull_settle p w a) ws s) = one_request s" "pl_made (fold (\<lambda>w. pull_settle p w a) ws s) = pl_made s"
  "owed (fold (serve L p rs) ws s) = owed s" "answered_ids (fold (serve L p rs) ws s) = answered_ids s + ids ws"
  "one_request (fold (serve L p rs) ws s) = one_request s" "pl_made (fold (serve L p rs) ws s) = pl_made s"
  "owed (fold (fetchOne p) ws s) = owed s + ids ws" "answered_ids (fold (fetchOne p) ws s) = answered_ids s"
  "one_request (fold (fetchOne p) ws s) = one_request s" "pl_made (fold (fetchOne p) ws s) = pl_made s"
  by (induction ws arbitrary: s) simp_all

lemma accounted_start: "accounted puller_start"
  by (simp add: accounted_def one_request_def owed_def answered_ids_def puller_start_def)

lemma one_place:
  assumes "one_request s" "jget (pl_batches s) peer = Some waiters"
  shows "jget (pl_inflight s) peer = None"
proof -
  have "jget (pl_batches s) peer = None \<or> jget (pl_inflight s) peer = None" using assms(1) by (simp add: one_request_def)
  with assms(2) show ?thesis by simp
qed

lemma join_counts:
  assumes "one_request s"
  shows "one_request (pull_join peer w s)" "owed (pull_join peer w s) = owed s + {#wt_id w#}"
    "answered_ids (pull_join peer w s) = answered_ids s" "pl_made (pull_join peer w s) = pl_made s"
proof -
  have wf: "jwf (pl_batches s)" "jwf (pl_inflight s)" using assms by (simp_all add: one_request_def)
  show "one_request (pull_join peer w s)"
    unfolding one_request_def
  proof (intro conjI allI)
    show "jwf (pl_batches (pull_join peer w s))" "jwf (pl_inflight (pull_join peer w s))"
      using wf by (simp_all add: pull_join_def jwf_jset split: option.splits prod.splits)
    fix p
    have "jget (pl_batches s) p = None \<or> jget (pl_inflight s) p = None" using assms by (simp add: one_request_def)
    then show "jget (pl_batches (pull_join peer w s)) p = None \<or> jget (pl_inflight (pull_join peer w s)) p = None"
      using one_place [OF assms, of p]
      by (cases "p = peer") (auto simp: pull_join_def jsmap_simps split: option.splits)
  qed
  show "owed (pull_join peer w s) = owed s + {#wt_id w#}"
    by (auto simp: pull_join_def owed_def over_jset [OF wf(1)] over_jset [OF wf(2)] over_jdel [OF wf(1)] over_jdel [OF wf(2)] over_new
        split: option.splits)
  show "answered_ids (pull_join peer w s) = answered_ids s" "pl_made (pull_join peer w s) = pl_made s"
    by (simp_all add: pull_join_def answered_ids_def split: option.splits prod.splits)
qed

lemma accounted_pull:
  assumes pulls: "accounted s"
  shows "accounted (pullRoot C now peer topic s)"
proof -
  let ?w = "\<lparr>wt_id = pl_made s, wt_topic = topic\<rparr>"
  have joined: "accounted (pull_join peer ?w (s\<lparr>pl_made := Suc (pl_made s), pl_cached := cached\<rparr>))" for cached
  proof -
    let ?s = "s\<lparr>pl_made := Suc (pl_made s), pl_cached := cached\<rparr>"
    have "one_request ?s" "owed ?s = owed s" "answered_ids ?s = answered_ids s"
      using pulls by (simp_all add: accounted_def one_request_def owed_def answered_ids_def)
    with pulls join_counts [of ?s peer ?w] show ?thesis by (simp add: accounted_def)
  qed
  have same: "s\<lparr>pl_made := n\<rparr> = s\<lparr>pl_made := n, pl_cached := pl_cached s\<rparr>" for n by simp
  have "accounted (serve L peer records ?w (s\<lparr>pl_made := Suc (pl_made s)\<rparr>))" for L records
  proof -
    let ?s = "s\<lparr>pl_made := Suc (pl_made s)\<rparr>"
    have "one_request ?s" "owed ?s = owed s" "answered_ids ?s = answered_ids s"
      using pulls by (simp_all add: accounted_def one_request_def owed_def answered_ids_def)
    with pulls show ?thesis by (simp add: accounted_def)
  qed
  moreover have "accounted (pull_join peer ?w (s\<lparr>pl_made := Suc (pl_made s)\<rparr>))" using joined [of "pl_cached s"] same by simp
  ultimately show ?thesis using joined by (simp add: pullRoot_def Let_def split: option.splits prod.splits)
qed

lemma accounted_work: "pull_work C bulk one s s' \<Longrightarrow> accounted s \<Longrightarrow> accounted s'"
proof (induction rule: pull_work.induct)
  case (flushes s peer waiters)
  then have wf: "jwf (pl_batches s)" "jwf (pl_inflight s)" by (simp_all add: accounted_def one_request_def)
  have fresh: "jget (pl_inflight s) peer = None" using flushes one_place by (simp add: accounted_def)
  have "one_request (pull_flush peer waiters s)"
    using flushes wf by (auto simp: accounted_def one_request_def pull_flush_def jwf_jset jwf_jdel jsmap_simps)
  moreover have "owed (pull_flush peer waiters s) = owed s"
    using flushes(1) by (simp add: owed_def pull_flush_def over_jset [OF wf(2)] over_jdel [OF wf(1)] over_new [OF fresh] add_ac)
  moreover have "answered_ids (pull_flush peer waiters s) = answered_ids s" "pl_made (pull_flush peer waiters s) = pl_made s"
    by (simp_all add: pull_flush_def answered_ids_def)
  ultimately show ?case using flushes(2) by (simp add: accounted_def)
next
  case (replies s peer waiters joined reply now)
  let ?s = "s\<lparr>pl_inflight := jdel peer (pl_inflight s)\<rparr>"
  have wf: "jwf (pl_inflight s)" using replies(3) by (simp add: accounted_def one_request_def)
  have one: "one_request ?s" using replies(3) by (auto simp: accounted_def one_request_def jwf_jdel jsmap_simps)
  have o: "owed s = owed ?s + ids (waiters @ joined)"
    using over_jdel [OF wf replies(1), of "\<lambda>(waiters, joined). ids (waiters @ joined)"] by (simp add: owed_def add_ac)
  have a: "answered_ids ?s = answered_ids s" "pl_made ?s = pl_made s" by (simp_all add: answered_ids_def)
  show ?case
  proof (cases "bulk_outcome C reply")
    case (Inl e)
    then have "bulk_returns C now reply peer waiters joined s = fold (\<lambda>w. pull_settle peer w (Inl e)) (waiters @ joined) ?s"
      by (simp add: bulk_returns_def)
    with replies(3) one o a show ?thesis by (simp add: accounted_def fold_counts add_ac)
  next
    case (Inr x)
    show ?thesis
    proof (cases x)
      case None
      then have "bulk_returns C now reply peer waiters joined s = fold (fetchOne peer) (waiters @ joined) ?s"
        using Inr by (simp add: bulk_returns_def)
      with replies(3) one o a show ?thesis by (simp add: accounted_def fold_counts add_ac)
    next
      case (Some decoded)
      obtain s' records where acc: "accept_answer C now peer decoded (map wt_topic waiters) ?s = (s', records)" by fastforce
      then have "owed s' = owed ?s" "answered_ids s' = answered_ids ?s" "pl_made s' = pl_made ?s" "one_request s' = one_request ?s"
        by (auto simp: accept_answer_def Let_def owed_def answered_ids_def one_request_def)
      moreover have "bulk_returns C now reply peer waiters joined s = fold (serve (pc_lib C) peer records) (waiters @ joined) s'"
        using Inr Some acc by (simp add: bulk_returns_def)
      ultimately show ?thesis using replies(3) one o a by (simp add: accounted_def fold_counts add_ac)
    qed
  qed
next
  case (answers peer w s answer)
  let ?s = "s\<lparr>pl_singles := remove1 (peer, w) (pl_singles s)\<rparr>"
  have "mset (pl_singles s) = add_mset (peer, w) (mset (remove1 (peer, w) (pl_singles s)))" using answers(1) by simp
  from arg_cong [OF this, of "image_mset (wt_id \<circ> snd)"]
  have "image_mset (wt_id \<circ> snd) (mset (pl_singles s)) = add_mset (wt_id w) (image_mset (wt_id \<circ> snd) (mset (remove1 (peer, w) (pl_singles s))))"
    by (simp del: mset_remove1)
  then have "owed s = owed ?s + {#wt_id w#}" by (simp add: owed_def ids_def comp_def)
  moreover have "one_request ?s = one_request s" "answered_ids ?s = answered_ids s" by (simp_all add: one_request_def answered_ids_def)
  ultimately show ?case using answers(3) by (simp add: accounted_def single_returns_def)
qed

lemma accounted_step: "pull_step C bulk one s s' \<Longrightarrow> accounted s \<Longrightarrow> accounted s'"
  by (induction rule: pull_step.induct) (simp_all add: accounted_pull accounted_work)

lemma accounted_reachable: "(pull_step C bulk one)\<^sup>*\<^sup>* puller_start s \<Longrightarrow> accounted s"
  by (induction rule: rtranclp_induct) (simp_all add: accounted_start accounted_step)

text \<open>C11: Every pull is answered once. At any moment each pull ever made either waits in exactly one place (the
  open batch, the bulk request or its own fetch) or has been answered, exactly once; and a peer never
  has two bulk requests at a time, nor one beside an open batch.\<close>

theorem pulls_answered_once:
  assumes "(pull_step C bulk one)\<^sup>*\<^sup>* puller_start s"
  shows "distinct (map (\<lambda>d. wt_id (pd_waiter d)) (pl_done s)) \<and>
    (\<forall>i < pl_made s. i \<in># owed s \<longleftrightarrow> i \<notin> set (map (\<lambda>d. wt_id (pd_waiter d)) (pl_done s))) \<and>
    (\<forall>i. count (owed s) i \<le> 1) \<and> distinct (map fst (pl_inflight s)) \<and>
    (\<forall>peer. jget (pl_batches s) peer = None \<or> jget (pl_inflight s) peer = None)"
proof -
  have acc: "accounted s" by (rule accounted_reachable [OF assms])
  then have sum: "owed s + answered_ids s = mset [0..<pl_made s]" by (simp add: accounted_def)
  have c: "count (owed s) i + count (answered_ids s) i = (if i < pl_made s then 1 else 0)" for i
    using arg_cong [OF sum, of "\<lambda>m. count m i"] by (simp only: count_union count_upto)
  have dn: "answered_ids s = mset (map (\<lambda>d. wt_id (pd_waiter d)) (pl_done s))" by (simp add: answered_ids_def ids_def comp_def)
  have le: "count (answered_ids s) i \<le> 1" "count (owed s) i \<le> 1" for i using c [of i] by (simp_all split: if_splits)
  then have "distinct (map (\<lambda>d. wt_id (pd_waiter d)) (pl_done s))" by (intro distinct_le_one) (simp only: dn)
  moreover have "i \<in># owed s \<longleftrightarrow> i \<notin> set (map (\<lambda>d. wt_id (pd_waiter d)) (pl_done s))" if "i < pl_made s" for i
  proof -
    have "i \<in> set (map (\<lambda>d. wt_id (pd_waiter d)) (pl_done s)) \<longleftrightarrow> count (answered_ids s) i \<noteq> 0"
      unfolding dn by (simp only: count_mset_0_iff not_not)
    moreover have "i \<in># owed s \<longleftrightarrow> count (owed s) i \<noteq> 0" by (simp only: count_eq_zero_iff not_not)
    ultimately show ?thesis using c [of i] that by presburger
  qed
  ultimately show ?thesis using acc le(2) by (simp add: accounted_def one_request_def jwf_def)
qed

section \<open>Answers are what the peer said\<close>

definition heard :: "pull_config \<Rightarrow> (string \<Rightarrow> bulk_reply \<Rightarrow> bool) \<Rightarrow> string \<Rightarrow> stripped_records \<Rightarrow> bool" where
  "heard C bulk peer records \<longleftrightarrow> (\<exists>answer decoded. bulk peer (Replied (Some answer)) \<and>
     decodeBulkRootRecords (pc_lib C) answer = Inr decoded \<and> records = strip_records decoded)"

text \<open>What may be said to a waiter, and what may be done besides.\<close>

definition truthful ::
  "pull_config \<Rightarrow> (string \<Rightarrow> bulk_reply \<Rightarrow> bool) \<Rightarrow> (string \<Rightarrow> string \<Rightarrow> bytes option res \<Rightarrow> bool) \<Rightarrow> pulled \<Rightarrow> bool" where
  "truthful C bulk one d \<longleftrightarrow>
     one (pd_peer d) (wt_topic (pd_waiter d)) (pd_answer d) \<or>
     (\<exists>reply e. bulk (pd_peer d) reply \<and> bulk_outcome C reply = Inl e \<and> pd_answer d = Inl e) \<or>
     (\<exists>records. heard C bulk (pd_peer d) records \<and> pd_answer d = serve_record (pc_lib C) records (wt_topic (pd_waiter d)))"

definition rightful :: "pull_config \<Rightarrow> (string \<Rightarrow> bulk_reply \<Rightarrow> bool) \<Rightarrow> pull_call \<Rightarrow> bool" where
  "rightful C bulk c \<longleftrightarrow>
     (case c of
        PutBlock expected bs \<Rightarrow> pc_putBlock C \<and> blk_cid (blockForBytes (pc_lib C) bs) = expected
      | OnRecord peer topic bs \<Rightarrow> pc_onRecord C \<and>
          (\<exists>records r. heard C bulk peer records \<and> (topic, r) \<in> set records \<and> encodeRootRecord (pc_lib C) r = Inr bs)
      | _ \<Rightarrow> True)"

definition faithful ::
  "pull_config \<Rightarrow> (string \<Rightarrow> bulk_reply \<Rightarrow> bool) \<Rightarrow> (string \<Rightarrow> string \<Rightarrow> bytes option res \<Rightarrow> bool) \<Rightarrow> puller \<Rightarrow> bool" where
  "faithful C bulk one s \<longleftrightarrow> (\<forall>d \<in> set (pl_done s). truthful C bulk one d) \<and> (\<forall>c \<in> set (pl_calls s). rightful C bulk c) \<and>
     (\<forall>(peer, at_ms, records) \<in> set (pl_cached s). heard C bulk peer records)"

lemma faithful_settle: "faithful C bulk one s \<Longrightarrow> truthful C bulk one \<lparr>pd_peer = p, pd_waiter = w, pd_answer = a\<rparr> \<Longrightarrow>
    faithful C bulk one (pull_settle p w a s)"
  by (simp add: faithful_def pull_settle_def)

lemma faithful_settles:
  assumes "faithful C bulk one s" "\<And>w. w \<in> set ws \<Longrightarrow> truthful C bulk one \<lparr>pd_peer = p, pd_waiter = w, pd_answer = a w\<rparr>"
  shows "faithful C bulk one (fold (\<lambda>w. pull_settle p w (a w)) ws s)"
  using assms by (induction ws arbitrary: s) (simp_all add: faithful_settle)

lemma faithful_serves:
  "faithful C bulk one s \<Longrightarrow> heard C bulk p records \<Longrightarrow> faithful C bulk one (fold (serve (pc_lib C) p records) ws s)"
  unfolding serve_def by (rule faithful_settles) (auto simp: truthful_def)

lemma faithful_fetches: "faithful C bulk one s \<Longrightarrow> faithful C bulk one (fold (fetchOne p) ws s)"
proof (induction ws arbitrary: s)
  case (Cons w ws)
  have "faithful C bulk one (fetchOne p w s)" using Cons.prems by (auto simp: fetchOne_def faithful_def rightful_def)
  with Cons.IH show ?case by simp
qed simp

lemma faithful_joins: "faithful C bulk one (pull_join p w s) = faithful C bulk one s"
  by (simp add: pull_join_def faithful_def split: option.splits prod.splits)

lemma faithful_tables:
  "faithful C bulk one (s\<lparr>pl_made := n\<rparr>) = faithful C bulk one s" "faithful C bulk one (s\<lparr>pl_inflight := i\<rparr>) = faithful C bulk one s"
  "faithful C bulk one (s\<lparr>pl_singles := o1\<rparr>) = faithful C bulk one s" "faithful C bulk one (s\<lparr>pl_batches := b\<rparr>) = faithful C bulk one s"
  by (simp_all add: faithful_def)

lemma faithful_pull: "faithful C bulk one s \<Longrightarrow> faithful C bulk one (pullRoot C now peer topic s)"
proof -
  assume f: "faithful C bulk one s"
  let ?w = "\<lparr>wt_id = pl_made s, wt_topic = topic\<rparr>"
  have drops: "faithful C bulk one (s\<lparr>pl_made := n, pl_cached := jdel p (pl_cached s)\<rparr>)" for n p
    using f by (simp add: faithful_def jdel_filter)
  have serves: "faithful C bulk one (serve (pc_lib C) peer records ?w (s\<lparr>pl_made := n\<rparr>))"
    if "jget (pl_cached s) peer = Some (at_ms, records)" for at_ms records n
  proof -
    have "heard C bulk peer records" using f map_of_SomeD [OF that] by (auto simp: faithful_def)
    with f faithful_serves [of C bulk one "s\<lparr>pl_made := n\<rparr>" peer records "[?w]"] show ?thesis by (simp add: faithful_tables)
  qed
  show ?thesis using f drops serves
    by (auto simp: pullRoot_def Let_def faithful_joins faithful_tables split: option.splits prod.splits)
qed

lemma faithful_accept:
  assumes "faithful C bulk one s" "heard C bulk peer (strip_records decoded)"
    and "accept_answer C now peer decoded asked s = (s', records)"
  shows "faithful C bulk one s'" "records = strip_records decoded"
proof -
  show records: "records = strip_records decoded" using assms(3) by (simp add: accept_answer_def Let_def)
  have "rightful C bulk c" if "pc_putBlock C" "c \<in> set (inlined_blocks (pc_lib C) r)" for c r
    using that by (auto simp: inlined_blocks_def rightful_def split: option.splits if_splits)
  moreover have "rightful C bulk c" if "pc_onRecord C" "c \<in> set (surplus_records (pc_lib C) peer asked (strip_records decoded))" for c
    using that assms(2) by (fastforce simp: surplus_records_def rightful_def split: sum.splits)
  moreover have "heard C bulk p rs"
    if "(p, at_ms, rs) \<in> set (cache_answer peer now (strip_records decoded) (pl_cached s))" for p at_ms rs
  proof -
    have "(p, at_ms, rs) \<in> set (pl_cached s) \<or> (p, at_ms, rs) = (peer, now, strip_records decoded)"
      using that set_jset_subset [of peer "(now, strip_records decoded)" "pl_cached s"] set_jset_subset [of peer "(now, strip_records decoded)" "tl (pl_cached s)"]
        list.set_sel(2) [of "pl_cached s"]
      by (cases "pl_cached s") (auto simp: cache_answer_def split: if_splits)
    then show ?thesis using assms(1,2) by (auto simp: faithful_def)
  qed
  ultimately show "faithful C bulk one s'"
    using assms(1,3) by (auto simp: accept_answer_def Let_def faithful_def)
qed

lemma faithful_work: "pull_work C bulk one s s' \<Longrightarrow> faithful C bulk one s \<Longrightarrow> faithful C bulk one s'"
proof (induction rule: pull_work.induct)
  case (flushes s peer waiters)
  then show ?case by (auto simp: pull_flush_def faithful_def rightful_def)
next
  case (replies s peer waiters joined reply now)
  let ?s = "s\<lparr>pl_inflight := jdel peer (pl_inflight s)\<rparr>"
  have f: "faithful C bulk one ?s" using replies(3) by (simp add: faithful_tables)
  show ?case
  proof (cases "bulk_outcome C reply")
    case (Inl e)
    have "faithful C bulk one (fold (\<lambda>w. pull_settle peer w (Inl e)) (waiters @ joined) ?s)"
      by (rule faithful_settles [OF f]) (use replies(2) Inl in \<open>auto simp: truthful_def\<close>)
    with Inl show ?thesis by (simp add: bulk_returns_def)
  next
    case (Inr x)
    show ?thesis
    proof (cases x)
      case None
      with Inr faithful_fetches [OF f, of peer "waiters @ joined"] show ?thesis by (simp add: bulk_returns_def)
    next
      case (Some decoded)
      obtain s' records where acc: "accept_answer C now peer decoded (map wt_topic waiters) ?s = (s', records)" by fastforce
      have "heard C bulk peer (strip_records decoded)"
        using Inr Some replies(2) by (cases reply) (auto simp: bulk_outcome_def heard_def res_simps split: option.splits)
      note got = faithful_accept [OF f this acc] this
      from faithful_serves [OF got(1), of peer records "waiters @ joined"] got(2,3) Inr Some acc show ?thesis
        by (simp add: bulk_returns_def)
    qed
  qed
next
  case (answers peer w s answer)
  then show ?case by (simp add: single_returns_def) (rule faithful_settle; simp add: faithful_tables truthful_def)
qed

lemma faithful_reachable: "(pull_step C bulk one)\<^sup>*\<^sup>* puller_start s \<Longrightarrow> faithful C bulk one s"
proof (induction rule: rtranclp_induct)
  case base
  then show ?case by (simp add: faithful_def puller_start_def)
next
  case (step s s')
  from step(2,3) show ?case by (induction rule: pull_step.induct) (simp_all add: faithful_pull faithful_work)
qed

lemma pull_truthful:
  assumes "cbor_laws (pc_lib C)" "(pull_step C bulk one)\<^sup>*\<^sup>* puller_start s"
    and d: "d \<in> set (pl_done s)" "pd_answer d = Inr (Some bs)"
  shows "one (pd_peer d) (wt_topic (pd_waiter d)) (Inr (Some bs)) \<or>
      (\<exists>answer decoded r. bulk (pd_peer d) (Replied (Some answer)) \<and> decodeBulkRootRecords (pc_lib C) answer = Inr decoded \<and>
         jget decoded (wt_topic (pd_waiter d)) = Some r \<and> decodeRootRecord (pc_lib C) bs = Inr (fetch_root_record.truncate r))"
proof -
  have "truthful C bulk one d" using faithful_reachable [OF assms(2)] d(1) by (simp add: faithful_def)
  then consider "one (pd_peer d) (wt_topic (pd_waiter d)) (Inr (Some bs))"
    | records where "heard C bulk (pd_peer d) records" "serve_record (pc_lib C) records (wt_topic (pd_waiter d)) = Inr (Some bs)"
    using d(2) by (auto simp: truthful_def)
  then show ?thesis
  proof cases
    case 2
    then obtain answer decoded r where h: "bulk (pd_peer d) (Replied (Some answer))" "decodeBulkRootRecords (pc_lib C) answer = Inr decoded"
      "jget (strip_records decoded) (wt_topic (pd_waiter d)) = Some r" "encodeRootRecord (pc_lib C) r = Inr bs"
      by (auto simp: heard_def serve_record_def res_simps split: option.splits)
    have "jget (strip_records decoded) t = map_option fetch_root_record.truncate (jget decoded t)" for t
      unfolding strip_records_def by (induction decoded) auto
    with h decodeRootRecord_encode [OF assms(1) h(4)] show ?thesis by auto
  qed simp
qed

text \<open>A pull answers with what the peer said. Bytes given to a waiter either came from a fetch of its own
  contest, or encode the record the peer's bulk answer has under its topic, and decode to that record;
  and whatever is stored besides hashes to the chunk it is stored under.\<close>

theorem pull_answers_truthful:
  assumes "cbor_laws (pc_lib C)" "(pull_step C bulk one)\<^sup>*\<^sup>* puller_start s"
  shows "(\<forall>d bs. d \<in> set (pl_done s) \<and> pd_answer d = Inr (Some bs) \<longrightarrow>
      one (pd_peer d) (wt_topic (pd_waiter d)) (Inr (Some bs)) \<or>
      (\<exists>answer decoded r. bulk (pd_peer d) (Replied (Some answer)) \<and> decodeBulkRootRecords (pc_lib C) answer = Inr decoded \<and>
         jget decoded (wt_topic (pd_waiter d)) = Some r \<and> decodeRootRecord (pc_lib C) bs = Inr (fetch_root_record.truncate r))) \<and>
    (\<forall>c bs. PutBlock c bs \<in> set (pl_calls s) \<longrightarrow> blk_cid (blockForBytes (pc_lib C) bs) = c)"
proof -
  have "blk_cid (blockForBytes (pc_lib C) bs) = c" if "PutBlock c bs \<in> set (pl_calls s)" for c bs
    using faithful_reachable [OF assms(2)] that by (auto simp: faithful_def rightful_def)
  with pull_truthful [OF assms] show ?thesis by blast
qed

section \<open>The puller drains\<close>

text \<open>A waiter of an open batch has three steps ahead of it, one of a bulk request two, a fetch one.\<close>

definition weight :: "puller \<Rightarrow> nat" where
  "weight s = over_values (\<lambda>waiters. 3 * length waiters + 2) (pl_batches s) +
     over_values (\<lambda>(waiters, joined). 2 * length (waiters @ joined) + 1) (pl_inflight s) + length (pl_singles s)"

lemma weight_settle [simp]: "weight (pull_settle p w a s) = weight s" "weight (serve L p rs w s) = weight s"
  "weight (fetchOne p w s) = weight s + 1"
  by (simp_all add: weight_def fetchOne_def)

lemma weight_folds: "weight (fold (\<lambda>w. pull_settle p w a) ws s) = weight s" "weight (fold (serve L p rs) ws s) = weight s"
  "weight (fold (fetchOne p) ws s) = weight s + length ws"
  by (induction ws arbitrary: s) simp_all

lemma weight_accept: "accept_answer C now peer decoded asked s = (s', records) \<Longrightarrow> weight s' = weight s \<and> pl_made s' = pl_made s"
  by (auto simp: accept_answer_def Let_def weight_def)

lemma jget_some: "m \<noteq> [] \<Longrightarrow> \<exists>k v. jget m k = Some v"
  by (cases m) (auto intro!: exI [of _ "fst (hd m)"])

lemma weight_work: "pull_work C bulk one s s' \<Longrightarrow> accounted s \<Longrightarrow> weight s' < weight s \<and> pl_made s' = pl_made s"
proof (induction rule: pull_work.induct)
  case (flushes s peer waiters)
  then have wf: "jwf (pl_batches s)" "jwf (pl_inflight s)" by (simp_all add: accounted_def one_request_def)
  have fresh: "jget (pl_inflight s) peer = None" using flushes one_place by (simp add: accounted_def)
  show ?case
    using over_jdel [OF wf(1) flushes(1), of "\<lambda>waiters. 3 * length waiters + 2"]
    by (simp add: weight_def pull_flush_def over_jset [OF wf(2)] over_new [OF fresh])
next
  case (replies s peer waiters joined reply now)
  let ?s = "s\<lparr>pl_inflight := jdel peer (pl_inflight s)\<rparr>"
  have wf: "jwf (pl_inflight s)" using replies(3) by (simp add: accounted_def one_request_def)
  have w: "weight s = weight ?s + (2 * length (waiters @ joined) + 1)"
    using over_jdel [OF wf replies(1), of "\<lambda>(waiters, joined). 2 * length (waiters @ joined) + 1"] by (simp add: weight_def)
  then show ?case
    by (auto simp: bulk_returns_def weight_folds fold_counts simp del: fold_append dest: weight_accept split: sum.splits option.splits prod.splits)
next
  case (answers peer w s answer)
  then have "length (pl_singles s) = Suc (length (remove1 (peer, w) (pl_singles s)))" by (simp add: length_remove1) (metis Suc_pred length_pos_if_in_set)
  then show ?case by (simp add: weight_def single_returns_def)
qed

text \<open>C28: Pulling ends. With no new pulls the puller takes at most as many steps as its weight, three for a waiting
  pull, two for one in a bulk request and one for a fetch (and two for a batch, one for a request); and
  when the peers answer, it stops only once every pull has been answered.\<close>

theorem pulls_drain:
  assumes "(pull_step C bulk one)\<^sup>*\<^sup>* puller_start s" "(pull_work C bulk one ^^ n) s s'"
    and "\<And>peer. \<exists>reply. bulk peer reply" "\<And>peer topic. \<exists>answer. one peer topic answer"
  shows "n + weight s' \<le> weight s \<and> pl_made s' = pl_made s \<and>
    ((\<exists>s''. pull_work C bulk one s' s'') \<or> mset (map (\<lambda>d. wt_id (pd_waiter d)) (pl_done s')) = mset [0..<pl_made s])"
proof -
  have run: "accounted s' \<and> n + weight s' \<le> weight s \<and> pl_made s' = pl_made s"
    using assms(2)
  proof (induction n arbitrary: s')
    case 0
    then show ?case using accounted_reachable [OF assms(1)] by simp
  next
    case (Suc n)
    then obtain t where "(pull_work C bulk one ^^ n) s t" and t: "pull_work C bulk one t s'" by auto
    from Suc.IH [OF this(1)] weight_work [OF t] accounted_work [OF t] show ?case by auto
  qed
  show ?thesis
  proof (cases "\<exists>s''. pull_work C bulk one s' s''")
    case False
    have "pl_batches s' = []"
    proof (rule ccontr)
      assume "pl_batches s' \<noteq> []"
      then obtain p ws where "jget (pl_batches s') p = Some ws" using jget_some by blast
      with False pull_work.flushes show False by blast
    qed
    moreover have "pl_inflight s' = []"
    proof (rule ccontr)
      assume "pl_inflight s' \<noteq> []"
      then obtain p ws js where "jget (pl_inflight s') p = Some (ws, js)" using jget_some by fastforce
      with False assms(3) pull_work.replies show False by blast
    qed
    moreover have "pl_singles s' = []"
    proof (rule ccontr)
      assume "pl_singles s' \<noteq> []"
      then obtain p w where "(p, w) \<in> set (pl_singles s')" by (cases "pl_singles s'") auto
      with False assms(4) pull_work.answers show False by blast
    qed
    ultimately have "owed s' = {#}" by (simp add: owed_def)
    with run show ?thesis by (simp add: accounted_def answered_ids_def ids_def comp_def)
  qed (use run in blast)
qed

section \<open>A first pull\<close>

text \<open>The first pull of a peer that answers the bulk key gets the record it has for the contest.\<close>

lemma first_pull:
  assumes "bulk peer (Replied (Some answer))" "decodeBulkRootRecords (pc_lib C) answer = Inr decoded"
    and "jget decoded topic = Some e" "encodeRootRecord (pc_lib C) (fetch_root_record.truncate e) = Inr bs"
  shows "\<exists>s. (pull_step C bulk one)\<^sup>*\<^sup>* puller_start s \<and>
    pl_done s = [\<lparr>pd_peer = peer, pd_waiter = \<lparr>wt_id = 0, wt_topic = topic\<rparr>, pd_answer = Inr (Some bs)\<rparr>]"
proof -
  let ?w = "\<lparr>wt_id = 0, wt_topic = topic\<rparr>"
  define s1 where "s1 = pullRoot C 0 peer topic puller_start"
  define s2 where "s2 = pull_flush peer [?w] s1"
  define s3 where "s3 = bulk_returns C 0 (Replied (Some answer)) peer [?w] [] s2"
  have one: "pl_batches s1 = [(peer, [?w])]" "pl_inflight s1 = []" "pl_done s1 = []"
    by (simp_all add: s1_def pullRoot_def pull_join_def puller_start_def)
  have two: "pl_inflight s2 = [(peer, [?w], [])]" "pl_done s2 = []"
    using one by (simp_all add: s2_def pull_flush_def)
  have "jget (strip_records decoded) t = map_option fetch_root_record.truncate (jget decoded t)" for t
    unfolding strip_records_def by (induction decoded) auto
  then have "pl_done s3 = [\<lparr>pd_peer = peer, pd_waiter = ?w, pd_answer = Inr (Some bs)\<rparr>]"
    using assms(2-4) two(2)
    by (simp add: s3_def bulk_returns_def bulk_outcome_def accept_answer_def Let_def serve_def serve_record_def pull_settle_def res_simps)
  moreover have "pull_step C bulk one puller_start s1" unfolding s1_def by (rule pull_step.pulls)
  moreover have "pull_step C bulk one s1 s2" unfolding s2_def
    by (intro pull_step.works pull_work.flushes) (simp add: one)
  moreover have "pull_step C bulk one s2 s3" unfolding s3_def
    by (intro pull_step.works pull_work.replies) (simp_all add: two assms(1))
  ultimately show ?thesis by (meson rtranclp.rtrancl_into_rtrancl rtranclp.rtrancl_refl)
qed

definition sample_pull :: pull_config where
  "sample_pull = \<lparr>pc_lib = sample_lib, pc_putBlock = True, pc_onRecord = True\<rparr>"

definition sample_record :: bulk_root_record where
  "sample_record = \<lparr>rr_version = 1, rr_root = [1, 2, 3], rr_count = 0, rr_sizeBytes = 0, fr_chunks = [], bk_chunkBlocks = None\<rparr>"

lemma sample_bulk:
  "\<exists>answer decoded bs. encodeBulkRootRecords sample_lib [(''t'', sample_record)] = Inr answer \<and>
     decodeBulkRootRecords sample_lib answer = Inr decoded \<and> jget decoded ''t'' = Some sample_record \<and>
     encodeRootRecord sample_lib (fetch_root_record.truncate sample_record) = Inr bs"
proof -
  have ok: "root_record_ok sample_record" "root_record_ok (fetch_root_record.truncate sample_record)"
    by (simp_all add: sample_record_def root_record_ok_def fetch_root_record.truncate_def ROOT_RECORD_VERSION_def max_safe_integer_def)
  obtain answer where "encodeBulkRootRecords sample_lib [(''t'', sample_record)] = Inr answer"
    using ok(1) by (simp add: encodeBulkRootRecords_def bulk_schema_ipld)
  moreover from decodeBulk_encode [OF sample_cbor_laws this] obtain decoded
    where "decodeBulkRootRecords sample_lib answer = Inr decoded" "jget decoded ''t'' = Some sample_record" by (auto simp: jwf_def)
  moreover obtain bs where "encodeRootRecord sample_lib (fetch_root_record.truncate sample_record) = Inr bs"
    using ok(2) by (simp add: encodeRootRecord_def FetchRootRecordSchema_ipld fetch_truncate)
  ultimately show ?thesis by blast
qed

theorem pull_answers_truthful_witness:
  "\<exists>(s :: puller) bs. (pull_step sample_pull (\<lambda>peer reply. \<exists>answer. reply = Replied (Some answer) \<and>
       encodeBulkRootRecords sample_lib [(''t'', sample_record)] = Inr answer) (\<lambda>_ _ _. False))\<^sup>*\<^sup>* puller_start s \<and>
     (\<exists>d \<in> set (pl_done s). pd_answer d = Inr (Some bs)) \<and>
     decodeRootRecord sample_lib bs = Inr (fetch_root_record.truncate sample_record)"
proof -
  let ?bulk = "\<lambda>peer reply. \<exists>answer. reply = Replied (Some answer) \<and> encodeBulkRootRecords sample_lib [(''t'', sample_record)] = Inr answer"
  obtain answer decoded bs where a: "encodeBulkRootRecords sample_lib [(''t'', sample_record)] = Inr answer"
    "decodeBulkRootRecords sample_lib answer = Inr decoded" "jget decoded ''t'' = Some sample_record"
    "encodeRootRecord sample_lib (fetch_root_record.truncate sample_record) = Inr bs"
    using sample_bulk by blast
  have lib: "pc_lib sample_pull = sample_lib" by (simp add: sample_pull_def)
  obtain s where s: "(pull_step sample_pull ?bulk (\<lambda>_ _ _. False))\<^sup>*\<^sup>* puller_start s"
    "pl_done s = [\<lparr>pd_peer = ''p'', pd_waiter = \<lparr>wt_id = 0, wt_topic = ''t''\<rparr>, pd_answer = Inr (Some bs)\<rparr>]"
    using first_pull [of ?bulk "''p''" answer sample_pull decoded "''t''" sample_record bs "\<lambda>_ _ _. False"] a by (auto simp: lib)
  have laws: "cbor_laws (pc_lib sample_pull)" by (simp add: lib sample_cbor_laws)
  have "decodeRootRecord sample_lib bs = Inr (fetch_root_record.truncate sample_record)"
    using conjunct1 [OF pull_answers_truthful [OF laws s(1)]] s(2) a(1-3) by (auto simp: lib)
  with s show ?thesis by auto
qed

theorem pulls_answered_once_witness:
  "\<exists>(s :: puller). pl_made s = 1 \<and> length (pl_done s) = 1 \<and> 0 \<notin># owed s"
proof -
  let ?bulk = "\<lambda>peer reply. reply = Refused" let ?one = "\<lambda>peer topic answer. answer = Inr None"
  let ?w = "\<lparr>wt_id = 0, wt_topic = ''t''\<rparr>"
  define s1 where "s1 = pullRoot sample_pull 0 ''p'' ''t'' puller_start"
  define s2 where "s2 = pull_flush ''p'' [?w] s1"
  define s3 where "s3 = bulk_returns sample_pull 0 Refused ''p'' [?w] [] s2"
  define s4 where "s4 = single_returns (Inr None) ''p'' ?w s3"
  note defs = s1_def s2_def s3_def s4_def pullRoot_def pull_join_def puller_start_def pull_flush_def bulk_returns_def bulk_outcome_def
    fetchOne_def single_returns_def pull_settle_def
  have "pull_step sample_pull ?bulk ?one puller_start s1" unfolding s1_def by (rule pull_step.pulls)
  moreover have "pull_step sample_pull ?bulk ?one s1 s2" unfolding s2_def
    by (intro pull_step.works pull_work.flushes) (simp add: defs)
  moreover have "pull_step sample_pull ?bulk ?one s2 s3" unfolding s3_def
    by (intro pull_step.works pull_work.replies) (simp_all add: defs)
  moreover have "pull_step sample_pull ?bulk ?one s3 s4" unfolding s4_def
    by (intro pull_step.works pull_work.answers) (simp_all add: defs)
  ultimately have "(pull_step sample_pull ?bulk ?one)\<^sup>*\<^sup>* puller_start s4"
    by (meson rtranclp.rtrancl_into_rtrancl rtranclp.rtrancl_refl)
  from pulls_answered_once [OF this] have "\<forall>i < pl_made s4. i \<in># owed s4 \<longleftrightarrow> i \<notin> set (map (\<lambda>d. wt_id (pd_waiter d)) (pl_done s4))"
    by blast
  moreover have "pl_made s4 = 1" "map (\<lambda>d. wt_id (pd_waiter d)) (pl_done s4) = [0]" by (simp_all add: defs)
  moreover from this(2) have "length (pl_done s4) = 1" by (metis length_map length_Cons list.size(3) One_nat_def)
  ultimately show ?thesis by (intro exI [of _ s4]) simp
qed

theorem pulls_drain_witness:
  "\<exists>(s :: puller). pl_made s = 1 \<and> owed s \<noteq> {#} \<and>
     (\<nexists>n s'. 5 < n \<and> (pull_work sample_pull (\<lambda>_ reply. reply = Refused) (\<lambda>_ _ answer. answer = Inr None) ^^ n) s s')"
proof -
  let ?bulk = "\<lambda>(peer :: string) reply. reply = Refused" let ?one = "\<lambda>(peer :: string) (topic :: string) answer. answer = (Inr None :: bytes option res)"
  define s1 where "s1 = pullRoot sample_pull 0 ''p'' ''t'' puller_start"
  have "(pull_step sample_pull ?bulk ?one)\<^sup>*\<^sup>* puller_start s1"
    unfolding s1_def by (rule r_into_rtranclp) (rule pull_step.pulls)
  note bound = pulls_drain [OF this]
  have s1: "weight s1 = 5" "pl_made s1 = 1" "owed s1 = {#0#}"
    by (simp_all add: weight_def owed_def over_values_def s1_def pullRoot_def pull_join_def puller_start_def)
  have "n \<le> 5" if "(pull_work sample_pull ?bulk ?one ^^ n) s1 s'" for n s' using bound [OF that] s1(1) by simp
  with s1 show ?thesis by (intro exI [of _ s1]) (auto simp: not_less)
qed

end
