(* ===== verification/Pull_Answers.thy ===== *)
theory Pull_Answers
  imports Pull_Properties Voter_Answers
begin

text \<open>
  The puller of one client against the responder of another: what is pulled from a peer that runs this
  program is a record of a checkpoint of verified votes.
\<close>

section \<open>One client pulls from another\<close>

text \<open>The replies of a peer that runs this client; \<open>se\<close> ranges over its clocks and stores, \<open>v\<close> over its states.\<close>

definition served_bulk :: "lib \<Rightarrow> bool \<Rightarrow> string \<Rightarrow> bulk_reply \<Rightarrow> bool" where
  "served_bulk L announcing peer reply \<longleftrightarrow>
     (\<exists>(v :: unit voter) se. voter_step\<^sup>*\<^sup>* (voter_start announcing) v \<and> reply = Replied (snd (rootLookup L se BULK_ROOTS_FETCH_KEY v)))"

definition served_one :: "lib \<Rightarrow> bool \<Rightarrow> string \<Rightarrow> string \<Rightarrow> bytes option res \<Rightarrow> bool" where
  "served_one L announcing peer topic answer \<longleftrightarrow>
     (\<exists>(v :: unit voter) se. voter_step\<^sup>*\<^sup>* (voter_start announcing) v \<and> answer = Inr (snd (rootLookup L se (rootFetchKey topic) v)))"

lemma served_one_record:
  assumes "cbor_laws L" "served_one L announcing peer topic (Inr (Some bs))"
  shows "\<exists>(v :: unit voter) r. voter_step\<^sup>*\<^sup>* (voter_start announcing) v \<and> decodeRootRecord L bs = Inr r \<and> verified_record v topic r"
proof -
  from assms(2) obtain v :: "unit voter" and se where v: "voter_step\<^sup>*\<^sup>* (voter_start announcing) v"
    "snd (rootLookup L se (rootFetchKey topic) v) = Some bs" by (auto simp: served_one_def)
  then obtain v' where "rootLookup L se (rootFetchKey topic) v = (v', Some bs)" by (metis prod.collapse)
  then obtain r blocks where r: "record_at se topic v = (v', Some (r, blocks))" "encodeRootRecord L r = Inr bs"
    by (rule lookup_record)
  with v(1) record_at_verified [OF v(1) r(1)] decodeRootRecord_encode [OF assms(1) r(2)] show ?thesis by blast
qed

lemma served_bulk_record:
  assumes "cbor_laws L" "served_bulk L announcing peer (Replied (Some answer))"
    and "decodeBulkRootRecords L answer = Inr decoded" "jget decoded topic = Some e"
  shows "\<exists>(v :: unit voter). voter_step\<^sup>*\<^sup>* (voter_start announcing) v \<and> verified_record v topic (fetch_root_record.truncate e)"
proof -
  from assms(2) obtain v :: "unit voter" and se where v: "voter_step\<^sup>*\<^sup>* (voter_start announcing) v"
    "snd (rootLookup L se BULK_ROOTS_FETCH_KEY v) = Some answer" by (auto simp: served_bulk_def)
  then obtain v' where "rootLookup L se BULK_ROOTS_FETCH_KEY v = (v', Some answer)" by (metis prod.collapse)
  from bulk_decodes [OF v(1) assms(1) this] assms(3,4) have "bulk_entry_ok se v topic e" by auto
  then obtain v2 blocks where "record_at se topic v = (v2, Some (fetch_root_record.truncate e, blocks))"
    unfolding bulk_entry_ok_def by (metis prod.collapse)
  with v(1) record_at_verified [OF v(1)] show ?thesis by blast
qed

text \<open>C9: What one client pulls from another is verified. When the peers are clients in any reachable state, with
  any clock and store, every record a pull answers decodes to the record of the checkpoint of the winners of
  a moment of the engine of that very contest, reached from its creation, in a reachable client that had
  it joined; and every one of those votes was then held with every check settled.\<close>

theorem pulled_root_is_verified:
  assumes "cbor_laws (pc_lib C)"
    and "(pull_step C (served_bulk (pc_lib C) announcing) (served_one (pc_lib C) announcing))\<^sup>*\<^sup>* puller_start s"
    and "d \<in> set (pl_done s)" "pd_answer d = Inr (Some bs)"
  shows "\<exists>(v :: unit voter) r. voter_step\<^sup>*\<^sup>* (voter_start announcing) v \<and> decodeRootRecord (pc_lib C) bs = Inr r \<and>
    verified_record v (wt_topic (pd_waiter d)) r"
  using pull_truthful [OF assms] served_one_record [OF assms(1)] served_bulk_record [OF assms(1)] by metis

theorem pulled_root_is_verified_witness:
  "\<exists>(v :: unit voter) (s :: puller) d bs r. d \<in> set (pl_done s) \<and> pd_answer d = Inr (Some bs) \<and>
     decodeRootRecord sample_lib bs = Inr r \<and> verified_record v (wt_topic (pd_waiter d)) r"
proof -
  have lib: "pc_lib sample_pull = sample_lib" by (simp add: sample_pull_def)
  obtain v' answer rs where a: "rootLookup sample_lib sample_seams BULK_ROOTS_FETCH_KEY voter_joined = (v', Some answer)"
    "decodeBulkRootRecords sample_lib answer = Inr rs" "jget rs sample_topic \<noteq> None"
    using joined_bulk by blast
  then obtain e where e: "jget rs sample_topic = Some e" by blast
  have bulk: "served_bulk sample_lib True ''p'' (Replied (Some answer))"
    unfolding served_bulk_def using sample_voter_run a(1) by (intro exI [of _ voter_joined] exI [of _ sample_seams]) simp
  have "bulk_entry_ok sample_seams voter_joined sample_topic e"
    using bulk_decodes [OF sample_voter_run sample_cbor_laws a(1)] a(2) e by (metis Inr_inject)
  then have "root_record_ok (fetch_root_record.truncate e)" using joined_answers by (auto simp: bulk_entry_ok_def)
  then obtain bs where "encodeRootRecord sample_lib (fetch_root_record.truncate e) = Inr bs"
    by (auto simp: encodeRootRecord_def FetchRootRecordSchema_ipld fetch_truncate)
  from first_pull [where C = sample_pull and bulk = "served_bulk sample_lib True" and one = "served_one sample_lib True", unfolded lib, OF bulk a(2) e this] obtain s
    where s: "(pull_step sample_pull (served_bulk sample_lib True) (served_one sample_lib True))\<^sup>*\<^sup>* puller_start s"
      "pl_done s = [\<lparr>pd_peer = ''p'', pd_waiter = \<lparr>wt_id = 0, wt_topic = sample_topic\<rparr>, pd_answer = Inr (Some bs)\<rparr>]" by blast
  define d where "d = \<lparr>pd_peer = ''p'', pd_waiter = \<lparr>wt_id = 0, wt_topic = sample_topic\<rparr>, pd_answer = Inr (Some bs)\<rparr>"
  have d: "d \<in> set (pl_done s)" "pd_answer d = Inr (Some bs)" by (simp_all add: s(2) d_def)
  from pulled_root_is_verified [where C = sample_pull, unfolded lib, OF sample_cbor_laws s(1) d] d show ?thesis by blast
qed

end
