(* ===== verification/Cold_Start.thy ===== *)
theory Cold_Start
  imports Engine_Steps
begin

text \<open>
  The cold start of \<open>src/client/voter.ts\<close> (\<open>#coldStart\<close>, \<open>#armSubscriptionRepull\<close>, \<open>#discoverProviders\<close>,
  \<open>#fetchRootWithRetry\<close>, \<open>shuffled\<close>): who is asked for a root record after a join, how long an ask is
  retried, and what an answer does to the engine.
\<close>

section \<open>Constants\<close>

definition COLD_START_PEERS :: nat where
  "COLD_START_PEERS = 4"

definition COLD_START_FETCH_DEADLINE_MS :: nat where
  "COLD_START_FETCH_DEADLINE_MS = 30000"

definition COLD_START_FETCH_BACKOFF_MS :: nat where
  "COLD_START_FETCH_BACKOFF_MS = 400"

definition COLD_START_FETCH_BACKOFF_CAP_MS :: nat where
  "COLD_START_FETCH_BACKOFF_CAP_MS = 4000"

section \<open>Shuffling\<close>

definition swap_at :: "nat \<Rightarrow> nat \<Rightarrow> 'a list \<Rightarrow> 'a list" where
  "swap_at i j xs = xs[i := xs ! j, j := xs ! i]"

text \<open>\<open>draw i\<close> is the index drawn for place \<open>i\<close>, at most \<open>i\<close>.\<close>

definition shuffled :: "(nat \<Rightarrow> nat) \<Rightarrow> 'a list \<Rightarrow> 'a list" where
  "shuffled draw items = fold (\<lambda>i out. swap_at i (draw i) out) (rev [1..<length items]) items"

section \<open>One peer, retried\<close>

text \<open>What happens during a retried fetch: \<open>rt_outcome n\<close> and \<open>rt_took n\<close> are the outcome of attempt \<open>n\<close> and the
  milliseconds it took (queueing for the budget included), \<open>rt_sleep n c\<close> the backoff slept before it under the
  ceiling \<open>c\<close>, and \<open>rt_joined t\<close> whether the contest has a chaser at the time \<open>t\<close>.\<close>

record retry_env =
  rt_outcome :: "nat \<Rightarrow> bytes option res"
  rt_took :: "nat \<Rightarrow> nat"
  rt_sleep :: "nat \<Rightarrow> nat \<Rightarrow> nat"
  rt_joined :: "nat \<Rightarrow> bool"

definition backoff_ceiling :: "nat \<Rightarrow> nat" where
  "backoff_ceiling attempt = min COLD_START_FETCH_BACKOFF_CAP_MS (COLD_START_FETCH_BACKOFF_MS * 2 ^ (attempt - 1))"

text \<open>The loop, from attempt \<open>attempt\<close> at the time \<open>now\<close> after the error \<open>lastError\<close>; the result comes with the
  time it is reached and the number of attempts made.\<close>

partial_function (option) retry_loop ::
  "retry_env \<Rightarrow> nat \<Rightarrow> nat \<Rightarrow> nat \<Rightarrow> js_error \<Rightarrow> (bytes option res \<times> nat \<times> nat) option" where
  "retry_loop env deadline attempt now lastError =
     (if 0 < attempt \<and> (\<not> rt_joined env now \<or> deadline \<le> now) then Some (Inl lastError, now, attempt)
      else
        let woken = (if 0 < attempt then now + rt_sleep env attempt (backoff_ceiling attempt) else now) in
        if 0 < attempt \<and> \<not> rt_joined env woken then Some (Inr None, woken, attempt)
        else case rt_outcome env attempt of
               Inr answer \<Rightarrow> Some (Inr answer, woken + rt_took env attempt, Suc attempt)
             | Inl e \<Rightarrow> retry_loop env deadline (Suc attempt) (woken + rt_took env attempt) e)"

definition fetchRootWithRetry :: "retry_env \<Rightarrow> nat \<Rightarrow> (bytes option res \<times> nat \<times> nat) option" where
  "fetchRootWithRetry env now = retry_loop env (now + COLD_START_FETCH_DEADLINE_MS) 0 now (PlainError ''undefined'')"

section \<open>The pulls of a join\<close>

text \<open>\<open>co_seen\<close> holds the peers asked so far, in order, \<open>co_asking\<close> those whose answer is awaited and \<open>co_own\<close> the
  outcome of encoding our own root, once asked for. \<open>co_armed\<close> is the subscription listener; \<open>co_routing\<close>,
  \<open>co_found\<close> and \<open>co_dialing\<close> are the content router's lookup, its count and its dials.\<close>

record cold =
  co_engine :: engine
  co_seen :: "peer list"
  co_asking :: "peer list"
  co_own :: "fetch_root_record res option"
  co_armed :: bool
  co_routing :: bool
  co_found :: nat
  co_dialing :: "peer list"

definition cold_pull :: "peer option \<Rightarrow> peer \<Rightarrow> cold \<Rightarrow> cold" where
  "cold_pull self p s =
     (if self = Some p \<or> p \<in> set (co_seen s) then s
      else s\<lparr>co_seen := co_seen s @ [p], co_asking := co_asking s @ [p]\<rparr>)"

text \<open>\<open>await (ownRoot ??= this.rootRecord())\<close>\<close>

definition cold_own ::
  "'x engine_config \<Rightarrow> nat \<Rightarrow> nat res \<Rightarrow> (cid \<Rightarrow> unit res) \<Rightarrow> cold \<Rightarrow> cold \<times> fetch_root_record res" where
  "cold_own C now head put s =
     (case co_own s of
        Some own \<Rightarrow> (s, own)
      | None \<Rightarrow> (case rootRecord C now head put (co_engine s) of (en, own) \<Rightarrow> (s\<lparr>co_engine := en, co_own := Some own\<rparr>, own)))"

definition cold_compare :: "peer list \<Rightarrow> peer \<Rightarrow> fetch_root_record \<Rightarrow> fetch_root_record \<Rightarrow> engine \<Rightarrow> engine" where
  "cold_compare connections p record own en =
     (let en' = notePeerRoot p (rr_root record) en in
      if rr_root record = rr_root own then en'
      else chase (rr_root record) (Some (fr_chunks record)) (Some p) connections en')"

text \<open>\<open>pull\<close> from the end of its fetch on; every error is swallowed.\<close>

definition cold_answered ::
  "'x engine_config \<Rightarrow> nat \<Rightarrow> nat res \<Rightarrow> (cid \<Rightarrow> unit res) \<Rightarrow> peer list \<Rightarrow> peer \<Rightarrow> bytes option res \<Rightarrow> cold \<Rightarrow> cold" where
  "cold_answered C now head put connections p outcome s0 =
     (let s = s0\<lparr>co_asking := remove1 p (co_asking s0)\<rparr> in
      case outcome of
        Inl _ \<Rightarrow> s
      | Inr None \<Rightarrow> s
      | Inr (Some answer) \<Rightarrow>
          (case decodeRootRecord (eg_lib C) answer of
             Inl _ \<Rightarrow> s
           | Inr record \<Rightarrow>
               (case cold_own C now head put s of
                  (s', Inl _) \<Rightarrow> s'
                | (s', Inr own) \<Rightarrow> s'\<lparr>co_engine := cold_compare connections p record own (co_engine s')\<rparr>)))"

text \<open>\<open>routed\<close>: the node carries a content router and the criteria CID decodes.\<close>

definition coldStart :: "bool \<Rightarrow> peer option \<Rightarrow> (nat \<Rightarrow> nat) \<Rightarrow> peer list \<Rightarrow> engine \<Rightarrow> cold" where
  "coldStart routed self draw subscribers en =
     fold (cold_pull self) (take COLD_START_PEERS (shuffled draw subscribers))
       \<lparr>co_engine = en, co_seen = [], co_asking = [], co_own = None, co_armed = True, co_routing = routed,
        co_found = 0, co_dialing = []\<rparr>"

text \<open>A change of subscriptions: the peer and, per topic, whether it now subscribes.\<close>

definition subscription_change :: "peer option \<Rightarrow> string \<Rightarrow> peer \<Rightarrow> (string \<times> bool) list \<Rightarrow> cold \<Rightarrow> cold" where
  "subscription_change self topic p subscriptions s =
     (if list_ex (\<lambda>(t, subscribed). t = topic \<and> subscribed) subscriptions then cold_pull self p s else s)"

text \<open>The router names a provider, with addresses to dial or without.\<close>

definition provider_found :: "peer option \<Rightarrow> peer \<Rightarrow> bool \<Rightarrow> cold \<Rightarrow> cold" where
  "provider_found self p has_addrs s =
     (if COLD_START_PEERS \<le> co_found s then s\<lparr>co_routing := False\<rparr>
      else let s' = s\<lparr>co_found := Suc (co_found s)\<rparr> in
           if has_addrs then s'\<lparr>co_dialing := co_dialing s' @ [p]\<rparr> else cold_pull self p s')"

definition provider_dialed :: "peer option \<Rightarrow> peer \<Rightarrow> cold \<Rightarrow> cold" where
  "provider_dialed self p s = cold_pull self p (s\<lparr>co_dialing := remove1 p (co_dialing s)\<rparr>)"

text \<open>The steps after a cold start. A dial ends in any way; a fetch ends with any outcome; the engine works on.\<close>

inductive cold_step :: "'x engine_config \<Rightarrow> peer option \<Rightarrow> cold \<Rightarrow> cold \<Rightarrow> bool" for C self where
  works: "en_step C (co_engine s) en \<Longrightarrow> cold_step C self s (s\<lparr>co_engine := en\<rparr>)"
| appears: "co_armed s \<Longrightarrow> cold_step C self s (subscription_change self (eg_topic C) p subscriptions s)"
| disarms: "cold_step C self s (s\<lparr>co_armed := False\<rparr>)"
| provides: "co_routing s \<Longrightarrow> cold_step C self s (provider_found self p has_addrs s)"
| routed: "cold_step C self s (s\<lparr>co_routing := False\<rparr>)"
| dialed: "p \<in> set (co_dialing s) \<Longrightarrow> cold_step C self s (provider_dialed self p s)"
| answered: "p \<in> set (co_asking s) \<Longrightarrow> cold_step C self s (cold_answered C now head put connections p outcome s)"

end
