(* ===== verification/Cold_Properties.thy ===== *)
theory Cold_Properties
  imports Cold_Start Engine_Sample Pull_Properties "HOL-Library.Sublist"
begin

text \<open>
  What the cold start promises: the retry of one peer ends within its deadline with the first answer
  it got, a join asks every peer once and few of them at first, a peer that subscribes late is asked
  and its root chased; and one failure to encode our own root silences the rest of the join.
\<close>

section \<open>The retry ends\<close>

lemma backoff_capped: "backoff_ceiling n \<le> COLD_START_FETCH_BACKOFF_CAP_MS"
  by (simp add: backoff_ceiling_def)

text \<open>Timers sleep at most what they were asked for, and a failed attempt takes time, backoff included.\<close>

definition retry_laws :: "retry_env \<Rightarrow> bool" where
  "retry_laws env \<longleftrightarrow> (\<forall>n c. rt_sleep env n c \<le> c) \<and> (\<forall>n. 0 < rt_sleep env n (backoff_ceiling n) + rt_took env n)"

text \<open>How a retried fetch may end after \<open>n\<close> attempts, at the time \<open>t\<close>.\<close>

definition retry_ends :: "retry_env \<Rightarrow> nat \<Rightarrow> bytes option res \<Rightarrow> nat \<Rightarrow> nat \<Rightarrow> bool" where
  "retry_ends env deadline r t n \<longleftrightarrow>
     0 < n \<and> (\<forall>j < n - 1. \<exists>e. rt_outcome env j = Inl e) \<and>
     (case r of
        Inr answer \<Rightarrow> rt_outcome env (n - 1) = Inr answer \<or>
          answer = None \<and> \<not> rt_joined env t \<and> (\<exists>e. rt_outcome env (n - 1) = Inl e)
      | Inl e \<Rightarrow> rt_outcome env (n - 1) = Inl e \<and> (\<not> rt_joined env t \<or> deadline \<le> t)) \<and>
     t \<le> deadline + COLD_START_FETCH_BACKOFF_CAP_MS + rt_took env (n - 1)"

lemma retry_loop_returns:
  assumes "retry_laws env"
  shows "0 < attempt \<Longrightarrow> (\<forall>j < attempt - 1. \<exists>e. rt_outcome env j = Inl e) \<Longrightarrow> rt_outcome env (attempt - 1) = Inl lastError \<Longrightarrow>
    now \<le> deadline + COLD_START_FETCH_BACKOFF_CAP_MS + rt_took env (attempt - 1) \<Longrightarrow>
    \<exists>r t n. retry_loop env deadline attempt now lastError = Some (r, t, n) \<and> n \<le> attempt + (deadline - now) \<and>
      retry_ends env deadline r t n"
proof (induction "deadline - now" arbitrary: attempt now lastError rule: less_induct)
  case less
  define woken where "woken = now + rt_sleep env attempt (backoff_ceiling attempt)"
  note unfold = retry_loop.simps [of env deadline attempt now lastError] woken_def [symmetric]
  show ?case
  proof (cases "\<not> rt_joined env now \<or> deadline \<le> now")
    case True
    with less.prems show ?thesis by (subst unfold(1)) (auto simp: retry_ends_def)
  next
    case False
    have sleep: "rt_sleep env attempt (backoff_ceiling attempt) \<le> COLD_START_FETCH_BACKOFF_CAP_MS"
      using assms backoff_capped le_trans unfolding retry_laws_def by blast
    with False have woken: "woken \<le> deadline + COLD_START_FETCH_BACKOFF_CAP_MS" by (simp add: woken_def)
    have all: "\<exists>e. rt_outcome env j = Inl e" if "j < attempt" for j
      using that less.prems(2,3) by (cases "j = attempt - 1") auto
    consider "\<not> rt_joined env woken" | answer where "rt_joined env woken" "rt_outcome env attempt = Inr answer"
      | e where "rt_joined env woken" "rt_outcome env attempt = Inl e" by (cases "rt_outcome env attempt") auto
    then show ?thesis
    proof cases
      case 1
      with False less.prems woken show ?thesis by (subst unfold(1)) (auto simp: retry_ends_def unfold(2) Let_def)
    next
      case 2
      with False less.prems(1) woken all show ?thesis
        by (subst unfold(1)) (auto simp: retry_ends_def unfold(2) Let_def)
    next
      case 3
      let ?now = "woken + rt_took env attempt"
      have "0 < rt_sleep env attempt (backoff_ceiling attempt) + rt_took env attempt"
        using assms by (simp add: retry_laws_def)
      then have later: "now < ?now" by (simp add: woken_def)
      with False have "deadline - ?now < deadline - now" by (simp add: diff_less_mono2)
      from less.hyps [OF this, of "Suc attempt" e] 3(2) all woken obtain r t n
        where ih: "retry_loop env deadline (Suc attempt) ?now e = Some (r, t, n)"
          "n \<le> Suc attempt + (deadline - ?now)" "retry_ends env deadline r t n" by auto
      have "retry_loop env deadline attempt now lastError = retry_loop env deadline (Suc attempt) ?now e"
        using False less.prems(1) 3 by (subst unfold(1)) (simp add: unfold(2) Let_def)
      moreover have "n \<le> attempt + (deadline - now)" using ih(2) later False by linarith
      ultimately show ?thesis using ih(1,3) by auto
    qed
  qed
qed

text \<open>C10: A retried fetch returns. When a failed attempt takes at least a millisecond with its backoff and timers
  do not oversleep, the loop ends after at most 30001 attempts and within its 30 s deadline, one more
  backoff and one last attempt. What it returns is the first answer that did not fail, or, after only
  failures, the last error once the deadline has passed or the contest was left, or nothing when the
  contest was left during a backoff.\<close>

theorem fetch_retry_returns:
  assumes "retry_laws env"
  shows "\<exists>r t n. fetchRootWithRetry env now = Some (r, t, n) \<and> n \<le> Suc COLD_START_FETCH_DEADLINE_MS \<and>
    retry_ends env (now + COLD_START_FETCH_DEADLINE_MS) r t n"
proof (cases "rt_outcome env 0")
  case (Inr answer)
  then show ?thesis by (simp add: fetchRootWithRetry_def retry_loop.simps retry_ends_def)
next
  case (Inl e)
  from retry_loop_returns [OF assms, of 1 e "now + rt_took env 0" "now + COLD_START_FETCH_DEADLINE_MS"] Inl
  obtain r t n where r: "retry_loop env (now + COLD_START_FETCH_DEADLINE_MS) 1 (now + rt_took env 0) e = Some (r, t, n)"
    "n \<le> 1 + COLD_START_FETCH_DEADLINE_MS" "retry_ends env (now + COLD_START_FETCH_DEADLINE_MS) r t n" by auto
  have "fetchRootWithRetry env now = retry_loop env (now + COLD_START_FETCH_DEADLINE_MS) 1 (now + rt_took env 0) e"
    unfolding fetchRootWithRetry_def by (subst retry_loop.simps) (simp add: Inl)
  with r show ?thesis by auto
qed

definition sample_retry :: retry_env where
  "sample_retry = \<lparr>rt_outcome = (\<lambda>n. if n < 2 then Inl (PlainError ''reset'') else Inr (Some [7])), rt_took = (\<lambda>_. 3),
     rt_sleep = (\<lambda>n c. c div 2), rt_joined = (\<lambda>_. True)\<rparr>"

theorem fetch_retry_returns_witness:
  "\<exists>r t n. fetchRootWithRetry sample_retry 100 = Some (r, t, n) \<and> r = Inr (Some [7]) \<and> n \<le> 30001 \<and>
     fetchRootWithRetry sample_retry 100 = Some (Inr (Some [7]), 709, 3)"
proof -
  have run: "fetchRootWithRetry sample_retry 100 = Some (Inr (Some [7]), 709, 3)"
    by (simp add: fetchRootWithRetry_def retry_loop.simps sample_retry_def backoff_ceiling_def COLD_START_FETCH_DEADLINE_MS_def
        COLD_START_FETCH_BACKOFF_CAP_MS_def COLD_START_FETCH_BACKOFF_MS_def)
  have "retry_laws sample_retry" by (auto simp: retry_laws_def sample_retry_def)
  from fetch_retry_returns [OF this, of 100] run show ?thesis by (auto simp: COLD_START_FETCH_DEADLINE_MS_def)
qed

section \<open>A shuffle keeps the list\<close>

lemma mset_swap_at: "i < length xs \<Longrightarrow> j < length xs \<Longrightarrow> mset (swap_at i j xs) = mset xs"
  by (simp add: swap_at_def mset_swap)

lemma length_swap_at [simp]: "length (swap_at i j xs) = length xs"
  by (simp add: swap_at_def)

lemma mset_swaps:
  assumes "\<And>i. i \<in> set is \<Longrightarrow> i < length xs \<and> draw i \<le> i"
  shows "mset (fold (\<lambda>i out. swap_at i (draw i) out) is xs) = mset xs"
  using assms
proof (induction "is" arbitrary: xs)
  case (Cons i js)
  then have "i < length xs" "draw i \<le> i" by simp_all
  then have "mset (swap_at i (draw i) xs) = mset xs" by (simp add: mset_swap_at)
  with Cons.IH [of "swap_at i (draw i) xs"] Cons.prems show ?case by simp
qed simp

lemma mset_shuffled: "(\<And>i. draw i \<le> i) \<Longrightarrow> mset (shuffled draw xs) = mset xs"
  unfolding shuffled_def by (rule mset_swaps) auto

text \<open>Every arrangement of the items is drawn by some indices: nobody is left out by the shuffle itself.\<close>

lemma swaps_reach:
  fixes xs :: "'a list"
  assumes "k \<le> length xs" "mset (take k ys) = mset (take k xs)" "drop k ys = drop k xs"
  shows "\<exists>draw. (\<forall>i. draw i \<le> i) \<and> fold (\<lambda>i out. swap_at i (draw i) out) (rev [1..<k]) xs = ys"
  using assms
proof (induction k arbitrary: xs)
  case 0
  then show ?case by (intro exI [of _ id]) simp
next
  case (Suc m)
  have len: "length ys = length xs" using Suc.prems by (metis append_take_drop_id length_append mset_eq_length)
  show ?case
  proof (cases "m = 0")
    case True
    with Suc.prems(1,2) len have "take 1 ys = take 1 xs" by (cases xs; cases ys) auto
    with Suc.prems(3) True have "ys = xs" by (metis One_nat_def append_take_drop_id)
    with True show ?thesis by (intro exI [of _ id]) simp
  next
    case False
    have m: "m < length xs" "m < length ys" using Suc.prems(1) len by simp_all
    have "ys ! m \<in> set (take (Suc m) ys)" using m by (simp add: take_Suc_conv_app_nth)
    then have "ys ! m \<in> set (take (Suc m) xs)" using Suc.prems(2) by (metis mset_eq_setD)
    then obtain j where j: "j \<le> m" "xs ! j = ys ! m" using m by (auto simp: in_set_conv_nth less_Suc_eq_le)
    let ?xs = "swap_at m j xs"
    have at: "?xs ! m = ys ! m" using j m by (auto simp: swap_at_def nth_list_update)
    have drop: "drop (Suc m) ?xs = drop (Suc m) xs" using j by (simp add: swap_at_def)
    have "mset ?xs = mset xs" using j m by (intro mset_swap_at) simp_all
    then have "mset (take (Suc m) ?xs) + mset (drop (Suc m) xs) = mset (take (Suc m) xs) + mset (drop (Suc m) xs)"
      using drop by (metis append_take_drop_id mset_append)
    then have "mset (take (Suc m) ?xs) = mset (take (Suc m) ys)" using Suc.prems(2) by simp
    then have "mset (take m ys) = mset (take m ?xs)" using m at by (simp add: take_Suc_conv_app_nth)
    moreover have "drop m ys = drop m ?xs"
      using at drop Suc.prems(3) m by (simp add: Cons_nth_drop_Suc [symmetric])
    ultimately obtain draw where draw: "\<forall>i. draw i \<le> i" "fold (\<lambda>i out. swap_at i (draw i) out) (rev [1..<m]) ?xs = ys"
      using Suc.IH [of ?xs] m by auto
    let ?draw = "draw(m := j)"
    have "fold (\<lambda>i out. swap_at i (?draw i) out) (rev [1..<m]) zs = fold (\<lambda>i out. swap_at i (draw i) out) (rev [1..<m]) zs" for zs :: "'a list"
      by (rule fold_cong) auto
    with draw j False show ?thesis by (intro exI [of _ ?draw]) simp
  qed
qed

lemma shuffled_reach: "mset ys = mset xs \<Longrightarrow> \<exists>draw. (\<forall>i. draw i \<le> i) \<and> shuffled draw xs = ys"
proof -
  assume m: "mset ys = mset xs"
  then have "length ys = length xs" by (rule mset_eq_length)
  with m show ?thesis unfolding shuffled_def by (intro swaps_reach) simp_all
qed

section \<open>Who is asked\<close>

definition asks_once :: "peer option \<Rightarrow> cold \<Rightarrow> bool" where
  "asks_once self s \<longleftrightarrow> distinct (co_seen s) \<and> (\<forall>p. self = Some p \<longrightarrow> p \<notin> set (co_seen s)) \<and>
     distinct (co_asking s) \<and> set (co_asking s) \<subseteq> set (co_seen s) \<and>
     co_found s \<le> COLD_START_PEERS \<and> length (co_dialing s) \<le> co_found s"

lemma cold_pull_fields [simp]:
  "co_engine (cold_pull self p s) = co_engine s" "co_own (cold_pull self p s) = co_own s" "co_armed (cold_pull self p s) = co_armed s"
  "co_found (cold_pull self p s) = co_found s" "co_dialing (cold_pull self p s) = co_dialing s" "co_routing (cold_pull self p s) = co_routing s"
  by (simp_all add: cold_pull_def)

lemma asks_once_pull: "asks_once self s \<Longrightarrow> asks_once self (cold_pull self p s)"
  by (auto simp: asks_once_def cold_pull_def)

lemma asks_once_pulls: "asks_once self s \<Longrightarrow> asks_once self (fold (cold_pull self) ps s)"
  by (induction ps arbitrary: s) (simp_all add: asks_once_pull)

lemma asks_once_engine: "asks_once self (s\<lparr>co_engine := en\<rparr>) = asks_once self s" "asks_once self (s\<lparr>co_own := r\<rparr>) = asks_once self s"
  "asks_once self (s\<lparr>co_armed := b\<rparr>) = asks_once self s" "asks_once self (s\<lparr>co_routing := b\<rparr>) = asks_once self s"
  by (simp_all add: asks_once_def)

lemma asks_once_own: "asks_once self s \<Longrightarrow> asks_once self (fst (cold_own C now head put s))"
  by (simp add: cold_own_def asks_once_engine split: option.splits prod.splits)

lemma asks_once_answered:
  assumes "asks_once self s"
  shows "asks_once self (cold_answered C now head put connections p outcome s)"
proof -
  let ?s = "s\<lparr>co_asking := remove1 p (co_asking s)\<rparr>"
  have "asks_once self ?s" using assms set_remove1_subset [of p "co_asking s"] by (auto simp: asks_once_def)
  with asks_once_own [OF this, of C now head put] show ?thesis
    by (auto simp: cold_answered_def Let_def asks_once_engine split: sum.splits option.splits prod.splits)
qed

lemma asks_once_step: "cold_step C self s s' \<Longrightarrow> asks_once self s \<Longrightarrow> asks_once self s'"
proof (induction rule: cold_step.induct)
  case (provides s p has_addrs)
  then show ?case
    unfolding provider_found_def Let_def
    by (cases "COLD_START_PEERS \<le> co_found s"; cases has_addrs) (auto simp: asks_once_engine asks_once_def cold_pull_def)
next
  case (dialed p s)
  then have "length (remove1 p (co_dialing s)) \<le> co_found s" by (auto simp: asks_once_def length_remove1)
  with dialed show ?case unfolding provider_dialed_def by (intro asks_once_pull) (simp add: asks_once_def)
qed (simp_all add: asks_once_engine asks_once_answered subscription_change_def asks_once_pull)

lemma cold_pulls_all:
  assumes "distinct ps" "\<And>p. p \<in> set ps \<Longrightarrow> p \<notin> set (co_seen s)"
  shows "co_seen (fold (cold_pull self) ps s) = co_seen s @ filter (\<lambda>p. self \<noteq> Some p) ps \<and>
    co_asking (fold (cold_pull self) ps s) = co_asking s @ filter (\<lambda>p. self \<noteq> Some p) ps"
  using assms
proof (induction ps arbitrary: s)
  case (Cons p ps)
  show ?case
  proof (cases "self = Some p")
    case True
    then have "cold_pull self p s = s" by (simp add: cold_pull_def)
    with Cons.IH [of s] Cons.prems True show ?thesis by simp
  next
    case False
    with Cons.prems have "cold_pull self p s = s\<lparr>co_seen := co_seen s @ [p], co_asking := co_asking s @ [p]\<rparr>" by (simp add: cold_pull_def)
    with Cons.IH [of "cold_pull self p s"] Cons.prems False show ?thesis by auto
  qed
qed simp

text \<open>C30: A join asks every peer at most once and never itself. After the cold start exactly the first four of
  the shuffled subscribers are being asked, in that order, the node itself skipped should it be among
  them. The shuffle rearranges the subscribers, and any arrangement is that of some draws, so any four
  may be the ones asked. Whatever the router names and whoever subscribes later, no peer is asked twice
  in that join, and at most four providers are taken. (The index drawn for place \<open>i\<close> is at most \<open>i\<close>, and
  the subscribers the host lists are distinct.)\<close>

theorem cold_asks_once:
  assumes "\<And>i. draw i \<le> i" "distinct subscribers"
    and "(cold_step C self)\<^sup>*\<^sup>* (coldStart routed self draw subscribers en) s"
  shows "co_seen (coldStart routed self draw subscribers en) =
      filter (\<lambda>p. self \<noteq> Some p) (take COLD_START_PEERS (shuffled draw subscribers)) \<and>
    co_asking (coldStart routed self draw subscribers en) = co_seen (coldStart routed self draw subscribers en) \<and>
    mset (shuffled draw subscribers) = mset subscribers \<and>
    (\<forall>ps. mset ps = mset subscribers \<longrightarrow> (\<exists>draw'. (\<forall>i. draw' i \<le> i) \<and> shuffled draw' subscribers = ps)) \<and>
    distinct (co_seen s) \<and> (\<forall>p. self = Some p \<longrightarrow> p \<notin> set (co_seen s)) \<and>
    distinct (co_asking s) \<and> set (co_asking s) \<subseteq> set (co_seen s) \<and> co_found s \<le> COLD_START_PEERS"
proof -
  let ?ps = "take COLD_START_PEERS (shuffled draw subscribers)"
  have m: "mset (shuffled draw subscribers) = mset subscribers" using assms(1) by (rule mset_shuffled)
  then have "distinct (shuffled draw subscribers)" using assms(2) by (metis mset_eq_imp_distinct_iff)
  then have ps: "distinct ?ps" by simp
  note pulled = cold_pulls_all [OF ps, of "\<lparr>co_engine = en, co_seen = [], co_asking = [], co_own = None, co_armed = True,
      co_routing = routed, co_found = 0, co_dialing = []\<rparr>" self, simplified]
  have "asks_once self s"
    using assms(3)
  proof (induction rule: rtranclp_induct)
    case base
    show ?case unfolding coldStart_def by (rule asks_once_pulls) (simp add: asks_once_def)
  qed (rule asks_once_step)
  moreover from m have "\<forall>ps. mset ps = mset subscribers \<longrightarrow> (\<exists>draw'. (\<forall>i. draw' i \<le> i) \<and> shuffled draw' subscribers = ps)"
    using shuffled_reach by blast
  ultimately show ?thesis using m pulled by (simp add: asks_once_def coldStart_def)
qed

section \<open>A late subscriber\<close>

lemma chaser_record: "en_chaser (fst (rootRecord C now head put en)) = en_chaser en"
proof -
  have bucket: "en_chaser (fst (record_bucket C now head en)) = en_chaser en"
    by (simp add: record_bucket_def refreshBucket_def Let_def split: sum.splits)
  then have begun: "en_chaser (fst (record_begin C now head en)) = en_chaser en"
    by (auto simp: record_begin_def split: prod.splits sum.splits option.splits)
  have "en_chaser (fst (record_finish C put bucket winners en')) = en_chaser en'" for bucket winners en'
    by (simp add: record_finish_def split: prod.splits sum.splits)
  then show ?thesis using begun
    by (auto simp: rootRecord_def split: prod.splits sum.splits record_begun.splits)
qed

lemma chaser_changed: "en_chaser (onStateChanged en) = en_chaser en"
  by (simp add: onStateChanged_def kickTallyRefresh_def markStateChanged_def scheduleSnapshotWrite_def call_def Let_def)

lemma chaser_credited: "en_chaser (fst (fold (creditKey p) keys (en, added))) = en_chaser en"
proof (induction keys arbitrary: en added)
  case (Cons k keys)
  obtain en' added' where st: "creditKey p k (en, added) = (en', added')" by fastforce
  moreover have "en_chaser (fst (creditKey p k (en, added))) = en_chaser en"
    by (simp add: creditKey_def notify_def call_def Let_def split: option.splits)
  ultimately show ?case using Cons.IH [of en' added'] by simp
qed simp

lemma chaser_noted: "en_chaser (notePeerRoot p root en) = en_chaser en"
proof -
  have "en_chaser (attributeRoot p root e) = en_chaser e" for e
  proof (cases "jget (en_decodedRoots e) root")
    case (Some mine)
    obtain e' added where "creditPeer p mine e = (e', added)" by fastforce
    moreover from this chaser_credited [of p mine e False] have "en_chaser e' = en_chaser e" by (simp add: creditPeer_def)
    ultimately show ?thesis by (simp add: attributeRoot_def Some chaser_changed)
  qed (simp add: attributeRoot_def)
  then show ?thesis by (simp add: notePeerRoot_def)
qed

lemma add_connected_prefix: "prefix providers (add_connected connections wanted providers)"
proof (induction connections wanted providers rule: add_connected.induct)
  case (2 p connections wanted providers)
  then show ?case by (auto intro: prefix_order.trans [of _ "providers @ [p]"])
qed simp

lemma known_first: "\<exists>ps. sessionProvidersFor root (Some p) connections en = p # ps"
  using add_connected_prefix [of "[p]"] by (auto simp: sessionProvidersFor_def Let_def prefix_def)

text \<open>C29: A late subscriber is not missed. While the listener is armed, a peer that subscribes to the contest for
  the first time is asked at once; when its answer decodes to a root that is not ours, and ours could be
  encoded, that root is chased with the chunks it named, the peer first among the providers.\<close>

theorem late_subscriber_chased:
  assumes "co_armed s" "p \<notin> set (co_seen s)" "self \<noteq> Some p" "(eg_topic C, True) \<in> set subscriptions"
    and "decodeRootRecord (eg_lib C) answer = Inr record" "cold_own C now head put s = (s1, Inr own)"
    and "rr_root record \<noteq> rr_root own" "en_chaser (co_engine s)"
  shows "cold_step C self s (subscription_change self (eg_topic C) p subscriptions s) \<and>
    p \<in> set (co_asking (subscription_change self (eg_topic C) p subscriptions s)) \<and>
    (\<exists>ps. ChaseRoot (rr_root record) (Some (fr_chunks record)) (p # ps) \<in> set (en_calls (co_engine
       (cold_answered C now head put connections p (Inr (Some answer)) (subscription_change self (eg_topic C) p subscriptions s)))))"
proof -
  let ?s = "subscription_change self (eg_topic C) p subscriptions s"
  have asked: "?s = s\<lparr>co_seen := co_seen s @ [p], co_asking := co_asking s @ [p]\<rparr>"
    using assms(2-4) by (auto simp: subscription_change_def cold_pull_def list_ex_iff)
  let ?t = "?s\<lparr>co_asking := remove1 p (co_asking ?s)\<rparr>"
  obtain t where t: "cold_own C now head put ?t = (t, Inr own)" "en_chaser (co_engine t)"
    using assms(6,8) chaser_record [of C now head put "co_engine s"]
    by (auto simp: cold_own_def asked split: option.splits prod.splits)
  let ?en = "notePeerRoot p (rr_root record) (co_engine t)"
  have "cold_answered C now head put connections p (Inr (Some answer)) ?s =
      t\<lparr>co_engine := chase (rr_root record) (Some (fr_chunks record)) (Some p) connections ?en\<rparr>"
    using assms(5,7) t(1) by (simp add: cold_answered_def Let_def cold_compare_def)
  moreover have "\<exists>ps. sessionProvidersFor (rr_root record) (Some p) connections ?en = p # ps"
    by (rule known_first)
  ultimately have "\<exists>ps. ChaseRoot (rr_root record) (Some (fr_chunks record)) (p # ps) \<in>
      set (en_calls (co_engine (cold_answered C now head put connections p (Inr (Some answer)) ?s)))"
    using t(2) by (auto simp: chase_def chaser_noted call_def)
  moreover have "cold_step C self s ?s" using assms(1) by (rule appears)
  ultimately show ?thesis using asked by simp
qed

text \<open>C39: One failure silences the join. When encoding our own root has failed once, the failure is kept for the
  rest of that cold start: no later answer of any peer notes its root or chases it, whatever the engine
  could encode by then.\<close>

theorem cold_failure_sticks:
  assumes "co_own s = Some (Inl e)" "(cold_step C self)\<^sup>*\<^sup>* s s'"
  shows "co_own s' = Some (Inl e) \<and> co_engine (cold_answered C now head put connections p outcome s') = co_engine s'"
proof -
  have "co_own s' = Some (Inl e)" using assms(2,1)
  proof (induction rule: rtranclp_induct)
    case (step t t')
    from step(2) step(3) [OF step(4)] show ?case
      by (induction rule: cold_step.induct)
         (auto simp: subscription_change_def provider_found_def provider_dialed_def Let_def cold_answered_def cold_own_def
            split: sum.splits option.splits)
  qed
  then show ?thesis by (auto simp: cold_answered_def Let_def cold_own_def split: sum.splits option.splits)
qed

section \<open>Witnesses\<close>

definition sample_cold :: cold where
  "sample_cold = coldStart True (Some ''me'') (\<lambda>i. 0) [''a'', ''b'', ''c'', ''d'', ''e''] run_joined"

theorem cold_asks_once_witness:
  "co_seen sample_cold = [''b'', ''c'', ''d'', ''e''] \<and>
   (\<exists>draw. shuffled draw [''a'', ''b'', ''c'', ''d'', ''e''] = [''e'', ''d'', ''c'', ''b'', ''a'']) \<and>
   co_seen (provider_dialed (Some ''me'') ''a'' (provider_found (Some ''me'') ''a'' True sample_cold)) = [''b'', ''c'', ''d'', ''e'', ''a'']"
proof -
  have "distinct [''a'', ''b'', ''c'', ''d'', ''e'']" by simp
  note asked = cold_asks_once [of "\<lambda>i. 0", OF _ this, of sample_engine "Some ''me''" True run_joined sample_cold]
  have "shuffled (\<lambda>i. 0) [''a'', ''b'', ''c'', ''d'', ''e''] = [''b'', ''c'', ''d'', ''e'', ''a'']"
    by (simp add: shuffled_def swap_at_def upt_rec numeral_eq_Suc)
  then have "co_seen sample_cold = [''b'', ''c'', ''d'', ''e'']"
    using asked by (simp add: sample_cold_def COLD_START_PEERS_def)
  moreover have "mset [''e'', ''d'', ''c'', ''b'', ''a''] = mset [''a'', ''b'', ''c'', ''d'', ''e'']" by simp
  then have "\<exists>draw. shuffled draw [''a'', ''b'', ''c'', ''d'', ''e''] = [''e'', ''d'', ''c'', ''b'', ''a'']"
    using asked unfolding sample_cold_def by blast
  moreover have "co_found sample_cold = 0" "co_dialing sample_cold = []"
  proof -
    have "co_found (fold (cold_pull self) ps t) = co_found t \<and> co_dialing (fold (cold_pull self) ps t) = co_dialing t" for self ps t
      by (induction ps arbitrary: t) simp_all
    then show "co_found sample_cold = 0" "co_dialing sample_cold = []" by (simp_all add: sample_cold_def coldStart_def)
  qed
  ultimately show ?thesis
    by (auto simp: provider_dialed_def provider_found_def Let_def cold_pull_def COLD_START_PEERS_def)
qed

text \<open>The own root of a joined contest without votes.\<close>

lemma own_empty:
  "\<exists>en own. rootRecord sample_engine 5 (Inr 7) (\<lambda>_. Inr ()) run_joined = (en, Inr own) \<and> rr_root own \<noteq> [1, 2, 3]"
  "\<exists>en. rootRecord sample_engine 5 (Inr 7) (\<lambda>_. Inl e) run_joined = (en, Inl e)"
proof -
  define blk where "blk = checkpointRootBlock sample_lib []"
  have enc: "encodeCheckpoint sample_lib [] DEFAULT_MAX_CHUNK_BYTES = Inr \<lparr>ec_root = blk_cid blk, ec_chunks = [], ec_blocks = [blk]\<rparr>"
    by (simp add: encodeCheckpoint_def sort_winners_def blk_def Let_def)
  have "verified_winners sample_engine b en = []" if "en_crdt en = empty_crdt" for b en
    using that by (simp add: verified_winners_def currentEntries_def winnersByWallet_def empty_crdt_def)
  then have b: "record_begin sample_engine 5 (Inr 7) run_joined = (run_joined\<lparr>en_checkpointDirty := False\<rparr>, Inr (Encoding 0 []))"
    by (simp add: record_begin_def record_bucket_def nodeCount_def run_joined_fields run_joined_def join_started_def join_begin_def
        engine_start_def call_def empty_crdt_def)
  have "blk_cid blk = 113 # blk_bytes blk"
    by (simp add: blk_def checkpointRootBlock_def blockForBytes_def sample_lib_def dagCborCode_def)
  then have root: "blk_cid blk \<noteq> [1, 2, 3]" by simp
  show "\<exists>en own. rootRecord sample_engine 5 (Inr 7) (\<lambda>_. Inr ()) run_joined = (en, Inr own) \<and> rr_root own \<noteq> [1, 2, 3]"
    using root by (simp add: rootRecord_def b record_finish_def sample_engine_lib enc record_of_def)
  show "\<exists>en. rootRecord sample_engine 5 (Inr 7) (\<lambda>_. Inl e) run_joined = (en, Inl e)"
    by (simp add: rootRecord_def b record_finish_def sample_engine_lib enc)
qed

lemma sample_answer:
  "\<exists>answer. decodeRootRecord (eg_lib sample_engine) answer = Inr (fetch_root_record.truncate sample_record)"
  using sample_bulk decodeRootRecord_encode [OF sample_cbor_laws] unfolding sample_engine_lib by blast

lemma sample_cold_fields: "co_engine sample_cold = run_joined" "co_own sample_cold = None" "co_armed sample_cold"
  "co_seen sample_cold = [''b'', ''c'', ''d'', ''e'']" "co_asking sample_cold = [''b'', ''c'', ''d'', ''e'']"
  by (simp_all add: sample_cold_def coldStart_def shuffled_def swap_at_def cold_pull_def COLD_START_PEERS_def upt_rec numeral_eq_Suc)

theorem late_subscriber_chased_witness:
  "\<exists>(s :: cold) root chunks ps. ''z'' \<notin> set (co_seen sample_cold) \<and> ChaseRoot root (Some chunks) (''z'' # ps) \<in> set (en_calls (co_engine s))"
proof -
  obtain answer where a: "decodeRootRecord (eg_lib sample_engine) answer = Inr (fetch_root_record.truncate sample_record)"
    using sample_answer by blast
  obtain en own where own: "rootRecord sample_engine 5 (Inr 7) (\<lambda>_. Inr ()) run_joined = (en, Inr own)" "rr_root own \<noteq> [1, 2, 3]"
    using own_empty(1) by blast
  have c: "cold_own sample_engine 5 (Inr 7) (\<lambda>_. Inr ()) sample_cold = (sample_cold\<lparr>co_engine := en, co_own := Some (Inr own)\<rparr>, Inr own)"
    by (simp add: cold_own_def sample_cold_fields own(1))
  have "en_chaser (co_engine sample_cold)"
    by (simp add: sample_cold_fields run_joined_def join_started_def join_begin_def engine_start_def call_def)
  moreover have "rr_root (fetch_root_record.truncate sample_record) \<noteq> rr_root own"
    using own(2) by (simp add: sample_record_def fetch_root_record.truncate_def)
  ultimately have "\<exists>(s :: cold) root chunks ps. ChaseRoot root (Some chunks) (''z'' # ps) \<in> set (en_calls (co_engine s))"
    using late_subscriber_chased [OF sample_cold_fields(3) _ _ _ a c, of "''z''" None "[(eg_topic sample_engine, True)]"]
    unfolding sample_cold_fields(4) by (simp del: fetch_root_record.select_convs) blast
  then show ?thesis by (simp add: sample_cold_fields(4))
qed

theorem cold_failure_sticks_witness:
  "\<exists>(s :: cold) e. (cold_step sample_engine (Some ''me''))\<^sup>*\<^sup>* sample_cold s \<and> co_own s = Some (Inl e) \<and>
     co_engine (cold_answered sample_engine 5 (Inr 7) (\<lambda>_. Inr ()) [] ''c'' (Inr (Some [])) s) = co_engine s"
proof -
  obtain answer where a: "decodeRootRecord (eg_lib sample_engine) answer = Inr (fetch_root_record.truncate sample_record)"
    using sample_answer by blast
  let ?e = "PlainError ''disk full''"
  obtain en where en: "rootRecord sample_engine 5 (Inr 7) (\<lambda>_. Inl ?e) run_joined = (en, Inl ?e)" using own_empty(2) by blast
  define s where "s = cold_answered sample_engine 5 (Inr 7) (\<lambda>_. Inl ?e) [] ''b'' (Inr (Some answer)) sample_cold"
  have step: "cold_step sample_engine (Some ''me'') sample_cold s"
    unfolding s_def by (rule cold_step.answered) (simp add: sample_cold_fields)
  have own: "co_own s = Some (Inl ?e)"
    by (simp add: s_def cold_answered_def a cold_own_def sample_cold_fields en)
  have "(cold_step sample_engine (Some ''me''))\<^sup>*\<^sup>* s s" by simp
  from cold_failure_sticks [OF own this] own step show ?thesis by blast
qed

end
