(* ===== verification/Eligibility.thy ===== *)
theory Eligibility
  imports Engine Verify
begin

text \<open>
  The eligibility preview of \<open>src/client/voter.ts\<close> (\<open>checkEligibility\<close>, \<open>#toEligibilityNode\<close>): the gate run for
  one wallet at the current ballot block, put in the shape a user interface renders.
\<close>

section \<open>The public shape\<close>

record eligibility_check =
  el_leaf :: nat
  el_ruleId :: string
  el_type :: string
  el_satisfied :: "bool option"
  el_score :: int
  el_error :: "string option"

datatype eligibility_node =
    ElLeaf eligibility_check
  | ElBranch gate_kind "bool option" "eligibility_node list"

text \<open>A refusal's failures are looked up by leaf; \<open>None\<close> stands for a leaf that is not in the map.\<close>

datatype eligibility =
    Eligible int "eligibility_check list" eligibility_node
  | Ineligible string "eligibility_check option list" "eligibility_check list" eligibility_node

section \<open>Operations\<close>

text \<open>\<open>ids\<close> and \<open>refs\<close> are the rule ids and the rule references of the leaves, in document order.\<close>

fun toEligibilityNode ::
  "string list \<Rightarrow> rule_ref list \<Rightarrow> gate_result \<Rightarrow> (nat, eligibility_check) jsmap \<Rightarrow> eligibility_node \<times> (nat, eligibility_check) jsmap" and
  toEligibilityNodes ::
  "string list \<Rightarrow> rule_ref list \<Rightarrow> gate_result list \<Rightarrow> (nat, eligibility_check) jsmap \<Rightarrow> eligibility_node list \<times> (nat, eligibility_check) jsmap"
  where
  "toEligibilityNode ids refs (GRLeaf i sat score err penalize) checks =
     (let check = \<lparr>el_leaf = i, el_ruleId = ids ! i, el_type = ref_type (refs ! i), el_satisfied = sat, el_score = score, el_error = err\<rparr>
      in (ElLeaf check, jset i check checks))"
| "toEligibilityNode ids refs (GRBranch kind sat children) checks =
     (case toEligibilityNodes ids refs children checks of (nodes, checks') \<Rightarrow> (ElBranch kind sat nodes, checks'))"
| "toEligibilityNodes ids refs [] checks = ([], checks)"
| "toEligibilityNodes ids refs (r # rs) checks =
     (case toEligibilityNode ids refs r checks of
        (node, checks') \<Rightarrow> (case toEligibilityNodes ids refs rs checks' of (nodes, checks'') \<Rightarrow> (node # nodes, checks'')))"

definition eligibility_of :: "string list \<Rightarrow> rule_ref list \<Rightarrow> gate_result \<Rightarrow> eligibility" where
  "eligibility_of ids refs gate =
     (case toEligibilityNode ids refs gate [] of
        (node, checks) \<Rightarrow>
          let ordered = map snd (sort_by (\<lambda>(a, _) (b, _). a \<le> b) checks) in
          if gr_sat gate = Some True then Eligible (gateScore gate) ordered node
          else Ineligible (gateReason gate) (map (\<lambda>l. jget checks (gr_leaf l)) (gateBlame gate)) ordered node)"

definition checkEligibility ::
  "'y engine_config \<Rightarrow> ('x, 's) verifier \<Rightarrow> string list \<Rightarrow> nat \<Rightarrow> nat res \<Rightarrow> string \<Rightarrow> engine \<Rightarrow> engine \<times> eligibility res" where
  "checkEligibility C V ids now head address en =
     (case nowBucket C now head en of
        (en', bucket) \<Rightarrow>
          (en', sbind bucket (\<lambda>b.
             sbind (checkGates V \<lparr>rw_address = address, rw_sampleBlock = sampleBlockForBucket (eg_bucketMath C) b\<rparr>) (\<lambda>gate.
               Inr (eligibility_of ids (gateLeaves (c_gate (vf_criteria V))) gate)))))"

section \<open>The checks are the leaves\<close>

fun gr_leaves :: "gate_result \<Rightarrow> nat list" where
  "gr_leaves (GRLeaf i s sc e p) = [i]"
| "gr_leaves (GRBranch k s cs) = concat (map gr_leaves cs)"

fun el_leaves :: "eligibility_node \<Rightarrow> nat list" where
  "el_leaves (ElLeaf c) = [el_leaf c]"
| "el_leaves (ElBranch k s cs) = concat (map el_leaves cs)"

text \<open>What the map holds for a leaf of the result.\<close>

definition check_of :: "string list \<Rightarrow> rule_ref list \<Rightarrow> gate_result \<Rightarrow> eligibility_check" where
  "check_of ids refs l =
     \<lparr>el_leaf = gr_leaf l, el_ruleId = ids ! gr_leaf l, el_type = ref_type (refs ! gr_leaf l), el_satisfied = gr_sat l,
      el_score = gateScore l, el_error = leaf_error l\<rparr>"

fun result_leaves :: "gate_result \<Rightarrow> gate_result list" where
  "result_leaves (GRLeaf i s sc e p) = [GRLeaf i s sc e p]"
| "result_leaves (GRBranch k s cs) = concat (map result_leaves cs)"

lemma result_leaves_ids: "map gr_leaf (result_leaves r) = gr_leaves r"
  by (induction r) (auto simp: map_concat comp_def cong: map_cong)

text \<open>With leaves that are all different and not yet in the map, the entries are appended in order.\<close>

lemma nodes_collect:
  "distinct (gr_leaves r) \<Longrightarrow> (\<forall>i \<in> set (gr_leaves r). jget checks i = None) \<Longrightarrow>
   snd (toEligibilityNode ids refs r checks) = checks @ map (\<lambda>l. (gr_leaf l, check_of ids refs l)) (result_leaves r) \<and>
   el_leaves (fst (toEligibilityNode ids refs r checks)) = gr_leaves r"
  "distinct (concat (map gr_leaves rs)) \<Longrightarrow> (\<forall>i \<in> set (concat (map gr_leaves rs)). jget checks i = None) \<Longrightarrow>
   snd (toEligibilityNodes ids refs rs checks) = checks @ map (\<lambda>l. (gr_leaf l, check_of ids refs l)) (concat (map result_leaves rs)) \<and>
   concat (map el_leaves (fst (toEligibilityNodes ids refs rs checks))) = concat (map gr_leaves rs)"
proof (induction ids refs r checks and ids refs rs checks rule: toEligibilityNode_toEligibilityNodes.induct)
  case (1 ids refs i sat score err penalize checks)
  then show ?case by (simp add: Let_def jset_new map_of_eq_None_iff check_of_def leaf_error_def)
next
  case (2 ids refs kind sat children checks)
  then show ?case by (simp add: split_beta)
next
  case (3 ids refs checks)
  then show ?case by simp
next
  case (4 ids refs r rs checks)
  obtain node checks' where one: "toEligibilityNode ids refs r checks = (node, checks')" by fastforce
  have ih: "checks' = checks @ map (\<lambda>l. (gr_leaf l, check_of ids refs l)) (result_leaves r)" "el_leaves node = gr_leaves r"
    using "4.IH"(1) "4.prems" one by auto
  have "fst ` set (map (\<lambda>l. (gr_leaf l, check_of ids refs l)) (result_leaves r)) = set (gr_leaves r)"
    unfolding result_leaves_ids [symmetric] by force
  then have new: "\<forall>i \<in> set (concat (map gr_leaves rs)). jget checks' i = None"
    using "4.prems" unfolding ih(1) map_of_eq_None_iff by (auto simp: map_of_eq_None_iff image_Un)
  have "distinct (concat (map gr_leaves rs))" using "4.prems"(1) by simp
  from "4.IH"(2) [OF one [symmetric] this new] one ih show ?case by (auto split: prod.splits)
qed

lemma run_leaves: "run_gate ev True t g = Inr (r, es) \<Longrightarrow> gr_leaves r = ix_leaves g"
proof (induction g arbitrary: r es)
  case (IxLeaf i)
  then show ?case by (auto simp: leaf_result_def UNEVALUATED_def split: sum.splits option.splits if_splits prod.splits)
next
  case (IxBranch k cs)
  from IxBranch.prems obtain rs where rs: "run_all ev True t cs = Inr (rs, es)" "r = GRBranch k (foldSatisfied k rs) rs"
    by (auto simp: sbind_Inr_iff split: prod.splits)
  have "list_all2 (\<lambda>r c. gr_leaves r = ix_leaves c) rs cs"
    by (rule run_all_sound [OF rs(1)]) (use IxBranch.IH in blast)
  then have "map gr_leaves rs = map ix_leaves cs" by (induction rule: list_all2_induct) auto
  with rs(2) show ?case by simp
qed

section \<open>Score and blame\<close>

lemma run_positive: "run_gate ev True t g = Inr (r, es) \<Longrightarrow> ix_ok g \<Longrightarrow>
    (gr_sat r = Some True \<longrightarrow> 0 < gateScore r) \<and> (gr_sat r = Some False \<longrightarrow> gateBlame r \<noteq> [])"
proof (induction g arbitrary: r es)
  case (IxLeaf i)
  then show ?case
    by (auto simp: leaf_result_def UNEVALUATED_def gateFailure_None_iff split: sum.splits option.splits if_splits prod.splits)
next
  case (IxBranch k cs)
  from IxBranch.prems obtain rs where rs: "run_all ev True t cs = Inr (rs, es)" "r = GRBranch k (foldSatisfied k rs) rs"
    by (auto simp: sbind_Inr_iff split: prod.splits)
  let ?P = "\<lambda>r. (gr_sat r = Some True \<longrightarrow> 0 < gateScore r) \<and> (gr_sat r = Some False \<longrightarrow> gateBlame r \<noteq> [])"
  have ok: "list_all2 (\<lambda>r c. ?P r) rs cs"
    by (rule run_all_sound [OF rs(1)]) (use IxBranch.IH IxBranch.prems(2) in \<open>auto\<close>)
  then have each: "?P c" if "c \<in> set rs" for c using that by (auto simp: list_all2_conv_all_nth in_set_conv_nth)
  have "cs \<noteq> []" using IxBranch.prems(2) by simp
  with ok have ne: "rs \<noteq> []" by auto
  have "0 < gateScore r" if "gr_sat r = Some True"
  proof -
    have "\<exists>c \<in> set rs. isSatisfied c"
    proof -
      have "foldSatisfied k rs = Some True" using that rs(2) by simp
      then show ?thesis using ne
        by (cases rule: foldSatisfied_SomeE; cases k) (auto simp: isSatisfied_def decidesAt_def list_ex_iff list_all_iff neq_Nil_conv)
    qed
    then show ?thesis unfolding rs(2) using each by (intro gateScore_branch_pos) (auto simp: isSatisfied_def)
  qed
  moreover have "gateBlame r \<noteq> []" if "gr_sat r = Some False"
  proof -
    have "foldSatisfied k rs = Some False" using that rs(2) by simp
    then have "\<exists>c \<in> set rs. gr_sat c = Some False" using ne
      by (cases rule: foldSatisfied_SomeE; cases k) (auto simp: decidesAt_def list_ex_iff list_all_iff neq_Nil_conv)
    then show ?thesis using each that rs(2) by auto
  qed
  ultimately show ?case by blast
qed

lemma blame_result_leaves: "l \<in> set (gateBlame r) \<Longrightarrow> l \<in> set (result_leaves r) \<and> gr_sat l = Some False"
  by (induction r) (auto split: if_splits)

end
