(* ===== verification/Eligibility_Properties.thy ===== *)
theory Eligibility_Properties
  imports Eligibility Rule_Properties Engine_Sample
begin

text \<open>
  What the eligibility preview promises: every rule is listed once in document order, the answer is the
  gate's, an eligible wallet has a positive score, and a refusal names rules that were read and failed.
\<close>

lemma sorted_sort_by_id:
  "sorted (map fst xs) \<Longrightarrow> sort_by (\<lambda>(a, _) (b, _). a \<le> (b :: nat)) xs = xs"
proof (induction xs)
  case (Cons x xs)
  then have "sort_by (\<lambda>(a, _) (b, _). a \<le> b) xs = xs" by simp
  with Cons.prems show ?case by (cases xs) (auto split: prod.splits)
qed simp

lemma eligibility_checks:
  assumes "gr_leaves gate = [0..<n]"
  shows "toEligibilityNode ids refs gate [] = (fst (toEligibilityNode ids refs gate []),
      map (\<lambda>l. (gr_leaf l, check_of ids refs l)) (result_leaves gate))"
    "sort_by (\<lambda>(a, _) (b, _). a \<le> b) (map (\<lambda>l. (gr_leaf l, check_of ids refs l)) (result_leaves gate)) =
      map (\<lambda>l. (gr_leaf l, check_of ids refs l)) (result_leaves gate)"
    "map gr_leaf (result_leaves gate) = [0..<n]"
proof -
  show leaves: "map gr_leaf (result_leaves gate) = [0..<n]" by (simp add: result_leaves_ids assms)
  show "toEligibilityNode ids refs gate [] = (fst (toEligibilityNode ids refs gate []),
      map (\<lambda>l. (gr_leaf l, check_of ids refs l)) (result_leaves gate))"
    using nodes_collect(1) [of gate "[]" ids refs] by (simp add: assms prod_eq_iff)
  have "map fst (map (\<lambda>l. (gr_leaf l, check_of ids refs l)) (result_leaves gate)) = [0..<n]"
    using leaves by (simp add: comp_def)
  then show "sort_by (\<lambda>(a, _) (b, _). a \<le> b) (map (\<lambda>l. (gr_leaf l, check_of ids refs l)) (result_leaves gate)) =
      map (\<lambda>l. (gr_leaf l, check_of ids refs l)) (result_leaves gate)"
    by (intro sorted_sort_by_id) (simp del: map_map)
qed

lemma jget_leaf:
  "distinct (map gr_leaf ls) \<Longrightarrow> l \<in> set ls \<Longrightarrow> jget (map (\<lambda>l. (gr_leaf l, f l)) ls) (gr_leaf l) = Some (f l)"
  by (induction ls) (auto simp: image_iff)

definition checks_of :: "eligibility \<Rightarrow> eligibility_check list" where
  "checks_of r = (case r of Eligible score checks node \<Rightarrow> checks | Ineligible err failures checks node \<Rightarrow> checks)"

text \<open>C32: The preview tells what the gate decides. It lists every rule of the gate once, in document order, under
  its own id and type. It says eligible, with a positive score, exactly when the gate holds however the
  rules it could not read would have answered, and otherwise names at least one failure, each of them a
  listed rule that was read and refused the wallet.\<close>

theorem eligibility_preview:
  assumes "checkEligibility C V ids now head address en = (en', Inr r)" "branches_ok (c_gate (vf_criteria V))"
    and "completes (leaf_answer V \<lparr>rw_address = address, rw_sampleBlock = sampleBlockForBucket (eg_bucketMath C) b\<rparr>) p"
    and "nowBucket C now head en = (en', Inr b)"
  shows "map el_leaf (checks_of r) = [0..<length (gateLeaves (c_gate (vf_criteria V)))] \<and>
    (\<forall>c \<in> set (checks_of r). el_ruleId c = ids ! el_leaf c \<and> el_type c = ref_type (gateLeaves (c_gate (vf_criteria V)) ! el_leaf c)) \<and>
    (case r of
       Eligible score checks node \<Rightarrow> gate_sat p (gate_of V) \<and> 0 < score \<and> el_leaves node = map el_leaf checks
     | Ineligible err failures checks node \<Rightarrow> \<not> gate_sat p (gate_of V) \<and> el_leaves node = map el_leaf checks \<and> failures \<noteq> [] \<and>
         (\<forall>f \<in> set failures. \<exists>c \<in> set checks. f = Some c \<and> el_satisfied c = Some False))"
proof -
  let ?g = "c_gate (vf_criteria V)" and ?w = "\<lparr>rw_address = address, rw_sampleBlock = sampleBlockForBucket (eg_bucketMath C) b\<rparr>"
  let ?refs = "gateLeaves ?g"
  from assms(1,4) obtain gate where gate: "checkGates V ?w = Inr gate" "r = eligibility_of ids ?refs gate"
    by (auto simp: checkEligibility_def res_simps)
  from gate(1) obtain es where run: "run_gate (leaf_answer V ?w) True True (gate_of V) = Inr (gate, es)" "gr_sat gate \<noteq> None"
    by (auto simp: checkGates_def sbind_Inr_iff evaluateGate_def split: if_splits)
  have sat: "gr_sat gate = Some (gate_sat p (gate_of V))" by (rule checkGates_sound [OF gate(1) assms(3)])
  have "ix_ok (gate_of V)" using branches_ok_ix_ok(1) [OF assms(2)] .
  note pos = run_positive [OF run(1) this]
  have leaves: "gr_leaves gate = [0..<length ?refs]" using run_leaves [OF run(1)] indexGate_leaves(1) [of ?g 0] by simp
  note ec = eligibility_checks(1,2) [OF leaves, of ids ?refs] eligibility_checks(3) [OF leaves]
  let ?checks = "map (check_of ids ?refs) (result_leaves gate)"
  have listed: "map el_leaf ?checks = [0..<length ?refs]" using ec(3) by (simp add: check_of_def comp_def)
  have nodes: "el_leaves (fst (toEligibilityNode ids ?refs gate [])) = map el_leaf ?checks"
    using nodes_collect(1) [of gate "[]" ids ?refs] leaves listed by simp
  have r: "r = (if gr_sat gate = Some True then Eligible (gateScore gate) ?checks (fst (toEligibilityNode ids ?refs gate []))
      else Ineligible (gateReason gate)
        (map (\<lambda>l. jget (map (\<lambda>l. (gr_leaf l, check_of ids ?refs l)) (result_leaves gate)) (gr_leaf l)) (gateBlame gate))
        ?checks (fst (toEligibilityNode ids ?refs gate [])))"
    unfolding gate(2) eligibility_of_def by (subst ec(1)) (simp add: ec(2) Let_def comp_def)
  have each: "el_ruleId c = ids ! el_leaf c \<and> el_type c = ref_type (?refs ! el_leaf c)" if "c \<in> set ?checks" for c
    using that by (auto simp: check_of_def)
  show ?thesis
  proof (cases "gate_sat p (gate_of V)")
    case True
    with r sat pos listed nodes each show ?thesis by (simp add: checks_of_def)
  next
    case False
    then have no: "gr_sat gate = Some False" using sat by simp
    have fail: "jget (map (\<lambda>l. (gr_leaf l, check_of ids ?refs l)) (result_leaves gate)) (gr_leaf l) = Some (check_of ids ?refs l) \<and>
        check_of ids ?refs l \<in> set ?checks \<and> el_satisfied (check_of ids ?refs l) = Some False" if "l \<in> set (gateBlame gate)" for l
    proof -
      have l: "l \<in> set (result_leaves gate)" "gr_sat l = Some False" using blame_result_leaves [OF that] by blast+
      have "distinct (map gr_leaf (result_leaves gate))" unfolding ec(3) by simp
      note entry = jget_leaf [OF this l(1), of "check_of ids ?refs"]
      have "check_of ids ?refs l \<in> set ?checks" using l(1) by simp
      moreover have "el_satisfied (check_of ids ?refs l) = Some False" using l(2) by (simp add: check_of_def)
      ultimately show ?thesis using entry by blast
    qed
    have blame: "gateBlame gate \<noteq> []" using pos no by simp
    let ?failures = "map (\<lambda>l. jget (map (\<lambda>l. (gr_leaf l, check_of ids ?refs l)) (result_leaves gate)) (gr_leaf l)) (gateBlame gate)"
    have "\<forall>f \<in> set ?failures. \<exists>c \<in> set ?checks. f = Some c \<and> el_satisfied c = Some False"
    proof
      fix f assume "f \<in> set ?failures"
      then obtain l where l: "l \<in> set (gateBlame gate)"
        "f = jget (map (\<lambda>l. (gr_leaf l, check_of ids ?refs l)) (result_leaves gate)) (gr_leaf l)" by (auto simp del: map_map)
      with fail [OF l(1)] show "\<exists>c \<in> set ?checks. f = Some c \<and> el_satisfied c = Some False" by blast
    qed
    moreover have "?failures \<noteq> []" using blame by (simp del: map_map)
    moreover have "r = Ineligible (gateReason gate) ?failures ?checks (fst (toEligibilityNode ids ?refs gate []))" using r no by simp
    moreover have "checks_of r = ?checks" unfolding \<open>r = Ineligible _ _ _ _\<close> by (simp add: checks_of_def)
    ultimately show ?thesis using listed nodes each False by (simp only: eligibility.case) blast
  qed
qed

text \<open>A gate of two constant rules, the second worth nothing.\<close>

definition picky_verifier :: "(unit, ipld mem_lru) verifier" where
  "picky_verifier = (sample_verifier [])
     \<lparr>vf_criteria := sample_criteria\<lparr>c_gate := GAll [GLeaf (RuleRef ''constant'' []), GLeaf (RuleRef ''zero'' [])]\<rparr>,
      vf_leaves := [\<lparr>rl_ref = RuleRef ''constant'' [], rl_rule = constant_rule, rl_options = ConstantOptions 1, rl_ctx = (), rl_key = []\<rparr>,
        \<lparr>rl_ref = RuleRef ''zero'' [], rl_rule = constant_rule, rl_options = ConstantOptions 0, rl_ctx = (), rl_key = ''z''\<rparr>]\<rparr>"

theorem eligibility_preview_witness:
  "\<exists>en' err failures checks node. checkEligibility sample_engine picky_verifier [''i'', ''j''] 5 (Inr 7) ''x'' run_joined =
      (en', Inr (Ineligible err failures checks node)) \<and> map el_leaf checks = [0, 1] \<and> failures \<noteq> [] \<and>
      map (map_option el_leaf) failures = [Some 1]"
proof -
  let ?V = picky_verifier and ?w = "\<lparr>rw_address = ''x'', rw_sampleBlock = sampleBlockForBucket (eg_bucketMath sample_engine) 0\<rparr>"
  have ev: "leaf_answer ?V ?w 0 = Inr (RSuccess 1)" "leaf_answer ?V ?w (Suc 0) = Inr (RSuccess 0)"
    by (simp_all add: leaf_answer_def picky_verifier_def sample_verifier_def constant_rule_def constant_evaluate_def)
  obtain en' where now: "nowBucket sample_engine 5 (Inr 7) run_joined = (en', Inr 0)"
  proof
    show "nowBucket sample_engine 5 (Inr 7) run_joined = (run_joined\<lparr>en_currentBucket := 0, en_headReadMs := 5\<rparr>, Inr 0)"
      by (simp add: nowBucket_def refreshBucket_def sample_engine_def bucket_of_def run_joined_def join_started_def join_begin_def
          engine_start_def call_def)
  qed
  have g: "c_gate (vf_criteria ?V) = GAll [GLeaf (RuleRef ''constant'' []), GLeaf (RuleRef ''zero'' [])]" by (simp add: picky_verifier_def)
  have gate: "checkGates ?V ?w = Inr (GRBranch KAll (Some False) [leaf_result 0 (RSuccess 1), leaf_result 1 (RSuccess 0)])"
    using ev by (simp add: checkGates_def g evaluateGate_def leaf_result_def gateFailure_def foldSatisfied_def decidesAt_def)
  obtain err failures checks node
    where run: "checkEligibility sample_engine ?V [''i'', ''j''] 5 (Inr 7) ''x'' run_joined = (en', Inr (Ineligible err failures checks node))"
      "map (map_option el_leaf) failures = [Some 1]"
    by (simp add: checkEligibility_def now gate eligibility_of_def leaf_result_def gateFailure_def g Let_def)
  from eligibility_preview [OF run(1) _ completes_answered now] run show ?thesis
    by (auto simp: g checks_of_def)
qed

end
