(* ===== verification/Head_Reader.thy ===== *)
theory Head_Reader
  imports Tables Errors
begin

text \<open>
  The head reader of \<open>src/client/voter.ts\<close> (\<open>makeHeadReader\<close>): concurrent reads of one chain's head share a
  single call, and a caller that tolerates a bounded age may get the last settled sample. The lemmas
  say that every caller is told once, and never a head older than it accepts.
\<close>

section \<open>State\<close>

text \<open>Callers are numbered as they ask; \<open>ha_maxAge\<close> is \<open>opts.maxAgeMs\<close>. A chain stands for its client instance.\<close>

record head_asker =
  ha_id :: nat
  ha_at :: nat
  ha_maxAge :: "nat option"

record head_told =
  ht_asker :: head_asker
  ht_chain :: nat
  ht_head :: "nat res"

record head_reader =
  hr_now :: nat
  hr_inFlight :: "(nat, head_asker list) jsmap"
  hr_lastSettled :: "(nat, nat \<times> nat) jsmap"
  hr_told :: "head_told list"
  hr_reads :: "nat list"
  hr_asked :: nat

definition makeHeadReader :: "nat \<Rightarrow> head_reader" where
  "makeHeadReader now =
     \<lparr>hr_now = now, hr_inFlight = [], hr_lastSettled = [], hr_told = [], hr_reads = [], hr_asked = 0\<rparr>"

section \<open>Operations\<close>

definition head_tell :: "nat \<Rightarrow> nat res \<Rightarrow> head_asker \<Rightarrow> head_reader \<Rightarrow> head_reader" where
  "head_tell chain head a s = s\<lparr>hr_told := hr_told s @ [\<lparr>ht_asker = a, ht_chain = chain, ht_head = head\<rparr>]\<rparr>"

definition head_share :: "nat \<Rightarrow> head_asker \<Rightarrow> head_reader \<Rightarrow> head_reader" where
  "head_share chain a s =
     (case jget (hr_inFlight s) chain of
        Some askers \<Rightarrow> s\<lparr>hr_inFlight := jset chain (askers @ [a]) (hr_inFlight s)\<rparr>
      | None \<Rightarrow> s\<lparr>hr_inFlight := jset chain [a] (hr_inFlight s), hr_reads := hr_reads s @ [chain]\<rparr>)"

definition readHead :: "nat \<Rightarrow> nat option \<Rightarrow> head_reader \<Rightarrow> head_reader" where
  "readHead chain maxAge s0 =
     (let a = \<lparr>ha_id = hr_asked s0, ha_at = hr_now s0, ha_maxAge = maxAge\<rparr>; s = s0\<lparr>hr_asked := Suc (hr_asked s0)\<rparr> in
      case (maxAge, jget (hr_lastSettled s) chain) of
        (Some age, Some (head, at_ms)) \<Rightarrow>
          if hr_now s - at_ms \<le> age then head_tell chain (Inr head) a s else head_share chain a s
      | _ \<Rightarrow> head_share chain a s)"

text \<open>The read in flight ends.\<close>

definition head_settles :: "nat \<Rightarrow> head_asker list \<Rightarrow> nat res \<Rightarrow> head_reader \<Rightarrow> head_reader" where
  "head_settles chain askers outcome s =
     fold (head_tell chain outcome) askers
       (s\<lparr>hr_inFlight := jdel chain (hr_inFlight s),
          hr_lastSettled := (case outcome of Inr head \<Rightarrow> jset chain (head, hr_now s) (hr_lastSettled s) | Inl _ \<Rightarrow> hr_lastSettled s)\<rparr>)"

text \<open>\<open>said chain t outcome\<close>: the chain's client settled a read so at the time \<open>t\<close>. The clock does not go back.\<close>

inductive head_step :: "(nat \<Rightarrow> nat \<Rightarrow> nat res \<Rightarrow> bool) \<Rightarrow> head_reader \<Rightarrow> head_reader \<Rightarrow> bool" for said where
  ticks: "head_step said s (s\<lparr>hr_now := hr_now s + d\<rparr>)"
| asks: "head_step said s (readHead chain maxAge s)"
| settles: "jget (hr_inFlight s) chain = Some askers \<Longrightarrow> said chain (hr_now s) outcome \<Longrightarrow>
    head_step said s (head_settles chain askers outcome s)"

section \<open>Everyone is told once\<close>

definition asker_ids :: "head_asker list \<Rightarrow> nat multiset" where
  "asker_ids as = mset (map ha_id as)"

definition told_ids :: "head_reader \<Rightarrow> nat multiset" where
  "told_ids s = asker_ids (map ht_asker (hr_told s))"

definition heads_accounted :: "head_reader \<Rightarrow> bool" where
  "heads_accounted s \<longleftrightarrow> jwf (hr_inFlight s) \<and> over_values asker_ids (hr_inFlight s) + told_ids s = mset [0..<hr_asked s]"

lemma tells_fields:
  "hr_inFlight (fold (head_tell c r) as s) = hr_inFlight s" "hr_asked (fold (head_tell c r) as s) = hr_asked s"
  "hr_now (fold (head_tell c r) as s) = hr_now s" "hr_lastSettled (fold (head_tell c r) as s) = hr_lastSettled s"
  "hr_reads (fold (head_tell c r) as s) = hr_reads s"
  "hr_told (fold (head_tell c r) as s) = hr_told s @ map (\<lambda>a. \<lparr>ht_asker = a, ht_chain = c, ht_head = r\<rparr>) as"
  by (induction as arbitrary: s) (simp_all add: head_tell_def)

lemma share_accounted:
  assumes "jwf (hr_inFlight s)"
  shows "jwf (hr_inFlight (head_share c a s))"
    "over_values asker_ids (hr_inFlight (head_share c a s)) = over_values asker_ids (hr_inFlight s) + {#ha_id a#}"
    "told_ids (head_share c a s) = told_ids s" "hr_asked (head_share c a s) = hr_asked s"
    "hr_told (head_share c a s) = hr_told s" "hr_now (head_share c a s) = hr_now s" "hr_lastSettled (head_share c a s) = hr_lastSettled s"
  using assms
  by (auto simp: head_share_def told_ids_def jwf_jset over_jset over_jdel [of _ c] over_new asker_ids_def split: option.splits)

lemma heads_accounted_step: "head_step said s s' \<Longrightarrow> heads_accounted s \<Longrightarrow> heads_accounted s'"
proof (induction rule: head_step.induct)
  case (ticks s d)
  then show ?case by (simp add: heads_accounted_def told_ids_def)
next
  case (asks s chain maxAge)
  let ?s = "s\<lparr>hr_asked := Suc (hr_asked s)\<rparr>" and ?a = "\<lparr>ha_id = hr_asked s, ha_at = hr_now s, ha_maxAge = maxAge\<rparr>"
  have wf: "jwf (hr_inFlight ?s)" and sum: "over_values asker_ids (hr_inFlight s) + told_ids s = mset [0..<hr_asked s]"
    using asks by (simp_all add: heads_accounted_def)
  have "told_ids ?s = told_ids s" "told_ids (head_tell chain r ?a ?s) = told_ids s + {#hr_asked s#}" for r
    by (simp_all add: told_ids_def head_tell_def asker_ids_def)
  then have "heads_accounted (head_share chain ?a ?s)" "heads_accounted (head_tell chain r ?a ?s)" for r
    using share_accounted [OF wf, of chain ?a] wf sum by (simp_all add: heads_accounted_def head_tell_def add_ac)
  then show ?case by (auto simp: readHead_def Let_def split: option.splits)
next
  case (settles s chain askers outcome)
  then have wf: "jwf (hr_inFlight s)" by (simp add: heads_accounted_def)
  have "told_ids (head_settles chain askers outcome s) = told_ids s + asker_ids askers"
    by (simp add: head_settles_def told_ids_def tells_fields asker_ids_def comp_def)
  with settles over_jdel [OF wf settles(1), of asker_ids] jwf_jdel [OF wf] show ?case
    by (simp add: heads_accounted_def head_settles_def tells_fields add_ac)
qed

section \<open>Nobody is told a stale head\<close>

definition age_of :: "head_asker \<Rightarrow> nat" where
  "age_of a = (case ha_maxAge a of None \<Rightarrow> 0 | Some age \<Rightarrow> age)"

definition head_ok :: "(nat \<Rightarrow> nat \<Rightarrow> nat res \<Rightarrow> bool) \<Rightarrow> head_told \<Rightarrow> bool" where
  "head_ok said d \<longleftrightarrow> (\<exists>t. said (ht_chain d) t (ht_head d) \<and> ha_at (ht_asker d) \<le> t + age_of (ht_asker d))"

definition heads_fresh :: "(nat \<Rightarrow> nat \<Rightarrow> nat res \<Rightarrow> bool) \<Rightarrow> head_reader \<Rightarrow> bool" where
  "heads_fresh said s \<longleftrightarrow> (\<forall>d \<in> set (hr_told s). head_ok said d) \<and>
     (\<forall>c as. jget (hr_inFlight s) c = Some as \<longrightarrow> (\<forall>a \<in> set as. ha_at a \<le> hr_now s)) \<and>
     (\<forall>c h t. jget (hr_lastSettled s) c = Some (h, t) \<longrightarrow> said c t (Inr h) \<and> t \<le> hr_now s)"

lemma heads_fresh_share:
  assumes "heads_fresh said s" "ha_at a \<le> hr_now s"
  shows "heads_fresh said (head_share c a s)"
  using assms unfolding heads_fresh_def head_share_def
  by (auto simp: jsmap_simps split: option.splits if_splits)

lemma heads_fresh_step: "head_step said s s' \<Longrightarrow> heads_fresh said s \<Longrightarrow> heads_fresh said s'"
proof (induction rule: head_step.induct)
  case (ticks s d)
  then show ?case unfolding heads_fresh_def by (fastforce intro: trans_le_add1)
next
  case (asks s chain maxAge)
  let ?s = "s\<lparr>hr_asked := Suc (hr_asked s)\<rparr>" and ?a = "\<lparr>ha_id = hr_asked s, ha_at = hr_now s, ha_maxAge = maxAge\<rparr>"
  have f: "heads_fresh said ?s" using asks by (simp add: heads_fresh_def)
  then have "heads_fresh said (head_share chain ?a ?s)" by (rule heads_fresh_share) simp
  moreover have "heads_fresh said (head_tell chain (Inr head) ?a ?s)"
    if last: "jget (hr_lastSettled s) chain = Some (head, at_ms)" and age: "maxAge = Some age" "hr_now s - at_ms \<le> age" for head at_ms age
  proof -
    have "said chain at_ms (Inr head)" "at_ms \<le> hr_now s" using asks last by (auto simp: heads_fresh_def)
    then have "head_ok said \<lparr>ht_asker = ?a, ht_chain = chain, ht_head = Inr head\<rparr>"
      using age by (auto simp: head_ok_def age_of_def intro!: exI [of _ at_ms])
    with f show ?thesis by (auto simp: heads_fresh_def head_tell_def)
  qed
  ultimately show ?case by (auto simp: readHead_def Let_def split: option.splits)
next
  case (settles s chain askers outcome)
  have "head_ok said \<lparr>ht_asker = a, ht_chain = chain, ht_head = outcome\<rparr>" if "a \<in> set askers" for a
    using settles that by (fastforce simp: head_ok_def heads_fresh_def intro: trans_le_add1)
  with settles show ?case
    by (auto simp: heads_fresh_def head_settles_def tells_fields jsmap_simps split: sum.splits if_splits)
qed

text \<open>C31: A head is shared and never stale. At any moment every caller so far either waits on its chain's one read
  in flight or has been told, exactly once; and what it was told the chain's client answered no earlier
  than the call, less the age the caller said it tolerates. In particular a caller that gave no age
  never gets a head read before it asked.\<close>

theorem head_told_once_fresh:
  assumes "(head_step said)\<^sup>*\<^sup>* (makeHeadReader start) s"
  shows "distinct (map (\<lambda>d. ha_id (ht_asker d)) (hr_told s)) \<and> distinct (map fst (hr_inFlight s)) \<and>
    over_values asker_ids (hr_inFlight s) + told_ids s = mset [0..<hr_asked s] \<and>
    (\<forall>d \<in> set (hr_told s). \<exists>t. said (ht_chain d) t (ht_head d) \<and> ha_at (ht_asker d) \<le> t + age_of (ht_asker d))"
proof -
  have "heads_accounted s \<and> heads_fresh said s" using assms
  proof (induction rule: rtranclp_induct)
    case base
    then show ?case by (simp add: heads_accounted_def heads_fresh_def makeHeadReader_def told_ids_def asker_ids_def)
  qed (auto intro: heads_accounted_step heads_fresh_step)
  then have acc: "heads_accounted s" and fresh: "heads_fresh said s" by simp_all
  have "count (told_ids s) i \<le> 1" for i
  proof -
    have "told_ids s \<subseteq># mset [0..<hr_asked s]" using acc by (metis heads_accounted_def mset_subset_eq_add_right)
    then have "count (told_ids s) i \<le> count (mset [0..<hr_asked s]) i" by (rule mset_subset_eq_count)
    then show ?thesis by (simp only: count_upto) (simp split: if_splits)
  qed
  then have "distinct (map (\<lambda>d. ha_id (ht_asker d)) (hr_told s))"
    by (intro distinct_le_one) (simp add: told_ids_def asker_ids_def comp_def)
  with acc fresh show ?thesis by (simp add: heads_accounted_def heads_fresh_def head_ok_def jwf_def)
qed

theorem head_told_once_fresh_witness:
  "\<exists>(s :: head_reader). length (hr_told s) = 3 \<and> length (hr_reads s) = 1 \<and>
     (\<exists>d t. d \<in> set (hr_told s) \<and> ht_head d = Inr 77 \<and> ha_at (ht_asker d) \<le> t + age_of (ht_asker d))"
proof -
  let ?said = "\<lambda>c t r. r = Inr (77 :: nat)"
  define s1 where "s1 = readHead 1 None (makeHeadReader 10)"
  define s2 where "s2 = readHead 1 (Some 5) s1"
  define s3 where "s3 = head_settles 1 [\<lparr>ha_id = 0, ha_at = 10, ha_maxAge = None\<rparr>, \<lparr>ha_id = 1, ha_at = 10, ha_maxAge = Some 5\<rparr>] (Inr 77) s2"
  define s4 where "s4 = s3\<lparr>hr_now := hr_now s3 + 3\<rparr>"
  define s5 where "s5 = readHead 1 (Some 5) s4"
  note defs = s1_def s2_def s3_def s4_def s5_def readHead_def makeHeadReader_def head_share_def head_settles_def head_tell_def
  have "head_step ?said (makeHeadReader 10) s1" "head_step ?said s1 s2" "head_step ?said s4 s5"
    unfolding s1_def s2_def s5_def by (rule head_step.asks)+
  moreover have "head_step ?said s2 s3" unfolding s3_def by (rule head_step.settles) (simp_all add: defs)
  moreover have "head_step ?said s3 s4" unfolding s4_def by (rule head_step.ticks)
  ultimately have run: "(head_step ?said)\<^sup>*\<^sup>* (makeHeadReader 10) s5" by (meson rtranclp.rtrancl_into_rtrancl rtranclp.rtrancl_refl)
  have told: "length (hr_told s5) = 3" "length (hr_reads s5) = 1" by (simp_all add: defs)
  obtain d where d: "d \<in> set (hr_told s5)" using told(1) by (cases "hr_told s5") auto
  from head_told_once_fresh [OF run] d obtain t where "ht_head d = Inr 77" "ha_at (ht_asker d) \<le> t + age_of (ht_asker d)" by blast
  with told d show ?thesis by blast
qed

end
