(* ===== verification/Announcer_Properties.thy ===== *)
theory Announcer_Properties
  imports Announcer Sample_Lib
begin

text \<open>
  What the announcer promises: a record names joined keys and dialable addresses only, signed over the
  bytes it carries; one announce runs at a time, and a change notified while started is covered by a
  later reading of the keys unless the announcer stops first.
\<close>

section \<open>Splitting and joining\<close>

lemma split_on_parts: "split_on sep s \<noteq> [] \<and> (\<forall>p \<in> set (split_on sep s). sep \<notin> set p)"
  by (induction s) (auto split: list.splits)

lemma split_on_word: "sep \<notin> set p \<Longrightarrow> split_on sep p = [p]"
  by (induction p) auto

lemma split_on_append: "sep \<notin> set p \<Longrightarrow> split_on sep (p @ sep # s) = p # split_on sep s"
  by (induction p) auto

lemma split_on_join: "parts \<noteq> [] \<Longrightarrow> (\<forall>p \<in> set parts. sep \<notin> set p) \<Longrightarrow> split_on sep (join_with [sep] parts) = parts"
  by (induction "[sep]" parts rule: join_with.induct) (simp_all add: split_on_word split_on_append)

section \<open>Private networks\<close>

text \<open>The networks a record must not name, as prefixes of 32-bit addresses.\<close>

definition ip4_number :: "int \<Rightarrow> int \<Rightarrow> int \<Rightarrow> int \<Rightarrow> int" where
  "ip4_number a b c d = ((a * 256 + b) * 256 + c) * 256 + d"

definition PRIVATE_NETS :: "(int \<times> nat) list" where
  "PRIVATE_NETS =
     [(ip4_number 0 0 0 0, 8), (ip4_number 10 0 0 0, 8), (ip4_number 127 0 0 0, 8), (ip4_number 100 64 0 0, 10),
      (ip4_number 169 254 0 0, 16), (ip4_number 172 16 0 0, 12), (ip4_number 192 168 0 0, 16)]"

definition in_net :: "int \<Rightarrow> int \<times> nat \<Rightarrow> bool" where
  "in_net n net \<longleftrightarrow> n div 2 ^ (32 - snd net) = fst net div 2 ^ (32 - snd net)"

lemma ip4_prefixes:
  assumes "0 \<le> b" "b \<le> 255" "0 \<le> c" "c \<le> 255" "0 \<le> d" "d \<le> 255"
  shows "ip4_number a b c d div 2 ^ 24 = a" "ip4_number a b c d div 2 ^ 22 = a * 4 + b div 64"
    "ip4_number a b c d div 2 ^ 20 = a * 16 + b div 16" "ip4_number a b c d div 2 ^ 16 = a * 256 + b"
proof -
  have low: "0 \<le> c * 256 + d" "c * 256 + d < 65536" using assms by simp_all
  have n: "ip4_number a b c d = (a * 256 + b) * 65536 + (c * 256 + d)" by (simp add: ip4_number_def algebra_simps)
  have sixteen: "ip4_number a b c d div 65536 = a * 256 + b" unfolding n using low by simp
  then show "ip4_number a b c d div 2 ^ 16 = a * 256 + b" by simp
  have "ip4_number a b c d div 2 ^ 24 = (a * 256 + b) div 256" unfolding sixteen [symmetric] by (simp add: zdiv_zmult2_eq [symmetric])
  with assms show "ip4_number a b c d div 2 ^ 24 = a" by simp
  have "ip4_number a b c d div 2 ^ 22 = (a * 256 + b) div 64" unfolding sixteen [symmetric] by (simp add: zdiv_zmult2_eq [symmetric])
  then show "ip4_number a b c d div 2 ^ 22 = a * 4 + b div 64" by (simp add: div_add1_eq [of "a * 256" b 64] flip: div_mult_swap)
  have "ip4_number a b c d div 2 ^ 20 = (a * 256 + b) div 16" unfolding sixteen [symmetric] by (simp add: zdiv_zmult2_eq [symmetric])
  then show "ip4_number a b c d div 2 ^ 20 = a * 16 + b div 16" by (simp add: div_add1_eq [of "a * 256" b 16] flip: div_mult_swap)
qed

lemma join_octets:
  assumes "0 \<le> b" "b \<le> (255 :: int)"
  shows "a * 256 + b = n \<longleftrightarrow> a = n div 256 \<and> b = n mod 256"
proof
  assume "a * 256 + b = n"
  then have "n = b + 256 * a" by simp
  then show "a = n div 256 \<and> b = n mod 256" using assms by simp
next
  assume "a = n div 256 \<and> b = n mod 256"
  then show "a * 256 + b = n" using div_mult_mod_eq [of n 256] by simp
qed

lemma private_is_net:
  assumes "0 \<le> a" "a \<le> 255" "0 \<le> b" "b \<le> 255" "0 \<le> c" "c \<le> 255" "0 \<le> d" "d \<le> 255"
  shows "(a = 0 \<or> a = 10 \<or> a = 127 \<or> (a = 100 \<and> 64 \<le> b \<and> b < 128) \<or> (a = 169 \<and> b = 254) \<or>
      (a = 172 \<and> 16 \<le> b \<and> b < 32) \<or> (a = 192 \<and> b = 168)) \<longleftrightarrow> (\<exists>net \<in> set PRIVATE_NETS. in_net (ip4_number a b c d) net)"
proof -
  note p = ip4_prefixes [OF assms(3-8), of a]
  have nets: "PRIVATE_NETS = [(0, 8), (167772160, 8), (2130706432, 8), (1681915904, 10), (2851995648, 16), (2886729728, 12), (3232235520, 16)]"
    by (simp add: PRIVATE_NETS_def ip4_number_def)
  have eight: "in_net (ip4_number a b c d) (0, 8) \<longleftrightarrow> a = 0" "in_net (ip4_number a b c d) (167772160, 8) \<longleftrightarrow> a = 10"
    "in_net (ip4_number a b c d) (2130706432, 8) \<longleftrightarrow> a = 127"
    using p(1) by (simp_all add: in_net_def)
  have ten: "in_net (ip4_number a b c d) (1681915904, 10) \<longleftrightarrow> a * 4 + b div 64 = 401"
    using p(2) by (simp add: in_net_def)
  have twelve: "in_net (ip4_number a b c d) (2886729728, 12) \<longleftrightarrow> a * 16 + b div 16 = 2753"
    using p(3) by (simp add: in_net_def)
  have sixteen: "in_net (ip4_number a b c d) (2851995648, 16) \<longleftrightarrow> a * 256 + b = 43518"
    "in_net (ip4_number a b c d) (3232235520, 16) \<longleftrightarrow> a * 256 + b = 49320"
    using p(4) by (simp_all add: in_net_def)
  have "b div 64 \<in> {0..3}" "b div 16 \<in> {0..15}" using assms(3,4) by auto
  moreover have "q \<in> {0..3} \<Longrightarrow> a * 4 + q = 401 \<longleftrightarrow> a = 100 \<and> q = 1" "q \<in> {0..15} \<Longrightarrow> a * 16 + q = 2753 \<longleftrightarrow> a = 172 \<and> q = 1" for q
    unfolding atLeastAtMost_iff by presburger+
  ultimately have "a * 4 + b div 64 = 401 \<longleftrightarrow> a = 100 \<and> b div 64 = 1" "a * 16 + b div 16 = 2753 \<longleftrightarrow> a = 172 \<and> b div 16 = 1"
    by blast+
  moreover have "b div 64 = 1 \<longleftrightarrow> 64 \<le> b \<and> b < 128" "b div 16 = 1 \<longleftrightarrow> 16 \<le> b \<and> b < 32" by linarith+
  moreover have "a * 256 + b = 43518 \<longleftrightarrow> a = 169 \<and> b = 254" "a * 256 + b = 49320 \<longleftrightarrow> a = 192 \<and> b = 168"
    using join_octets [OF assms(3,4), of a] by simp_all
  moreover have "(\<exists>net \<in> set PRIVATE_NETS. in_net (ip4_number a b c d) net) \<longleftrightarrow>
      a = 0 \<or> a = 10 \<or> a = 127 \<or> a * 4 + b div 64 = 401 \<or> a * 256 + b = 43518 \<or> a * 16 + b div 16 = 2753 \<or> a * 256 + b = 49320"
    unfolding nets list.set bex_simps(5) by (simp only: insert_iff empty_iff bex_simps eight ten twelve sixteen simp_thms)
  ultimately show ?thesis by (simp only: conj_assoc)
qed

text \<open>A public address: four numbers up to 255 outside every private network.\<close>

definition public_ip4 :: "(string \<Rightarrow> int option) \<Rightarrow> string \<Rightarrow> bool" where
  "public_ip4 other ip \<longleftrightarrow>
     (\<exists>a b c d. map (js_Number other) (split_on CHR ''.'' ip) = [Some a, Some b, Some c, Some d] \<and>
        {a, b, c, d} \<subseteq> {0..255} \<and> (\<forall>net \<in> set PRIVATE_NETS. \<not> in_net (ip4_number a b c d) net))"

lemma public_private: "public_ip4 other ip \<longleftrightarrow> \<not> isPrivateIp4 other ip"
proof -
  define parts where "parts = map (js_Number other) (split_on CHR ''.'' ip)"
  show ?thesis
  proof (cases "length parts = 4 \<and> list_all is_octet parts")
    case True
    then obtain p q r t where "parts = [p, q, r, t]" by (auto simp: length_Suc_conv numeral_eq_Suc)
    with True obtain a b c d where p: "parts = [Some a, Some b, Some c, Some d]"
      and oct: "0 \<le> a" "a \<le> 255" "0 \<le> b" "b \<le> 255" "0 \<le> c" "c \<le> 255" "0 \<le> d" "d \<le> 255"
      by (auto simp: is_octet_def split: option.splits)
    have "public_ip4 other ip \<longleftrightarrow> (\<forall>net \<in> set PRIVATE_NETS. \<not> in_net (ip4_number a b c d) net)"
      using oct unfolding public_ip4_def parts_def [symmetric] p by simp
    moreover have "isPrivateIp4 other ip \<longleftrightarrow> a = 0 \<or> a = 10 \<or> a = 127 \<or> (a = 100 \<and> 64 \<le> b \<and> b < 128) \<or>
        (a = 169 \<and> b = 254) \<or> (a = 172 \<and> 16 \<le> b \<and> b < 32) \<or> (a = 192 \<and> b = 168)"
      using oct unfolding isPrivateIp4_def parts_def [symmetric] p by (simp add: is_octet_def Let_def)
    ultimately show ?thesis using private_is_net [OF oct] by blast
  next
    case False
    then have "length parts \<noteq> 4 \<or> list_ex (\<lambda>p. \<not> is_octet p) parts" by (auto simp: list_ex_iff list_all_iff)
    then have "isPrivateIp4 other ip" unfolding isPrivateIp4_def parts_def [symmetric] by (simp add: Let_def)
    moreover have "\<not> public_ip4 other ip"
      using False unfolding public_ip4_def parts_def [symmetric] by (auto simp: is_octet_def)
    ultimately show ?thesis by blast
  qed
qed

text \<open>The first 16 bits of an IPv6 address, from the hexadecimal digits before its first colon: none when
  the address starts with \<open>::\<close>.\<close>

definition hextet :: "string \<Rightarrow> nat option" where
  "hextet g =
     (if length g \<le> 4 \<and> list_all (\<lambda>c. hex_value c \<noteq> None) g then Some (foldl (\<lambda>n c. n * 16 + the (hex_value c)) 0 g) else None)"

definition first_hextet :: "string \<Rightarrow> nat option" where
  "first_hextet ip = hextet (hd (split_on CHR '':'' ip))"

text \<open>The link-local and the unique-local networks, as prefixes of the first 16 bits.\<close>

definition PRIVATE_NETS6 :: "(nat \<times> nat) list" where
  "PRIVATE_NETS6 = [(0xfe80, 10), (0xfc00, 7)]"

definition in_net6 :: "nat \<Rightarrow> nat \<times> nat \<Rightarrow> bool" where
  "in_net6 h net \<longleftrightarrow> h div 2 ^ (16 - snd net) = fst net div 2 ^ (16 - snd net)"

text \<open>An IPv6 address that is neither unspecified nor loopback, as these are spelled canonically, and
  outside both networks. An IPv4 address inside an IPv6 one is not looked into.\<close>

definition public_ip6 :: "string \<Rightarrow> bool" where
  "public_ip6 ip \<longleftrightarrow> to_lower ip \<noteq> ''::'' \<and> to_lower ip \<noteq> ''::1'' \<and>
     (case first_hextet ip of None \<Rightarrow> True | Some h \<Rightarrow> list_all (\<lambda>net. \<not> in_net6 h net) PRIVATE_NETS6)"

lemma split_on_hd: "\<exists>rest. s = hd (split_on sep s) @ rest"
proof (induction s)
  case (Cons c s)
  then show ?case by (cases "split_on sep s") auto
qed simp

lemma hex_value_lower: "hex_value c = Some h \<Longrightarrow> lower_char c = hex_digit h"
  using hex_digit_value by simp

lemma hextet_private:
  assumes "hextet g = Some h" "in_net6 h net" "net \<in> set PRIVATE_NETS6"
  shows "\<exists>a b c d. to_lower g = [a, b, c, d] \<and> a = CHR ''f'' \<and> (b = CHR ''e'' \<and> c \<in> set ''89ab'' \<or> b \<in> set ''cd'')"
proof -
  from assms(2,3) have big: "65152 \<le> h \<and> h \<le> 65215 \<or> 64512 \<le> h \<and> h \<le> 65023"
    by (auto simp: PRIVATE_NETS6_def in_net6_def)
  from assms(1) have hex: "length g \<le> 4" "list_all (\<lambda>c. hex_value c \<noteq> None) g"
    and h: "h = foldl (\<lambda>n c. n * 16 + the (hex_value c)) 0 g" by (auto simp: hextet_def split: if_splits)
  have small: "foldl (\<lambda>n c. n * 16 + the (hex_value c)) n xs < (n + 1) * 16 ^ length xs"
    if "list_all (\<lambda>c. hex_value c \<noteq> None) xs" for n xs
    using that
  proof (induction xs arbitrary: n)
    case (Cons c xs)
    then obtain v where v: "hex_value c = Some v" "v < 16" using hex_value_bound by auto
    have "foldl (\<lambda>n c. n * 16 + the (hex_value c)) (n * 16 + v) xs < (n * 16 + v + 1) * 16 ^ length xs"
      using Cons by simp
    also have "\<dots> \<le> ((n + 1) * 16) * 16 ^ length xs" using v(2) by (intro mult_right_mono) simp_all
    finally show ?case using v(1) by (simp add: algebra_simps)
  qed simp
  have "length g = 4"
  proof (rule ccontr)
    assume "length g \<noteq> 4"
    with hex(1) have "length g \<le> 3" by simp
    then have "(16 :: nat) ^ length g \<le> 16 ^ 3" by (intro power_increasing) simp_all
    with small [OF hex(2), of 0] h have "h < 4096" by simp
    with big show False by simp
  qed
  then obtain a b c d where g: "g = [a, b, c, d]" by (auto simp: length_Suc_conv numeral_eq_Suc)
  with hex(2) obtain va vb vc vd where v: "hex_value a = Some va" "hex_value b = Some vb" "hex_value c = Some vc" "hex_value d = Some vd"
    by auto
  then have lt: "va < 16" "vb < 16" "vc < 16" "vd < 16" using hex_value_bound by auto
  have n: "h = va * 4096 + vb * 256 + vc * 16 + vd" using h v by (simp add: g)
  have va: "va = 15" using n big lt by linarith
  have "vb = 14 \<and> 8 \<le> vc \<and> vc \<le> 11 \<or> vb = 12 \<or> vb = 13"
    using big
  proof
    assume h1: "65152 \<le> h \<and> h \<le> 65215"
    then have "vb = 14" using n va lt by linarith
    moreover from this h1 have "8 \<le> vc" "vc \<le> 11" using n va lt by linarith+
    ultimately show ?thesis by simp
  next
    assume "64512 \<le> h \<and> h \<le> 65023"
    then have "12 \<le> vb" "vb \<le> 13" using n va lt by linarith+
    then show ?thesis by linarith
  qed
  moreover have "hex_digit 15 = CHR ''f''" "hex_digit 14 = CHR ''e''" "hex_digit 12 = CHR ''c''" "hex_digit 13 = CHR ''d''"
    "hex_digit 8 = CHR ''8''" "hex_digit 9 = CHR ''9''" "hex_digit 10 = CHR ''a''" "hex_digit 11 = CHR ''b''"
    by code_simp+
  moreover have "8 \<le> vc \<and> vc \<le> 11 \<longrightarrow> vc = 8 \<or> vc = 9 \<or> vc = 10 \<or> vc = 11" by linarith
  ultimately show ?thesis
    using va v [THEN hex_value_lower] by (auto simp: g to_lower_def)
qed

lemma public_not_private6: "\<not> isPrivateIp6 ip \<Longrightarrow> public_ip6 ip"
proof -
  assume p: "\<not> isPrivateIp6 ip"
  obtain rest where ip: "ip = hd (split_on CHR '':'' ip) @ rest" using split_on_hd by blast
  have "\<not> in_net6 h net" if "first_hextet ip = Some h" "net \<in> set PRIVATE_NETS6" for h net
  proof
    assume "in_net6 h net"
    from hextet_private [OF that(1) [unfolded first_hextet_def] this that(2)] obtain a b c d where
      l: "to_lower (hd (split_on CHR '':'' ip)) = [a, b, c, d]" "a = CHR ''f''" "b = CHR ''e'' \<and> c \<in> set ''89ab'' \<or> b \<in> set ''cd''"
      by blast
    have "to_lower ip = [a, b, c, d] @ to_lower rest" using ip l(1) by (metis map_append to_lower_def)
    with l(2,3) p show False unfolding isPrivateIp6_def Let_def by auto
  qed
  with p show ?thesis
    by (auto simp: public_ip6_def list_all_iff isPrivateIp6_def UNSPECIFIED_IP6_def Let_def split: option.split)
qed

section \<open>Addresses that may be announced\<close>

definition dialable :: "(string \<Rightarrow> int option) \<Rightarrow> string \<Rightarrow> bool" where
  "dialable other addr \<longleftrightarrow>
     (\<exists>x proto val rest. split_on CHR ''/'' addr = x # proto # val # rest \<and>
        (proto \<in> {''dns4'', ''dns6'', ''dnsaddr'', ''dns''} \<or>
         proto = ''ip4'' \<and> (val = ''0.0.0.0'' \<or> public_ip4 other val) \<or>
         proto = ''ip6'' \<and> (to_lower val = ''::'' \<or> public_ip6 val)))"

lemma announceable_dialable: "announceable other addr \<Longrightarrow> dialable other addr"
  using public_not_private6
  by (auto simp: announceable_def dialable_def public_private UNSPECIFIED_IP4_def UNSPECIFIED_IP6_def split: list.splits if_splits)

lemma sentinel_dialable: "sentinel_of addr = Some a \<Longrightarrow> dialable other a"
proof -
  assume s: "sentinel_of addr = Some a"
  then obtain x proto val rest where p: "split_on CHR ''/'' addr = x # proto # val # rest"
    by (auto simp: sentinel_of_def split: list.splits)
  then have no: "\<forall>p \<in> set rest. CHR ''/'' \<notin> set p" using split_on_parts [of "CHR ''/''" addr] by auto
  have "split_on CHR ''/'' (join_with ''/'' ('''' # ''ip4'' # UNSPECIFIED_IP4 # rest)) = '''' # ''ip4'' # UNSPECIFIED_IP4 # rest"
    "split_on CHR ''/'' (join_with ''/'' ('''' # ''ip6'' # UNSPECIFIED_IP6 # rest)) = '''' # ''ip6'' # UNSPECIFIED_IP6 # rest"
    using no by (intro split_on_join; simp add: UNSPECIFIED_IP4_def UNSPECIFIED_IP6_def)+
  moreover have "a = join_with ''/'' ('''' # ''ip4'' # UNSPECIFIED_IP4 # rest) \<or> a = join_with ''/'' ('''' # ''ip6'' # UNSPECIFIED_IP6 # rest)"
    using s by (auto simp: sentinel_of_def p split: if_splits)
  moreover have "to_lower ''::'' = ''::''" by code_simp
  ultimately show ?thesis unfolding dialable_def UNSPECIFIED_IP4_def UNSPECIFIED_IP6_def by fastforce
qed

lemma announced_dialable: "a \<in> set (announced_addrs other all) \<Longrightarrow> dialable other a"
proof -
  have "a \<in> set (foldl (\<lambda>sentinels addr. case sentinel_of addr of None \<Rightarrow> sentinels | Some a \<Rightarrow> sadd a sentinels) acc all) \<Longrightarrow>
      a \<in> set acc \<or> (\<exists>addr. sentinel_of addr = Some a)" for acc
  proof (induction all arbitrary: acc)
    case (Cons addr all)
    show ?case
    proof (cases "sentinel_of addr")
      case (Some b)
      with Cons.IH [of "sadd b acc"] Cons.prems show ?thesis by auto
    qed (use Cons in auto)
  qed simp
  then show "a \<in> set (announced_addrs other all) \<Longrightarrow> dialable other a"
    using announceable_dialable sentinel_dialable
    by (fastforce simp: announced_addrs_def announceableAddrs_def sentinelAddrs_def Let_def split: if_splits)
qed

section \<open>The runs of the announcer\<close>

definition record_ok :: "announce_config \<Rightarrow> announce_call \<Rightarrow> bool" where
  "record_ok C c \<longleftrightarrow>
     (case c of
        PutProviders url addrs keys body \<Rightarrow>
          url \<in> set (nc_routerUrls C) \<and> keys \<noteq> [] \<and> addrs \<noteq> [] \<and> (\<forall>a \<in> set addrs. dialable (nc_number C) a) \<and>
          (\<exists>now. signedProvidersBody (nc_key C) addrs keys now = Inr body)
      | _ \<Rightarrow> True)"

text \<open>A notified change is owed an announce: by the debounce timer, or by the rerun of the announce under way.\<close>

definition announcer_ok :: "announce_config \<Rightarrow> announcer_state \<Rightarrow> bool" where
  "announcer_ok C s \<longleftrightarrow>
     (\<forall>c \<in> set (an_calls s). record_ok C c) \<and>
     (\<forall>addrs keys. an_stage s = Signing addrs keys \<longrightarrow> keys \<noteq> [] \<and> addrs \<noteq> [] \<and> (\<forall>a \<in> set addrs. dialable (nc_number C) a)) \<and>
     an_listening s = an_started s \<and> an_interval s = an_started s \<and> (an_debounce s \<longrightarrow> an_started s) \<and>
     an_covered s \<le> an_noticed s \<and>
     (an_started s \<and> an_covered s < an_noticed s \<longrightarrow>
        an_debounce s \<or> (an_stage s \<noteq> Idle \<and> an_rerun s) \<or> (\<exists>e. KeysFailed e \<in> set (an_calls s)))"

lemma ok_ask: "announcer_ok C s \<Longrightarrow> announcer_ok C (announce_ask s)"
  by (auto simp: announcer_ok_def announce_ask_def record_ok_def)

lemma ok_again: "announcer_ok C s \<Longrightarrow> announcer_ok C (announce_again s)"
  using ok_ask [of C s] by (auto simp: announce_again_def) (auto simp: announcer_ok_def)

lemma ok_now: "announcer_ok C s \<Longrightarrow> announcer_ok C (announceNow (s\<lparr>an_debounce := False\<rparr>))"
  by (auto simp: announceNow_def announcer_ok_def announce_ask_def record_ok_def)

lemma ok_tick: "announcer_ok C s \<Longrightarrow> announcer_ok C (announceNow s)"
  by (auto simp: announceNow_def announcer_ok_def announce_ask_def record_ok_def)

lemma ok_log: "announcer_ok C s \<Longrightarrow> (\<And>c. c \<in> set cs \<Longrightarrow> record_ok C c) \<Longrightarrow> announcer_ok C (s\<lparr>an_calls := an_calls s @ cs\<rparr>)"
  by (auto simp: announcer_ok_def)

lemma ok_keys: "announcer_ok C s \<Longrightarrow> announcer_ok C (keys_arrive C outcome all s)"
  using ok_again [of C s] announced_dialable [of _ "nc_number C" all]
  by (cases outcome) (auto simp: keys_arrive_def Let_def announcer_ok_def record_ok_def)

lemma ok_signed:
  assumes "announcer_ok C s" "an_stage s = Signing addrs keys"
  shows "announcer_ok C (body_signed C now addrs keys s)"
proof (cases "signedProvidersBody (nc_key C) addrs keys now")
  case (Inl e)
  have "announcer_ok C (s\<lparr>an_calls := an_calls s @ map (\<lambda>url. RouterError url e) (nc_routerUrls C)\<rparr>)"
    by (rule ok_log [OF assms(1)]) (auto simp: record_ok_def)
  from ok_again [OF this] Inl show ?thesis by (simp add: body_signed_def)
next
  case (Inr body)
  have "announcer_ok C (s\<lparr>an_calls := an_calls s @ map (\<lambda>url. PutProviders url addrs keys body) (nc_routerUrls C)\<rparr>)"
    by (rule ok_log [OF assms(1)]) (use assms Inr in \<open>auto simp: record_ok_def announcer_ok_def\<close>)
  with ok_again [OF assms(1)] Inr assms(2) show ?thesis
    by (auto simp: body_signed_def) (auto simp: announcer_ok_def)
qed

lemma ok_routers:
  assumes "announcer_ok C s" "an_stage s = Putting urls"
  shows "announcer_ok C (router_answers url outcome urls s)"
proof -
  let ?s = "case outcome of Inl e \<Rightarrow> s\<lparr>an_calls := an_calls s @ [RouterError url e]\<rparr> | Inr _ \<Rightarrow> s"
  have "announcer_ok C ?s" using assms(1) ok_log [OF assms(1), of "[RouterError url e]" for e]
    by (cases outcome) (auto simp: record_ok_def)
  moreover from this have "announcer_ok C (?s\<lparr>an_stage := Putting us\<rparr>)" for us
    using assms(2) by (cases outcome) (auto simp: announcer_ok_def)
  ultimately show ?thesis using ok_again by (simp add: router_answers_def Let_def)
qed

lemma announcer_ok_reachable: "(announce_step C)\<^sup>*\<^sup>* makeAnnouncer s \<Longrightarrow> announcer_ok C s"
proof (induction rule: rtranclp_induct)
  case base
  then show ?case by (simp add: announcer_ok_def makeAnnouncer_def)
next
  case (step s s')
  from step(2,3) show ?case
  proof (induction rule: announce_step.induct)
    case (starts s)
    then show ?case by (auto simp: announce_start_def announcer_ok_def)
  next
    case (stops s)
    then show ?case by (auto simp: announce_stop_def announcer_ok_def)
  next
    case (changes s)
    then show ?case by (auto simp: announce_notifyChange_def announcer_ok_def)
  next
    case (moves s)
    then show ?case by (auto simp: announce_notifyChange_def announcer_ok_def)
  qed (simp_all add: ok_now ok_tick ok_keys ok_signed ok_routers)
qed

text \<open>C33: Only dialable addresses are announced. Every record sent goes to a configured router, names at least one
  key and one address, and every address is a DNS name, the unspecified address a router fills in, an IPv4
  address outside the private, loopback, link-local, shared and this-network prefixes, or an IPv6 address
  (as multiaddrs print it) other than the loopback and outside the link-local and unique-local prefixes;
  the body carries the very payload whose digest was signed. What is not excluded is an IPv4 address
  mapped into IPv6: see \<open>mapped_private_announced\<close>.\<close>

theorem announces_only_dialable:
  assumes "(announce_step C)\<^sup>*\<^sup>* makeAnnouncer s" "PutProviders url addrs keys body \<in> set (an_calls s)"
  shows "url \<in> set (nc_routerUrls C) \<and> keys \<noteq> [] \<and> addrs \<noteq> [] \<and> (\<forall>a \<in> set addrs. dialable (nc_number C) a) \<and>
    (\<exists>now sig. ak_sign (nc_key C) (ak_sha256 (nc_key C) (ak_encode (nc_key C) (payload_json (nc_key C) addrs keys now))) = Inr sig \<and>
       body = body_around (ak_base64 (nc_key C) sig) (payload_json (nc_key C) addrs keys now))"
proof -
  have "record_ok C (PutProviders url addrs keys body)"
    using announcer_ok_reachable [OF assms(1)] assms(2) by (auto simp: announcer_ok_def)
  then show ?thesis by (auto simp: record_ok_def signedProvidersBody_def Let_def res_simps)
qed

text \<open>A private IPv4 address mapped into IPv6 is announced as it is, whatever the other addresses: the filter
  does not look into it.\<close>

theorem mapped_private_announced:
  "''/ip6/::ffff:192.168.0.1/tcp/1'' \<in> set all \<Longrightarrow> ''/ip6/::ffff:192.168.0.1/tcp/1'' \<in> set (announced_addrs other all)"
proof -
  assume a: "''/ip6/::ffff:192.168.0.1/tcp/1'' \<in> set all"
  have "\<not> isPrivateIp6 ''::ffff:192.168.0.1''" "to_lower ''::ffff:192.168.0.1'' \<noteq> UNSPECIFIED_IP6" by code_simp+
  then have "announceable other ''/ip6/::ffff:192.168.0.1/tcp/1''" by (simp add: announceable_def)
  with a have "''/ip6/::ffff:192.168.0.1/tcp/1'' \<in> set (announceableAddrs other all)" by (simp add: announceableAddrs_def)
  then show ?thesis unfolding announced_addrs_def Let_def by (auto split: if_splits)
qed

theorem mapped_private_announced_witness:
  "''/ip6/::ffff:192.168.0.1/tcp/1'' \<in> set (announced_addrs (\<lambda>_. None) [''/ip6/::ffff:192.168.0.1/tcp/1'', ''/ip4/8.8.4.4/tcp/1''])"
  by (rule mapped_private_announced) simp

text \<open>C34: A change is announced. While the announcer is started, a change notified since the keys were last asked
  for has the debounce timer armed, or the announce under way will ask for the keys again, unless asking
  for them has failed; a stopped announcer has no timer and no listener left.\<close>

theorem change_is_announced:
  assumes "(announce_step C)\<^sup>*\<^sup>* makeAnnouncer s"
  shows "(an_started s \<and> an_covered s < an_noticed s \<longrightarrow>
      an_debounce s \<or> (an_stage s \<noteq> Idle \<and> an_rerun s) \<or> (\<exists>e. KeysFailed e \<in> set (an_calls s))) \<and>
    (\<not> an_started s \<longrightarrow> \<not> an_debounce s \<and> \<not> an_interval s \<and> \<not> an_listening s)"
  using announcer_ok_reachable [OF assms] by (auto simp: announcer_ok_def)

definition sample_announce :: announce_config where
  "sample_announce =
     \<lparr>nc_key = \<lparr>ak_peerId = ''me'', ak_encode = map of_char, ak_sha256 = (\<lambda>bs. bs), ak_sign = (\<lambda>bs. Inr (take 2 bs)),
        ak_base64 = hex_of_bytes, ak_number = (\<lambda>n. ''7'')\<rparr>, nc_routerUrls = [''https://r''], nc_number = (\<lambda>_. None)\<rparr>"

definition announcing :: announcer_state where
  "announcing = keys_arrive sample_announce (Inr [''k'']) [''/ip4/192.168.1.7/tcp/1'', ''/ip4/8.8.4.4/tcp/1'']
     (announceNow ((announce_notifyChange (announce_start makeAnnouncer))\<lparr>an_debounce := False\<rparr>))"

lemma announcing_run: "(announce_step sample_announce)\<^sup>*\<^sup>* makeAnnouncer announcing"
proof -
  let ?s1 = "announce_start makeAnnouncer" and ?s2 = "announce_notifyChange (announce_start makeAnnouncer)"
  have "announce_step sample_announce makeAnnouncer ?s1" "announce_step sample_announce ?s1 ?s2" by (rule starts changes)+
  moreover have "announce_step sample_announce ?s2 (announceNow (?s2\<lparr>an_debounce := False\<rparr>))"
    by (rule debounced) (simp add: announce_notifyChange_def announce_start_def makeAnnouncer_def)
  moreover have "announce_step sample_announce (announceNow (?s2\<lparr>an_debounce := False\<rparr>)) announcing" unfolding announcing_def
    by (rule collects) (simp add: announceNow_def announce_ask_def announce_notifyChange_def announce_start_def makeAnnouncer_def)
  ultimately show ?thesis by (meson rtranclp.rtrancl_into_rtrancl rtranclp.rtrancl_refl)
qed

lemma announcing_stage: "an_stage announcing = Signing [''/ip4/8.8.4.4/tcp/1''] [''k'']"
proof -
  have "announced_addrs (\<lambda>_. None) [''/ip4/192.168.1.7/tcp/1'', ''/ip4/8.8.4.4/tcp/1''] = [''/ip4/8.8.4.4/tcp/1'']" by code_simp
  then show ?thesis by (simp add: announcing_def keys_arrive_def sample_announce_def)
qed

theorem announces_only_dialable_witness:
  "\<exists>(s :: announcer_state) url body. PutProviders url [''/ip4/8.8.4.4/tcp/1''] [''k''] body \<in> set (an_calls s) \<and>
     dialable (\<lambda>_. None) ''/ip4/8.8.4.4/tcp/1'' \<and> \<not> announceable (\<lambda>_. None) ''/ip4/192.168.1.7/tcp/1''"
proof -
  obtain body where body: "signedProvidersBody (nc_key sample_announce) [''/ip4/8.8.4.4/tcp/1''] [''k''] 5 = Inr body"
    by (simp add: signedProvidersBody_def sample_announce_def Let_def)
  define s where "s = body_signed sample_announce 5 [''/ip4/8.8.4.4/tcp/1''] [''k''] announcing"
  have "announce_step sample_announce announcing s" unfolding s_def by (rule signs) (rule announcing_stage)
  with announcing_run have run: "(announce_step sample_announce)\<^sup>*\<^sup>* makeAnnouncer s" by (rule rtranclp.rtrancl_into_rtrancl)
  have put: "PutProviders ''https://r'' [''/ip4/8.8.4.4/tcp/1''] [''k''] body \<in> set (an_calls s)"
    using body by (simp add: s_def body_signed_def) (simp add: sample_announce_def)
  have "\<not> announceable (\<lambda>_. None) ''/ip4/192.168.1.7/tcp/1''" by code_simp
  moreover have "nc_number sample_announce = (\<lambda>_. None)" by (simp add: sample_announce_def)
  ultimately show ?thesis using announces_only_dialable [OF run put] put by auto
qed

theorem change_is_announced_witness:
  "\<exists>(s :: announcer_state). an_started s \<and> an_noticed s = 2 \<and> an_covered s = 1 \<and> an_debounce s"
proof -
  define s where "s = announce_notifyChange announcing"
  have "announce_step sample_announce announcing s" unfolding s_def by (rule changes)
  with announcing_run have run: "(announce_step sample_announce)\<^sup>*\<^sup>* makeAnnouncer s" by (rule rtranclp.rtrancl_into_rtrancl)
  have fields: "an_started announcing" "an_noticed announcing = 1" "an_covered announcing = 1" "an_rerun announcing = False"
    "an_calls announcing = [AskKeys]"
    by (simp_all add: announcing_def keys_arrive_def Let_def announceNow_def announce_ask_def announce_again_def announce_notifyChange_def
        announce_start_def makeAnnouncer_def)
  then have "an_started s" "an_noticed s = 2" "an_covered s = 1" "\<not> an_rerun s" "an_calls s = [AskKeys]"
    by (simp_all add: s_def announce_notifyChange_def)
  with change_is_announced [OF run] show ?thesis by auto
qed

end
