(* ===== verification/Spec2Isabelle.thy ===== *)
theory Spec2Isabelle
  imports Wire_Properties Rule_Properties Background_Properties Tally_Properties Gossip_Properties
    Coalescer_Properties Engine_Properties Publication_Properties Voter_Answers Chase_Properties
    Pull_Answers Cold_Properties Eligibility_Properties Head_Reader
    Announcer_Properties
begin

text \<open>
  A verification development for pubsub-voting, the TypeScript library under \<open>src/src/\<close> of the repository:
  votes over gossipsub, where every node checks every vote and keeps the same winners.

  \<^bold>\<open>The program.\<close> A contest is a criteria document; its CID is its topic. A wallet signs a bundle of votes for
  a block, the bundle travels over the topic, and each node's forward gate decides whether to pass it on:
  schema, rate, re-sign filter, signature, constraints, the gate rules read from a chain, the community
  names. A bundle that passes is held by the contest's engine in a last-write-wins set, per wallet, for a
  number of buckets of blocks. The engine encodes the verified winners as a content-addressed checkpoint,
  announces its root, answers fetches of it, and chases the roots others announce. What could not be
  read yet is deferred to a background verifier, which confirms or evicts. The tally sums the winners; a
  client object creates engines, publications and views and answers its peers.

  \<^bold>\<open>Theories and code\<close> (paths under \<open>src/src/\<close>).
  \<^item> \<open>Prelude\<close>, \<open>Tables\<close>: bytes, JavaScript's \<open>Map\<close> and \<open>Set\<close> with their insertion order (\<open>jset\<close>, \<open>jdel\<close>, \<open>jget\<close>),
    results as \<open>js_error + 'a\<close>, the stable sort, sums over maps. \<open>Errors\<close>: \<open>errors.ts\<close>. \<open>Ipld\<close>: values and the
    codecs the program imports, with the laws it relies on. \<open>Sample_Lib\<close>: an instance of those laws.
  \<^item> \<open>Votes\<close>, \<open>Criteria\<close>, \<open>Bundle_Codec\<close>, \<open>Messages\<close>, \<open>Checkpoint\<close>: \<open>schema/\<close>, \<open>topic.ts\<close>, \<open>crdt/codec.ts\<close>,
    \<open>transport/messages.ts\<close>, \<open>checkpoint/\<close>; \<open>Bucket\<close>: \<open>chain/bucket.ts\<close>; \<open>Crdt\<close>: \<open>crdt/\<close>; \<open>Fifo\<close>, \<open>Storage\<close>: the
    bounded caches and \<open>storage/\<close>. Their properties are in \<open>Wire_Properties\<close>.
  \<^item> \<open>Rule_Cache\<close>, \<open>Rules\<close>, \<open>Erc5192\<close>, \<open>Gate\<close>: \<open>rules/\<close>; \<open>Names\<close>, \<open>Verify\<close>: \<open>verify/\<close> and \<open>signer/eip712.ts\<close>.
    Properties in \<open>Rule_Properties\<close>. \<open>Background\<close>: \<open>verify/background.ts\<close>, \<open>verify/gate-grace.ts\<close>.
    \<open>Tally\<close>: \<open>tally/\<close>. \<open>Coalescer\<close>: \<open>chain/coalescer.ts\<close>. Each with its \<open>_Properties\<close>.
  \<^item> \<open>Gossip\<close>: the forward gate (\<open>transport/gossip-validator.ts\<close>), the re-sign filter, the rate windows and the
    transport. \<open>Chase\<close>, \<open>Chase_Invariants\<close>: \<open>transport/chase.ts\<close>.
  \<^item> \<open>Announcer\<close>: \<open>transport/announce/\<close>, the records a node sends to HTTP routers.
  \<^item> \<open>Engine\<close>: class \<open>ContestEngine\<close> of \<open>client/voter.ts\<close>, one record for its fields and one definition per method,
    split where an await lets other operations in; calls out of the engine are logged. \<open>Engine_Steps\<close> makes it
    a state machine in which any operation may come at any time with any answer of its seams; \<open>Engine_Served\<close>,
    \<open>Engine_Current\<close>, \<open>Engine_Restore\<close>, \<open>Engine_Credit\<close> and \<open>Engine_Voice\<close> each follow one concern through it.
  \<^item> \<open>Publication\<close>, \<open>Publication_Runs\<close>: class \<open>ContestVotePublication\<close>, alone and with its engine.
    \<open>Voter\<close>, \<open>Voter_Lifecycle\<close>, \<open>Voter_Answers\<close>: class \<open>PubsubVoter\<close>, its responder and what it answers.
    \<open>Pull\<close>: \<open>makeRootPuller\<close>. \<open>Cold_Start\<close>: \<open>#coldStart\<close>, \<open>#discoverProviders\<close>, \<open>#fetchRootWithRetry\<close>.
    \<open>Head_Reader\<close>: \<open>makeHeadReader\<close>. \<open>Eligibility\<close>: \<open>checkEligibility\<close>. All from \<open>client/voter.ts\<close>.

  \<^bold>\<open>What is shown.\<close>
  \<^item> Agreement: merging working sets is order independent and pruning keeps the view; the current bundles are
    the last writes per wallet; replicas with the same bundles show the same ranking, whose rows are sums, up
    to which name a row shows where its votes carry several.
  \<^item> Admission: a bundle is valid exactly when every stage accepts; the gate is the formula the criteria
    write; blame is only laid where the sender could have known; the batched rules answer like the single ones.
  \<^item> The forward gate, over all joins, under every interleaving and deadline and whatever the other components
    write to the verdict cache it shares with them: verdicts are justified, fresh valid votes pass.
  \<^item> The background verifier: nothing deferred is lost or judged twice, and a round refines its specification
    callback for callback; a name carried for two keys is compared with the first of them, as in the code.
  \<^item> The engine: what is served, published or written is a checkpoint of fully verified winners; it is current
    unless an encoding failed; the snapshot written decodes to those winners and a restart retains each that
    passes the offline checks; a publication hears at most one verdict.
  \<^item> Exchange between nodes: what a client answers decodes to a record of verified votes within the caps;
    what one client pulls from another is such a record; every pull is answered once and pulling ends; an
    honest checkpoint is taken over, and only screened bundles are admitted; a late subscriber is asked and
    its root chased; a join asks the first four of the shuffled subscribers, and the shuffle can reach any
    arrangement; a retried fetch returns within its deadline.
  \<^item> Announcements: only dialable addresses are announced, apart from IPv4 addresses mapped into IPv6, and a
    notified change is not forgotten.
  \<^item> What goes wrong: a failed encoding leaves a stale record or silences a join, and a throwing host makes the
    chase forget admissions. These are stated as theorems of the code as it is.

  \<^bold>\<open>Conventions.\<close> A handler is atomic between the awaits that matter; a step relation (\<open>gate_step\<close>, \<open>bg_step\<close>,
  \<open>co_step\<close>, \<open>en_step\<close>, \<open>pub_step\<close>, \<open>voter_step\<close>, \<open>chase_step\<close>, \<open>pull_step\<close>, \<open>cold_step\<close>, \<open>head_step\<close>,
  \<open>announce_step\<close>) lets the handlers interleave, and properties hold of every reachable state. \<open>Promise.all\<close>
  runs left to right. Third-party code is a parameter: the dag-cbor, base58, CID and digest functions (\<open>lib\<close>, with \<open>cbor_laws\<close>, \<open>b58_laws\<close>,
  \<open>cid_laws\<close>), signature recovery, chain clients, name resolvers, stores, clocks and the network, each with the
  laws it is assumed to keep as a named hypothesis; every property with a hypothesis has a closed instance.
  Interfaces inside the program are locales, interpreted on the model's own definitions: \<open>bucket_laws\<close>,
  \<open>lww_resolver\<close>, \<open>bundle_store\<close>, \<open>bounded_cache\<close>, \<open>lru_storage\<close>, \<open>rule_memo\<close>, \<open>purging_memo\<close>, \<open>json_store\<close>.

  \<^bold>\<open>Bounds and termination.\<close> The model uses no fuel in what a property is about. Loops over data are structural;
  the retry loop of a fetch is a partial function shown to return (\<open>fetch_retry_returns\<close>: at most 30001
  attempts when each takes a millisecond); the puller has a weight each of its steps lowers. Counters that
  JavaScript keeps as safe integers carry that bound in the schemas, and the other numbers are unbounded.

  \<^bold>\<open>Not modelled.\<close> The HTTP request of an announcement and the search for the host's key, the narrowing of the
  host's node (\<open>transport/helia.ts\<close>), the wiring of dependencies in the public constructor, the abort signals of the router lookup and its dials, the per-peer budget of p-limit,
  rendered error messages, re-exports and type declarations, and tests, fixtures, benchmarks and examples.
\<close>

end
